(* ===== verification/Prelude.thy ===== *)
theory Prelude
  imports Main "HOL-Library.Word"
begin

unbundle bit_operations_syntax

text \<open>
  Shared ground of the development: what a C run can end in, the two hooks that
  decide whether a run goes on after a fatal message (\<open>ndie.c\<close>, \<open>nassert.c\<close>), bounded
  access to a block of memory, \<open>memmove\<close>/\<open>memset\<close>, the reference counter of
  \<open>n_obj_ref.h\<close>, and the list lemmas the containers share.

  Pointers are 64-bit words and \<open>NULL\<close> is 0. Function pointers stored in the
  library's structs are identifiers (\<open>None\<close> is \<open>NULL\<close>); what a caller's function
  computes is a parameter of the model, a field of \<open>env\<close>. Memory allocation
  succeeds in the containers: without a handler \<open>n_malloc\<close> ends the process otherwise, which
  \<open>Memory\<close> models. Sizes of type
  \<open>size_t\<close> are naturals: no block of more than \<open>2\<^sup>6\<^sup>4\<close> bytes exists.
\<close>

section \<open>Values, failures, results\<close>

type_synonym ptr = "64 word"

abbreviation NULL :: ptr where "NULL \<equiv> 0"

text \<open>
  \<open>Died\<close>: \<open>abort()\<close> after the message of \<open>n_die\<close>. \<open>Assert_Failed\<close>: \<open>abort()\<close> in
  \<open>n_assert_fail\<close>. \<open>Exited\<close>: \<open>exit(1)\<close> for want of memory. \<open>Mem_Fault\<close>: the C program reads or writes outside a block,
  through \<open>NULL\<close> or through a freed pointer. \<open>Hang\<close>: the C loop never ends.
\<close>

datatype failure = Died string | Assert_Failed | Exited | Mem_Fault | Hang

type_synonym 'a result = "failure + 'a"

fun rbind :: "'a result \<Rightarrow> ('a \<Rightarrow> 'b result) \<Rightarrow> 'b result" where
  "rbind (Inl f) k = Inl f"
| "rbind (Inr x) k = k x"

lemma rbind_eq_Inr: "rbind m k = Inr y \<longleftrightarrow> (\<exists>x. m = Inr x \<and> k x = Inr y)"
  by (cases m) auto

lemma rbind_eq_Inl: "rbind m k = Inl f \<longleftrightarrow> m = Inl f \<or> (\<exists>x. m = Inr x \<and> k x = Inl f)"
  by (cases m) auto

lemma rbind_assoc: "rbind (rbind m k) h = rbind m (\<lambda>x. rbind (k x) h)"
  by (cases m) auto

lemma rbind_cong [fundef_cong]:
  "m = m' \<Longrightarrow> (\<And>x. m' = Inr x \<Longrightarrow> k x = k' x) \<Longrightarrow> rbind m k = rbind m' k'"
  by (cases m') auto

section \<open>The environment: hooks and the caller's functions\<close>

text \<open>
  \<open>die_hook\<close>: a hook that returns to its caller is installed with
  \<open>n_die_set_hook\<close>; \<open>assert_hook\<close> the same for \<open>n_assert_set_hook\<close>. \<open>user_cmp\<close> and
  \<open>user_dup\<close> are the functions behind the caller's comparison and copy pointers.
\<close>

datatype cmp_id = Cmp_Default | Cmp_User nat

record env =
  die_hook :: bool
  assert_hook :: bool
  user_cmp :: "nat \<Rightarrow> ptr \<Rightarrow> ptr \<Rightarrow> int"
  user_dup :: "nat \<Rightarrow> ptr \<Rightarrow> ptr"

text \<open>No hook installed; a user comparison by value and an identity copy.\<close>

definition plain_env :: env where
  "plain_env = \<lparr>die_hook = False, assert_hook = False,
     user_cmp = (\<lambda>_ p q. uint p - uint q), user_dup = (\<lambda>_ p. p)\<rparr>"

lemma plain_env_sel [simp]:
  "die_hook plain_env = False" "assert_hook plain_env = False"
  "user_cmp plain_env n p q = uint p - uint q" "user_dup plain_env n p = p"
  by (simp_all add: plain_env_def)

definition n_die_set_hook :: "env \<Rightarrow> bool \<Rightarrow> env \<times> bool" where
  "n_die_set_hook e hook = (e\<lparr>die_hook := hook\<rparr>, die_hook e)"

definition n_assert_set_hook :: "env \<Rightarrow> bool \<Rightarrow> env \<times> bool" where
  "n_assert_set_hook e hook = (e\<lparr>assert_hook := hook\<rparr>, assert_hook e)"

text \<open>
  \<open>trurl_die e msg k\<close>: print and abort, or call the hook and go on with \<open>k\<close>.
  \<open>n_assert e b k\<close>: the same for a failed assertion.
\<close>

definition trurl_die :: "env \<Rightarrow> string \<Rightarrow> 'a result \<Rightarrow> 'a result" where
  "trurl_die e msg k = (if die_hook e then k else Inl (Died msg))"

definition n_assert :: "env \<Rightarrow> bool \<Rightarrow> 'a result \<Rightarrow> 'a result" where
  "n_assert e b k = (if b then k else if assert_hook e then k else Inl Assert_Failed)"

definition n_die :: "env \<Rightarrow> string \<Rightarrow> 'a result \<Rightarrow> 'a result" where
  "n_die e msg k = (if die_hook e then k else Inl (Died msg))"

definition set_trurl_err_hook :: "env \<Rightarrow> bool \<Rightarrow> env \<times> bool" where
  "set_trurl_err_hook e hook = n_die_set_hook e hook"

lemma n_assert_True [simp]: "n_assert e True k = k"
  by (simp add: n_assert_def)

lemma n_assert_holds [simp]: "b \<Longrightarrow> n_assert e b k = k"
  by (simp add: n_assert_def)

lemma trurl_die_default [simp]: "\<not> die_hook e \<Longrightarrow> trurl_die e msg k = Inl (Died msg)"
  by (simp add: trurl_die_def)

lemma trurl_die_hooked [simp]: "die_hook e \<Longrightarrow> trurl_die e msg k = k"
  by (simp add: trurl_die_def)

text \<open>\<open>trurl_cmpf.c\<close>: the difference of two addresses, cut to the 32 bits of an \<open>int\<close>.\<close>

definition trurl_default_cmpf :: "ptr \<Rightarrow> ptr \<Rightarrow> int" where
  "trurl_default_cmpf a b = sint (ucast (a - b) :: 32 word)"

fun call_cmp :: "env \<Rightarrow> cmp_id \<Rightarrow> ptr \<Rightarrow> ptr \<Rightarrow> int" where
  "call_cmp e Cmp_Default = trurl_default_cmpf"
| "call_cmp e (Cmp_User n) = user_cmp e n"

section \<open>Blocks of memory\<close>

definition mem_read :: "'a list \<Rightarrow> nat \<Rightarrow> 'a result" where
  "mem_read xs i = (if i < length xs then Inr (xs ! i) else Inl Mem_Fault)"

definition mem_write :: "'a list \<Rightarrow> nat \<Rightarrow> 'a \<Rightarrow> 'a list result" where
  "mem_write xs i v = (if i < length xs then Inr (xs[i := v]) else Inl Mem_Fault)"

definition memmove :: "'a list \<Rightarrow> nat \<Rightarrow> nat \<Rightarrow> nat \<Rightarrow> 'a list result" where
  "memmove xs dst src n =
     (if n = 0 then Inr xs
      else if dst + n \<le> length xs \<and> src + n \<le> length xs
      then Inr (take dst xs @ take n (drop src xs) @ drop (dst + n) xs)
      else Inl Mem_Fault)"

definition memset :: "'a list \<Rightarrow> nat \<Rightarrow> 'a \<Rightarrow> nat \<Rightarrow> 'a list result" where
  "memset xs dst v n =
     (if n = 0 then Inr xs
      else if dst + n \<le> length xs
      then Inr (take dst xs @ replicate n v @ drop (dst + n) xs) else Inl Mem_Fault)"

named_theorems mem_simps

lemma mem_read_ok [mem_simps]: "i < length xs \<Longrightarrow> mem_read xs i = Inr (xs ! i)"
  by (simp add: mem_read_def)

lemma mem_write_ok [mem_simps]: "i < length xs \<Longrightarrow> mem_write xs i v = Inr (xs[i := v])"
  by (simp add: mem_write_def)

lemma mem_read_Inr: "mem_read xs i = Inr x \<longleftrightarrow> i < length xs \<and> x = xs ! i"
  by (auto simp: mem_read_def)

lemma mem_write_Inr: "mem_write xs i v = Inr ys \<longleftrightarrow> i < length xs \<and> ys = xs[i := v]"
  by (auto simp: mem_write_def)

lemma memmove_ok [mem_simps]:
  "dst + n \<le> length xs \<Longrightarrow> src + n \<le> length xs \<Longrightarrow>
   memmove xs dst src n = Inr (take dst xs @ take n (drop src xs) @ drop (dst + n) xs)"
  by (simp add: memmove_def)

lemma memset_ok [mem_simps]:
  "dst + n \<le> length xs \<Longrightarrow> memset xs dst v n = Inr (take dst xs @ replicate n v @ drop (dst + n) xs)"
  by (simp add: memset_def)

section \<open>Reference counts\<close>

text \<open>\<open>n_obj_ref.h\<close>: the counter is the first 16 bits of every object.\<close>

definition n_ref :: "env \<Rightarrow> 16 word \<Rightarrow> 16 word result" where
  "n_ref e v = n_assert e (v < 65534) (Inr (v + 1))"

section \<open>List lemmas\<close>

lemma take_Suc_conv_snoc: "i < length xs \<Longrightarrow> take (Suc i) xs = take i xs @ [xs ! i]"
  by (rule take_Suc_conv_app_nth)

lemma replicate_snoc: "replicate n x @ [x] = replicate (Suc n) x"
  by (simp add: replicate_append_same)

lemma update_between:
  "i = length us \<Longrightarrow> (us @ v # ws)[i := y] = us @ y # ws"
  by simp

end
