(* ===== verification/Interfaces.thy ===== *)
theory Interfaces
  imports Prelude
begin

text \<open>
  The contracts the components state to each other. \<open>stack\<close>: an object that grows and shrinks
  at one end, kept by the dynamic array; \<open>deque\<close>: one that also shrinks at the other end,
  kept by the linked list; \<open>dict\<close>: a map behind calls, kept by both hash tables.
\<close>

section \<open>Stacks\<close>

fun push_list :: "('s \<Rightarrow> 'a \<Rightarrow> 's result) \<Rightarrow> 's \<Rightarrow> 'a list \<Rightarrow> 's result" where
  "push_list push s [] = Inr s"
| "push_list push s (x # xs) = rbind (push s x) (\<lambda>s. push_list push s xs)"

fun pop_list :: "('s \<Rightarrow> ('s \<times> 'a) result) \<Rightarrow> nat \<Rightarrow> 's \<Rightarrow> ('s \<times> 'a list) result" where
  "pop_list pop 0 s = Inr (s, [])"
| "pop_list pop (Suc n) s =
     rbind (pop s) (\<lambda>(s, x). rbind (pop_list pop n s) (\<lambda>(s, xs). Inr (s, x # xs)))"

locale stack =
  fixes push :: "'s \<Rightarrow> 'a \<Rightarrow> 's result"
    and pop :: "'s \<Rightarrow> ('s \<times> 'a) result"
    and elems :: "'s \<Rightarrow> 'a list"
    and inv :: "'s \<Rightarrow> bool"
  assumes push_ok: "inv s \<Longrightarrow> \<exists>s'. push s x = Inr s' \<and> inv s' \<and> elems s' = elems s @ [x]"
    and pop_ok: "inv s \<Longrightarrow> elems s = xs @ [x] \<Longrightarrow>
      \<exists>s'. pop s = Inr (s', x) \<and> inv s' \<and> elems s' = xs"
begin

lemma push_list_ok:
  "inv s \<Longrightarrow> \<exists>s'. push_list push s xs = Inr s' \<and> inv s' \<and> elems s' = elems s @ xs"
proof (induction xs arbitrary: s)
  case Nil
  then show ?case by simp
next
  case (Cons x xs)
  from push_ok [OF Cons.prems, of x] obtain s1
    where "push s x = Inr s1" "inv s1" "elems s1 = elems s @ [x]" by blast
  with Cons.IH [of s1] show ?case by auto
qed

lemma pop_list_ok:
  "inv s \<Longrightarrow> elems s = ys @ xs \<Longrightarrow>
   \<exists>s'. pop_list pop (length xs) s = Inr (s', rev xs) \<and> inv s' \<and> elems s' = ys"
proof (induction xs arbitrary: s rule: rev_induct)
  case Nil
  then show ?case by simp
next
  case (snoc x xs)
  then have "elems s = (ys @ xs) @ [x]" by simp
  from pop_ok [OF snoc.prems(1) this] obtain s1
    where s1: "pop s = Inr (s1, x)" "inv s1" "elems s1 = ys @ xs" by blast
  from snoc.IH [OF s1(2,3)] obtain s2
    where "pop_list pop (length xs) s1 = Inr (s2, rev xs)" "inv s2" "elems s2 = ys" by blast
  with s1(1) show ?case by simp
qed

text \<open>Last in, first out: what is pushed comes back reversed and the object is as before.\<close>

lemma lifo:
  assumes "inv s"
  shows "\<exists>s1 s2. push_list push s xs = Inr s1 \<and>
    pop_list pop (length xs) s1 = Inr (s2, rev xs) \<and> inv s2 \<and> elems s2 = elems s"
  using push_list_ok [OF assms, of xs] pop_list_ok by blast

end

section \<open>Queues\<close>

text \<open>A stack whose other end can be taken off too.\<close>

locale deque = stack push pop elems inv
  for push :: "'s \<Rightarrow> 'a \<Rightarrow> 's result" and pop :: "'s \<Rightarrow> ('s \<times> 'a) result"
    and elems :: "'s \<Rightarrow> 'a list" and inv :: "'s \<Rightarrow> bool" +
  fixes shift :: "'s \<Rightarrow> ('s \<times> 'a) result"
  assumes shift_ok: "inv s \<Longrightarrow> elems s = x # xs \<Longrightarrow>
      \<exists>s'. shift s = Inr (s', x) \<and> inv s' \<and> elems s' = xs"
begin

lemma shift_list_ok:
  "inv s \<Longrightarrow> elems s = xs @ ys \<Longrightarrow>
   \<exists>s'. pop_list shift (length xs) s = Inr (s', xs) \<and> inv s' \<and> elems s' = ys"
proof (induction xs arbitrary: s)
  case Nil
  then show ?case by simp
next
  case (Cons x xs)
  from shift_ok [OF Cons.prems(1), of x "xs @ ys"] Cons.prems(2) obtain s1
    where "shift s = Inr (s1, x)" "inv s1" "elems s1 = xs @ ys" by auto
  with Cons.IH [of s1] show ?case by auto
qed

text \<open>First in, first out: what is pushed onto an empty object comes back in order.\<close>

lemma fifo:
  assumes "inv s" "elems s = []"
  shows "\<exists>s1 s2. push_list push s xs = Inr s1 \<and>
    pop_list shift (length xs) s1 = Inr (s2, xs) \<and> inv s2 \<and> elems s2 = []"
  using push_list_ok [OF assms(1), of xs] shift_list_ok [of _ xs "[]"] assms(2) by fastforce

end

section \<open>Dictionaries\<close>

text \<open>
  A map from keys to pointers behind get, replace and remove: the chained and the
  open-addressing hash table both keep this contract. \<open>contents\<close> is the abstraction;
  a missing key gives \<open>NULL\<close>; a table takes a new key while it has less than
  \<open>limit\<close> keys.
\<close>

datatype 'k dict_call = Get 'k | Put 'k ptr | Del 'k

fun dict_run ::
    "('s \<Rightarrow> 'k \<Rightarrow> ptr result) \<Rightarrow> ('s \<Rightarrow> 'k \<Rightarrow> ptr \<Rightarrow> 's result) \<Rightarrow>
     ('s \<Rightarrow> 'k \<Rightarrow> ('s \<times> ptr) result) \<Rightarrow> 's \<Rightarrow> 'k dict_call list \<Rightarrow> ('s \<times> ptr list) result" where
  "dict_run get put del s [] = Inr (s, [])"
| "dict_run get put del s (Get k # cs) =
     rbind (get s k) (\<lambda>p. rbind (dict_run get put del s cs) (\<lambda>(s, ps). Inr (s, p # ps)))"
| "dict_run get put del s (Put k p # cs) = rbind (put s k p) (\<lambda>s. dict_run get put del s cs)"
| "dict_run get put del s (Del k # cs) =
     rbind (del s k) (\<lambda>(s, p). rbind (dict_run get put del s cs) (\<lambda>(s, ps). Inr (s, p # ps)))"

locale dict =
  fixes get :: "'s \<Rightarrow> 'k \<Rightarrow> ptr result"
    and put :: "'s \<Rightarrow> 'k \<Rightarrow> ptr \<Rightarrow> 's result"
    and del :: "'s \<Rightarrow> 'k \<Rightarrow> ('s \<times> ptr) result"
    and contents :: "'s \<Rightarrow> 'k \<Rightarrow> ptr option"
    and inv :: "'s \<Rightarrow> bool"
    and key :: "'k \<Rightarrow> bool"
    and limit :: nat
  assumes get_ok: "inv s \<Longrightarrow> key k \<Longrightarrow>
      get s k = Inr (case contents s k of None \<Rightarrow> NULL | Some p \<Rightarrow> p)"
    and put_ok: "inv s \<Longrightarrow> key k \<Longrightarrow> card (dom (contents s)) < limit \<Longrightarrow>
      \<exists>s'. put s k p = Inr s' \<and> inv s' \<and> contents s' = (contents s)(k \<mapsto> p)"
    and del_ok: "inv s \<Longrightarrow> key k \<Longrightarrow>
      \<exists>s'. del s k = Inr (s', case contents s k of None \<Rightarrow> NULL | Some p \<Rightarrow> p) \<and>
        inv s' \<and> contents s' = (contents s)(k := None)"
    and finite_dom: "inv s \<Longrightarrow> finite (dom (contents s))"

text \<open>The same calls on a map.\<close>

fun map_run :: "('k \<Rightarrow> ptr option) \<Rightarrow> 'k dict_call list \<Rightarrow> ('k \<Rightarrow> ptr option) \<times> ptr list" where
  "map_run m [] = (m, [])"
| "map_run m (Get k # cs) =
     (case map_run m cs of (m', ps) \<Rightarrow> (m', (case m k of None \<Rightarrow> NULL | Some p \<Rightarrow> p) # ps))"
| "map_run m (Put k p # cs) = map_run (m(k \<mapsto> p)) cs"
| "map_run m (Del k # cs) =
     (case map_run (m(k := None)) cs of
        (m', ps) \<Rightarrow> (m', (case m k of None \<Rightarrow> NULL | Some p \<Rightarrow> p) # ps))"

fun call_key :: "'k dict_call \<Rightarrow> 'k" where
  "call_key (Get k) = k" | "call_key (Put k p) = k" | "call_key (Del k) = k"

context dict
begin

text \<open>Every sequence of calls does what it does on a map.\<close>

lemma run_ok:
  assumes "inv s" "\<forall>c\<in>set cs. key (call_key c)" "card (dom (contents s)) + length cs \<le> limit"
  shows "\<exists>s'. dict_run get put del s cs = Inr (s', snd (map_run (contents s) cs)) \<and> inv s' \<and>
    contents s' = fst (map_run (contents s) cs)"
  using assms
proof (induction cs arbitrary: s)
  case (Cons c cs)
  note fin = finite_dom [OF Cons.prems(1)]
  show ?case
  proof (cases c)
    case (Get k)
    then show ?thesis using Cons.IH [OF Cons.prems(1)] Cons.prems get_ok [of s k]
      by (auto split: prod.splits)
  next
    case (Put k p)
    from put_ok [OF Cons.prems(1), of k p] Cons.prems Put obtain s1
      where s1: "put s k p = Inr s1" "inv s1" "contents s1 = (contents s)(k \<mapsto> p)" by auto
    have "card (dom (contents s1)) \<le> Suc (card (dom (contents s)))"
      using s1(3) fin by (simp add: card_insert_if)
    then have "card (dom (contents s1)) + length cs \<le> limit" using Cons.prems(3) by simp
    from Cons.IH [OF s1(2) _ this] Cons.prems(2) show ?thesis
      unfolding s1(3) by (simp add: Put s1(1) del: fun_upd_apply)
  next
    case (Del k)
    from del_ok [OF Cons.prems(1), of k] Cons.prems Del obtain s1
      where s1: "del s k = Inr (s1, case contents s k of None \<Rightarrow> NULL | Some p \<Rightarrow> p)" "inv s1"
        "contents s1 = (contents s)(k := None)" by auto
    have "card (dom (contents s1)) \<le> card (dom (contents s))"
      using s1(3) fin by (simp add: card_mono)
    then have "card (dom (contents s1)) + length cs \<le> limit" using Cons.prems(3) by simp
    from Cons.IH [OF s1(2) _ this] Cons.prems(2) show ?thesis
      unfolding s1(3) by (auto simp: Del s1(1) simp del: fun_upd_apply split: prod.splits)
  qed
qed simp

lemma get_after_put:
  assumes "inv s" "key k" "key k'" "card (dom (contents s)) < limit"
  shows "\<exists>s'. put s k p = Inr s' \<and> get s' k = Inr p \<and> (k' \<noteq> k \<longrightarrow> get s' k' = get s k')"
  using put_ok [OF assms(1,2,4), of p] get_ok assms by fastforce

end

end
