(* ===== verification/Arrays.thy ===== *)
theory Arrays
  imports Prelude
begin

text \<open>
  The dynamic array \<open>tn_array\<close> (\<open>narray.h\<close> and the \<open>n_array_*.c\<close> files, but for
  searching and sorting, which have theories of their own).

  The record has the C struct's fields. \<open>arr_data\<close> is the block \<open>data\<close> points to;
  \<open>arr_freed\<close> is not in the struct: it is the trace of the calls of \<open>free_fn\<close>, in
  order. An operation that returns \<open>tn_array *\<close> returns the new state and
  whether the pointer is not \<open>NULL\<close>; one that returns \<open>void *\<close> returns state and
  pointer. \<open>array_rep a xs\<close> says that \<open>a\<close> holds \<open>xs\<close>: the items lie from
  \<open>start_index\<close> on and every other cell is \<open>NULL\<close>.
\<close>

section \<open>State\<close>

record tn_array =
  arr_refcnt :: "16 word"
  arr_flags :: "16 word"
  arr_items :: nat
  arr_allocated :: nat
  arr_start_index :: nat
  arr_data :: "ptr list"
  arr_free_fn :: "nat option"
  arr_cmp_fn :: "cmp_id option"
  arr_freed :: "ptr list"

definition TN_ARRAY_CONSTSIZE :: "16 word" where "TN_ARRAY_CONSTSIZE = 1"
definition TN_ARRAY_AUTOSORTED :: "16 word" where "TN_ARRAY_AUTOSORTED = 2"
definition TN_ARRAY_FROZEN :: "16 word" where "TN_ARRAY_FROZEN = 4"
definition TN_ARRAY_INTERNAL_ISSORTED :: "16 word" where "TN_ARRAY_INTERNAL_ISSORTED = 256"
definition TN_ARRAY_INTERNAL_NA :: "16 word" where "TN_ARRAY_INTERNAL_NA = 512"

lemmas array_flag_defs =
  TN_ARRAY_CONSTSIZE_def TN_ARRAY_AUTOSORTED_def TN_ARRAY_FROZEN_def
  TN_ARRAY_INTERNAL_ISSORTED_def TN_ARRAY_INTERNAL_NA_def

definition arr_has :: "tn_array \<Rightarrow> 16 word \<Rightarrow> bool" where
  "arr_has a f = (arr_flags a AND f \<noteq> 0)"

definition n_array_ctl :: "tn_array \<Rightarrow> 16 word \<Rightarrow> tn_array" where
  "n_array_ctl a flags = a\<lparr>arr_flags := arr_flags a OR flags\<rparr>"

definition n_array_freeze :: "tn_array \<Rightarrow> tn_array" where
  "n_array_freeze a = a\<lparr>arr_flags := arr_flags a OR TN_ARRAY_FROZEN\<rparr>"

definition n_array_unfreeze :: "tn_array \<Rightarrow> tn_array" where
  "n_array_unfreeze a = a\<lparr>arr_flags := arr_flags a AND NOT TN_ARRAY_FROZEN\<rparr>"

definition set_sorted :: "tn_array \<Rightarrow> tn_array" where
  "set_sorted a = a\<lparr>arr_flags := arr_flags a OR TN_ARRAY_INTERNAL_ISSORTED\<rparr>"

definition clr_sorted :: "tn_array \<Rightarrow> tn_array" where
  "clr_sorted a = a\<lparr>arr_flags := arr_flags a AND NOT TN_ARRAY_INTERNAL_ISSORTED\<rparr>"

definition n_array_is_sorted :: "tn_array \<Rightarrow> bool" where
  "n_array_is_sorted a = arr_has a TN_ARRAY_INTERNAL_ISSORTED"

definition n_array_ctl_set_freefn :: "tn_array \<Rightarrow> nat option \<Rightarrow> tn_array \<times> nat option" where
  "n_array_ctl_set_freefn a f = (a\<lparr>arr_free_fn := f\<rparr>, arr_free_fn a)"

definition n_array_ctl_set_cmpfn :: "tn_array \<Rightarrow> cmp_id option \<Rightarrow> tn_array \<times> cmp_id option" where
  "n_array_ctl_set_cmpfn a c = (clr_sorted (a\<lparr>arr_cmp_fn := c\<rparr>), arr_cmp_fn a)"

definition n_array_ctl_get_cmpfn :: "tn_array \<Rightarrow> cmp_id option" where
  "n_array_ctl_get_cmpfn arr = arr_cmp_fn arr"

definition die_if_frozen :: "env \<Rightarrow> tn_array \<Rightarrow> 'a result \<Rightarrow> 'a result" where
  "die_if_frozen e a k =
     (if arr_has a TN_ARRAY_FROZEN then trurl_die e ''array is frozen'' k else k)"

text \<open>One call of \<open>free_fn\<close>, if there is one and the cell is not empty.\<close>

definition call_free :: "tn_array \<Rightarrow> ptr \<Rightarrow> tn_array" where
  "call_free a p =
     (if p \<noteq> NULL \<and> arr_free_fn a \<noteq> None then a\<lparr>arr_freed := arr_freed a @ [p]\<rparr> else a)"

definition arr_write :: "tn_array \<Rightarrow> nat \<Rightarrow> ptr \<Rightarrow> tn_array result" where
  "arr_write a i p = rbind (mem_write (arr_data a) i p) (\<lambda>d. Inr (a\<lparr>arr_data := d\<rparr>))"

section \<open>Construction\<close>

definition n_array_init_ex ::
    "env \<Rightarrow> int \<Rightarrow> nat option \<Rightarrow> cmp_id option \<Rightarrow> ptr list option \<Rightarrow> tn_array result" where
  "n_array_init_ex e n0 freef cmpf data0 =
     n_assert e (n0 \<ge> 0)
      (let (d, n, sz) =
         (case data0 of
            Some d \<Rightarrow> (d, nat n0, nat n0)
          | None \<Rightarrow> let sz = (if n0 < 1 then 2 else nat n0) in (replicate sz NULL, 0, sz))
       in Inr \<lparr>arr_refcnt = 0, arr_flags = 0, arr_items = n, arr_allocated = sz,
               arr_start_index = 0, arr_data = d, arr_free_fn = freef,
               arr_cmp_fn = (case cmpf of None \<Rightarrow> Some Cmp_Default | Some c \<Rightarrow> Some c),
               arr_freed = []\<rparr>)"

definition n_array_new_ex ::
    "env \<Rightarrow> int \<Rightarrow> nat option \<Rightarrow> cmp_id option \<Rightarrow> ptr list option \<Rightarrow> tn_array result" where
  "n_array_new_ex e n0 freef cmpf data0 = n_array_init_ex e n0 freef cmpf data0"

definition n_array_new :: "env \<Rightarrow> int \<Rightarrow> nat option \<Rightarrow> cmp_id option \<Rightarrow> tn_array result" where
  "n_array_new e n0 freef cmpf = n_array_new_ex e n0 freef cmpf None"

definition n_array_new_na :: "env \<Rightarrow> int \<Rightarrow> cmp_id option \<Rightarrow> tn_array result" where
  "n_array_new_na e n0 cmpf =
     rbind (n_array_init_ex e n0 None cmpf None)
      (\<lambda>a. Inr (a\<lparr>arr_flags := arr_flags a OR TN_ARRAY_INTERNAL_NA\<rparr>))"

section \<open>Growing\<close>

text \<open>
  \<open>while (req_size >= new_size) new_size *= 2\<close>; \<open>None\<close> when the loop never ends
  (\<open>allocated\<close> is 0, which \<open>n_array_new_ex\<close> allows for a block of size 0).
  In a constant-size array the loop body dies first.
\<close>

partial_function (option) grow_loop :: "nat \<Rightarrow> nat \<Rightarrow> nat option" where
  "grow_loop req sz = (if req \<ge> sz then grow_loop req (sz * 2) else Some sz)"

definition n_array_realloc :: "env \<Rightarrow> tn_array \<Rightarrow> nat \<Rightarrow> tn_array result" where
  "n_array_realloc e a new_size =
     n_assert e (int new_size - int (arr_allocated a) > 0)
      (let tmp = take new_size (arr_data a) @ replicate (new_size - length (arr_data a)) NULL in
       rbind (memset tmp (arr_allocated a) NULL (new_size - arr_allocated a))
         (\<lambda>d. Inr (a\<lparr>arr_data := d, arr_allocated := new_size\<rparr>)))"

definition n_array_grow :: "env \<Rightarrow> tn_array \<Rightarrow> nat \<Rightarrow> (tn_array \<times> bool) result" where
  "n_array_grow e a req_size =
     (if req_size \<ge> arr_allocated a \<and> arr_has a TN_ARRAY_CONSTSIZE
      then trurl_die e ''n_array_grow: grow request for const size array'' (Inr (a, False))
      else case grow_loop req_size (arr_allocated a) of
        None \<Rightarrow> Inl Hang
      | Some new_size \<Rightarrow>
          if new_size > arr_allocated a
          then rbind (n_array_realloc e a new_size) (\<lambda>a'. Inr (a', True))
          else Inr (a, True))"

definition n_array__adjust :: "tn_array \<Rightarrow> tn_array result" where
  "n_array__adjust a =
     (if arr_start_index a = 0 then Inr a
      else rbind
        (if arr_items a > 0
         then rbind (memmove (arr_data a) 0 (arr_start_index a) (arr_items a))
                (\<lambda>d. memset d (arr_items a) NULL (arr_start_index a))
         else Inr (arr_data a))
        (\<lambda>d. Inr (a\<lparr>arr_data := d, arr_start_index := 0\<rparr>)))"

section \<open>Stack and queue operations\<close>

text \<open>The function of \<open>n_array_push.c\<close>, and the inline version clients of \<open>narray.h\<close> call.\<close>

definition n_array_push :: "env \<Rightarrow> tn_array \<Rightarrow> ptr \<Rightarrow> (tn_array \<times> bool) result" where
  "n_array_push e a p =
     die_if_frozen e a
      (rbind (if arr_items a = arr_allocated a
              then n_array_grow e a (arr_allocated a + 1) else Inr (a, True))
        (\<lambda>(a, ok). if \<not> ok then Inr (a, False)
          else rbind (arr_write a (arr_start_index a + arr_items a) p)
           (\<lambda>a. Inr (clr_sorted (a\<lparr>arr_items := arr_items a + 1\<rparr>), True))))"

definition n_array_push_inl :: "env \<Rightarrow> tn_array \<Rightarrow> ptr \<Rightarrow> (tn_array \<times> bool) result" where
  "n_array_push_inl e a p =
     die_if_frozen e a
      (rbind (if arr_items a = arr_allocated a
              then n_array_grow e a (arr_allocated a + 1) else Inr (a, True))
        (\<lambda>(a, ok).
          rbind (arr_write a (arr_start_index a + arr_items a) p)
           (\<lambda>a. Inr (clr_sorted (a\<lparr>arr_items := arr_items a + 1\<rparr>), True))))"

definition n_array_pop :: "env \<Rightarrow> tn_array \<Rightarrow> (tn_array \<times> ptr) result" where
  "n_array_pop e a =
     die_if_frozen e a
      (let pos = arr_start_index a + arr_items a - 1 in
       if arr_items a = 0
       then trurl_die e ''tn_array_pop: pop from empty array'' (Inr (a, NULL))
       else let a = a\<lparr>arr_items := arr_items a - 1\<rparr> in
         rbind (mem_read (arr_data a) pos)
          (\<lambda>p. rbind (arr_write a pos NULL) (\<lambda>a. Inr (a, p))))"

definition n_array_shift :: "env \<Rightarrow> tn_array \<Rightarrow> (tn_array \<times> ptr) result" where
  "n_array_shift e a =
     die_if_frozen e a
      (if arr_items a = 0
       then trurl_die e ''tn_array_shift: shift from empty array'' (Inr (a, NULL))
       else let a = a\<lparr>arr_items := arr_items a - 1\<rparr> in
         rbind (mem_read (arr_data a) (arr_start_index a))
          (\<lambda>p. rbind (arr_write a (arr_start_index a) NULL)
            (\<lambda>a. Inr (a\<lparr>arr_start_index := arr_start_index a + 1\<rparr>, p))))"

definition n_array_unshift :: "env \<Rightarrow> tn_array \<Rightarrow> ptr \<Rightarrow> (tn_array \<times> bool) result" where
  "n_array_unshift e a p =
     die_if_frozen e a
      (rbind
        (if arr_start_index a > 0
         then let a = a\<lparr>arr_start_index := arr_start_index a - 1\<rparr> in
           rbind (arr_write a (arr_start_index a) p) (\<lambda>a. Inr (a, True))
         else
           rbind (if arr_items a = arr_allocated a
                  then n_array_grow e a (arr_allocated a + 1) else Inr (a, True))
            (\<lambda>(a, ok). if \<not> ok then Inr (a, False)
              else rbind (memmove (arr_data a) 1 0 (arr_items a))
               (\<lambda>d. rbind (arr_write (a\<lparr>arr_data := d\<rparr>) 0 p) (\<lambda>a. Inr (a, True)))))
        (\<lambda>(a, ok). if \<not> ok then Inr (a, False)
          else Inr (clr_sorted (a\<lparr>arr_items := arr_items a + 1\<rparr>), True)))"

section \<open>Access by index\<close>

text \<open>\<open>start_index + i\<close> is computed in \<open>size_t\<close>: a negative sum is outside every block.\<close>

definition arr_read_at :: "tn_array \<Rightarrow> int \<Rightarrow> ptr result" where
  "arr_read_at a i =
     (let pos = int (arr_start_index a) + i in
      if pos < 0 then Inl Mem_Fault else mem_read (arr_data a) (nat pos))"

definition n_array_size :: "tn_array \<Rightarrow> nat" where
  "n_array_size a = arr_items a"

definition n_array_nth :: "env \<Rightarrow> tn_array \<Rightarrow> int \<Rightarrow> ptr result" where
  "n_array_nth e a i =
     n_assert e (i \<ge> 0) (n_assert e (arr_allocated a > 0) (n_assert e (arr_items a > 0)
      (if i \<ge> int (arr_items a) \<or> i < 0
       then trurl_die e ''n_array_nth: index out of bounds'' (Inr NULL)
       else arr_read_at a i)))"

definition n_array_nth_inl :: "env \<Rightarrow> tn_array \<Rightarrow> int \<Rightarrow> ptr result" where
  "n_array_nth_inl e a i =
     (if i \<ge> int (arr_items a) \<or> i < 0
      then trurl_die e ''n_array_nth: index out of bounds'' (arr_read_at a i)
      else arr_read_at a i)"

definition n_array_set_nth :: "env \<Rightarrow> tn_array \<Rightarrow> int \<Rightarrow> ptr \<Rightarrow> (tn_array \<times> bool) result" where
  "n_array_set_nth e a i p =
     n_assert e (i \<ge> 0) (n_assert e (arr_allocated a > 0)
      (die_if_frozen e a
       (if i < 0
        then trurl_die e ''n_array_set_nth: index out of bounds'' (Inr (a, False))
        else let pos = arr_start_index a + nat i in
          rbind
           (if pos > arr_allocated a
            then rbind (n_array_grow e a pos)
              (\<lambda>(a, ok). Inr (if ok then a\<lparr>arr_items := pos + 1\<rparr> else a, ok))
            else rbind (mem_read (arr_data a) pos)
              (\<lambda>old. Inr (call_free a old, True)))
           (\<lambda>(a, ok). if \<not> ok then Inr (a, False)
             else rbind (arr_write a pos p) (\<lambda>a. Inr (clr_sorted a, True))))))"

section \<open>Whole-array operations\<close>

text \<open>The copying loop of \<open>n_array_concat_ex\<close>: item \<open>i\<close> of \<open>src\<close> goes to cell \<open>index\<close>.\<close>

function concat_loop ::
    "env \<Rightarrow> tn_array \<Rightarrow> nat option \<Rightarrow> tn_array \<Rightarrow> nat \<Rightarrow> nat \<Rightarrow> (tn_array \<times> nat) result" where
  "concat_loop e src dup a i index =
     (if i < arr_items src
      then rbind (n_array_nth_inl e src (int i))
        (\<lambda>item. rbind (arr_write a index (case dup of None \<Rightarrow> item | Some d \<Rightarrow> user_dup e d item))
          (\<lambda>a. concat_loop e src dup a (Suc i) (Suc index)))
      else Inr (a, index))"
  by pat_completeness auto
termination
  by (relation "measure (\<lambda>(e, src, dup, a, i, index). arr_items src - i)") auto

declare concat_loop.simps [simp del]

definition n_array_concat_ex ::
    "env \<Rightarrow> tn_array \<Rightarrow> tn_array \<Rightarrow> nat option \<Rightarrow> (tn_array \<times> bool) result" where
  "n_array_concat_ex e a src dup =
     die_if_frozen e a
      (rbind (if arr_items a + arr_items src > arr_allocated a
              then n_array_grow e a (arr_allocated a + arr_items src) else Inr (a, True))
        (\<lambda>(a, ok). if \<not> ok then Inr (a, False)
          else rbind (concat_loop e src dup a 0 (arr_start_index a + arr_items a))
           (\<lambda>(a, index). Inr (clr_sorted (a\<lparr>arr_items := index\<rparr>), True))))"

function clean_loop :: "tn_array \<Rightarrow> nat \<Rightarrow> tn_array result" where
  "clean_loop a i =
     (if i < arr_allocated a
      then rbind (mem_read (arr_data a) i)
        (\<lambda>p. if p \<noteq> NULL
             then rbind (arr_write (call_free a p) i NULL)
               (\<lambda>a'. clean_loop (a'\<lparr>arr_allocated := arr_allocated a\<rparr>) (Suc i))
             else clean_loop a (Suc i))
      else Inr a)"
  by pat_completeness auto
termination
  by (relation "measure (\<lambda>(a, i). arr_allocated a - i)") auto

declare clean_loop.simps [simp del]

definition n_array_clean :: "env \<Rightarrow> tn_array \<Rightarrow> tn_array result" where
  "n_array_clean e a =
     die_if_frozen e a
      (rbind (clean_loop a 0) (\<lambda>a. Inr (a\<lparr>arr_start_index := 0, arr_items := 0\<rparr>)))"

text \<open>
  The free functions return the struct while references are left, else \<open>None\<close>
  with the calls of \<open>free_fn\<close>.
\<close>

definition n_array_free :: "env \<Rightarrow> tn_array \<Rightarrow> (tn_array option \<times> ptr list) result" where
  "n_array_free e a =
     (if arr_refcnt a > 0 then Inr (Some (a\<lparr>arr_refcnt := arr_refcnt a - 1\<rparr>), arr_freed a)
      else n_assert e (arr_flags a AND TN_ARRAY_INTERNAL_NA = 0)
        (rbind (n_array_clean e (n_array_unfreeze a)) (\<lambda>a. Inr (None, arr_freed a))))"

definition n_array_free_na :: "env \<Rightarrow> tn_array \<Rightarrow> (tn_array option \<times> ptr list) result" where
  "n_array_free_na e a =
     (if arr_refcnt a > 0 then Inr (Some (a\<lparr>arr_refcnt := arr_refcnt a - 1\<rparr>), arr_freed a)
      else n_assert e (arr_flags a AND TN_ARRAY_INTERNAL_NA = 1)
        (rbind (n_array_clean e a) (\<lambda>a. Inr (None, arr_freed a))))"

definition n_array_cfree :: "env \<Rightarrow> tn_array option \<Rightarrow> (tn_array option \<times> ptr list) result" where
  "n_array_cfree e ap =
     (case ap of None \<Rightarrow> Inr (None, [])
      | Some a \<Rightarrow> rbind (n_array_free e a) (\<lambda>(_, fr). Inr (None, fr)))"

fun push_all :: "env \<Rightarrow> tn_array \<Rightarrow> ptr list \<Rightarrow> tn_array result" where
  "push_all e a [] = Inr a"
| "push_all e a (p # ps) = rbind (n_array_push_inl e a p) (\<lambda>(a, _). push_all e a ps)"

text \<open>The loop of \<open>n_array_clone_ex\<close>: cells \<open>start_index + i\<close> of the source, copied and pushed.\<close>

function clone_loop :: "env \<Rightarrow> tn_array \<Rightarrow> nat \<Rightarrow> tn_array \<Rightarrow> nat \<Rightarrow> tn_array result" where
  "clone_loop e src d a i =
     (if i < arr_items src
      then rbind (mem_read (arr_data src) (arr_start_index src + i))
        (\<lambda>p. rbind (n_array_push_inl e a (user_dup e d p))
          (\<lambda>(a, _). clone_loop e src d a (Suc i)))
      else Inr a)"
  by pat_completeness auto
termination
  by (relation "measure (\<lambda>(e, src, d, a, i). arr_items src - i)") auto

declare clone_loop.simps [simp del]

definition n_array_clone_ex :: "env \<Rightarrow> tn_array \<Rightarrow> nat option \<Rightarrow> tn_array result" where
  "n_array_clone_ex e src dup =
     rbind (n_array_new e (int (arr_allocated src)) (arr_free_fn src) (arr_cmp_fn src))
      (\<lambda>a. let a = a\<lparr>arr_flags := arr_flags src\<rparr> in
        case dup of None \<Rightarrow> Inr a
        | Some d \<Rightarrow> rbind (clone_loop e src d a 0)
            (\<lambda>a. n_assert e (arr_items a = arr_items src) (Inr a)))"

definition n_array_clone :: "env \<Rightarrow> tn_array \<Rightarrow> tn_array result" where
  "n_array_clone e src = n_array_clone_ex e src None"

definition n_array_dup :: "env \<Rightarrow> tn_array \<Rightarrow> nat option \<Rightarrow> tn_array result" where
  "n_array_dup e src dup = n_array_clone_ex e src dup"

text \<open>
  The mapping loops read cells \<open>i < n\<close>. The result is the list of items the
  function is called on, in order.
\<close>

function visit_cells :: "tn_array \<Rightarrow> nat \<Rightarrow> nat \<Rightarrow> ptr list result" where
  "visit_cells a i n =
     (if i < n
      then rbind (mem_read (arr_data a) i)
        (\<lambda>p. rbind (visit_cells a (Suc i) n) (\<lambda>ps. Inr (p # ps)))
      else Inr [])"
  by pat_completeness auto
termination
  by (relation "measure (\<lambda>(a, i, n). n - i)") auto

declare visit_cells.simps [simp del]

definition n_array_map :: "tn_array \<Rightarrow> ptr list result" where
  "n_array_map a = visit_cells a (arr_start_index a) (arr_items a)"

definition n_array_map_arg :: "tn_array \<Rightarrow> ptr list result" where
  "n_array_map_arg a = visit_cells a (arr_start_index a) (arr_items a + arr_start_index a)"

text \<open>\<open>n_array_reverse\<close> swaps cells \<open>i\<close> and \<open>j\<close>, moving inwards.\<close>

function reverse_loop :: "ptr list \<Rightarrow> int \<Rightarrow> int \<Rightarrow> ptr list result" where
  "reverse_loop d i j =
     (if i < j
      then rbind (mem_read d (nat i)) (\<lambda>x. rbind (mem_read d (nat j))
        (\<lambda>y. rbind (mem_write d (nat i) y) (\<lambda>d. rbind (mem_write d (nat j) x)
          (\<lambda>d. reverse_loop d (i + 1) (j - 1)))))
      else Inr d)"
  by pat_completeness auto
termination
  by (relation "measure (\<lambda>(d, i, j). nat (j - i))") auto

declare reverse_loop.simps [simp del]

definition n_array_reverse :: "env \<Rightarrow> tn_array \<Rightarrow> tn_array result" where
  "n_array_reverse e a =
     die_if_frozen e a
      (rbind (reverse_loop (arr_data a) (int (arr_start_index a)) (int (arr_items a) - 1))
        (\<lambda>d. Inr (a\<lparr>arr_data := d\<rparr>)))"

section \<open>Comparing, removing by value, removing duplicates\<close>

text \<open>
  \<open>cmpf\<close> is an argument that defaults to the array's \<open>cmp_fn\<close>; after a failed
  assertion with a returning hook, \<open>n_array_remove_ex\<close> calls through \<open>NULL\<close>.
\<close>

definition pick_cmp :: "cmp_id option \<Rightarrow> cmp_id option \<Rightarrow> cmp_id option" where
  "pick_cmp cmpf dflt = (case cmpf of None \<Rightarrow> dflt | Some c \<Rightarrow> Some c)"

function eq_loop :: "(ptr \<Rightarrow> ptr \<Rightarrow> int) \<Rightarrow> ptr list \<Rightarrow> ptr list \<Rightarrow> nat \<Rightarrow> nat \<Rightarrow> bool result" where
  "eq_loop c d1 d2 i n =
     (if i < n
      then rbind (mem_read d1 i) (\<lambda>x. rbind (mem_read d2 i)
        (\<lambda>y. if c x y \<noteq> 0 then Inr False else eq_loop c d1 d2 (Suc i) n))
      else Inr True)"
  by pat_completeness auto
termination
  by (relation "measure (\<lambda>(c, d1, d2, i, n). n - i)") auto

declare eq_loop.simps [simp del]

definition n_array_eq_ex :: "env \<Rightarrow> tn_array \<Rightarrow> tn_array \<Rightarrow> cmp_id option \<Rightarrow> int result" where
  "n_array_eq_ex e a1 a2 cmpf =
     (let cmpf = pick_cmp cmpf (arr_cmp_fn a1) in
      n_assert e (cmpf \<noteq> None)
       (case cmpf of
          None \<Rightarrow> trurl_die e ''n_array_eq_ex: compare function is NULL'' (Inr (-1))
        | Some c \<Rightarrow>
            if n_array_size a1 \<noteq> n_array_size a2 then Inr 0
            else rbind (eq_loop (call_cmp e c) (arr_data a1) (arr_data a2) 0 (n_array_size a1))
              (\<lambda>b. Inr (if b then 1 else 0))))"

text \<open>
  Closing the gap at cell \<open>i\<close> of the first \<open>m\<close> cells: \<open>memmove\<close> down, \<open>NULL\<close> at the end.
\<close>

definition delete_cell :: "ptr list \<Rightarrow> nat \<Rightarrow> nat \<Rightarrow> ptr list result" where
  "delete_cell d i m =
     rbind (if m - 1 - i > 0 then memmove d i (i + 1) (m - 1 - i) else Inr d)
      (\<lambda>d. mem_write d (m - 1) NULL)"

lemma delete_cell_ok:
  assumes "i < m" "m \<le> length d"
  shows "delete_cell d i m = Inr (take i d @ take (m - 1 - i) (drop (Suc i) d) @ NULL # drop m d)"
proof -
  let ?us = "take i d @ take (m - 1 - i) (drop (Suc i) d)"
  have len: "length ?us = m - 1" using assms by simp
  have "drop (m - 1) d = d ! (m - 1) # drop m d"
    using assms by (metis Cons_nth_drop_Suc Suc_diff_1 Suc_le_lessD diff_Suc_less le_trans
        not_less_zero order_less_le_trans gr0I)
  moreover have "d = take (m - 1) d @ drop (m - 1) d" by simp
  ultimately have "d = take (m - 1) d @ d ! (m - 1) # drop m d" by simp
  then have mv: "rbind (if m - 1 - i > 0 then memmove d i (i + 1) (m - 1 - i) else Inr d)
      (\<lambda>d. Inr d) = Inr (?us @ d ! (m - 1) # drop m d)"
    using assms \<open>drop (m - 1) d = d ! (m - 1) # drop m d\<close>
    by (cases "i = m - 1") (auto simp: memmove_ok)
  then have "(if m - 1 - i > 0 then memmove d i (i + 1) (m - 1 - i) else Inr d)
      = Inr (?us @ d ! (m - 1) # drop m d)"
    by (auto simp: rbind_eq_Inr)
  then have "delete_cell d i m = mem_write (?us @ d ! (m - 1) # drop m d) (m - 1) NULL"
    by (simp add: delete_cell_def)
  also have "\<dots> = Inr ((?us @ d ! (m - 1) # drop m d)[m - 1 := NULL])"
    using len assms by (intro mem_write_ok) simp
  also have "(?us @ d ! (m - 1) # drop m d)[m - 1 := NULL] = ?us @ NULL # drop m d"
    using len by (metis list_update_length)
  finally show ?thesis by simp
qed

definition n_array_remove_nth :: "env \<Rightarrow> tn_array \<Rightarrow> int \<Rightarrow> (tn_array \<times> bool) result" where
  "n_array_remove_nth e a i =
     die_if_frozen e a
      (n_assert e (i \<ge> 0) (n_assert e (arr_allocated a > 0) (n_assert e (arr_items a > 0)
       (if i \<ge> int (arr_items a) \<or> i < 0
        then trurl_die e ''n_array_remove_nth: index out of bounds'' (Inr (a, False))
        else let pos = arr_start_index a + nat i in
          rbind (mem_read (arr_data a) pos)
           (\<lambda>old. let a = call_free a old in
             rbind (if pos = arr_items a
                    then rbind (mem_write (arr_data a) pos NULL)
                           (\<lambda>d. mem_write d (arr_allocated a - 1) NULL)
                    else delete_cell (arr_data a) pos (arr_allocated a))
              (\<lambda>d. Inr (a\<lparr>arr_data := d, arr_items := arr_items a - 1\<rparr>, True)))))))"

text \<open>How many cells from \<open>i\<close> on are in use: what each removal makes smaller.\<close>

definition used_from :: "ptr list \<Rightarrow> nat \<Rightarrow> nat" where
  "used_from d i = length (filter (\<lambda>p. p \<noteq> NULL) (drop i d))"

lemma used_from_Suc: "used_from d (Suc i) \<le> used_from d i"
proof (cases "i < length d")
  case True
  then have "drop i d = d ! i # drop (Suc i) d" by (rule Cons_nth_drop_Suc [symmetric])
  then show ?thesis by (simp add: used_from_def)
qed (simp add: used_from_def)

lemma used_from_delete_cell:
  assumes "delete_cell d i m = Inr d'" "i < m" "i < length d" "d ! i \<noteq> NULL"
  shows "used_from d' i < used_from d i"
proof (cases "m \<le> length d")
  case True
  have "drop i d = d ! i # drop (Suc i) d" using assms(3) by (rule Cons_nth_drop_Suc [symmetric])
  moreover have "drop (Suc i) d = take (m - 1 - i) (drop (Suc i) d) @ drop m d"
    using assms(2) by (metis Suc_leI append_take_drop_id diff_diff_left drop_drop
        le_add_diff_inverse plus_1_eq_Suc add.commute)
  ultimately have "drop i d = d ! i # take (m - 1 - i) (drop (Suc i) d) @ drop m d" by simp
  moreover have "d' = take i d @ take (m - 1 - i) (drop (Suc i) d) @ NULL # drop m d"
    using delete_cell_ok [OF assms(2) True] assms(1) by simp
  ultimately show ?thesis using assms(3,4) by (simp add: used_from_def)
next
  case False
  then show ?thesis using assms(1,2,3)
    by (auto simp: delete_cell_def memmove_def mem_write_def split: if_splits)
qed

lemma call_free_sel [simp]:
  "arr_data (call_free a p) = arr_data a" "arr_items (call_free a p) = arr_items a"
  "arr_allocated (call_free a p) = arr_allocated a" "arr_flags (call_free a p) = arr_flags a"
  "arr_start_index (call_free a p) = arr_start_index a"
  "arr_free_fn (call_free a p) = arr_free_fn a" "arr_cmp_fn (call_free a p) = arr_cmp_fn a"
  "arr_refcnt (call_free a p) = arr_refcnt a"
  by (simp_all add: call_free_def)

function remove_loop ::
    "(ptr \<Rightarrow> ptr \<Rightarrow> int) \<Rightarrow> ptr \<Rightarrow> tn_array \<Rightarrow> nat \<Rightarrow> nat \<Rightarrow> (tn_array \<times> nat) result" where
  "remove_loop c x a i items =
     (if i < arr_allocated a
      then rbind (mem_read (arr_data a) i)
        (\<lambda>p. if p = NULL \<or> c p x \<noteq> 0 then remove_loop c x a (Suc i) items
          else let a' = call_free a p in
            rbind (delete_cell (arr_data a') i (arr_allocated a))
             (\<lambda>d. remove_loop c x (a'\<lparr>arr_data := d\<rparr>) i (items - 1)))
      else Inr (a, items))"
  by pat_completeness auto
termination
proof (relation "measure (\<lambda>(c, x, a, i, items). (arr_allocated a - i) + used_from (arr_data a) i)",
    goal_cases)
  case (2 c x a i items p)
  then show ?case using used_from_Suc [of "arr_data a" i] by simp
next
  case (3 c x a i items p a' d)
  then show ?case using used_from_delete_cell [of "arr_data a" i "arr_allocated a" d]
    by (auto simp: mem_read_Inr)
qed simp

declare remove_loop.simps [simp del]

definition n_array_remove_ex :: "env \<Rightarrow> tn_array \<Rightarrow> ptr \<Rightarrow> cmp_id option \<Rightarrow> tn_array result" where
  "n_array_remove_ex e a x cmpf =
     die_if_frozen e a
      (if arr_items a = 0 then Inr a
       else let cmpf = pick_cmp cmpf (arr_cmp_fn a) in
         n_assert e (cmpf \<noteq> None)
          (case cmpf of None \<Rightarrow> Inl Mem_Fault
           | Some c \<Rightarrow> rbind (remove_loop (call_cmp e c) x a (arr_start_index a) (arr_items a))
               (\<lambda>(a, items). Inr (a\<lparr>arr_items := items\<rparr>))))"

text \<open>
  \<open>n_array_uniq_ex\<close> compares cells \<open>i - 1\<close> and \<open>i\<close> and removes item \<open>i\<close>. A loop
  whose \<open>n_array_remove_nth\<close> fails (a returning hook) goes round for ever.
\<close>

function uniq_loop :: "env \<Rightarrow> (ptr \<Rightarrow> ptr \<Rightarrow> int) \<Rightarrow> tn_array \<Rightarrow> nat \<Rightarrow> tn_array result" where
  "uniq_loop e c a i =
     (if i < arr_items a
      then rbind (mem_read (arr_data a) (i - 1)) (\<lambda>x. rbind (mem_read (arr_data a) i)
        (\<lambda>y. if c x y = 0
          then rbind (n_array_remove_nth e a (int i))
            (\<lambda>(a', ok). if arr_items a' < arr_items a then uniq_loop e c a' i else Inl Hang)
          else uniq_loop e c a (Suc i)))
      else Inr a)"
  by pat_completeness auto
termination
  by (relation "measures [\<lambda>(e, c, a, i). arr_items a, \<lambda>(e, c, a, i). arr_items a - i]") auto

declare uniq_loop.simps [simp del]

definition n_array_uniq_ex :: "env \<Rightarrow> tn_array \<Rightarrow> cmp_id option \<Rightarrow> (tn_array \<times> bool) result" where
  "n_array_uniq_ex e a cmpf =
     die_if_frozen e a
      (let cmpf = pick_cmp cmpf (arr_cmp_fn a) in
       n_assert e (cmpf \<noteq> None)
        (case cmpf of
           None \<Rightarrow> trurl_die e ''n_array_uniq_ex: compare function is NULL'' (Inr (a, False))
         | Some c \<Rightarrow> rbind (uniq_loop e (call_cmp e c) a 1) (\<lambda>a. Inr (a, True))))"

end
