(* ===== verification/ArrayProps.thy ===== *)
theory ArrayProps
  imports Arrays Interfaces
begin

text \<open>
  Correctness of the dynamic array: what every operation does to the list of items,
  the errors, and what the code does to an array whose front has been shifted off.
\<close>

section \<open>The representation\<close>

definition array_rep :: "tn_array \<Rightarrow> ptr list \<Rightarrow> bool" where
  "array_rep a xs \<longleftrightarrow>
     arr_items a = length xs \<and> 0 < arr_allocated a \<and>
     arr_start_index a + length xs \<le> arr_allocated a \<and>
     arr_data a = replicate (arr_start_index a) NULL @ xs @
       replicate (arr_allocated a - arr_start_index a - length xs) NULL"

text \<open>The items of an array, and the arrays that grow freely: the usual case of the callers.\<close>

definition array_elems :: "tn_array \<Rightarrow> ptr list" where
  "array_elems a = take (arr_items a) (drop (arr_start_index a) (arr_data a))"

definition array_wf :: "tn_array \<Rightarrow> bool" where
  "array_wf a \<longleftrightarrow> array_rep a (array_elems a)"

definition array_plain :: "tn_array \<Rightarrow> bool" where
  "array_plain a \<longleftrightarrow> array_wf a \<and> arr_start_index a = 0 \<and>
     \<not> arr_has a TN_ARRAY_FROZEN \<and> \<not> arr_has a TN_ARRAY_CONSTSIZE"

lemma array_rep_elems: "array_rep a xs \<Longrightarrow> array_elems a = xs"
  by (simp add: array_rep_def array_elems_def)

lemma array_rep_wf: "array_rep a xs \<longleftrightarrow> array_wf a \<and> array_elems a = xs"
  by (auto simp: array_wf_def array_rep_elems)

lemma array_rep_length: "array_rep a xs \<Longrightarrow> length (arr_data a) = arr_allocated a"
  by (simp add: array_rep_def)

lemma clr_sorted_sel [simp]:
  "arr_data (clr_sorted a) = arr_data a" "arr_items (clr_sorted a) = arr_items a"
  "arr_allocated (clr_sorted a) = arr_allocated a"
  "arr_start_index (clr_sorted a) = arr_start_index a"
  "arr_free_fn (clr_sorted a) = arr_free_fn a" "arr_cmp_fn (clr_sorted a) = arr_cmp_fn a"
  "arr_refcnt (clr_sorted a) = arr_refcnt a" "arr_freed (clr_sorted a) = arr_freed a"
  by (simp_all add: clr_sorted_def)

lemma clr_sorted_has [simp]:
  "arr_has (clr_sorted a) TN_ARRAY_FROZEN = arr_has a TN_ARRAY_FROZEN"
  "arr_has (clr_sorted a) TN_ARRAY_CONSTSIZE = arr_has a TN_ARRAY_CONSTSIZE"
  "arr_has (clr_sorted a) TN_ARRAY_AUTOSORTED = arr_has a TN_ARRAY_AUTOSORTED"
  by (simp_all add: clr_sorted_def arr_has_def array_flag_defs and.assoc)

lemma arr_has_upd [simp]:
  "arr_has (a\<lparr>arr_data := d\<rparr>) f = arr_has a f"
  "arr_has (a\<lparr>arr_items := n\<rparr>) f = arr_has a f"
  "arr_has (a\<lparr>arr_allocated := n\<rparr>) f = arr_has a f"
  "arr_has (a\<lparr>arr_start_index := n\<rparr>) f = arr_has a f"
  "arr_has (call_free a p) f = arr_has a f"
  by (simp_all add: arr_has_def)

lemma array_rep_meta [simp]: "array_rep (clr_sorted a) xs = array_rep a xs"
  by (simp add: array_rep_def)

lemma array_rep_call_free [simp]: "array_rep (call_free a p) xs = array_rep a xs"
  by (simp add: array_rep_def)

lemma not_frozen [simp]: "\<not> arr_has a TN_ARRAY_FROZEN \<Longrightarrow> die_if_frozen e a k = k"
  by (simp add: die_if_frozen_def)

section \<open>Growing\<close>

lemma grow_loop_pos:
  assumes "0 < sz"
  shows "\<exists>n. grow_loop req sz = Some n \<and> req < n \<and> sz \<le> n"
  using assms
proof (induction "req - sz" arbitrary: sz rule: less_induct)
  case less
  show ?case
  proof (cases "req \<ge> sz")
    case True
    show ?thesis
    proof (cases "req = sz")
      case True
      with less.prems show ?thesis
        by (simp add: grow_loop.simps [of sz sz] grow_loop.simps [of sz "sz * 2"])
    next
      case False
      with True less.prems have "req - sz * 2 < req - sz" "0 < sz * 2" by simp_all
      from less.hyps [OF this] show ?thesis
        using True by (auto simp: grow_loop.simps [of req sz])
    qed
  qed (simp add: grow_loop.simps [of req sz])
qed

lemma grow_loop_zero: "grow_loop req 0 = None"
proof (rule ccontr)
  assume "grow_loop req 0 \<noteq> None"
  then obtain r where r: "grow_loop req 0 = Some r" by blast
  have "0 \<noteq> (0::nat)"
    by (rule grow_loop.raw_induct [where P = "\<lambda>req sz r. sz \<noteq> 0", OF _ r])
       (fastforce split: if_splits)
  then show False by simp
qed

lemma n_array_grow_ok:
  assumes "array_rep a xs" "\<not> arr_has a TN_ARRAY_CONSTSIZE"
  shows "\<exists>n. n_array_grow e a req =
      Inr (a\<lparr>arr_data := arr_data a @ replicate (n - arr_allocated a) NULL, arr_allocated := n\<rparr>, True)
    \<and> req < n \<and> arr_allocated a \<le> n"
proof -
  have pos: "0 < arr_allocated a" and len: "length (arr_data a) = arr_allocated a"
    using assms(1) by (simp_all add: array_rep_def)
  from grow_loop_pos [OF pos, of req] obtain n
    where n: "grow_loop req (arr_allocated a) = Some n" "req < n" "arr_allocated a \<le> n" by blast
  then show ?thesis using assms(2) len
    by (intro exI [of _ n])
       (auto simp: n_array_grow_def n_array_realloc_def Let_def memset_def)
qed

lemma array_rep_grown:
  "array_rep a xs \<Longrightarrow> arr_allocated a \<le> n \<Longrightarrow>
   array_rep (a\<lparr>arr_data := arr_data a @ replicate (n - arr_allocated a) NULL, arr_allocated := n\<rparr>) xs"
  by (auto simp: array_rep_def simp flip: replicate_add)

section \<open>Push, pop, shift, unshift\<close>

lemma arr_write_end:
  assumes "array_rep a xs" "arr_start_index a + length xs < arr_allocated a"
  shows "\<exists>a'. arr_write a (arr_start_index a + length xs) p = Inr a' \<and>
    array_rep (a'\<lparr>arr_items := arr_items a' + 1\<rparr>) (xs @ [p]) \<and>
    a' = a\<lparr>arr_data := arr_data a'\<rparr>"
proof -
  let ?k = "arr_allocated a - arr_start_index a - length xs"
  have k: "replicate ?k NULL = NULL # replicate (?k - 1) NULL"
    using assms(2) by (cases ?k) auto
  have d: "arr_data a = (replicate (arr_start_index a) NULL @ xs) @ NULL # replicate (?k - 1) NULL"
    using assms(1) k by (simp add: array_rep_def)
  have "mem_write (arr_data a) (arr_start_index a + length xs) p =
      Inr ((replicate (arr_start_index a) NULL @ xs) @ p # replicate (?k - 1) NULL)"
    by (subst d, subst mem_write_ok) (auto simp: d list_update_append)
  then show ?thesis using assms by (simp add: arr_write_def array_rep_def)
qed


text \<open>
  Where a push has room: a cell behind the last item, or a full block that starts
  at 0 and may grow. The remaining case, items shifted off and no cell behind, is
  taken up below.
\<close>

definition push_room :: "tn_array \<Rightarrow> bool" where
  "push_room a \<longleftrightarrow> arr_start_index a + arr_items a < arr_allocated a \<or>
     (arr_items a = arr_allocated a \<and> \<not> arr_has a TN_ARRAY_CONSTSIZE)"

lemma room_grown:
  assumes "array_rep a xs" "push_room a"
  shows "\<exists>a'. (if arr_items a = arr_allocated a
      then n_array_grow e a (arr_allocated a + 1) else Inr (a, True)) = Inr (a', True) \<and>
    array_rep a' xs \<and> arr_start_index a' + length xs < arr_allocated a' \<and>
    arr_allocated a \<le> arr_allocated a' \<and>
    a' = a\<lparr>arr_data := arr_data a', arr_allocated := arr_allocated a'\<rparr>"
proof (cases "arr_items a = arr_allocated a")
  case True
  with assms have "\<not> arr_has a TN_ARRAY_CONSTSIZE" and st: "arr_start_index a = 0"
    by (auto simp: push_room_def array_rep_def)
  from n_array_grow_ok [OF assms(1) this(1), of e "arr_allocated a + 1"] obtain n
    where n: "n_array_grow e a (arr_allocated a + 1) =
        Inr (a\<lparr>arr_data := arr_data a @ replicate (n - arr_allocated a) NULL, arr_allocated := n\<rparr>, True)"
      "arr_allocated a + 1 < n" by blast
  then show ?thesis using True st assms(1) array_rep_grown [OF assms(1), of n]
    by (auto simp: array_rep_def)
next
  case False
  with assms show ?thesis by (auto simp: push_room_def array_rep_def)
qed

lemma n_array_push_inl_ok:
  assumes "array_rep a xs" "\<not> arr_has a TN_ARRAY_FROZEN" "push_room a"
  shows "\<exists>a'. n_array_push_inl e a p = Inr (a', True) \<and> array_rep a' (xs @ [p]) \<and>
    n_array_push e a p = Inr (a', True) \<and>
    arr_start_index a' = arr_start_index a \<and> arr_freed a' = arr_freed a \<and>
    arr_flags a' = arr_flags a AND NOT TN_ARRAY_INTERNAL_ISSORTED \<and>
    arr_free_fn a' = arr_free_fn a \<and> arr_cmp_fn a' = arr_cmp_fn a \<and>
    arr_allocated a \<le> arr_allocated a'"
proof -
  from room_grown [OF assms(1,3), of e] obtain a1 where a1:
    "(if arr_items a = arr_allocated a
      then n_array_grow e a (arr_allocated a + 1) else Inr (a, True)) = Inr (a1, True)"
    "array_rep a1 xs" "arr_start_index a1 + length xs < arr_allocated a1"
    "arr_allocated a \<le> arr_allocated a1"
    "a1 = a\<lparr>arr_data := arr_data a1, arr_allocated := arr_allocated a1\<rparr>" by blast
  from arr_write_end [OF a1(2,3), of p] obtain a2 where a2:
    "arr_write a1 (arr_start_index a1 + length xs) p = Inr a2"
    "array_rep (a2\<lparr>arr_items := arr_items a2 + 1\<rparr>) (xs @ [p])"
    "a2 = a1\<lparr>arr_data := arr_data a2\<rparr>" by blast
  have it: "arr_items a1 = length xs" using a1(2) by (simp add: array_rep_def)
  let ?r = "clr_sorted (a2\<lparr>arr_items := arr_items a2 + 1\<rparr>)"
  have "n_array_push_inl e a p = Inr (?r, True)" "n_array_push e a p = Inr (?r, True)"
    using assms(2) a1(1) a2(1) it
    by (simp_all add: n_array_push_inl_def n_array_push_def del: rbind.simps split del: if_split,
        simp_all)
  moreover have "array_rep ?r (xs @ [p])" using a2(2) by simp
  moreover have "arr_start_index ?r = arr_start_index a" "arr_freed ?r = arr_freed a"
      "arr_flags ?r = arr_flags a AND NOT TN_ARRAY_INTERNAL_ISSORTED"
      "arr_free_fn ?r = arr_free_fn a" "arr_cmp_fn ?r = arr_cmp_fn a"
      "arr_allocated ?r = arr_allocated a1"
    by (subst a2(3), subst a1(5), simp add: clr_sorted_def)+
  ultimately show ?thesis using a1(4) by (intro exI [of _ ?r]) simp
qed

lemma n_array_pop_ok:
  assumes "array_rep a (xs @ [x])" "\<not> arr_has a TN_ARRAY_FROZEN"
  shows "\<exists>a'. n_array_pop e a = Inr (a', x) \<and> array_rep a' xs \<and>
    arr_start_index a' = arr_start_index a \<and> arr_flags a' = arr_flags a \<and>
    arr_freed a' = arr_freed a"
proof -
  let ?s = "arr_start_index a"
  let ?k = "arr_allocated a - ?s - Suc (length xs)"
  have d: "arr_data a = (replicate ?s NULL @ xs) @ x # replicate ?k NULL"
    using assms(1) by (simp add: array_rep_def)
  have it: "arr_items a = Suc (length xs)" "?s + Suc (length xs) \<le> arr_allocated a"
    using assms(1) by (simp_all add: array_rep_def)
  have rd: "mem_read (arr_data a) (?s + length xs) = Inr x"
    by (simp add: d mem_read_def nth_append)
  have wr: "mem_write (arr_data a) (?s + length xs) NULL =
      Inr ((replicate ?s NULL @ xs) @ NULL # replicate ?k NULL)"
    by (simp add: d mem_write_def list_update_append)
  have k: "replicate (arr_allocated a - ?s - length xs) NULL = NULL # replicate ?k NULL"
    using it(2) by (metis Suc_diff_Suc Suc_le_lessD add_Suc_right diff_diff_left replicate_Suc)
  show ?thesis using assms rd wr it k
    by (auto simp: n_array_pop_def arr_write_def Let_def array_rep_def)
qed

lemma n_array_shift_ok:
  assumes "array_rep a (x # xs)" "\<not> arr_has a TN_ARRAY_FROZEN"
  shows "\<exists>a'. n_array_shift e a = Inr (a', x) \<and> array_rep a' xs \<and>
    arr_start_index a' = Suc (arr_start_index a) \<and> arr_flags a' = arr_flags a \<and>
    arr_freed a' = arr_freed a \<and> arr_allocated a' = arr_allocated a"
proof -
  let ?s = "arr_start_index a"
  let ?k = "arr_allocated a - ?s - Suc (length xs)"
  have d: "arr_data a = replicate ?s NULL @ x # xs @ replicate ?k NULL"
    using assms(1) by (simp add: array_rep_def)
  have it: "arr_items a = Suc (length xs)" "?s + Suc (length xs) \<le> arr_allocated a"
    using assms(1) by (simp_all add: array_rep_def)
  have rd: "mem_read (arr_data a) ?s = Inr x"
    by (simp add: d mem_read_def nth_append)
  have wr: "mem_write (arr_data a) ?s NULL = Inr (replicate ?s NULL @ NULL # xs @ replicate ?k NULL)"
    by (simp add: d mem_write_def list_update_append)
  have "replicate ?s NULL @ NULL # xs @ ys = replicate (Suc ?s) NULL @ xs @ ys" for ys
    using replicate_snoc [of ?s NULL] by (metis append.assoc append_Cons append_Nil)
  then show ?thesis using assms rd wr it
    by (auto simp: n_array_shift_def arr_write_def Let_def array_rep_def)
qed

lemma n_array_unshift_ok:
  assumes "array_rep a xs" "\<not> arr_has a TN_ARRAY_FROZEN" "\<not> arr_has a TN_ARRAY_CONSTSIZE"
  shows "\<exists>a'. n_array_unshift e a p = Inr (a', True) \<and> array_rep a' (p # xs) \<and>
    arr_start_index a' = arr_start_index a - 1 \<and>
    arr_flags a' = arr_flags a AND NOT TN_ARRAY_INTERNAL_ISSORTED \<and> arr_freed a' = arr_freed a"
proof (cases "arr_start_index a")
  case (Suc s)
  let ?k = "arr_allocated a - Suc s - length xs"
  have d: "arr_data a = replicate s NULL @ NULL # xs @ replicate ?k NULL"
    using assms(1) Suc replicate_snoc [of s NULL]
    by (simp add: array_rep_def)
  have wr: "mem_write (arr_data a) s p = Inr (replicate s NULL @ p # xs @ replicate ?k NULL)"
    by (simp add: d mem_write_def list_update_append)
  show ?thesis using assms wr Suc
    by (auto simp: n_array_unshift_def arr_write_def Let_def array_rep_def clr_sorted_def)
next
  case 0
  have room: "push_room a" using assms(1,3) 0 by (auto simp: push_room_def array_rep_def)
  from room_grown [OF assms(1) room, of e] obtain a1 where a1:
    "(if arr_items a = arr_allocated a
      then n_array_grow e a (arr_allocated a + 1) else Inr (a, True)) = Inr (a1, True)"
    "array_rep a1 xs" "arr_start_index a1 + length xs < arr_allocated a1"
    "arr_allocated a \<le> arr_allocated a1"
    "a1 = a\<lparr>arr_data := arr_data a1, arr_allocated := arr_allocated a1\<rparr>" by blast
  have st: "arr_start_index a1 = 0" by (subst a1(5)) (simp add: 0)
  let ?k = "arr_allocated a1 - Suc (length xs)"
  have k: "replicate (arr_allocated a1 - length xs) NULL = NULL # replicate ?k NULL"
    using a1(3) st by (metis Suc_diff_Suc add_0 replicate_Suc)
  have d: "arr_data a1 = xs @ NULL # replicate ?k NULL" and it: "arr_items a1 = length xs"
    using a1(2) st k by (simp_all add: array_rep_def)
  have mv: "memmove (arr_data a1) 1 0 (length xs) =
      Inr (take 1 (arr_data a1) @ xs @ replicate ?k NULL)"
    by (cases "xs = []") (simp_all add: d memmove_def)
  have wr: "mem_write (take 1 (arr_data a1) @ xs @ replicate ?k NULL) 0 p =
      Inr (p # xs @ replicate ?k NULL)"
    by (cases xs) (simp_all add: d mem_write_def)
  let ?r = "clr_sorted (a1\<lparr>arr_data := p # xs @ replicate ?k NULL, arr_items := Suc (length xs)\<rparr>)"
  have "n_array_unshift e a p = Inr (?r, True)"
    using assms(2) 0 a1(1) mv wr it
    by (simp add: n_array_unshift_def arr_write_def split del: if_split)
  moreover have "array_rep ?r (p # xs)"
    using a1(3) st by (simp add: array_rep_def)
  moreover have "arr_start_index ?r = 0" using st by simp
  moreover have "arr_flags ?r = arr_flags a AND NOT TN_ARRAY_INTERNAL_ISSORTED"
      "arr_freed ?r = arr_freed a"
    by (subst a1(5), simp add: clr_sorted_def)+
  ultimately show ?thesis using 0 by auto
qed


section \<open>Access by index\<close>

lemma arr_read_at_ok:
  assumes "array_rep a xs" "i < length xs"
  shows "arr_read_at a (int i) = Inr (xs ! i)"
proof -
  have "nat (int (arr_start_index a) + int i) = arr_start_index a + i" by simp
  then show ?thesis using assms
    by (simp add: arr_read_at_def Let_def array_rep_def mem_read_def nth_append)
qed

lemma n_array_nth_ok:
  assumes "array_rep a xs" "i < length xs"
  shows "n_array_nth e a (int i) = Inr (xs ! i)" "n_array_nth_inl e a (int i) = Inr (xs ! i)"
  using assms arr_read_at_ok [OF assms]
  by (auto simp: n_array_nth_def n_array_nth_inl_def array_rep_def n_assert_def)

lemma arr_write_mid:
  assumes "array_rep a xs" "i < length xs"
  shows "\<exists>a'. arr_write a (arr_start_index a + i) p = Inr a' \<and> array_rep a' (xs[i := p]) \<and>
    a' = a\<lparr>arr_data := arr_data a'\<rparr>"
proof -
  have "mem_write (arr_data a) (arr_start_index a + i) p =
      Inr (replicate (arr_start_index a) NULL @ xs[i := p] @
        replicate (arr_allocated a - arr_start_index a - length xs) NULL)"
    using assms by (simp add: array_rep_def mem_write_def list_update_append)
  then show ?thesis using assms by (simp add: arr_write_def array_rep_def)
qed

text \<open>Setting an item in use: the old pointer goes to \<open>free_fn\<close> unless it is \<open>NULL\<close>.\<close>

lemma n_array_set_nth_ok:
  assumes "array_rep a xs" "i < length xs" "\<not> arr_has a TN_ARRAY_FROZEN"
  shows "\<exists>a'. n_array_set_nth e a (int i) p = Inr (a', True) \<and> array_rep a' (xs[i := p]) \<and>
    arr_start_index a' = arr_start_index a \<and>
    arr_freed a' = arr_freed a @
      (if xs ! i \<noteq> NULL \<and> arr_free_fn a \<noteq> None then [xs ! i] else [])"
proof -
  let ?a = "call_free a (xs ! i)"
  have rep: "array_rep ?a xs" using assms(1) by (simp add: array_rep_def)
  from arr_write_mid [OF rep assms(2), of p] obtain a1 where a1:
    "arr_write ?a (arr_start_index ?a + i) p = Inr a1" "array_rep a1 (xs[i := p])"
    "a1 = ?a\<lparr>arr_data := arr_data a1\<rparr>" by blast
  have st: "arr_start_index ?a = arr_start_index a" by simp
  have rd: "mem_read (arr_data a) (arr_start_index a + i) = Inr (xs ! i)"
    using assms(1,2) by (simp add: array_rep_def mem_read_def nth_append)
  have "n_array_set_nth e a (int i) p = Inr (clr_sorted a1, True)"
    using assms rd a1(1) st
    by (simp add: n_array_set_nth_def Let_def array_rep_def split del: if_split)
  moreover have "arr_start_index (clr_sorted a1) = arr_start_index a"
    "arr_freed (clr_sorted a1) = arr_freed a @
      (if xs ! i \<noteq> NULL \<and> arr_free_fn a \<noteq> None then [xs ! i] else [])"
    by (subst a1(3), simp add: call_free_def)+
  ultimately show ?thesis using a1(2) by (intro exI [of _ "clr_sorted a1"]) simp
qed

section \<open>Removing by index\<close>

text \<open>Deleting the cell of item \<open>i\<close> closes the gap and leaves \<open>NULL\<close> behind the items.\<close>

lemma delete_cell_items:
  assumes "array_rep a xs" "i < length xs"
  shows "delete_cell (arr_data a) (arr_start_index a + i) (arr_allocated a) =
    Inr (replicate (arr_start_index a) NULL @ (take i xs @ drop (Suc i) xs) @
      replicate (Suc (arr_allocated a - arr_start_index a - length xs)) NULL)"
proof -
  let ?s = "arr_start_index a" and ?m = "arr_allocated a"
  let ?k = "?m - ?s - length xs"
  have d: "arr_data a = replicate ?s NULL @ xs @ replicate ?k NULL" and le: "?s + length xs \<le> ?m"
    using assms(1) by (simp_all add: array_rep_def)
  have "delete_cell (arr_data a) (?s + i) ?m =
      Inr (take (?s + i) (arr_data a) @ take (?m - 1 - (?s + i)) (drop (Suc (?s + i)) (arr_data a))
           @ NULL # drop ?m (arr_data a))"
    using assms(2) le by (intro delete_cell_ok) (simp_all add: d)
  moreover have "take (?s + i) (arr_data a) = replicate ?s NULL @ take i xs"
    using assms(2) by (simp add: d)
  moreover have "drop (Suc (?s + i)) (arr_data a) = drop (Suc i) xs @ replicate ?k NULL"
    using assms(2) by (simp add: d)
  moreover have "drop ?m (arr_data a) = []" using le by (simp add: d)
  moreover have "?m - 1 - (?s + i) = length (drop (Suc i) xs @ replicate ?k NULL)"
    using assms(2) le by simp
  ultimately show ?thesis by (simp add: replicate_snoc del: replicate_Suc)
qed

lemma array_rep_deleted:
  assumes "array_rep a xs" "i < length xs"
  shows "array_rep (a\<lparr>arr_data := replicate (arr_start_index a) NULL @
      (take i xs @ drop (Suc i) xs) @
      replicate (Suc (arr_allocated a - arr_start_index a - length xs)) NULL,
      arr_items := length xs - 1\<rparr>) (take i xs @ drop (Suc i) xs)"
  using assms by (auto simp: array_rep_def Suc_diff_le simp del: replicate_Suc)

text \<open>
  \<open>n_array_remove_nth\<close> closes the gap unless \<open>start_index + i\<close> happens to be the
  number of items: then it only clears the cell, right if that is the last item.
\<close>

lemma n_array_remove_nth_ok:
  assumes "array_rep a xs" "i < length xs" "\<not> arr_has a TN_ARRAY_FROZEN"
    and "arr_start_index a + i = length xs \<Longrightarrow> Suc i = length xs"
  shows "\<exists>a'. n_array_remove_nth e a (int i) = Inr (a', True) \<and>
    array_rep a' (take i xs @ drop (Suc i) xs) \<and> arr_start_index a' = arr_start_index a \<and>
    arr_freed a' = arr_freed a @
      (if xs ! i \<noteq> NULL \<and> arr_free_fn a \<noteq> None then [xs ! i] else []) \<and>
    arr_flags a' = arr_flags a"
proof -
  let ?s = "arr_start_index a" and ?k = "arr_allocated a - arr_start_index a - length xs"
  let ?a = "call_free a (xs ! i)"
  let ?d = "replicate ?s NULL @ (take i xs @ drop (Suc i) xs) @ replicate (Suc ?k) NULL"
  have dat: "arr_data a = replicate ?s NULL @ xs @ replicate ?k NULL"
    and it: "arr_items a = length xs" "0 < arr_allocated a" "?s + length xs \<le> arr_allocated a"
    using assms(1) by (simp_all add: array_rep_def)
  have rd: "mem_read (arr_data a) (?s + i) = Inr (xs ! i)"
    using assms(2) by (simp add: dat mem_read_def nth_append)
  have step: "(if ?s + i = length xs
      then rbind (mem_write (arr_data a) (?s + i) NULL) (\<lambda>d. mem_write d (arr_allocated a - 1) NULL)
      else delete_cell (arr_data a) (?s + i) (arr_allocated a)) = Inr ?d"
  proof (cases "?s + i = length xs")
    case True
    with assms(4) obtain ys y where xs: "xs = ys @ [y]" "length ys = i"
      by (metis length_Suc_conv_rev)
    have "mem_write (arr_data a) (?s + i) NULL = Inr ((replicate ?s NULL @ ys) @ replicate (Suc ?k) NULL)"
      using xs by (simp add: dat mem_write_def list_update_append)
    moreover have "arr_allocated a - 1 = length (replicate ?s NULL @ ys) + ?k" using xs it by simp
    then have "mem_write ((replicate ?s NULL @ ys) @ replicate (Suc ?k) NULL)
        (arr_allocated a - 1) NULL = Inr ((replicate ?s NULL @ ys) @ replicate (Suc ?k) NULL)"
      by (simp add: mem_write_def list_update_append list_update_same_conv del: replicate_Suc)
    ultimately show ?thesis using True xs by (simp del: replicate_Suc)
  next
    case False
    then show ?thesis using delete_cell_items [OF assms(1,2)] by simp
  qed
  let ?r = "?a\<lparr>arr_data := ?d, arr_items := length xs - 1\<rparr>"
  have "n_array_remove_nth e a (int i) = Inr (?r, True)"
    using assms(2,3) it rd step
    by (simp add: n_array_remove_nth_def Let_def n_assert_def del: replicate_Suc split del: if_split)
       (auto simp del: replicate_Suc)
  moreover have "array_rep ?r (take i xs @ drop (Suc i) xs)"
    using array_rep_deleted [of ?a xs i] assms(1,2) by (simp del: replicate_Suc)
  ultimately show ?thesis by (intro exI [of _ ?r]) (simp add: call_free_def)
qed


section \<open>Whole-array operations\<close>

lemma concat_loop_ok:
  assumes "array_rep src ys" "i \<le> length ys" "index + (length ys - i) \<le> length (arr_data a)"
  shows "concat_loop e src dup a i index =
    Inr (a\<lparr>arr_data := take index (arr_data a) @
        map (case dup of None \<Rightarrow> id | Some d \<Rightarrow> user_dup e d) (drop i ys) @
        drop (index + (length ys - i)) (arr_data a)\<rparr>, index + (length ys - i))"
  using assms(2,3)
proof (induction "length ys - i" arbitrary: a i index)
  case 0
  moreover have "arr_items src = length ys" using assms(1) by (simp add: array_rep_def)
  ultimately show ?case by (simp add: concat_loop.simps [of e src dup a i index])
next
  case (Suc n)
  let ?f = "case dup of None \<Rightarrow> id | Some d \<Rightarrow> user_dup e d"
  let ?a = "a\<lparr>arr_data := (arr_data a)[index := ?f (ys ! i)]\<rparr>"
  have i: "i < length ys" and ix: "index < length (arr_data a)" using Suc by simp_all
  have it: "arr_items src = length ys" using assms(1) by (simp add: array_rep_def)
  have item: "(case dup of None \<Rightarrow> ys ! i | Some d \<Rightarrow> user_dup e d (ys ! i)) = ?f (ys ! i)"
    by (cases dup) simp_all
  have "concat_loop e src dup a i index = concat_loop e src dup ?a (Suc i) (Suc index)"
    using i ix it n_array_nth_ok(2) [OF assms(1) i, of e] item
    by (simp add: concat_loop.simps [of e src dup a i index] arr_write_def mem_write_def)
  also have "\<dots> = Inr (?a\<lparr>arr_data := take (Suc index) (arr_data ?a) @ map ?f (drop (Suc i) ys) @
      drop (Suc index + (length ys - Suc i)) (arr_data ?a)\<rparr>, Suc index + (length ys - Suc i))"
    using Suc by (intro Suc.hyps) simp_all
  finally have step: "concat_loop e src dup a i index = \<dots>" .
  have "drop i ys = ys ! i # drop (Suc i) ys" using i by (rule Cons_nth_drop_Suc [symmetric])
  moreover have "Suc (index + length ys - Suc i) = index + length ys - i"
    "Suc index + (length ys - Suc i) = index + (length ys - i)" using i by simp_all
  ultimately show ?case using step ix by (simp add: take_Suc_conv_snoc)
qed

text \<open>Appending to an array that starts at 0 and may grow.\<close>

lemma n_array_concat_ex_ok:
  assumes "array_rep a xs" "array_rep src ys" "arr_start_index a = 0"
    and "\<not> arr_has a TN_ARRAY_FROZEN" "\<not> arr_has a TN_ARRAY_CONSTSIZE"
  shows "\<exists>a'. n_array_concat_ex e a src dup = Inr (a', True) \<and> arr_start_index a' = 0 \<and>
    array_rep a' (xs @ map (case dup of None \<Rightarrow> id | Some d \<Rightarrow> user_dup e d) ys)"
proof -
  let ?f = "case dup of None \<Rightarrow> id | Some d \<Rightarrow> user_dup e d"
  have it: "arr_items a = length xs" "arr_items src = length ys" and le: "length xs \<le> arr_allocated a"
    using assms(1,2) by (simp_all add: array_rep_def)
  have "\<exists>a1. (if arr_items a + arr_items src > arr_allocated a
      then n_array_grow e a (arr_allocated a + arr_items src) else Inr (a, True)) = Inr (a1, True) \<and>
    array_rep a1 xs \<and> arr_start_index a1 = 0 \<and> length xs + length ys \<le> arr_allocated a1"
  proof (cases "arr_items a + arr_items src > arr_allocated a")
    case True
    from n_array_grow_ok [OF assms(1,5), of e "arr_allocated a + arr_items src"] obtain n
      where n: "n_array_grow e a (arr_allocated a + arr_items src) =
        Inr (a\<lparr>arr_data := arr_data a @ replicate (n - arr_allocated a) NULL, arr_allocated := n\<rparr>, True)"
        "arr_allocated a + arr_items src < n" "arr_allocated a \<le> n" by blast
    have "length xs + length ys \<le> n" using n(2) le it by simp
    with n array_rep_grown [OF assms(1) n(3)] True it assms(3) show ?thesis by simp
  qed (use assms it in simp)
  then obtain a1 where a1: "(if arr_items a + arr_items src > arr_allocated a
      then n_array_grow e a (arr_allocated a + arr_items src) else Inr (a, True)) = Inr (a1, True)"
    "array_rep a1 xs" "arr_start_index a1 = 0" "length xs + length ys \<le> arr_allocated a1" by blast
  have d1: "arr_data a1 = xs @ replicate (arr_allocated a1 - length xs) NULL" "arr_items a1 = length xs"
    using a1(2,3) by (simp_all add: array_rep_def)
  have "concat_loop e src dup a1 0 (length xs) =
      Inr (a1\<lparr>arr_data := xs @ map ?f ys @ replicate (arr_allocated a1 - length xs - length ys) NULL\<rparr>,
        length xs + length ys)"
    using concat_loop_ok [OF assms(2), of 0 "length xs" a1 e dup] d1 a1(4) by simp
  then show ?thesis using assms(4) a1 d1 it
    by (auto simp: n_array_concat_ex_def array_rep_def split del: if_split)
qed

text \<open>Cleaning hands every pointer that is not \<open>NULL\<close> to \<open>free_fn\<close>, in order, and empties the array.\<close>

lemma clean_loop_ok:
  assumes "length (arr_data a) = arr_allocated a" "i \<le> arr_allocated a"
  shows "clean_loop a i = Inr (a\<lparr>arr_data := take i (arr_data a) @ replicate (arr_allocated a - i) NULL,
    arr_freed := arr_freed a @ (if arr_free_fn a = None then []
      else filter (\<lambda>p. p \<noteq> NULL) (drop i (arr_data a)))\<rparr>)"
  using assms
proof (induction "arr_allocated a - i" arbitrary: a i)
  case 0
  then show ?case by (simp add: clean_loop.simps [of a i])
next
  case (Suc n)
  let ?p = "arr_data a ! i"
  have i: "i < length (arr_data a)" using Suc by simp
  have dr: "drop i (arr_data a) = ?p # drop (Suc i) (arr_data a)"
    using i by (rule Cons_nth_drop_Suc [symmetric])
  have rep: "replicate (arr_allocated a - i) NULL = NULL # replicate (arr_allocated a - Suc i) NULL"
    using Suc by (metis Suc_diff_Suc replicate_Suc zero_less_Suc zero_less_diff)
  show ?case
  proof (cases "?p = NULL")
    case True
    have "clean_loop a i = clean_loop a (Suc i)"
      using True i Suc.prems by (simp add: clean_loop.simps [of a i] mem_read_ok)
    also have "\<dots> = Inr (a\<lparr>arr_data := take (Suc i) (arr_data a) @ replicate (arr_allocated a - Suc i) NULL,
        arr_freed := arr_freed a @ (if arr_free_fn a = None then []
          else filter (\<lambda>p. p \<noteq> NULL) (drop (Suc i) (arr_data a)))\<rparr>)"
      using Suc i by (intro Suc.hyps) simp_all
    finally show ?thesis using True i rep dr by (simp add: take_Suc_conv_snoc)
  next
    case False
    let ?a = "(call_free a ?p)\<lparr>arr_data := (arr_data a)[i := NULL], arr_allocated := arr_allocated a\<rparr>"
    have "clean_loop a i = clean_loop ?a (Suc i)"
      using False i Suc.prems
      by (simp add: clean_loop.simps [of a i] mem_read_ok arr_write_def mem_write_ok)
    also have "\<dots> = Inr (?a\<lparr>arr_data := take (Suc i) (arr_data ?a) @ replicate (arr_allocated ?a - Suc i) NULL,
        arr_freed := arr_freed ?a @ (if arr_free_fn ?a = None then []
          else filter (\<lambda>p. p \<noteq> NULL) (drop (Suc i) (arr_data ?a)))\<rparr>)"
      using Suc i by (intro Suc.hyps) simp_all
    finally show ?thesis using False i rep dr
      by (simp add: take_Suc_conv_snoc call_free_def)
  qed
qed

lemma n_array_clean_ok:
  assumes "array_rep a xs" "\<not> arr_has a TN_ARRAY_FROZEN"
  shows "\<exists>a'. n_array_clean e a = Inr a' \<and> array_rep a' [] \<and> arr_start_index a' = 0 \<and>
    arr_flags a' = arr_flags a \<and> arr_refcnt a' = arr_refcnt a \<and>
    arr_freed a' = arr_freed a @
      (if arr_free_fn a = None then [] else filter (\<lambda>p. p \<noteq> NULL) xs)"
  using assms clean_loop_ok [of a 0]
  by (auto simp: n_array_clean_def array_rep_def)


lemma n_array_new_ok:
  "0 \<le> n \<Longrightarrow> \<exists>a. n_array_new e n freef cmpf = Inr a \<and> array_rep a [] \<and> arr_start_index a = 0 \<and>
    arr_flags a = 0 \<and> arr_freed a = [] \<and> arr_free_fn a = freef \<and> arr_refcnt a = 0 \<and>
    arr_cmp_fn a = (case cmpf of None \<Rightarrow> Some Cmp_Default | Some c \<Rightarrow> Some c)"
  by (auto simp: n_array_new_def n_array_new_ex_def n_array_init_ex_def Let_def array_rep_def)

lemma clone_loop_ok:
  assumes "array_rep src ys" "i \<le> length ys" "array_rep a xs" "arr_start_index a = 0"
    "\<not> arr_has a TN_ARRAY_FROZEN" "push_room a \<or> length xs + (length ys - i) \<le> arr_allocated a"
    "\<not> arr_has a TN_ARRAY_CONSTSIZE \<or> length xs + (length ys - i) \<le> arr_allocated a"
  shows "\<exists>a'. clone_loop e src d a i = Inr a' \<and>
    array_rep a' (xs @ map (user_dup e d) (drop i ys)) \<and> arr_free_fn a' = arr_free_fn a"
  using assms(2-)
proof (induction "length ys - i" arbitrary: a i xs)
  case 0
  moreover have "arr_items src = length ys" using assms(1) by (simp add: array_rep_def)
  ultimately show ?case by (auto simp: clone_loop.simps [of e src d a i])
next
  case (Suc n)
  have i: "i < length ys" and it: "arr_items src = length ys"
    using Suc.hyps(2) assms(1) by (simp_all add: array_rep_def)
  have rd: "mem_read (arr_data src) (arr_start_index src + i) = Inr (ys ! i)"
    using assms(1) i by (simp add: array_rep_def mem_read_def nth_append)
  have room: "push_room a" using Suc.prems i by (auto simp: push_room_def array_rep_def)
  from n_array_push_inl_ok [OF Suc.prems(2,4) room, of e "user_dup e d (ys ! i)"] obtain a1
    where a1: "n_array_push_inl e a (user_dup e d (ys ! i)) = Inr (a1, True)"
      "array_rep a1 (xs @ [user_dup e d (ys ! i)])" "arr_start_index a1 = arr_start_index a"
      "arr_flags a1 = arr_flags a AND NOT TN_ARRAY_INTERNAL_ISSORTED"
      "arr_free_fn a1 = arr_free_fn a" "arr_allocated a \<le> arr_allocated a1" by blast
  have fl: "arr_has a1 TN_ARRAY_FROZEN = arr_has a TN_ARRAY_FROZEN"
    "arr_has a1 TN_ARRAY_CONSTSIZE = arr_has a TN_ARRAY_CONSTSIZE"
    using a1(4) by (simp_all add: arr_has_def array_flag_defs and.assoc)
  have "\<exists>a'. clone_loop e src d a1 (Suc i) = Inr a' \<and>
      array_rep a' ((xs @ [user_dup e d (ys ! i)]) @ map (user_dup e d) (drop (Suc i) ys)) \<and>
      arr_free_fn a' = arr_free_fn a1"
    using Suc i a1 fl by (intro Suc.hyps) (auto simp: push_room_def array_rep_def)
  moreover have "drop i ys = ys ! i # drop (Suc i) ys" using i by (rule Cons_nth_drop_Suc [symmetric])
  ultimately show ?case using i it rd a1(1,5) by (simp add: clone_loop.simps [of e src d a i])
qed

section \<open>Visiting and reversing\<close>

lemma visit_cells_ok:
  assumes "n \<le> length (arr_data a)" "i \<le> n"
  shows "visit_cells a i n = Inr (take (n - i) (drop i (arr_data a)))"
  using assms
proof (induction "n - i" arbitrary: i)
  case 0
  then show ?case by (simp add: visit_cells.simps [of a i])
next
  case (Suc k)
  then have i: "i < n" "i < length (arr_data a)" by simp_all
  have "visit_cells a (Suc i) n = Inr (take (n - Suc i) (drop (Suc i) (arr_data a)))"
    using Suc i by (intro Suc.hyps) simp_all
  moreover have "drop i (arr_data a) = arr_data a ! i # drop (Suc i) (arr_data a)"
    using i(2) by (rule Cons_nth_drop_Suc [symmetric])
  moreover have "n - i = Suc (n - Suc i)" using i by simp
  ultimately show ?case using i by (simp add: visit_cells.simps [of a i] mem_read_ok)
qed

lemma visit_cells_past: "n \<le> i \<Longrightarrow> visit_cells a i n = Inr []"
  by (simp add: visit_cells.simps)

lemma reverse_loop_ok:
  "reverse_loop (us @ zs @ ws) (int (length us)) (int (length us + length zs) - 1) =
   Inr (us @ rev zs @ ws)"
proof (induction "length zs" arbitrary: us zs ws rule: less_induct)
  case less
  show ?case
  proof (cases "length zs \<le> 1")
    case True
    then have "rev zs = zs" by (cases zs) auto
    then show ?thesis using True by (simp add: reverse_loop.simps)
  next
    case False
    then obtain x ms y where zs: "zs = x # ms @ [y]"
      by (metis One_nat_def append_butlast_last_id length_0_conv length_Cons
          less_one list.exhaust nle_le not_less)
    let ?d = "us @ zs @ ws" and ?i = "length us" and ?j = "Suc (length us + length ms)"
    have "?d ! ?i = x" "?d ! ?j = y" by (simp_all add: zs nth_append)
    moreover have "?d[?i := y, ?j := x] = (us @ [y]) @ ms @ (x # ws)"
      by (simp add: zs list_update_append)
    moreover have "nat (1 + (int (length us) + int (length ms))) = ?j" by simp
    moreover have j: "int (?i + length zs) - 1 = int ?j" by (simp add: zs)
    ultimately have "reverse_loop ?d (int ?i) (int (?i + length zs) - 1) =
        reverse_loop ((us @ [y]) @ ms @ (x # ws)) (int ?i + 1) (int ?j - 1)"
      unfolding j by (subst reverse_loop.simps) (simp add: mem_read_def mem_write_def zs)
    also have "\<dots> = Inr ((us @ [y]) @ rev ms @ (x # ws))"
      using less.hyps [of ms "us @ [y]" "x # ws"] zs by (simp add: algebra_simps)
    finally show ?thesis by (simp add: zs)
  qed
qed

lemma n_array_reverse_ok:
  assumes "array_rep a xs" "arr_start_index a = 0" "\<not> arr_has a TN_ARRAY_FROZEN"
  shows "\<exists>a'. n_array_reverse e a = Inr a' \<and> array_rep a' (rev xs)"
proof -
  have "reverse_loop (arr_data a) 0 (int (length xs) - 1) =
      Inr (rev xs @ replicate (arr_allocated a - length xs) NULL)"
    using reverse_loop_ok [of "[]" xs] assms(1,2) by (simp add: array_rep_def)
  then show ?thesis using assms by (auto simp: n_array_reverse_def array_rep_def)
qed

section \<open>Comparing, removing by value, removing duplicates\<close>

lemma eq_loop_ok:
  assumes "n \<le> length d1" "n \<le> length d2" "i \<le> n"
  shows "eq_loop c d1 d2 i n = Inr (\<forall>k. i \<le> k \<and> k < n \<longrightarrow> c (d1 ! k) (d2 ! k) = 0)"
  using assms
proof (induction "n - i" arbitrary: i)
  case 0
  then show ?case by (auto simp: eq_loop.simps [of c d1 d2 i])
next
  case (Suc m)
  then have i: "i < n" by simp
  have "eq_loop c d1 d2 (Suc i) n = Inr (\<forall>k. Suc i \<le> k \<and> k < n \<longrightarrow> c (d1 ! k) (d2 ! k) = 0)"
    using Suc by (intro Suc.hyps) simp_all
  moreover have "(\<forall>k. i \<le> k \<and> k < n \<longrightarrow> P k) \<longleftrightarrow> P i \<and> (\<forall>k. Suc i \<le> k \<and> k < n \<longrightarrow> P k)" for P
    using i by (metis Suc_leD Suc_leI le_neq_implies_less order_refl)
  ultimately show ?case using i Suc.prems by (simp add: eq_loop.simps [of c d1 d2 i] mem_read_ok)
qed

lemma remove_loop_nulls:
  assumes "length (arr_data a) = arr_allocated a" "\<forall>p \<in> set (drop i (arr_data a)). p = NULL"
  shows "remove_loop c x a i items = Inr (a, items)"
  using assms
proof (induction "arr_allocated a - i" arbitrary: i)
  case 0
  then show ?case by (simp add: remove_loop.simps [of c x a i])
next
  case (Suc n)
  then have i: "i < length (arr_data a)" by simp
  then have dr: "drop i (arr_data a) = arr_data a ! i # drop (Suc i) (arr_data a)"
    by (rule Cons_nth_drop_Suc [symmetric])
  have "remove_loop c x a (Suc i) items = Inr (a, items)"
    using Suc dr by (intro Suc.hyps) simp_all
  then show ?case using i Suc.prems dr by (simp add: remove_loop.simps [of c x a i] mem_read_ok)
qed

lemma remove_loop_ok:
  assumes "array_rep (a\<lparr>arr_items := length (us @ vs)\<rparr>) (us @ vs)"
  shows "\<exists>a'. remove_loop c x a (arr_start_index a + length us) items =
      Inr (a', items - length (filter (\<lambda>p. p \<noteq> NULL \<and> c p x = 0) vs)) \<and>
    array_rep (a'\<lparr>arr_items := length us + length (filter (\<lambda>p. p = NULL \<or> c p x \<noteq> 0) vs)\<rparr>)
      (us @ filter (\<lambda>p. p = NULL \<or> c p x \<noteq> 0) vs) \<and>
    arr_freed a' = arr_freed a @
      (if arr_free_fn a = None then [] else filter (\<lambda>p. p \<noteq> NULL \<and> c p x = 0) vs) \<and>
    arr_start_index a' = arr_start_index a \<and> arr_flags a' = arr_flags a"
  using assms
proof (induction vs arbitrary: a us items)
  case Nil
  then have "\<forall>p \<in> set (drop (arr_start_index a + length us) (arr_data a)). p = NULL"
    by (auto simp: array_rep_def)
  from remove_loop_nulls [OF _ this] array_rep_length [OF Nil] Nil show ?case
    by (auto simp: array_rep_def)
next
  case (Cons v vs)
  let ?i = "arr_start_index a + length us"
  have i: "?i < arr_allocated a" and rd: "mem_read (arr_data a) ?i = Inr v"
    using Cons.prems by (auto simp: array_rep_def mem_read_def nth_append)
  show ?case
  proof (cases "v = NULL \<or> c v x \<noteq> 0")
    case True
    have "remove_loop c x a ?i items = remove_loop c x a (Suc ?i) items"
      using True i rd by (simp add: remove_loop.simps [of c x a ?i])
    then show ?thesis using Cons.IH [of "us @ [v]" a items] Cons.prems True by auto
  next
    case False
    let ?k = "arr_allocated a - arr_start_index a - length (us @ v # vs)"
    let ?d = "replicate (arr_start_index a) NULL @ (us @ vs) @ replicate (Suc ?k) NULL"
    let ?b = "(call_free a v)\<lparr>arr_data := ?d\<rparr>"
    have del: "delete_cell (arr_data a) ?i (arr_allocated a) = Inr ?d"
      using delete_cell_items [OF Cons.prems, of "length us"] by (simp del: replicate_Suc)
    have rep: "array_rep (?b\<lparr>arr_items := length (us @ vs)\<rparr>) (us @ vs)"
      using array_rep_deleted [OF Cons.prems, of "length us"]
      by (simp add: array_rep_def del: replicate_Suc)
    have step: "remove_loop c x a ?i items = remove_loop c x ?b ?i (items - 1)"
      using False i rd del by (simp add: remove_loop.simps [of c x a ?i] del: replicate_Suc)
    show ?thesis using Cons.IH [OF rep, where items = "items - 1"] False step
      by (auto simp: call_free_def simp del: replicate_Suc)
  qed
qed

end
