(* ===== verification/ArrayRefine.thy ===== *)
theory ArrayRefine
  imports ArrayProps
begin

text \<open>
  The array against its specification: an array that is not shifted behaves, over
  any sequence of calls, like a list with the trace of \<open>free_fn\<close>; the stack
  contract; copies; and what the operations do to a shifted array.
\<close>

section \<open>What no operation changes\<close>

text \<open>The reference count, the functions, and the flags \<open>CONSTSIZE\<close> and \<open>FROZEN\<close>.\<close>

definition arr_conf :: "tn_array \<Rightarrow> 16 word \<times> nat option \<times> cmp_id option \<times> 16 word" where
  "arr_conf a = (arr_refcnt a, arr_free_fn a, arr_cmp_fn a, arr_flags a AND 5)"

lemma arr_conf_upd [simp]:
  "arr_conf (a\<lparr>arr_data := d\<rparr>) = arr_conf a" "arr_conf (a\<lparr>arr_items := n\<rparr>) = arr_conf a"
  "arr_conf (a\<lparr>arr_allocated := n\<rparr>) = arr_conf a" "arr_conf (a\<lparr>arr_start_index := n\<rparr>) = arr_conf a"
  "arr_conf (a\<lparr>arr_freed := l\<rparr>) = arr_conf a"
  "arr_conf (call_free a p) = arr_conf a" "arr_conf (clr_sorted a) = arr_conf a"
  by (simp_all add: arr_conf_def clr_sorted_def TN_ARRAY_INTERNAL_ISSORTED_def and.assoc)

lemma conf_has:
  assumes "arr_conf a' = arr_conf a"
  shows "arr_has a' TN_ARRAY_FROZEN = arr_has a TN_ARRAY_FROZEN"
    "arr_has a' TN_ARRAY_CONSTSIZE = arr_has a TN_ARRAY_CONSTSIZE"
proof -
  have "arr_flags a' AND 5 = arr_flags a AND 5" using assms by (simp add: arr_conf_def)
  moreover have "w AND 1 = (w AND 5) AND 1" "w AND 4 = (w AND 5) AND 4" for w :: "16 word"
    by (simp_all add: and.assoc)
  ultimately have "arr_flags a' AND 1 = arr_flags a AND 1" "arr_flags a' AND 4 = arr_flags a AND 4"
    by metis+
  then show "arr_has a' TN_ARRAY_FROZEN = arr_has a TN_ARRAY_FROZEN"
    "arr_has a' TN_ARRAY_CONSTSIZE = arr_has a TN_ARRAY_CONSTSIZE"
    by (simp_all add: arr_has_def array_flag_defs)
qed

lemma conf_write: "arr_write a i p = Inr a' \<Longrightarrow> arr_conf a' = arr_conf a"
  by (auto simp: arr_write_def rbind_eq_Inr)

lemma die_if_frozen_Inr: "die_if_frozen e a k = Inr r \<Longrightarrow> k = Inr r"
  by (auto simp: die_if_frozen_def trurl_die_def split: if_splits)

lemma n_assert_Inr: "n_assert e b k = Inr r \<Longrightarrow> k = Inr r"
  by (auto simp: n_assert_def split: if_splits)

lemma conf_grow: "n_array_grow e a n = Inr (a', ok) \<Longrightarrow> arr_conf a' = arr_conf a"
  by (auto simp: n_array_grow_def n_array_realloc_def trurl_die_def Let_def rbind_eq_Inr
      dest!: n_assert_Inr split: if_splits option.splits)

lemma conf_push: "n_array_push_inl e a p = Inr (a', ok) \<Longrightarrow> arr_conf a' = arr_conf a"
  by (auto simp: n_array_push_inl_def rbind_eq_Inr dest!: die_if_frozen_Inr conf_write conf_grow
      split: if_splits)

lemma conf_pop: "n_array_pop e a = Inr (a', p) \<Longrightarrow> arr_conf a' = arr_conf a"
  by (auto simp: n_array_pop_def Let_def trurl_die_def rbind_eq_Inr
      dest!: die_if_frozen_Inr conf_write split: if_splits)

lemma conf_unshift: "n_array_unshift e a p = Inr (a', ok) \<Longrightarrow> arr_conf a' = arr_conf a"
  by (auto simp: n_array_unshift_def Let_def rbind_eq_Inr
      dest!: die_if_frozen_Inr conf_write conf_grow split: if_splits)

lemma conf_set_nth: "n_array_set_nth e a i p = Inr (a', ok) \<Longrightarrow> arr_conf a' = arr_conf a"
  by (auto simp: n_array_set_nth_def Let_def rbind_eq_Inr trurl_die_def
      dest!: die_if_frozen_Inr n_assert_Inr conf_write conf_grow split: if_splits)

lemma conf_remove_nth: "n_array_remove_nth e a i = Inr (a', ok) \<Longrightarrow> arr_conf a' = arr_conf a"
  by (auto simp: n_array_remove_nth_def Let_def rbind_eq_Inr trurl_die_def
      dest!: die_if_frozen_Inr n_assert_Inr split: if_splits)

lemma conf_concat_loop:
  "concat_loop e src dup a i index = Inr (a', n) \<Longrightarrow> arr_conf a' = arr_conf a"
proof (induction e src dup a i index rule: concat_loop.induct)
  case (1 e src dup a i index)
  from "1.prems" show ?case
    by (subst (asm) concat_loop.simps)
       (fastforce simp: rbind_eq_Inr dest: "1.IH" conf_write split: if_splits)
qed

lemma conf_concat: "n_array_concat_ex e a src dup = Inr (a', ok) \<Longrightarrow> arr_conf a' = arr_conf a"
  by (auto simp: n_array_concat_ex_def rbind_eq_Inr
      dest!: die_if_frozen_Inr conf_concat_loop conf_grow split: if_splits)

lemma conf_remove_loop: "remove_loop c x a i n = Inr (a', m) \<Longrightarrow> arr_conf a' = arr_conf a"
proof (induction c x a i n rule: remove_loop.induct)
  case (1 c x a i n)
  show ?case
  proof (cases "i < arr_allocated a")
    case True
    then obtain p where p: "mem_read (arr_data a) i = Inr p"
      using "1.prems" by (subst (asm) remove_loop.simps) (auto simp: rbind_eq_Inr)
    show ?thesis
    proof (cases "p = NULL \<or> c p x \<noteq> 0")
      case skip: True
      then show ?thesis using "1.prems" "1.IH"(1) [OF True p skip] True p
        by (subst (asm) remove_loop.simps) simp
    next
      case del: False
      then obtain d where d: "delete_cell (arr_data (call_free a p)) i (arr_allocated a) = Inr d"
        "remove_loop c x ((call_free a p)\<lparr>arr_data := d\<rparr>) i (n - 1) = Inr (a', m)"
        using "1.prems" True p by (subst (asm) remove_loop.simps) (auto simp: rbind_eq_Inr)
      show ?thesis using "1.IH"(2) [OF True p del refl d] by simp
    qed
  next
    case False
    then show ?thesis using "1.prems" by (subst (asm) remove_loop.simps) simp
  qed
qed

lemma conf_remove: "n_array_remove_ex e a x c = Inr a' \<Longrightarrow> arr_conf a' = arr_conf a"
  by (auto simp: n_array_remove_ex_def Let_def rbind_eq_Inr
      dest!: die_if_frozen_Inr n_assert_Inr conf_remove_loop split: if_splits option.splits)

lemma conf_clean_loop: "clean_loop a i = Inr a' \<Longrightarrow> arr_conf a' = arr_conf a"
proof (induction a i rule: clean_loop.induct)
  case (1 a i)
  show ?case
  proof (cases "i < arr_allocated a")
    case True
    then obtain p where p: "mem_read (arr_data a) i = Inr p"
      using "1.prems" by (subst (asm) clean_loop.simps) (auto simp: rbind_eq_Inr)
    show ?thesis
    proof (cases "p = NULL")
      case skip: True
      then show ?thesis using "1.prems" "1.IH"(2) [OF True p] True p
        by (subst (asm) clean_loop.simps) simp
    next
      case use: False
      then obtain b where b: "arr_write (call_free a p) i NULL = Inr b"
        "clean_loop (b\<lparr>arr_allocated := arr_allocated a\<rparr>) (Suc i) = Inr a'"
        using "1.prems" True p by (subst (asm) clean_loop.simps) (auto simp: rbind_eq_Inr)
      show ?thesis using "1.IH"(1) [OF True p use b] conf_write [OF b(1)] by simp
    qed
  next
    case False
    then show ?thesis using "1.prems" by (subst (asm) clean_loop.simps) simp
  qed
qed

lemma conf_clean: "n_array_clean e a = Inr a' \<Longrightarrow> arr_conf a' = arr_conf a"
  by (auto simp: n_array_clean_def rbind_eq_Inr dest!: die_if_frozen_Inr conf_clean_loop)

lemma conf_reverse: "n_array_reverse e a = Inr a' \<Longrightarrow> arr_conf a' = arr_conf a"
  by (auto simp: n_array_reverse_def rbind_eq_Inr dest!: die_if_frozen_Inr)

section \<open>Removing by value and removing duplicates\<close>

definition kept :: "(ptr \<Rightarrow> ptr \<Rightarrow> int) \<Rightarrow> ptr \<Rightarrow> ptr \<Rightarrow> bool" where
  "kept c x p \<longleftrightarrow> p = NULL \<or> c p x \<noteq> 0"

lemma length_not_kept:
  "length xs - length (filter (\<lambda>p. p \<noteq> NULL \<and> c p x = 0) xs) = length (filter (kept c x) xs)"
proof -
  have "(\<lambda>p. p \<noteq> NULL \<and> c p x = 0) = (\<lambda>p. \<not> kept c x p)" by (auto simp: kept_def)
  then show ?thesis using sum_length_filter_compl [of "kept c x" xs] by simp
qed

lemma n_array_remove_ex_ok:
  assumes "array_rep a xs" "\<not> arr_has a TN_ARRAY_FROZEN" "pick_cmp cmpf (arr_cmp_fn a) = Some c"
  shows "\<exists>a'. n_array_remove_ex e a x cmpf = Inr a' \<and>
    array_rep a' (filter (kept (call_cmp e c) x) xs) \<and>
    arr_freed a' = arr_freed a @ (if arr_free_fn a = None then []
      else filter (\<lambda>p. \<not> kept (call_cmp e c) x p) xs) \<and>
    arr_start_index a' = arr_start_index a \<and> arr_flags a' = arr_flags a"
proof (cases xs)
  case Nil
  then show ?thesis using assms by (auto simp: n_array_remove_ex_def array_rep_def)
next
  case (Cons y ys)
  let ?c = "call_cmp e c"
  have it: "arr_items a = length xs" using assms(1) by (simp add: array_rep_def)
  then have "array_rep (a\<lparr>arr_items := length ([] @ xs)\<rparr>) ([] @ xs)"
    using assms(1) by (simp add: array_rep_def)
  from remove_loop_ok [OF this, of ?c x "arr_items a"] obtain a' where a':
    "remove_loop ?c x a (arr_start_index a) (arr_items a) =
       Inr (a', arr_items a - length (filter (\<lambda>p. p \<noteq> NULL \<and> ?c p x = 0) xs))"
    "array_rep (a'\<lparr>arr_items := length (filter (\<lambda>p. p = NULL \<or> ?c p x \<noteq> 0) xs)\<rparr>)
       (filter (\<lambda>p. p = NULL \<or> ?c p x \<noteq> 0) xs)"
    "arr_freed a' = arr_freed a @
      (if arr_free_fn a = None then [] else filter (\<lambda>p. p \<noteq> NULL \<and> ?c p x = 0) xs)"
    "arr_start_index a' = arr_start_index a" "arr_flags a' = arr_flags a" by auto
  have k: "(\<lambda>p. p = NULL \<or> ?c p x \<noteq> 0) = kept ?c x"
    "(\<lambda>p. p \<noteq> NULL \<and> ?c p x = 0) = (\<lambda>p. \<not> kept ?c x p)" by (auto simp: kept_def)
  show ?thesis using a' assms(2,3) Cons it length_not_kept [of xs ?c x]
    by (auto simp: n_array_remove_ex_def Let_def k)
qed

text \<open>The list the duplicates loop leaves: each item is compared with the last one kept.\<close>

fun uniq_from :: "(ptr \<Rightarrow> ptr \<Rightarrow> int) \<Rightarrow> ptr \<Rightarrow> ptr list \<Rightarrow> ptr list" where
  "uniq_from c x [] = [x]"
| "uniq_from c x (y # ys) = (if c x y = 0 then uniq_from c x ys else x # uniq_from c y ys)"

fun uniq_list :: "(ptr \<Rightarrow> ptr \<Rightarrow> int) \<Rightarrow> ptr list \<Rightarrow> ptr list" where
  "uniq_list c [] = []"
| "uniq_list c (x # xs) = uniq_from c x xs"

fun uniq_dropped_from :: "(ptr \<Rightarrow> ptr \<Rightarrow> int) \<Rightarrow> ptr \<Rightarrow> ptr list \<Rightarrow> ptr list" where
  "uniq_dropped_from c x [] = []"
| "uniq_dropped_from c x (y # ys) =
     (if c x y = 0 then y # uniq_dropped_from c x ys else uniq_dropped_from c y ys)"

fun uniq_dropped :: "(ptr \<Rightarrow> ptr \<Rightarrow> int) \<Rightarrow> ptr list \<Rightarrow> ptr list" where
  "uniq_dropped c [] = []"
| "uniq_dropped c (x # xs) = uniq_dropped_from c x xs"

lemma uniq_loop_ok:
  assumes "array_rep a (us @ x # vs)" "arr_start_index a = 0" "\<not> arr_has a TN_ARRAY_FROZEN"
  shows "\<exists>a'. uniq_loop e c a (Suc (length us)) = Inr a' \<and>
    array_rep a' (us @ uniq_from c x vs) \<and> arr_start_index a' = 0 \<and> arr_flags a' = arr_flags a \<and>
    arr_conf a' = arr_conf a \<and> arr_freed a' = arr_freed a @
      (if arr_free_fn a = None then [] else filter (\<lambda>p. p \<noteq> NULL) (uniq_dropped_from c x vs))"
  using assms
proof (induction vs arbitrary: a us x)
  case Nil
  then show ?case by (auto simp: uniq_loop.simps [of e c a] array_rep_def)
next
  case (Cons y ys)
  let ?i = "Suc (length us)"
  have it: "arr_items a = length us + Suc (Suc (length ys))"
    and rd: "mem_read (arr_data a) (length us) = Inr x" "mem_read (arr_data a) ?i = Inr y"
    using Cons.prems by (auto simp: array_rep_def mem_read_def nth_append)
  show ?case
  proof (cases "c x y = 0")
    case True
    have "(us @ x # y # ys) ! ?i = y" by (simp add: nth_append)
    with n_array_remove_nth_ok [OF Cons.prems(1), of ?i e] Cons.prems(2,3) obtain a1 where a1:
      "n_array_remove_nth e a (int ?i) = Inr (a1, True)"
      "array_rep a1 (us @ x # ys)" "arr_start_index a1 = 0" "arr_flags a1 = arr_flags a"
      "arr_freed a1 = arr_freed a @ (if y \<noteq> NULL \<and> arr_free_fn a \<noteq> None then [y] else [])"
      by auto
    have cf: "arr_conf a1 = arr_conf a" using a1(1) by (rule conf_remove_nth)
    have "arr_items a1 < arr_items a" using a1(2) it by (simp add: array_rep_def)
    then have "uniq_loop e c a ?i = uniq_loop e c a1 ?i"
      using True it rd a1(1) by (simp add: uniq_loop.simps [of e c a])
    then show ?thesis using Cons.IH [OF a1(2,3)] a1(4,5) cf Cons.prems(3) True
      by (auto simp: arr_has_def arr_conf_def)
  next
    case False
    have "uniq_loop e c a ?i = uniq_loop e c a (Suc ?i)"
      using False it rd by (simp add: uniq_loop.simps [of e c a ?i])
    moreover have "uniq_from c x (y # ys) = x # uniq_from c y ys"
      "uniq_dropped_from c x (y # ys) = uniq_dropped_from c y ys" using False by simp_all
    ultimately show ?thesis using Cons.IH [of a "us @ [x]" y] Cons.prems
      by (simp split del: if_split cong: if_cong)
  qed
qed

lemma n_array_uniq_ex_ok:
  assumes "array_rep a xs" "arr_start_index a = 0" "\<not> arr_has a TN_ARRAY_FROZEN"
    "pick_cmp cmpf (arr_cmp_fn a) = Some c"
  shows "\<exists>a'. n_array_uniq_ex e a cmpf = Inr (a', True) \<and>
    array_rep a' (uniq_list (call_cmp e c) xs) \<and> arr_start_index a' = 0 \<and> arr_flags a' = arr_flags a \<and>
    arr_conf a' = arr_conf a \<and> arr_freed a' = arr_freed a @ (if arr_free_fn a = None then []
      else filter (\<lambda>p. p \<noteq> NULL) (uniq_dropped (call_cmp e c) xs))"
proof (cases xs)
  case Nil
  then show ?thesis using assms
    by (auto simp: n_array_uniq_ex_def uniq_loop.simps [of _ _ a] array_rep_def)
next
  case (Cons x vs)
  then show ?thesis using uniq_loop_ok [of a "[]" x vs e "call_cmp e c"] assms
    by (auto simp: n_array_uniq_ex_def)
qed

section \<open>Refinement\<close>

text \<open>
  A call of the interface, what it answers, and the specification: the state is the
  list of items and the pointers \<open>free_fn\<close> got. \<open>None\<close>: the call is outside the
  specification (an index beyond the items, a negative size).
\<close>

datatype array_call =
  Push ptr | Pop | Unshift ptr | Nth nat | Set_nth nat ptr | Remove_nth nat
  | Concat "ptr list" | Remove ptr | Uniq | Reverse | Clean | Freeze | Unfreeze | Size

datatype answer = Done | Ptr ptr | Count nat

record array_spec =
  sp_items :: "ptr list"
  sp_freed :: "ptr list"
  sp_frozen :: bool

definition spec_free :: "bool \<Rightarrow> ptr list \<Rightarrow> ptr list" where
  "spec_free fr ps = (if fr then filter (\<lambda>p. p \<noteq> NULL) ps else [])"

text \<open>\<open>fr\<close>: a \<open>free_fn\<close> is set; \<open>c\<close>: the array's comparison. No hook is installed.\<close>

fun spec_call ::
    "bool \<Rightarrow> (ptr \<Rightarrow> ptr \<Rightarrow> int) \<Rightarrow> array_spec \<Rightarrow> array_call \<Rightarrow> (array_spec \<times> answer) result option" where
  "spec_call fr c s (Push p) = Some (if sp_frozen s then Inl (Died ''array is frozen'')
     else Inr (s\<lparr>sp_items := sp_items s @ [p]\<rparr>, Done))"
| "spec_call fr c s Pop = Some (if sp_frozen s then Inl (Died ''array is frozen'')
     else if sp_items s = [] then Inl (Died ''tn_array_pop: pop from empty array'')
     else Inr (s\<lparr>sp_items := butlast (sp_items s)\<rparr>, Ptr (last (sp_items s))))"
| "spec_call fr c s (Unshift p) = Some (if sp_frozen s then Inl (Died ''array is frozen'')
     else Inr (s\<lparr>sp_items := p # sp_items s\<rparr>, Done))"
| "spec_call fr c s (Nth i) = Some (if i < length (sp_items s) then Inr (s, Ptr (sp_items s ! i))
     else Inl (Died ''n_array_nth: index out of bounds''))"
| "spec_call fr c s (Set_nth i p) =
     (if sp_frozen s then Some (Inl (Died ''array is frozen''))
      else if i < length (sp_items s)
      then Some (Inr (s\<lparr>sp_items := (sp_items s)[i := p],
             sp_freed := sp_freed s @ spec_free fr [sp_items s ! i]\<rparr>, Done))
      else None)"
| "spec_call fr c s (Remove_nth i) =
     (if sp_frozen s then Some (Inl (Died ''array is frozen''))
      else if i < length (sp_items s)
      then Some (Inr (s\<lparr>sp_items := take i (sp_items s) @ drop (Suc i) (sp_items s),
             sp_freed := sp_freed s @ spec_free fr [sp_items s ! i]\<rparr>, Done))
      else if sp_items s = [] then Some (Inl Assert_Failed)
      else Some (Inl (Died ''n_array_remove_nth: index out of bounds'')))"
| "spec_call fr c s (Concat ps) = Some (if sp_frozen s then Inl (Died ''array is frozen'')
     else Inr (s\<lparr>sp_items := sp_items s @ ps\<rparr>, Done))"
| "spec_call fr c s (Remove x) = Some (if sp_frozen s then Inl (Died ''array is frozen'')
     else Inr (s\<lparr>sp_items := filter (kept c x) (sp_items s),
       sp_freed := sp_freed s @ spec_free fr (filter (\<lambda>p. \<not> kept c x p) (sp_items s))\<rparr>, Done))"
| "spec_call fr c s Uniq = Some (if sp_frozen s then Inl (Died ''array is frozen'')
     else Inr (s\<lparr>sp_items := uniq_list c (sp_items s),
       sp_freed := sp_freed s @ spec_free fr (uniq_dropped c (sp_items s))\<rparr>, Done))"
| "spec_call fr c s Reverse = Some (if sp_frozen s then Inl (Died ''array is frozen'')
     else Inr (s\<lparr>sp_items := rev (sp_items s)\<rparr>, Done))"
| "spec_call fr c s Clean = Some (if sp_frozen s then Inl (Died ''array is frozen'')
     else Inr (s\<lparr>sp_items := [], sp_freed := sp_freed s @ spec_free fr (sp_items s)\<rparr>, Done))"
| "spec_call fr c s Freeze = Some (Inr (s\<lparr>sp_frozen := True\<rparr>, Done))"
| "spec_call fr c s Unfreeze = Some (Inr (s\<lparr>sp_frozen := False\<rparr>, Done))"
| "spec_call fr c s Size = Some (Inr (s, Count (length (sp_items s))))"

text \<open>The same calls on the array; \<open>Concat\<close> gets its items in an array of their own.\<close>

definition done_of :: "(tn_array \<times> bool) result \<Rightarrow> (tn_array \<times> answer) result" where
  "done_of r = rbind r (\<lambda>(a, _). Inr (a, Done))"

definition array_of_list :: "ptr list \<Rightarrow> tn_array" where
  "array_of_list ps = \<lparr>arr_refcnt = 0, arr_flags = 0, arr_items = length ps,
     arr_allocated = Suc (length ps), arr_start_index = 0, arr_data = ps @ [NULL],
     arr_free_fn = None, arr_cmp_fn = Some Cmp_Default, arr_freed = []\<rparr>"

fun array_step :: "env \<Rightarrow> tn_array \<Rightarrow> array_call \<Rightarrow> (tn_array \<times> answer) result" where
  "array_step e a (Push p) = done_of (n_array_push_inl e a p)"
| "array_step e a Pop = rbind (n_array_pop e a) (\<lambda>(a, p). Inr (a, Ptr p))"
| "array_step e a (Unshift p) = done_of (n_array_unshift e a p)"
| "array_step e a (Nth i) = rbind (n_array_nth_inl e a (int i)) (\<lambda>p. Inr (a, Ptr p))"
| "array_step e a (Set_nth i p) = done_of (n_array_set_nth e a (int i) p)"
| "array_step e a (Remove_nth i) = done_of (n_array_remove_nth e a (int i))"
| "array_step e a (Concat ps) = done_of (n_array_concat_ex e a (array_of_list ps) None)"
| "array_step e a (Remove x) = rbind (n_array_remove_ex e a x None) (\<lambda>a. Inr (a, Done))"
| "array_step e a Uniq = done_of (n_array_uniq_ex e a None)"
| "array_step e a Reverse = rbind (n_array_reverse e a) (\<lambda>a. Inr (a, Done))"
| "array_step e a Clean = rbind (n_array_clean e a) (\<lambda>a. Inr (a, Done))"
| "array_step e a Freeze = Inr (n_array_freeze a, Done)"
| "array_step e a Unfreeze = Inr (n_array_unfreeze a, Done)"
| "array_step e a Size = Inr (a, Count (n_array_size a))"

fun array_run :: "env \<Rightarrow> tn_array \<Rightarrow> array_call list \<Rightarrow> (tn_array \<times> answer list) result" where
  "array_run e a [] = Inr (a, [])"
| "array_run e a (c # cs) = rbind (array_step e a c)
     (\<lambda>(a, r). rbind (array_run e a cs) (\<lambda>(a, rs). Inr (a, r # rs)))"

fun spec_run ::
    "bool \<Rightarrow> (ptr \<Rightarrow> ptr \<Rightarrow> int) \<Rightarrow> array_spec \<Rightarrow> array_call list \<Rightarrow> (array_spec \<times> answer list) result option" where
  "spec_run fr c s [] = Some (Inr (s, []))"
| "spec_run fr c s (k # ks) =
     (case spec_call fr c s k of None \<Rightarrow> None
      | Some (Inl f) \<Rightarrow> Some (Inl f)
      | Some (Inr (s, r)) \<Rightarrow>
          (case spec_run fr c s ks of None \<Rightarrow> None
           | Some (Inl f) \<Rightarrow> Some (Inl f)
           | Some (Inr (s, rs)) \<Rightarrow> Some (Inr (s, r # rs))))"


text \<open>The array that stands for a specification state: not shifted, free to grow.\<close>

definition array_rel ::
    "env \<Rightarrow> bool \<Rightarrow> (ptr \<Rightarrow> ptr \<Rightarrow> int) \<Rightarrow> tn_array \<Rightarrow> array_spec \<Rightarrow> bool" where
  "array_rel e fr c a s \<longleftrightarrow>
     array_rep a (sp_items s) \<and> arr_start_index a = 0 \<and> \<not> arr_has a TN_ARRAY_CONSTSIZE \<and>
     arr_has a TN_ARRAY_FROZEN = sp_frozen s \<and> arr_freed a = sp_freed s \<and>
     fr = (arr_free_fn a \<noteq> None) \<and> (\<exists>k. arr_cmp_fn a = Some k \<and> c = call_cmp e k)"

lemma array_relI:
  assumes "array_rel e fr c a s" "arr_conf a' = arr_conf a" "array_rep a' (sp_items s')"
    "arr_start_index a' = 0" "arr_freed a' = sp_freed s'" "sp_frozen s' = sp_frozen s"
  shows "array_rel e fr c a' s'"
  using assms conf_has [OF assms(2)] by (auto simp: array_rel_def arr_conf_def)

lemma die_if_frozen_dies:
  "arr_has a TN_ARRAY_FROZEN \<Longrightarrow> \<not> die_hook e \<Longrightarrow> die_if_frozen e a k = Inl (Died ''array is frozen'')"
  by (simp add: die_if_frozen_def)

lemma array_of_list_rep: "array_rep (array_of_list ps) ps"
  by (simp add: array_rep_def array_of_list_def)

lemmas array_call_defs = n_array_push_inl_def n_array_pop_def n_array_unshift_def
  n_array_set_nth_def n_array_remove_nth_def n_array_concat_ex_def n_array_remove_ex_def
  n_array_uniq_ex_def n_array_reverse_def n_array_clean_def

lemma array_step_frozen:
  assumes "array_rel e fr c a s" "\<not> die_hook e" "\<not> assert_hook e" "sp_frozen s"
    "spec_call fr c s k = Some (Inl f)"
  shows "array_step e a k = Inl f"
proof -
  have fz: "arr_has a TN_ARRAY_FROZEN"
    using assms by (simp add: array_rel_def)
  have al: "0 < arr_allocated a" "arr_items a = length (sp_items s)"
    using assms(1) by (simp_all add: array_rel_def array_rep_def)
  show ?thesis
  proof (cases k)
    case (Nth i)
    with assms al show ?thesis by (auto simp: n_array_nth_inl_def split: if_splits)
  qed (use assms(4,5) al(1) in \<open>simp_all add: array_call_defs done_of_def
        die_if_frozen_dies [OF fz assms(2)]\<close>)
qed


lemma freed_grow: "n_array_grow e a n = Inr (a', ok) \<Longrightarrow> arr_freed a' = arr_freed a"
  by (auto simp: n_array_grow_def n_array_realloc_def trurl_die_def Let_def rbind_eq_Inr
      dest!: n_assert_Inr split: if_splits option.splits)

lemma freed_concat_loop:
  "concat_loop e src dup a i index = Inr (a', n) \<Longrightarrow> arr_freed a' = arr_freed a"
proof (induction e src dup a i index rule: concat_loop.induct)
  case (1 e src dup a i index)
  from "1.prems" show ?case
    by (subst (asm) concat_loop.simps)
       (fastforce simp: rbind_eq_Inr arr_write_def dest: "1.IH" split: if_splits)
qed

lemma freed_concat: "n_array_concat_ex e a src dup = Inr (a', ok) \<Longrightarrow> arr_freed a' = arr_freed a"
  by (auto simp: n_array_concat_ex_def rbind_eq_Inr
      dest!: die_if_frozen_Inr freed_concat_loop freed_grow split: if_splits)

lemma freed_reverse: "n_array_reverse e a = Inr a' \<Longrightarrow> arr_freed a' = arr_freed a"
  by (auto simp: n_array_reverse_def rbind_eq_Inr dest!: die_if_frozen_Inr)

lemma not_kept_nonnull: "filter (\<lambda>p. p \<noteq> NULL) (filter (\<lambda>p. \<not> kept c x p) xs) = filter (\<lambda>p. \<not> kept c x p) xs"
  by (auto simp: kept_def intro!: filter_cong)

lemma freeze_has [simp]:
  "arr_has (n_array_freeze a) TN_ARRAY_FROZEN" "\<not> arr_has (n_array_unfreeze a) TN_ARRAY_FROZEN"
  "arr_has (n_array_freeze a) TN_ARRAY_CONSTSIZE = arr_has a TN_ARRAY_CONSTSIZE"
  "arr_has (n_array_unfreeze a) TN_ARRAY_CONSTSIZE = arr_has a TN_ARRAY_CONSTSIZE"
  by (simp_all add: n_array_freeze_def n_array_unfreeze_def arr_has_def array_flag_defs
      and.assoc bit.conj_disj_distrib2)

lemma freeze_rel:
  assumes "array_rel e fr c a s"
  shows "array_rel e fr c (n_array_freeze a) (s\<lparr>sp_frozen := True\<rparr>)"
    "array_rel e fr c (n_array_unfreeze a) (s\<lparr>sp_frozen := False\<rparr>)"
  using assms by (auto simp: array_rel_def) (simp_all add: n_array_freeze_def n_array_unfreeze_def array_rep_def)

lemma array_step_thawed:
  assumes rel: "array_rel e fr c a s" and nf: "\<not> sp_frozen s"
    and call: "spec_call fr c s k = Some (Inr (s', r))"
  shows "\<exists>a'. array_step e a k = Inr (a', r) \<and> array_rel e fr c a' s'"
proof -
  have rep: "array_rep a (sp_items s)" "arr_start_index a = 0"
    and cs: "\<not> arr_has a TN_ARRAY_CONSTSIZE" and fz: "\<not> arr_has a TN_ARRAY_FROZEN"
    and fd: "arr_freed a = sp_freed s"
    and fr: "\<And>ps. spec_free fr ps = (if arr_free_fn a = None then [] else filter (\<lambda>p. p \<noteq> NULL) ps)"
    using rel nf by (auto simp: array_rel_def spec_free_def)
  have room: "push_room a" using rep cs by (auto simp: push_room_def array_rep_def)
  obtain ck where ck: "pick_cmp None (arr_cmp_fn a) = Some ck" "c = call_cmp e ck"
    using rel by (auto simp: array_rel_def pick_cmp_def)
  note I = array_relI [OF rel]
  show ?thesis
  proof (cases k)
    case (Push p)
    from n_array_push_inl_ok [OF rep(1) fz room, of e p] show ?thesis
      using call nf Push fd rep(2) by (auto simp: done_of_def intro!: I conf_push)
  next
    case Pop
    with call nf have ne: "sp_items s = butlast (sp_items s) @ [last (sp_items s)]"
      by (auto split: if_splits)
    with rep(1) have "array_rep a (butlast (sp_items s) @ [last (sp_items s)])" by simp
    from n_array_pop_ok [OF this fz, of e] show ?thesis
      using call nf Pop fd rep(2) by (auto intro!: I conf_pop split: if_splits)
  next
    case (Unshift p)
    from n_array_unshift_ok [OF rep(1) fz cs, of e p] show ?thesis
      using call nf Unshift fd rep(2) by (auto simp: done_of_def intro!: I conf_unshift)
  next
    case (Nth i)
    with call n_array_nth_ok(2) [OF rep(1), of i e] rel show ?thesis by (auto split: if_splits)
  next
    case (Set_nth i p)
    with call nf n_array_set_nth_ok [OF rep(1) _ fz, of i e p] fd rep(2) fr show ?thesis
      by (auto simp: done_of_def intro!: I conf_set_nth split: if_splits)
  next
    case (Remove_nth i)
    with call nf n_array_remove_nth_ok [OF rep(1) _ fz, of i e] fd rep(2) fr show ?thesis
      by (auto simp: done_of_def intro!: I conf_remove_nth split: if_splits)
  next
    case (Concat ps)
    from n_array_concat_ex_ok [OF rep(1) array_of_list_rep rep(2) fz cs, of e ps None] show ?thesis
      using call nf Concat fd freed_concat [of e a "array_of_list ps" None]
      by (auto simp: done_of_def intro!: I conf_concat)
  next
    case (Remove x)
    from n_array_remove_ex_ok [OF rep(1) fz ck(1), of e x, folded ck(2)] show ?thesis
      using call nf Remove fd rep(2) fr
      by (auto simp: not_kept_nonnull simp del: filter_filter intro!: I conf_remove)
  next
    case Uniq
    from n_array_uniq_ex_ok [OF rep fz ck(1), of e, folded ck(2)] show ?thesis
      using call nf Uniq fd fr by (auto simp: done_of_def intro!: I)
  next
    case Reverse
    from n_array_reverse_ok [OF rep fz, of e] obtain a'
      where a': "n_array_reverse e a = Inr a'" "array_rep a' (rev (sp_items s))" by blast
    moreover have "arr_start_index a' = 0"
      using a'(1) rep(2) by (auto simp: n_array_reverse_def rbind_eq_Inr dest!: die_if_frozen_Inr)
    ultimately show ?thesis
      using call nf Reverse fd freed_reverse [of e a a'] by (auto intro!: I conf_reverse)
  next
    case Clean
    from n_array_clean_ok [OF rep(1) fz, of e] show ?thesis
      using call nf Clean fd fr by (auto intro!: I conf_clean)
  next
    case Freeze
    then show ?thesis using call freeze_rel [OF rel] by auto
  next
    case Unfreeze
    then show ?thesis using call freeze_rel [OF rel] by auto
  next
    case Size
    then show ?thesis using call rel by (auto simp: n_array_size_def array_rep_def array_rel_def)
  qed
qed


lemma array_step_frozen_ok:
  assumes rel: "array_rel e fr c a s" and fz: "sp_frozen s"
    and call: "spec_call fr c s k = Some (Inr (s', r))"
  shows "\<exists>a'. array_step e a k = Inr (a', r) \<and> array_rel e fr c a' s'"
proof (cases k)
  case (Nth i)
  with call n_array_nth_ok(2) [of a "sp_items s" i e] rel show ?thesis
    by (auto simp: array_rel_def split: if_splits)
next
  case Size
  with call rel show ?thesis by (auto simp: array_rel_def n_array_size_def array_rep_def)
qed (use call fz freeze_rel [OF rel] in \<open>auto split: if_splits\<close>)

lemma array_step_dies:
  assumes "array_rel e fr c a s" "\<not> die_hook e" "\<not> assert_hook e" "\<not> sp_frozen s"
    "spec_call fr c s k = Some (Inl f)"
  shows "array_step e a k = Inl f"
proof -
  have al: "0 < arr_allocated a" "arr_items a = length (sp_items s)" "\<not> arr_has a TN_ARRAY_FROZEN"
    using assms(1,4) by (simp_all add: array_rel_def array_rep_def)
  show ?thesis
    using assms(2-5) al
    by (cases k) (auto simp: array_call_defs n_array_nth_inl_def done_of_def n_assert_def
        split: if_splits)
qed

text \<open>Every call does what the specification says.\<close>

lemma array_step_refines:
  assumes "array_rel e fr c a s" "\<not> die_hook e" "\<not> assert_hook e" "spec_call fr c s k = Some res"
  shows "case res of Inl f \<Rightarrow> array_step e a k = Inl f
    | Inr (s', r) \<Rightarrow> \<exists>a'. array_step e a k = Inr (a', r) \<and> array_rel e fr c a' s'"
  using assms array_step_frozen [OF assms(1-3)] array_step_dies [OF assms(1-3)]
    array_step_thawed [OF assms(1)] array_step_frozen_ok [OF assms(1)]
  by (cases "sp_frozen s") (auto split: sum.splits)

lemma array_run_ok:
  assumes "array_rel e fr c a s" "\<not> die_hook e" "\<not> assert_hook e" "spec_run fr c s ks = Some res"
  shows "case res of Inl f \<Rightarrow> array_run e a ks = Inl f
    | Inr (s', rs) \<Rightarrow> \<exists>a'. array_run e a ks = Inr (a', rs) \<and> array_rel e fr c a' s'"
  using assms
proof (induction ks arbitrary: a s res)
  case Nil
  then show ?case by auto
next
  case (Cons k ks)
  obtain r1 where r1: "spec_call fr c s k = Some r1"
    using Cons.prems(4) by (auto split: option.splits)
  note st = array_step_refines [OF Cons.prems(1-3) r1]
  show ?case
  proof (cases r1)
    case (Inl f)
    then show ?thesis using Cons.prems(4) r1 st by auto
  next
    case (Inr sr)
    then obtain s1 r where sr: "r1 = Inr (s1, r)" by (cases sr) auto
    with st obtain a1 where a1: "array_step e a k = Inr (a1, r)" "array_rel e fr c a1 s1" by auto
    obtain r2 where r2: "spec_run fr c s1 ks = Some r2"
      using Cons.prems(4) r1 sr by (auto split: option.splits)
    from Cons.IH [OF a1(2) Cons.prems(2,3) r2] show ?thesis
      using Cons.prems(4) r1 sr r2 a1(1) by (auto split: sum.splits)
  qed
qed

section \<open>The stack contract\<close>

definition array_push_s :: "env \<Rightarrow> tn_array \<Rightarrow> ptr \<Rightarrow> tn_array result" where
  "array_push_s e a p = rbind (n_array_push_inl e a p) (\<lambda>(a, _). Inr a)"

lemma array_plain_rep:
  "array_plain a \<longleftrightarrow> array_rep a (array_elems a) \<and> arr_start_index a = 0 \<and>
     \<not> arr_has a TN_ARRAY_FROZEN \<and> \<not> arr_has a TN_ARRAY_CONSTSIZE"
  by (simp add: array_plain_def array_wf_def)

lemma array_plainI:
  assumes "array_plain a" "arr_conf a' = arr_conf a" "array_rep a' xs" "arr_start_index a' = 0"
  shows "array_plain a' \<and> array_elems a' = xs"
  using assms conf_has [OF assms(2)] array_rep_elems [OF assms(3)] by (auto simp: array_plain_rep)

interpretation arr: stack "array_push_s e" "n_array_pop e" array_elems array_plain for e
proof (unfold_locales, goal_cases)
  case (1 a x)
  then have "push_room a" by (auto simp: array_plain_rep push_room_def array_rep_def)
  with 1 n_array_push_inl_ok [of a "array_elems a" e x] obtain a' where a':
    "n_array_push_inl e a x = Inr (a', True)" "array_rep a' (array_elems a @ [x])"
    "arr_start_index a' = 0" by (auto simp: array_plain_rep)
  from array_plainI [OF 1 conf_push [OF a'(1)] a'(2,3)] a'(1) show ?case
    by (simp add: array_push_s_def)
next
  case (2 a xs x)
  then have "array_rep a (xs @ [x])" by (simp add: array_plain_rep)
  from n_array_pop_ok [OF this, of e] 2 obtain a' where a': "n_array_pop e a = Inr (a', x)"
    "array_rep a' xs" "arr_start_index a' = 0" by (auto simp: array_plain_rep)
  from array_plainI [OF 2(1) conf_pop [OF a'(1)] a'(2,3)] a'(1) show ?case by simp
qed


section \<open>Properties\<close>

definition cmp_of :: "cmp_id option \<Rightarrow> cmp_id" where
  "cmp_of cmpf = (case cmpf of None \<Rightarrow> Cmp_Default | Some c \<Rightarrow> c)"

lemma new_rel:
  assumes "0 \<le> n" "n_array_new e n freef cmpf = Inr a"
  shows "array_rel e (freef \<noteq> None) (call_cmp e (cmp_of cmpf)) a
    \<lparr>sp_items = [], sp_freed = [], sp_frozen = False\<rparr>"
  using assms n_array_new_ok [OF assms(1), of e freef cmpf]
  by (cases cmpf) (auto simp: array_rel_def arr_has_def cmp_of_def)




text \<open>C20: \<open>n_array_push\<close> on a shifted array: when the items reach the end of the block but are
  fewer than the allocated cells, no growing takes place and the write is past the block.\<close>

theorem push_past_block:
  assumes "array_wf a" "\<not> arr_has a TN_ARRAY_FROZEN"
    "0 < arr_start_index a" "arr_start_index a + arr_items a = arr_allocated a"
  shows "n_array_push e a p = Inl Mem_Fault \<and> n_array_push_inl e a p = Inl Mem_Fault"
  using assms by (simp add: n_array_push_def n_array_push_inl_def arr_write_def mem_write_def
      array_wf_def array_rep_def)

text \<open>Two pushes and a shift lead there.\<close>

definition shifted_array :: tn_array where
  "shifted_array = \<lparr>arr_refcnt = 0, arr_flags = 0, arr_items = 1, arr_allocated = 2,
     arr_start_index = 1, arr_data = [0, 6], arr_free_fn = None, arr_cmp_fn = Some Cmp_Default,
     arr_freed = []\<rparr>"

lemma shifted_array_reached:
  "rbind (n_array_new plain_env 2 None None) (\<lambda>a. rbind (n_array_push plain_env a 5)
    (\<lambda>(a, _). rbind (n_array_push plain_env a 6) (\<lambda>(a, _). n_array_shift plain_env a))) =
   Inr (shifted_array, 5)"
  by (simp add: n_array_new_def n_array_new_ex_def n_array_init_ex_def n_array_push_def
      n_array_shift_def arr_write_def mem_write_def mem_read_def die_if_frozen_def arr_has_def
      array_flag_defs clr_sorted_def shifted_array_def numeral_2_eq_2)

lemma push_past_block_witness:
  "n_array_push plain_env shifted_array 7 = Inl Mem_Fault \<and>
   n_array_push_inl plain_env shifted_array 7 = Inl Mem_Fault"
  by (rule push_past_block)
    (simp_all add: shifted_array_def array_wf_def array_rep_def array_elems_def arr_has_def)

text \<open>Two arrays are equal for \<open>n_array_eq_ex\<close> exactly when they have the same length and
  equal items at every index; no index is read beyond the items.\<close>

theorem n_array_eq_ex_correct:
  assumes "array_rep a xs" "array_rep b ys" "arr_start_index a = 0" "arr_start_index b = 0"
    "pick_cmp cmpf (arr_cmp_fn a) = Some c"
  shows "n_array_eq_ex e a b cmpf =
    Inr (if list_all2 (\<lambda>x y. call_cmp e c x y = 0) xs ys then 1 else 0)"
proof -
  have len: "arr_items a = length xs" "arr_items b = length ys"
    "length xs \<le> length (arr_data a)" "length ys \<le> length (arr_data b)"
    "\<And>k. k < length xs \<Longrightarrow> arr_data a ! k = xs ! k"
    "\<And>k. k < length ys \<Longrightarrow> arr_data b ! k = ys ! k"
    using assms by (auto simp: array_rep_def nth_append)
  show ?thesis
  proof (cases "length xs = length ys")
    case True
    then have "eq_loop (call_cmp e c) (arr_data a) (arr_data b) 0 (length xs) =
      Inr (\<forall>k. k < length xs \<longrightarrow> call_cmp e c (xs ! k) (ys ! k) = 0)"
      using len by (subst eq_loop_ok) auto
    then show ?thesis using assms(5) len True
      by (auto simp: n_array_eq_ex_def n_array_size_def list_all2_conv_all_nth)
  next
    case False
    then show ?thesis using assms(5) len
      by (auto simp: n_array_eq_ex_def n_array_size_def list_all2_conv_all_nth)
  qed
qed

definition small_array :: "ptr list \<Rightarrow> tn_array" where
  "small_array xs = \<lparr>arr_refcnt = 0, arr_flags = 0, arr_items = length xs,
     arr_allocated = length xs, arr_start_index = 0, arr_data = xs, arr_free_fn = None,
     arr_cmp_fn = Some (Cmp_User 0), arr_freed = []\<rparr>"

lemma small_array_rep: "xs \<noteq> [] \<Longrightarrow> array_rep (small_array xs) xs"
  by (simp add: small_array_def array_rep_def)

lemma n_array_eq_ex_correct_witness:
  "n_array_eq_ex plain_env (small_array [1, 2]) (small_array [1, 2]) None = Inr 1 \<and>
   n_array_eq_ex plain_env (small_array [1, 2]) (small_array [1, 3]) None = Inr 0"
  using n_array_eq_ex_correct [OF small_array_rep small_array_rep, of "[1, 2]" "[1, 2]" None "Cmp_User 0" plain_env]
    n_array_eq_ex_correct [OF small_array_rep small_array_rep, of "[1, 2]" "[1, 3]" None "Cmp_User 0" plain_env]
  by (simp add: small_array_def pick_cmp_def)

lemma conf_clone_loop: "clone_loop e src d a i = Inr a' \<Longrightarrow> arr_conf a' = arr_conf a"
proof (induction e src d a i rule: clone_loop.induct)
  case (1 e src d a i)
  from "1.prems" show ?case
    by (subst (asm) clone_loop.simps)
       (fastforce simp: rbind_eq_Inr dest: "1.IH" conf_push split: if_splits)
qed

text \<open>A copy made with a copy function holds the copies of the items in order, and has the
  source's free function; the source's flags come along, so a source that is frozen or of
  constant size is excluded.\<close>

theorem n_array_clone_copies:
  assumes "array_rep a xs" "\<not> arr_has a TN_ARRAY_FROZEN" "\<not> arr_has a TN_ARRAY_CONSTSIZE"
  shows "\<exists>b. n_array_clone_ex e a (Some d) = Inr b \<and> array_wf b \<and>
    array_elems b = map (user_dup e d) xs \<and> arr_free_fn b = arr_free_fn a \<and> arr_refcnt b = 0"
proof -
  obtain a0 where a0: "n_array_new e (int (arr_allocated a)) (arr_free_fn a) (arr_cmp_fn a) = Inr a0"
    "array_rep a0 []" "arr_start_index a0 = 0" "arr_free_fn a0 = arr_free_fn a" "arr_refcnt a0 = 0"
    using n_array_new_ok [of "int (arr_allocated a)" e "arr_free_fn a" "arr_cmp_fn a"] by auto
  let ?b = "a0\<lparr>arr_flags := arr_flags a\<rparr>"
  have b: "array_rep ?b []" "\<not> arr_has ?b TN_ARRAY_FROZEN" "\<not> arr_has ?b TN_ARRAY_CONSTSIZE"
    "arr_start_index ?b = 0"
    using a0 assms by (simp_all add: array_rep_def arr_has_def)
  then have "push_room ?b" by (auto simp: push_room_def array_rep_def)
  with clone_loop_ok [OF assms(1) _ b(1,4,2), of 0 e d] b(3) obtain b'
    where b': "clone_loop e a d ?b 0 = Inr b'" "array_rep b' (map (user_dup e d) xs)" by auto
  moreover have "arr_items b' = arr_items a" using b'(2) assms(1) by (simp add: array_rep_def)
  moreover have "arr_conf b' = arr_conf ?b" using b'(1) by (rule conf_clone_loop)
  ultimately show ?thesis using a0 array_rep_wf [of b' "map (user_dup e d) xs"]
    by (simp add: n_array_clone_ex_def arr_conf_def)
qed

lemma n_array_clone_copies_witness:
  "\<exists>b. n_array_clone_ex plain_env (small_array [4, 5]) (Some 0) = Inr b \<and> array_elems b = [4, 5]"
  using n_array_clone_copies [OF small_array_rep, of "[4, 5]" plain_env 0]
  by (auto simp: small_array_def arr_has_def)

end
