(* ===== verification/Sorts.thy ===== *)
theory Sorts
  imports Prelude "HOL-Library.Multiset"
begin

text \<open>
  Orders given by a comparison function, stable rearrangement, and the sorting and
  searching routines of the library on a block of pointers: insertion sort and quicksort
  (\<open>n_array_sorts.c\<close>) and binary search (\<open>n_array_bsearch_ex.c\<close>). The sort the arrays
  call is in \<open>TimSort\<close>.

  The routines take a pointer to the first item and a size; the model passes the block
  from that item on. \<open>at_offset\<close> is a call with a pointer into the middle of the block.
  The \<open>unsigned\<close> indices of the quicksort are naturals: blocks have less than \<open>2\<^sup>3\<^sup>2\<close> items.
\<close>

section \<open>Comparison functions\<close>

locale ordering_cmp =
  fixes c :: "'a \<Rightarrow> 'a \<Rightarrow> int" and S :: "'a set"
  assumes flip: "x \<in> S \<Longrightarrow> y \<in> S \<Longrightarrow> sgn (c y x) = - sgn (c x y)"
    and le_trans: "x \<in> S \<Longrightarrow> y \<in> S \<Longrightarrow> z \<in> S \<Longrightarrow> c x y \<le> 0 \<Longrightarrow> c y z \<le> 0 \<Longrightarrow> c x z \<le> 0"
begin

lemma refl: "x \<in> S \<Longrightarrow> c x x = 0"
  using flip [of x x] by (simp add: sgn_if split: if_splits)

lemma flip_less: "x \<in> S \<Longrightarrow> y \<in> S \<Longrightarrow> c y x < 0 \<longleftrightarrow> 0 < c x y"
  using flip [of x y] by (simp add: sgn_if split: if_splits)

lemma flip_le: "x \<in> S \<Longrightarrow> y \<in> S \<Longrightarrow> c y x \<le> 0 \<longleftrightarrow> 0 \<le> c x y"
  using flip [of x y] by (simp add: sgn_if split: if_splits)

lemma flip_eq: "x \<in> S \<Longrightarrow> y \<in> S \<Longrightarrow> c y x = 0 \<longleftrightarrow> c x y = 0"
  using flip [of x y] by (simp add: sgn_if split: if_splits)

lemma less_le_trans:
  assumes "x \<in> S" "y \<in> S" "z \<in> S" "c x y < 0" "c y z \<le> 0"
  shows "c x z < 0"
proof (rule ccontr)
  assume "\<not> c x z < 0"
  then have "c z x \<le> 0" using flip_le [of x z] assms by simp
  with assms have "c y x \<le> 0" using le_trans [of y z x] by simp
  then show False using flip_less [of y x] assms by simp
qed

lemma le_less_trans:
  assumes "x \<in> S" "y \<in> S" "z \<in> S" "c x y \<le> 0" "c y z < 0"
  shows "c x z < 0"
proof (rule ccontr)
  assume "\<not> c x z < 0"
  then have "c z x \<le> 0" using flip_le [of x z] assms by simp
  with assms have "c z y \<le> 0" using le_trans [of z x y] by simp
  then show False using flip_less [of z y] assms by simp
qed

lemma eq_trans:
  assumes "x \<in> S" "y \<in> S" "z \<in> S" "c x y = 0" "c y z = 0"
  shows "c x z = 0"
proof -
  have "c x z \<le> 0" using le_trans [of x y z] assms by simp
  moreover have "c z x \<le> 0"
    using le_trans [of z y x] assms flip_eq [of x y] flip_eq [of y z] by simp
  ultimately show ?thesis using flip_le [of x z] assms by simp
qed

end

lemma ordering_cmp_subset: "ordering_cmp c S \<Longrightarrow> A \<subseteq> S \<Longrightarrow> ordering_cmp c A"
  unfolding ordering_cmp_def by blast

definition sorted_cmp :: "('a \<Rightarrow> 'a \<Rightarrow> int) \<Rightarrow> 'a list \<Rightarrow> bool" where
  "sorted_cmp c xs = sorted_wrt (\<lambda>x y. c x y \<le> 0) xs"

lemma sorted_cmp_Nil [simp]: "sorted_cmp c []" by (simp add: sorted_cmp_def)
lemma sorted_cmp_single [simp]: "sorted_cmp c [x]" by (simp add: sorted_cmp_def)
lemma sorted_cmp_Cons: "sorted_cmp c (x # xs) \<longleftrightarrow> (\<forall>y\<in>set xs. c x y \<le> 0) \<and> sorted_cmp c xs"
  by (simp add: sorted_cmp_def)
lemma sorted_cmp_append:
  "sorted_cmp c (xs @ ys) \<longleftrightarrow> sorted_cmp c xs \<and> sorted_cmp c ys \<and> (\<forall>x\<in>set xs. \<forall>y\<in>set ys. c x y \<le> 0)"
  by (auto simp: sorted_cmp_def sorted_wrt_append)

text \<open>A rearrangement that keeps items the comparison calls equal in their order.\<close>

definition stable_perm :: "('a \<Rightarrow> 'a \<Rightarrow> int) \<Rightarrow> 'a list \<Rightarrow> 'a list \<Rightarrow> bool" where
  "stable_perm c xs ys \<longleftrightarrow>
     mset xs = mset ys \<and> (\<forall>z\<in>set xs. filter (\<lambda>y. c z y = 0) xs = filter (\<lambda>y. c z y = 0) ys)"

lemma stable_perm_refl [simp]: "stable_perm c xs xs"
  by (simp add: stable_perm_def)

lemma stable_perm_trans: "stable_perm c xs ys \<Longrightarrow> stable_perm c ys zs \<Longrightarrow> stable_perm c xs zs"
  unfolding stable_perm_def by (metis mset_eq_setD)

lemma stable_perm_set: "stable_perm c xs ys \<Longrightarrow> set ys = set xs"
  unfolding stable_perm_def by (metis mset_eq_setD)

lemma stable_perm_sym: "stable_perm c xs ys \<Longrightarrow> stable_perm c ys xs"
  unfolding stable_perm_def by (metis mset_eq_setD)

lemma stable_perm_length: "stable_perm c xs ys \<Longrightarrow> length ys = length xs"
  unfolding stable_perm_def by (metis mset_eq_length)

context ordering_cmp
begin

lemma class_filter:
  assumes "stable_perm c xs ys" "set xs \<subseteq> S" "z \<in> S"
  shows "filter (\<lambda>y. c z y = 0) xs = filter (\<lambda>y. c z y = 0) ys"
proof (cases "\<exists>x\<in>set xs. c z x = 0")
  case True
  then obtain x where x: "x \<in> set xs" "c z x = 0" by blast
  have same: "c z y = 0 \<longleftrightarrow> c x y = 0" if "y \<in> set xs" for y
    using that x assms(2,3) eq_trans [of z x y] eq_trans [of x z y] flip_eq [of z x] by auto
  have "filter (\<lambda>y. c z y = 0) xs = filter (\<lambda>y. c x y = 0) xs"
    using same by (auto intro: filter_cong)
  also have "\<dots> = filter (\<lambda>y. c x y = 0) ys" using assms(1) x(1) by (simp add: stable_perm_def)
  also have "\<dots> = filter (\<lambda>y. c z y = 0) ys"
    using same stable_perm_set [OF assms(1)] by (auto intro: filter_cong)
  finally show ?thesis .
next
  case False
  then show ?thesis using stable_perm_set [OF assms(1)] by (auto simp: filter_empty_conv)
qed

lemma stable_perm_append:
  assumes "stable_perm c xs xs'" "stable_perm c ys ys'" "set xs \<subseteq> S" "set ys \<subseteq> S"
  shows "stable_perm c (xs @ ys) (xs' @ ys')"
  using assms class_filter [OF assms(1,3)] class_filter [OF assms(2,4)]
  by (auto simp: stable_perm_def)

lemma stable_perm_move:
  assumes "set vs \<subseteq> S" "x \<in> S" "\<forall>v\<in>set vs. c x v < 0"
  shows "stable_perm c (vs @ [x]) (x # vs)"
proof -
  have "filter (\<lambda>y. c z y = 0) vs = []" if "z \<in> S" "c z x = 0" for z
    using that assms eq_trans [of x z] flip_eq [of z x] by (fastforce simp: filter_empty_conv)
  then show ?thesis using assms by (auto simp: stable_perm_def)
qed

lemma stable_perm_rev_strict:
  assumes "set xs \<subseteq> S" "sorted_wrt (\<lambda>x y. c x y > 0) xs"
  shows "stable_perm c xs (rev xs)"
proof -
  have one: "filter (\<lambda>y. c z y = 0) xs = [] \<or> (\<exists>y. filter (\<lambda>y. c z y = 0) xs = [y])"
    if "z \<in> S" for z using assms
  proof (induction xs)
    case (Cons x xs)
    have "filter (\<lambda>y. c z y = 0) xs = []" if "c z x = 0"
      using that \<open>z \<in> S\<close> Cons.prems eq_trans [of x z] flip_eq [of z x]
      by (fastforce simp: filter_empty_conv)
    then show ?case using Cons by auto
  qed simp
  have "filter (\<lambda>y. c z y = 0) xs = filter (\<lambda>y. c z y = 0) (rev xs)" if "z \<in> S" for z
    using one [OF that] by (auto simp: rev_filter [symmetric])
  then show ?thesis using assms by (auto simp: stable_perm_def)
qed

text \<open>A sorted list with given items and given order of the equal ones is unique.\<close>

lemma sorted_stable_unique:
  assumes "stable_perm c xs ys" "sorted_cmp c xs" "sorted_cmp c ys" "set xs \<subseteq> S"
  shows "xs = ys"
  using assms
proof (induction xs arbitrary: ys)
  case Nil
  then show ?case using stable_perm_length by fastforce
next
  case (Cons x xs)
  from Cons.prems(1) obtain y zs where ys: "ys = y # zs"
    using stable_perm_length by (metis length_Suc_conv)
  have sets: "set ys = set (x # xs)" by (rule stable_perm_set [OF Cons.prems(1)])
  have S: "x \<in> S" "y \<in> S" using Cons.prems(4) sets ys by auto
  have mem: "y = x \<or> y \<in> set xs" "x = y \<or> x \<in> set zs" using sets ys by auto
  have "c x y \<le> 0" using mem(1) Cons.prems(2) refl [OF S(1)] by (auto simp: sorted_cmp_Cons)
  moreover have "c y x \<le> 0"
    using mem(2) Cons.prems(3) ys refl [OF S(2)] by (auto simp: sorted_cmp_Cons)
  ultimately have xy: "c x y = 0" using flip_le [OF S] by simp
  have "filter (\<lambda>z. c x z = 0) (x # xs) = filter (\<lambda>z. c x z = 0) ys"
    using Cons.prems(1) by (simp add: stable_perm_def)
  then have eq: "y = x" using xy refl [OF S(1)] ys by simp
  have "stable_perm c xs zs"
    unfolding stable_perm_def
  proof
    show "mset xs = mset zs" using Cons.prems(1) ys eq by (simp add: stable_perm_def)
    show "\<forall>z\<in>set xs. filter (\<lambda>y. c z y = 0) xs = filter (\<lambda>y. c z y = 0) zs"
    proof
      fix z assume "z \<in> set xs"
      then have "filter (\<lambda>y. c z y = 0) (x # xs) = filter (\<lambda>y. c z y = 0) (x # zs)"
        using Cons.prems(1) ys eq by (simp add: stable_perm_def)
      then show "filter (\<lambda>y. c z y = 0) xs = filter (\<lambda>y. c z y = 0) zs"
        by (simp split: if_splits)
    qed
  qed
  then show ?case using Cons.IH [of zs] Cons.prems ys eq by (simp add: sorted_cmp_Cons)
qed

end

section \<open>Blocks\<close>

definition at_offset :: "'a list \<Rightarrow> nat \<Rightarrow> ('a list \<Rightarrow> 'a list result) \<Rightarrow> 'a list result" where
  "at_offset d off f =
     (if off \<le> length d then rbind (f (drop off d)) (\<lambda>s. Inr (take off d @ s)) else Inl Mem_Fault)"

lemma at_offset_cong [fundef_cong]:
  "d = d' \<Longrightarrow> off = off' \<Longrightarrow> f (drop off' d') = f' (drop off' d') \<Longrightarrow> at_offset d off f = at_offset d' off' f'"
  by (simp add: at_offset_def)

definition mem_swap :: "'a list \<Rightarrow> nat \<Rightarrow> nat \<Rightarrow> 'a list result" where
  "mem_swap d i j =
     rbind (mem_read d i) (\<lambda>x. rbind (mem_read d j)
       (\<lambda>y. rbind (mem_write d i y) (\<lambda>d. mem_write d j x)))"

lemma mem_swap_ok:
  "i < length d \<Longrightarrow> j < length d \<Longrightarrow> mem_swap d i j = Inr (d[i := d ! j, j := d ! i])"
  by (simp add: mem_swap_def mem_read_def mem_write_def)

section \<open>Insertion sort\<close>

fun isort_shift :: "('a \<Rightarrow> 'a \<Rightarrow> int) \<Rightarrow> 'a \<Rightarrow> nat \<Rightarrow> 'a list \<Rightarrow> ('a list \<times> nat) result" where
  "isort_shift c tmp 0 d = Inr (d, 0)"
| "isort_shift c tmp (Suc j) d =
     rbind (mem_read d j) (\<lambda>p. if c tmp p < 0
       then rbind (mem_write d (Suc j) p) (\<lambda>d. isort_shift c tmp j d) else Inr (d, Suc j))"

function isort_loop :: "('a \<Rightarrow> 'a \<Rightarrow> int) \<Rightarrow> 'a list \<Rightarrow> nat \<Rightarrow> nat \<Rightarrow> 'a list result" where
  "isort_loop c d i n =
     (if i < n
      then rbind (mem_read d i) (\<lambda>tmp. rbind (isort_shift c tmp i d)
        (\<lambda>(d, j). rbind (mem_write d j tmp) (\<lambda>d. isort_loop c d (Suc i) n)))
      else Inr d)"
  by pat_completeness auto
termination by (relation "measure (\<lambda>(c, d, i, n). n - i)") auto

declare isort_loop.simps [simp del]

definition trurl_isort_voidp_arr :: "('a \<Rightarrow> 'a \<Rightarrow> int) \<Rightarrow> 'a list \<Rightarrow> nat \<Rightarrow> 'a list result" where
  "trurl_isort_voidp_arr c d n = isort_loop c d 1 n"

lemma isort_shift_ok:
  "\<exists>as bs h. us = as @ bs \<and> isort_shift c x (length us) (us @ z # ws) = Inr (as @ h # bs @ ws, length as) \<and>
    (\<forall>b\<in>set bs. c x b < 0) \<and> (as \<noteq> [] \<longrightarrow> \<not> c x (last as) < 0)"
proof (induction us arbitrary: z ws rule: rev_induct)
  case Nil
  then show ?case by auto
next
  case (snoc u us)
  show ?case
  proof (cases "c x u < 0")
    case True
    from snoc.IH [of u "u # ws"] obtain as bs h where ih: "us = as @ bs"
      "isort_shift c x (length us) (us @ u # u # ws) = Inr (as @ h # bs @ u # ws, length as)"
      "\<forall>b\<in>set bs. c x b < 0" "as \<noteq> [] \<longrightarrow> \<not> c x (last as) < 0" by blast
    have "isort_shift c x (length (us @ [u])) ((us @ [u]) @ z # ws) =
        isort_shift c x (length us) (us @ u # u # ws)"
      using True by (simp add: mem_read_def mem_write_def nth_append list_update_append)
    then show ?thesis using ih True
      by (intro exI [of _ as] exI [of _ "bs @ [u]"] exI [of _ h]) auto
  next
    case False
    then show ?thesis
      by (intro exI [of _ "us @ [u]"] exI [of _ "[]"] exI [of _ z])
         (simp add: mem_read_def nth_append)
  qed
qed

context ordering_cmp
begin

text \<open>Where an item is put, the sorted prefix stays sorted and equal items keep their order.\<close>

lemma sorted_insert:
  assumes "sorted_cmp c (as @ bs)" "\<forall>b\<in>set bs. c x b < 0" "as \<noteq> [] \<longrightarrow> c (last as) x \<le> 0"
    "set (as @ bs) \<subseteq> S" "x \<in> S"
  shows "sorted_cmp c (as @ x # bs)"
proof -
  have "c a x \<le> 0" if "a \<in> set as" for a
  proof -
    from that obtain ys z where as: "as = ys @ [z]" by (cases as rule: rev_cases) auto
    then have "c a z \<le> 0" using that assms(1,4) refl by (auto simp: sorted_cmp_append)
    then show ?thesis using as assms(3,4,5) that le_trans [of a z x] by auto
  qed
  then show ?thesis using assms by (auto simp: sorted_cmp_append sorted_cmp_Cons order_less_imp_le)
qed

lemma stable_insert:
  assumes "\<forall>b\<in>set bs. c x b < 0" "set (as @ bs) \<subseteq> S" "x \<in> S"
  shows "stable_perm c ((as @ bs) @ [x]) (as @ x # bs)"
  using stable_perm_append [OF stable_perm_refl [of c as] stable_perm_move [of bs x]] assms by simp

lemma isort_loop_ok:
  assumes "sorted_cmp c us" "set (us @ vs) \<subseteq> S"
  shows "\<exists>zs. isort_loop c (us @ vs @ ws) (length us) (length us + length vs) = Inr (zs @ ws) \<and>
    sorted_cmp c zs \<and> stable_perm c (us @ vs) zs"
  using assms
proof (induction vs arbitrary: us)
  case Nil
  then show ?case by (intro exI [of _ us]) (simp add: isort_loop.simps)
next
  case (Cons v vs)
  from isort_shift_ok [of us c v v "vs @ ws"] obtain as bs h where sh: "us = as @ bs"
    "isort_shift c v (length us) (us @ v # vs @ ws) = Inr (as @ h # bs @ vs @ ws, length as)"
    "\<forall>b\<in>set bs. c v b < 0" "as \<noteq> [] \<longrightarrow> \<not> c v (last as) < 0" by blast
  let ?us = "as @ v # bs"
  have S: "set (as @ bs) \<subseteq> S" "v \<in> S" "set vs \<subseteq> S" using Cons.prems(2) sh(1) by auto
  have "as \<noteq> [] \<longrightarrow> last as \<in> S" using S(1) last_in_set [of as] by auto
  then have "as \<noteq> [] \<longrightarrow> c (last as) v \<le> 0" using sh(4) S(2) flip_le [of v "last as"] by auto
  with sorted_insert [of as bs v] Cons.prems(1) sh S have st: "sorted_cmp c ?us" by simp
  have "isort_loop c (us @ (v # vs) @ ws) (length us) (length us + length (v # vs)) =
      isort_loop c (?us @ vs @ ws) (length ?us) (length ?us + length vs)"
    using sh(1,2) by (subst isort_loop.simps) (simp add: mem_read_def mem_write_def)
  moreover obtain zs where zs: "isort_loop c (?us @ vs @ ws) (length ?us) (length ?us + length vs) =
      Inr (zs @ ws)" "sorted_cmp c zs" "stable_perm c (?us @ vs) zs"
    using Cons.IH [OF st] S by auto
  moreover have "stable_perm c ((us @ [v]) @ vs) (?us @ vs)"
    using stable_perm_append [OF stable_insert [OF sh(3) S(1,2)] stable_perm_refl [of c vs]] S sh(1)
    by simp
  ultimately show ?case using stable_perm_trans by fastforce
qed

lemma isort_ok:
  assumes "set xs \<subseteq> S"
  shows "\<exists>zs. trurl_isort_voidp_arr c (xs @ ws) (length xs) = Inr (zs @ ws) \<and>
    sorted_cmp c zs \<and> stable_perm c xs zs"
proof (cases xs)
  case Nil
  then show ?thesis by (simp add: trurl_isort_voidp_arr_def isort_loop.simps)
next
  case (Cons x vs)
  then show ?thesis using isort_loop_ok [of "[x]" vs ws] assms
    by (simp add: trurl_isort_voidp_arr_def)
qed

end


section \<open>Quicksort\<close>

text \<open>
  \<open>do j--; while (j && cmpf(arr[j], arr[0]) > 0)\<close>, then
  \<open>do i++; while (i < j && cmpf(arr[i], arr[0]) < 0)\<close>.
\<close>

fun scan_down :: "('a \<Rightarrow> 'a \<Rightarrow> int) \<Rightarrow> 'a list \<Rightarrow> nat \<Rightarrow> nat result" where
  "scan_down c d 0 = Inl Mem_Fault"
| "scan_down c d (Suc j) =
     (if j > 0
      then rbind (mem_read d j) (\<lambda>x. rbind (mem_read d 0)
        (\<lambda>p. if c x p > 0 then scan_down c d j else Inr j))
      else Inr j)"

function scan_up :: "('a \<Rightarrow> 'a \<Rightarrow> int) \<Rightarrow> 'a list \<Rightarrow> nat \<Rightarrow> nat \<Rightarrow> nat result" where
  "scan_up c d i j =
     (if Suc i < j
      then rbind (mem_read d (Suc i)) (\<lambda>x. rbind (mem_read d 0)
        (\<lambda>p. if c x p < 0 then scan_up c d (Suc i) j else Inr (Suc i)))
      else Inr (Suc i))"
  by pat_completeness auto
termination by (relation "measure (\<lambda>(c, d, i, j). j - i)") auto

declare scan_up.simps [simp del]

lemma scan_down_less: "scan_down c d j = Inr j' \<Longrightarrow> j' < j"
  by (induction c d j rule: scan_down.induct) (fastforce simp: rbind_eq_Inr split: if_splits)+

function part_loop :: "('a \<Rightarrow> 'a \<Rightarrow> int) \<Rightarrow> 'a list \<Rightarrow> nat \<Rightarrow> nat \<Rightarrow> ('a list \<times> nat) result" where
  "part_loop c d i j =
     rbind (scan_down c d j) (\<lambda>j. rbind (scan_up c d i j)
       (\<lambda>i. if i \<ge> j then Inr (d, j)
         else rbind (mem_swap d i j) (\<lambda>d. part_loop c d i j)))"
  by pat_completeness auto
termination by (relation "measure (\<lambda>(c, d, i, j). j)") (auto dest: scan_down_less)

declare part_loop.simps [simp del]

lemma part_loop_less: "part_loop c d i j = Inr (d', j') \<Longrightarrow> j' < j"
proof (induction c d i j rule: part_loop.induct)
  case (1 c d i j)
  obtain j1 i1 where st: "scan_down c d j = Inr j1" "scan_up c d i j1 = Inr i1"
    "(if i1 \<ge> j1 then Inr (d, j1) else rbind (mem_swap d i1 j1) (\<lambda>d. part_loop c d i1 j1)) = Inr (d', j')"
    using "1.prems" by (subst (asm) part_loop.simps) (auto simp: rbind_eq_Inr)
  show ?case
  proof (cases "i1 \<ge> j1")
    case True
    then show ?thesis using st(3) scan_down_less [OF st(1)] by simp
  next
    case False
    then obtain d1 where "mem_swap d i1 j1 = Inr d1" "part_loop c d1 i1 j1 = Inr (d', j')"
      using st(3) by (auto simp: rbind_eq_Inr)
    from "1.IH" [OF st(1,2) False this] show ?thesis using scan_down_less [OF st(1)] by simp
  qed
qed

function trurl_qsort_voidp_arr :: "('a \<Rightarrow> 'a \<Rightarrow> int) \<Rightarrow> 'a list \<Rightarrow> nat \<Rightarrow> 'a list result" where
  "trurl_qsort_voidp_arr c d n =
     (if n > 1
      then rbind (mem_swap d 0 (n div 2)) (\<lambda>d. rbind (part_loop c d 0 n)
        (\<lambda>(d, j). rbind (mem_swap d j 0)
          (\<lambda>d. let ln = j; j = j + 1; rn = n - j in
            if ln < rn
            then rbind (trurl_qsort_voidp_arr c d ln)
              (\<lambda>d. at_offset d j (\<lambda>s. trurl_qsort_voidp_arr c s rn))
            else rbind (at_offset d j (\<lambda>s. trurl_qsort_voidp_arr c s rn))
              (\<lambda>d. trurl_qsort_voidp_arr c d ln))))
      else Inr d)"
  by pat_completeness auto
termination by (relation "measure (\<lambda>(c, d, n). n)") (auto dest: part_loop_less)

declare trurl_qsort_voidp_arr.simps [simp del]

lemma scan_down_ok:
  assumes "0 < j" "j \<le> length d"
  shows "\<exists>j'. scan_down c d j = Inr j' \<and> j' < j \<and> (j' = 0 \<or> c (d ! j') (d ! 0) \<le> 0) \<and>
    (\<forall>k. j' < k \<and> k < j \<longrightarrow> 0 < c (d ! k) (d ! 0))"
  using assms
proof (induction j)
  case (Suc j)
  show ?case
  proof (cases "0 < j \<and> 0 < c (d ! j) (d ! 0)")
    case True
    with Suc obtain j' where j': "scan_down c d j = Inr j'" "j' < j"
      "j' = 0 \<or> c (d ! j') (d ! 0) \<le> 0" "\<forall>k. j' < k \<and> k < j \<longrightarrow> 0 < c (d ! k) (d ! 0)" by auto
    have "0 < length d" using Suc.prems(2) by linarith
    then have "scan_down c d (Suc j) = Inr j'" using True j'(1) Suc.prems by (simp add: mem_read_def)
    moreover have "\<forall>k. j' < k \<and> k < Suc j \<longrightarrow> 0 < c (d ! k) (d ! 0)"
      using j'(4) True by (metis less_Suc_eq)
    ultimately show ?thesis using j'(2,3) by auto
  next
    case False
    have "0 < length d" using Suc.prems(2) by linarith
    then show ?thesis using False Suc.prems by (auto simp: mem_read_def)
  qed
qed simp

lemma scan_up_ok:
  assumes "j < length d"
  shows "\<exists>i'. scan_up c d i j = Inr i' \<and> i < i' \<and> i' \<le> max (Suc i) j \<and>
    (\<forall>k. i < k \<and> k < i' \<longrightarrow> c (d ! k) (d ! 0) < 0) \<and> (i' < j \<longrightarrow> 0 \<le> c (d ! i') (d ! 0))"
  using assms
proof (induction c d i j rule: scan_up.induct)
  case (1 c d i j)
  have "0 < length d" using "1.prems" by linarith
  then have rd: "mem_read d 0 = Inr (d ! 0)" "Suc i < j \<Longrightarrow> mem_read d (Suc i) = Inr (d ! Suc i)"
    using "1.prems" by (simp_all add: mem_read_def)
  show ?case
  proof (cases "Suc i < j \<and> c (d ! Suc i) (d ! 0) < 0")
    case True
    with "1.IH" [OF _ rd(2) rd(1)] "1.prems" obtain i' where i': "scan_up c d (Suc i) j = Inr i'" "Suc i < i'"
      "i' \<le> max (Suc (Suc i)) j" "\<forall>k. Suc i < k \<and> k < i' \<longrightarrow> c (d ! k) (d ! 0) < 0"
      "i' < j \<longrightarrow> 0 \<le> c (d ! i') (d ! 0)" by auto
    have "\<forall>k. i < k \<and> k < i' \<longrightarrow> c (d ! k) (d ! 0) < 0"
      using i'(4) True by (metis Suc_lessI)
    then show ?thesis using i' True rd by (subst scan_up.simps) auto
  next
    case False
    then show ?thesis using rd by (subst scan_up.simps) (auto simp: scan_up.simps)
  qed
qed

text \<open>The partition: whatever the comparison does, it stays in the block and permutes it.\<close>

lemma part_loop_ok:
  assumes "i < j" "j \<le> n" "n \<le> length d"
    "\<forall>k. 0 < k \<and> k \<le> i \<longrightarrow> c (d ! k) (d ! 0) \<le> 0" "\<forall>k. j \<le> k \<and> k < n \<longrightarrow> 0 \<le> c (d ! k) (d ! 0)"
  shows "\<exists>d' j'. part_loop c d i j = Inr (d', j') \<and> j' < n \<and> d' ! 0 = d ! 0 \<and>
    mset (take n d') = mset (take n d) \<and> drop n d' = drop n d \<and> length d' = length d \<and>
    (\<forall>k. 0 < k \<and> k \<le> j' \<longrightarrow> c (d' ! k) (d ! 0) \<le> 0) \<and>
    (\<forall>k. j' < k \<and> k < n \<longrightarrow> 0 \<le> c (d' ! k) (d ! 0))"
  using assms
proof (induction c d i j rule: part_loop.induct)
  case (1 c d i j)
  have "0 < j" "j \<le> length d" using "1.prems" by linarith+
  from scan_down_ok [OF this, of c] obtain j1 where j1: "scan_down c d j = Inr j1" "j1 < j"
    "j1 = 0 \<or> c (d ! j1) (d ! 0) \<le> 0" "\<forall>k. j1 < k \<and> k < j \<longrightarrow> 0 < c (d ! k) (d ! 0)" by blast
  have "j1 < length d" using j1(2) \<open>j \<le> length d\<close> by linarith
  from scan_up_ok [OF this, of c i] obtain i1 where i1: "scan_up c d i j1 = Inr i1" "i < i1"
    "i1 \<le> max (Suc i) j1" "\<forall>k. i < k \<and> k < i1 \<longrightarrow> c (d ! k) (d ! 0) < 0"
    "i1 < j1 \<longrightarrow> 0 \<le> c (d ! i1) (d ! 0)" by blast
  have ij: "i \<le> j1" using j1(4) "1.prems"(1,4)
    by (metis bot_nat_0.not_eq_extremum le_eq_less_or_eq linorder_not_less zero_le)
  have low: "\<forall>k. 0 < k \<and> k < i1 \<longrightarrow> c (d ! k) (d ! 0) \<le> 0"
    using "1.prems"(4) i1(4) by (metis linorder_not_less order_less_imp_le)
  have high: "\<forall>k. j1 < k \<and> k < n \<longrightarrow> 0 \<le> c (d ! k) (d ! 0)"
    using "1.prems"(5) j1(4) by (metis linorder_not_less order_less_imp_le)
  show ?case
  proof (cases "j1 \<le> i1")
    case True
    then have "part_loop c d i j = Inr (d, j1)" using j1(1) i1(1) by (subst part_loop.simps) simp
    moreover have "c (d ! k) (d ! 0) \<le> 0" if "0 < k" "k \<le> j1" for k
      using low j1(3) that True by (cases "k = j1") auto
    ultimately show ?thesis using high j1(2) "1.prems"(2) by auto
  next
    case False
    let ?d = "d[i1 := d ! j1, j1 := d ! i1]"
    have b: "i1 < j1" "0 < i1" "j1 < n" "j1 < length d" "i1 < length d"
      using False i1(2) j1(2) "1.prems"(2,3) by linarith+
    have d0: "?d ! 0 = d ! 0" using b by simp
    have sw: "mem_swap d i1 j1 = Inr ?d" by (rule mem_swap_ok [OF b(5,4)])
    have lo: "\<forall>k. 0 < k \<and> k \<le> i1 \<longrightarrow> c (?d ! k) (?d ! 0) \<le> 0"
      using low j1(3) b d0 by (auto simp: nth_list_update)
    have hi: "\<forall>k. j1 \<le> k \<and> k < n \<longrightarrow> 0 \<le> c (?d ! k) (?d ! 0)"
      using high i1(5) b d0 by (auto simp: nth_list_update)
    have "n \<le> length ?d" using "1.prems"(3) by simp
    from "1.IH" [OF j1(1) i1(1) False sw b(1) _ this lo hi] b(3) obtain d' j' where d':
      "part_loop c ?d i1 j1 = Inr (d', j')" "j' < n" "d' ! 0 = ?d ! 0"
      "mset (take n d') = mset (take n ?d)" "drop n d' = drop n ?d" "length d' = length ?d"
      "\<forall>k. 0 < k \<and> k \<le> j' \<longrightarrow> c (d' ! k) (?d ! 0) \<le> 0"
      "\<forall>k. j' < k \<and> k < n \<longrightarrow> 0 \<le> c (d' ! k) (?d ! 0)" by auto
    have "mset (take n ?d) = mset ((take n d)[i1 := take n d ! j1, j1 := take n d ! i1])"
      using b by (simp add: take_update_swap)
    also have "\<dots> = mset (take n d)"
      using b by (intro mset_swap) simp_all
    finally have "mset (take n ?d) = mset (take n d)" .
    moreover have "drop n ?d = drop n d" using b by simp
    moreover have "part_loop c d i j = part_loop c ?d i1 j1"
      using j1(1) i1(1) False sw by (subst part_loop.simps) simp
    ultimately show ?thesis using d' d0 by auto
  qed
qed


lemma part_split:
  assumes "1 < length xs"
  shows "\<exists>d j ls p rs. mem_swap (xs @ ws) 0 (length xs div 2) = Inr d \<and>
    (\<exists>d'. part_loop c d 0 (length xs) = Inr (d', j) \<and> mem_swap d' j 0 = Inr ((ls @ p # rs) @ ws)) \<and>
    length ls = j \<and> mset (ls @ p # rs) = mset xs \<and>
    (\<forall>x\<in>set ls. c x p \<le> 0) \<and> (\<forall>x\<in>set rs. 0 \<le> c x p)"
proof -
  let ?n = "length xs"
  let ?ys = "xs[0 := xs ! (?n div 2), ?n div 2 := xs ! 0]"
  let ?d = "?ys @ ws"
  have n: "0 < ?n" "?n div 2 < ?n" using assms by linarith+
  have sw: "mem_swap (xs @ ws) 0 (?n div 2) = Inr ?d"
    using n by (subst mem_swap_ok) (auto simp: nth_append list_update_append intro: trans_less_add1)
  have ys: "mset ?ys = mset xs" using n by (intro mset_swap) simp_all
  obtain d' j where d': "part_loop c ?d 0 ?n = Inr (d', j)" "j < ?n" "d' ! 0 = ?d ! 0"
      "mset (take ?n d') = mset (take ?n ?d)" "drop ?n d' = drop ?n ?d" "length d' = length ?d"
      "\<forall>k. 0 < k \<and> k \<le> j \<longrightarrow> c (d' ! k) (?d ! 0) \<le> 0"
      "\<forall>k. j < k \<and> k < ?n \<longrightarrow> 0 \<le> c (d' ! k) (?d ! 0)"
    using part_loop_ok [of 0 ?n ?n ?d c] n(1) by auto
  obtain us where us: "d' = us @ ws" "length us = ?n"
    using that [of "take ?n d'"] d'(5,6) append_take_drop_id [of ?n d'] by simp
  let ?p = "d' ! 0" and ?zs = "us[j := us ! 0, 0 := us ! j]"
  have sw2: "mem_swap d' j 0 = Inr (?zs @ ws)"
    using d'(2) n us by (subst mem_swap_ok) (auto simp: nth_append list_update_append)
  have "mset ?zs = mset us" using d'(2) us n by (intro mset_swap) simp_all
  then have ms: "mset ?zs = mset xs" using d'(4) ys us by simp
  have zj: "?zs ! j = ?p" using d'(2) us n by (cases "j = 0") (auto simp: nth_list_update nth_append)
  have zs: "?zs = take j ?zs @ ?p # drop (Suc j) ?zs"
    using id_take_nth_drop [of j ?zs] d'(2) us(2) zj by simp
  have nth: "?zs ! k = (if k = 0 then d' ! j else if k = j then ?p else d' ! k)" if "k < ?n" for k
    using that d'(2) us n zj by (auto simp: nth_list_update nth_append)
  have lo: "\<forall>x\<in>set (take j ?zs). c x ?p \<le> 0"
  proof
    fix x assume "x \<in> set (take j ?zs)"
    then obtain k where k: "k < j" "x = ?zs ! k" by (auto simp: in_set_conv_nth)
    then show "c x ?p \<le> 0" using nth [of k] d'(2,3,7) n by (cases "k = 0") auto
  qed
  have hi: "\<forall>x\<in>set (drop (Suc j) ?zs). 0 \<le> c x ?p"
  proof
    fix x assume "x \<in> set (drop (Suc j) ?zs)"
    then obtain k where "k < length (drop (Suc j) ?zs)" "x = drop (Suc j) ?zs ! k"
      by (metis in_set_conv_nth)
    then have k: "Suc j + k < ?n" "x = ?zs ! (Suc j + k)" using us(2) by auto
    then show "0 \<le> c x ?p" using nth [OF k(1)] d'(3,8) by auto
  qed
  show ?thesis
    using sw d'(1,2) sw2 ms zs lo hi us(2)
    by (intro exI [of _ ?d] exI [of _ j] exI [of _ "take j ?zs"] exI [of _ ?p]
        exI [of _ "drop (Suc j) ?zs"]) auto
qed

lemma qsort_step:
  assumes "1 < length xs"
  shows "\<exists>ls p rs. mset (ls @ p # rs) = mset xs \<and>
    (\<forall>x\<in>set ls. c x p \<le> 0) \<and> (\<forall>x\<in>set rs. 0 \<le> c x p) \<and>
    trurl_qsort_voidp_arr c (xs @ ws) (length xs) =
     (if length ls < length rs
      then rbind (trurl_qsort_voidp_arr c (ls @ p # rs @ ws) (length ls))
        (\<lambda>d. at_offset d (Suc (length ls)) (\<lambda>s. trurl_qsort_voidp_arr c s (length rs)))
      else rbind (at_offset (ls @ p # rs @ ws) (Suc (length ls))
          (\<lambda>s. trurl_qsort_voidp_arr c s (length rs)))
        (\<lambda>d. trurl_qsort_voidp_arr c d (length ls)))"
proof -
  from part_split [OF assms, of ws c] obtain d d' ls p rs where sp:
    "mem_swap (xs @ ws) 0 (length xs div 2) = Inr d" "part_loop c d 0 (length xs) = Inr (d', length ls)"
    "mem_swap d' (length ls) 0 = Inr ((ls @ p # rs) @ ws)" "mset (ls @ p # rs) = mset xs"
    "\<forall>x\<in>set ls. c x p \<le> 0" "\<forall>x\<in>set rs. 0 \<le> c x p" by auto
  have "length xs = length ls + Suc (length rs)" using mset_eq_length [OF sp(4)] by simp
  then have "length xs - Suc (length ls) = length rs" by simp
  then have "trurl_qsort_voidp_arr c (xs @ ws) (length xs) =
     (if length ls < length rs
      then rbind (trurl_qsort_voidp_arr c (ls @ p # rs @ ws) (length ls))
        (\<lambda>d. at_offset d (Suc (length ls)) (\<lambda>s. trurl_qsort_voidp_arr c s (length rs)))
      else rbind (at_offset (ls @ p # rs @ ws) (Suc (length ls))
          (\<lambda>s. trurl_qsort_voidp_arr c s (length rs)))
        (\<lambda>d. trurl_qsort_voidp_arr c d (length ls)))"
    using assms sp(1-3) by (subst trurl_qsort_voidp_arr.simps) (simp add: Let_def)
  with sp(4-6) show ?thesis by blast
qed

lemma sorted_around_pivot:
  assumes o: "ordering_cmp c (set (ls @ p # rs))" and parts: "\<forall>x\<in>set ls. c x p \<le> 0" "\<forall>x\<in>set rs. 0 \<le> c x p"
    and lz: "mset lz = mset ls" "ordering_cmp c (set ls) \<longrightarrow> sorted_cmp c lz"
    and rz: "mset rz = mset rs" "ordering_cmp c (set rs) \<longrightarrow> sorted_cmp c rz"
  shows "sorted_cmp c (lz @ p # rz)"
proof -
  have s: "sorted_cmp c lz" "sorted_cmp c rz" using lz(2) rz(2) ordering_cmp_subset [OF o] by auto
  have e: "set lz = set ls" "set rz = set rs" using lz(1) rz(1) by (metis set_mset_mset)+
  have "c p x \<le> 0" if "x \<in> set rs" for x using parts(2) that ordering_cmp.flip_le [OF o, of x p] by auto
  then show ?thesis using s e parts(1) ordering_cmp.le_trans [OF o, of _ p]
    by (auto simp: sorted_cmp_append sorted_cmp_Cons)
qed

lemma qsort_ok:
  "\<exists>zs. trurl_qsort_voidp_arr c (xs @ ws) (length xs) = Inr (zs @ ws) \<and> mset zs = mset xs \<and>
    (ordering_cmp c (set xs) \<longrightarrow> sorted_cmp c zs)"
proof (induction "length xs" arbitrary: xs ws rule: less_induct)
  case less
  show ?case
  proof (cases "1 < length xs")
    case False
    then have "sorted_cmp c xs" by (cases xs) auto
    with False show ?thesis by (subst trurl_qsort_voidp_arr.simps) auto
  next
    case True
    from qsort_step [OF True, of c ws] obtain ls p rs where st:
      "mset (ls @ p # rs) = mset xs" "\<forall>x\<in>set ls. c x p \<le> 0" "\<forall>x\<in>set rs. 0 \<le> c x p"
      "trurl_qsort_voidp_arr c (xs @ ws) (length xs) =
       (if length ls < length rs
        then rbind (trurl_qsort_voidp_arr c (ls @ p # rs @ ws) (length ls))
          (\<lambda>d. at_offset d (Suc (length ls)) (\<lambda>s. trurl_qsort_voidp_arr c s (length rs)))
        else rbind (at_offset (ls @ p # rs @ ws) (Suc (length ls))
            (\<lambda>s. trurl_qsort_voidp_arr c s (length rs)))
          (\<lambda>d. trurl_qsort_voidp_arr c d (length ls)))" by blast
    have len: "length ls < length xs" "length rs < length xs"
      using mset_eq_length [OF st(1)] by simp_all
    from less [OF len(2), of ws] obtain rz where rz:
      "trurl_qsort_voidp_arr c (rs @ ws) (length rs) = Inr (rz @ ws)" "mset rz = mset rs"
      "ordering_cmp c (set rs) \<longrightarrow> sorted_cmp c rz" by blast
    have lsz: "\<exists>lz. trurl_qsort_voidp_arr c (ls @ vs) (length ls) = Inr (lz @ vs) \<and>
        mset lz = mset ls \<and> (ordering_cmp c (set ls) \<longrightarrow> sorted_cmp c lz)" for vs
      by (rule less [OF len(1)])
    have off: "at_offset (l @ p # rs @ ws) (Suc (length ls))
        (\<lambda>s. trurl_qsort_voidp_arr c s (length rs)) = Inr (l @ p # rz @ ws)"
      if "length l = length ls" for l
      using rz(1) that by (simp add: at_offset_def)
    obtain lz where lz: "trurl_qsort_voidp_arr c (xs @ ws) (length xs) = Inr ((lz @ p # rz) @ ws)"
      "mset lz = mset ls" "ordering_cmp c (set ls) \<longrightarrow> sorted_cmp c lz"
    proof (cases "length ls < length rs")
      case True
      obtain lz where "trurl_qsort_voidp_arr c (ls @ p # rs @ ws) (length ls) = Inr (lz @ p # rs @ ws)"
        "mset lz = mset ls" "ordering_cmp c (set ls) \<longrightarrow> sorted_cmp c lz"
        using lsz [of "p # rs @ ws"] by blast
      then show ?thesis using that [of lz] off [of lz] st(4) True mset_eq_length [of lz ls] by simp
    next
      case False
      with lsz [of "p # rz @ ws"] off [of ls] st(4) that show ?thesis by auto
    qed
    have "set xs = set (ls @ p # rs)" using st(1) by (metis set_mset_mset)
    then have "ordering_cmp c (set xs) \<longrightarrow> sorted_cmp c (lz @ p # rz)"
      using sorted_around_pivot [OF _ st(2,3) lz(2,3) rz(2,3)] by simp
    then show ?thesis using lz(1,2) rz(2) st(1) by (intro exI [of _ "lz @ p # rz"]) auto
  qed
qed

section \<open>Binary search\<close>

function bsearch_loop :: "('a \<Rightarrow> 'b \<Rightarrow> int) \<Rightarrow> 'a list \<Rightarrow> 'b \<Rightarrow> nat \<Rightarrow> nat \<Rightarrow> int result" where
  "bsearch_loop c d x l r =
     (if l < r
      then rbind (mem_read d ((l + r) div 2))
        (\<lambda>y. if c y x = 0 then Inr (int ((l + r) div 2))
          else if c y x > 0 then bsearch_loop c d x l ((l + r) div 2)
          else bsearch_loop c d x ((l + r) div 2 + 1) r)
      else Inr (- 1))"
  by pat_completeness auto
termination by (relation "measure (\<lambda>(c, d, x, l, r). r - l)") auto

declare bsearch_loop.simps [simp del]

definition bsearch_voidp_arr :: "('a \<Rightarrow> 'b \<Rightarrow> int) \<Rightarrow> 'a list \<Rightarrow> nat \<Rightarrow> 'b \<Rightarrow> int result" where
  "bsearch_voidp_arr c d n x = bsearch_loop c d x 0 n"

text \<open>
  A key is in order with a sorted block when the items below it come first and those
  above it last; that is all the search needs of the comparison.
\<close>

definition key_in_order :: "('a \<Rightarrow> 'b \<Rightarrow> int) \<Rightarrow> 'a list \<Rightarrow> 'b \<Rightarrow> bool" where
  "key_in_order c xs x \<longleftrightarrow> sorted_wrt (\<lambda>y z. sgn (c y x) \<le> sgn (c z x)) xs"

lemma key_in_orderD: "key_in_order c xs x \<Longrightarrow> i \<le> j \<Longrightarrow> j < length xs \<Longrightarrow> sgn (c (xs ! i) x) \<le> sgn (c (xs ! j) x)"
  by (cases "i = j") (auto simp: key_in_order_def sorted_wrt_iff_nth_less)

lemma bsearch_loop_ok:
  assumes "key_in_order c xs x" "r \<le> length xs"
    "\<forall>k < l. c (xs ! k) x < 0" "\<forall>k. r \<le> k \<and> k < length xs \<longrightarrow> 0 < c (xs ! k) x"
  shows "(\<exists>i < length xs. bsearch_loop c (xs @ ws) x l r = Inr (int i) \<and> c (xs ! i) x = 0) \<or>
    bsearch_loop c (xs @ ws) x l r = Inr (- 1) \<and> (\<forall>y \<in> set xs. c y x \<noteq> 0)"
  using assms
proof (induction c "xs @ ws" x l r rule: bsearch_loop.induct)
  case (1 c x l r)
  let ?m = "(l + r) div 2"
  show ?case
  proof (cases "l < r")
    case False
    then have "c (xs ! k) x \<noteq> 0" if "k < length xs" for k
      using "1.prems"(3,4) that by (metis less_irrefl linorder_not_less order_less_le_trans)
    then show ?thesis using False by (auto simp: bsearch_loop.simps [of _ _ _ l r] in_set_conv_nth)
  next
    case True
    then have m: "?m < r" "l \<le> ?m" "?m < length xs" using "1.prems"(2) by linarith+
    then have rd: "mem_read (xs @ ws) ?m = Inr (xs ! ?m)" by (simp add: mem_read_def nth_append)
    consider "c (xs ! ?m) x = 0" | "c (xs ! ?m) x > 0" | "c (xs ! ?m) x < 0" by linarith
    then show ?thesis
    proof cases
      case 1
      then show ?thesis using True rd m by (subst bsearch_loop.simps) auto
    next
      case 2
      then have hi: "\<forall>k. ?m \<le> k \<and> k < length xs \<longrightarrow> 0 < c (xs ! k) x"
        using key_in_orderD [OF "1.prems"(1), of ?m] by (fastforce simp: sgn_if split: if_splits)
      have "bsearch_loop c (xs @ ws) x l r = bsearch_loop c (xs @ ws) x l ?m"
        using 2 True rd by (subst bsearch_loop.simps) simp
      then show ?thesis
        using "1.hyps"(1) [OF True rd _ _ "1.prems"(1) _ "1.prems"(3) hi] 2 m(3) by simp
    next
      case 3
      then have lo: "\<forall>k < ?m + 1. c (xs ! k) x < 0"
        using key_in_orderD [OF "1.prems"(1), of _ ?m] m(3)
        by (fastforce simp: sgn_if less_Suc_eq_le split: if_splits)
      have "bsearch_loop c (xs @ ws) x l r = bsearch_loop c (xs @ ws) x (?m + 1) r"
        using 3 True rd by (subst bsearch_loop.simps) simp
      then show ?thesis
        using "1.hyps"(2) [OF True rd _ _ "1.prems"(1,2) lo "1.prems"(4)] 3 by simp
    qed
  qed
qed

lemma bsearch_ok:
  assumes "key_in_order c xs x"
  shows "(\<exists>i < length xs. bsearch_voidp_arr c (xs @ ws) (length xs) x = Inr (int i) \<and> c (xs ! i) x = 0) \<or>
    bsearch_voidp_arr c (xs @ ws) (length xs) x = Inr (- 1) \<and> (\<forall>y \<in> set xs. c y x \<noteq> 0)"
  unfolding bsearch_voidp_arr_def using assms by (intro bsearch_loop_ok) auto

context ordering_cmp
begin

lemma sorted_key_in_order:
  assumes "sorted_cmp c xs" "set xs \<subseteq> S" "x \<in> S"
  shows "key_in_order c xs x"
  unfolding key_in_order_def
proof (rule sorted_wrt_mono_rel [of xs "\<lambda>y z. c y z \<le> 0"])
  fix y z assume yz: "y \<in> set xs" "z \<in> set xs" "c y z \<le> 0"
  then have S: "y \<in> S" "z \<in> S" using assms(2) by auto
  have "c z x < 0 \<Longrightarrow> c y x < 0" using le_less_trans [OF S assms(3) yz(3)] .
  moreover have "c z x \<le> 0 \<Longrightarrow> c y x \<le> 0" using le_trans [OF S assms(3) yz(3)] .
  ultimately show "sgn (c y x) \<le> sgn (c z x)"
    by (cases "c z x" "0 :: int" rule: linorder_cases) (auto simp: sgn_if)
next
  show "sorted_wrt (\<lambda>y z. c y z \<le> 0) xs" using assms(1) by (simp add: sorted_cmp_def)
qed

end

end
