(* ===== verification/TimSort.thy ===== *)
theory TimSort
  imports Sorts
begin

text \<open>
  The sort of the arrays: \<open>void_tim_sort\<close>, the instance of \<open>vendor/sort.h\<close> that
  \<open>n_array_sorts.c\<close> makes for \<open>void *\<close>. It is modelled routine by routine; every
  access to the block, to the temporary storage and to the stack of runs is checked.
  The stack of runs is the list of its used entries, a run a start and a length.
\<close>

section \<open>The routines\<close>

definition TIM_SORT_STACK_SIZE :: nat where "TIM_SORT_STACK_SIZE = 128"

text \<open>The number of bits of a number below \<open>2\<^sup>6\<^sup>4\<close>: \<open>64 - CLZ(size)\<close>.\<close>

function top_bit :: "nat \<Rightarrow> nat" where
  "top_bit n = (if n = 0 then 0 else Suc (top_bit (n div 2)))"
  by pat_completeness auto
termination by (relation "measure id") auto

declare top_bit.simps [simp del]

definition compute_minrun :: "nat \<Rightarrow> nat" where
  "compute_minrun n =
     (let shift = max (top_bit n) 6 - 6; minrun = n div 2 ^ shift in
      if n mod 2 ^ shift \<noteq> 0 then minrun + 1 else minrun)"

text \<open>
  \<open>BINARY_INSERTION_FIND\<close>. The loop variable \<open>c\<close> is always \<open>l + ((r - l) >> 1)\<close>.
\<close>

function bin_find_loop :: "('a \<Rightarrow> 'a \<Rightarrow> int) \<Rightarrow> 'a list \<Rightarrow> 'a \<Rightarrow> nat \<Rightarrow> nat \<Rightarrow> nat result" where
  "bin_find_loop cmp d x l r =
     (let c = l + (r - l) div 2 in
      rbind (mem_read d c) (\<lambda>cx.
        if cmp x cx < 0
        then (if c - l \<le> 1 then Inr c else bin_find_loop cmp d x l c)
        else (if r - c \<le> 1 then Inr (c + 1) else bin_find_loop cmp d x c r)))"
  by pat_completeness auto
termination by (relation "measure (\<lambda>(cmp, d, x, l, r). r - l)") auto

declare bin_find_loop.simps [simp del]

definition binary_insertion_find :: "('a \<Rightarrow> 'a \<Rightarrow> int) \<Rightarrow> 'a list \<Rightarrow> 'a \<Rightarrow> nat \<Rightarrow> nat result" where
  "binary_insertion_find cmp d x n =
     rbind (mem_read d 0) (\<lambda>d0. if cmp x d0 < 0 then Inr 0
       else rbind (mem_read d (n - 1)) (\<lambda>dr. if cmp x dr > 0 then Inr (n - 1)
         else bin_find_loop cmp d x 0 (n - 1)))"

text \<open>\<open>for (j = i - 1; j >= location; j--) dst[j + 1] = dst[j]\<close>, \<open>m = j + 1\<close> counts down.\<close>

fun shift_up :: "'a list \<Rightarrow> nat \<Rightarrow> nat \<Rightarrow> 'a list result" where
  "shift_up d location 0 = Inr d"
| "shift_up d location (Suc j) =
     (if j \<ge> location
      then rbind (mem_read d j) (\<lambda>y. rbind (mem_write d (Suc j) y)
        (\<lambda>d. shift_up d location j))
      else Inr d)"

function binary_insertion_sort_start :: "('a \<Rightarrow> 'a \<Rightarrow> int) \<Rightarrow> 'a list \<Rightarrow> nat \<Rightarrow> nat \<Rightarrow> 'a list result" where
  "binary_insertion_sort_start cmp d i n =
     (if i < n
      then rbind (mem_read d (i - 1)) (\<lambda>p. rbind (mem_read d i)
        (\<lambda>x. if cmp p x \<le> 0 then binary_insertion_sort_start cmp d (Suc i) n
          else rbind (binary_insertion_find cmp d x i)
            (\<lambda>location. rbind (shift_up d location i)
              (\<lambda>d. rbind (mem_write d location x)
                (\<lambda>d. binary_insertion_sort_start cmp d (Suc i) n)))))
      else Inr d)"
  by pat_completeness auto
termination by (relation "measure (\<lambda>(cmp, d, i, n). n - i)") auto

declare binary_insertion_sort_start.simps [simp del]

definition binary_insertion_sort :: "('a \<Rightarrow> 'a \<Rightarrow> int) \<Rightarrow> 'a list \<Rightarrow> nat \<Rightarrow> 'a list result" where
  "binary_insertion_sort cmp d n =
     (if n \<le> 1 then Inr d else binary_insertion_sort_start cmp d 1 n)"

function reverse_elements :: "'a list \<Rightarrow> nat \<Rightarrow> nat \<Rightarrow> 'a list result" where
  "reverse_elements d i j =
     (if i \<ge> j then Inr d
      else rbind (mem_swap d i j) (\<lambda>d. reverse_elements d (i + 1) (j - 1)))"
  by pat_completeness auto
termination by (relation "measure (\<lambda>(d, i, j). j - i)") auto

declare reverse_elements.simps [simp del]

text \<open>The two loops of \<open>COUNT_RUN\<close>: \<open>up\<close> for an increasing run.\<close>

function run_end :: "('a \<Rightarrow> 'a \<Rightarrow> int) \<Rightarrow> bool \<Rightarrow> 'a list \<Rightarrow> nat \<Rightarrow> nat \<Rightarrow> nat result" where
  "run_end cmp up d pos n =
     (if pos = n - 1 then Inr pos
      else rbind (mem_read d (pos - 1)) (\<lambda>x. rbind (mem_read d pos)
        (\<lambda>y. if (if up then cmp x y > 0 else cmp x y \<le> 0) then Inr pos
          else run_end cmp up d (pos + 1) n)))"
  by pat_completeness auto
termination by (relation "measure (\<lambda>(cmp, up, d, pos, n). length d - pos)") (auto simp: mem_read_Inr)

declare run_end.simps [simp del]

definition count_run :: "('a \<Rightarrow> 'a \<Rightarrow> int) \<Rightarrow> 'a list \<Rightarrow> nat \<Rightarrow> nat \<Rightarrow> ('a list \<times> nat) result" where
  "count_run cmp d start n =
     (if n - start = 1 then Inr (d, 1)
      else if start \<ge> n - 2
      then rbind (mem_read d (n - 2)) (\<lambda>x. rbind (mem_read d (n - 1))
        (\<lambda>y. rbind (if cmp x y > 0 then mem_swap d (n - 2) (n - 1) else Inr d)
          (\<lambda>d. Inr (d, 2))))
      else rbind (mem_read d start) (\<lambda>x. rbind (mem_read d (start + 1))
        (\<lambda>y. if cmp x y \<le> 0
          then rbind (run_end cmp True d (start + 2) n) (\<lambda>pos. Inr (d, pos - start))
          else rbind (run_end cmp False d (start + 2) n)
            (\<lambda>pos. rbind (reverse_elements d start (pos - 1))
              (\<lambda>d. Inr (d, pos - start))))))"

type_synonym run = "nat \<times> nat"

definition run_at :: "run list \<Rightarrow> nat \<Rightarrow> run result" where
  "run_at stack k = mem_read stack k"

definition check_invariant :: "run list \<Rightarrow> bool" where
  "check_invariant stack =
     (let n = length stack in
      if n < 2 then True
      else if n = 2 then snd (stack ! (n - 2)) > snd (stack ! (n - 1))
      else let A = snd (stack ! (n - 3)); B = snd (stack ! (n - 2)); C = snd (stack ! (n - 1))
        in \<not> (A \<le> B + C \<or> B \<le> C))"

text \<open>
  \<open>TIM_SORT_MERGE\<close> of two neighbouring runs: cells \<open>pos\<close> up to \<open>pos + A\<close> and the \<open>B\<close>
  after them. The shorter run is copied out; the loops are those of the code, \<open>fin\<close> the
  end \<open>pos + A + B\<close>.
\<close>

function merge_left_loop ::
    "('a \<Rightarrow> 'a \<Rightarrow> int) \<Rightarrow> 'a list \<Rightarrow> 'a list \<Rightarrow> nat \<Rightarrow> nat \<Rightarrow> nat \<Rightarrow> nat \<Rightarrow> nat \<Rightarrow> 'a list result" where
  "merge_left_loop cmp d st A fin i j k =
     (if k < fin
      then (if i < A \<and> j < fin
            then rbind (mem_read st i) (\<lambda>x. rbind (mem_read d j)
              (\<lambda>y. if cmp x y \<le> 0
                then rbind (mem_write d k x) (\<lambda>d. merge_left_loop cmp d st A fin (i + 1) j (k + 1))
                else rbind (mem_write d k y) (\<lambda>d. merge_left_loop cmp d st A fin i (j + 1) (k + 1))))
            else if i < A
            then rbind (mem_read st i) (\<lambda>x. rbind (mem_write d k x)
              (\<lambda>d. merge_left_loop cmp d st A fin (i + 1) j (k + 1)))
            else Inr d)
      else Inr d)"
  by pat_completeness auto
termination by (relation "measure (\<lambda>(cmp, d, st, A, fin, i, j, k). fin - k)") auto

declare merge_left_loop.simps [simp del]

fun merge_right_loop ::
    "('a \<Rightarrow> 'a \<Rightarrow> int) \<Rightarrow> 'a list \<Rightarrow> 'a list \<Rightarrow> nat \<Rightarrow> nat \<Rightarrow> nat \<Rightarrow> nat \<Rightarrow> 'a list result" where
  "merge_right_loop cmp d st pos i j 0 = Inr d"
| "merge_right_loop cmp d st pos i j (Suc k) =
     (if k \<ge> pos
      then (if i > 0 \<and> j > pos
            then rbind (mem_read d (j - 1)) (\<lambda>x. rbind (mem_read st (i - 1))
              (\<lambda>y. if cmp x y > 0
                then rbind (mem_write d k x) (\<lambda>d. merge_right_loop cmp d st pos i (j - 1) k)
                else rbind (mem_write d k y) (\<lambda>d. merge_right_loop cmp d st pos (i - 1) j k)))
            else if i > 0
            then rbind (mem_read st (i - 1)) (\<lambda>y. rbind (mem_write d k y)
              (\<lambda>d. merge_right_loop cmp d st pos (i - 1) j k))
            else Inr d)
      else Inr d)"

definition mem_copy :: "'a list \<Rightarrow> nat \<Rightarrow> nat \<Rightarrow> 'a list result" where
  "mem_copy d off n = (if off + n \<le> length d then Inr (take n (drop off d)) else Inl Mem_Fault)"

definition tim_sort_merge :: "('a \<Rightarrow> 'a \<Rightarrow> int) \<Rightarrow> 'a list \<Rightarrow> run \<Rightarrow> run \<Rightarrow> 'a list result" where
  "tim_sort_merge cmp d r1 r2 =
     (let pos = fst r1; A = snd r1; B = snd r2 in
      if A < B
      then rbind (mem_copy d pos A)
        (\<lambda>st. merge_left_loop cmp d st A (pos + A + B) 0 (pos + A) pos)
      else rbind (mem_copy d (pos + A) B)
        (\<lambda>st. merge_right_loop cmp d st pos B (pos + A) (pos + A + B)))"

text \<open>
  \<open>merge_at\<close>: merge entries \<open>k\<close> and \<open>k + 1\<close> of the stack, add up their lengths and close
  the gap, the step all loops share.
\<close>

definition merge_at :: "('a \<Rightarrow> 'a \<Rightarrow> int) \<Rightarrow> 'a list \<Rightarrow> run list \<Rightarrow> nat \<Rightarrow> ('a list \<times> run list) result" where
  "merge_at cmp d stack k =
     rbind (run_at stack k) (\<lambda>r1. rbind (run_at stack (k + 1))
       (\<lambda>r2. rbind (tim_sort_merge cmp d r1 r2)
         (\<lambda>d. Inr (d, take k stack @ (fst r1, snd r1 + snd r2) # drop (k + 2) stack))))"

lemma merge_at_length: "merge_at cmp d stack k = Inr (d', s) \<Longrightarrow> length s < length stack"
  by (auto simp: merge_at_def run_at_def rbind_eq_Inr mem_read_Inr)

function tim_sort_collapse ::
    "('a \<Rightarrow> 'a \<Rightarrow> int) \<Rightarrow> 'a list \<Rightarrow> run list \<Rightarrow> nat \<Rightarrow> ('a list \<times> run list) result" where
  "tim_sort_collapse cmp d stack n =
     (let sc = length stack; len = (\<lambda>k. snd (stack ! k)) in
      if sc \<le> 1 then Inr (d, stack)
      else if sc = 2
      then (if len 0 + len 1 = n then merge_at cmp d stack 0
            else if len 0 \<le> len 1 then merge_at cmp d stack 0
            else Inr (d, stack))
      else let B = len (sc - 3); C = len (sc - 2); D = len (sc - 1);
             ABC = (if sc \<ge> 4 then len (sc - 4) \<le> B + C else False);
             BCD = (B \<le> C + D \<or> ABC); CD = (C \<le> D) in
        if \<not> BCD \<and> \<not> CD then Inr (d, stack)
        else if BCD \<and> \<not> CD
        then rbind (merge_at cmp d stack (sc - 3)) (\<lambda>(d, stack). tim_sort_collapse cmp d stack n)
        else rbind (merge_at cmp d stack (sc - 2)) (\<lambda>(d, stack). tim_sort_collapse cmp d stack n))"
  by pat_completeness auto
termination by (relation "measure (\<lambda>(cmp, d, stack, n). length stack)") (auto dest: merge_at_length)

declare tim_sort_collapse.simps [simp del]

text \<open>The merges at the end of \<open>PUSH_NEXT\<close>.\<close>

function merge_rest :: "('a \<Rightarrow> 'a \<Rightarrow> int) \<Rightarrow> 'a list \<Rightarrow> run list \<Rightarrow> 'a list result" where
  "merge_rest cmp d stack =
     (if length stack > 1
      then rbind (merge_at cmp d stack (length stack - 2)) (\<lambda>(d, stack). merge_rest cmp d stack)
      else Inr d)"
  by pat_completeness auto
termination by (relation "measure (\<lambda>(cmp, d, stack). length stack)") (auto dest: merge_at_length)

declare merge_rest.simps [simp del]

text \<open>The run \<open>PUSH_NEXT\<close> makes at \<open>pos\<close>; \<open>None\<close>: the block is sorted and the sort ends.\<close>

definition next_run :: "('a \<Rightarrow> 'a \<Rightarrow> int) \<Rightarrow> 'a list \<Rightarrow> nat \<Rightarrow> nat \<Rightarrow> nat \<Rightarrow> ('a list \<times> nat) result" where
  "next_run cmp d n minrun pos =
     rbind (count_run cmp d pos n) (\<lambda>(d, len).
       let run = (if minrun > n - pos then n - pos else minrun) in
       if run > len
       then rbind (at_offset d pos (\<lambda>s. binary_insertion_sort_start cmp s len run))
         (\<lambda>d. Inr (d, run))
       else Inr (d, len))"

definition push_next ::
    "('a \<Rightarrow> 'a \<Rightarrow> int) \<Rightarrow> 'a list \<Rightarrow> nat \<Rightarrow> nat \<Rightarrow> run list \<Rightarrow> nat \<Rightarrow>
     ('a list \<times> (run list \<times> nat) option) result" where
  "push_next cmp d n minrun stack pos =
     rbind (next_run cmp d n minrun pos) (\<lambda>(d, len).
       if length stack \<ge> TIM_SORT_STACK_SIZE then Inl Mem_Fault
       else let stack = stack @ [(pos, len)]; pos = pos + len in
         if pos = n then rbind (merge_rest cmp d stack) (\<lambda>d. Inr (d, None))
         else Inr (d, Some (stack, pos)))"

text \<open>
  The loop of \<open>TIM_SORT\<close>. \<open>Hang\<close>: a round that neither shortens the stack nor
  gets further in the block would repeat for ever.
\<close>

function tim_sort_loop ::
    "('a \<Rightarrow> 'a \<Rightarrow> int) \<Rightarrow> 'a list \<Rightarrow> nat \<Rightarrow> nat \<Rightarrow> run list \<Rightarrow> nat \<Rightarrow> 'a list result" where
  "tim_sort_loop cmp d n minrun stack pos =
     (if \<not> check_invariant stack
      then rbind (tim_sort_collapse cmp d stack n) (\<lambda>(d, stack').
        if length stack' < length stack then tim_sort_loop cmp d n minrun stack' pos
        else Inl Hang)
      else rbind (push_next cmp d n minrun stack pos) (\<lambda>(d, st).
        case st of None \<Rightarrow> Inr d
        | Some (stack, pos') \<Rightarrow>
            if pos < pos' \<and> pos' < n then tim_sort_loop cmp d n minrun stack pos'
            else Inl Hang))"
  by pat_completeness auto
termination by (relation "measures [\<lambda>(cmp, d, n, minrun, stack, pos). n - pos,
    \<lambda>(cmp, d, n, minrun, stack, pos). length stack]") auto

declare tim_sort_loop.simps [simp del]

text \<open>The three first runs are pushed without a check.\<close>

fun push_first ::
    "('a \<Rightarrow> 'a \<Rightarrow> int) \<Rightarrow> nat \<Rightarrow> 'a list \<Rightarrow> nat \<Rightarrow> nat \<Rightarrow> run list \<Rightarrow> nat \<Rightarrow> 'a list result" where
  "push_first cmp 0 d n minrun stack pos = tim_sort_loop cmp d n minrun stack pos"
| "push_first cmp (Suc m) d n minrun stack pos =
     rbind (push_next cmp d n minrun stack pos) (\<lambda>(d, st).
       case st of None \<Rightarrow> Inr d
       | Some (stack, pos) \<Rightarrow> push_first cmp m d n minrun stack pos)"

definition tim_sort :: "('a \<Rightarrow> 'a \<Rightarrow> int) \<Rightarrow> 'a list \<Rightarrow> nat \<Rightarrow> 'a list result" where
  "tim_sort cmp d n =
     (if n \<le> 1 then Inr d
      else if n < 64 then binary_insertion_sort cmp d n
      else push_first cmp 3 d n (compute_minrun n) [] 0)"

definition trurl_timsort_voidp_arr :: "('a \<Rightarrow> 'a \<Rightarrow> int) \<Rightarrow> 'a list \<Rightarrow> nat \<Rightarrow> 'a list result" where
  "trurl_timsort_voidp_arr cmp d n = tim_sort cmp d n"


section \<open>Binary insertion\<close>

lemma first_above:
  assumes "\<And>i j. i \<le> j \<Longrightarrow> j < length us \<Longrightarrow> P (us ! i) \<Longrightarrow> P (us ! j)"
    and p: "p < length us" "P (us ! p)" "\<not> P (us ! (p - 1))"
  shows "\<forall>k < length us. P (us ! k) \<longleftrightarrow> p \<le> k"
proof (intro allI impI)
  fix k assume k: "k < length us"
  show "P (us ! k) \<longleftrightarrow> p \<le> k"
  proof (cases "p \<le> k")
    case True
    then show ?thesis using assms(1) [OF True k] p(2) by simp
  next
    case False
    then have "k \<le> p - 1" "p - 1 < length us" using p(1) by linarith+
    from assms(1) [OF this] False show ?thesis using p(3) by auto
  qed
qed

lemma bin_find_loop_ok:
  assumes "l < r" "r < length us" "0 \<le> c x (us ! l)" "c x (us ! r) < 0"
    "\<And>i j. i \<le> j \<Longrightarrow> j < length us \<Longrightarrow> c x (us ! i) < 0 \<Longrightarrow> c x (us ! j) < 0"
  shows "\<exists>loc \<le> length us. bin_find_loop c (us @ ws) x l r = Inr loc \<and>
    (\<forall>k < length us. c x (us ! k) < 0 \<longleftrightarrow> loc \<le> k)"
  using assms(1-4)
proof (induction "r - l" arbitrary: l r rule: less_induct)
  case less
  let ?m = "l + (r - l) div 2"
  have m: "l \<le> ?m" "?m < r" using less.prems(1) by linarith+
  then have rd: "mem_read (us @ ws) ?m = Inr (us ! ?m)"
    using less.prems(2) by (simp add: mem_read_def nth_append)
  have at: "\<exists>loc \<le> length us. Inr p = (Inr loc :: nat result) \<and> (\<forall>k < length us. c x (us ! k) < 0 \<longleftrightarrow> loc \<le> k)"
    if "p < length us" "c x (us ! p) < 0" "0 < p" "\<not> c x (us ! (p - 1)) < 0" for p
    using first_above [of us "\<lambda>u. c x u < 0", OF assms(5) that(1,2,4)] that(1) by auto
  show ?case
  proof (cases "c x (us ! ?m) < 0")
    case True
    then have lm: "l < ?m" using less.prems(3) m(1) by (cases "l = ?m") auto
    show ?thesis
    proof (cases "?m - l \<le> 1")
      case fin: True
      then have "?m - 1 = l" "0 < ?m" "?m < length us" using lm m less.prems(2) by linarith+
      then show ?thesis using True fin rd at [of ?m] less.prems(3)
        by (subst bin_find_loop.simps) (simp add: Let_def)
    next
      case False
      have "?m - l < r - l" using m lm by linarith
      from less.hyps [OF this lm _ less.prems(3) True] show ?thesis
        using True False rd m less.prems(2) by (subst bin_find_loop.simps) (simp add: Let_def)
    qed
  next
    case False
    show ?thesis
    proof (cases "r - ?m \<le> 1")
      case fin: True
      then have r: "?m = r - 1" using m by simp
      then have "\<not> c x (us ! (r - 1)) < 0" "0 < r" using False m by simp_all
      from at [OF less.prems(2,4) this(2,1)] have
        "\<exists>loc \<le> length us. bin_find_loop c (us @ ws) x l r = Inr loc \<and>
          (\<forall>k < length us. c x (us ! k) < 0 \<longleftrightarrow> loc \<le> k)"
        using False fin rd m by (subst bin_find_loop.simps) (simp add: Let_def r)
      then show ?thesis .
    next
      case big: False
      then have "r - ?m < r - l" using m by linarith
      from less.hyps [OF this m(2) less.prems(2) _ less.prems(4)] show ?thesis
        using False big rd by (subst bin_find_loop.simps) (simp add: Let_def)
    qed
  qed
qed

lemma shift_up_ok: "\<exists>h. shift_up (as @ bs @ z # ws) (length as) (length as + length bs) = Inr (as @ h # bs @ ws)"
proof (induction bs arbitrary: z ws rule: rev_induct)
  case Nil
  then show ?case by (cases as rule: rev_cases) auto
next
  case (snoc b bs)
  from snoc.IH [of b "b # ws"] show ?case
    by (simp add: mem_read_def mem_write_def nth_append list_update_append)
qed

context ordering_cmp
begin

lemma sorted_less_mono:
  assumes "sorted_cmp c us" "set us \<subseteq> S" "x \<in> S" "i \<le> j" "j < length us" "c x (us ! i) < 0"
  shows "c x (us ! j) < 0"
proof (cases "i = j")
  case False
  then have "c (us ! i) (us ! j) \<le> 0"
    using assms(1,4,5) by (simp add: sorted_cmp_def sorted_wrt_iff_nth_less)
  moreover have "us ! i \<in> S" "us ! j \<in> S"
    using assms(2,4,5) False by (auto simp: subset_iff)
  ultimately show ?thesis using less_le_trans [OF assms(3)] assms(6) by blast
qed (use assms in simp)

lemma binary_insertion_find_ok:
  assumes "sorted_cmp c us" "set us \<subseteq> S" "x \<in> S" "us \<noteq> []" "c x (last us) < 0"
  shows "\<exists>as bs. us = as @ bs \<and> binary_insertion_find c (us @ ws) x (length us) = Inr (length as) \<and>
    (\<forall>b\<in>set bs. c x b < 0) \<and> (as \<noteq> [] \<longrightarrow> c (last as) x \<le> 0)"
proof -
  let ?n = "length us"
  have n: "0 < ?n" using assms(4) by simp
  have la: "us ! (?n - 1) = last us" using assms(4) by (simp add: last_conv_nth)
  have rd: "mem_read (us @ ws) 0 = Inr (us ! 0)" "mem_read (us @ ws) (?n - 1) = Inr (last us)"
    using n la by (auto simp: mem_read_def nth_append intro: trans_less_add1)
  have "\<exists>loc \<le> ?n. binary_insertion_find c (us @ ws) x ?n = Inr loc \<and>
      (\<forall>k < ?n. c x (us ! k) < 0 \<longleftrightarrow> loc \<le> k)"
  proof (cases "c x (us ! 0) < 0")
    case True
    then show ?thesis using rd sorted_less_mono [OF assms(1-3), of 0]
      by (auto simp: binary_insertion_find_def)
  next
    case False
    then have "0 < ?n - 1" using la assms(5) n by (cases "?n - 1") auto
    from bin_find_loop_ok [of 0 "?n - 1" us c x, OF this] show ?thesis
      using rd False la assms(5) n sorted_less_mono [OF assms(1-3)]
      by (auto simp: binary_insertion_find_def)
  qed
  then obtain loc where loc: "loc \<le> ?n" "binary_insertion_find c (us @ ws) x ?n = Inr loc"
    "\<forall>k < ?n. c x (us ! k) < 0 \<longleftrightarrow> loc \<le> k" by blast
  have "\<forall>b\<in>set (drop loc us). c x b < 0"
    using loc(3) by (auto simp: in_set_conv_nth)
  moreover have "c (last (take loc us)) x \<le> 0" if "take loc us \<noteq> []"
  proof -
    from that have "last (take loc us) = us ! (loc - 1)" "loc - 1 < ?n" "0 < loc"
      using loc(1) n by (auto simp: last_conv_nth)
    moreover from this have "\<not> c x (us ! (loc - 1)) < 0" using loc(3) by auto
    moreover from \<open>loc - 1 < ?n\<close> have "us ! (loc - 1) \<in> S" using assms(2) by (auto simp: subset_iff)
    ultimately show ?thesis using flip_le [OF assms(3)] by simp
  qed
  ultimately show ?thesis using loc(1,2)
    by (intro exI [of _ "take loc us"] exI [of _ "drop loc us"]) auto
qed

lemma binary_insertion_sort_start_ok:
  assumes "us \<noteq> []" "sorted_cmp c us" "set (us @ vs) \<subseteq> S"
  shows "\<exists>zs. binary_insertion_sort_start c (us @ vs @ ws) (length us) (length us + length vs) = Inr (zs @ ws) \<and>
    sorted_cmp c zs \<and> stable_perm c (us @ vs) zs"
  using assms
proof (induction vs arbitrary: us)
  case Nil
  then show ?case by (intro exI [of _ us]) (simp add: binary_insertion_sort_start.simps)
next
  case (Cons v vs)
  let ?d = "us @ (v # vs) @ ws"
  have S: "v \<in> S" "last us \<in> S" "set us \<subseteq> S" "set vs \<subseteq> S"
    using Cons.prems(1,3) last_in_set by auto
  have rd: "mem_read ?d (length us - 1) = Inr (last us)" "mem_read ?d (length us) = Inr v"
    using Cons.prems(1) by (auto simp: mem_read_def nth_append last_conv_nth)
  show ?case
  proof (cases "c (last us) v \<le> 0")
    case True
    have st: "sorted_cmp c (us @ [v])"
      using sorted_insert [of us "[]" v] Cons.prems True S by simp
    have "binary_insertion_sort_start c ?d (length us) (length us + length (v # vs)) =
        binary_insertion_sort_start c ((us @ [v]) @ vs @ ws) (length (us @ [v])) (length (us @ [v]) + length vs)"
      using True rd by (subst binary_insertion_sort_start.simps) simp
    with Cons.IH [OF _ st] S show ?thesis by auto
  next
    case False
    then have less: "c v (last us) < 0" using flip_less [OF S(2,1)] by simp
    obtain as bs where f: "us = as @ bs" "binary_insertion_find c ?d v (length us) = Inr (length as)"
      "\<forall>b\<in>set bs. c v b < 0" "as \<noteq> [] \<longrightarrow> c (last as) v \<le> 0"
      using binary_insertion_find_ok [OF Cons.prems(2) S(3,1) Cons.prems(1) less, of "(v # vs) @ ws"]
      by blast
    obtain h where h: "shift_up ?d (length as) (length us) = Inr (as @ h # bs @ vs @ ws)"
      using shift_up_ok [of as bs v "vs @ ws"] f(1) by auto
    let ?us = "as @ v # bs"
    have S': "set (as @ bs) \<subseteq> S" using S(3) f(1) by simp
    have st: "sorted_cmp c ?us" using sorted_insert [of as bs v] Cons.prems(2) f S' S(1) by simp
    have "binary_insertion_sort_start c ?d (length us) (length us + length (v # vs)) =
        binary_insertion_sort_start c (?us @ vs @ ws) (length ?us) (length ?us + length vs)"
      using False rd f(1,2) h by (subst binary_insertion_sort_start.simps) (simp add: mem_write_def)
    moreover obtain zs where "binary_insertion_sort_start c (?us @ vs @ ws) (length ?us) (length ?us + length vs) =
        Inr (zs @ ws)" "sorted_cmp c zs" "stable_perm c (?us @ vs) zs"
      using Cons.IH [OF _ st] S S' by auto
    moreover have "stable_perm c ((us @ [v]) @ vs) (?us @ vs)"
      using stable_perm_append [OF stable_insert [OF f(3) S' S(1)] stable_perm_refl [of c vs]] S S' f(1)
      by simp
    ultimately show ?thesis using stable_perm_trans by fastforce
  qed
qed

lemma binary_insertion_sort_ok:
  assumes "set xs \<subseteq> S"
  shows "\<exists>zs. binary_insertion_sort c (xs @ ws) (length xs) = Inr (zs @ ws) \<and>
    sorted_cmp c zs \<and> stable_perm c xs zs"
proof (cases xs)
  case Nil
  then show ?thesis by (simp add: binary_insertion_sort_def)
next
  case (Cons x vs)
  then show ?thesis using binary_insertion_sort_start_ok [of "[x]" vs ws] assms
    by (cases vs) (auto simp: binary_insertion_sort_def)
qed

end

section \<open>Runs\<close>

lemma reverse_elements_ok:
  "zs \<noteq> [] \<Longrightarrow> reverse_elements (us @ zs @ ws) (length us) (length us + length zs - 1) = Inr (us @ rev zs @ ws)"
proof (induction "length zs" arbitrary: us zs ws rule: less_induct)
  case less
  show ?case
  proof (cases "length zs \<le> 1")
    case True
    with less.prems obtain z where "zs = [z]" by (cases zs) auto
    then show ?thesis by (subst reverse_elements.simps) simp
  next
    case False
    obtain x ys y where zs: "zs = x # ys @ [y]"
      using False by (cases zs; cases "tl zs" rule: rev_cases) auto
    let ?d = "us @ zs @ ws"
    have "mem_swap ?d (length us) (length us + length zs - 1) = Inr ((us @ [y]) @ ys @ x # ws)"
      using zs by (subst mem_swap_ok) (simp_all add: nth_append list_update_append)
    then have "reverse_elements ?d (length us) (length us + length zs - 1) =
        reverse_elements ((us @ [y]) @ ys @ x # ws) (length (us @ [y])) (length us + length ys)"
      using zs by (subst reverse_elements.simps) simp
    also have "\<dots> = Inr ((us @ [y]) @ rev ys @ x # ws)"
    proof (cases "ys = []")
      case True
      then show ?thesis by (subst reverse_elements.simps) simp
    next
      case ne: False
      from less.hyps [OF _ this, of "us @ [y]" "x # ws"] zs show ?thesis by simp
    qed
    finally show ?thesis using zs by simp
  qed
qed

lemma run_end_ok:
  assumes "0 < p" "p \<le> n - 1" "n \<le> length d"
  shows "\<exists>q. run_end c up d p n = Inr q \<and> p \<le> q \<and> q \<le> n - 1 \<and>
    (\<forall>k. p \<le> k \<and> k < q \<longrightarrow> (c (d ! (k - 1)) (d ! k) \<le> 0) = up)"
  using assms
proof (induction "n - p" arbitrary: p)
  case 0
  then show ?case by (intro exI [of _ p]) (auto simp: run_end.simps [of _ _ _ p])
next
  case (Suc m)
  show ?case
  proof (cases "p = n - 1 \<or> (c (d ! (p - 1)) (d ! p) \<le> 0) \<noteq> up")
    case True
    then show ?thesis using Suc.prems
      by (intro exI [of _ p]) (auto simp: run_end.simps [of _ _ _ p] mem_read_def)
  next
    case False
    then have "run_end c up d p n = run_end c up d (p + 1) n"
      using Suc.prems by (auto simp: run_end.simps [of _ _ _ p] mem_read_def)
    moreover have "m = n - (p + 1)" "p + 1 \<le> n - 1" using Suc.hyps(2) Suc.prems False by linarith+
    with Suc.hyps(1) [OF this(1) _ this(2)] Suc.prems(3)
    obtain q where "run_end c up d (p + 1) n = Inr q" "p + 1 \<le> q" "q \<le> n - 1"
      "\<forall>k. p + 1 \<le> k \<and> k < q \<longrightarrow> (c (d ! (k - 1)) (d ! k) \<le> 0) = up" by auto
    moreover have "(c (d ! (k - 1)) (d ! k) \<le> 0) = up" if "p \<le> k" "k < q" for k
      using calculation(5) False that by (cases "k = p") auto
    ultimately show ?thesis by (intro exI [of _ q]) simp
  qed
qed


lemma chain_sorted_wrt:
  assumes "\<forall>j. Suc j < length xs \<longrightarrow> R (xs ! j) (xs ! Suc j)"
    "\<And>x y z. x \<in> set xs \<Longrightarrow> y \<in> set xs \<Longrightarrow> z \<in> set xs \<Longrightarrow> R x y \<Longrightarrow> R y z \<Longrightarrow> R x z"
  shows "sorted_wrt R xs"
  using assms
proof (induction xs)
  case (Cons x xs)
  have tl: "sorted_wrt R xs"
  proof (rule Cons.IH)
    show "\<forall>j. Suc j < length xs \<longrightarrow> R (xs ! j) (xs ! Suc j)"
      using Cons.prems(1) by (metis Suc_less_eq length_Cons nth_Cons_Suc)
  qed (use Cons.prems(2) in auto)
  have "R x z" if "z \<in> set xs" for z
  proof (cases xs)
    case (Cons y ys)
    have "R x y" using Cons.prems(1) [rule_format, of 0] \<open>xs = y # ys\<close> by simp
    moreover have "z = y \<or> R y z" using tl that \<open>xs = y # ys\<close> by auto
    ultimately show ?thesis using Cons.prems(2) [of x y z] that \<open>xs = y # ys\<close> by auto
  qed (use that in simp)
  then show ?case using tl by simp
qed simp

context ordering_cmp
begin

lemma run_order:
  assumes "\<forall>j. Suc j < length xs \<longrightarrow> (c (xs ! j) (xs ! Suc j) \<le> 0) = up" "set xs \<subseteq> S"
  shows "if up then sorted_cmp c xs else sorted_cmp c (rev xs) \<and> stable_perm c xs (rev xs)"
proof (cases up)
  case True
  then have "sorted_wrt (\<lambda>x y. c x y \<le> 0) xs"
    using assms(1,2) le_trans by (intro chain_sorted_wrt) blast+
  then show ?thesis using True by (simp add: sorted_cmp_def)
next
  case False
  have "sorted_wrt (\<lambda>x y. 0 < c x y) xs"
  proof (rule chain_sorted_wrt)
    show "\<forall>j. Suc j < length xs \<longrightarrow> 0 < c (xs ! j) (xs ! Suc j)"
      using assms(1) False by (auto simp: not_le)
    fix x y z assume "x \<in> set xs" "y \<in> set xs" "z \<in> set xs" and lt: "0 < c x y" "0 < c y z"
    then have S: "x \<in> S" "y \<in> S" "z \<in> S" using assms(2) by auto
    have "c z x < 0"
      using less_le_trans [OF S(3,2,1)] flip_less [OF S(1,2)] flip_less [OF S(2,3)] lt by simp
    then show "0 < c x z" using flip_less [OF S(1,3)] by simp
  qed
  then have "stable_perm c xs (rev xs)" "sorted_wrt (\<lambda>x y. 0 < c y x) (rev xs)"
    using stable_perm_rev_strict [OF assms(2)] by (simp_all add: sorted_wrt_rev)
  moreover have "sorted_cmp c (rev xs)"
    unfolding sorted_cmp_def
    by (rule sorted_wrt_mono_rel [OF _ calculation(2)])
       (use assms(2) flip_less in \<open>fastforce intro: order_less_imp_le\<close>)
  ultimately show ?thesis using False by simp
qed

lemma count_run_two:
  assumes "{x, y} \<subseteq> S"
  shows "\<exists>rs. count_run c (us @ [x, y] @ ws) (length us) (length us + 2) = Inr (us @ rs @ ws, 2) \<and> length rs = 2 \<and>
    sorted_cmp c rs \<and> stable_perm c [x, y] rs"
proof -
  let ?d = "us @ [x, y] @ ws" and ?n = "length us + 2" and ?vs = "[x, y]"
  have rd: "mem_read ?d (?n - 2) = Inr x" "mem_read ?d (?n - 1) = Inr y"
    by (simp_all add: mem_read_def nth_append)
  have sw: "mem_swap ?d (?n - 2) (?n - 1) = Inr (us @ [y, x] @ ws)"
    by (subst mem_swap_ok) (simp_all add: nth_append list_update_append)
  have "count_run c ?d (length us) ?n = Inr (us @ (if c x y \<le> 0 then ?vs else rev ?vs) @ ws, 2)"
    using rd sw by (auto simp: count_run_def)
  moreover have "if c x y \<le> 0 then sorted_cmp c ?vs else sorted_cmp c (rev ?vs) \<and> stable_perm c ?vs (rev ?vs)"
    using assms by (intro run_order) (auto simp: less_Suc_eq)
  ultimately show ?thesis by (intro exI [of _ "if c x y \<le> 0 then ?vs else rev ?vs"]) auto
qed

text \<open>The run found in a longer part, rising or falling.\<close>

lemma count_run_end:
  assumes "2 < length vs" "up \<longleftrightarrow> c (vs ! 0) (vs ! 1) \<le> 0"
  shows "\<exists>k. run_end c up (us @ vs @ ws) (length us + 2) (length us + length vs) = Inr (length us + k) \<and>
    2 \<le> k \<and> k < length vs \<and> (\<forall>j. Suc j < k \<longrightarrow> (c (vs ! j) (vs ! Suc j) \<le> 0) = up)"
proof -
  let ?d = "us @ vs @ ws" and ?s = "length us" and ?n = "length us + length vs"
  have "0 < ?s + 2" "?s + 2 \<le> ?n - 1" "?n \<le> length ?d" using assms(1) by auto
  from run_end_ok [OF this, of c up] obtain q where q: "run_end c up ?d (?s + 2) ?n = Inr q"
    "?s + 2 \<le> q" "q \<le> ?n - 1" "\<forall>k. ?s + 2 \<le> k \<and> k < q \<longrightarrow> (c (?d ! (k - 1)) (?d ! k) \<le> 0) = up" by blast
  have "(c (vs ! j) (vs ! Suc j) \<le> 0) = up" if "Suc j < q - ?s" for j
  proof (cases "j = 0")
    case False
    then have "(c (?d ! (?s + Suc j - 1)) (?d ! (?s + Suc j)) \<le> 0) = up"
      using q(4) [rule_format, of "?s + Suc j"] that by linarith
    moreover have "?d ! (?s + Suc j - 1) = vs ! j" "?d ! (?s + Suc j) = vs ! Suc j"
      using that q(3) assms(1) by (auto simp: nth_append)
    ultimately show ?thesis by simp
  qed (use assms(2) in simp)
  moreover have "?s + (q - ?s) = q" "2 \<le> q - ?s" "q - ?s < length vs" using q(2,3) assms(1) by auto
  ultimately show ?thesis using q(1) by (intro exI [of _ "q - ?s"]) auto
qed

lemma count_run_long:
  assumes "2 < length vs" "set vs \<subseteq> S"
  shows "\<exists>rs k. count_run c (us @ vs @ ws) (length us) (length us + length vs) =
      Inr (us @ rs @ drop k vs @ ws, k) \<and> 0 < k \<and> k \<le> length vs \<and> length rs = k \<and>
    sorted_cmp c rs \<and> stable_perm c (take k vs) rs"
proof -
  let ?d = "us @ vs @ ws" and ?s = "length us" and ?n = "length us + length vs"
  define up where "up \<longleftrightarrow> c (vs ! 0) (vs ! 1) \<le> 0"
  have rd: "mem_read ?d ?s = Inr (vs ! 0)" "mem_read ?d (?s + 1) = Inr (vs ! 1)"
    using assms(1) by (auto simp: mem_read_def nth_append)
  from count_run_end [OF assms(1) up_def] obtain k where k: "run_end c up ?d (?s + 2) ?n = Inr (?s + k)"
    "2 \<le> k" "k < length vs" "\<forall>j. Suc j < k \<longrightarrow> (c (vs ! j) (vs ! Suc j) \<le> 0) = up" by blast
  let ?rs = "take k vs"
  have len: "length ?rs = k" "?n - ?s \<noteq> 1" "\<not> ?s \<ge> ?n - 2" using k assms(1) by auto
  have "set ?rs \<subseteq> S" using assms(2) set_take_subset [of k vs] by blast
  then have "if up then sorted_cmp c ?rs else sorted_cmp c (rev ?rs) \<and> stable_perm c ?rs (rev ?rs)"
    using k(3,4) by (intro run_order) auto
  then have o: "up \<Longrightarrow> sorted_cmp c ?rs" "\<not> up \<Longrightarrow> sorted_cmp c (rev ?rs)" "\<not> up \<Longrightarrow> stable_perm c ?rs (rev ?rs)"
    by presburger+
  show ?thesis
  proof (cases up)
    case True
    then have "count_run c ?d ?s ?n = Inr (us @ ?rs @ drop k vs @ ws, k)"
      using rd k(1) len up_def by (simp add: count_run_def)
    moreover have "0 < k" "k \<le> length vs" using k by linarith+
    ultimately show ?thesis using o(1) [OF True] len(1) stable_perm_refl by blast
  next
    case False
    have "?rs \<noteq> []" using k by auto
    from reverse_elements_ok [OF this, of us "drop k vs @ ws"] len(1)
    have "reverse_elements ?d ?s (?s + k - 1) = Inr (us @ rev ?rs @ drop k vs @ ws)"
      by (simp only: append_assoc [symmetric] append_take_drop_id)
    then have "count_run c ?d ?s ?n = Inr (us @ rev ?rs @ drop k vs @ ws, k)"
      using rd k(1) len False up_def by (simp add: count_run_def)
    moreover have "0 < k" "k \<le> length vs" "length (rev ?rs) = k" using k by simp_all
    ultimately show ?thesis using o(2,3) [OF False] by blast
  qed
qed

lemma count_run_ok:
  assumes "vs \<noteq> []" "set vs \<subseteq> S"
  shows "\<exists>rs k. count_run c (us @ vs @ ws) (length us) (length us + length vs) =
      Inr (us @ rs @ drop k vs @ ws, k) \<and> 0 < k \<and> k \<le> length vs \<and> length rs = k \<and>
    sorted_cmp c rs \<and> stable_perm c (take k vs) rs"
proof -
  consider v where "vs = [v]" | x y where "vs = [x, y]" | "2 < length vs"
    using assms(1) by (cases vs; cases "tl vs"; cases "tl (tl vs)") auto
  then show ?thesis
  proof cases
    case 1
    then show ?thesis by (intro exI [of _ vs] exI [of _ 1]) (simp add: count_run_def)
  next
    case (2 x y)
    then obtain rs where "count_run c (us @ [x, y] @ ws) (length us) (length us + 2) = Inr (us @ rs @ ws, 2)"
      "length rs = 2" "sorted_cmp c rs" "stable_perm c [x, y] rs"
      using count_run_two [of x y us ws] assms(2) by auto
    then show ?thesis unfolding 2 by (intro exI [of _ rs] exI [of _ 2]) simp
  next
    case 3
    then show ?thesis using count_run_long assms(2) by blast
  qed
qed

lemma next_run_ok:
  assumes "vs \<noteq> []" "set vs \<subseteq> S"
  shows "\<exists>rs k. next_run c (us @ vs @ ws) (length us + length vs) minrun (length us) =
      Inr (us @ rs @ drop k vs @ ws, k) \<and> 0 < k \<and> k \<le> length vs \<and> length rs = k \<and>
    sorted_cmp c rs \<and> stable_perm c (take k vs) rs"
proof -
  let ?n = "length us + length vs"
  from count_run_ok [OF assms, of us ws] obtain rs k where cr:
    "count_run c (us @ vs @ ws) (length us) ?n = Inr (us @ rs @ drop k vs @ ws, k)" "0 < k"
    "k \<le> length vs" "length rs = k" "sorted_cmp c rs" "stable_perm c (take k vs) rs" by blast
  let ?run = "min minrun (length vs)"
  have run: "(if minrun > ?n - length us then ?n - length us else minrun) = ?run" by auto
  show ?thesis
  proof (cases "k < ?run")
    case False
    then have "next_run c (us @ vs @ ws) ?n minrun (length us) = Inr (us @ rs @ drop k vs @ ws, k)"
      using cr(1) by (simp only: next_run_def run Let_def rbind.simps prod.case if_False)
    then show ?thesis using cr by blast
  next
    case True
    obtain ms where ms: "drop k vs = ms @ drop ?run vs" "take ?run vs = take k vs @ ms"
    proof (rule that [of "take (?run - k) (drop k vs)"])
      show "take ?run vs = take k vs @ take (?run - k) (drop k vs)"
        using True by (metis le_add_diff_inverse less_imp_le_nat take_add)
      show "drop k vs = take (?run - k) (drop k vs) @ drop ?run vs"
        using True by (metis append_take_drop_id drop_drop le_add_diff_inverse2 less_imp_le_nat)
    qed
    have "set (take ?run vs) \<subseteq> S" using assms(2) set_take_subset [of ?run vs] by blast
    then have S: "set (take k vs) \<subseteq> S" "set ms \<subseteq> S" "set rs \<subseteq> S"
      using ms(2) stable_perm_set [OF cr(6)] by auto
    have ne: "rs \<noteq> []" using cr(2,4) by auto
    have "length (take k vs @ ms) = ?run" using ms(2) by (metis length_take min.cobounded2 min_absorb2)
    then have len: "length rs + length ms = ?run" using cr(3,4) by simp
    from binary_insertion_sort_start_ok [OF ne cr(5), of ms "drop ?run vs @ ws"] S obtain zs where zs:
      "binary_insertion_sort_start c (rs @ drop k vs @ ws) k ?run = Inr (zs @ drop ?run vs @ ws)"
      "sorted_cmp c zs" "stable_perm c (rs @ ms) zs"
      unfolding len unfolding cr(4) ms(1) append_assoc set_append by blast
    have "next_run c (us @ vs @ ws) ?n minrun (length us) = Inr (us @ zs @ drop ?run vs @ ws, ?run)"
      using cr(1) True zs(1)
      by (simp only: next_run_def run Let_def rbind.simps prod.case if_True)
         (use cr(3,4) in \<open>simp add: at_offset_def\<close>)
    moreover have "stable_perm c (take ?run vs) zs"
      using stable_perm_trans [OF stable_perm_append [OF cr(6) stable_perm_refl [of c ms] S(1,2)] zs(3)]
        ms(2) by simp
    moreover have "length zs = ?run" using stable_perm_length [OF zs(3)] len by simp
    ultimately show ?thesis using zs(2) True
      by (intro exI [of _ zs] exI [of _ ?run]) auto
  qed
qed

end

section \<open>Merging\<close>

fun mergel :: "('a \<Rightarrow> 'a \<Rightarrow> int) \<Rightarrow> 'a list \<Rightarrow> 'a list \<Rightarrow> 'a list" where
  "mergel c [] bs = bs"
| "mergel c as [] = as"
| "mergel c (a # as) (b # bs) =
     (if c a b \<le> 0 then a # mergel c as (b # bs) else b # mergel c (a # as) bs)"

text \<open>The merge from the right, on the reversed runs.\<close>

fun merger :: "('a \<Rightarrow> 'a \<Rightarrow> int) \<Rightarrow> 'a list \<Rightarrow> 'a list \<Rightarrow> 'a list" where
  "merger c as [] = rev as"
| "merger c [] bs = rev bs"
| "merger c (a # as) (b # bs) =
     (if c a b > 0 then merger c as (b # bs) @ [a] else merger c (a # as) bs @ [b])"

lemma set_mergel [simp]: "set (mergel c as bs) = set as \<union> set bs"
  by (induction c as bs rule: mergel.induct) auto

lemma set_merger [simp]: "set (merger c as bs) = set as \<union> set bs"
  by (induction c as bs rule: merger.induct) auto

lemma merger_Nil [simp]: "merger c [] bs = rev bs"
  by (cases bs) auto

lemma mergel_Nil2 [simp]: "mergel c as [] = as"
  by (cases as) auto

lemma merge_left_loop_ok:
  assumes "i \<le> length st" "length g = length st - i"
  shows "merge_left_loop c (p @ g @ bs @ q) st (length st) (length p + length g + length bs) i
      (length p + length g) (length p) = Inr (p @ mergel c (drop i st) bs @ q)"
  using assms
proof (induction "length g + length bs" arbitrary: i p g bs)
  case 0
  then show ?case by (simp add: merge_left_loop.simps)
next
  case (Suc m)
  let ?d = "p @ g @ bs @ q" and ?fin = "length p + length g + length bs"
  show ?case
  proof (cases "i < length st")
    case False
    then show ?thesis using Suc.prems by (simp add: merge_left_loop.simps)
  next
    case i: True
    then obtain h g' where g: "g = h # g'" using Suc.prems(2) by (cases g) auto
    have dr: "drop i st = st ! i # drop (Suc i) st" using i by (rule Cons_nth_drop_Suc [symmetric])
    have take_st: "merge_left_loop c (?d[length p := st ! i]) st (length st) ?fin (Suc i)
        (length p + length g) (Suc (length p)) = Inr (p @ st ! i # mergel c (drop (Suc i) st) bs @ q)"
    proof -
      have "length g' = length st - Suc i" "Suc i \<le> length st" using Suc.prems(2) i g by simp_all
      from Suc.hyps(1) [OF _ this(2,1), of bs "p @ [st ! i]"] Suc.hyps(2) show ?thesis
        by (simp add: g)
    qed
    show ?thesis
    proof (cases bs)
      case Nil
      then show ?thesis using i g dr take_st
        by (subst merge_left_loop.simps) (simp add: mem_read_def mem_write_def)
    next
      case (Cons b bs')
      have rd: "mem_read st i = Inr (st ! i)" "mem_read ?d (length p + length g) = Inr b"
        using i Cons by (simp_all add: mem_read_def nth_append)
      show ?thesis
      proof (cases "c (st ! i) b \<le> 0")
        case True
        then show ?thesis using i g dr take_st rd Cons
          by (subst merge_left_loop.simps) (simp add: mem_write_def)
      next
        case False
        have "merge_left_loop c (?d[length p := b]) st (length st) ?fin i
            (Suc (length p + length g)) (Suc (length p)) = Inr (p @ b # mergel c (drop i st) bs' @ q)"
        proof -
          have "length (g' @ [b]) = length st - i" using Suc.prems(2) g by simp
          from Suc.hyps(1) [OF _ Suc.prems(1) this, of bs' "p @ [b]"] Suc.hyps(2) show ?thesis
            by (simp add: g Cons)
        qed
        then show ?thesis using False i g dr rd Cons
          by (subst merge_left_loop.simps) (simp add: mem_write_def)
      qed
    qed
  qed
qed

lemma merge_right_loop_ok:
  assumes "i \<le> length st" "length g = i"
  shows "merge_right_loop c (p @ as @ g @ q) st (length p) i (length p + length as)
      (length p + length as + length g) = Inr (p @ merger c (rev as) (rev (take i st)) @ q)"
  using assms
proof (induction "length as + length g" arbitrary: i as g q)
  case 0
  then show ?case by (cases "length p") auto
next
  case (Suc m)
  let ?d = "p @ as @ g @ q"
  show ?case
  proof (cases i)
    case 0
    then show ?thesis using Suc.prems by (cases "length p + length as") auto
  next
    case i: (Suc i')
    then obtain g' h where g: "g = g' @ [h]" using Suc.prems(2) by (cases g rule: rev_cases) auto
    have tk: "take i st = take i' st @ [st ! i']" using i Suc.prems(1) by (simp add: take_Suc_conv_app_nth)
    have len: "length g' = i'" "i' \<le> length st" "i' < length st" using g i Suc.prems by simp_all
    have fin: "length p + length as + length g = Suc (length p + length as + length g')" using g by simp
    have take_st: "merge_right_loop c (p @ as @ g' @ st ! i' # q) st (length p) i' (length p + length as)
        (length p + length as + length g') = Inr (p @ merger c (rev as) (rev (take i' st)) @ st ! i' # q)"
      using Suc.hyps(1) [of as g' i' "st ! i' # q"] Suc.hyps(2) len g by simp
    have wr: "mem_write ?d (length p + length as + length g') x = Inr (p @ as @ g' @ x # q)" for x
      using g by (simp add: mem_write_def list_update_append)
    have rst: "mem_read st i' = Inr (st ! i')" using len by (simp add: mem_read_def)
    show ?thesis
    proof (cases as rule: rev_cases)
      case Nil
      then show ?thesis using i fin take_st wr rst tk by simp
    next
      case (snoc as' a)
      have rd: "mem_read ?d (length p + length as - 1) = Inr a"
        using snoc by (simp add: mem_read_def nth_append)
      show ?thesis
      proof (cases "c a (st ! i') > 0")
        case False
        then show ?thesis using i fin take_st wr rst tk rd snoc by simp
      next
        case True
        have "merge_right_loop c (p @ as' @ (a # g') @ a # q) st (length p) i (length p + length as')
            (length p + length as' + length (a # g')) =
          Inr (p @ merger c (rev as') (rev (take i st)) @ a # q)"
          using Suc.hyps(1) [of as' "a # g'" i "a # q"] Suc.hyps(2) Suc.prems len g snoc i by simp
        then show ?thesis using True i fin wr rst tk rd snoc by simp
      qed
    qed
  qed
qed


context ordering_cmp
begin

lemma stable_perm_move':
  assumes "set vs \<subseteq> S" "x \<in> S" "\<forall>v\<in>set vs. c v x < 0"
  shows "stable_perm c (x # vs) (vs @ [x])"
proof -
  have "c z v \<noteq> 0" if "z \<in> S" "c z x = 0" "v \<in> set vs" for z v
  proof
    assume "c z v = 0"
    have v: "v \<in> S" using that assms by auto
    then have "c v z = 0" using \<open>c z v = 0\<close> that flip_eq [of z v] by simp
    then have "c v x = 0" using eq_trans [of v z x] v that assms by simp
    then show False using assms(3) that by auto
  qed
  then have "filter (\<lambda>y. c z y = 0) vs = []" if "z \<in> S" "c z x = 0" for z
    using that by (simp add: filter_empty_conv)
  then show ?thesis using assms by (auto simp: stable_perm_def)
qed

text \<open>Putting the smallest of all items first, or the greatest last.\<close>

lemma stable_perm_Cons: "stable_perm c xs ys \<Longrightarrow> x \<in> S \<Longrightarrow> set xs \<subseteq> S \<Longrightarrow> stable_perm c (x # xs) (x # ys)"
  using stable_perm_append [OF stable_perm_refl [of c "[x]"], of xs ys] by simp

lemma stable_perm_snoc: "stable_perm c xs ys \<Longrightarrow> x \<in> S \<Longrightarrow> set xs \<subseteq> S \<Longrightarrow> stable_perm c (xs @ [x]) (ys @ [x])"
  using stable_perm_append [OF _ stable_perm_refl [of c "[x]"], of xs ys] by simp

lemma merge_pull:
  assumes "sorted_cmp c (a # as)" "set (a # as @ b # bs) \<subseteq> S" "\<not> c a b \<le> 0"
  shows "stable_perm c (a # as @ b # bs) (b # a # as @ bs)" "\<forall>x\<in>set (a # as). c b x \<le> 0"
proof -
  have ba: "c b a < 0" using assms(2,3) flip_less [of a b] by auto
  have lt: "\<forall>x\<in>set (a # as). c b x < 0"
    using assms(1,2) ba less_le_trans [of b a] by (auto simp: sorted_cmp_Cons)
  from stable_perm_append [OF stable_perm_move [OF _ _ lt] stable_perm_refl [of c bs]] assms(2)
  show "stable_perm c (a # as @ b # bs) (b # a # as @ bs)" by simp
  show "\<forall>x\<in>set (a # as). c b x \<le> 0" using lt by auto
qed

lemma mergel_ok:
  assumes "sorted_cmp c as" "sorted_cmp c bs" "set (as @ bs) \<subseteq> S"
  shows "sorted_cmp c (mergel c as bs) \<and> stable_perm c (as @ bs) (mergel c as bs)"
  using assms
proof (induction "length as + length bs" arbitrary: as bs rule: less_induct)
  case less
  show ?case
  proof (cases "as = [] \<or> bs = []")
    case True
    then show ?thesis using less.prems by (cases as) auto
  next
    case False
    then obtain a as' b bs' where ab: "as = a # as'" "bs = b # bs'"
      by (cases as; cases bs) auto
    have S: "a \<in> S" "b \<in> S" "set as' \<subseteq> S" "set bs' \<subseteq> S" using less.prems(3) ab by auto
    show ?thesis
    proof (cases "c a b \<le> 0")
      case True
      have "\<forall>x\<in>set (b # bs'). c a x \<le> 0"
        using True le_trans [of a b] less.prems(2) S ab by (auto simp: sorted_cmp_Cons)
      then show ?thesis using less.hyps [of as' bs] less.prems True S ab
        by (auto simp: sorted_cmp_Cons intro!: stable_perm_Cons)
    next
      case False
      note pull = merge_pull [of a as' b bs', OF _ _ False]
      have "sorted_cmp c (mergel c as bs') \<and> stable_perm c (as @ bs') (mergel c as bs')"
        using less.prems ab by (intro less.hyps) (auto simp: sorted_cmp_Cons)
      moreover from this have "stable_perm c (b # as @ bs') (b # mergel c as bs')"
        using S ab by (intro stable_perm_Cons) auto
      ultimately show ?thesis using pull less.prems False ab stable_perm_trans [of c "as @ bs" "b # as @ bs'"]
        by (auto simp: sorted_cmp_Cons)
    qed
  qed
qed

lemma merge_push:
  assumes "sorted_cmp c (rev (b # bs))" "set (rev (a # as) @ rev (b # bs)) \<subseteq> S" "c a b > 0"
  shows "stable_perm c (rev (a # as) @ rev (b # bs)) (rev as @ rev (b # bs) @ [a])"
    "\<forall>x\<in>set (b # bs). c x a \<le> 0"
proof -
  have ba: "c b a < 0" using assms(2,3) flip_less [of a b] by auto
  have lt: "\<forall>x\<in>set (rev (b # bs)). c x a < 0"
    using assms(1,2) ba le_less_trans [of _ b a] by (auto simp: sorted_cmp_append)
  have "stable_perm c (rev as @ a # rev (b # bs)) (rev as @ rev (b # bs) @ [a])"
    using assms(2) by (intro stable_perm_append stable_perm_move' lt stable_perm_refl) auto
  then show "stable_perm c (rev (a # as) @ rev (b # bs)) (rev as @ rev (b # bs) @ [a])" by simp
  show "\<forall>x\<in>set (b # bs). c x a \<le> 0" using lt by auto
qed

lemma sorted_snoc: "sorted_cmp c xs \<Longrightarrow> \<forall>x\<in>set xs. c x y \<le> 0 \<Longrightarrow> sorted_cmp c (xs @ [y])"
  by (auto simp: sorted_cmp_append)

lemma merger_ok:
  assumes "sorted_cmp c (rev as)" "sorted_cmp c (rev bs)" "set (as @ bs) \<subseteq> S"
  shows "sorted_cmp c (merger c as bs) \<and> stable_perm c (rev as @ rev bs) (merger c as bs)"
  using assms
proof (induction "length as + length bs" arbitrary: as bs rule: less_induct)
  case less
  show ?case
  proof (cases "as = [] \<or> bs = []")
    case True
    then show ?thesis using less.prems by (cases bs) auto
  next
    case False
    then obtain a as' b bs' where ab: "as = a # as'" "bs = b # bs'"
      by (cases as; cases bs) auto
    have S: "a \<in> S" "b \<in> S" "set as' \<subseteq> S" "set bs' \<subseteq> S" using less.prems(3) ab by auto
    have so: "sorted_cmp c (rev as')" "sorted_cmp c (rev bs')" "\<forall>x\<in>set as'. c x a \<le> 0" "\<forall>x\<in>set bs'. c x b \<le> 0"
      using less.prems(1,2) ab by (auto simp: sorted_cmp_append)
    show ?thesis
    proof (cases "c a b > 0")
      case True
      note push = merge_push [of b bs' a as', OF _ _ True]
      have ih: "sorted_cmp c (merger c as' bs) \<and> stable_perm c (rev as' @ rev bs) (merger c as' bs)"
        using less.prems ab so S by (intro less.hyps) auto
      then have "stable_perm c ((rev as' @ rev bs) @ [a]) (merger c as' bs @ [a])"
        using S ab by (intro stable_perm_snoc) auto
      moreover have "stable_perm c (rev as @ rev bs) ((rev as' @ rev bs) @ [a])"
        using push(1) less.prems S ab by simp
      moreover have "sorted_cmp c (merger c as' bs @ [a])"
        using ih push(2) so(3) less.prems S ab by (intro sorted_snoc) auto
      ultimately show ?thesis using True ab stable_perm_trans by fastforce
    next
      case False
      then have "c a b \<le> 0" by simp
      then have "\<forall>x\<in>set as. c x b \<le> 0" using so(3) S ab le_trans [of _ a b] by auto
      moreover have ih: "sorted_cmp c (merger c as bs') \<and> stable_perm c (rev as @ rev bs') (merger c as bs')"
        using less.prems ab so S by (intro less.hyps) auto
      ultimately have "sorted_cmp c (merger c as bs' @ [b])"
        using so(4) S ab by (intro sorted_snoc) auto
      moreover have "stable_perm c ((rev as @ rev bs') @ [b]) (merger c as bs' @ [b])"
        using ih S ab by (intro stable_perm_snoc) auto
      ultimately show ?thesis using False ab by simp
    qed
  qed
qed

lemma tim_sort_merge_ok:
  assumes "sorted_cmp c as" "sorted_cmp c bs" "set (as @ bs) \<subseteq> S"
  shows "\<exists>m. tim_sort_merge c (p @ as @ bs @ q) (length p, length as) (s2, length bs) = Inr (p @ m @ q) \<and>
    sorted_cmp c m \<and> stable_perm c (as @ bs) m"
proof (cases "length as < length bs")
  case True
  have "mem_copy (p @ as @ bs @ q) (length p) (length as) = Inr as"
    by (simp add: mem_copy_def)
  then have "tim_sort_merge c (p @ as @ bs @ q) (length p, length as) (s2, length bs) =
      Inr (p @ mergel c as bs @ q)"
    using True merge_left_loop_ok [of 0 as as c p bs q] by (simp add: tim_sort_merge_def)
  then show ?thesis using mergel_ok [OF assms] by blast
next
  case False
  have "mem_copy (p @ as @ bs @ q) (length p + length as) (length bs) = Inr bs"
    by (simp add: mem_copy_def)
  then have "tim_sort_merge c (p @ as @ bs @ q) (length p, length as) (s2, length bs) =
      Inr (p @ merger c (rev as) (rev bs) @ q)"
    using False merge_right_loop_ok [of "length bs" bs bs c p as q] by (simp add: tim_sort_merge_def)
  then show ?thesis using merger_ok [of "rev as" "rev bs"] assms by auto
qed

end

section \<open>The stack of runs\<close>

fun runs_of :: "nat \<Rightarrow> 'a list list \<Rightarrow> run list" where
  "runs_of s [] = []"
| "runs_of s (r # rs) = (s, length r) # runs_of (s + length r) rs"

lemma runs_of_length [simp]: "length (runs_of s rss) = length rss"
  by (induction rss arbitrary: s) auto

lemma runs_of_append: "runs_of s (as @ bs) = runs_of s as @ runs_of (s + length (concat as)) bs"
  by (induction as arbitrary: s) (auto simp: add.assoc)

lemma runs_of_snd [simp]: "k < length rss \<Longrightarrow> snd (runs_of s rss ! k) = length (rss ! k)"
  by (induction rss arbitrary: s k) (auto simp: nth_Cons split: nat.splits)

definition runs_sorted :: "('a \<Rightarrow> 'a \<Rightarrow> int) \<Rightarrow> 'a list list \<Rightarrow> bool" where
  "runs_sorted c rss \<longleftrightarrow> (\<forall>r\<in>set rss. r \<noteq> [] \<and> sorted_cmp c r)"

lemma stable_perm_Nil [simp]: "stable_perm c xs [] \<longleftrightarrow> xs = []"
  using stable_perm_length by fastforce

context ordering_cmp
begin

lemma merge_at_ok:
  assumes "runs_sorted c (as @ r1 # r2 # bs)" "set (concat (as @ r1 # r2 # bs)) \<subseteq> S"
  shows "\<exists>m. merge_at c (concat (as @ r1 # r2 # bs) @ q) (runs_of 0 (as @ r1 # r2 # bs)) (length as) =
      Inr (concat (as @ m # bs) @ q, runs_of 0 (as @ m # bs)) \<and> length m = length r1 + length r2 \<and>
    runs_sorted c (as @ m # bs) \<and>
    stable_perm c (concat (as @ r1 # r2 # bs)) (concat (as @ m # bs))"
proof -
  let ?s = "length (concat as)"
  have so: "sorted_cmp c r1" "sorted_cmp c r2" "set (r1 @ r2) \<subseteq> S"
    and S: "set (concat as) \<subseteq> S" "set (concat bs) \<subseteq> S"
    using assms by (auto simp: runs_sorted_def)
  from tim_sort_merge_ok [OF so, of "concat as" "concat bs @ q" "?s + length r1"] obtain m where m:
    "tim_sort_merge c (concat as @ r1 @ r2 @ concat bs @ q) (?s, length r1) (?s + length r1, length r2) =
     Inr (concat as @ m @ concat bs @ q)" "sorted_cmp c m" "stable_perm c (r1 @ r2) m" by blast
  have len: "length m = length r1 + length r2" using stable_perm_length [OF m(3)] by simp
  have ne: "m \<noteq> []" using len assms(1) by (auto simp: runs_sorted_def)
  have st: "runs_of 0 (as @ r1 # r2 # bs) =
      runs_of 0 as @ (?s, length r1) # (?s + length r1, length r2) # runs_of (?s + length r1 + length r2) bs"
    by (simp add: runs_of_append)
  have "merge_at c (concat (as @ r1 # r2 # bs) @ q) (runs_of 0 (as @ r1 # r2 # bs)) (length as) =
      Inr (concat (as @ m # bs) @ q, runs_of 0 (as @ m # bs))"
    using m(1) len unfolding st
    by (simp add: merge_at_def run_at_def mem_read_def nth_append runs_of_append add.assoc)
  moreover have "stable_perm c (concat as @ (r1 @ r2) @ concat bs) (concat as @ m @ concat bs)"
    using S so(3) by (intro stable_perm_append m(3) stable_perm_refl) auto
  ultimately show ?thesis using m(2) assms(1) len ne by (auto simp: runs_sorted_def)
qed

end


text \<open>
  The invariant of the run lengths, top of the stack first: each is longer than the one
  above it and longer than the next two together.
\<close>

fun falling :: "nat list \<Rightarrow> bool" where
  "falling (z # y # x # ls) = (z < y \<and> y + z < x \<and> falling (y # x # ls))"
| "falling [z, y] = (z < y)"
| "falling _ = True"

definition lens :: "'a list list \<Rightarrow> nat list" where
  "lens rss = rev (map length rss)"

lemma falling_tl: "falling ls \<Longrightarrow> falling (tl ls)"
  by (induction ls rule: falling.induct) auto

lemma falling_drop: "falling ls \<Longrightarrow> falling (drop k ls)"
  by (induction k) (auto simp: drop_Suc drop_tl dest: falling_tl)

lemma falling_short: "length ls \<le> 1 \<Longrightarrow> falling ls"
  by (cases ls; cases "tl ls") auto

lemma falling_bound:
  assumes "falling (m # ls)"
  shows "(m + 2) * 2 ^ (length ls div 2) \<le> last (m # ls) + 2"
  using assms
proof (induction "length ls" arbitrary: m ls rule: less_induct)
  case less
  show ?case
  proof (cases ls)
    case Nil
    then show ?thesis by simp
  next
    case (Cons y ls1)
    show ?thesis
    proof (cases ls1)
      case Nil
      then show ?thesis using less.prems Cons by simp
    next
      case (Cons x ls2)
      have f: "falling (x # ls2)" "m < y" "y + m < x"
        using less.prems \<open>ls = y # ls1\<close> Cons falling_tl [of "y # x # ls2"] by auto
      have "2 * (m + 2) * 2 ^ (length ls2 div 2) \<le> (x + 2) * 2 ^ (length ls2 div 2)"
        using f(2,3) by (intro mult_right_mono) auto
      also have "\<dots> \<le> last (x # ls2) + 2"
        using less.hyps [of ls2 x] f(1) \<open>ls = y # ls1\<close> Cons by simp
      finally show ?thesis using \<open>ls = y # ls1\<close> Cons by (simp add: mult.assoc)
    qed
  qed
qed

lemma stack_bound:
  assumes "falling (lens rss)" "runs_sorted c rss" "length (concat rss) < 2 ^ 64"
  shows "length rss < TIM_SORT_STACK_SIZE"
proof (rule ccontr)
  assume "\<not> length rss < TIM_SORT_STACK_SIZE"
  then have L: "128 \<le> length (lens rss)" by (simp add: TIM_SORT_STACK_SIZE_def lens_def)
  then obtain m ls where ml: "lens rss = m # ls" by (cases "lens rss") auto
  have "m \<in> set (lens rss)" using ml by simp
  then have "1 \<le> m" using assms(2) by (auto simp: lens_def runs_sorted_def Suc_le_eq)
  have "3 * 2 ^ 63 \<le> (m + 2) * (2::nat) ^ (length ls div 2)"
    using L ml \<open>1 \<le> m\<close> by (intro mult_mono power_increasing) auto
  also have "\<dots> \<le> last (m # ls) + 2" using falling_bound assms(1) ml by simp
  finally have "2 ^ 64 \<le> last (m # ls)" by simp
  moreover have "last (m # ls) \<in> set (lens rss)" using ml last_in_set [of "m # ls"] by simp
  then obtain r where "r \<in> set rss" "last (m # ls) = length r" by (auto simp: lens_def)
  moreover from this have "length r \<le> length (concat rss)" by (auto dest!: split_list)
  ultimately show False using assms(3) by linarith
qed

lemma check_invariant_lens:
  "check_invariant (runs_of 0 rss) = (case lens rss of
     z # y # x # ls \<Rightarrow> z < y \<and> y + z < x | [z, y] \<Rightarrow> z < y | _ \<Rightarrow> True)"
proof (cases rss rule: rev_cases)
  case (snoc as z)
  show ?thesis
  proof (cases as rule: rev_cases)
    case (snoc as1 y)
    show ?thesis
    proof (cases as1 rule: rev_cases)
      case (snoc as2 x)
      let ?rs = "as2 @ [x, y, z]"
      have rss: "rss = ?rs" using \<open>rss = as @ [z]\<close> \<open>as = as1 @ [y]\<close> snoc by simp
      have "snd (runs_of 0 ?rs ! (length as2)) = length x"
        "snd (runs_of 0 ?rs ! (length as2 + 1)) = length y"
        "snd (runs_of 0 ?rs ! (length as2 + 2)) = length z"
        by (subst runs_of_snd; simp add: nth_append)+
      then show ?thesis unfolding rss by (auto simp: check_invariant_def Let_def lens_def numeral_3_eq_3)
    qed (use \<open>rss = as @ [z]\<close> \<open>as = as1 @ [y]\<close> in \<open>simp add: check_invariant_def lens_def\<close>)
  qed (use \<open>rss = as @ [z]\<close> in \<open>simp add: check_invariant_def lens_def\<close>)
qed (simp add: check_invariant_def lens_def)

lemma top_cases:
  obtains (1) "length rss \<le> 1" | (2) x y where "rss = [x, y]" | (3) as x y z where "rss = as @ [x, y, z]"
proof -
  obtain zs where rev: "rss = rev zs" by (metis rev_rev_ident)
  show thesis
  proof (cases zs)
    case (Cons z ys)
    show thesis
    proof (cases ys)
      case (Cons y xs)
      then show thesis using rev \<open>zs = z # ys\<close> that(2) [of y z] that(3) [of "rev (tl xs)" "hd xs" y z]
        by (cases xs) auto
    qed (use Cons rev that(1) in auto)
  qed (use rev that(1) in auto)
qed

text \<open>What is known of a stack when the loop of \<open>TIM_SORT\<close> looks at it.\<close>

definition stack_ready :: "'a list list \<Rightarrow> bool" where
  "stack_ready rss \<longleftrightarrow> falling (tl (lens rss)) \<or> length rss \<le> 3"

lemma ready_checked:
  assumes "stack_ready rss" "check_invariant (runs_of 0 rss)"
  shows "falling (lens rss)"
proof -
  have len: "length (lens rss) = length rss" by (simp add: lens_def)
  show ?thesis
  proof (cases "length rss \<le> 3")
    case True
    then show ?thesis using assms(2) len unfolding check_invariant_lens
      by (cases "lens rss"; cases "tl (lens rss)"; cases "tl (tl (lens rss))";
          cases "tl (tl (tl (lens rss)))") auto
  next
    case False
    then show ?thesis using assms len unfolding stack_ready_def check_invariant_lens
      by (cases "lens rss" rule: falling.cases) auto
  qed
qed

lemma ready_drop: "stack_ready rss \<Longrightarrow> falling (drop 2 (lens rss))"
  using falling_tl [of "tl (lens rss)"] falling_short [of "drop 2 (lens rss)"]
  by (auto simp: stack_ready_def drop_Suc numeral_2_eq_2 lens_def)

lemma falling_checked: "falling (lens rss) \<Longrightarrow> check_invariant (runs_of 0 rss)"
  unfolding check_invariant_lens by (auto split: list.splits)

context ordering_cmp
begin

text \<open>Rearranging sorted runs into sorted runs.\<close>

definition runs_to :: "'a list list \<Rightarrow> 'a list list \<Rightarrow> bool" where
  "runs_to rss rss' \<longleftrightarrow> runs_sorted c rss' \<and> stable_perm c (concat rss) (concat rss')"

lemma runs_to_trans: "runs_to r1 r2 \<Longrightarrow> runs_to r2 r3 \<Longrightarrow> runs_to r1 r3"
  using stable_perm_trans by (auto simp: runs_to_def)

lemma runs_to_sub: "runs_to r1 r2 \<Longrightarrow> set (concat r1) \<subseteq> S \<Longrightarrow> set (concat r2) \<subseteq> S"
  using stable_perm_set by (fastforce simp: runs_to_def)

text \<open>One turn of the loop on three runs or more.\<close>

lemma collapse_turn:
  assumes "rss = as @ [x, y, z]"
    "bcd \<longleftrightarrow> length x \<le> length y + length z \<or> as \<noteq> [] \<and> hd (lens as) \<le> length x + length y"
  shows "tim_sort_collapse c d (runs_of 0 rss) n =
    (if \<not> bcd \<and> \<not> length y \<le> length z then Inr (d, runs_of 0 rss)
     else if bcd \<and> \<not> length y \<le> length z
     then rbind (merge_at c d (runs_of 0 rss) (length as)) (\<lambda>(d, st). tim_sort_collapse c d st n)
     else rbind (merge_at c d (runs_of 0 rss) (length as + 1)) (\<lambda>(d, st). tim_sort_collapse c d st n))"
proof -
  let ?k = "length as" and ?R = "runs_of 0 rss"
  have sc: "length ?R = ?k + 3" using assms(1) by simp
  have sn: "snd (?R ! ?k) = length x" "snd (?R ! (?k + 1)) = length y" "snd (?R ! (?k + 2)) = length z"
    unfolding assms(1) by (subst runs_of_snd; simp add: nth_append)+
  have sa: "as \<noteq> [] \<Longrightarrow> snd (?R ! (?k - 1)) = hd (lens as)"
    unfolding assms(1) by (subst runs_of_snd) (auto simp: nth_append lens_def hd_rev last_map last_conv_nth)
  have sn': "snd (?R ! (length ?R - 1)) = length z" "as \<noteq> [] \<Longrightarrow> snd (?R ! (length ?R - 4)) = hd (lens as)"
    using sn sa unfolding sc by simp_all
  have bcd: "bcd \<longleftrightarrow> length x \<le> length y + length z \<or>
      (if length ?R \<ge> 4 then snd (?R ! (length ?R - 4)) \<le> length x + length y else False)"
    using sn'(2) assms(2) unfolding sc by (cases as) auto
  have big: "\<not> length ?R \<le> 1" "length ?R \<noteq> 2" "length ?R - 3 = ?k" "length ?R - 2 = ?k + 1"
    unfolding sc by simp_all
  show ?thesis unfolding bcd
    by (subst tim_sort_collapse.simps) (simp only: Let_def big sn sn'(1) if_False)
qed

definition collapsed :: "'a list list \<Rightarrow> 'a list list \<Rightarrow> bool" where
  "collapsed rss rss' \<longleftrightarrow> runs_to rss rss' \<and> falling (lens rss') \<and>
     (check_invariant (runs_of 0 rss) \<or> length rss' < length rss) \<and> length rss' \<le> length rss"

lemma collapsed_refl: "runs_sorted c rss \<Longrightarrow> falling (lens rss) \<Longrightarrow> collapsed rss rss"
  using falling_checked by (simp add: collapsed_def runs_to_def)

lemma collapsed_step: "runs_to rss rs1 \<Longrightarrow> length rs1 < length rss \<Longrightarrow> collapsed rs1 rss' \<Longrightarrow> collapsed rss rss'"
  using runs_to_trans by (auto simp: collapsed_def)

text \<open>Two neighbours merged.\<close>

lemma merge_runs:
  assumes "runs_sorted c (as @ x # y # zs)" "set (concat (as @ x # y # zs)) \<subseteq> S"
  obtains m where "merge_at c (concat (as @ x # y # zs) @ q) (runs_of 0 (as @ x # y # zs)) (length as) =
      Inr (concat (as @ m # zs) @ q, runs_of 0 (as @ m # zs))" "runs_to (as @ x # y # zs) (as @ m # zs)"
  using merge_at_ok [of as x y zs q] assms by (auto simp: runs_to_def)

lemma collapse_two:
  assumes "runs_sorted c [x, y]" "set (concat [x, y]) \<subseteq> S"
  shows "\<exists>rss'. tim_sort_collapse c (concat [x, y] @ q) (runs_of 0 [x, y]) n = Inr (concat rss' @ q, runs_of 0 rss') \<and>
    collapsed [x, y] rss'"
proof -
  from merge_runs [of "[]" x y "[]" q] assms obtain m where m:
    "merge_at c (concat [x, y] @ q) (runs_of 0 [x, y]) 0 = Inr (concat [m] @ q, runs_of 0 [m])" "runs_to [x, y] [m]"
    by auto
  have go: "tim_sort_collapse c (concat [x, y] @ q) (runs_of 0 [x, y]) n = (if length x + length y = n \<or> length x \<le> length y
      then Inr (concat [m] @ q, runs_of 0 [m]) else Inr (concat [x, y] @ q, runs_of 0 [x, y]))"
    using m(1) by (subst tim_sort_collapse.simps) simp
  show ?thesis
  proof (cases "length x + length y = n \<or> length x \<le> length y")
    case True
    then show ?thesis using go m(2) by (intro exI [of _ "[m]"]) (simp add: lens_def collapsed_def)
  next
    case False
    then show ?thesis using go collapsed_refl [OF assms(1)] by (intro exI [of _ "[x, y]"]) (simp add: lens_def)
  qed
qed

lemma collapse_runs:
  assumes "runs_sorted c rss" "set (concat rss) \<subseteq> S" "falling (drop 2 (lens rss))"
  shows "\<exists>rss'. tim_sort_collapse c (concat rss @ q) (runs_of 0 rss) n = Inr (concat rss' @ q, runs_of 0 rss') \<and> collapsed rss rss'"
  using assms
proof (induction "length rss" arbitrary: rss rule: less_induct)
  case less
  let ?go = "\<lambda>rss. tim_sort_collapse c (concat rss @ q) (runs_of 0 rss) n"
  have next_ok: "\<exists>rss'. ?go rss = Inr (concat rss' @ q, runs_of 0 rss') \<and> collapsed rss rss'"
    if "runs_to rss rs1" "length rs1 < length rss" "?go rss = ?go rs1" "falling (drop 2 (lens rs1))" for rs1
    using less.hyps [OF that(2) _ runs_to_sub [OF that(1) less.prems(2)] that(4)] that(1,3) collapsed_step [OF that(1,2)]
    by (auto simp: runs_to_def)
  show ?case
  proof (cases rss rule: top_cases)
    case 1
    then have "falling (lens rss)" by (intro falling_short) (simp add: lens_def)
    from collapsed_refl [OF less.prems(1) this] 1 show ?thesis
      by (intro exI [of _ rss]) (auto simp: tim_sort_collapse.simps)
  next
    case (2 x y)
    show ?thesis using collapse_two less.prems(1,2) unfolding 2 by blast
  next
    case (3 as x y z)
    define bcd where "bcd \<longleftrightarrow> length x \<le> length y + length z \<or> as \<noteq> [] \<and> hd (lens as) \<le> length x + length y"
    note go = collapse_turn [OF 3 bcd_def]
    have fa: "falling (length x # lens as)" using less.prems(3) 3 by (simp add: lens_def numeral_2_eq_2)
    consider "\<not> bcd" "\<not> length y \<le> length z" | "bcd" "\<not> length y \<le> length z" | "length y \<le> length z" by blast
    then show ?thesis
    proof cases
      case 1
      then have "falling (lens rss)"
        using fa 3 by (cases "lens as"; cases "tl (lens as)") (auto simp: lens_def bcd_def)
      with collapsed_refl [OF less.prems(1) this] 1 go show ?thesis by (intro exI [of _ rss]) simp
    next
      case 2
      obtain m where "merge_at c (concat (as @ x # y # [z]) @ q) (runs_of 0 (as @ x # y # [z])) (length as) =
        Inr (concat (as @ m # [z]) @ q, runs_of 0 (as @ m # [z]))" "runs_to (as @ x # y # [z]) (as @ m # [z])"
        using merge_runs [of as x y "[z]" q] less.prems(1,2) 3 by metis
      then show ?thesis
        using 2 go falling_tl [OF fa] 3 by (intro next_ok [of "as @ m # [z]"]) (auto simp: lens_def numeral_2_eq_2)
    next
      case C: 3
      obtain m where "merge_at c (concat ((as @ [x]) @ y # z # []) @ q) (runs_of 0 ((as @ [x]) @ y # z # [])) (length (as @ [x])) =
        Inr (concat ((as @ [x]) @ m # []) @ q, runs_of 0 ((as @ [x]) @ m # []))" "runs_to ((as @ [x]) @ y # z # []) ((as @ [x]) @ m # [])"
        using merge_runs [of "as @ [x]" y z "[]" q] less.prems(1,2) 3 by (metis append.assoc append_Cons append_Nil)
      then show ?thesis
        using C go falling_tl [OF fa] 3 by (intro next_ok [of "as @ [x, m]"]) (auto simp: lens_def numeral_2_eq_2)
    qed
  qed
qed

lemma collapse_ok:
  assumes "runs_sorted c rss" "set (concat rss) \<subseteq> S" "falling (drop 2 (lens rss))"
  shows "\<exists>rss'. tim_sort_collapse c (concat rss @ q) (runs_of 0 rss) n = Inr (concat rss' @ q, runs_of 0 rss') \<and>
    runs_to rss rss' \<and> falling (lens rss') \<and>
    (check_invariant (runs_of 0 rss) \<or> length rss' < length rss) \<and> length rss' \<le> length rss"
  using collapse_runs [OF assms, of q n] by (simp add: collapsed_def)

lemma merge_rest_ok:
  assumes "runs_sorted c rss" "set (concat rss) \<subseteq> S" "rss \<noteq> []"
  shows "\<exists>m. merge_rest c (concat rss @ q) (runs_of 0 rss) = Inr (m @ q) \<and> sorted_cmp c m \<and>
    stable_perm c (concat rss) m"
  using assms
proof (induction "length rss" arbitrary: rss rule: less_induct)
  case less
  show ?case
  proof (cases "length rss \<le> 1")
    case True
    then obtain m where "rss = [m]" using less.prems(3) by (cases rss) auto
    then show ?thesis using less.prems(1)
      by (intro exI [of _ m]) (simp add: merge_rest.simps runs_sorted_def)
  next
    case False
    then obtain as x y where rss: "rss = as @ [x, y]" by (cases rss rule: top_cases) fastforce+
    from merge_at_ok [of as x y "[]" q] less.prems(1,2) rss obtain m where m:
      "merge_at c (concat rss @ q) (runs_of 0 rss) (length as) = Inr (concat (as @ [m]) @ q, runs_of 0 (as @ [m]))"
      "runs_to rss (as @ [m])" unfolding runs_to_def by auto
    have "merge_rest c (concat rss @ q) (runs_of 0 rss) = merge_rest c (concat (as @ [m]) @ q) (runs_of 0 (as @ [m]))"
      using m(1) rss by (subst merge_rest.simps) simp
    moreover have "length (as @ [m]) < length rss" using rss by simp
    from less.hyps [OF this _ runs_to_sub [OF m(2) less.prems(2)]] m(2)
    obtain m' where m': "merge_rest c (concat (as @ [m]) @ q) (runs_of 0 (as @ [m])) = Inr (m' @ q)"
      "sorted_cmp c m'" "stable_perm c (concat (as @ [m])) m'" by (auto simp: runs_to_def)
    moreover have "stable_perm c (concat rss) m'"
      using m(2) m'(3) by (auto simp: runs_to_def intro: stable_perm_trans)
    ultimately show ?thesis by simp
  qed
qed

text \<open>A push: either the block is done, or there is one run more.\<close>

lemma push_next_ok:
  assumes "runs_sorted c rss" "set (concat rss @ vs) \<subseteq> S" "vs \<noteq> []" "length rss < TIM_SORT_STACK_SIZE"
    "n = length (concat rss) + length vs"
  shows "(\<exists>m. push_next c (concat rss @ vs @ ws) n minrun (runs_of 0 rss) (length (concat rss)) =
        Inr (m @ ws, None) \<and> sorted_cmp c m \<and> stable_perm c (concat rss @ vs) m) \<or>
    (\<exists>r. push_next c (concat rss @ vs @ ws) n minrun (runs_of 0 rss) (length (concat rss)) =
        Inr (concat (rss @ [r]) @ drop (length r) vs @ ws,
          Some (runs_of 0 (rss @ [r]), length (concat (rss @ [r])))) \<and>
      runs_sorted c (rss @ [r]) \<and> r \<noteq> [] \<and> length r < length vs \<and> stable_perm c (take (length r) vs) r)"
proof -
  from next_run_ok [OF assms(3), of "concat rss" ws minrun] assms(2,5) obtain r k where nr:
    "next_run c (concat rss @ vs @ ws) n minrun (length (concat rss)) = Inr (concat rss @ r @ drop k vs @ ws, k)"
    "0 < k" "k \<le> length vs" "length r = k" "sorted_cmp c r" "stable_perm c (take k vs) r" by auto
  have ne: "r \<noteq> []" using nr(2,4) by auto
  have rs: "runs_sorted c (rss @ [r])" using assms(1) nr(5) ne by (auto simp: runs_sorted_def)
  have st: "runs_of 0 rss @ [(length (concat rss), k)] = runs_of 0 (rss @ [r])"
    using nr(4) by (simp add: runs_of_append)
  show ?thesis
  proof (cases "k = length vs")
    case True
    have perm: "stable_perm c (concat rss @ vs) (concat (rss @ [r]))"
      using nr(6) True assms(2) by (auto intro!: stable_perm_append)
    have "set (concat (rss @ [r])) \<subseteq> S" using stable_perm_set [OF perm] assms(2) by simp
    from merge_rest_ok [OF rs this, of ws] obtain m where m:
      "merge_rest c (concat (rss @ [r]) @ ws) (runs_of 0 (rss @ [r])) = Inr (m @ ws)" "sorted_cmp c m"
      "stable_perm c (concat (rss @ [r])) m" by auto
    have "push_next c (concat rss @ vs @ ws) n minrun (runs_of 0 rss) (length (concat rss)) = Inr (m @ ws, None)"
      using nr(1) m(1) True assms(4) st assms(5) by (simp add: push_next_def)
    then show ?thesis using m(2) stable_perm_trans [OF perm m(3)] by blast
  next
    case False
    have "push_next c (concat rss @ vs @ ws) n minrun (runs_of 0 rss) (length (concat rss)) =
        Inr (concat (rss @ [r]) @ drop (length r) vs @ ws, Some (runs_of 0 (rss @ [r]), length (concat (rss @ [r]))))"
      using nr(1,4) False assms(4) st assms(5) by (simp add: push_next_def)
    moreover have "k < length vs" using False nr(3) by simp
    ultimately show ?thesis using nr rs ne by blast
  qed
qed

text \<open>
  The rest of the sort from a stack: \<open>xs\<close> the original items, \<open>vs\<close> those not in a run yet.
\<close>

definition sort_state :: "'a list \<Rightarrow> 'a list list \<Rightarrow> 'a list \<Rightarrow> bool" where
  "sort_state xs rss vs \<longleftrightarrow> runs_sorted c rss \<and> stable_perm c xs (concat rss @ vs) \<and> vs \<noteq> []"

lemma sort_state_push:
  assumes "sort_state xs rss vs" "set xs \<subseteq> S" "runs_sorted c (rss @ [r])" "length r < length vs"
    "stable_perm c (take (length r) vs) r"
  shows "sort_state xs (rss @ [r]) (drop (length r) vs)"
proof -
  have S: "set (concat rss @ vs) \<subseteq> S" using assms(1,2) stable_perm_set by (fastforce simp: sort_state_def)
  have "set (take (length r) vs) \<subseteq> S" "set (drop (length r) vs) \<subseteq> S"
    using S set_take_subset [of "length r" vs] set_drop_subset [of "length r" vs] by auto
  then have "stable_perm c (concat rss @ take (length r) vs @ drop (length r) vs)
      (concat rss @ r @ drop (length r) vs)"
    using S assms(5) by (intro stable_perm_append stable_perm_refl) auto
  then show ?thesis
    using assms(1,3,4) stable_perm_trans by (fastforce simp: sort_state_def)
qed

lemma sort_state_set: "sort_state xs rss vs \<Longrightarrow> set xs \<subseteq> S \<Longrightarrow> set (concat rss @ vs) \<subseteq> S"
  using stable_perm_set by (fastforce simp: sort_state_def)

lemma sort_state_len: "sort_state xs rss vs \<Longrightarrow> length xs = length (concat rss) + length vs"
  using stable_perm_length by (fastforce simp: sort_state_def)

lemma tim_sort_loop_ok:
  assumes "sort_state xs rss vs" "stack_ready rss" "set xs \<subseteq> S" "length xs < 2 ^ 64"
  shows "\<exists>m. tim_sort_loop c (concat rss @ vs @ ws) (length xs) minrun
      (runs_of 0 rss) (length (concat rss)) = Inr (m @ ws) \<and> sorted_cmp c m \<and> stable_perm c xs m"
  using assms(1,2)
proof (induction "length vs" arbitrary: rss vs rule: less_induct)
  case less
  let ?loop = "\<lambda>rss vs. tim_sort_loop c (concat rss @ vs @ ws) (length xs) minrun
      (runs_of 0 rss) (length (concat rss))"
  have checked: "\<exists>m. ?loop rss1 vs = Inr (m @ ws) \<and> sorted_cmp c m \<and> stable_perm c xs m"
    if st: "sort_state xs rss1 vs" and f: "falling (lens rss1)" for rss1
  proof -
    have so: "runs_sorted c rss1" "vs \<noteq> []" using st by (auto simp: sort_state_def)
    note len = sort_state_len [OF st]
    have "length (concat rss1) < 2 ^ 64" using len assms(4) by linarith
    from stack_bound [OF f so(1) this] have b: "length rss1 < TIM_SORT_STACK_SIZE" .
    note ch = falling_checked [OF f]
    from push_next_ok [OF so(1) sort_state_set [OF st assms(3)] so(2) b len, of ws minrun]
    show ?thesis
    proof (elim disjE exE conjE, goal_cases)
      case (1 m)
      then show ?case using ch st stable_perm_trans
        by (intro exI [of _ m]) (subst tim_sort_loop.simps, auto simp: sort_state_def)
    next
      case (2 r)
      note st' = sort_state_push [OF st assms(3) 2(2,4,5)]
      have "stack_ready (rss1 @ [r])" using f by (simp add: stack_ready_def lens_def)
      moreover have "length (drop (length r) vs) < length vs" using 2(3) so(2) by (cases vs) auto
      ultimately obtain m where
        "?loop (rss1 @ [r]) (drop (length r) vs) = Inr (m @ ws)" "sorted_cmp c m" "stable_perm c xs m"
        using less.hyps [OF _ st'] by blast
      moreover have "length (concat (rss1 @ [r])) < length xs" using len 2(4) by simp
      then have "?loop rss1 vs = ?loop (rss1 @ [r]) (drop (length r) vs)"
        using ch 2(1,3) by (subst tim_sort_loop.simps) simp
      ultimately show ?case by simp
    qed
  qed
  show ?case
  proof (cases "check_invariant (runs_of 0 rss)")
    case True
    then show ?thesis using checked [OF less.prems(1) ready_checked [OF less.prems(2)]] by blast
  next
    case False
    have so: "runs_sorted c rss" "set (concat rss) \<subseteq> S"
      using less.prems(1) sort_state_set [OF less.prems(1) assms(3)] by (auto simp: sort_state_def)
    from collapse_ok [OF so ready_drop [OF less.prems(2)], of "vs @ ws" "length xs"] False
    obtain rss' where r': "tim_sort_collapse c (concat rss @ vs @ ws) (runs_of 0 rss) (length xs) =
        Inr (concat rss' @ vs @ ws, runs_of 0 rss')" "runs_to rss rss'" "falling (lens rss')"
      "length rss' < length rss" by auto
    have perm: "stable_perm c (concat rss) (concat rss')" using r'(2) by (simp add: runs_to_def)
    have "stable_perm c (concat rss @ vs) (concat rss' @ vs)"
      using sort_state_set [OF less.prems(1) assms(3)]
      by (intro stable_perm_append perm stable_perm_refl) auto
    then have st': "sort_state xs rss' vs"
      using less.prems(1) r'(2) stable_perm_trans by (auto simp: sort_state_def runs_to_def)
    have "?loop rss vs = ?loop rss' vs"
      using False r'(1,4) stable_perm_length [OF perm] by (subst tim_sort_loop.simps) simp
    then show ?thesis using checked [OF st' r'(3)] by simp
  qed
qed

lemma push_first_ok:
  assumes "sort_state xs rss vs" "length rss + m \<le> 3" "set xs \<subseteq> S" "length xs < 2 ^ 64"
  shows "\<exists>z. push_first c m (concat rss @ vs @ ws) (length xs) minrun
      (runs_of 0 rss) (length (concat rss)) = Inr (z @ ws) \<and> sorted_cmp c z \<and> stable_perm c xs z"
  using assms(1,2)
proof (induction m arbitrary: rss vs)
  case 0
  then show ?case using tim_sort_loop_ok [OF 0(1) _ assms(3,4)] by (simp add: stack_ready_def)
next
  case (Suc m)
  have so: "runs_sorted c rss" "vs \<noteq> []" using Suc.prems by (auto simp: sort_state_def)
  have "length rss < TIM_SORT_STACK_SIZE" using Suc.prems(2) by (simp add: TIM_SORT_STACK_SIZE_def)
  from push_next_ok [OF so(1) sort_state_set [OF Suc.prems(1) assms(3)] so(2) this
      sort_state_len [OF Suc.prems(1)], of ws minrun]
  show ?case
  proof (elim disjE exE conjE, goal_cases)
    case (1 z)
    then show ?case using Suc.prems stable_perm_trans
      by (intro exI [of _ z]) (auto simp: sort_state_def)
  next
    case (2 r)
    note st' = sort_state_push [OF Suc.prems(1) assms(3) 2(2,4,5)]
    from Suc.IH [OF st'] Suc.prems(2) 2(1) show ?case by simp
  qed
qed

lemma tim_sort_ok:
  assumes "set xs \<subseteq> S" "length xs < 2 ^ 64"
  shows "\<exists>zs. tim_sort c (xs @ ws) (length xs) = Inr (zs @ ws) \<and> sorted_cmp c zs \<and> stable_perm c xs zs"
proof -
  consider "length xs \<le> 1" | "1 < length xs" "length xs < 64" | "64 \<le> length xs" by linarith
  then show ?thesis
  proof cases
    case 1
    then have "sorted_cmp c xs" by (cases xs) auto
    then show ?thesis using 1 by (intro exI [of _ xs]) (simp add: tim_sort_def)
  next
    case 2
    then show ?thesis using binary_insertion_sort_ok [OF assms(1), of ws] by (simp add: tim_sort_def)
  next
    case 3
    then have "sort_state xs [] xs" by (auto simp: sort_state_def runs_sorted_def)
    from push_first_ok [OF this, of 3] assms 3 show ?thesis by (simp add: tim_sort_def)
  qed
qed

end

end
