(* ===== verification/ArraySort.thy ===== *)
theory ArraySort
  imports ArrayProps TimSort
begin

text \<open>
  Sorting and searching an array: \<open>n_array_sort_internal\<close> of \<open>n_array_sorts.c\<close> and
  \<open>n_array_bsearch_ex.c\<close>. All the sort functions of the interface end in the same
  \<open>n_array_sort_internal\<close>, which always takes the timsort.
\<close>

section \<open>Model\<close>

text \<open>The chosen comparison and whether the array is to be marked sorted.\<close>

definition autosort :: "env \<Rightarrow> tn_array \<Rightarrow> cmp_id option \<Rightarrow> (tn_array \<times> cmp_id option \<times> bool) result" where
  "autosort e a cmpf =
     (case cmpf of
        None \<Rightarrow>
          (case arr_cmp_fn a of
             None \<Rightarrow> trurl_die e ''n_array_sort: compare function is NULL'' (Inr (a, None, True))
           | Some c \<Rightarrow> Inr (a, Some c, True))
      | Some c \<Rightarrow>
          if Some c \<noteq> arr_cmp_fn a then Inr (clr_sorted a, Some c, False) else Inr (a, Some c, True))"

definition n_array_sort_internal :: "env \<Rightarrow> tn_array \<Rightarrow> cmp_id option \<Rightarrow> tn_array result" where
  "n_array_sort_internal e a cmpf =
     rbind (autosort e a cmpf) (\<lambda>(a, cmpf, mark).
       if arr_has a TN_ARRAY_AUTOSORTED \<and> n_array_is_sorted a then Inr a
       else die_if_frozen e a
         (rbind (case cmpf of
             None \<Rightarrow> if arr_items a \<le> 1 then Inr (arr_data a) else Inl Mem_Fault
           | Some c \<Rightarrow> at_offset (arr_data a) (arr_start_index a)
               (\<lambda>d. trurl_timsort_voidp_arr (call_cmp e c) d (arr_items a)))
          (\<lambda>d. let a = a\<lparr>arr_data := d\<rparr> in Inr (if mark then set_sorted a else a))))"

definition n_array_sort_ex :: "env \<Rightarrow> tn_array \<Rightarrow> cmp_id option \<Rightarrow> tn_array result" where
  "n_array_sort_ex e a cmpf = n_array_sort_internal e a cmpf"

definition n_array_qsort_ex :: "env \<Rightarrow> tn_array \<Rightarrow> cmp_id option \<Rightarrow> tn_array result" where
  "n_array_qsort_ex e a cmpf = n_array_sort_internal e a cmpf"

definition n_array_isort_ex :: "env \<Rightarrow> tn_array \<Rightarrow> cmp_id option \<Rightarrow> tn_array result" where
  "n_array_isort_ex e a cmpf = n_array_sort_internal e a cmpf"

text \<open>
  A search with no comparison of its own sorts an \<open>AUTOSORTED\<close> array first.
  \<open>search_setup\<close> is the first part of both search functions; \<open>None\<close>: they return early.
\<close>

definition search_setup :: "env \<Rightarrow> tn_array \<Rightarrow> cmp_id option \<Rightarrow> (tn_array \<times> cmp_id option) result" where
  "search_setup e a cmpf =
     (case cmpf of
        Some c \<Rightarrow> Inr (a, Some c)
      | None \<Rightarrow>
          (case arr_cmp_fn a of
             None \<Rightarrow> trurl_die e ''n_array_bsearch_ex: compare function is NULL'' (Inr (a, None))
           | Some c \<Rightarrow>
               rbind (if arr_has a TN_ARRAY_AUTOSORTED then n_array_sort_ex e a None else Inr a)
                 (\<lambda>a. Inr (a, Some c))))"

text \<open>\<open>idx\<close> goes down while the item before it is equal to the key.\<close>

fun first_equal :: "(ptr \<Rightarrow> ptr \<Rightarrow> int) \<Rightarrow> ptr list \<Rightarrow> ptr \<Rightarrow> nat \<Rightarrow> nat result" where
  "first_equal c d x 0 = Inr 0"
| "first_equal c d x (Suc i) =
     rbind (mem_read d i) (\<lambda>y. if c y x \<noteq> 0 then Inr (Suc i) else first_equal c d x i)"

definition first_index :: "(ptr \<Rightarrow> ptr \<Rightarrow> int) \<Rightarrow> ptr list \<Rightarrow> nat \<Rightarrow> ptr \<Rightarrow> int result" where
  "first_index c base n x =
     (if n = 0 then Inr (-1)
      else if n > 1
      then rbind (bsearch_voidp_arr c base n x) (\<lambda>idx.
        if idx > 0 then rbind (first_equal c base x (nat idx)) (\<lambda>i. Inr (int i)) else Inr idx)
      else rbind (mem_read base 0) (\<lambda>y. Inr (if c y x = 0 then 0 else -1)))"

definition n_array_bsearch_idx_ex :: "env \<Rightarrow> tn_array \<Rightarrow> ptr \<Rightarrow> cmp_id option \<Rightarrow> (tn_array \<times> int) result" where
  "n_array_bsearch_idx_ex e a x cmpf =
     rbind (search_setup e a cmpf) (\<lambda>(a, cmpf).
       case cmpf of None \<Rightarrow> Inr (a, -1)
       | Some k \<Rightarrow> rbind (first_index (call_cmp e k) (drop (arr_start_index a) (arr_data a)) (arr_items a) x)
           (\<lambda>idx. Inr (a, idx)))"

definition n_array_bsearch_ex :: "env \<Rightarrow> tn_array \<Rightarrow> ptr \<Rightarrow> cmp_id option \<Rightarrow> (tn_array \<times> ptr) result" where
  "n_array_bsearch_ex e a x cmpf =
     rbind (search_setup e a cmpf) (\<lambda>(a, cmpf).
       case cmpf of None \<Rightarrow> Inr (a, NULL)
       | Some k \<Rightarrow>
         let c = call_cmp e k; base = drop (arr_start_index a) (arr_data a) in
         if arr_items a = 0 then Inr (a, NULL)
         else rbind
           (if arr_items a > 1 then bsearch_voidp_arr c base (arr_items a) x
            else rbind (mem_read base 0) (\<lambda>y. Inr (if c y x = 0 then 0 else -1)))
           (\<lambda>idx. if idx < 0 then Inr (a, NULL)
             else rbind (mem_read base (nat idx)) (\<lambda>p. Inr (a, p))))"

section \<open>The default comparison\<close>

text \<open>On addresses below 2 GB the difference fits an \<open>int\<close>, and the comparison is an order.\<close>

lemma default_cmpf_small:
  assumes "a < 2 ^ 31" "b < 2 ^ 31"
  shows "trurl_default_cmpf a b = uint a - uint b"
proof -
  have u: "uint a < 2 ^ 31" "uint b < 2 ^ 31"
    using assms by (simp_all add: word_less_def)
  have "uint (a - b) = take_bit 64 (uint a - uint b)"
    by (simp add: uint_word_ariths take_bit_eq_mod)
  then have "(ucast (a - b) :: 32 word) = word_of_int (take_bit 64 (uint a - uint b))"
    by (simp only: ucast_eq)
  also have "\<dots> = word_of_int (uint a - uint b)"
    by (simp only: word_of_int_eq_iff) simp
  finally have "(ucast (a - b) :: 32 word) = word_of_int (uint a - uint b)" .
  moreover have "- (2 ^ 31) \<le> uint a - uint b" "uint a - uint b < 2 ^ 31"
    using u uint_ge_0 [of a] uint_ge_0 [of b] by linarith+
  then have "signed_take_bit 31 (uint a - uint b) = uint a - uint b"
    by (simp add: signed_take_bit_int_eq_self_iff)
  ultimately show ?thesis
    unfolding trurl_default_cmpf_def by (simp only: signed_of_int) simp
qed

interpretation default_cmp: ordering_cmp trurl_default_cmpf "{p. p < 2 ^ 31}"
  by unfold_locales (auto simp: default_cmpf_small sgn_if)


section \<open>Correctness\<close>

lemma has_data_upd [simp]: "arr_has (set_sorted a) TN_ARRAY_FROZEN = arr_has a TN_ARRAY_FROZEN"
  by (simp add: set_sorted_def arr_has_def array_flag_defs bit.conj_disj_distrib2)

lemma set_sorted_sel [simp]:
  "arr_start_index (set_sorted a) = arr_start_index a" "arr_cmp_fn (set_sorted a) = arr_cmp_fn a"
  by (simp_all add: set_sorted_def)

lemma array_rep_set_sorted [simp]: "array_rep (set_sorted a) xs = array_rep a xs"
  by (simp add: set_sorted_def array_rep_def)

lemma sorted_flags [simp]: "n_array_is_sorted (set_sorted a)" "\<not> n_array_is_sorted (clr_sorted a)"
  "n_array_is_sorted (a\<lparr>arr_data := d\<rparr>) = n_array_is_sorted a"
  by (simp_all add: n_array_is_sorted_def set_sorted_def clr_sorted_def arr_has_def array_flag_defs
      bit.conj_disj_distrib2 and.assoc)

text \<open>
  A sort that has to do its work: \<open>cmpf\<close> picks the comparison \<open>c\<close>; the array is marked
  sorted exactly when \<open>c\<close> is its own comparison.
\<close>

lemma n_array_sort_ok:
  assumes "array_rep a xs" "\<not> arr_has a TN_ARRAY_FROZEN" "pick_cmp cmpf (arr_cmp_fn a) = Some c"
    "ordering_cmp (call_cmp e c) (set xs)" "length xs < 2 ^ 64"
    "\<not> (arr_has a TN_ARRAY_AUTOSORTED \<and> n_array_is_sorted a \<and> arr_cmp_fn a = Some c)"
  shows "\<exists>a' zs. n_array_sort_internal e a cmpf = Inr a' \<and> array_rep a' zs \<and>
    sorted_cmp (call_cmp e c) zs \<and> stable_perm (call_cmp e c) xs zs \<and>
    arr_start_index a' = arr_start_index a \<and> arr_cmp_fn a' = arr_cmp_fn a \<and>
    n_array_is_sorted a' = (arr_cmp_fn a = Some c)"
proof -
  let ?own = "arr_cmp_fn a = Some c"
  let ?a = "if ?own then a else clr_sorted a"
  have au: "autosort e a cmpf = Inr (?a, Some c, ?own)"
    using assms(3) by (cases cmpf) (auto simp: autosort_def pick_cmp_def)
  have rep: "array_rep ?a xs" and fz: "\<not> arr_has ?a TN_ARRAY_FROZEN" using assms(1,2) by simp_all
  have nd: "\<not> (arr_has ?a TN_ARRAY_AUTOSORTED \<and> n_array_is_sorted ?a)"
    using assms(6) by auto
  let ?ws = "replicate (arr_allocated ?a - arr_start_index ?a - length xs) NULL"
  have d: "arr_data ?a = replicate (arr_start_index ?a) NULL @ xs @ ?ws"
    "arr_items ?a = length xs" "arr_start_index ?a + length xs \<le> arr_allocated ?a" "0 < arr_allocated ?a"
    using rep by (simp_all add: array_rep_def)
  from ordering_cmp.tim_sort_ok [OF assms(4) subset_refl assms(5), of ?ws] obtain zs where zs:
    "tim_sort (call_cmp e c) (xs @ ?ws) (length xs) = Inr (zs @ ?ws)"
    "sorted_cmp (call_cmp e c) zs" "stable_perm (call_cmp e c) xs zs" by blast
  let ?b = "?a\<lparr>arr_data := replicate (arr_start_index ?a) NULL @ zs @ ?ws\<rparr>"
  have run: "at_offset (arr_data ?a) (arr_start_index ?a)
      (\<lambda>d. trurl_timsort_voidp_arr (call_cmp e c) d (arr_items ?a)) =
    Inr (replicate (arr_start_index ?a) NULL @ zs @ ?ws)"
    unfolding d(1,2) using zs(1) by (simp add: at_offset_def trurl_timsort_voidp_arr_def)
  have "n_array_sort_internal e a cmpf = Inr (if ?own then set_sorted ?b else ?b)"
    unfolding n_array_sort_internal_def au rbind.simps prod.case
    using nd fz run by (simp only: if_False not_frozen option.case rbind.simps Let_def) simp
  moreover have "array_rep ?b zs"
    using d(2-4) stable_perm_length [OF zs(3)] by (simp add: array_rep_def)
  ultimately show ?thesis using zs(2,3)
    by (intro exI [of _ "if ?own then set_sorted ?b else ?b"] exI [of _ zs])
       auto
qed

lemma first_equal_ok:
  assumes "i < length xs"
  shows "\<exists>k \<le> i. first_equal c (xs @ ws) x i = Inr k \<and> (\<forall>j. k \<le> j \<and> j < i \<longrightarrow> c (xs ! j) x = 0) \<and>
    (0 < k \<longrightarrow> c (xs ! (k - 1)) x \<noteq> 0)"
  using assms
proof (induction i)
  case (Suc i)
  then have rd: "mem_read (xs @ ws) i = Inr (xs ! i)" by (simp add: mem_read_def nth_append)
  show ?case
  proof (cases "c (xs ! i) x = 0")
    case True
    from Suc obtain k where k: "k \<le> i" "first_equal c (xs @ ws) x i = Inr k"
      "\<forall>j. k \<le> j \<and> j < i \<longrightarrow> c (xs ! j) x = 0" "0 < k \<longrightarrow> c (xs ! (k - 1)) x \<noteq> 0" by auto
    have "\<forall>j. k \<le> j \<and> j < Suc i \<longrightarrow> c (xs ! j) x = 0" using k(3) True by (metis less_Suc_eq)
    then show ?thesis using k True rd by auto
  next
    case False
    then show ?thesis using rd by auto
  qed
qed simp

text \<open>The index search on a sorted array: the first item equal to the key, or \<open>-1\<close>.\<close>

definition is_first_index :: "(ptr \<Rightarrow> ptr \<Rightarrow> int) \<Rightarrow> ptr list \<Rightarrow> ptr \<Rightarrow> int \<Rightarrow> bool" where
  "is_first_index c xs x i \<longleftrightarrow>
     (if \<exists>y\<in>set xs. c y x = 0
      then \<exists>k < length xs. i = int k \<and> c (xs ! k) x = 0 \<and> (\<forall>j < k. c (xs ! j) x \<noteq> 0)
      else i = -1)"

lemma first_index_ok:
  assumes key: "key_in_order c xs x"
  shows "\<exists>i. first_index c (xs @ ws) (length xs) x = Inr i \<and> is_first_index c xs x i"
proof -
  consider (0) "xs = []" | (1) y where "xs = [y]" | (2) "length xs > 1"
    by (cases xs; cases "tl xs") auto
  then show ?thesis
  proof cases
    case 2
    from bsearch_ok [OF key, of ws] show ?thesis
    proof (elim disjE exE conjE, goal_cases)
      case (1 i)
      have lo: "\<forall>j < k. c (xs ! j) x \<noteq> 0" if "0 < k \<longrightarrow> c (xs ! (k - 1)) x \<noteq> 0" "k \<le> i" for k
      proof (intro allI impI)
        fix j assume "j < k"
        then have k1: "j \<le> k - 1" "k - 1 \<le> i" "k - 1 < length xs" using that(2) 1(1) by linarith+
        have "sgn (c (xs ! (k - 1)) x) \<le> 0" using key_in_orderD [OF key k1(2) 1(1)] 1(3) by simp
        then have "c (xs ! (k - 1)) x < 0"
          using that(1) \<open>j < k\<close> by (auto simp: sgn_if split: if_splits)
        with key_in_orderD [OF key k1(1,3)] show "c (xs ! j) x \<noteq> 0" by (auto simp: sgn_if split: if_splits)
      qed
      have ex: "\<exists>y\<in>set xs. c y x = 0" using 1(1,3) nth_mem by blast
      from first_equal_ok [OF 1(1), of c ws x] obtain k where k: "k \<le> i"
        "first_equal c (xs @ ws) x i = Inr k" "\<forall>j. k \<le> j \<and> j < i \<longrightarrow> c (xs ! j) x = 0"
        "0 < k \<longrightarrow> c (xs ! (k - 1)) x \<noteq> 0" by blast
      have "first_index c (xs @ ws) (length xs) x = Inr (int k)"
        using 1(1,2) k(1,2) 2 by (cases "i = 0") (auto simp: first_index_def)
      moreover have "c (xs ! k) x = 0" using k(1,3) 1(3) by (cases "k = i") auto
      moreover have "k < length xs" using k(1) 1(1) by simp
      ultimately show ?case using lo [OF k(4,1)] ex by (auto simp: is_first_index_def)
    next
      case 2
      then show ?case using \<open>length xs > 1\<close> by (auto simp: first_index_def is_first_index_def)
    qed
  qed (auto simp: mem_read_def first_index_def is_first_index_def)
qed

lemma bsearch_idx_ok:
  assumes rep: "array_rep a xs" and key: "key_in_order (call_cmp e c) xs x"
    and su: "search_setup e a0 cmpf = Inr (a, Some c)"
  shows "\<exists>i. n_array_bsearch_idx_ex e a0 x cmpf = Inr (a, i) \<and> is_first_index (call_cmp e c) xs x i"
proof -
  let ?ws = "replicate (arr_allocated a - arr_start_index a - length xs) NULL"
  have base: "drop (arr_start_index a) (arr_data a) = xs @ ?ws" and it: "arr_items a = length xs"
    using rep by (simp_all add: array_rep_def)
  from first_index_ok [OF key, of ?ws] show ?thesis
    by (auto simp: n_array_bsearch_idx_ex_def su base it)
qed

text \<open>The pointer search: some item equal to the key, or \<open>NULL\<close>.\<close>

lemma bsearch_ex_ok:
  assumes rep: "array_rep a xs" and key: "key_in_order (call_cmp e c) xs x"
    and su: "search_setup e a0 cmpf = Inr (a, Some c)"
  shows "\<exists>p. n_array_bsearch_ex e a0 x cmpf = Inr (a, p) \<and>
    (if \<exists>y\<in>set xs. call_cmp e c y x = 0 then p \<in> set xs \<and> call_cmp e c p x = 0 else p = NULL)"
proof -
  let ?c = "call_cmp e c"
  let ?ws = "replicate (arr_allocated a - arr_start_index a - length xs) NULL"
  have base: "drop (arr_start_index a) (arr_data a) = xs @ ?ws" and it: "arr_items a = length xs"
    using rep by (simp_all add: array_rep_def)
  have go: "n_array_bsearch_ex e a0 x cmpf =
      (if length xs = 0 then Inr (a, NULL)
       else rbind
         (if length xs > 1 then bsearch_voidp_arr ?c (xs @ ?ws) (length xs) x
          else rbind (mem_read (xs @ ?ws) 0) (\<lambda>y. Inr (if ?c y x = 0 then 0 else -1)))
         (\<lambda>idx. if idx < 0 then Inr (a, NULL)
           else rbind (mem_read (xs @ ?ws) (nat idx)) (\<lambda>p. Inr (a, p))))"
    unfolding n_array_bsearch_ex_def su rbind.simps prod.case option.case Let_def base it by (rule refl)
  consider (0) "xs = []" | (1) y where "xs = [y]" | (2) "length xs > 1"
    by (cases xs; cases "tl xs") auto
  then show ?thesis
  proof cases
    case 2
    from bsearch_ok [OF key, of ?ws] show ?thesis
    proof (elim disjE exE conjE, goal_cases)
      case (1 i)
      have "n_array_bsearch_ex e a0 x cmpf = Inr (a, xs ! i)"
        using go 1(1,2) 2 by (auto simp: mem_read_def nth_append)
      then show ?case using 1(1,3) nth_mem by fastforce
    next
      case 2
      then show ?case using go \<open>length xs > 1\<close> by auto
    qed
  qed (use go in \<open>auto simp: mem_read_def\<close>)
qed


section \<open>Properties\<close>

text \<open>C12: Sorting an array with a comparison that orders its items (any of the three sort
  functions of the interface): the sort returns, the items come out in order, equal items keep
  their order, and the array is marked sorted exactly when the comparison is its own.\<close>

theorem n_array_sort_sorts:
  assumes "array_rep a xs" "\<not> arr_has a TN_ARRAY_FROZEN" "pick_cmp cmpf (arr_cmp_fn a) = Some c"
    "ordering_cmp (call_cmp e c) (set xs)" "length xs < 2 ^ 64"
    "\<not> (arr_has a TN_ARRAY_AUTOSORTED \<and> n_array_is_sorted a \<and> arr_cmp_fn a = Some c)"
  shows "\<exists>a' zs. n_array_sort_ex e a cmpf = Inr a' \<and> n_array_qsort_ex e a cmpf = Inr a' \<and>
    n_array_isort_ex e a cmpf = Inr a' \<and> array_rep a' zs \<and>
    sorted_cmp (call_cmp e c) zs \<and> stable_perm (call_cmp e c) xs zs \<and>
    n_array_is_sorted a' = (arr_cmp_fn a = Some c)"
  using n_array_sort_ok [OF assms]
  by (auto simp: n_array_sort_ex_def n_array_qsort_ex_def n_array_isort_ex_def)

definition unsorted_array :: tn_array where
  "unsorted_array = \<lparr>arr_refcnt = 0, arr_flags = TN_ARRAY_AUTOSORTED, arr_items = 3,
     arr_allocated = 4, arr_start_index = 0, arr_data = [3, 1, 2, 0], arr_free_fn = None,
     arr_cmp_fn = Some Cmp_Default, arr_freed = []\<rparr>"

lemma unsorted_array_facts:
  "array_rep unsorted_array [3, 1, 2]" "\<not> arr_has unsorted_array TN_ARRAY_FROZEN"
  "pick_cmp None (arr_cmp_fn unsorted_array) = Some Cmp_Default"
  "arr_cmp_fn unsorted_array = Some Cmp_Default" "\<not> n_array_is_sorted unsorted_array"
  "arr_has unsorted_array TN_ARRAY_AUTOSORTED"
  by (simp_all add: unsorted_array_def array_rep_def arr_has_def array_flag_defs pick_cmp_def
      n_array_is_sorted_def)

lemma small_order: "set xs \<subseteq> {p. p < 2 ^ 31} \<Longrightarrow> ordering_cmp (call_cmp e Cmp_Default) (set xs)"
  using ordering_cmp_subset [OF default_cmp.ordering_cmp_axioms] by simp

lemma sorted_123:
  assumes "sorted_cmp (call_cmp e Cmp_Default) zs" "stable_perm (call_cmp e Cmp_Default) [3, 1, 2] zs"
  shows "zs = [1, 2, 3 :: ptr]"
proof -
  have "stable_perm (call_cmp e Cmp_Default) [3, 1, 2] [1, 2, 3]"
    by (simp add: stable_perm_def default_cmpf_small add_mset_commute)
  then have "stable_perm trurl_default_cmpf [1, 2, 3] zs"
    using assms(2) stable_perm_trans [OF stable_perm_sym] by simp
  moreover have "sorted_cmp trurl_default_cmpf [1, 2, 3]"
    by (simp add: sorted_cmp_Cons default_cmpf_small)
  ultimately show ?thesis
    using default_cmp.sorted_stable_unique [of "[1, 2, 3]" zs] assms(1) by simp
qed

lemma n_array_sort_sorts_witness:
  "\<exists>a. n_array_sort_ex plain_env unsorted_array None = Inr a \<and> array_rep a [1, 2, 3] \<and> n_array_is_sorted a"
proof -
  have "ordering_cmp (call_cmp plain_env Cmp_Default) (set [3, 1, 2])" by (rule small_order) simp
  from n_array_sort_sorts [OF unsorted_array_facts(1-3) this] unsorted_array_facts(4,5) sorted_123
  show ?thesis by auto
qed



text \<open>C16: The quick sort terminates, reads and writes only the part it is given and permutes
  it, even when the comparison is not an order; when it is one, the part is sorted.\<close>

theorem qsort_any_comparison:
  assumes "length xs < 2 ^ 32"
  shows "\<exists>zs. trurl_qsort_voidp_arr c (xs @ ws) (length xs) = Inr (zs @ ws) \<and> mset zs = mset xs \<and>
    (ordering_cmp c (set xs) \<longrightarrow> sorted_cmp c zs)"
  by (rule qsort_ok)

lemma qsort_any_comparison_witness:
  "\<exists>zs. trurl_qsort_voidp_arr trurl_default_cmpf [9, 4, 6, 7] 3 = Inr (zs @ [7]) \<and>
     mset zs = {#4, 6, 9#} \<and> sorted_cmp trurl_default_cmpf zs"
proof -
  have "ordering_cmp trurl_default_cmpf (set [9, 4, 6])"
    by (rule ordering_cmp_subset [OF default_cmp.ordering_cmp_axioms]) simp
  with qsort_any_comparison [of "[9, 4, 6]" trurl_default_cmpf "[7]"]
  show ?thesis by (auto simp: numeral_3_eq_3 simp del: trurl_qsort_voidp_arr.simps)
qed

text \<open>C13: With a comparison that orders the items, the tim sort gives exactly the array that
  the insertion sort gives: both return, in bounds, and a stable sort has only one result.\<close>

theorem timsort_is_isort:
  assumes "ordering_cmp c (set xs)" "length xs < 2 ^ 64"
  shows "\<exists>zs. trurl_timsort_voidp_arr c (xs @ ws) (length xs) = Inr (zs @ ws) \<and>
    trurl_isort_voidp_arr c (xs @ ws) (length xs) = Inr (zs @ ws) \<and>
    sorted_cmp c zs \<and> stable_perm c xs zs"
proof -
  obtain ts where t: "tim_sort c (xs @ ws) (length xs) = Inr (ts @ ws)" "sorted_cmp c ts"
    "stable_perm c xs ts" using ordering_cmp.tim_sort_ok [OF assms(1) subset_refl assms(2)] by blast
  obtain us where u: "trurl_isort_voidp_arr c (xs @ ws) (length xs) = Inr (us @ ws)" "sorted_cmp c us"
    "stable_perm c xs us" using ordering_cmp.isort_ok [OF assms(1) subset_refl] by blast
  have "set ts = set xs" by (rule stable_perm_set [OF t(3)])
  moreover have "stable_perm c ts us"
    using stable_perm_sym [OF t(3)] u(3) by (blast intro: stable_perm_trans)
  ultimately have "ts = us"
    using ordering_cmp.sorted_stable_unique [OF assms(1)] t(2) u(2) by blast
  with t u show ?thesis by (auto simp: trurl_timsort_voidp_arr_def)
qed

lemma timsort_is_isort_witness:
  "\<exists>zs. trurl_timsort_voidp_arr trurl_default_cmpf [9, 4, 6] 3 = Inr zs \<and>
     trurl_isort_voidp_arr trurl_default_cmpf [9, 4, 6] 3 = Inr zs \<and> mset zs = mset [9, 4, 6]"
proof -
  have "ordering_cmp trurl_default_cmpf (set [9, 4, 6])"
    by (rule ordering_cmp_subset [OF default_cmp.ordering_cmp_axioms]) simp
  from timsort_is_isort [OF this, of "[]"]
  show ?thesis by (auto simp: numeral_3_eq_3 stable_perm_def)
qed

end
