(* ===== verification/Hash.thy ===== *)
theory Hash
  imports Arrays Interfaces
begin

text \<open>
  The chained hash table \<open>tn_hash\<close> (\<open>nhash.h\<close>, \<open>n_hash_int.h\<close> and the \<open>n_hash_*.c\<close> files).

  A key is a C string: its bytes without the final NUL, none of them zero; \<open>klen\<close>, an
  argument of most functions, is \<open>strlen(key)\<close>. A collision chain is the list of its
  buckets, first one first. \<open>hs_na\<close>: the table has an allocator of its own.
  \<open>hs_freed\<close> is the trace of \<open>free_fn\<close>. Hash values are 32-bit words.
\<close>

type_synonym bytes = "8 word list"

section \<open>Hash values\<close>

definition murmur_32_scramble :: "32 word \<Rightarrow> 32 word" where
  "murmur_32_scramble k0 =
     (let k = k0 * 0xcc9e2d51;
          k = push_bit 15 k OR drop_bit 17 k
      in k * 0x1b873593)"

text \<open>Four bytes read as a little-endian word.\<close>

definition read_le32 :: "8 word \<Rightarrow> 8 word \<Rightarrow> 8 word \<Rightarrow> 8 word \<Rightarrow> 32 word" where
  "read_le32 b0 b1 b2 b3 =
     ucast b0 OR push_bit 8 (ucast b1) OR push_bit 16 (ucast b2) OR push_bit 24 (ucast b3)"

fun murmur_tail :: "bytes \<Rightarrow> 32 word" where
  "murmur_tail [] = 0"
| "murmur_tail (b # bs) = push_bit 8 (murmur_tail bs) OR ucast b"

fun murmur_body :: "32 word \<Rightarrow> bytes \<Rightarrow> 32 word" where
  "murmur_body h (b0 # b1 # b2 # b3 # bs) =
     (let h = h XOR murmur_32_scramble (read_le32 b0 b1 b2 b3);
          h = push_bit 13 h OR drop_bit 19 h
      in murmur_body (h * 5 + 0xe6546b64) bs)"
| "murmur_body h bs = h XOR murmur_32_scramble (murmur_tail bs)"

definition murmur3_hash :: "bytes \<Rightarrow> 32 word" where
  "murmur3_hash key =
     (let len = word_of_nat (length key);
          h = murmur_body (5381 XOR len) key;
          h = h XOR len;
          h = h XOR drop_bit 16 h;
          h = h * 0x85ebca6b;
          h = h XOR drop_bit 13 h;
          h = h * 0xc2b2ae35
      in h XOR drop_bit 16 h)"

section \<open>State\<close>

record hash_bucket =
  hb_data :: ptr
  hb_key :: bytes
  hb_klen :: "16 word"

record tn_hash =
  hs_refcnt :: "16 word"
  hs_flags :: "16 word"
  hs_size :: nat
  hs_table :: "hash_bucket list list"
  hs_items :: nat
  hs_free_fn :: "nat option"
  hs_na :: bool
  hs_freed :: "ptr list"

definition TN_HASH_NOCPKEY :: "16 word" where "TN_HASH_NOCPKEY = 2"
definition TN_HASH_REHASH :: "16 word" where "TN_HASH_REHASH = 4"
definition TN_HASH_NOREPLACE :: "16 word" where "TN_HASH_NOREPLACE = 8"

definition hs_has :: "tn_hash \<Rightarrow> 16 word \<Rightarrow> bool" where
  "hs_has ht f = (hs_flags ht AND f \<noteq> 0)"

definition hs_free :: "tn_hash \<Rightarrow> ptr \<Rightarrow> tn_hash" where
  "hs_free ht p =
     (if p \<noteq> NULL \<and> hs_free_fn ht \<noteq> None then ht\<lparr>hs_freed := hs_freed ht @ [p]\<rparr> else ht)"

definition n_hash_compute_index_hash :: "tn_hash \<Rightarrow> 32 word \<Rightarrow> 32 word" where
  "n_hash_compute_index_hash ht raw = raw AND (word_of_nat (hs_size ht) - 1)"

definition n_hash_compute_raw_hash :: "env \<Rightarrow> bytes \<Rightarrow> 32 word result" where
  "n_hash_compute_raw_hash e key = n_assert e (length key > 0) (Inr (murmur3_hash key))"

definition n_hash_compute_hash :: "env \<Rightarrow> tn_hash \<Rightarrow> bytes \<Rightarrow> 32 word result" where
  "n_hash_compute_hash e ht key =
     n_assert e (length key > 0) (Inr (murmur3_hash key AND (word_of_nat (hs_size ht) - 1)))"

definition n_hash_compute_hash_len :: "env \<Rightarrow> tn_hash \<Rightarrow> bytes \<Rightarrow> (32 word \<times> nat) result" where
  "n_hash_compute_hash_len e ht s =
     (let len = length s in rbind (n_hash_compute_hash e ht s) (\<lambda>h. Inr (h, len)))"

section \<open>Construction\<close>

text \<open>The size is a \<open>size_t\<close> that is cut to the 32 bits of the struct's field.\<close>

definition do_n_hash_new_ex :: "bool \<Rightarrow> nat \<Rightarrow> nat option \<Rightarrow> tn_hash" where
  "do_n_hash_new_ex na n freefn =
     \<lparr>hs_refcnt = 0, hs_flags = 0, hs_size = n mod 2 ^ 32, hs_table = replicate n [],
      hs_items = 0, hs_free_fn = freefn, hs_na = na, hs_freed = []\<rparr>"

function rsize_loop :: "nat \<Rightarrow> nat \<Rightarrow> nat" where
  "rsize_loop rsize n = (if 0 < rsize \<and> rsize < n then rsize_loop (2 * rsize) n else rsize)"
  by pat_completeness auto
termination by (relation "measure (\<lambda>(r, n). n - r)") auto

declare rsize_loop.simps [simp del]

definition n_hash_new2 :: "bool \<Rightarrow> nat \<Rightarrow> nat option \<Rightarrow> tn_hash" where
  "n_hash_new2 na n freefn = do_n_hash_new_ex na (rsize_loop 4 n) freefn"

text \<open>A hash function given by the caller is not used: it only switches the rounding off.\<close>

definition n_hash_new_ex :: "nat \<Rightarrow> nat option \<Rightarrow> bool \<Rightarrow> tn_hash" where
  "n_hash_new_ex n freefn has_hashfn =
     (if \<not> has_hashfn then n_hash_new2 False n freefn else do_n_hash_new_ex False n freefn)"

definition n_hash_new_na :: "nat \<Rightarrow> nat option \<Rightarrow> tn_hash" where
  "n_hash_new_na n freefn = n_hash_new2 True n freefn"

definition n_hash_size :: "tn_hash \<Rightarrow> nat" where
  "n_hash_size ht = hs_items ht"

definition n_hash_ctl :: "env \<Rightarrow> tn_hash \<Rightarrow> 16 word \<Rightarrow> (tn_hash \<times> int) result" where
  "n_hash_ctl e ht flags =
     (if hs_items ht > 0 then trurl_die e ''n_hash_ctl: hash table not empty'' (Inr (ht, 0))
      else Inr (ht\<lparr>hs_flags := hs_flags ht OR flags\<rparr>, 1))"

section \<open>Looking up\<close>

text \<open>The second slots of a key are \<open>shift\<close> above and below its first one; \<open>char\<close> is signed.\<close>

definition n_hash_nextslotv :: "bytes \<Rightarrow> 32 word result" where
  "n_hash_nextslotv key =
     (if key = [] then Inl Mem_Fault
      else Inr (word_of_nat (length key) + word_of_int (sint (last key))))"

definition tbl_slot :: "tn_hash \<Rightarrow> 32 word \<Rightarrow> hash_bucket list result" where
  "tbl_slot ht khash = mem_read (hs_table ht) (unat khash)"

definition in_table :: "tn_hash \<Rightarrow> 32 word \<Rightarrow> bool" where
  "in_table ht khash = (unat khash < hs_size ht)"

definition key_eq :: "bytes \<Rightarrow> hash_bucket \<Rightarrow> bool" where
  "key_eq key b = (word_of_nat (length key) = hb_klen b \<and> length key < 65536 \<and> key = hb_key b)"

definition get_bucket_ll :: "bytes \<Rightarrow> hash_bucket list \<Rightarrow> hash_bucket option" where
  "get_bucket_ll key chain = find (key_eq key) chain"

definition n_hash_get_bucket :: "env \<Rightarrow> tn_hash \<Rightarrow> bytes \<Rightarrow> 32 word \<Rightarrow> (hash_bucket option) result" where
  "n_hash_get_bucket e ht key khash =
     n_assert e (length key > 0) (n_assert e (length key < 65535)
      (rbind (tbl_slot ht khash) (\<lambda>chain.
        case get_bucket_ll key chain of Some b \<Rightarrow> Inr (Some b)
        | None \<Rightarrow>
          rbind (n_hash_nextslotv key) (\<lambda>shift.
           let nexthash = khash + shift in
           rbind (if in_table ht nexthash
                  then rbind (tbl_slot ht nexthash) (\<lambda>chain. Inr (get_bucket_ll key chain))
                  else Inr None) (\<lambda>found.
             case found of Some b \<Rightarrow> Inr (Some b)
             | None \<Rightarrow>
               if khash > shift
               then rbind (tbl_slot ht (khash - shift)) (\<lambda>chain. Inr (get_bucket_ll key chain))
               else Inr None)))))"

definition n_hash_hget :: "env \<Rightarrow> tn_hash \<Rightarrow> bytes \<Rightarrow> 32 word \<Rightarrow> ptr result" where
  "n_hash_hget e ht key khash =
     rbind (n_hash_get_bucket e ht key khash)
      (\<lambda>b. Inr (case b of None \<Rightarrow> NULL | Some b \<Rightarrow> hb_data b))"

definition n_hash_get_ex :: "env \<Rightarrow> tn_hash \<Rightarrow> bytes \<Rightarrow> (ptr \<times> nat \<times> 32 word) result" where
  "n_hash_get_ex e ht key =
     rbind (n_hash_compute_hash e ht key) (\<lambda>khash.
       rbind (n_hash_hget e ht key khash) (\<lambda>p. Inr (p, length key, khash)))"

definition n_hash_get :: "env \<Rightarrow> tn_hash \<Rightarrow> bytes \<Rightarrow> ptr result" where
  "n_hash_get e ht key = rbind (n_hash_get_ex e ht key) (\<lambda>(p, _). Inr p)"

definition n_hash_hexists :: "env \<Rightarrow> tn_hash \<Rightarrow> bytes \<Rightarrow> 32 word \<Rightarrow> bool result" where
  "n_hash_hexists e ht key khash =
     rbind (n_hash_get_bucket e ht key khash) (\<lambda>b. Inr (b \<noteq> None))"

definition n_hash_exists_ex :: "env \<Rightarrow> tn_hash \<Rightarrow> bytes \<Rightarrow> (bool \<times> nat \<times> 32 word) result" where
  "n_hash_exists_ex e ht key =
     rbind (n_hash_compute_hash e ht key) (\<lambda>khash.
       rbind (n_hash_hexists e ht key khash) (\<lambda>b. Inr (b, length key, khash)))"

definition n_hash_exists :: "env \<Rightarrow> tn_hash \<Rightarrow> bytes \<Rightarrow> bool result" where
  "n_hash_exists e ht key = rbind (n_hash_exists_ex e ht key) (\<lambda>(b, _). Inr b)"

section \<open>Inserting\<close>

definition slot_write :: "tn_hash \<Rightarrow> 32 word \<Rightarrow> hash_bucket list \<Rightarrow> tn_hash result" where
  "slot_write ht khash chain =
     rbind (mem_write (hs_table ht) (unat khash) chain) (\<lambda>t. Inr (ht\<lparr>hs_table := t\<rparr>))"

definition n_hash_put_node :: "env \<Rightarrow> tn_hash \<Rightarrow> hash_bucket \<Rightarrow> tn_hash result" where
  "n_hash_put_node e ht node =
     n_assert e (hb_klen node > 0)
      (rbind (n_hash_compute_hash e ht (hb_key node)) (\<lambda>khash.
       rbind (tbl_slot ht khash) (\<lambda>chain.
        if \<exists>b\<in>set chain. hb_klen node = hb_klen b \<and> hb_key node = hb_key b
        then trurl_die e ''n_hash_put_node: key already in table'' (Inr ht)
        else rbind (slot_write ht khash (node # chain))
          (\<lambda>ht. Inr (ht\<lparr>hs_items := hs_items ht + 1\<rparr>)))))"

fun put_nodes :: "env \<Rightarrow> tn_hash \<Rightarrow> hash_bucket list \<Rightarrow> tn_hash result" where
  "put_nodes e ht [] = Inr ht"
| "put_nodes e ht (b # bs) = rbind (n_hash_put_node e ht b) (\<lambda>ht. put_nodes e ht bs)"

text \<open>All buckets slot after slot, the order of every walk over the table.\<close>

definition hash_walk :: "tn_hash \<Rightarrow> hash_bucket list" where
  "hash_walk ht = concat (take (hs_size ht) (hs_table ht))"

definition n_hash_rehash :: "env \<Rightarrow> tn_hash \<Rightarrow> tn_hash result" where
  "n_hash_rehash e ht =
     (let newsize = (4 * hs_size ht) mod 2 ^ 32 in
      put_nodes e (ht\<lparr>hs_table := replicate newsize [], hs_size := newsize, hs_items := 0\<rparr>)
        (hash_walk ht))"

definition new_bucket :: "env \<Rightarrow> bytes \<Rightarrow> ptr \<Rightarrow> hash_bucket result" where
  "new_bucket e key data =
     n_assert e (length key > 0)
      (Inr \<lparr>hb_data = data, hb_key = key, hb_klen = word_of_nat (length key)\<rparr>)"

definition find_free_slot :: "tn_hash \<Rightarrow> bytes \<Rightarrow> 32 word \<Rightarrow> 32 word result" where
  "find_free_slot ht key khash =
     rbind (n_hash_nextslotv key) (\<lambda>shift.
       let nexthash = khash + shift in
       rbind (if in_table ht nexthash
              then rbind (tbl_slot ht nexthash) (\<lambda>chain. Inr (chain = [])) else Inr False)
         (\<lambda>free. if free then Inr nexthash
           else if khash > shift
           then rbind (tbl_slot ht (khash - shift))
             (\<lambda>chain. Inr (if chain = [] then khash - shift else khash))
           else Inr khash))"

text \<open>The data of the bucket with the key, in the slot that holds it, is replaced.\<close>

fun set_bucket_data :: "bytes \<Rightarrow> ptr \<Rightarrow> hash_bucket list \<Rightarrow> hash_bucket list" where
  "set_bucket_data key data [] = []"
| "set_bucket_data key data (b # bs) =
     (if key_eq key b then b\<lparr>hb_data := data\<rparr> # bs else b # set_bucket_data key data bs)"

definition holding_slot :: "tn_hash \<Rightarrow> bytes \<Rightarrow> 32 word \<Rightarrow> 32 word result" where
  "holding_slot ht key khash =
     rbind (tbl_slot ht khash) (\<lambda>chain.
       if get_bucket_ll key chain \<noteq> None then Inr khash
       else rbind (n_hash_nextslotv key) (\<lambda>shift.
         rbind (if in_table ht (khash + shift)
                then rbind (tbl_slot ht (khash + shift)) (\<lambda>chain. Inr (get_bucket_ll key chain \<noteq> None))
                else Inr False)
           (\<lambda>up. Inr (if up then khash + shift else khash - shift))))"

definition n_hash_put ::
    "env \<Rightarrow> tn_hash \<Rightarrow> bytes \<Rightarrow> 32 word \<Rightarrow> ptr \<Rightarrow> bool \<Rightarrow> (tn_hash \<times> bool) result" where
  "n_hash_put e ht key khash data replace =
     n_assert e (length key > 0) (n_assert e (length key < 65535)
      (rbind
        (if hs_has ht TN_HASH_REHASH \<and>
            (hs_size ht + 2 ^ 32 - hs_items ht mod 2 ^ 32) mod 2 ^ 32 \<le> hs_size ht div 3
         then rbind (n_hash_rehash e ht) (\<lambda>ht. Inr (ht, 0)) else Inr (ht, khash))
        (\<lambda>(ht, khash). rbind (if khash = 0 then n_hash_compute_hash e ht key else Inr khash)
          (\<lambda>khash. rbind
            (if hs_has ht TN_HASH_NOREPLACE then Inr None else n_hash_get_bucket e ht key khash)
            (\<lambda>old. case old of
               Some b \<Rightarrow>
                 if \<not> replace
                 then trurl_die e ''n_hash_insert: key already in table'' (Inr (ht, False))
                 else rbind (holding_slot ht key khash) (\<lambda>slot.
                   rbind (tbl_slot ht slot) (\<lambda>chain.
                     rbind (slot_write (hs_free ht (hb_data b)) slot (set_bucket_data key data chain))
                       (\<lambda>ht. Inr (ht, True))))
             | None \<Rightarrow>
                 rbind (tbl_slot ht khash) (\<lambda>chain.
                  if chain = []
                  then rbind (new_bucket e key data) (\<lambda>b.
                    rbind (slot_write ht khash [b])
                      (\<lambda>ht. Inr (ht\<lparr>hs_items := hs_items ht + 1\<rparr>, True)))
                  else rbind (find_free_slot ht key khash) (\<lambda>khash.
                    rbind (tbl_slot ht khash) (\<lambda>chain.
                      (if \<exists>b\<in>set chain. hb_key b = key
                       then trurl_die e ''n_hash_insert: key already in table'' else id)
                      (rbind (new_bucket e key data) (\<lambda>b.
                        rbind (slot_write ht khash (b # chain))
                          (\<lambda>ht. Inr (ht\<lparr>hs_items := hs_items ht + 1\<rparr>, True))))))))))))"

definition n_hash_hinsert :: "env \<Rightarrow> tn_hash \<Rightarrow> bytes \<Rightarrow> 32 word \<Rightarrow> ptr \<Rightarrow> (tn_hash \<times> bool) result" where
  "n_hash_hinsert e ht key khash data = n_hash_put e ht key khash data False"

definition n_hash_insert_ex :: "env \<Rightarrow> tn_hash \<Rightarrow> bytes \<Rightarrow> 32 word \<Rightarrow> ptr \<Rightarrow> (tn_hash \<times> bool) result" where
  "n_hash_insert_ex e ht key khash data = n_hash_hinsert e ht key khash data"

definition n_hash_insert :: "env \<Rightarrow> tn_hash \<Rightarrow> bytes \<Rightarrow> ptr \<Rightarrow> (tn_hash \<times> bool) result" where
  "n_hash_insert e ht key data = n_hash_put e ht key 0 data False"

definition n_hash_hreplace :: "env \<Rightarrow> tn_hash \<Rightarrow> bytes \<Rightarrow> 32 word \<Rightarrow> ptr \<Rightarrow> (tn_hash \<times> bool) result" where
  "n_hash_hreplace e ht key khash data =
     (if hs_has ht TN_HASH_NOREPLACE
      then trurl_die e ''n_hash_replace: replace requested for non-replace hash table'' (Inr (ht, False))
      else n_hash_put e ht key khash data True)"

definition n_hash_replace :: "env \<Rightarrow> tn_hash \<Rightarrow> bytes \<Rightarrow> ptr \<Rightarrow> (tn_hash \<times> bool) result" where
  "n_hash_replace e ht key data = n_hash_hreplace e ht key 0 data"

section \<open>Removing\<close>

text \<open>
  The bucket of the key leaves its chain and is given to \<open>free\<close>: a bucket that came
  from the table's own allocator must not be, which is a fault.
\<close>

fun unlink_bucket :: "bytes \<Rightarrow> hash_bucket list \<Rightarrow> (hash_bucket \<times> hash_bucket list) option" where
  "unlink_bucket key [] = None"
| "unlink_bucket key (b # bs) =
     (if key = hb_key b then Some (b, bs)
      else case unlink_bucket key bs of None \<Rightarrow> None | Some (x, bs) \<Rightarrow> Some (x, b # bs))"

definition remove_bucket_ll :: "tn_hash \<Rightarrow> bytes \<Rightarrow> 32 word \<Rightarrow> ((tn_hash \<times> ptr) option) result" where
  "remove_bucket_ll ht key val =
     rbind (tbl_slot ht val) (\<lambda>chain.
       case unlink_bucket key chain of None \<Rightarrow> Inr None
       | Some (b, chain) \<Rightarrow>
           rbind (slot_write ht val chain) (\<lambda>ht.
             if hs_na ht then Inl Mem_Fault
             else Inr (Some (ht\<lparr>hs_items := hs_items ht - 1\<rparr>, hb_data b))))"

definition n_hash_remove :: "env \<Rightarrow> tn_hash \<Rightarrow> bytes \<Rightarrow> (tn_hash \<times> ptr) result" where
  "n_hash_remove e ht key =
     rbind (n_hash_compute_hash e ht key) (\<lambda>khash.
       rbind (remove_bucket_ll ht key khash) (\<lambda>r.
         case r of Some r \<Rightarrow> Inr r
         | None \<Rightarrow>
           rbind (n_hash_nextslotv key) (\<lambda>shift.
            rbind (if in_table ht (khash + shift) then remove_bucket_ll ht key (khash + shift) else Inr None)
             (\<lambda>r. case r of Some r \<Rightarrow> Inr r
               | None \<Rightarrow>
                 rbind (if khash > shift then remove_bucket_ll ht key (khash - shift) else Inr None)
                   (\<lambda>r. case r of Some r \<Rightarrow> Inr r | None \<Rightarrow> Inr (ht, NULL))))))"

text \<open>One slot of \<open>n_hash_clean\<close>: the slot is set to \<open>NULL\<close> after its first bucket is removed.\<close>

definition clean_slot :: "env \<Rightarrow> tn_hash \<Rightarrow> nat \<Rightarrow> tn_hash result" where
  "clean_slot e ht i =
     rbind (mem_read (hs_table ht) i) (\<lambda>chain.
       case chain of [] \<Rightarrow> Inr ht
       | b # _ \<Rightarrow>
         rbind (n_hash_remove e ht (hb_key b)) (\<lambda>(ht, d).
           let ht = hs_free ht d in
           rbind (mem_write (hs_table ht) i []) (\<lambda>t. Inr (ht\<lparr>hs_table := t\<rparr>))))"

fun clean_slots :: "env \<Rightarrow> tn_hash \<Rightarrow> nat \<Rightarrow> tn_hash result" where
  "clean_slots e ht 0 = Inr ht"
| "clean_slots e ht (Suc n) = rbind (clean_slots e ht n) (\<lambda>ht. clean_slot e ht n)"

definition n_hash_clean :: "env \<Rightarrow> tn_hash \<Rightarrow> tn_hash result" where
  "n_hash_clean e ht = rbind (clean_slots e ht (hs_size ht)) (\<lambda>ht. Inr (ht\<lparr>hs_items := 0\<rparr>))"

definition n_hash_free :: "tn_hash \<Rightarrow> tn_hash option \<times> ptr list" where
  "n_hash_free ht =
     (if hs_refcnt ht > 0 then (Some (ht\<lparr>hs_refcnt := hs_refcnt ht - 1\<rparr>), hs_freed ht)
      else (None, hs_freed (fold (\<lambda>b ht. hs_free ht (hb_data b)) (hash_walk ht) ht)))"

section \<open>Walking, copying\<close>

text \<open>The calls of the mapping functions, and the number they return.\<close>

definition n_hash_map :: "tn_hash \<Rightarrow> (bytes \<times> ptr) list \<times> nat" where
  "n_hash_map ht =
     (let bs = hash_walk ht in (map (\<lambda>b. (hb_key b, hb_data b)) bs, length bs))"

text \<open>The lines of the dump, and their number.\<close>

definition n_hash_dump :: "tn_hash \<Rightarrow> (bytes \<times> ptr) list \<times> nat" where
  "n_hash_dump ht =
     (let bs = hash_walk ht in (map (\<lambda>b. (hb_key b, hb_data b)) bs, length bs))"

definition n_hash_map_arg :: "tn_hash \<Rightarrow> (bytes \<times> ptr) list \<times> nat" where
  "n_hash_map_arg ht = n_hash_map ht"

definition n_hash_keys_ext :: "tn_hash \<Rightarrow> bytes list" where
  "n_hash_keys_ext ht = map hb_key (hash_walk ht)"

definition n_hash_keys :: "tn_hash \<Rightarrow> bytes list" where
  "n_hash_keys ht = n_hash_keys_ext ht"

definition n_hash_values :: "env \<Rightarrow> tn_hash \<Rightarrow> tn_array result" where
  "n_hash_values e ht =
     rbind (n_array_new e (int (hs_items ht)) None None)
      (\<lambda>a. push_all e a (map hb_data (hash_walk ht)))"

record tn_hash_it =
  it_pos :: nat
  it_bpos :: nat

definition n_hash_it_init :: tn_hash_it where
  "n_hash_it_init = \<lparr>it_pos = 0, it_bpos = 0\<rparr>"

text \<open>From \<open>pos\<close> on, the first slot in use; \<open>None\<close> past the end.\<close>

fun skip_empty :: "hash_bucket list list \<Rightarrow> nat \<Rightarrow> nat \<Rightarrow> nat" where
  "skip_empty tbl i 0 = i"
| "skip_empty tbl i (Suc k) = (if i < length tbl \<and> tbl ! i = [] then skip_empty tbl (Suc i) k else i)"

definition n_hash_it_get ::
    "env \<Rightarrow> tn_hash \<Rightarrow> tn_hash_it \<Rightarrow> (tn_hash_it \<times> (bytes \<times> ptr) option) result" where
  "n_hash_it_get e ht it =
     (let i = skip_empty (take (hs_size ht) (hs_table ht)) (it_pos it) (hs_size ht - it_pos it) in
      if i \<ge> hs_size ht then Inr (it, None)
      else rbind (mem_read (hs_table ht) i) (\<lambda>chain.
        n_assert e (it_bpos it < length chain)
         (if it_bpos it < length chain
          then let b = chain ! it_bpos it in
            Inr (if it_bpos it + 1 = length chain then \<lparr>it_pos = i + 1, it_bpos = 0\<rparr>
                 else it\<lparr>it_bpos := it_bpos it + 1\<rparr>,
              Some (hb_key b, hb_data b))
          else Inl Mem_Fault)))"

fun insert_all :: "env \<Rightarrow> tn_hash \<Rightarrow> (bytes \<times> ptr) list \<Rightarrow> tn_hash result" where
  "insert_all e ht [] = Inr ht"
| "insert_all e ht ((k, p) # kps) = rbind (n_hash_insert e ht k p) (\<lambda>(ht, _). insert_all e ht kps)"

definition n_hash_dup :: "env \<Rightarrow> tn_hash \<Rightarrow> nat option \<Rightarrow> tn_hash result" where
  "n_hash_dup e ht dup_fn =
     (let h = n_hash_new_ex (hs_size ht) None False;
          h = h\<lparr>hs_size := hs_size ht, hs_items := 0, hs_free_fn := hs_free_fn ht,
                hs_flags := hs_flags ht AND NOT TN_HASH_NOCPKEY\<rparr>
      in insert_all e h (map (\<lambda>b. (hb_key b,
           case dup_fn of Some d \<Rightarrow> if hb_data b \<noteq> NULL then user_dup e d (hb_data b) else NULL
           | None \<Rightarrow> hb_data b)) (hash_walk ht)))"

end
