(* ===== verification/HashProps.thy ===== *)
theory HashProps
  imports Hash ArrayRefine "HOL-Library.Multiset"
begin

text \<open>
  Correctness of the chained hash table: it is a finite map. A bucket may lie in one of
  the three slots of its key; the invariant says so, that keys are distinct and that
  \<open>items\<close> counts the buckets.
\<close>

section \<open>The invariant\<close>

definition key_ok :: "bytes \<Rightarrow> bool" where
  "key_ok k \<longleftrightarrow> 0 < length k \<and> length k < 65535"

definition home :: "tn_hash \<Rightarrow> bytes \<Rightarrow> 32 word" where
  "home ht k = murmur3_hash k AND (word_of_nat (hs_size ht) - 1)"

definition kshift :: "bytes \<Rightarrow> 32 word" where
  "kshift k = word_of_nat (length k) + word_of_int (sint (last k))"

definition slot_ok :: "tn_hash \<Rightarrow> bytes \<Rightarrow> 32 word \<Rightarrow> bool" where
  "slot_ok ht k w \<longleftrightarrow> w = home ht k \<or>
     w = home ht k + kshift k \<and> in_table ht w \<or>
     w = home ht k - kshift k \<and> home ht k > kshift k"

definition bucket_ok :: "tn_hash \<Rightarrow> nat \<Rightarrow> hash_bucket \<Rightarrow> bool" where
  "bucket_ok ht i b \<longleftrightarrow> key_ok (hb_key b) \<and> hb_klen b = word_of_nat (length (hb_key b)) \<and>
     (\<exists>w. slot_ok ht (hb_key b) w \<and> i = unat w)"

definition table_ok :: "tn_hash \<Rightarrow> bool" where
  "table_ok ht \<longleftrightarrow> 0 < hs_size ht \<and> hs_size ht < 2 ^ 32 \<and> hs_size ht \<le> length (hs_table ht)"

definition hash_inv :: "tn_hash \<Rightarrow> bool" where
  "hash_inv ht \<longleftrightarrow> table_ok ht \<and>
     (\<forall>i < hs_size ht. \<forall>b \<in> set (hs_table ht ! i). bucket_ok ht i b) \<and>
     distinct (map hb_key (hash_walk ht)) \<and> hs_items ht = length (hash_walk ht)"

definition hash_map :: "tn_hash \<Rightarrow> bytes \<Rightarrow> ptr option" where
  "hash_map ht = map_of (map (\<lambda>b. (hb_key b, hb_data b)) (hash_walk ht))"

definition hash_lookup :: "tn_hash \<Rightarrow> bytes \<Rightarrow> hash_bucket option" where
  "hash_lookup ht k = find (\<lambda>b. hb_key b = k) (hash_walk ht)"

text \<open>What no operation but the size change of a rehash touches.\<close>

definition hash_conf :: "tn_hash \<Rightarrow> 16 word \<times> 16 word \<times> nat option \<times> bool" where
  "hash_conf ht = (hs_refcnt ht, hs_flags ht, hs_free_fn ht, hs_na ht)"

lemma home_lt: "table_ok ht \<Longrightarrow> unat (home ht k) < hs_size ht"
proof -
  assume t: "table_ok ht"
  have "home ht k \<le> word_of_nat (hs_size ht) - 1" by (simp add: home_def word_and_le1)
  then have "unat (home ht k) \<le> unat (word_of_nat (hs_size ht) - 1 :: 32 word)"
    by (simp add: word_le_nat_alt)
  also have "\<dots> = hs_size ht - 1"
  proof -
    have u: "unat (word_of_nat (hs_size ht) :: 32 word) = hs_size ht"
      using t by (simp add: table_ok_def unsigned_of_nat take_bit_nat_eq_self)
    then have "(word_of_nat (hs_size ht) :: 32 word) \<noteq> 0" using t by (auto simp: table_ok_def)
    then show ?thesis using u by (simp add: unat_minus_one)
  qed
  finally show ?thesis using t by (simp add: table_ok_def) linarith
qed

lemma slot_ok_lt: "table_ok ht \<Longrightarrow> slot_ok ht k w \<Longrightarrow> unat w < hs_size ht"
  using home_lt [of ht k]
  by (auto simp: slot_ok_def in_table_def unat_sub_if' word_less_nat_alt split: if_splits)

lemma nextslotv: "key_ok k \<Longrightarrow> n_hash_nextslotv k = Inr (kshift k)"
  by (auto simp: n_hash_nextslotv_def kshift_def key_ok_def)

lemma compute_hash: "key_ok k \<Longrightarrow> n_hash_compute_hash e ht k = Inr (home ht k)"
  by (simp add: n_hash_compute_hash_def home_def key_ok_def)

lemma key_eq_bucket: "bucket_ok ht i b \<Longrightarrow> key_ok k \<Longrightarrow> key_eq k b = (hb_key b = k)"
  by (auto simp: key_eq_def bucket_ok_def key_ok_def)

lemma tbl_slot_ok: "table_ok ht \<Longrightarrow> unat w < hs_size ht \<Longrightarrow> tbl_slot ht w = Inr (hs_table ht ! unat w)"
  by (simp add: tbl_slot_def table_ok_def mem_read_def)

lemma walk_slot:
  "table_ok ht \<Longrightarrow> i < hs_size ht \<Longrightarrow> hash_walk ht = concat (take i (hs_table ht)) @
     hs_table ht ! i @ concat (drop (Suc i) (take (hs_size ht) (hs_table ht)))"
proof -
  assume t: "table_ok ht" "i < hs_size ht"
  let ?t = "take (hs_size ht) (hs_table ht)"
  have "?t = take i ?t @ ?t ! i # drop (Suc i) ?t"
    using t by (intro id_take_nth_drop) (simp add: table_ok_def)
  then have "concat ?t = concat (take i ?t) @ ?t ! i @ concat (drop (Suc i) ?t)"
    by (metis concat.simps(2) concat_append)
  then show ?thesis using t by (simp add: hash_walk_def min_def)
qed

lemma walk_mem:
  assumes "table_ok ht"
  shows "b \<in> set (hash_walk ht) \<longleftrightarrow> (\<exists>i < hs_size ht. b \<in> set (hs_table ht ! i))"
  using assms by (force simp: hash_walk_def table_ok_def in_set_conv_nth)

lemma walk_update:
  assumes "table_ok ht" "i < hs_size ht"
  shows "mset (hash_walk (ht\<lparr>hs_table := (hs_table ht)[i := chain]\<rparr>)) + mset (hs_table ht ! i) =
    mset (hash_walk ht) + mset chain"
proof -
  have "table_ok (ht\<lparr>hs_table := (hs_table ht)[i := chain]\<rparr>)" using assms(1) by (simp add: table_ok_def)
  from walk_slot [OF this, of i] walk_slot [OF assms] assms show ?thesis
    by (simp add: table_ok_def list_update_beyond drop_take)
qed

section \<open>Looking up\<close>

lemma find_unique:
  assumes "distinct (map f xs)" "b \<in> set xs" "f b = k"
  shows "find (\<lambda>b. f b = k) xs = Some b"
  using assms by (induction xs) (auto simp: image_iff)

lemma lookup_Some: "hash_inv ht \<Longrightarrow> hash_lookup ht k = Some b \<longleftrightarrow> b \<in> set (hash_walk ht) \<and> hb_key b = k"
  using find_unique [of hb_key "hash_walk ht" b k]
  by (auto simp: hash_lookup_def hash_inv_def find_Some_iff)

lemma lookup_None: "hash_lookup ht k = None \<longleftrightarrow> k \<notin> hb_key ` set (hash_walk ht)"
  by (auto simp: hash_lookup_def find_None_iff)

lemma hash_map_lookup: "hash_map ht k = map_option hb_data (hash_lookup ht k)"
proof -
  have "map_of (map (\<lambda>b. (hb_key b, hb_data b)) bs) k = map_option hb_data (find (\<lambda>b. hb_key b = k) bs)"
    for bs by (induction bs) auto
  then show ?thesis by (simp add: hash_map_def hash_lookup_def)
qed

lemma chain_find:
  assumes "hash_inv ht" "key_ok k" "i < hs_size ht"
  shows "get_bucket_ll k (hs_table ht ! i) = (case hash_lookup ht k of
    Some b \<Rightarrow> if b \<in> set (hs_table ht ! i) then Some b else None | None \<Rightarrow> None)"
proof -
  have t: "table_ok ht" using assms(1) by (simp add: hash_inv_def)
  have "get_bucket_ll k (hs_table ht ! i) = find (\<lambda>b. hb_key b = k) (hs_table ht ! i)"
    unfolding get_bucket_ll_def
  proof (rule find_cong)
    fix b assume "b \<in> set (hs_table ht ! i)"
    then have "bucket_ok ht i b" using assms(1,3) by (simp add: hash_inv_def)
    then show "key_eq k b = (hb_key b = k)" using assms(2) by (rule key_eq_bucket)
  qed simp
  moreover have d: "distinct (map hb_key (hs_table ht ! i))"
    using assms(1) walk_slot [OF t assms(3)] by (simp add: hash_inv_def)
  moreover have sub: "hash_lookup ht k = Some b" if "b \<in> set (hs_table ht ! i)" "hb_key b = k" for b
    using that walk_mem [OF t] assms(3) lookup_Some [OF assms(1)] by blast
  moreover have "find (\<lambda>b. hb_key b = k) (hs_table ht ! i) = (case hash_lookup ht k of
    Some b \<Rightarrow> if b \<in> set (hs_table ht ! i) then Some b else None | None \<Rightarrow> None)"
  proof (cases "hash_lookup ht k")
    case None
    then have "\<not> (\<exists>b. b \<in> set (hs_table ht ! i) \<and> hb_key b = k)" using sub by fastforce
    then show ?thesis using None by (auto simp: find_None_iff)
  next
    case (Some b)
    have key: "hb_key b = k" using Some lookup_Some [OF assms(1)] by simp
    show ?thesis
    proof (cases "b \<in> set (hs_table ht ! i)")
      case True
      then show ?thesis using Some find_unique [OF d True key] by simp
    next
      case False
      then have "\<not> (\<exists>x. x \<in> set (hs_table ht ! i) \<and> hb_key x = k)" using sub Some by fastforce
      then show ?thesis using False Some by (auto simp: find_None_iff)
    qed
  qed
  ultimately show ?thesis by simp
qed

lemma lookup_slot:
  assumes "hash_inv ht" "hash_lookup ht k = Some b"
  shows "\<exists>w. slot_ok ht k w \<and> b \<in> set (hs_table ht ! unat w)"
proof -
  have t: "table_ok ht" using assms(1) by (simp add: hash_inv_def)
  from assms lookup_Some [OF assms(1)] obtain i where "i < hs_size ht" "b \<in> set (hs_table ht ! i)" "hb_key b = k"
    using walk_mem [OF t] by auto
  then show ?thesis using assms(1) by (auto simp: hash_inv_def bucket_ok_def)
qed

text \<open>The three slots in the order of the search.\<close>

definition slot_list :: "tn_hash \<Rightarrow> bytes \<Rightarrow> 32 word list" where
  "slot_list ht k = home ht k #
     (if in_table ht (home ht k + kshift k) then [home ht k + kshift k] else []) @
     (if home ht k > kshift k then [home ht k - kshift k] else [])"

lemma slot_list_ok: "set (slot_list ht k) = {w. slot_ok ht k w}"
  by (auto simp: slot_list_def slot_ok_def)

lemma get_bucket_ok:
  assumes "hash_inv ht" "key_ok k"
  shows "n_hash_get_bucket e ht k (home ht k) = Inr (hash_lookup ht k)"
proof -
  have t: "table_ok ht" using assms(1) by (simp add: hash_inv_def)
  have rd: "tbl_slot ht w = Inr (hs_table ht ! unat w)"
    and fd: "get_bucket_ll k (hs_table ht ! unat w) = (case hash_lookup ht k of
      Some b \<Rightarrow> if b \<in> set (hs_table ht ! unat w) then Some b else None | None \<Rightarrow> None)"
    if "slot_ok ht k w" for w
    using slot_ok_lt [OF t that] tbl_slot_ok [OF t] chain_find [OF assms] by auto
  have so: "slot_ok ht k (home ht k)"
    "in_table ht (home ht k + kshift k) \<Longrightarrow> slot_ok ht k (home ht k + kshift k)"
    "kshift k < home ht k \<Longrightarrow> slot_ok ht k (home ht k - kshift k)"
    by (auto simp: slot_ok_def)
  have "hash_lookup ht k = None \<or> (\<exists>b. hash_lookup ht k = Some b \<and> (b \<in> set (hs_table ht ! unat (home ht k)) \<or>
      in_table ht (home ht k + kshift k) \<and> b \<in> set (hs_table ht ! unat (home ht k + kshift k)) \<or>
      kshift k < home ht k \<and> b \<in> set (hs_table ht ! unat (home ht k - kshift k))))"
    using lookup_slot [OF assms(1)] by (cases "hash_lookup ht k") (auto simp: slot_ok_def)
  then show ?thesis
    using assms(2) so rd fd nextslotv [OF assms(2)]
    by (auto simp: n_hash_get_bucket_def key_ok_def Let_def split: option.splits if_splits)
qed

lemma n_hash_get_ok:
  assumes "hash_inv ht" "key_ok k"
  shows "n_hash_get e ht k = Inr (case hash_map ht k of None \<Rightarrow> NULL | Some p \<Rightarrow> p)"
    "n_hash_exists e ht k = Inr (hash_map ht k \<noteq> None)"
  using compute_hash [OF assms(2)] get_bucket_ok [OF assms]
  by (auto simp: n_hash_get_def n_hash_get_ex_def n_hash_hget_def n_hash_exists_def
      n_hash_exists_ex_def n_hash_hexists_def hash_map_lookup split: option.splits)


section \<open>Changing a slot\<close>

lemma slot_write_ok:
  "table_ok ht \<Longrightarrow> unat w < hs_size ht \<Longrightarrow>
   slot_write ht w chain = Inr (ht\<lparr>hs_table := (hs_table ht)[unat w := chain]\<rparr>)"
  by (simp add: slot_write_def table_ok_def mem_write_def)

lemma table_upd_simps [simp]:
  "table_ok (ht\<lparr>hs_items := n\<rparr>) = table_ok ht" "table_ok (ht\<lparr>hs_freed := l\<rparr>) = table_ok ht"
  "table_ok (ht\<lparr>hs_table := (hs_table ht)[i := chain]\<rparr>) = table_ok ht"
  "bucket_ok (ht\<lparr>hs_items := n\<rparr>) = bucket_ok ht" "bucket_ok (ht\<lparr>hs_freed := l\<rparr>) = bucket_ok ht"
  "bucket_ok (ht\<lparr>hs_table := t\<rparr>) = bucket_ok ht"
  "hash_walk (ht\<lparr>hs_items := n\<rparr>) = hash_walk ht" "hash_walk (ht\<lparr>hs_freed := l\<rparr>) = hash_walk ht"
  "hash_conf (ht\<lparr>hs_items := n\<rparr>) = hash_conf ht" "hash_conf (ht\<lparr>hs_freed := l\<rparr>) = hash_conf ht"
  "hash_conf (ht\<lparr>hs_table := t\<rparr>) = hash_conf ht"
  by (simp_all add: table_ok_def bucket_ok_def slot_ok_def home_def in_table_def hash_walk_def
      hash_conf_def fun_eq_iff)

lemma hs_free_simps [simp]:
  "table_ok (hs_free ht p) = table_ok ht" "bucket_ok (hs_free ht p) = bucket_ok ht"
  "hash_walk (hs_free ht p) = hash_walk ht" "hash_conf (hs_free ht p) = hash_conf ht"
  "hs_size (hs_free ht p) = hs_size ht" "hs_table (hs_free ht p) = hs_table ht"
  "hs_items (hs_free ht p) = hs_items ht" "hs_flags (hs_free ht p) = hs_flags ht"
  "hs_na (hs_free ht p) = hs_na ht" "hs_free_fn (hs_free ht p) = hs_free_fn ht"
  by (simp_all add: hs_free_def hash_conf_def)

lemma hash_inv_free [simp]: "hash_inv (hs_free ht p) = hash_inv ht"
  by (simp add: hash_inv_def)

text \<open>The buckets of a table, as a multiset; two tables with the same ones are the same map.\<close>

definition buckets :: "tn_hash \<Rightarrow> hash_bucket multiset" where
  "buckets ht = mset (hash_walk ht)"

lemma hash_inv_change:
  assumes "hash_inv ht" "i < hs_size ht" "\<forall>b\<in>set chain. bucket_ok ht i b"
    "distinct (map hb_key (hash_walk ht'))" "hs_items ht' = length (hash_walk ht')"
    "hs_table ht' = (hs_table ht)[i := chain]" "hs_size ht' = hs_size ht"
  shows "hash_inv ht'"
proof -
  have t: "table_ok ht" using assms(1) by (simp add: hash_inv_def)
  have bk: "bucket_ok ht' = bucket_ok ht"
    using assms(7) by (simp add: bucket_ok_def slot_ok_def home_def in_table_def fun_eq_iff)
  have "table_ok ht'" using t assms(6,7) by (simp add: table_ok_def)
  moreover have "\<forall>b \<in> set (hs_table ht' ! j). bucket_ok ht' j b" if "j < hs_size ht'" for j
    using assms(1-3,6,7) that t bk by (cases "j = i") (auto simp: hash_inv_def table_ok_def)
  ultimately show ?thesis using assms(4,5) by (simp add: hash_inv_def)
qed

lemma distinct_mset: "mset xs = mset ys \<Longrightarrow> distinct (map f xs) = distinct (map f ys)"
  by (metis mset_eq_imp_distinct_iff mset_map)

lemma bucket_map_mset:
  assumes "mset xs = mset ys" "distinct (map hb_key xs)"
  shows "map_of (map (\<lambda>b. (hb_key b, hb_data b)) xs) = map_of (map (\<lambda>b. (hb_key b, hb_data b)) ys)"
proof -
  let ?f = "\<lambda>b. (hb_key b, hb_data b)"
  have keys: "map fst (map ?f zs) = map hb_key zs" for zs by simp
  have "set (map ?f xs) = set (map ?f ys)" using mset_eq_setD [OF assms(1)] by simp
  moreover have "distinct (map fst (map ?f xs))" using assms(2) unfolding keys .
  moreover have "distinct (map fst (map ?f ys))"
    using assms(2) distinct_mset [OF assms(1), of hb_key] unfolding keys by simp
  ultimately show ?thesis using map_of_inject_set by blast
qed

lemma hash_add:
  assumes "hash_inv ht" "slot_ok ht (hb_key b) w" "key_ok (hb_key b)"
    "hb_klen b = word_of_nat (length (hb_key b))" "hash_lookup ht (hb_key b) = None"
  defines "ht' \<equiv> ht\<lparr>hs_table := (hs_table ht)[unat w := b # hs_table ht ! unat w],
    hs_items := hs_items ht + 1\<rparr>"
  shows "rbind (slot_write ht w (b # hs_table ht ! unat w)) (\<lambda>ht. Inr (ht\<lparr>hs_items := hs_items ht + 1\<rparr>)) = Inr ht'"
    "hash_inv ht'" "buckets ht' = add_mset b (buckets ht)"
    "hash_map ht' = (hash_map ht)(hb_key b \<mapsto> hb_data b)"
proof -
  have t: "table_ok ht" using assms(1) by (simp add: hash_inv_def)
  have w: "unat w < hs_size ht" by (rule slot_ok_lt [OF t assms(2)])
  show "rbind (slot_write ht w (b # hs_table ht ! unat w)) (\<lambda>ht. Inr (ht\<lparr>hs_items := hs_items ht + 1\<rparr>)) = Inr ht'"
    using slot_write_ok [OF t w] by (simp add: ht'_def)
  show bk: "buckets ht' = add_mset b (buckets ht)"
    using walk_update [OF t w, of "b # hs_table ht ! unat w"] by (simp add: buckets_def ht'_def)
  then have ms: "mset (hash_walk ht') = mset (b # hash_walk ht)" by (simp add: buckets_def)
  have dis: "distinct (map hb_key (b # hash_walk ht))"
    using assms(1,5) lookup_None [of ht "hb_key b"] by (simp add: hash_inv_def)
  have "\<forall>x\<in>set (b # hs_table ht ! unat w). bucket_ok ht (unat w) x"
    using assms(1-4) w by (auto simp: hash_inv_def bucket_ok_def)
  then show "hash_inv ht'"
    using dis distinct_mset [OF ms, of hb_key] mset_eq_length [OF ms] assms(1)
    by (intro hash_inv_change [OF assms(1) w]) (simp_all add: ht'_def hash_inv_def)
  show "hash_map ht' = (hash_map ht)(hb_key b \<mapsto> hb_data b)"
    using bucket_map_mset [OF ms] dis distinct_mset [OF ms, of hb_key] by (simp add: hash_map_def)
qed

section \<open>Rehashing\<close>

lemma put_node_ok:
  assumes "hash_inv ht" "key_ok (hb_key b)" "hb_klen b = word_of_nat (length (hb_key b))"
    "hash_lookup ht (hb_key b) = None"
  shows "\<exists>ht'. n_hash_put_node e ht b = Inr ht' \<and> hash_inv ht' \<and> buckets ht' = add_mset b (buckets ht) \<and>
    hs_size ht' = hs_size ht \<and> hash_conf ht' = hash_conf ht \<and> hs_freed ht' = hs_freed ht"
proof -
  have t: "table_ok ht" using assms(1) by (simp add: hash_inv_def)
  let ?w = "home ht (hb_key b)"
  have so: "slot_ok ht (hb_key b) ?w" by (simp add: slot_ok_def)
  have w: "unat ?w < hs_size ht" by (rule slot_ok_lt [OF t so])
  have "hb_klen b > 0"
    using assms(2,3) by (simp add: key_ok_def word_less_nat_alt unsigned_of_nat take_bit_nat_eq_self)
  moreover have "\<forall>x\<in>set (hs_table ht ! unat ?w). hb_key x \<noteq> hb_key b"
    using assms(4) w walk_mem [OF t] unfolding lookup_None by (metis imageI)
  ultimately show ?thesis
    using hash_add [OF assms(1) so assms(2,3,4)] compute_hash [OF assms(2)] tbl_slot_ok [OF t w]
    by (auto simp: n_hash_put_node_def hash_conf_def)
qed

lemma put_nodes_ok:
  assumes "hash_inv ht" "distinct (map hb_key bs)" "\<forall>b\<in>set bs. hash_lookup ht (hb_key b) = None"
    "\<forall>b\<in>set bs. key_ok (hb_key b) \<and> hb_klen b = word_of_nat (length (hb_key b))"
  shows "\<exists>ht'. put_nodes e ht bs = Inr ht' \<and> hash_inv ht' \<and> buckets ht' = buckets ht + mset bs \<and>
    hs_size ht' = hs_size ht \<and> hash_conf ht' = hash_conf ht \<and> hs_freed ht' = hs_freed ht"
  using assms
proof (induction bs arbitrary: ht)
  case (Cons b bs)
  from put_node_ok [of ht b e] Cons.prems obtain h1 where h1: "n_hash_put_node e ht b = Inr h1"
    "hash_inv h1" "buckets h1 = add_mset b (buckets ht)" "hs_size h1 = hs_size ht"
    "hash_conf h1 = hash_conf ht" "hs_freed h1 = hs_freed ht" by auto
  have "set (hash_walk h1) = insert b (set (hash_walk ht))"
    using arg_cong [OF h1(3), of set_mset] by (simp add: buckets_def)
  then have "\<forall>x\<in>set bs. hash_lookup h1 (hb_key x) = None"
    using Cons.prems by (auto simp: lookup_None image_iff)
  with Cons.IH [OF h1(2)] Cons.prems obtain h2 where "put_nodes e h1 bs = Inr h2" "hash_inv h2"
    "buckets h2 = buckets h1 + mset bs" "hs_size h2 = hs_size h1" "hash_conf h2 = hash_conf h1"
    "hs_freed h2 = hs_freed h1" by auto
  with h1 show ?case by auto
qed auto

lemma empty_inv:
  assumes "hs_size ht < 2 ^ 32" "0 < hs_size ht" "hs_size ht \<le> n" "hs_table ht = replicate n []" "hs_items ht = 0"
  shows "hash_inv ht" "hash_walk ht = []"
  using assms by (simp_all add: hash_inv_def table_ok_def hash_walk_def)

lemma rehash_ok:
  assumes "hash_inv ht" "4 * hs_size ht < 2 ^ 32"
  shows "\<exists>ht'. n_hash_rehash e ht = Inr ht' \<and> hash_inv ht' \<and> buckets ht' = buckets ht \<and>
    hs_size ht' = 4 * hs_size ht \<and> hash_conf ht' = hash_conf ht \<and> hs_freed ht' = hs_freed ht"
proof -
  let ?n = "4 * hs_size ht"
  let ?e = "ht\<lparr>hs_table := replicate ?n [], hs_size := ?n, hs_items := 0\<rparr>"
  have t: "table_ok ht" using assms(1) by (simp add: hash_inv_def)
  have e: "hash_inv ?e" "hash_walk ?e = []"
    using empty_inv [of ?e ?n] assms(2) t by (simp_all add: table_ok_def)
  have "\<forall>b\<in>set (hash_walk ht). key_ok (hb_key b) \<and> hb_klen b = word_of_nat (length (hb_key b))"
    using assms(1) walk_mem [OF t] by (auto simp: hash_inv_def bucket_ok_def)
  moreover have "\<forall>b\<in>set (hash_walk ht). hash_lookup ?e (hb_key b) = None"
    using e(2) by (simp add: lookup_None)
  ultimately show ?thesis
    using put_nodes_ok [OF e(1), of "hash_walk ht" e] assms e(2)
    by (auto simp: n_hash_rehash_def hash_inv_def buckets_def hash_conf_def)
qed

lemma same_buckets_map:
  assumes "buckets h1 = buckets h2" "hash_inv h1"
  shows "hash_map h1 = hash_map h2" "hs_items h1 = card (dom (hash_map h1))"
proof -
  have d: "distinct (map hb_key (hash_walk h1))" using assms(2) by (simp add: hash_inv_def)
  show "hash_map h1 = hash_map h2"
    using bucket_map_mset [OF _ d, of "hash_walk h2"] assms(1) by (simp add: hash_map_def buckets_def)
  have "dom (hash_map h1) = hb_key ` set (hash_walk h1)"
    by (auto simp: hash_map_def dom_map_of_conv_image_fst image_image)
  then show "hs_items h1 = card (dom (hash_map h1))"
    using d assms(2) by (simp add: hash_inv_def distinct_card flip: set_map)
qed


section \<open>Inserting and replacing\<close>

lemma struct_unique:
  assumes "table_ok ht" "distinct (map hb_key (hash_walk ht))" "i < hs_size ht" "j < hs_size ht"
    "b \<in> set (hs_table ht ! i)" "b' \<in> set (hs_table ht ! j)" "hb_key b = hb_key b'"
  shows "i = j \<and> b = b'"
proof -
  let ?t = "take (hs_size ht) (hs_table ht)"
  have w: "hash_walk ht = concat (take i (hs_table ht)) @ hs_table ht ! i @ concat (drop (Suc i) ?t)"
    by (rule walk_slot [OF assms(1,3)])
  have "i = j"
  proof (rule ccontr)
    assume "i \<noteq> j"
    have "b' \<in> set (concat (take i (hs_table ht))) \<union> set (concat (drop (Suc i) ?t))"
    proof (cases "j < i")
      case True
      then have "hs_table ht ! j \<in> set (take i (hs_table ht))"
        using assms(1,3) by (auto simp: in_set_conv_nth table_ok_def intro!: exI [of _ j])
      then show ?thesis using assms(6) by auto
    next
      case False
      then have "drop (Suc i) ?t ! (j - Suc i) = hs_table ht ! j" "j - Suc i < length (drop (Suc i) ?t)"
        using assms(1,4) \<open>i \<noteq> j\<close> by (auto simp: table_ok_def)
      then have "hs_table ht ! j \<in> set (drop (Suc i) ?t)" by (metis nth_mem)
      then show ?thesis using assms(6) by auto
    qed
    then have "hb_key b' \<in> hb_key ` set (concat (take i (hs_table ht))) \<union> hb_key ` set (concat (drop (Suc i) ?t))"
      by auto
    moreover have "hb_key b' \<in> hb_key ` set (hs_table ht ! i)" using assms(5,7) by (metis imageI)
    moreover have "hb_key ` set (concat (take i (hs_table ht))) \<inter> hb_key ` set (hs_table ht ! i) = {}"
      "hb_key ` set (hs_table ht ! i) \<inter> hb_key ` set (concat (drop (Suc i) ?t)) = {}"
      using assms(2) unfolding w map_append distinct_append set_map set_append image_Un by blast+
    ultimately show False by blast
  qed
  moreover from this have "b = b'"
    using assms(2,5-7) unfolding w by (auto simp: distinct_map inj_on_def)
  ultimately show ?thesis by simp
qed

lemma set_bucket_data_mset:
  "find (key_eq k) chain = Some b \<Longrightarrow>
   add_mset b (mset (set_bucket_data k d chain)) = add_mset (b\<lparr>hb_data := d\<rparr>) (mset chain)"
  by (induction chain) (auto split: if_splits simp: add_mset_commute)

lemma set_bucket_data_set:
  "x \<in> set (set_bucket_data k d chain) \<Longrightarrow> x \<in> set chain \<or> (\<exists>y\<in>set chain. x = y\<lparr>hb_data := d\<rparr>)"
  by (induction chain) (auto split: if_splits)

lemma holding_slot_ok:
  assumes "hash_inv ht" "key_ok k" "hash_lookup ht k = Some b"
  shows "\<exists>w. holding_slot ht k (home ht k) = Inr w \<and> slot_ok ht k w \<and>
    get_bucket_ll k (hs_table ht ! unat w) = Some b"
proof -
  have t: "table_ok ht" using assms(1) by (simp add: hash_inv_def)
  have rd: "tbl_slot ht w = Inr (hs_table ht ! unat w)"
    and fd: "get_bucket_ll k (hs_table ht ! unat w) = (if b \<in> set (hs_table ht ! unat w) then Some b else None)"
    if "slot_ok ht k w" for w
    using slot_ok_lt [OF t that] tbl_slot_ok [OF t] chain_find [OF assms(1,2)] assms(3) by auto
  have so: "slot_ok ht k (home ht k)"
    "in_table ht (home ht k + kshift k) \<Longrightarrow> slot_ok ht k (home ht k + kshift k)"
    "kshift k < home ht k \<Longrightarrow> slot_ok ht k (home ht k - kshift k)"
    by (auto simp: slot_ok_def)
  have "(b \<in> set (hs_table ht ! unat (home ht k)) \<or>
      in_table ht (home ht k + kshift k) \<and> b \<in> set (hs_table ht ! unat (home ht k + kshift k)) \<or>
      kshift k < home ht k \<and> b \<in> set (hs_table ht ! unat (home ht k - kshift k)))"
    using lookup_slot [OF assms(1,3)] by (auto simp: slot_ok_def)
  then show ?thesis
    using so rd fd nextslotv [OF assms(2)] unfolding holding_slot_def
    by (cases "b \<in> set (hs_table ht ! unat (home ht k))";
        cases "in_table ht (home ht k + kshift k)";
        cases "b \<in> set (hs_table ht ! unat (home ht k + kshift k))") auto
qed

text \<open>Replacing the data of the bucket of a key.\<close>

lemma hash_set:
  fixes d :: ptr
  assumes "hash_inv ht" "slot_ok ht k w" "key_ok k" "get_bucket_ll k (hs_table ht ! unat w) = Some b"
    "hash_lookup ht k = Some b"
  defines "ht' \<equiv> ht\<lparr>hs_table := (hs_table ht)[unat w := set_bucket_data k d (hs_table ht ! unat w)]\<rparr>"
  shows "hash_inv ht'" "hash_map ht' = (hash_map ht)(k \<mapsto> d)"
proof -
  have t: "table_ok ht" using assms(1) by (simp add: hash_inv_def)
  have w: "unat w < hs_size ht" by (rule slot_ok_lt [OF t assms(2)])
  let ?ch = "hs_table ht ! unat w" and ?b = "b\<lparr>hb_data := d\<rparr>"
  have key: "hb_key b = k" "b \<in> set (hash_walk ht)" using lookup_Some [OF assms(1)] assms(5) by auto
  obtain rest where rest: "mset (hash_walk ht) = mset (b # rest)"
    using key(2) by (metis mset.simps(2) multi_member_split ex_mset set_mset_mset)
  have "add_mset b (mset (hash_walk ht') + mset ?ch) = add_mset b (mset (hash_walk ht) + mset (set_bucket_data k d ?ch))"
    using walk_update [OF t w, of "set_bucket_data k d ?ch"] by (simp add: ht'_def)
  also have "\<dots> = add_mset ?b (mset (hash_walk ht) + mset ?ch)"
    using set_bucket_data_mset [of k ?ch b d] assms(4) by (simp add: get_bucket_ll_def)
  finally have "add_mset b (mset (hash_walk ht')) = add_mset b (mset (?b # rest))" using rest by simp
  then have rest': "mset (hash_walk ht') = mset (?b # rest)" by simp
  have dis: "distinct (map hb_key (b # rest))"
    using assms(1) distinct_mset [OF rest, of hb_key] by (simp add: hash_inv_def)
  then have dis': "distinct (map hb_key (?b # rest))" by simp
  have "\<forall>x\<in>set (set_bucket_data k d ?ch). bucket_ok ht (unat w) x"
    using assms(1) w set_bucket_data_set by (fastforce simp: hash_inv_def bucket_ok_def)
  moreover have "hs_items ht' = length (hash_walk ht')"
    using assms(1) mset_eq_length [OF rest] mset_eq_length [OF rest'] by (simp add: hash_inv_def ht'_def)
  ultimately show "hash_inv ht'"
    using dis' distinct_mset [OF rest', of hb_key] w
    by (intro hash_inv_change [OF assms(1) w]) (simp_all add: ht'_def)
  show "hash_map ht' = (hash_map ht)(k \<mapsto> d)"
    unfolding hash_map_def bucket_map_mset [OF rest [symmetric] dis, symmetric]
      bucket_map_mset [OF rest' [symmetric] dis', symmetric] using key(1) by simp
qed

text \<open>The table \<open>n_hash_put\<close> works on, after the rehash it may start with.\<close>

definition put_ready :: "env \<Rightarrow> tn_hash \<Rightarrow> 32 word \<Rightarrow> (tn_hash \<times> 32 word) result" where
  "put_ready e ht khash =
     (if hs_has ht TN_HASH_REHASH \<and>
         (hs_size ht + 2 ^ 32 - hs_items ht mod 2 ^ 32) mod 2 ^ 32 \<le> hs_size ht div 3
      then rbind (n_hash_rehash e ht) (\<lambda>ht. Inr (ht, 0)) else Inr (ht, khash))"

lemma rehash_due:
  assumes "(n + 2 ^ 32 - m) mod 2 ^ 32 \<le> n div (3::nat)" "m < 2 ^ 32" "n < 2 ^ 32" "0 < n"
  shows "n \<le> 2 * m"
proof (cases "m \<le> n")
  case True
  then have "(n + 2 ^ 32 - m) mod 2 ^ 32 = n - m"
    using assms(3) by (cases "m = 0") (simp_all add: mod_if)
  then show ?thesis using assms(1) by linarith
qed simp

lemma put_ready_ok:
  assumes "hash_inv ht" "hs_size ht < 2 ^ 30" "hs_items ht < 2 ^ 32" "khash = 0 \<or> khash = home ht k" "key_ok k"
  shows "\<exists>h1 kh. put_ready e ht khash = Inr (h1, kh) \<and> hash_inv h1 \<and> buckets h1 = buckets ht \<and>
    hash_conf h1 = hash_conf ht \<and> hs_freed h1 = hs_freed ht \<and>
    (if kh = 0 then n_hash_compute_hash e h1 k else Inr kh) = Inr (home h1 k) \<and>
    (hs_size h1 = hs_size ht \<or> hs_size h1 = 4 * hs_size ht \<and> hs_size ht \<le> 2 * hs_items ht)"
proof (cases "hs_has ht TN_HASH_REHASH \<and>
         (hs_size ht + 2 ^ 32 - hs_items ht mod 2 ^ 32) mod 2 ^ 32 \<le> hs_size ht div 3")
  case True
  have "4 * hs_size ht < 2 ^ 32" using assms(2) by simp
  from rehash_ok [OF assms(1) this, of e] obtain h1 where h1: "n_hash_rehash e ht = Inr h1"
    "hash_inv h1" "buckets h1 = buckets ht" "hs_size h1 = 4 * hs_size ht"
    "hash_conf h1 = hash_conf ht" "hs_freed h1 = hs_freed ht" by blast
  have "hs_size ht \<le> 2 * hs_items ht"
    using rehash_due [of "hs_size ht" "hs_items ht"] True assms(1,3)
    by (simp add: hash_inv_def table_ok_def)
  then show ?thesis using True h1 compute_hash [OF assms(5)] by (simp add: put_ready_def)
next
  case False
  then show ?thesis using assms compute_hash [OF assms(5)] unfolding put_ready_def if_not_P [OF False]
    by (intro exI [of _ ht] exI [of _ khash]) auto
qed

lemma put_unfold:
  assumes "key_ok k" "put_ready e ht khash = Inr (h1, kh)"
    "(if kh = 0 then n_hash_compute_hash e h1 k else Inr kh) = Inr (home h1 k)"
    "\<not> hs_has h1 TN_HASH_NOREPLACE" "hash_inv h1"
  shows "n_hash_put e ht k khash d replace =
    (case hash_lookup h1 k of
       Some b \<Rightarrow>
         if \<not> replace
         then trurl_die e ''n_hash_insert: key already in table'' (Inr (h1, False))
         else rbind (holding_slot h1 k (home h1 k)) (\<lambda>slot. rbind (tbl_slot h1 slot) (\<lambda>chain.
           rbind (slot_write (hs_free h1 (hb_data b)) slot (set_bucket_data k d chain))
             (\<lambda>ht. Inr (ht, True))))
     | None \<Rightarrow>
         rbind (tbl_slot h1 (home h1 k)) (\<lambda>chain.
          if chain = []
          then rbind (new_bucket e k d) (\<lambda>b. rbind (slot_write h1 (home h1 k) [b])
              (\<lambda>ht. Inr (ht\<lparr>hs_items := hs_items ht + 1\<rparr>, True)))
          else rbind (find_free_slot h1 k (home h1 k)) (\<lambda>khash.
            rbind (tbl_slot h1 khash) (\<lambda>chain.
              (if \<exists>b\<in>set chain. hb_key b = k
               then trurl_die e ''n_hash_insert: key already in table'' else id)
              (rbind (new_bucket e k d) (\<lambda>b. rbind (slot_write h1 khash (b # chain))
                (\<lambda>ht. Inr (ht\<lparr>hs_items := hs_items ht + 1\<rparr>, True))))))))"
  using assms get_bucket_ok [OF assms(5,1)]
  unfolding n_hash_put_def put_ready_def [symmetric]
  by (simp add: key_ok_def)

lemma find_free_slot_ok:
  assumes "hash_inv ht" "key_ok k"
  shows "\<exists>w. find_free_slot ht k (home ht k) = Inr w \<and> slot_ok ht k w"
proof -
  have t: "table_ok ht" using assms(1) by (simp add: hash_inv_def)
  have so: "in_table ht (home ht k + kshift k) \<Longrightarrow> slot_ok ht k (home ht k + kshift k)"
    "kshift k < home ht k \<Longrightarrow> slot_ok ht k (home ht k - kshift k)" "slot_ok ht k (home ht k)"
    by (auto simp: slot_ok_def)
  have rd: "slot_ok ht k w \<Longrightarrow> tbl_slot ht w = Inr (hs_table ht ! unat w)" for w
    using slot_ok_lt [OF t] tbl_slot_ok [OF t] by blast
  show ?thesis using so rd nextslotv [OF assms(2)] by (auto simp: find_free_slot_def Let_def)
qed

lemma put_absent:
  assumes "hash_inv ht" "key_ok k" "hash_lookup ht k = None" "\<not> hs_has ht TN_HASH_NOREPLACE"
    "put_ready e ht0 khash = Inr (ht, kh)"
    "(if kh = 0 then n_hash_compute_hash e ht k else Inr kh) = Inr (home ht k)"
  shows "\<exists>ht'. n_hash_put e ht0 k khash d replace = Inr (ht', True) \<and> hash_inv ht' \<and>
    hash_map ht' = (hash_map ht)(k \<mapsto> d) \<and> hash_conf ht' = hash_conf ht \<and>
    hs_freed ht' = hs_freed ht \<and> hs_size ht' = hs_size ht"
proof -
  have t: "table_ok ht" using assms(1) by (simp add: hash_inv_def)
  let ?b = "\<lparr>hb_data = d, hb_key = k, hb_klen = word_of_nat (length k)\<rparr>"
  have nb: "new_bucket e k d = Inr ?b" using assms(2) by (simp add: new_bucket_def key_ok_def)
  obtain w where fs: "find_free_slot ht k (home ht k) = Inr w" "slot_ok ht k w"
    using find_free_slot_ok [OF assms(1,2)] by blast
  let ?w = "if hs_table ht ! unat (home ht k) = [] then home ht k else w"
  have so: "slot_ok ht k ?w" using fs(2) by (auto simp: slot_ok_def)
  have lt: "unat (home ht k) < hs_size ht" "unat ?w < hs_size ht" "unat w < hs_size ht"
    using home_lt [OF t] slot_ok_lt [OF t so] slot_ok_lt [OF t fs(2)] by blast+
  have nk: "\<not> (\<exists>b\<in>set (hs_table ht ! unat w). hb_key b = k)"
    using assms(3) lt(3) walk_mem [OF t] unfolding lookup_None by blast
  note add = hash_add [of ht ?b ?w, simplified, OF assms(1) so assms(2) assms(3)]
  obtain h' where h': "slot_write ht ?w (?b # hs_table ht ! unat ?w) = Inr h'"
    "h'\<lparr>hs_items := hs_items h' + 1\<rparr> = ht\<lparr>hs_table := (hs_table ht)[unat ?w := ?b # hs_table ht ! unat ?w],
      hs_items := hs_items ht + 1\<rparr>"
    using slot_write_ok [OF t lt(2)] by simp
  have "n_hash_put e ht0 k khash d replace = Inr (h'\<lparr>hs_items := hs_items h' + 1\<rparr>, True)"
    using put_unfold [OF assms(2,5,6,4,1), of d replace] assms(3) nb fs(1) nk h'(1)
      tbl_slot_ok [OF t lt(1)] tbl_slot_ok [OF t lt(3)]
    by (cases "hs_table ht ! unat (home ht k) = []") simp_all
  then show ?thesis using add(2,4) unfolding h'(2) by (simp add: hash_conf_def)
qed

lemma put_present:
  assumes "hash_inv ht" "key_ok k" "hash_lookup ht k = Some b" "\<not> hs_has ht TN_HASH_NOREPLACE"
    "put_ready e ht0 khash = Inr (ht, kh)"
    "(if kh = 0 then n_hash_compute_hash e ht k else Inr kh) = Inr (home ht k)"
  shows "\<exists>ht'. n_hash_put e ht0 k khash d True = Inr (ht', True) \<and> hash_inv ht' \<and>
    hash_map ht' = (hash_map ht)(k \<mapsto> d) \<and> hash_conf ht' = hash_conf ht \<and>
    hs_freed ht' = hs_freed (hs_free ht (hb_data b)) \<and> hs_size ht' = hs_size ht"
    "n_hash_put e ht0 k khash d False =
      trurl_die e ''n_hash_insert: key already in table'' (Inr (ht, False))"
proof -
  have t: "table_ok ht" using assms(1) by (simp add: hash_inv_def)
  obtain w where hs: "holding_slot ht k (home ht k) = Inr w" "slot_ok ht k w"
    "get_bucket_ll k (hs_table ht ! unat w) = Some b"
    using holding_slot_ok [OF assms(1-3)] by blast
  have w: "unat w < hs_size ht" by (rule slot_ok_lt [OF t hs(2)])
  note set = hash_set [OF assms(1) hs(2) assms(2) hs(3) assms(3), of d]
  let ?h = "hs_free ht (hb_data b)"
  let ?ht' = "?h\<lparr>hs_table := (hs_table ht)[unat w := set_bucket_data k d (hs_table ht ! unat w)]\<rparr>"
  have t': "table_ok ?h" using t by simp
  have "n_hash_put e ht0 k khash d True = Inr (?ht', True)"
    using put_unfold [OF assms(2,5,6,4,1), of d True] assms(3) hs(1) tbl_slot_ok [OF t w]
      slot_write_ok [OF t', of w] w by simp
  moreover have eq: "?ht' = (ht\<lparr>hs_table := (hs_table ht)[unat w := set_bucket_data k d (hs_table ht ! unat w)]\<rparr>)
      \<lparr>hs_freed := hs_freed ?h\<rparr>"
    by (simp add: hs_free_def)
  have "hash_inv ?ht'" "hash_map ?ht' = (hash_map ht)(k \<mapsto> d)"
    using set unfolding eq by (simp_all add: hash_inv_def hash_map_def)
  ultimately show "\<exists>ht'. n_hash_put e ht0 k khash d True = Inr (ht', True) \<and> hash_inv ht' \<and>
    hash_map ht' = (hash_map ht)(k \<mapsto> d) \<and> hash_conf ht' = hash_conf ht \<and>
    hs_freed ht' = hs_freed (hs_free ht (hb_data b)) \<and> hs_size ht' = hs_size ht"
    by (intro exI [of _ ?ht']) simp
  show "n_hash_put e ht0 k khash d False =
      trurl_die e ''n_hash_insert: key already in table'' (Inr (ht, False))"
    using put_unfold [OF assms(2,5,6,4,1), of d False] assms(3) by simp
qed


text \<open>Both kinds of put, over the abstract map.\<close>

lemma n_hash_put_ok:
  assumes "hash_inv ht" "key_ok k" "\<not> hs_has ht TN_HASH_NOREPLACE" "hs_size ht < 2 ^ 30"
    "hs_items ht < 2 ^ 32" "khash = 0 \<or> khash = home ht k"
  shows "\<exists>ht'. n_hash_put e ht k khash d replace =
      (if hash_map ht k \<noteq> None \<and> \<not> replace
       then trurl_die e ''n_hash_insert: key already in table'' (Inr (ht', False)) else Inr (ht', True)) \<and>
    hash_inv ht' \<and> hash_conf ht' = hash_conf ht \<and>
    hash_map ht' = (if hash_map ht k \<noteq> None \<and> \<not> replace then hash_map ht else (hash_map ht)(k \<mapsto> d)) \<and>
    hs_freed ht' = hs_freed ht @ (case hash_map ht k of
       Some p \<Rightarrow> if replace \<and> p \<noteq> NULL \<and> hs_free_fn ht \<noteq> None then [p] else [] | None \<Rightarrow> []) \<and>
    (hs_size ht' = hs_size ht \<or> hs_size ht' = 4 * hs_size ht \<and> hs_size ht \<le> 2 * hs_items ht)"
proof -
  obtain h1 kh where h1: "put_ready e ht khash = Inr (h1, kh)" "hash_inv h1" "buckets h1 = buckets ht"
    "hash_conf h1 = hash_conf ht" "hs_freed h1 = hs_freed ht"
    "(if kh = 0 then n_hash_compute_hash e h1 k else Inr kh) = Inr (home h1 k)"
    "hs_size h1 = hs_size ht \<or> hs_size h1 = 4 * hs_size ht \<and> hs_size ht \<le> 2 * hs_items ht"
    using put_ready_ok [OF assms(1,4,5,6,2)] by blast
  have nr: "\<not> hs_has h1 TN_HASH_NOREPLACE" and ff: "hs_free_fn h1 = hs_free_fn ht"
    using assms(3) h1(4) by (simp_all add: hs_has_def hash_conf_def)
  have m: "hash_map h1 = hash_map ht" by (rule same_buckets_map(1) [OF h1(3,2)])
  show ?thesis
  proof (cases "hash_lookup h1 k")
    case None
    then have "hash_map ht k = None" by (simp add: m [symmetric] hash_map_lookup)
    with put_absent [OF h1(2) assms(2) None nr h1(1,6), of d replace] h1 m show ?thesis by auto
  next
    case (Some b)
    then have mk: "hash_map ht k = Some (hb_data b)" by (simp add: m [symmetric] hash_map_lookup)
    show ?thesis
    proof (cases replace)
      case True
      with put_present(1) [OF h1(2) assms(2) Some nr h1(1,6), of d] h1 m mk ff show ?thesis
        by (auto simp: hs_free_def)
    next
      case False
      with put_present(2) [OF h1(2) assms(2) Some nr h1(1,6), of d] h1 m mk show ?thesis by auto
    qed
  qed
qed

section \<open>Removing\<close>

lemma unlink_bucket_Some:
  "unlink_bucket k chain = Some (b, ch) \<Longrightarrow>
   mset chain = add_mset b (mset ch) \<and> hb_key b = k \<and> b \<in> set chain \<and> set ch \<subseteq> set chain"
  by (induction chain arbitrary: ch) (auto split: if_splits option.splits)

lemma unlink_bucket_None: "unlink_bucket k chain = None \<longleftrightarrow> k \<notin> hb_key ` set chain"
  by (induction chain) (auto split: option.splits)

definition hash_struct :: "tn_hash \<Rightarrow> bool" where
  "hash_struct ht \<longleftrightarrow> table_ok ht \<and>
     (\<forall>i < hs_size ht. \<forall>b \<in> set (hs_table ht ! i). bucket_ok ht i b) \<and>
     distinct (map hb_key (hash_walk ht))"

lemma hash_inv_struct: "hash_inv ht \<longleftrightarrow> hash_struct ht \<and> hs_items ht = length (hash_walk ht)"
  by (auto simp: hash_inv_def hash_struct_def)

lemma remove_bucket_ll_ok:
  assumes "table_ok ht" "unat w < hs_size ht"
  shows "remove_bucket_ll ht k w = (case unlink_bucket k (hs_table ht ! unat w) of
      None \<Rightarrow> Inr None
    | Some (b, ch) \<Rightarrow> if hs_na ht then Inl Mem_Fault else Inr (Some (ht\<lparr>hs_table := (hs_table ht)[unat w := ch],
        hs_items := hs_items ht - 1\<rparr>, hb_data b)))"
  using tbl_slot_ok [OF assms] slot_write_ok [OF assms]
  by (auto simp: remove_bucket_ll_def split: option.splits)

lemma n_hash_remove_struct:
  assumes "hash_struct ht" "i < hs_size ht" "b \<in> set (hs_table ht ! i)"
  shows "\<exists>ch. unlink_bucket (hb_key b) (hs_table ht ! i) = Some (b, ch) \<and>
    n_hash_remove e ht (hb_key b) = (if hs_na ht then Inl Mem_Fault
      else Inr (ht\<lparr>hs_table := (hs_table ht)[i := ch], hs_items := hs_items ht - 1\<rparr>, hb_data b))"
proof -
  let ?k = "hb_key b"
  have t: "table_ok ht" and d: "distinct (map hb_key (hash_walk ht))"
    and bo: "bucket_ok ht i b" using assms by (auto simp: hash_struct_def)
  have k: "key_ok ?k" using bo by (simp add: bucket_ok_def)
  obtain w where w: "slot_ok ht ?k w" "i = unat w" using bo by (auto simp: bucket_ok_def)
  obtain x ch where ch: "unlink_bucket ?k (hs_table ht ! i) = Some (x, ch)"
    using assms(3) unlink_bucket_None [of ?k "hs_table ht ! i"]
    by (cases "unlink_bucket ?k (hs_table ht ! i)") auto
  have "x = b" using struct_unique [OF t d assms(2,2) assms(3), of x] unlink_bucket_Some [OF ch] by auto
  note ch = ch [unfolded this]
  have rb: "remove_bucket_ll ht ?k v = (if v = w then if hs_na ht then Inl Mem_Fault
      else Inr (Some (ht\<lparr>hs_table := (hs_table ht)[i := ch], hs_items := hs_items ht - 1\<rparr>, hb_data b))
      else Inr None)" if "slot_ok ht ?k v" for v
  proof -
    have v: "unat v < hs_size ht" by (rule slot_ok_lt [OF t that])
    show ?thesis
    proof (cases "v = w")
      case True
      then show ?thesis using remove_bucket_ll_ok [OF t v, of ?k] ch w(2) by simp
    next
      case False
      then have "unat v \<noteq> i" using w(2) by (auto simp: word_unat_eq_iff)
      then have "?k \<notin> hb_key ` set (hs_table ht ! unat v)"
        using struct_unique [OF t d assms(2) v assms(3)] by (metis imageE)
      then have "unlink_bucket ?k (hs_table ht ! unat v) = None" by (simp only: unlink_bucket_None not_False_eq_True)
      then show ?thesis using remove_bucket_ll_ok [OF t v, of ?k] False by simp
    qed
  qed
  have so: "slot_ok ht ?k (home ht ?k)"
    "in_table ht (home ht ?k + kshift ?k) \<Longrightarrow> slot_ok ht ?k (home ht ?k + kshift ?k)"
    "kshift ?k < home ht ?k \<Longrightarrow> slot_ok ht ?k (home ht ?k - kshift ?k)"
    by (auto simp: slot_ok_def)
  have "w = home ht ?k \<or> w = home ht ?k + kshift ?k \<and> in_table ht (home ht ?k + kshift ?k) \<or>
      w = home ht ?k - kshift ?k \<and> kshift ?k < home ht ?k" using w(1) by (auto simp: slot_ok_def)
  then have "n_hash_remove e ht ?k = (if hs_na ht then Inl Mem_Fault
      else Inr (ht\<lparr>hs_table := (hs_table ht)[i := ch], hs_items := hs_items ht - 1\<rparr>, hb_data b))"
    using rb [OF so(1)] rb [OF so(2)] rb [OF so(3)]
    by (auto simp: n_hash_remove_def compute_hash [OF k] nextslotv [OF k])
  then show ?thesis using ch by blast
qed

lemma n_hash_remove_absent:
  assumes "hash_inv ht" "key_ok k" "hash_map ht k = None"
  shows "n_hash_remove e ht k = Inr (ht, NULL)"
proof -
  have t: "table_ok ht" using assms(1) by (simp add: hash_inv_def)
  have nl: "k \<notin> hb_key ` set (hash_walk ht)"
    using assms(3) lookup_None [of ht k] by (simp add: hash_map_lookup)
  have rb: "remove_bucket_ll ht k v = Inr None" if "slot_ok ht k v" for v
  proof -
    have v: "unat v < hs_size ht" by (rule slot_ok_lt [OF t that])
    then have "k \<notin> hb_key ` set (hs_table ht ! unat v)" using nl walk_mem [OF t] by blast
    then have "unlink_bucket k (hs_table ht ! unat v) = None" by (simp only: unlink_bucket_None not_False_eq_True)
    then show ?thesis using remove_bucket_ll_ok [OF t v, of k] by simp
  qed
  have so: "slot_ok ht k (home ht k)"
    "in_table ht (home ht k + kshift k) \<Longrightarrow> slot_ok ht k (home ht k + kshift k)"
    "kshift k < home ht k \<Longrightarrow> slot_ok ht k (home ht k - kshift k)"
    by (auto simp: slot_ok_def)
  show ?thesis using rb [OF so(1)] rb [OF so(2)] rb [OF so(3)]
    by (simp add: n_hash_remove_def compute_hash [OF assms(2)] nextslotv [OF assms(2)])
qed

lemma hash_drop:
  assumes "hash_inv ht" "i < hs_size ht" "unlink_bucket k (hs_table ht ! i) = Some (b, ch)"
  defines "ht' \<equiv> ht\<lparr>hs_table := (hs_table ht)[i := ch], hs_items := hs_items ht - 1\<rparr>"
  shows "hash_inv ht'" "hash_map ht' = (hash_map ht)(k := None)" "hash_map ht k = Some (hb_data b)"
proof -
  have t: "table_ok ht" using assms(1) by (simp add: hash_inv_def)
  note un = unlink_bucket_Some [OF assms(3)]
  have "mset (hash_walk ht') + mset (hs_table ht ! i) = mset (hash_walk ht) + mset ch"
    using walk_update [OF t assms(2), of ch] by (simp add: ht'_def)
  then have ms: "mset (b # hash_walk ht') = mset (hash_walk ht)" using un by simp
  have dis: "distinct (map hb_key (b # hash_walk ht'))"
    using assms(1) distinct_mset [OF ms, of hb_key] by (simp add: hash_inv_def)
  show "hash_inv ht'"
    using un dis mset_eq_length [OF ms] assms(1,2)
    by (intro hash_inv_change [OF assms(1,2), of ch]) (auto simp: ht'_def hash_inv_def)
  have "map_of (map (\<lambda>b. (hb_key b, hb_data b)) (hash_walk ht')) k = None"
    using dis un by (auto simp: map_of_eq_None_iff)
  then show "hash_map ht' = (hash_map ht)(k := None)" "hash_map ht k = Some (hb_data b)"
    using un unfolding hash_map_def bucket_map_mset [OF ms dis, symmetric] by (auto simp: fun_eq_iff)
qed

lemma n_hash_remove_ok:
  assumes "hash_inv ht" "key_ok k" "\<not> hs_na ht"
  shows "\<exists>ht'. n_hash_remove e ht k = Inr (ht', case hash_map ht k of None \<Rightarrow> NULL | Some p \<Rightarrow> p) \<and>
    hash_inv ht' \<and> hash_map ht' = (hash_map ht)(k := None) \<and> hash_conf ht' = hash_conf ht \<and>
    hs_freed ht' = hs_freed ht \<and> hs_size ht' = hs_size ht"
proof (cases "hash_lookup ht k")
  case None
  then have none: "hash_map ht k = None" by (simp add: hash_map_lookup)
  then have "(hash_map ht)(k := None) = hash_map ht" by auto
  then show ?thesis using n_hash_remove_absent [OF assms(1,2) none, of e] assms(1) none by simp
next
  case (Some b)
  have t: "table_ok ht" using assms(1) by (simp add: hash_inv_def)
  obtain i where i: "i < hs_size ht" "b \<in> set (hs_table ht ! i)" "hb_key b = k"
    using Some lookup_Some [OF assms(1)] walk_mem [OF t] by auto
  have st: "hash_struct ht" using assms(1) by (simp add: hash_inv_struct)
  from n_hash_remove_struct [OF st i(1,2), of e] obtain ch where ch:
    "unlink_bucket k (hs_table ht ! i) = Some (b, ch)"
    "n_hash_remove e ht k = Inr (ht\<lparr>hs_table := (hs_table ht)[i := ch], hs_items := hs_items ht - 1\<rparr>, hb_data b)"
    using assms(3) i(3) by auto
  show ?thesis using hash_drop [OF assms(1) i(1) ch(1)] ch(2) by (simp add: hash_conf_def)
qed


section \<open>Cleaning, freeing, walking\<close>

lemma hash_struct_simps [simp]:
  "hash_struct (ht\<lparr>hs_items := n\<rparr>) = hash_struct ht" "hash_struct (ht\<lparr>hs_freed := l\<rparr>) = hash_struct ht"
  "hash_struct (hs_free ht p) = hash_struct ht"
  by (simp_all add: hash_struct_def)

lemma struct_clear:
  assumes "hash_struct ht" "i < hs_size ht"
  shows "hash_struct (ht\<lparr>hs_table := (hs_table ht)[i := []]\<rparr>)"
proof -
  let ?h = "ht\<lparr>hs_table := (hs_table ht)[i := []]\<rparr>"
  have t: "table_ok ht" using assms(1) by (simp add: hash_struct_def)
  have ms: "mset (hash_walk ?h @ hs_table ht ! i) = mset (hash_walk ht)"
    using walk_update [OF t assms(2), of "[]"] by simp
  have "distinct (map hb_key (hash_walk ?h @ hs_table ht ! i))"
    using assms(1) distinct_mset [OF ms, of hb_key] by (simp only: hash_struct_def)
  then have "distinct (map hb_key (hash_walk ?h))" by simp
  moreover have "\<forall>b\<in>set (hs_table ?h ! j). bucket_ok ht j b" if "j < hs_size ht" for j
    using assms that t by (cases "j = i") (auto simp: hash_struct_def table_ok_def)
  ultimately show ?thesis using t by (simp add: hash_struct_def)
qed

text \<open>The pointers \<open>n_hash_clean\<close> gives to \<open>free_fn\<close>: the first of each chain only.\<close>

definition free_list :: "tn_hash \<Rightarrow> ptr list \<Rightarrow> ptr list" where
  "free_list ht ps = (if hs_free_fn ht = None then [] else filter (\<lambda>p. p \<noteq> NULL) ps)"

definition chain_heads :: "hash_bucket list list \<Rightarrow> ptr list" where
  "chain_heads tbl = map (\<lambda>ch. hb_data (hd ch)) (filter (\<lambda>ch. ch \<noteq> []) tbl)"

lemma clean_slot_ok:
  assumes "hash_struct ht" "i < hs_size ht" "\<not> hs_na ht"
  shows "\<exists>ht'. clean_slot e ht i = Inr ht' \<and> hs_table ht' = (hs_table ht)[i := []] \<and> hash_struct ht' \<and>
    hash_conf ht' = hash_conf ht \<and> hs_size ht' = hs_size ht \<and>
    hs_freed ht' = hs_freed ht @ free_list ht (chain_heads [hs_table ht ! i])"
proof -
  have t: "table_ok ht" using assms(1) by (simp add: hash_struct_def)
  then have rd: "i < length (hs_table ht)" using assms(2) by (simp add: table_ok_def)
  show ?thesis
  proof (cases "hs_table ht ! i")
    case Nil
    then show ?thesis using rd assms(1)
      by (intro exI [of _ ht]) (simp add: clean_slot_def mem_read_def free_list_def chain_heads_def
          list_update_id [of "hs_table ht" i, simplified Nil])
  next
    case (Cons b bs)
    from n_hash_remove_struct [OF assms(1,2), of b e] Cons assms(3)
    have rm: "n_hash_remove e ht (hb_key b) = Inr (ht\<lparr>hs_table := (hs_table ht)[i := bs],
        hs_items := hs_items ht - 1\<rparr>, hb_data b)" by simp
    let ?h = "hs_free (ht\<lparr>hs_table := (hs_table ht)[i := bs], hs_items := hs_items ht - 1\<rparr>) (hb_data b)"
    let ?h' = "?h\<lparr>hs_table := (hs_table ht)[i := []]\<rparr>"
    have "clean_slot e ht i = Inr ?h'"
      using rd rm Cons by (simp add: clean_slot_def mem_read_def mem_write_def)
    moreover have eq: "?h' = (ht\<lparr>hs_table := (hs_table ht)[i := []]\<rparr>)
        \<lparr>hs_items := hs_items ht - 1, hs_freed := hs_freed ?h\<rparr>"
      by (simp add: hs_free_def)
    have "hash_struct ?h'" unfolding eq using struct_clear [OF assms(1,2)] by simp
    moreover have "hash_conf ?h' = hash_conf ht" unfolding eq by simp
    moreover have "hs_freed ?h = hs_freed ht @ free_list ht (chain_heads [hs_table ht ! i])"
      using Cons by (simp add: hs_free_def free_list_def chain_heads_def)
    ultimately show ?thesis by (intro exI [of _ ?h']) simp
  qed
qed

lemma clean_slots_ok:
  assumes "hash_struct ht" "n \<le> hs_size ht" "\<not> hs_na ht"
  shows "\<exists>ht'. clean_slots e ht n = Inr ht' \<and> hs_table ht' = replicate n [] @ drop n (hs_table ht) \<and>
    hash_struct ht' \<and> hash_conf ht' = hash_conf ht \<and> hs_size ht' = hs_size ht \<and>
    hs_freed ht' = hs_freed ht @ free_list ht (chain_heads (take n (hs_table ht)))"
  using assms(2)
proof (induction n)
  case 0
  then show ?case using assms(1) by (simp add: free_list_def chain_heads_def)
next
  case (Suc n)
  then obtain h1 where h1: "clean_slots e ht n = Inr h1" "hs_table h1 = replicate n [] @ drop n (hs_table ht)"
    "hash_struct h1" "hash_conf h1 = hash_conf ht" "hs_size h1 = hs_size ht"
    "hs_freed h1 = hs_freed ht @ free_list ht (chain_heads (take n (hs_table ht)))" by auto
  have n: "n < length (hs_table ht)" using Suc.prems assms(1) by (simp add: hash_struct_def table_ok_def)
  have na: "\<not> hs_na h1" "hs_free_fn h1 = hs_free_fn ht" using h1(4) assms(3) by (simp_all add: hash_conf_def)
  from clean_slot_ok [OF h1(3) _ na(1), of n e] Suc.prems h1(5) obtain h2 where h2:
    "clean_slot e h1 n = Inr h2" "hs_table h2 = (hs_table h1)[n := []]" "hash_struct h2"
    "hash_conf h2 = hash_conf h1" "hs_size h2 = hs_size h1"
    "hs_freed h2 = hs_freed h1 @ free_list h1 (chain_heads [hs_table h1 ! n])" by auto
  have dr: "drop n (hs_table ht) = hs_table ht ! n # drop (Suc n) (hs_table ht)"
    using n by (rule Cons_nth_drop_Suc [symmetric])
  then have "hs_table h2 = replicate n [] @ [] # drop (Suc n) (hs_table ht)" "hs_table h1 ! n = hs_table ht ! n"
    using h1(2) h2(2) by (simp_all add: list_update_append nth_append)
  moreover have "chain_heads (take (Suc n) (hs_table ht)) =
      chain_heads (take n (hs_table ht)) @ chain_heads [hs_table ht ! n]"
    using n by (simp add: take_Suc_conv_snoc chain_heads_def)
  ultimately show ?case using h1 h2 na(2)
    by (simp add: free_list_def replicate_app_Cons_same)
qed

lemma n_hash_clean_ok:
  assumes "hash_inv ht" "\<not> hs_na ht"
  shows "\<exists>ht'. n_hash_clean e ht = Inr ht' \<and> hash_inv ht' \<and> hash_map ht' = Map.empty \<and>
    hash_conf ht' = hash_conf ht \<and>
    hs_freed ht' = hs_freed ht @ free_list ht (chain_heads (take (hs_size ht) (hs_table ht))) \<and>
    hs_size ht' = hs_size ht"
proof -
  have st: "hash_struct ht" using assms(1) by (simp add: hash_inv_struct)
  from clean_slots_ok [OF st order_refl assms(2), of e] obtain h1 where h1:
    "clean_slots e ht (hs_size ht) = Inr h1"
    "hs_table h1 = replicate (hs_size ht) [] @ drop (hs_size ht) (hs_table ht)"
    "hash_struct h1" "hash_conf h1 = hash_conf ht" "hs_size h1 = hs_size ht"
    "hs_freed h1 = hs_freed ht @ free_list ht (chain_heads (take (hs_size ht) (hs_table ht)))" by blast
  have "hash_walk h1 = []" using h1(2,5) by (simp add: hash_walk_def)
  then show ?thesis using h1
    by (simp add: n_hash_clean_def hash_inv_struct hash_map_def)
qed

lemma free_walk:
  "fold (\<lambda>b ht. hs_free ht (hb_data b)) bs ht = ht\<lparr>hs_freed := hs_freed ht @ free_list ht (map hb_data bs)\<rparr>"
  by (induction bs arbitrary: ht) (simp_all add: hs_free_def free_list_def)

section \<open>The dictionary contract\<close>

definition hash_put_s :: "env \<Rightarrow> tn_hash \<Rightarrow> bytes \<Rightarrow> ptr \<Rightarrow> tn_hash result" where
  "hash_put_s e ht k p = rbind (n_hash_replace e ht k p) (\<lambda>(ht, _). Inr ht)"

text \<open>A table for general use: replacing allowed, no own allocator, below the size limit.\<close>

definition hash_plain :: "tn_hash \<Rightarrow> bool" where
  "hash_plain ht \<longleftrightarrow> hash_inv ht \<and> \<not> hs_has ht TN_HASH_NOREPLACE \<and> \<not> hs_na ht \<and> hs_size ht < 2 ^ 30"

lemma hash_finite: "finite (dom (hash_map ht))"
  by (simp add: hash_map_def finite_dom_map_of)

interpretation hashd: dict "n_hash_get e" "hash_put_s e" "n_hash_remove e" hash_map hash_plain key_ok "2 ^ 26"
  for e
proof (unfold_locales, goal_cases)
  case (1 ht k)
  then show ?case using n_hash_get_ok(1) by (simp add: hash_plain_def)
next
  case (2 ht k p)
  then have pl: "hash_inv ht" "\<not> hs_has ht TN_HASH_NOREPLACE" "\<not> hs_na ht" "hs_size ht < 2 ^ 30"
    by (simp_all add: hash_plain_def)
  have it: "hs_items ht < 2 ^ 26" using 2(3) same_buckets_map(2) [OF refl pl(1)] by simp
  then have "hs_items ht < 2 ^ 32" by simp
  from n_hash_put_ok [OF pl(1) 2(2) pl(2,4) this, of 0 e p True] obtain ht' where ht':
    "n_hash_put e ht k 0 p True = Inr (ht', True)" "hash_inv ht'" "hash_conf ht' = hash_conf ht"
    "hash_map ht' = (hash_map ht)(k \<mapsto> p)"
    "hs_size ht' = hs_size ht \<or> hs_size ht' = 4 * hs_size ht \<and> hs_size ht \<le> 2 * hs_items ht" by auto
  have "hash_plain ht'"
    using ht'(2,3,5) pl it by (auto simp: hash_plain_def hash_conf_def hs_has_def)
  then show ?case using ht'(1,4) pl(2) by (auto simp: hash_put_s_def n_hash_replace_def n_hash_hreplace_def)
next
  case (3 ht k)
  then show ?case using n_hash_remove_ok [of ht k e]
    by (auto simp: hash_plain_def hash_conf_def hs_has_def)
next
  case 4
  then show ?case by (simp add: hash_finite)
qed


section \<open>Properties\<close>

lemma rsize_loop_ok:
  "0 < r \<Longrightarrow> n \<le> rsize_loop r n \<and> r \<le> rsize_loop r n \<and> (rsize_loop r n = r \<or> rsize_loop r n < 2 * n)"
proof (induction r n rule: rsize_loop.induct)
  case (1 r n)
  show ?case
  proof (cases "r < n")
    case True
    then show ?thesis using 1 by (subst (1 2 3 4) rsize_loop.simps) auto
  next
    case False
    then show ?thesis by (simp add: rsize_loop.simps [of r n])
  qed
qed

lemma new_hash_plain:
  assumes "n \<le> 2 ^ 29" "n_hash_ctl e (n_hash_new_ex n freefn False) flags = Inr (ht, 1)"
    "flags AND TN_HASH_NOREPLACE = 0"
  shows "hash_plain ht" "hash_map ht = Map.empty"
proof -
  let ?r = "rsize_loop 4 n"
  have r: "4 \<le> ?r" "?r < 2 ^ 30" using rsize_loop_ok [of 4 n] assms(1) by auto
  have ht: "ht = \<lparr>hs_refcnt = 0, hs_flags = flags, hs_size = ?r, hs_table = replicate ?r [],
     hs_items = 0, hs_free_fn = freefn, hs_na = False, hs_freed = []\<rparr>"
    using assms(2) r
    by (simp add: n_hash_ctl_def n_hash_new_ex_def n_hash_new2_def do_n_hash_new_ex_def)
  have inv: "hash_inv ht" "hash_walk ht = []" using empty_inv [of ht ?r] r unfolding ht by simp_all
  then show "hash_plain ht" using r assms(3) by (simp add: hash_plain_def hs_has_def ht)
  show "hash_map ht = Map.empty" using inv(2) by (simp add: hash_map_def)
qed

text \<open>C2: The chained hash table is a map: on a new table (any size up to \<open>2\<^sup>2\<^sup>9\<close>, any flags but
  \<open>NOREPLACE\<close>, so with automatic growth or without), every sequence of at most \<open>2\<^sup>2\<^sup>6\<close> calls of
  get, replace and remove succeeds and gives the answers of a finite map, whatever the hash values
  and collisions of the keys.\<close>

theorem n_hash_is_map:
  assumes "n \<le> 2 ^ 29" "n_hash_ctl e (n_hash_new_ex n freefn False) flags = Inr (ht, 1)"
    "flags AND TN_HASH_NOREPLACE = 0" "\<forall>c\<in>set cs. key_ok (call_key c)" "length cs \<le> 2 ^ 26"
  shows "\<exists>ht'. dict_run (n_hash_get e) (hash_put_s e) (n_hash_remove e) ht cs =
      Inr (ht', snd (map_run Map.empty cs)) \<and>
    hash_inv ht' \<and> hash_map ht' = fst (map_run Map.empty cs) \<and>
    n_hash_size ht' = card (dom (fst (map_run Map.empty cs)))"
proof -
  note new = new_hash_plain [OF assms(1-3)]
  from hashd.run_ok [OF new(1) assms(4), of e] assms(5) new(2) obtain ht' where ht':
    "dict_run (n_hash_get e) (hash_put_s e) (n_hash_remove e) ht cs = Inr (ht', snd (map_run Map.empty cs))"
    "hash_plain ht'" "hash_map ht' = fst (map_run Map.empty cs)" by auto
  then have "hash_inv ht'" by (simp add: hash_plain_def)
  with ht' same_buckets_map(2) [OF refl this] show ?thesis by (auto simp: n_hash_size_def)
qed

lemma n_hash_is_map_witness:
  "\<exists>ht ht'. n_hash_ctl plain_env (n_hash_new_ex 4 None False) TN_HASH_REHASH = Inr (ht, 1) \<and>
    dict_run (n_hash_get plain_env) (hash_put_s plain_env) (n_hash_remove plain_env) ht
      [Put [97] 5, Put [98] 6, Get [97], Del [98], Get [98], Put [97] 7, Get [97]] = Inr (ht', [5, 6, 0, 7]) \<and>
    n_hash_size ht' = 1"
proof -
  obtain ht where ht: "n_hash_ctl plain_env (n_hash_new_ex 4 None False) TN_HASH_REHASH = Inr (ht, 1)"
    by (simp add: n_hash_ctl_def n_hash_new_ex_def n_hash_new2_def do_n_hash_new_ex_def)
  from n_hash_is_map [OF _ ht, of "[Put [97] 5, Put [98] 6, Get [97], Del [98], Get [98], Put [97] 7, Get [97]]"]
  show ?thesis using ht by (auto simp: TN_HASH_REHASH_def TN_HASH_NOREPLACE_def key_ok_def)
qed

text \<open>Inserting a key that is already in the table is a fatal error; with a hook that returns
  the call answers \<open>NULL\<close> and the table keeps its contents and calls no \<open>free_fn\<close>.\<close>

theorem n_hash_insert_duplicate:
  assumes "hash_plain ht" "key_ok k" "hash_map ht k = Some p" "n_hash_size ht < 2 ^ 32"
  shows "\<exists>ht'. n_hash_insert e ht k d =
      trurl_die e ''n_hash_insert: key already in table'' (Inr (ht', False)) \<and>
    hash_inv ht' \<and> hash_map ht' = hash_map ht \<and> hs_freed ht' = hs_freed ht"
  using n_hash_put_ok [of ht k 0 e d False] assms
  by (auto simp: n_hash_insert_def hash_plain_def n_hash_size_def)

text \<open>C17: \<open>n_hash_clean\<close> empties the table, but gives only the first entry of each collision
  chain to \<open>free_fn\<close>: the other entries of a chain are dropped, while \<open>n_hash_free\<close> gives
  every entry to it.\<close>

theorem n_hash_clean_frees_heads:
  assumes "hash_inv ht" "\<not> hs_na ht" "hs_refcnt ht = 0"
  shows "(\<exists>ht'. n_hash_clean e ht = Inr ht' \<and> hash_map ht' = Map.empty \<and> n_hash_size ht' = 0 \<and>
      hs_freed ht' = hs_freed ht @ free_list ht (chain_heads (take (hs_size ht) (hs_table ht)))) \<and>
    n_hash_free ht = (None, hs_freed ht @ free_list ht (map hb_data (hash_walk ht)))"
proof -
  from n_hash_clean_ok [OF assms(1,2), of e] obtain ht' where ht': "n_hash_clean e ht = Inr ht'"
    "hash_inv ht'" "hash_map ht' = Map.empty"
    "hs_freed ht' = hs_freed ht @ free_list ht (chain_heads (take (hs_size ht) (hs_table ht)))" by blast
  have "n_hash_size ht' = 0" using same_buckets_map(2) [OF refl ht'(2)] ht'(3) by (simp add: n_hash_size_def)
  moreover have "n_hash_free ht = (None, hs_freed ht @ free_list ht (map hb_data (hash_walk ht)))"
    using assms(3) by (simp add: n_hash_free_def free_walk)
  ultimately show ?thesis using ht' by blast
qed

text \<open>A table of one slot with a chain of two.\<close>

definition two_chain :: tn_hash where
  "two_chain = \<lparr>hs_refcnt = 0, hs_flags = 0, hs_size = 1,
     hs_table = [[\<lparr>hb_data = 5, hb_key = [97], hb_klen = 1\<rparr>, \<lparr>hb_data = 6, hb_key = [98], hb_klen = 1\<rparr>]],
     hs_items = 2, hs_free_fn = Some 0, hs_na = False, hs_freed = []\<rparr>"

lemma two_chain_inv: "hash_inv two_chain" "hash_inv (two_chain\<lparr>hs_na := True\<rparr>)"
  by (auto simp: two_chain_def hash_inv_def table_ok_def hash_walk_def bucket_ok_def key_ok_def
      slot_ok_def home_def intro!: exI [of _ "0 :: 32 word"])

lemma two_chain_plain: "hash_plain two_chain"
  using two_chain_inv by (simp add: hash_plain_def two_chain_def hs_has_def)

lemma n_hash_insert_duplicate_witness:
  "n_hash_insert plain_env two_chain [98] 9 = Inl (Died ''n_hash_insert: key already in table'') \<and>
   (\<exists>ht. n_hash_insert (fst (n_die_set_hook plain_env True)) two_chain [98] 9 = Inr (ht, False) \<and>
     hash_map ht [98] = Some 6 \<and> hs_freed ht = [])"
proof -
  have h: "hash_map two_chain [98] = Some 6" "key_ok [98]" "n_hash_size two_chain < 2 ^ 32"
    "hs_freed two_chain = []"
    by (simp_all add: two_chain_def hash_map_def hash_walk_def key_ok_def n_hash_size_def)
  from n_hash_insert_duplicate [OF two_chain_plain h(2,1,3), of plain_env 9]
    n_hash_insert_duplicate [OF two_chain_plain h(2,1,3), of "fst (n_die_set_hook plain_env True)" 9]
  show ?thesis by (auto simp: n_die_set_hook_def h)
qed

lemma n_hash_clean_frees_heads_witness:
  "(\<exists>ht. n_hash_clean plain_env two_chain = Inr ht \<and> hs_freed ht = [5]) \<and>
   n_hash_free two_chain = (None, [5, 6])"
  using n_hash_clean_frees_heads [OF two_chain_inv(1), of plain_env]
  by (auto simp: two_chain_def free_list_def chain_heads_def hash_walk_def)

text \<open>\<open>n_hash_remove\<close> gives the bucket to \<open>free\<close>: in a table made by \<open>n_hash_new_na\<close>,
  whose buckets come from the table's own allocator, removing a key that is there is a memory
  error.\<close>

theorem n_hash_remove_na_faults:
  assumes "hash_inv ht" "hs_na ht" "hash_map ht k = Some p"
  shows "n_hash_remove e ht k = Inl Mem_Fault"
proof -
  have t: "table_ok ht" using assms(1) by (simp add: hash_inv_def)
  obtain b where b: "hash_lookup ht k = Some b" using assms(3) by (auto simp: hash_map_lookup)
  then obtain i where i: "i < hs_size ht" "b \<in> set (hs_table ht ! i)" "hb_key b = k"
    using lookup_Some [OF assms(1)] walk_mem [OF t] by auto
  have st: "hash_struct ht" using assms(1) by (simp add: hash_inv_struct)
  from n_hash_remove_struct [OF st i(1,2), of e] show ?thesis using assms(2) i(3) by auto
qed

lemma n_hash_remove_na_faults_witness:
  "n_hash_remove plain_env (two_chain\<lparr>hs_na := True\<rparr>) [98] = Inl Mem_Fault"
proof (rule n_hash_remove_na_faults)
  show "hash_inv (two_chain\<lparr>hs_na := True\<rparr>)" by (rule two_chain_inv)
  show "hash_map (two_chain\<lparr>hs_na := True\<rparr>) [98] = Some 6"
    by (simp add: two_chain_def hash_map_def hash_walk_def)
qed (simp add: two_chain_def)

text \<open>Walks: the mapping functions, the key list and the value array see each entry once.\<close>

lemma push_all_list: "push_all e a ps = push_list (array_push_s e) a ps"
proof (induction ps arbitrary: a)
  case (Cons p ps)
  then show ?case by (cases "n_array_push_inl e a p") (auto simp: array_push_s_def)
qed simp



end
