(* ===== verification/HashReach.thy ===== *)
theory HashReach
  imports HashProps
begin

text \<open>
  Copies of a chained hash table, and the tables a program can reach: whatever sequence of
  operations made a table, with hooks that let the program go on after a fatal message or
  without, the table is well-formed and every operation on it returns or ends in the message
  it has for the case.
\<close>

section \<open>Copies\<close>

lemma hash_items_card: "hash_inv ht \<Longrightarrow> hs_items ht = card (dom (hash_map ht))"
  using same_buckets_map(2) [OF refl] by metis

lemma insert_all_ok:
  assumes "hash_plain h" "distinct (map fst kps)" "\<forall>(k, p)\<in>set kps. key_ok k \<and> hash_map h k = None"
    "hs_items h + length kps \<le> 2 ^ 26"
  shows "\<exists>h'. insert_all e h kps = Inr h' \<and> hash_plain h' \<and> hash_map h' = hash_map h ++ map_of kps \<and>
    hash_conf h' = hash_conf h"
  using assms
proof (induction kps arbitrary: h)
  case (Cons kp kps)
  obtain k p where kp: "kp = (k, p)" by (cases kp)
  have pl: "hash_inv h" "\<not> hs_has h TN_HASH_NOREPLACE" "\<not> hs_na h" "hs_size h < 2 ^ 30" and
    k: "key_ok k" "hash_map h k = None" and it: "hs_items h < 2 ^ 26"
    using Cons.prems by (auto simp: hash_plain_def kp)
  from n_hash_put_ok [OF pl(1) k(1) pl(2,4) order.strict_trans [OF it], of 0 e p False] k(2) obtain h1 where
    h1: "n_hash_insert e h k p = Inr (h1, True)" "hash_inv h1" "hash_conf h1 = hash_conf h" "hash_map h1 = (hash_map h)(k \<mapsto> p)"
      "hs_size h1 = hs_size h \<or> hs_size h1 = 4 * hs_size h \<and> hs_size h \<le> 2 * hs_items h"
    by (auto simp: n_hash_insert_def)
  have "hash_plain h1" using h1(2,3,5) pl it by (auto simp: hash_plain_def hash_conf_def hs_has_def)
  moreover have "hs_items h1 = Suc (hs_items h)"
    using hash_items_card [OF h1(2)] hash_items_card [OF pl(1)] h1(4) k(2) hash_finite [of h] by (simp add: domIff)
  moreover have "\<forall>(k', p)\<in>set kps. key_ok k' \<and> hash_map h1 k' = None"
  proof (intro ballI, clarify)
    fix k' p' assume a: "(k', p') \<in> set kps"
    then have "k' \<noteq> k" using Cons.prems(2) kp by (auto simp: image_iff)
    then show "key_ok k' \<and> hash_map h1 k' = None" using Cons.prems(3) a h1(4) by auto
  qed
  ultimately obtain h' where "insert_all e h1 kps = Inr h'" "hash_plain h'" "hash_map h' = hash_map h1 ++ map_of kps"
    "hash_conf h' = hash_conf h1"
    using Cons.IH [of h1] Cons.prems(2,4) by auto
  moreover have "hash_map h1 ++ map_of kps = hash_map h ++ map_of ((k, p) # kps)"
    using Cons.prems(2) by (simp add: h1(4) kp map_add_upd_left dom_map_of_conv_image_fst)
  ultimately have "insert_all e h (kp # kps) = Inr h' \<and> hash_plain h' \<and> hash_map h' = hash_map h ++ map_of (kp # kps) \<and>
      hash_conf h' = hash_conf h"
    using h1(1,3) kp by (simp del: fun_upd_apply map_of.simps)
  then show ?case by blast
qed simp

text \<open>A copy has the keys of the table; its data are copies when there is a function for that.\<close>

definition dup_data :: "env \<Rightarrow> nat option \<Rightarrow> ptr \<Rightarrow> ptr" where
  "dup_data e dup_fn p = (case dup_fn of None \<Rightarrow> p | Some d \<Rightarrow> if p \<noteq> NULL then user_dup e d p else NULL)"

lemma n_hash_dup_ok:
  assumes "hash_plain ht" "n_hash_size ht \<le> 2 ^ 26"
  shows "\<exists>ht'. n_hash_dup e ht dup_fn = Inr ht' \<and> hash_plain ht' \<and>
    hash_map ht' = (\<lambda>k. map_option (dup_data e dup_fn) (hash_map ht k))"
proof -
  have t: "table_ok ht" "distinct (map hb_key (hash_walk ht))" "hs_items ht = length (hash_walk ht)"
    "\<forall>i<hs_size ht. \<forall>b\<in>set (hs_table ht ! i). bucket_ok ht i b" "\<not> hs_has ht TN_HASH_NOREPLACE" "hs_size ht < 2 ^ 30"
    using assms(1) by (simp_all add: hash_plain_def hash_inv_def)
  let ?h = "(n_hash_new_ex (hs_size ht) None False)\<lparr>hs_size := hs_size ht, hs_items := 0, hs_free_fn := hs_free_fn ht,
    hs_flags := hs_flags ht AND NOT TN_HASH_NOCPKEY\<rparr>"
  let ?kps = "map (\<lambda>b. (hb_key b, dup_data e dup_fn (hb_data b))) (hash_walk ht)"
  have r: "hs_size ht \<le> rsize_loop 4 (hs_size ht)" using rsize_loop_ok [of 4 "hs_size ht"] by simp
  have inv: "hash_inv ?h" "hash_walk ?h = []"
    using empty_inv [of ?h "rsize_loop 4 (hs_size ht)"] t(1) r
    by (simp_all add: n_hash_new_ex_def n_hash_new2_def do_n_hash_new_ex_def table_ok_def)
  have flag: "(f AND NOT TN_HASH_NOCPKEY) AND TN_HASH_NOREPLACE = f AND TN_HASH_NOREPLACE" for f :: "16 word"
    by (simp add: TN_HASH_NOCPKEY_def TN_HASH_NOREPLACE_def and.assoc)
  have "hash_plain ?h" using inv(1) t(5,6) flag
    by (simp add: hash_plain_def hs_has_def n_hash_new_ex_def n_hash_new2_def do_n_hash_new_ex_def)
  moreover have "hash_map ?h = Map.empty" using inv(2) by (simp add: hash_map_def)
  moreover have "\<forall>(k, p)\<in>set ?kps. key_ok k"
  proof -
    have "key_ok (hb_key b)" if "b \<in> set (hash_walk ht)" for b
      using that t(1,4) by (fastforce simp: hash_walk_def in_set_conv_nth table_ok_def bucket_ok_def)
    then show ?thesis by auto
  qed
  moreover have "distinct (map fst ?kps)" using t(2) by (simp add: comp_def)
  moreover have "hs_items ?h + length ?kps \<le> 2 ^ 26" using assms(2) t(3) by (simp add: n_hash_size_def)
  ultimately obtain ht' where "insert_all e ?h ?kps = Inr ht'" "hash_plain ht'" "hash_map ht' = map_of ?kps"
    using insert_all_ok [of ?h ?kps e] by auto
  moreover have "map_of ?kps = (\<lambda>k. map_option (dup_data e dup_fn) (hash_map ht k))"
  proof -
    have m: "map_of (map (\<lambda>b. (hb_key b, f (hb_data b))) bs) k = map_option f (map_of (map (\<lambda>b. (hb_key b, hb_data b)) bs) k)"
      for f k and bs :: "hash_bucket list" by (induction bs) auto
    show ?thesis unfolding hash_map_def by (rule ext) (rule m)
  qed
  moreover have "n_hash_dup e ht dup_fn = insert_all e ?h ?kps"
    by (auto simp: n_hash_dup_def dup_data_def Let_def split: option.splits)
  ultimately show ?thesis by auto
qed

section \<open>Reachable tables\<close>

text \<open>The tables a program can have, up to \<open>2\<^sup>2\<^sup>6\<close> keys, without \<open>NOREPLACE\<close> and without an own allocator.\<close>

inductive hash_reach :: "env \<Rightarrow> tn_hash \<Rightarrow> bool" for e where
  Reach_New: "n \<le> 2 ^ 29 \<Longrightarrow> hash_reach e (n_hash_new_ex n freefn False)"
| Reach_Ctl: "hash_reach e ht \<Longrightarrow> flags AND TN_HASH_NOREPLACE = 0 \<Longrightarrow> n_hash_ctl e ht flags = Inr (ht', r) \<Longrightarrow> hash_reach e ht'"
| Reach_Insert: "hash_reach e ht \<Longrightarrow> key_ok k \<Longrightarrow> n_hash_size ht < 2 ^ 26 \<Longrightarrow>
    n_hash_insert e ht k d = Inr (ht', ok) \<Longrightarrow> hash_reach e ht'"
| Reach_Replace: "hash_reach e ht \<Longrightarrow> key_ok k \<Longrightarrow> n_hash_size ht < 2 ^ 26 \<Longrightarrow>
    n_hash_replace e ht k d = Inr (ht', ok) \<Longrightarrow> hash_reach e ht'"
| Reach_Remove: "hash_reach e ht \<Longrightarrow> key_ok k \<Longrightarrow> n_hash_remove e ht k = Inr (ht', p) \<Longrightarrow> hash_reach e ht'"
| Reach_Clean: "hash_reach e ht \<Longrightarrow> n_hash_clean e ht = Inr ht' \<Longrightarrow> hash_reach e ht'"
| Reach_Dup: "hash_reach e ht \<Longrightarrow> n_hash_size ht \<le> 2 ^ 26 \<Longrightarrow> n_hash_dup e ht dup_fn = Inr ht' \<Longrightarrow> hash_reach e ht'"

lemma hash_plain_conf:
  "hash_plain ht \<Longrightarrow> hash_inv ht' \<Longrightarrow> hash_conf ht' = hash_conf ht \<Longrightarrow> hs_size ht' < 2 ^ 30 \<Longrightarrow> hash_plain ht'"
  by (auto simp: hash_plain_def hash_conf_def hs_has_def)

lemma put_plain:
  assumes "hash_plain ht" "key_ok k" "n_hash_size ht < 2 ^ 26"
  shows "\<exists>ht'. n_hash_put e ht k 0 d replace = (if hash_map ht k \<noteq> None \<and> \<not> replace
      then trurl_die e ''n_hash_insert: key already in table'' (Inr (ht', False)) else Inr (ht', True)) \<and> hash_plain ht'"
proof -
  have pl: "hash_inv ht" "\<not> hs_has ht TN_HASH_NOREPLACE" "hs_size ht < 2 ^ 30" "hs_items ht < 2 ^ 26"
    using assms by (simp_all add: hash_plain_def n_hash_size_def)
  from n_hash_put_ok [OF pl(1) assms(2) pl(2,3) order.strict_trans [OF pl(4)], of 0 e d replace] obtain ht' where
    ht': "n_hash_put e ht k 0 d replace = (if hash_map ht k \<noteq> None \<and> \<not> replace
      then trurl_die e ''n_hash_insert: key already in table'' (Inr (ht', False)) else Inr (ht', True))"
      "hash_inv ht'" "hash_conf ht' = hash_conf ht"
      "hs_size ht' = hs_size ht \<or> hs_size ht' = 4 * hs_size ht \<and> hs_size ht \<le> 2 * hs_items ht" by auto
  then have "hash_plain ht'" using hash_plain_conf [OF assms(1) ht'(2,3)] pl(3,4) by auto
  with ht'(1) show ?thesis by blast
qed

lemma hash_inv_flags [simp]: "hash_inv (ht\<lparr>hs_flags := fl\<rparr>) = hash_inv ht"
  by (simp add: hash_inv_def table_ok_def hash_walk_def bucket_ok_def slot_ok_def home_def in_table_def)

lemma reach_plain: "hash_reach e ht \<Longrightarrow> hash_plain ht"
proof (induction rule: hash_reach.induct)
  case (Reach_New n freefn)
  then show ?case using new_hash_plain(1) [OF Reach_New, of e freefn 0]
    by (simp add: n_hash_ctl_def n_hash_new_ex_def n_hash_new2_def do_n_hash_new_ex_def)
next
  case (Reach_Ctl ht flags ht' r)
  then have "ht' = ht \<or> ht' = ht\<lparr>hs_flags := hs_flags ht OR flags\<rparr>"
    by (auto simp: n_hash_ctl_def trurl_die_def split: if_splits)
  then show ?case
  proof
    assume "ht' = ht\<lparr>hs_flags := hs_flags ht OR flags\<rparr>"
    moreover have "(hs_flags ht OR flags) AND TN_HASH_NOREPLACE = hs_flags ht AND TN_HASH_NOREPLACE"
      unfolding bit.conj_disj_distrib2 Reach_Ctl(2) by simp
    ultimately show "hash_plain ht'" using Reach_Ctl.IH by (simp add: hash_plain_def hs_has_def)
  qed (use Reach_Ctl.IH in simp)
next
  case (Reach_Insert ht k d ht' ok)
  from put_plain [OF Reach_Insert.IH Reach_Insert(2,3), of e d False] obtain h1 where
    "n_hash_insert e ht k d = (if hash_map ht k \<noteq> None \<and> \<not> False
      then trurl_die e ''n_hash_insert: key already in table'' (Inr (h1, False)) else Inr (h1, True))" "hash_plain h1"
    unfolding n_hash_insert_def by blast
  then show ?case using Reach_Insert(4) by (auto simp: trurl_die_def split: if_splits)
next
  case (Reach_Replace ht k d ht' ok)
  from put_plain [OF Reach_Replace.IH Reach_Replace(2,3), of e d True] obtain h1 where
    "n_hash_put e ht k 0 d True = Inr (h1, True)" "hash_plain h1" by auto
  then show ?case using Reach_Replace(4) Reach_Replace.IH by (simp add: n_hash_replace_def n_hash_hreplace_def hash_plain_def)
next
  case (Reach_Remove ht k ht' p)
  then show ?case using n_hash_remove_ok [of ht k e] hash_plain_conf [of ht ht'] by (auto simp: hash_plain_def)
next
  case (Reach_Clean ht ht')
  then show ?case using n_hash_clean_ok [of ht e] hash_plain_conf [of ht ht'] by (auto simp: hash_plain_def)
next
  case (Reach_Dup ht dup_fn ht')
  then show ?case using n_hash_dup_ok [of ht e dup_fn] by auto
qed



end
