(* ===== verification/LinkedList.thy ===== *)
theory LinkedList
  imports Prelude
begin

text \<open>
  The singly linked list \<open>tn_list\<close> (\<open>nlist.h\<close>, \<open>n_list_int.h\<close> and the \<open>n_list_*.c\<close>
  files). The nodes lie in a heap, a map from addresses to nodes; \<open>malloc\<close> gives the
  address \<open>ll_brk\<close>, \<open>free\<close> takes a node off the heap, and an access through \<open>NULL\<close>
  or to a freed node is \<open>Mem_Fault\<close>. An address is never given out twice, so a
  dangling pointer never becomes valid again. A loop along \<open>next\<close> gets as many steps
  as there are addresses; a longer way goes in a circle, which is \<open>Hang\<close>.
\<close>

section \<open>State\<close>

record list_node =
  ln_data :: ptr
  ln_next :: "nat option"

type_synonym node_heap = "nat \<Rightarrow> list_node option"

record tn_list =
  ll_refcnt :: "16 word"
  ll_flags :: "16 word"
  ll_items :: int
  ll_head :: "nat option"
  ll_tail :: "nat option"
  ll_free_fn :: "nat option"
  ll_cmp_fn :: "cmp_id option"
  ll_heap :: node_heap
  ll_brk :: nat
  ll_freed :: "ptr list"

definition TN_LIST_UNIQ :: "16 word" where "TN_LIST_UNIQ = 2"

definition ll_uniq :: "tn_list \<Rightarrow> bool" where
  "ll_uniq l = (ll_flags l AND TN_LIST_UNIQ \<noteq> 0)"

definition read_node :: "node_heap \<Rightarrow> nat option \<Rightarrow> list_node result" where
  "read_node h p = (case p of None \<Rightarrow> Inl Mem_Fault
    | Some a \<Rightarrow> (case h a of None \<Rightarrow> Inl Mem_Fault | Some n \<Rightarrow> Inr n))"

definition set_next :: "node_heap \<Rightarrow> nat option \<Rightarrow> nat option \<Rightarrow> node_heap result" where
  "set_next h p q = (case p of None \<Rightarrow> Inl Mem_Fault
    | Some a \<Rightarrow> (case h a of None \<Rightarrow> Inl Mem_Fault | Some n \<Rightarrow> Inr (h(a \<mapsto> n\<lparr>ln_next := q\<rparr>))))"

definition free_node :: "node_heap \<Rightarrow> nat option \<Rightarrow> node_heap result" where
  "free_node h p = (case p of None \<Rightarrow> Inr h
    | Some a \<Rightarrow> (case h a of None \<Rightarrow> Inl Mem_Fault | Some n \<Rightarrow> Inr (h(a := None))))"

definition n_list_new :: "16 word \<Rightarrow> nat option \<Rightarrow> cmp_id option \<Rightarrow> tn_list" where
  "n_list_new flags freef cmpf =
     \<lparr>ll_refcnt = 0, ll_flags = flags, ll_items = 0, ll_head = None, ll_tail = None,
      ll_free_fn = freef, ll_cmp_fn = (case cmpf of None \<Rightarrow> Some Cmp_Default | Some c \<Rightarrow> Some c),
      ll_heap = Map.empty, ll_brk = 0, ll_freed = []\<rparr>"

definition n_list_size :: "tn_list \<Rightarrow> int" where
  "n_list_size l = ll_items l"

section \<open>Walking\<close>

fun nth_loop :: "node_heap \<Rightarrow> nat option \<Rightarrow> int \<Rightarrow> int \<Rightarrow> nat \<Rightarrow> ptr result" where
  "nth_loop h p n i 0 = (if p = None then Inr NULL else Inl Hang)"
| "nth_loop h p n i (Suc f) =
     (if p = None then Inr NULL
      else rbind (read_node h p) (\<lambda>nd. if n = i then Inr (ln_data nd)
        else nth_loop h (ln_next nd) (n + 1) i f))"

definition n_list_nth :: "tn_list \<Rightarrow> int \<Rightarrow> ptr result" where
  "n_list_nth l i = nth_loop (ll_heap l) (ll_head l) 0 i (ll_brk l)"

fun lookup_loop :: "(ptr \<Rightarrow> ptr \<Rightarrow> int) \<Rightarrow> ptr \<Rightarrow> node_heap \<Rightarrow> nat option \<Rightarrow> nat \<Rightarrow> ptr result" where
  "lookup_loop c x h p 0 = (if p = None then Inr NULL else Inl Hang)"
| "lookup_loop c x h p (Suc f) =
     (if p = None then Inr NULL
      else rbind (read_node h p) (\<lambda>nd. if c (ln_data nd) x = 0 then Inr (ln_data nd)
        else lookup_loop c x h (ln_next nd) f))"

definition list_cmp :: "cmp_id option \<Rightarrow> tn_list \<Rightarrow> cmp_id option" where
  "list_cmp cmpf l = (case cmpf of None \<Rightarrow> ll_cmp_fn l | Some c \<Rightarrow> Some c)"

definition n_list_lookup_ex :: "env \<Rightarrow> tn_list \<Rightarrow> ptr \<Rightarrow> cmp_id option \<Rightarrow> ptr result" where
  "n_list_lookup_ex e l x cmpf =
     (case list_cmp cmpf l of
        None \<Rightarrow> trurl_die e ''n_list_lookup: cmpf function is NULL'' (Inr NULL)
      | Some c \<Rightarrow> lookup_loop (call_cmp e c) x (ll_heap l) (ll_head l) (ll_brk l))"

definition n_list_contains_ex :: "env \<Rightarrow> tn_list \<Rightarrow> ptr \<Rightarrow> cmp_id option \<Rightarrow> bool result" where
  "n_list_contains_ex e l x cmpf = rbind (n_list_lookup_ex e l x cmpf) (\<lambda>p. Inr (p \<noteq> NULL))"

text \<open>The calls of \<open>map_fn\<close>.\<close>

fun walk_loop :: "node_heap \<Rightarrow> nat option \<Rightarrow> nat \<Rightarrow> ptr list result" where
  "walk_loop h p 0 = (if p = None then Inr [] else Inl Hang)"
| "walk_loop h p (Suc f) =
     (if p = None then Inr []
      else rbind (read_node h p) (\<lambda>nd.
        rbind (walk_loop h (ln_next nd) f) (\<lambda>ds. Inr (ln_data nd # ds))))"

definition n_list_map_arg :: "env \<Rightarrow> tn_list \<Rightarrow> bool \<Rightarrow> ptr list result" where
  "n_list_map_arg e l has_fn =
     (if has_fn then walk_loop (ll_heap l) (ll_head l) (ll_brk l)
      else trurl_die e ''n_list_map_arg: map_fn function is NULL'' (Inr []))"

definition n_list_iterator_start :: "tn_list \<Rightarrow> nat option" where
  "n_list_iterator_start l = ll_head l"

definition n_list_iterator_get :: "tn_list \<Rightarrow> nat option \<Rightarrow> (nat option \<times> ptr) result" where
  "n_list_iterator_get l it =
     (if it = None then Inr (it, NULL)
      else rbind (read_node (ll_heap l) it) (\<lambda>nd. Inr (ln_next nd, ln_data nd)))"

section \<open>Adding\<close>

text \<open>In a \<open>UNIQ\<close> list an item that is there already is not added: the answer is \<open>NULL\<close>.\<close>

definition n_list_push :: "env \<Rightarrow> tn_list \<Rightarrow> ptr \<Rightarrow> (tn_list \<times> bool) result" where
  "n_list_push e l x =
     rbind (if ll_uniq l then n_list_contains_ex e l x None else Inr False) (\<lambda>there.
       if there then Inr (l, False)
       else let a = ll_brk l; nd = \<lparr>ln_data = x, ln_next = None\<rparr>;
                l = l\<lparr>ll_heap := (ll_heap l)(a \<mapsto> nd), ll_brk := a + 1\<rparr> in
         if ll_head l = None
         then Inr (l\<lparr>ll_head := Some a, ll_tail := Some a, ll_items := ll_items l + 1\<rparr>, True)
         else rbind (set_next (ll_heap l) (ll_tail l) (Some a))
           (\<lambda>h. Inr (l\<lparr>ll_heap := h, ll_tail := Some a, ll_items := ll_items l + 1\<rparr>, True)))"

definition n_list_unshift :: "env \<Rightarrow> tn_list \<Rightarrow> ptr \<Rightarrow> (tn_list \<times> bool) result" where
  "n_list_unshift e l x =
     rbind (if ll_uniq l then n_list_contains_ex e l x None else Inr False) (\<lambda>there.
       if there then Inr (l, False)
       else let a = ll_brk l; nd = \<lparr>ln_data = x, ln_next = ll_head l\<rparr> in
         Inr (l\<lparr>ll_heap := (ll_heap l)(a \<mapsto> nd), ll_brk := a + 1, ll_head := Some a,
               ll_items := ll_items l + 1\<rparr>, True))"

section \<open>Removing at the ends and by index\<close>

text \<open>\<open>for (node = l->head; node->next != tail_node; node = node->next)\<close>.\<close>

fun prev_loop :: "node_heap \<Rightarrow> nat option \<Rightarrow> nat option \<Rightarrow> nat \<Rightarrow> (nat option) result" where
  "prev_loop h p t 0 = Inl Hang"
| "prev_loop h p t (Suc f) =
     rbind (read_node h p) (\<lambda>nd. if ln_next nd = t then Inr p else prev_loop h (ln_next nd) t f)"

definition n_list_pop :: "env \<Rightarrow> tn_list \<Rightarrow> (tn_list \<times> ptr) result" where
  "n_list_pop e l =
     (if ll_head l = None then trurl_die e ''n_list_pop: pop from empty list'' (Inr (l, NULL))
      else rbind
        (if ll_head l = ll_tail l
         then rbind (read_node (ll_heap l) (ll_head l)) (\<lambda>nd.
           rbind (free_node (ll_heap l) (ll_head l)) (\<lambda>h.
             Inr (l\<lparr>ll_heap := h, ll_head := None, ll_tail := None\<rparr>, ln_data nd)))
         else rbind (prev_loop (ll_heap l) (ll_head l) (ll_tail l) (ll_brk l)) (\<lambda>node.
           n_assert e (node \<noteq> ll_tail l)
           (rbind (read_node (ll_heap l) (ll_tail l)) (\<lambda>nd.
            rbind (free_node (ll_heap l) (ll_tail l)) (\<lambda>h.
            rbind (set_next h node None) (\<lambda>h.
              Inr (l\<lparr>ll_heap := h, ll_tail := node\<rparr>, ln_data nd)))))))
        (\<lambda>(l, d). Inr (l\<lparr>ll_items := ll_items l - 1\<rparr>, d)))"

definition n_list_shift :: "env \<Rightarrow> tn_list \<Rightarrow> (tn_list \<times> ptr) result" where
  "n_list_shift e l =
     (if ll_head l = None then trurl_die e ''n_list_shift: shift from empty list'' (Inr (l, NULL))
      else rbind (read_node (ll_heap l) (ll_head l)) (\<lambda>nd.
        rbind (free_node (ll_heap l) (ll_head l)) (\<lambda>h.
          Inr (l\<lparr>ll_heap := h, ll_head := ln_next nd,
                ll_tail := (if ln_next nd = None then None else ll_tail l),
                ll_items := ll_items l - 1\<rparr>, ln_data nd))))"

text \<open>The walk to item \<open>nth\<close> with the node before it: \<open>(prev_node, node)\<close>.\<close>

fun seek_loop :: "node_heap \<Rightarrow> nat option \<Rightarrow> nat option \<Rightarrow> nat \<Rightarrow> nat \<Rightarrow> nat \<Rightarrow> (nat option \<times> nat option) result" where
  "seek_loop h prev node n i 0 = (if node = None then Inr (prev, node) else Inl Hang)"
| "seek_loop h prev node n i (Suc f) =
     (if node = None then Inr (prev, node)
      else if n + 1 = i then Inr (prev, node)
      else rbind (read_node h node) (\<lambda>nd. seek_loop h node (ln_next nd) (n + 1) i f))"

definition n_list_remove_nth :: "env \<Rightarrow> tn_list \<Rightarrow> int \<Rightarrow> (tn_list \<times> ptr) result" where
  "n_list_remove_nth e l i =
     (if ll_head l = None
      then trurl_die e ''n_list_remove_nth: remove from empty list'' (Inr (l, NULL))
      else if i < 0 \<or> ll_items l \<le> i
      then trurl_die e ''n_list_remove_nth: index out of bounds'' (Inr (l, NULL))
      else if i = 0 then n_list_shift e l
      else if i = ll_items l - 1 then n_list_pop e l
      else rbind (read_node (ll_heap l) (ll_head l)) (\<lambda>hd.
        rbind (seek_loop (ll_heap l) (ll_head l) (ln_next hd) 0 (nat i) (ll_brk l))
          (\<lambda>(prev, node).
            n_assert e (node \<noteq> None)
             (rbind (read_node (ll_heap l) node) (\<lambda>nd.
               rbind (set_next (ll_heap l) prev (ln_next nd)) (\<lambda>h.
                 rbind (free_node h node) (\<lambda>h.
                   Inr (l\<lparr>ll_heap := h, ll_items := ll_items l - 1\<rparr>, ln_data nd)))))))) "

section \<open>Removing by value\<close>

text \<open>
  The first loop takes matching nodes off the front (and gives even a \<open>NULL\<close> item to
  \<open>free_fn\<close>); the second one goes on from there.
\<close>

fun remove_front :: "env \<Rightarrow> (ptr \<Rightarrow> ptr \<Rightarrow> int) \<Rightarrow> ptr \<Rightarrow> tn_list \<Rightarrow> int \<Rightarrow> nat \<Rightarrow> (tn_list \<times> int) result" where
  "remove_front e c x l removed 0 = (if ll_head l = None then Inr (l, removed) else Inl Hang)"
| "remove_front e c x l removed (Suc f) =
     (if ll_head l = None then Inr (l, removed)
      else rbind (read_node (ll_heap l) (ll_head l)) (\<lambda>nd.
        if c (ln_data nd) x \<noteq> 0 then Inr (l, removed)
        else let l = (if ll_free_fn l \<noteq> None then l\<lparr>ll_freed := ll_freed l @ [ln_data nd]\<rparr> else l) in
          rbind (free_node (ll_heap l) (ll_head l)) (\<lambda>h.
            let l = l\<lparr>ll_heap := h, ll_head := ln_next nd, ll_items := ll_items l - 1\<rparr> in
            rbind (if ll_items l > 1
                   then rbind (read_node (ll_heap l) (ll_head l))
                     (\<lambda>nd. n_assert e (ln_next nd \<noteq> None) (Inr ()))
                   else Inr ())
              (\<lambda>_. remove_front e c x l (removed + 1) f))))"

fun remove_rest ::
    "env \<Rightarrow> (ptr \<Rightarrow> ptr \<Rightarrow> int) \<Rightarrow> ptr \<Rightarrow> tn_list \<Rightarrow> nat option \<Rightarrow> nat option \<Rightarrow> int \<Rightarrow> nat \<Rightarrow>
     (tn_list \<times> int) result" where
  "remove_rest e c x l prev node removed 0 = (if node = None then Inr (l, removed) else Inl Hang)"
| "remove_rest e c x l prev node removed (Suc f) =
     (if node = None then Inr (l, removed)
      else rbind (read_node (ll_heap l) node) (\<lambda>nd.
        if c (ln_data nd) x \<noteq> 0 then remove_rest e c x l node (ln_next nd) removed f
        else let l = (if ln_data nd \<noteq> NULL \<and> ll_free_fn l \<noteq> None
                      then l\<lparr>ll_freed := ll_freed l @ [ln_data nd]\<rparr> else l) in
          rbind (set_next (ll_heap l) prev (ln_next nd)) (\<lambda>h.
            let l = l\<lparr>ll_heap := h, ll_tail := (if node = ll_tail l then prev else ll_tail l)\<rparr> in
            rbind (free_node (ll_heap l) node) (\<lambda>h.
              n_assert e (ll_items l > 0)
               (let l = l\<lparr>ll_heap := h, ll_items := ll_items l - 1\<rparr> in
                if ll_uniq l then Inr (l, removed + 1)
                else rbind (read_node (ll_heap l) prev)
                  (\<lambda>pn. remove_rest e c x l prev (ln_next pn) (removed + 1) f))))))"

definition n_list_remove_ex :: "env \<Rightarrow> tn_list \<Rightarrow> ptr \<Rightarrow> cmp_id option \<Rightarrow> (tn_list \<times> int) result" where
  "n_list_remove_ex e l x cmpf =
     (if ll_head l = None then Inr (l, 0)
      else let cmpf = list_cmp cmpf l in
        n_assert e (cmpf \<noteq> None)
         (case cmpf of
            None \<Rightarrow> trurl_die e ''n_list_remove_ex: compare function is NULL'' (Inr (l, -1))
          | Some c \<Rightarrow>
            rbind (remove_front e (call_cmp e c) x l 0 (ll_brk l)) (\<lambda>(l, removed).
              if ll_head l = None then n_assert e (ll_items l = 0) (Inr (l, removed))
              else if removed > 0 \<and> ll_uniq l then Inr (l, removed)
              else rbind (read_node (ll_heap l) (ll_head l)) (\<lambda>hd.
                remove_rest e (call_cmp e c) x l (ll_head l) (ln_next hd) removed (ll_brk l)))))"

section \<open>Freeing\<close>

fun free_loop :: "tn_list \<Rightarrow> nat option \<Rightarrow> nat \<Rightarrow> tn_list result" where
  "free_loop l p 0 = (if p = None then Inr l else Inl Hang)"
| "free_loop l p (Suc f) =
     (if p = None then Inr l
      else rbind (read_node (ll_heap l) p) (\<lambda>nd.
        let l = (if ln_data nd \<noteq> NULL \<and> ll_free_fn l \<noteq> None
                 then l\<lparr>ll_freed := ll_freed l @ [ln_data nd]\<rparr> else l) in
        rbind (free_node (ll_heap l) p) (\<lambda>h. free_loop (l\<lparr>ll_heap := h\<rparr>) (ln_next nd) f)))"

definition n_list_free :: "tn_list \<Rightarrow> (tn_list option \<times> ptr list) result" where
  "n_list_free l =
     (if ll_refcnt l > 0 then Inr (Some (l\<lparr>ll_refcnt := ll_refcnt l - 1\<rparr>), ll_freed l)
      else rbind (free_loop l (ll_head l) (ll_brk l)) (\<lambda>l. Inr (None, ll_freed l)))"

end
