(* ===== verification/LinkedListProps.thy ===== *)
theory LinkedListProps
  imports LinkedList Interfaces
begin

text \<open>
  Correctness of the linked list: a path predicate for the nodes, the operations on
  it, and the agreement with a list that carries one more bit, whether \<open>tail\<close> points
  to the last node.
\<close>

section \<open>Paths\<close>

fun lpath :: "node_heap \<Rightarrow> nat option \<Rightarrow> nat list \<Rightarrow> nat option \<Rightarrow> bool" where
  "lpath h p [] q = (p = q)"
| "lpath h p (a # as) q = (p = Some a \<and> (\<exists>n. h a = Some n \<and> lpath h (ln_next n) as q))"

definition ndata :: "node_heap \<Rightarrow> nat \<Rightarrow> ptr" where
  "ndata h a = (case h a of None \<Rightarrow> NULL | Some n \<Rightarrow> ln_data n)"

lemma lpath_append: "lpath h p (as @ bs) q \<longleftrightarrow> (\<exists>r. lpath h p as r \<and> lpath h r bs q)"
  by (induction as arbitrary: p) auto

lemma lpath_upd [simp]: "a \<notin> set as \<Longrightarrow> lpath (h(a := v)) p as q = lpath h p as q"
  by (induction as arbitrary: p) auto

lemma lpath_heap: "lpath h p as q \<Longrightarrow> a \<in> set as \<Longrightarrow> h a \<noteq> None"
  by (induction as arbitrary: p) auto

lemma lpath_next:
  "lpath h p as None \<Longrightarrow> a \<in> set as \<Longrightarrow> h a = Some n \<Longrightarrow> ln_next n = None \<or> ln_next n \<in> Some ` set as"
proof (induction as arbitrary: p)
  case (Cons b as)
  then show ?case by (cases as) auto
qed simp

lemma ndata_upd [simp]: "a \<notin> set as \<Longrightarrow> map (ndata (h(a := v))) as = map (ndata h) as"
  by (auto simp: ndata_def)

lemma ndata_Some: "h a = Some n \<Longrightarrow> ndata h a = ln_data n"
  by (simp add: ndata_def)

lemma distinct_bound:
  assumes "distinct as" "\<forall>a\<in>set as. a < n" shows "length as \<le> (n::nat)"
proof -
  have "card (set as) \<le> card {..<n}" using assms(2) by (intro card_mono) auto
  then show ?thesis using assms(1) by (simp add: distinct_card)
qed

lemma walk_loop_ok:
  "lpath h p as None \<Longrightarrow> length as \<le> f \<Longrightarrow> walk_loop h p f = Inr (map (ndata h) as)"
proof (induction as arbitrary: p f)
  case Nil
  then show ?case by (cases f) auto
next
  case (Cons a as)
  then show ?case by (cases f) (auto simp: read_node_def ndata_def)
qed

lemma nth_loop_ok:
  "lpath h p as None \<Longrightarrow> length as \<le> f \<Longrightarrow> nth_loop h p n i f =
   Inr (if n \<le> i \<and> i < n + int (length as) then ndata h (as ! nat (i - n)) else NULL)"
proof (induction as arbitrary: p f n)
  case Nil
  then show ?case by (cases f) auto
next
  case (Cons a as)
  then obtain f' nd where "f = Suc f'" "p = Some a" "h a = Some nd" by (cases f) auto
  moreover have "n < i \<Longrightarrow> nat (i - n) = Suc (nat (i - (n + 1)))" by simp
  ultimately show ?case using Cons by (auto simp: read_node_def ndata_def)
qed

definition find_item :: "(ptr \<Rightarrow> ptr \<Rightarrow> int) \<Rightarrow> ptr \<Rightarrow> ptr list \<Rightarrow> ptr" where
  "find_item c x xs = (case find (\<lambda>d. c d x = 0) xs of None \<Rightarrow> NULL | Some d \<Rightarrow> d)"

lemma lookup_loop_ok:
  "lpath h p as None \<Longrightarrow> length as \<le> f \<Longrightarrow>
   lookup_loop c x h p f = Inr (find_item c x (map (ndata h) as))"
proof (induction as arbitrary: p f)
  case Nil
  then show ?case by (cases f) (auto simp: find_item_def)
next
  case (Cons a as)
  then show ?case by (cases f) (auto simp: read_node_def ndata_def find_item_def)
qed

lemma prev_loop_ok:
  "lpath h p (as @ [a]) q \<Longrightarrow> q \<notin> Some ` set (as @ [a]) \<Longrightarrow> length as < f \<Longrightarrow>
   prev_loop h p q f = Inr (Some a)"
proof (induction as arbitrary: p f)
  case Nil
  then show ?case by (cases f) (auto simp: read_node_def)
next
  case (Cons b as)
  then obtain f' nd where nd: "f = Suc f'" "p = Some b" "h b = Some nd"
    "lpath h (ln_next nd) (as @ [a]) q" by (cases f) auto
  have "ln_next nd \<noteq> q" using nd(4) Cons.prems(2) by (cases as) auto
  with nd Cons show ?case by (auto simp: read_node_def)
qed

lemma prev_loop_lost:
  "lpath h p as None \<Longrightarrow> t \<notin> set as \<Longrightarrow> length as < f \<Longrightarrow>
   prev_loop h p (Some t) f = Inl Mem_Fault"
proof (induction as arbitrary: p f)
  case Nil
  then show ?case by (cases f) (auto simp: read_node_def)
next
  case (Cons b as)
  then obtain f' nd where nd: "f = Suc f'" "p = Some b" "h b = Some nd"
    "lpath h (ln_next nd) as None" by (cases f) auto
  have "ln_next nd \<noteq> Some t" using nd(4) Cons.prems(2) by (cases as) auto
  with nd Cons show ?case by (auto simp: read_node_def)
qed

lemma seek_loop_ok:
  "lpath h p (as @ a # bs) None \<Longrightarrow> length as < f \<Longrightarrow>
   seek_loop h prev p n (n + length as + 1) f = Inr (if as = [] then prev else Some (last as), Some a)"
proof (induction as arbitrary: p f n prev)
  case Nil
  then show ?case by (cases f) auto
next
  case (Cons b as)
  then show ?case using Cons.IH [of _ "f - 1" "Some b" "n + 1"]
    by (cases f) (auto simp: read_node_def)
qed

section \<open>The list of items\<close>

text \<open>\<open>list_at l ad\<close>: the nodes at the addresses \<open>ad\<close> are the list. \<open>tail_at\<close>: \<open>tail\<close>
  is the last of them; otherwise it is \<open>NULL\<close> or the address of a freed node.\<close>

definition list_at :: "tn_list \<Rightarrow> nat list \<Rightarrow> bool" where
  "list_at l ad \<longleftrightarrow> lpath (ll_heap l) (ll_head l) ad None \<and> distinct ad \<and>
     (\<forall>a\<in>set ad. a < ll_brk l) \<and> ll_items l = int (length ad)"

definition tail_at :: "tn_list \<Rightarrow> nat list \<Rightarrow> bool \<Rightarrow> bool" where
  "tail_at l ad ok = (if ok then ad \<noteq> [] \<and> ll_tail l = Some (last ad)
     else case ll_tail l of None \<Rightarrow> True | Some t \<Rightarrow> ll_heap l t = None \<and> t < ll_brk l)"

definition list_rep :: "tn_list \<Rightarrow> ptr list \<Rightarrow> bool \<Rightarrow> bool" where
  "list_rep l xs ok \<longleftrightarrow> (\<exists>ad. list_at l ad \<and> tail_at l ad ok \<and> xs = map (ndata (ll_heap l)) ad)"

definition list_elems :: "tn_list \<Rightarrow> ptr list" where
  "list_elems l = (case walk_loop (ll_heap l) (ll_head l) (ll_brk l) of Inr xs \<Rightarrow> xs | Inl _ \<Rightarrow> [])"

definition list_conf where
  "list_conf l = (ll_refcnt l, ll_flags l, ll_free_fn l, ll_cmp_fn l)"

lemma list_repI:
  "list_at l ad \<Longrightarrow> tail_at l ad ok \<Longrightarrow> xs = map (ndata (ll_heap l)) ad \<Longrightarrow> list_rep l xs ok"
  by (auto simp: list_rep_def)

lemma list_at_length: "list_at l ad \<Longrightarrow> length ad \<le> ll_brk l"
  by (auto simp: list_at_def intro: distinct_bound)

lemma list_rep_elems: "list_rep l xs ok \<Longrightarrow> list_elems l = xs \<and> ll_items l = int (length xs)"
  by (auto simp: list_rep_def list_elems_def list_at_def distinct_bound walk_loop_ok)

lemma list_rep_head: "list_rep l xs ok \<Longrightarrow> ll_head l = None \<longleftrightarrow> xs = []"
proof -
  assume "list_rep l xs ok"
  then obtain ad where "list_at l ad" "xs = map (ndata (ll_heap l)) ad" by (auto simp: list_rep_def)
  then show ?thesis by (cases ad) (auto simp: list_at_def)
qed

lemma list_new_rep: "list_rep (n_list_new flags freef cmpf) [] False"
  by (rule list_repI [of _ "[]"]) (simp_all add: n_list_new_def list_at_def tail_at_def)

lemma n_list_nth_ok:
  "list_rep l xs ok \<Longrightarrow>
   n_list_nth l i = Inr (if 0 \<le> i \<and> i < int (length xs) then xs ! nat i else NULL)"
  by (auto simp: list_rep_def n_list_nth_def list_at_def distinct_bound nth_loop_ok)

lemma n_list_map_ok: "list_rep l xs ok \<Longrightarrow> n_list_map_arg e l True = Inr xs"
  by (auto simp: list_rep_def n_list_map_arg_def list_at_def distinct_bound walk_loop_ok)

lemma n_list_lookup_ok:
  "list_rep l xs ok \<Longrightarrow> list_cmp cmpf l = Some c \<Longrightarrow>
   n_list_lookup_ex e l x cmpf = Inr (find_item (call_cmp e c) x xs)"
  by (auto simp: list_rep_def n_list_lookup_ex_def list_at_def distinct_bound lookup_loop_ok)

lemma n_list_contains_ok:
  "list_rep l xs ok \<Longrightarrow> list_cmp cmpf l = Some c \<Longrightarrow>
   n_list_contains_ex e l x cmpf = Inr (find_item (call_cmp e c) x xs \<noteq> NULL)"
  by (simp add: n_list_contains_ex_def n_list_lookup_ok)

section \<open>Adding\<close>

definition list_there where
  "list_there e l x xs = (ll_uniq l \<and> find_item (call_cmp e (the (ll_cmp_fn l))) x xs \<noteq> NULL)"

lemma uniq_check_ok:
  "list_rep l xs ok \<Longrightarrow> ll_cmp_fn l \<noteq> None \<Longrightarrow>
   (if ll_uniq l then n_list_contains_ex e l x None else Inr False) = Inr (list_there e l x xs)"
  by (auto simp: list_there_def list_cmp_def n_list_contains_ok)

lemma n_list_push_ok:
  assumes rep: "list_rep l xs ok" and cmp: "ll_cmp_fn l \<noteq> None"
    and new: "\<not> list_there e l x xs" and tl: "xs = [] \<or> ok"
  shows "\<exists>l'. n_list_push e l x = Inr (l', True) \<and> list_rep l' (xs @ [x]) True \<and>
    list_conf l' = list_conf l \<and> ll_freed l' = ll_freed l"
proof -
  obtain ad where ad: "list_at l ad" "tail_at l ad ok" "xs = map (ndata (ll_heap l)) ad"
    using rep by (auto simp: list_rep_def)
  have notin: "ll_brk l \<notin> set ad" using ad(1) by (auto simp: list_at_def)
  note go = n_list_push_def [of e l x, unfolded uniq_check_ok [OF rep cmp], simplified new]
  show ?thesis
  proof (cases ad rule: rev_cases)
    case Nil
    then have "ll_head l = None" using ad(1) by (simp add: list_at_def)
    with ad Nil show ?thesis unfolding go
      by (simp add: list_conf_def list_rep_def Let_def)
        (rule exI [of _ "[ll_brk l]"], simp add: list_at_def tail_at_def ndata_def)
  next
    case (snoc bs b)
    with tl ad have tail: "ll_tail l = Some b" by (auto simp: tail_at_def)
    obtain r nb where path: "lpath (ll_heap l) (ll_head l) bs r" "r = Some b"
      "ll_heap l b = Some nb" "ln_next nb = None" "distinct (bs @ [b])"
      using ad(1) snoc by (auto simp: list_at_def lpath_append)
    obtain hd where head: "ll_head l = Some hd" using path by (cases bs) auto
    have ne: "b \<noteq> ll_brk l" "b \<notin> set bs" "ll_brk l \<notin> set bs" using notin snoc path by auto
    from ad snoc path tail head ne show ?thesis unfolding go
      by (simp add: list_conf_def list_rep_def set_next_def Let_def)
        (rule exI [of _ "bs @ [b, ll_brk l]"],
          auto simp: list_at_def tail_at_def lpath_append ndata_def)
  qed
qed

lemma n_list_push_lost:
  assumes "list_rep l xs False" "ll_cmp_fn l \<noteq> None" "\<not> list_there e l x xs" "xs \<noteq> []"
  shows "n_list_push e l x = Inl Mem_Fault"
  using assms uniq_check_ok [OF assms(1,2), of e x] list_rep_head [OF assms(1)]
  by (auto simp: n_list_push_def Let_def list_rep_def tail_at_def set_next_def split: option.splits)

lemma n_list_add_there:
  assumes "list_rep l xs ok" "ll_cmp_fn l \<noteq> None" "list_there e l x xs"
  shows "n_list_push e l x = Inr (l, False)" "n_list_unshift e l x = Inr (l, False)"
  using assms uniq_check_ok [OF assms(1,2), of e x]
  by (simp_all add: n_list_push_def n_list_unshift_def)

lemma n_list_unshift_ok:
  assumes rep: "list_rep l xs ok" and cmp: "ll_cmp_fn l \<noteq> None" and new: "\<not> list_there e l x xs"
  shows "\<exists>l'. n_list_unshift e l x = Inr (l', True) \<and> list_rep l' (x # xs) ok \<and>
    list_conf l' = list_conf l \<and> ll_freed l' = ll_freed l"
proof -
  obtain ad where ad: "list_at l ad" "tail_at l ad ok" "xs = map (ndata (ll_heap l)) ad"
    using rep by (auto simp: list_rep_def)
  have notin: "ll_brk l \<notin> set ad" using ad(1) by (auto simp: list_at_def)
  note go = n_list_unshift_def [of e l x, unfolded uniq_check_ok [OF rep cmp], simplified new]
  from notin ad show ?thesis unfolding go
    by (simp add: list_conf_def list_rep_def Let_def)
      (rule exI [of _ "ll_brk l # ad"],
        auto simp: list_at_def tail_at_def ndata_def split: option.splits if_splits)
qed

section \<open>Taking off\<close>

lemma n_list_shift_ok:
  assumes "list_rep l (x # xs) ok"
  shows "\<exists>l'. n_list_shift e l = Inr (l', x) \<and> list_rep l' xs (ok \<and> xs \<noteq> []) \<and>
    list_conf l' = list_conf l \<and> ll_freed l' = ll_freed l"
proof -
  obtain ad where ad: "list_at l ad" "tail_at l ad ok" "x # xs = map (ndata (ll_heap l)) ad"
    using assms by (auto simp: list_rep_def)
  then obtain a as na where a: "ad = a # as" "ll_heap l a = Some na" "ll_head l = Some a"
    "lpath (ll_heap l) (ln_next na) as None" "a \<notin> set as" "x = ln_data na"
    "xs = map (ndata (ll_heap l)) as" by (cases ad) (auto simp: list_at_def ndata_def)
  moreover have "ln_next na = None \<longleftrightarrow> as = []" using a(4) by (cases as) auto
  ultimately show ?thesis using ad(1,2)
    by (auto simp: n_list_shift_def read_node_def free_node_def list_conf_def list_rep_def Let_def
        list_at_def tail_at_def intro!: exI [of _ as] split: option.splits if_splits)
qed

lemma n_list_pop_ok:
  assumes "list_rep l (xs @ [x]) True"
  shows "\<exists>l'. n_list_pop e l = Inr (l', x) \<and> list_rep l' xs (xs \<noteq> []) \<and>
    list_conf l' = list_conf l \<and> ll_freed l' = ll_freed l"
proof -
  obtain ad where ad: "list_at l ad" "tail_at l ad True" "xs @ [x] = map (ndata (ll_heap l)) ad"
    using assms by (auto simp: list_rep_def)
  then obtain bs b where b: "ad = bs @ [b]" by (cases ad rule: rev_cases) auto
  then obtain nb where nb: "lpath (ll_heap l) (ll_head l) bs (Some b)" "ll_heap l b = Some nb"
    "ln_next nb = None" "b \<notin> set bs" "x = ln_data nb" "xs = map (ndata (ll_heap l)) bs"
    "ll_tail l = Some b"
    using ad by (auto simp: list_at_def lpath_append tail_at_def ndata_def)
  show ?thesis
  proof (cases bs rule: rev_cases)
    case Nil
    with ad nb b show ?thesis
      by (auto simp: n_list_pop_def read_node_def free_node_def list_conf_def list_rep_def
          list_at_def tail_at_def intro!: exI [of _ "[]"])
  next
    case (snoc cs c)
    then obtain nc where c: "lpath (ll_heap l) (ll_head l) cs (Some c)" "ll_heap l c = Some nc"
      "c \<noteq> b" "c \<notin> set cs" "b \<notin> set cs" using nb(1,4) ad(1) b
      by (auto simp: lpath_append list_at_def)
    have prev: "prev_loop (ll_heap l) (ll_head l) (Some b) (ll_brk l) = Inr (Some c)"
      using nb(1,4) snoc list_at_length [OF ad(1)] b by (intro prev_loop_ok [of _ _ cs]) auto
    obtain hd where hd: "ll_head l = Some hd" "hd \<noteq> b"
      using c(1,3,5) by (cases cs) auto
    have "n_list_pop e l = Inr (l\<lparr>ll_heap := (ll_heap l)(b := None, c \<mapsto> nc\<lparr>ln_next := None\<rparr>),
        ll_tail := Some c, ll_items := ll_items l - 1\<rparr>, x)" (is "_ = Inr (?l, x)")
      using hd prev nb c by (simp add: n_list_pop_def read_node_def free_node_def set_next_def)
    moreover have "list_rep ?l xs True"
      using ad(1) b snoc c nb
      by (intro list_repI [of _ bs]) (auto simp: list_at_def tail_at_def lpath_append ndata_def)
    ultimately show ?thesis using snoc nb(6) by (auto simp: list_conf_def)
  qed
qed

lemma n_list_pop_lost:
  assumes rep: "list_rep l xs False" and ne: "xs \<noteq> []"
  shows "n_list_pop e l = Inl Mem_Fault"
proof -
  obtain ad where ad: "list_at l ad" "tail_at l ad False" "xs = map (ndata (ll_heap l)) ad"
    using rep by (auto simp: list_rep_def)
  then obtain a where a: "ll_head l = Some a" "ll_heap l a \<noteq> None"
    using ne by (cases ad) (auto simp: list_at_def)
  have path: "lpath (ll_heap l) (ll_head l) ad None" using ad(1) by (simp add: list_at_def)
  show ?thesis
  proof (cases "ll_tail l")
    case None
    obtain bs b where b: "ad = bs @ [b]" using ne ad(3) by (cases ad rule: rev_cases) auto
    have "prev_loop (ll_heap l) (ll_head l) None (ll_brk l) = Inr (Some b)"
      using path b list_at_length [OF ad(1)] by (intro prev_loop_ok) auto
    with None a show ?thesis by (auto simp: n_list_pop_def read_node_def)
  next
    case (Some t)
    with ad(2) have t: "ll_heap l t = None" "t < ll_brk l" by (auto simp: tail_at_def)
    then have "t \<notin> set ad" using lpath_heap [OF path, of t] by auto
    moreover have "length (t # ad) \<le> ll_brk l"
      using ad(1) t \<open>t \<notin> set ad\<close> by (intro distinct_bound) (auto simp: list_at_def)
    ultimately have "prev_loop (ll_heap l) (ll_head l) (Some t) (ll_brk l) = Inl Mem_Fault"
      by (intro prev_loop_lost [OF path]) auto
    moreover have "ll_head l \<noteq> Some t" using a t by auto
    ultimately show ?thesis using Some a by (auto simp: n_list_pop_def)
  qed
qed

section \<open>Unlinking a node\<close>

lemma unlink_ok:
  assumes "list_at l (pre @ b # a # post)" "tail_at l (pre @ b # a # post) ok"
  shows "\<exists>na nb. ll_heap l a = Some na \<and> ll_heap l b = Some nb \<and> a \<noteq> b \<and>
    ln_next na = (case post of [] \<Rightarrow> None | c # _ \<Rightarrow> Some c) \<and>
    (let h = (ll_heap l)(b \<mapsto> nb\<lparr>ln_next := ln_next na\<rparr>, a := None);
         t = (if Some a = ll_tail l then Some b else ll_tail l);
         l' = l\<lparr>ll_heap := h, ll_tail := t, ll_items := ll_items l - 1\<rparr> in
     list_at l' (pre @ b # post) \<and> tail_at l' (pre @ b # post) ok \<and>
     map (ndata h) (pre @ b # post) = map (ndata (ll_heap l)) (pre @ b # post) \<and>
     (post \<noteq> [] \<longrightarrow> t = ll_tail l))"
proof -
  obtain na nb where n: "lpath (ll_heap l) (ll_head l) pre (Some b)" "ll_heap l b = Some nb"
    "ll_heap l a = Some na" "lpath (ll_heap l) (ln_next na) post None" "ln_next nb = Some a"
    "distinct (pre @ b # a # post)"
    using assms(1) by (auto simp: list_at_def lpath_append)
  define h where "h = (ll_heap l)(b \<mapsto> nb\<lparr>ln_next := ln_next na\<rparr>, a := None)"
  define t where "t = (if Some a = ll_tail l then Some b else ll_tail l)"
  have next_a: "ln_next na = (case post of [] \<Rightarrow> None | c # _ \<Rightarrow> Some c)"
    using n(4) by (cases post) auto
  have path: "lpath h (ll_head l) (pre @ b # post) None"
    using n by (auto simp: h_def lpath_append)
  have dat: "map (ndata h) (pre @ b # post) = map (ndata (ll_heap l)) (pre @ b # post)"
    using n(2,3,6) by (auto simp: h_def ndata_def)
  have tail: "ok \<Longrightarrow> t = Some (last (pre @ b # post)) \<and> (post \<noteq> [] \<longrightarrow> t = ll_tail l)"
    using assms(2) n(6) by (auto simp: tail_at_def t_def)
  have lost: "\<not> ok \<Longrightarrow> t = ll_tail l" using assms(2) n(3)
    by (auto simp: tail_at_def t_def split: option.splits)
  have "\<not> ok \<Longrightarrow> (case t of None \<Rightarrow> True | Some t \<Rightarrow> h t = None \<and> t < ll_brk l)"
    using lost assms(2) n(2) by (auto simp: tail_at_def h_def split: option.splits)
  then have tl: "tail_at (l\<lparr>ll_heap := h, ll_tail := t, ll_items := ll_items l - 1\<rparr>) (pre @ b # post) ok"
    using tail by (auto simp: tail_at_def split: option.splits)
  have at: "list_at (l\<lparr>ll_heap := h, ll_tail := t, ll_items := ll_items l - 1\<rparr>) (pre @ b # post)"
    using path n(6) assms(1) by (auto simp: list_at_def)
  have keep: "post \<noteq> [] \<longrightarrow> t = ll_tail l" using tail lost by blast
  have "a \<noteq> b" using n(6) by auto
  with at tl dat keep n(2,3) next_a show ?thesis unfolding h_def t_def Let_def by blast
qed

lemma n_list_remove_nth_mid:
  assumes "list_rep l (xs @ x # ys) ok" "xs \<noteq> []" "ys \<noteq> []"
  shows "\<exists>l'. n_list_remove_nth e l (int (length xs)) = Inr (l', x) \<and> list_rep l' (xs @ ys) ok \<and>
    list_conf l' = list_conf l \<and> ll_freed l' = ll_freed l"
proof -
  obtain ad where ad: "list_at l ad" "tail_at l ad ok" "xs @ x # ys = map (ndata (ll_heap l)) ad"
    using assms by (auto simp: list_rep_def)
  obtain as a post where sp: "ad = as @ a # post" "xs = map (ndata (ll_heap l)) as"
    "x = ndata (ll_heap l) a" "ys = map (ndata (ll_heap l)) post"
    using ad(3) by (auto simp: map_eq_append_conv map_eq_Cons_conv append_eq_map_conv Cons_eq_map_conv)
  obtain pre b where as: "as = pre @ [b]" using sp(2) assms(2) by (cases as rule: rev_cases) auto
  have "list_at l (pre @ b # a # post)" "tail_at l (pre @ b # a # post) ok"
    using ad sp as by auto
  from unlink_ok [OF this] obtain na nb where n: "ll_heap l a = Some na" "ll_heap l b = Some nb" "a \<noteq> b"
    and un: "list_at (l\<lparr>ll_heap := (ll_heap l)(b \<mapsto> nb\<lparr>ln_next := ln_next na\<rparr>, a := None),
        ll_items := ll_items l - 1\<rparr>) (pre @ b # post)"
      "tail_at (l\<lparr>ll_heap := (ll_heap l)(b \<mapsto> nb\<lparr>ln_next := ln_next na\<rparr>, a := None),
        ll_items := ll_items l - 1\<rparr>) (pre @ b # post) ok"
      "map (ndata ((ll_heap l)(b \<mapsto> nb\<lparr>ln_next := ln_next na\<rparr>, a := None))) (pre @ b # post) =
        map (ndata (ll_heap l)) (pre @ b # post)"
    using assms(3) sp(4) by (auto simp: Let_def)
  define l2 where "l2 = l\<lparr>ll_heap := (ll_heap l)(b \<mapsto> nb\<lparr>ln_next := ln_next na\<rparr>, a := None),
        ll_items := ll_items l - 1\<rparr>"
  obtain hd nh where hd: "ll_head l = Some hd" "ll_heap l hd = Some nh" "hd = (case pre of [] \<Rightarrow> b | c # _ \<Rightarrow> c)"
    "lpath (ll_heap l) (ln_next nh) (tl pre @ (if pre = [] then [] else [b]) @ a # post) None"
    using ad(1) sp as by (cases pre) (auto simp: list_at_def)
  have "length (tl pre @ (if pre = [] then [] else [b])) = length pre" by (cases pre) auto
  moreover have "(if tl pre @ (if pre = [] then [] else [b]) = [] then ll_head l
      else Some (last (tl pre @ (if pre = [] then [] else [b])))) = Some b"
    using hd by (cases pre) auto
  ultimately have seek: "seek_loop (ll_heap l) (ll_head l) (ln_next nh) 0 (length xs) (ll_brk l) =
      Inr (Some b, Some a)"
    using seek_loop_ok [of "ll_heap l" "ln_next nh" "tl pre @ (if pre = [] then [] else [b])" a post
        "ll_brk l" "ll_head l" 0] hd(4) list_at_length [OF ad(1)] sp(1,2) as
    by (simp only: append_assoc) simp
  have items: "ll_items l = int (length ad)" "0 < length xs" "0 < length ys"
    using ad(1) assms(2,3) by (auto simp: list_at_def)
  then have "int (length xs) < ll_items l - 1" using sp(1,2,4) by simp
  then have "n_list_remove_nth e l (int (length xs)) = Inr (l2, x)"
    using seek hd n sp(3) items assms(2)
    by (simp add: l2_def n_list_remove_nth_def read_node_def set_next_def free_node_def ndata_def)
  moreover have "list_rep l2 (xs @ ys) ok"
    using un sp as by (intro list_repI [of _ "pre @ b # post"]) (auto simp: l2_def)
  ultimately show ?thesis by (auto simp: list_conf_def l2_def)
qed

section \<open>Removing by value\<close>

lemma remove_front_ok:
  fixes c :: "ptr \<Rightarrow> ptr \<Rightarrow> int" and x :: ptr
  assumes "list_at l ad" "length ad \<le> f"
  defines "m \<equiv> \<lambda>a. c (ndata (ll_heap l) a) x = 0"
  shows "\<exists>l'. remove_front e c x l r f = Inr (l', r + int (length (takeWhile m ad))) \<and>
    list_at l' (dropWhile m ad) \<and> ll_heap l' = ll_heap l |` (- set (takeWhile m ad)) \<and>
    ll_tail l' = ll_tail l \<and> ll_brk l' = ll_brk l \<and> list_conf l' = list_conf l \<and>
    ll_freed l' = ll_freed l @ (if ll_free_fn l = None then []
      else map (ndata (ll_heap l)) (takeWhile m ad))"
  using assms(1,2) unfolding m_def
proof (induction ad arbitrary: l r f)
  case Nil
  then show ?case by (cases f) (auto simp: list_at_def)
next
  case (Cons a ad)
  then obtain f' na where a: "f = Suc f'" "ll_head l = Some a" "ll_heap l a = Some na" "a \<notin> set ad"
    "lpath (ll_heap l) (ln_next na) ad None" by (cases f) (auto simp: list_at_def)
  show ?case
  proof (cases "c (ln_data na) x = 0")
    case False
    with a Cons.prems show ?thesis by (auto simp: read_node_def ndata_def)
  next
    case True
    define l1 where "l1 = (if ll_free_fn l \<noteq> None then l\<lparr>ll_freed := ll_freed l @ [ln_data na]\<rparr> else l)
      \<lparr>ll_heap := (ll_heap l)(a := None), ll_head := ln_next na, ll_items := ll_items l - 1\<rparr>"
    have l1: "list_at l1 ad" using Cons.prems a by (auto simp: list_at_def l1_def)
    have d: "ndata (ll_heap l1) b = ndata (ll_heap l) b" if "b \<in> set ad" for b
      using that a by (auto simp: l1_def ndata_def)
    have tw: "takeWhile (\<lambda>b. c (ndata (ll_heap l1) b) x = 0) ad = takeWhile (\<lambda>b. c (ndata (ll_heap l) b) x = 0) ad"
      "dropWhile (\<lambda>b. c (ndata (ll_heap l1) b) x = 0) ad = dropWhile (\<lambda>b. c (ndata (ll_heap l) b) x = 0) ad"
      using d by (auto cong: takeWhile_cong dropWhile_cong)
    have chk: "(if ll_items l1 > 1 then rbind (read_node (ll_heap l1) (ll_head l1))
        (\<lambda>nd. n_assert e (ln_next nd \<noteq> None) (Inr ())) else Inr ()) = Inr ()"
    proof (cases ad)
      case Nil
      with l1 show ?thesis by (simp add: list_at_def)
    next
      case (Cons b bs)
      with l1 show ?thesis by (cases bs) (auto simp: list_at_def read_node_def)
    qed
    have step: "remove_front e c x l r f = remove_front e c x l1 (r + 1) f'"
      using a True chk
      by (simp add: read_node_def free_node_def Let_def l1_def split del: if_split)
         (auto simp: l1_def)
    have dm: "map (ndata (ll_heap l1)) (takeWhile p ad) = map (ndata (ll_heap l)) (takeWhile p ad)" for p
      using d by (auto dest: set_takeWhileD)
    have hp: "ll_heap l1 |` (- T) = ll_heap l |` (- insert a T)" for T
      by (auto simp: restrict_map_def fun_eq_iff l1_def)
    have keep: "ll_tail l1 = ll_tail l" "ll_brk l1 = ll_brk l" "list_conf l1 = list_conf l"
      "ll_free_fn l1 = ll_free_fn l"
      "ll_freed l1 = ll_freed l @ (if ll_free_fn l = None then [] else [ndata (ll_heap l) a])"
      using a by (simp_all add: l1_def list_conf_def ndata_def)
    have "length ad \<le> f'" and ca: "c (ndata (ll_heap l) a) x = 0"
      using Cons.prems a True by (auto simp: ndata_def)
    from Cons.IH [OF l1 this(1), of "r + 1"] show ?thesis
      unfolding step tw dm hp keep by (auto simp: ca)
  qed
qed

text \<open>In a \<open>UNIQ\<close> list the second loop stops at the first match.\<close>

fun drop_matches :: "bool \<Rightarrow> ('a \<Rightarrow> bool) \<Rightarrow> 'a list \<Rightarrow> 'a list" where
  "drop_matches uniq m [] = []"
| "drop_matches uniq m (x # xs) =
     (if m x then if uniq then xs else drop_matches uniq m xs else x # drop_matches uniq m xs)"

fun take_matches :: "bool \<Rightarrow> ('a \<Rightarrow> bool) \<Rightarrow> 'a list \<Rightarrow> 'a list" where
  "take_matches uniq m [] = []"
| "take_matches uniq m (x # xs) =
     (if m x then x # (if uniq then [] else take_matches uniq m xs) else take_matches uniq m xs)"

lemma matches_map:
  "drop_matches u m (map f xs) = map f (drop_matches u (\<lambda>x. m (f x)) xs)"
  "take_matches u m (map f xs) = map f (take_matches u (\<lambda>x. m (f x)) xs)"
  by (induction xs) auto

lemma matches_cong:
  assumes "\<forall>x\<in>set xs. m x = m' x"
  shows "drop_matches u m xs = drop_matches u m' xs" "take_matches u m xs = take_matches u m' xs"
  using assms by (induction xs) auto

lemma set_take_matches: "set (take_matches u m xs) \<subseteq> set xs"
  by (induction xs) auto

lemma set_drop_matches: "set (drop_matches u m xs) \<subseteq> set xs"
  by (induction xs) auto

definition freed_rest where
  "freed_rest l xs = (if ll_free_fn l = None then [] else filter (\<lambda>d. d \<noteq> NULL) xs)"

text \<open>One turn of the second loop, on an item that stays and on one that goes.\<close>

lemma remove_rest_miss:
  assumes "list_at l (pre @ b # a # ad)" "tail_at l (pre @ b # a # ad) ok" "c (ndata (ll_heap l) a) x \<noteq> 0"
  shows "remove_rest e c x l (Some b) (Some a) r (Suc f) =
    remove_rest e c x l (Some a) (case ad of [] \<Rightarrow> None | c # _ \<Rightarrow> Some c) r f"
proof -
  obtain na where "ll_heap l a = Some na" "ln_next na = (case ad of [] \<Rightarrow> None | c # _ \<Rightarrow> Some c)"
    using unlink_ok [OF assms(1,2)] by blast
  then show ?thesis using assms(3) by (simp add: read_node_def ndata_def)
qed

lemma remove_rest_hit:
  assumes "list_at l (pre @ b # a # ad)" "tail_at l (pre @ b # a # ad) ok" "c (ndata (ll_heap l) a) x = 0"
  obtains l1 where "\<And>r f. remove_rest e c x l (Some b) (Some a) r (Suc f) =
      (if ll_uniq l then Inr (l1, r + 1)
       else remove_rest e c x l1 (Some b) (case ad of [] \<Rightarrow> None | c # _ \<Rightarrow> Some c) (r + 1) f)"
    "list_at l1 (pre @ b # ad)" "tail_at l1 (pre @ b # ad) ok"
    "map (ndata (ll_heap l1)) (pre @ [b]) = map (ndata (ll_heap l)) (pre @ [b])"
    "map (ndata (ll_heap l1)) ad = map (ndata (ll_heap l)) ad" "ll_uniq l1 = ll_uniq l"
    "list_conf l1 = list_conf l" "freed_rest l1 = freed_rest l"
    "ll_freed l1 = ll_freed l @ freed_rest l [ndata (ll_heap l) a]"
proof -
  from unlink_ok [OF assms(1,2)] obtain na nb where
    n: "ll_heap l a = Some na" "ll_heap l b = Some nb" "a \<noteq> b"
      "ln_next na = (case ad of [] \<Rightarrow> None | c # _ \<Rightarrow> Some c)" and
    un: "let h = (ll_heap l)(b \<mapsto> nb\<lparr>ln_next := ln_next na\<rparr>, a := None);
         t = (if Some a = ll_tail l then Some b else ll_tail l);
         l' = l\<lparr>ll_heap := h, ll_tail := t, ll_items := ll_items l - 1\<rparr> in
     list_at l' (pre @ b # ad) \<and> tail_at l' (pre @ b # ad) ok \<and>
     map (ndata h) (pre @ b # ad) = map (ndata (ll_heap l)) (pre @ b # ad) \<and>
     (ad \<noteq> [] \<longrightarrow> t = ll_tail l)" by blast
  have da: "ndata (ll_heap l) a = ln_data na" using n(1) by (simp add: ndata_def)
  define l1 where "l1 = l\<lparr>ll_freed := ll_freed l @ freed_rest l [ln_data na],
    ll_tail := (if Some a = ll_tail l then Some b else ll_tail l),
    ll_heap := (ll_heap l)(b \<mapsto> nb\<lparr>ln_next := ln_next na\<rparr>, a := None),
    ll_items := ll_items l - 1\<rparr>"
  have l1: "list_at l1 (pre @ b # ad)" "tail_at l1 (pre @ b # ad) ok"
    "map (ndata (ll_heap l1)) (pre @ [b]) = map (ndata (ll_heap l)) (pre @ [b])"
    "map (ndata (ll_heap l1)) ad = map (ndata (ll_heap l)) ad"
    using un by (auto simp: l1_def Let_def list_at_def tail_at_def split: option.splits)
  have keep: "ll_uniq l1 = ll_uniq l" "list_conf l1 = list_conf l" "freed_rest l1 = freed_rest l"
    "ll_freed l1 = ll_freed l @ freed_rest l [ndata (ll_heap l) a]"
    by (auto simp: l1_def ll_uniq_def list_conf_def freed_rest_def da)
  have items: "0 < ll_items l" using assms(1) by (simp add: list_at_def)
  have fr: "(if ln_data na \<noteq> NULL \<and> ll_free_fn l \<noteq> None
      then l\<lparr>ll_freed := ll_freed l @ [ln_data na]\<rparr> else l) =
      l\<lparr>ll_freed := ll_freed l @ freed_rest l [ln_data na]\<rparr>"
    by (auto simp: freed_rest_def)
  have step: "remove_rest e c x l (Some b) (Some a) r (Suc f) = (if ll_uniq l then Inr (l1, r + 1)
       else remove_rest e c x l1 (Some b) (case ad of [] \<Rightarrow> None | c # _ \<Rightarrow> Some c) (r + 1) f)" for r f
    using fr n assms(3) items da by (simp add: read_node_def set_next_def free_node_def l1_def ll_uniq_def)
  show thesis by (rule that [OF step l1 keep])
qed

lemma remove_rest_ok:
  fixes c :: "ptr \<Rightarrow> ptr \<Rightarrow> int" and x :: ptr
  assumes "list_at l (pre @ b # ad)" "tail_at l (pre @ b # ad) ok" "length ad \<le> f"
  defines "m \<equiv> \<lambda>d. c d x = 0"
  shows "\<exists>l' ad'. remove_rest e c x l (Some b) (case ad of [] \<Rightarrow> None | a # _ \<Rightarrow> Some a) r f =
      Inr (l', r + int (length (take_matches (ll_uniq l) m (map (ndata (ll_heap l)) ad)))) \<and>
    list_at l' (pre @ b # ad') \<and> tail_at l' (pre @ b # ad') ok \<and>
    map (ndata (ll_heap l')) (pre @ b # ad') = map (ndata (ll_heap l)) (pre @ [b]) @
      drop_matches (ll_uniq l) m (map (ndata (ll_heap l)) ad) \<and>
    list_conf l' = list_conf l \<and>
    ll_freed l' = ll_freed l @
      freed_rest l (take_matches (ll_uniq l) m (map (ndata (ll_heap l)) ad))"
  using assms(1-3) unfolding m_def
proof (induction ad arbitrary: l pre b r f)
  case Nil
  then show ?case by (cases f) (auto simp: freed_rest_def intro!: exI [of _ "[]"])
next
  case (Cons a ad)
  then obtain f' where f: "f = Suc f'" "length ad \<le> f'" by (cases f) auto
  show ?case
  proof (cases "c (ndata (ll_heap l) a) x = 0")
    case False
    have "remove_rest e c x l (Some b) (Some a) r f =
        remove_rest e c x l (Some a) (case ad of [] \<Rightarrow> None | c # _ \<Rightarrow> Some c) r f'"
      using remove_rest_miss [of l pre b a ad ok c x e r f', OF Cons.prems(1,2) False] f by simp
    with Cons.IH [of l "pre @ [b]" a f' r] Cons.prems f False show ?thesis
      by (simp del: remove_rest.simps)
         (elim exE conjE, rename_tac l' ad', rule_tac x = l' in exI, simp del: remove_rest.simps,
          rule_tac x = "a # ad'" in exI, simp)
  next
    case True
    from remove_rest_hit [OF Cons.prems(1,2), of c x e] True obtain l1 where
      step: "\<And>r f. remove_rest e c x l (Some b) (Some a) r (Suc f) = (if ll_uniq l then Inr (l1, r + 1)
        else remove_rest e c x l1 (Some b) (case ad of [] \<Rightarrow> None | c # _ \<Rightarrow> Some c) (r + 1) f)" and
      l1: "list_at l1 (pre @ b # ad)" "tail_at l1 (pre @ b # ad) ok"
        "map (ndata (ll_heap l1)) (pre @ [b]) = map (ndata (ll_heap l)) (pre @ [b])"
        "map (ndata (ll_heap l1)) ad = map (ndata (ll_heap l)) ad" and
      keep: "ll_uniq l1 = ll_uniq l" "list_conf l1 = list_conf l" "freed_rest l1 = freed_rest l"
        "ll_freed l1 = ll_freed l @ freed_rest l [ndata (ll_heap l) a]" by blast
    show ?thesis
    proof (cases "ll_uniq l")
      case uniq: True
      then have "remove_rest e c x l (Some b) (Some a) r f = Inr (l1, r + 1)" using step f(1) by simp
      with uniq True l1 keep show ?thesis
        by (auto simp del: remove_rest.simps intro!: exI [of _ ad])
    next
      case False
      from Cons.IH [OF l1(1,2) f(2), of "r + 1"] obtain l' ad' where IH:
        "remove_rest e c x l1 (Some b) (case ad of [] \<Rightarrow> None | a # _ \<Rightarrow> Some a) (r + 1) f' =
          Inr (l', r + 1 + int (length (take_matches False (\<lambda>d. c d x = 0) (map (ndata (ll_heap l)) ad))))"
        "list_at l' (pre @ b # ad')" "tail_at l' (pre @ b # ad') ok"
        "map (ndata (ll_heap l')) (pre @ b # ad') = map (ndata (ll_heap l)) (pre @ [b]) @
           drop_matches False (\<lambda>d. c d x = 0) (map (ndata (ll_heap l)) ad)"
        "list_conf l' = list_conf l" "ll_freed l' = ll_freed l @ freed_rest l [ndata (ll_heap l) a] @
           freed_rest l (take_matches False (\<lambda>d. c d x = 0) (map (ndata (ll_heap l)) ad))"
        unfolding l1 keep using False by auto
      have "freed_rest l [ndata (ll_heap l) a] @ freed_rest l ys = freed_rest l (ndata (ll_heap l) a # ys)" for ys
        by (simp add: freed_rest_def)
      moreover have "remove_rest e c x l (Some b) (Some a) r f = Inr (l', r + 1 +
          int (length (take_matches False (\<lambda>d. c d x = 0) (map (ndata (ll_heap l)) ad))))"
        using step f(1) False IH(1) by simp
      ultimately show ?thesis using IH(2-) False True
        by (intro exI [of _ l'] exI [of _ ad']) (auto simp del: remove_rest.simps)
    qed
  qed
qed

definition rm_front :: "bool \<Rightarrow> (ptr \<Rightarrow> bool) \<Rightarrow> ptr list \<Rightarrow> ptr list" where
  "rm_front uniq m xs = (let ys = dropWhile m xs in
     if ys = [] \<or> uniq \<and> takeWhile m xs \<noteq> [] then ys else hd ys # drop_matches uniq m (tl ys))"

definition rm_rest :: "bool \<Rightarrow> (ptr \<Rightarrow> bool) \<Rightarrow> ptr list \<Rightarrow> ptr list" where
  "rm_rest uniq m xs = (let ys = dropWhile m xs in
     if ys = [] \<or> uniq \<and> takeWhile m xs \<noteq> [] then [] else take_matches uniq m (tl ys))"

lemma drop_matches_all: "drop_matches False m xs = filter (\<lambda>x. \<not> m x) xs"
  by (induction xs) auto

lemma filter_dropWhile:
  "filter (\<lambda>x. \<not> m x) xs =
   (case dropWhile m xs of [] \<Rightarrow> [] | y # ys \<Rightarrow> y # filter (\<lambda>x. \<not> m x) ys)"
  by (induction xs) auto

lemma rm_front_all: "rm_front False m xs = filter (\<lambda>x. \<not> m x) xs"
  by (subst filter_dropWhile)
     (auto simp: rm_front_def Let_def drop_matches_all simp del: dropWhile_eq_Nil_conv split: list.splits)

lemma tail_at_drop:
  assumes "list_at l' (drop k ad)" "tail_at l ad ok" "ll_heap l' = ll_heap l |` (- set (take k ad))"
    "ll_tail l' = ll_tail l" "ll_brk l' = ll_brk l" "distinct ad" "\<forall>a\<in>set ad. a < ll_brk l"
  shows "tail_at l' (drop k ad) (ok \<and> drop k ad \<noteq> [])"
proof (cases ok)
  case True
  with assms(2) have "ll_tail l = Some (last ad)" "ad \<noteq> []" by (auto simp: tail_at_def)
  with True assms show ?thesis by (auto simp: tail_at_def)
next
  case False
  with assms show ?thesis by (auto simp: tail_at_def restrict_map_def split: option.splits)
qed

lemma len_matches: "length (take_matches u m xs) + length (drop_matches u m xs) = length xs"
  by (induction xs) auto

lemma len_tw_dw: "length (takeWhile m xs) + length (dropWhile m xs) = length xs"
  by (metis length_append takeWhile_dropWhile_id)

text \<open>The first loop, in terms of the items: what it takes, what it leaves.\<close>

lemma remove_front_list:
  fixes x :: ptr and c :: "ptr \<Rightarrow> ptr \<Rightarrow> int"
  assumes ad: "list_at l ad" "tail_at l ad ok" "xs = map (ndata (ll_heap l)) ad"
  defines "m \<equiv> \<lambda>d. c d x = 0"
  obtains l1 tk dk where "remove_front e c x l 0 (ll_brk l) = Inr (l1, int (length tk))"
    "list_at l1 dk" "tail_at l1 dk (ok \<and> dk \<noteq> [])" "ll_brk l1 = ll_brk l" "list_conf l1 = list_conf l"
    "map (ndata (ll_heap l)) tk = takeWhile m xs" "map (ndata (ll_heap l1)) dk = dropWhile m xs"
    "ll_freed l1 = ll_freed l @ (if ll_free_fn l = None then [] else takeWhile m xs)"
    "length xs = length tk + length dk"
proof -
  define M where "M = (\<lambda>a. m (ndata (ll_heap l) a))"
  define tk dk where "tk = takeWhile M ad" and "dk = dropWhile M ad"
  obtain l1 where l1: "remove_front e c x l 0 (ll_brk l) = Inr (l1, int (length tk))"
    "list_at l1 dk" "ll_heap l1 = ll_heap l |` (- set tk)" "ll_tail l1 = ll_tail l"
    "ll_brk l1 = ll_brk l" "list_conf l1 = list_conf l"
    "ll_freed l1 = ll_freed l @ (if ll_free_fn l = None then [] else map (ndata (ll_heap l)) tk)"
    using remove_front_ok [OF ad(1) list_at_length [OF ad(1)], of e c x 0]
    by (auto simp: tk_def dk_def M_def m_def)
  have sp: "tk @ dk = ad" by (simp add: tk_def dk_def)
  have tkx: "map (ndata (ll_heap l)) tk = takeWhile m xs" "map (ndata (ll_heap l)) dk = dropWhile m xs"
    by (simp_all add: ad(3) takeWhile_map dropWhile_map tk_def dk_def M_def comp_def)
  have "distinct (tk @ dk)" using ad(1) sp by (simp add: list_at_def)
  then have "map (ndata (ll_heap l1)) dk = map (ndata (ll_heap l)) dk"
    by (auto simp: l1(3) ndata_def restrict_map_def)
  then have dat: "map (ndata (ll_heap l1)) dk = dropWhile m xs" using tkx by simp
  have tl: "tail_at l1 dk (ok \<and> dk \<noteq> [])"
    using tail_at_drop [of l1 "length tk" ad l ok] l1 ad sp
    by (auto simp: dk_def tk_def list_at_def dropWhile_eq_drop takeWhile_eq_take [symmetric])
  have len: "length xs = length tk + length dk" using ad(3) sp by (metis length_append length_map)
  have fr: "ll_freed l1 = ll_freed l @ (if ll_free_fn l = None then [] else takeWhile m xs)"
    using l1(7) unfolding tkx(1) .
  show thesis by (rule that [OF l1(1,2) tl l1(5,6) tkx(1) dat fr len])
qed

text \<open>The second loop starts behind an item that stays.\<close>

lemma remove_rest_list:
  fixes x :: ptr and c :: "ptr \<Rightarrow> ptr \<Rightarrow> int"
  assumes l: "list_at l (b # rest)" "tail_at l (b # rest) ok" "ll_heap l b = Some nb"
    "ln_next nb = (case rest of [] \<Rightarrow> None | a # _ \<Rightarrow> Some a)"
  defines "m \<equiv> \<lambda>d. c d x = 0"
  obtains l' where "remove_rest e c x l (Some b) (ln_next nb) r (ll_brk l) =
      Inr (l', r + int (length (take_matches (ll_uniq l) m (map (ndata (ll_heap l)) rest))))"
    "list_rep l' (ndata (ll_heap l) b # drop_matches (ll_uniq l) m (map (ndata (ll_heap l)) rest)) ok"
    "list_conf l' = list_conf l"
    "ll_freed l' = ll_freed l @ freed_rest l (take_matches (ll_uniq l) m (map (ndata (ll_heap l)) rest))"
proof -
  have "length rest \<le> ll_brk l" using list_at_length [OF l(1)] by simp
  from remove_rest_ok [of l "[]" b rest ok "ll_brk l" e c x r] l(1,2) this obtain l2 ad2 where l2:
    "remove_rest e c x l (Some b) (ln_next nb) r (ll_brk l) =
      Inr (l2, r + int (length (take_matches (ll_uniq l) m (map (ndata (ll_heap l)) rest))))"
    "list_at l2 (b # ad2)" "tail_at l2 (b # ad2) ok"
    "map (ndata (ll_heap l2)) (b # ad2) = ndata (ll_heap l) b # drop_matches (ll_uniq l) m (map (ndata (ll_heap l)) rest)"
    "list_conf l2 = list_conf l"
    "ll_freed l2 = ll_freed l @ freed_rest l (take_matches (ll_uniq l) m (map (ndata (ll_heap l)) rest))"
    by (auto simp: m_def [symmetric] l(4))
  moreover have "list_rep l2 (ndata (ll_heap l) b # drop_matches (ll_uniq l) m (map (ndata (ll_heap l)) rest)) ok"
    using l2(2-4) by (intro list_repI [of _ "b # ad2"]) simp_all
  ultimately show thesis by (intro that)
qed

lemma n_list_remove_ok:
  fixes x :: ptr and e :: env
  assumes rep: "list_rep l xs ok" and cmp: "list_cmp cmpf l = Some k"
  defines "m \<equiv> \<lambda>d. call_cmp e k d x = 0"
  shows "\<exists>l'. n_list_remove_ex e l x cmpf =
      Inr (l', int (length xs) - int (length (rm_front (ll_uniq l) m xs))) \<and>
    list_rep l' (rm_front (ll_uniq l) m xs) (ok \<and> rm_front (ll_uniq l) m xs \<noteq> []) \<and>
    list_conf l' = list_conf l \<and>
    ll_freed l' = ll_freed l @ (if ll_free_fn l = None then [] else takeWhile m xs) @
      freed_rest l (rm_rest (ll_uniq l) m xs)"
proof (cases "ll_head l = None")
  case True
  then show ?thesis using rep list_rep_head [OF rep]
    by (auto simp: n_list_remove_ex_def rm_front_def rm_rest_def freed_rest_def)
       (auto simp: list_rep_def tail_at_def split: if_splits)
next
  case False
  then obtain hd0 where hd0: "ll_head l = Some hd0" by auto
  obtain ad where ad: "list_at l ad" "tail_at l ad ok" "xs = map (ndata (ll_heap l)) ad"
    using rep by (auto simp: list_rep_def)
  obtain l1 tk dk where l1: "remove_front e (call_cmp e k) x l 0 (ll_brk l) = Inr (l1, int (length tk))"
    "list_at l1 dk" "tail_at l1 dk (ok \<and> dk \<noteq> [])" "ll_brk l1 = ll_brk l" "list_conf l1 = list_conf l"
    "map (ndata (ll_heap l)) tk = takeWhile m xs" "map (ndata (ll_heap l1)) dk = dropWhile m xs"
    "ll_freed l1 = ll_freed l @ (if ll_free_fn l = None then [] else takeWhile m xs)"
    "length xs = length tk + length dk"
    using remove_front_list [OF ad, of e "call_cmp e k" x] unfolding m_def by blast
  have uq: "ll_uniq l1 = ll_uniq l" "freed_rest l1 = freed_rest l"
    using l1(5) by (auto simp: ll_uniq_def list_conf_def freed_rest_def)
  note unf = n_list_remove_ex_def [of e l x cmpf]
  show ?thesis
  proof (cases dk)
    case Nil
    have rm: "rm_front (ll_uniq l) m xs = []" "rm_rest (ll_uniq l) m xs = []"
      using l1(7) Nil by (auto simp: rm_front_def rm_rest_def)
    have "n_list_remove_ex e l x cmpf = Inr (l1, int (length xs))"
      using hd0 cmp l1(1,2,9) Nil by (simp add: unf list_at_def)
    moreover have "list_rep l1 [] False" using l1(2,3) Nil by (intro list_repI [of _ "[]"]) auto
    ultimately show ?thesis using l1(5,8) by (auto simp: rm freed_rest_def)
  next
    case (Cons b rest)
    have head: "ll_head l1 = Some b" "ll_items l1 = int (length dk)" using l1(2) Cons by (auto simp: list_at_def)
    obtain nb where nb: "ll_heap l1 b = Some nb" "ln_next nb = (case rest of [] \<Rightarrow> None | c # _ \<Rightarrow> Some c)"
      using l1(2) Cons by (cases rest) (auto simp: list_at_def)
    have dw: "dropWhile m xs = ndata (ll_heap l1) b # map (ndata (ll_heap l1)) rest" using l1(7) Cons by simp
    have tw: "takeWhile m xs = [] \<longleftrightarrow> tk = []" using l1(6) by (metis map_is_Nil_conv)
    show ?thesis
    proof (cases "ll_uniq l \<and> tk \<noteq> []")
      case True
      then have rm: "rm_front (ll_uniq l) m xs = dropWhile m xs" "rm_rest (ll_uniq l) m xs = []"
        using tw by (auto simp: rm_front_def rm_rest_def Let_def)
      have "n_list_remove_ex e l x cmpf = Inr (l1, int (length tk))"
        using hd0 cmp l1(1) True head uq by (simp add: unf)
      moreover have "list_rep l1 (dropWhile m xs) ok" using l1(2,3,7) Cons by (intro list_repI [of _ dk]) auto
      ultimately show ?thesis using l1(5,8,9) dw by (auto simp: rm freed_rest_def Cons)
    next
      case rest: False
      then have rm: "rm_front (ll_uniq l) m xs = ndata (ll_heap l1) b # drop_matches (ll_uniq l) m (map (ndata (ll_heap l1)) rest)"
        "rm_rest (ll_uniq l) m xs = take_matches (ll_uniq l) m (map (ndata (ll_heap l1)) rest)"
        using tw by (auto simp: rm_front_def rm_rest_def dw Let_def)
      have "tail_at l1 (b # rest) ok" using l1(3) Cons by simp
      from remove_rest_list [OF l1(2) [unfolded Cons] this nb, of e "call_cmp e k" x "int (length tk)"] obtain l2 where l2:
        "remove_rest e (call_cmp e k) x l1 (Some b) (ln_next nb) (int (length tk)) (ll_brk l1) =
          Inr (l2, int (length tk) + int (length (take_matches (ll_uniq l1) m (map (ndata (ll_heap l1)) rest))))"
        "list_rep l2 (ndata (ll_heap l1) b # drop_matches (ll_uniq l1) m (map (ndata (ll_heap l1)) rest)) ok"
        "list_conf l2 = list_conf l1"
        "ll_freed l2 = ll_freed l1 @ freed_rest l1 (take_matches (ll_uniq l1) m (map (ndata (ll_heap l1)) rest))"
        unfolding m_def by blast
      note l2 = l2 [unfolded uq, folded rm]
      have "n_list_remove_ex e l x cmpf = Inr (l2, int (length tk) + int (length (rm_rest (ll_uniq l) m xs)))"
        using hd0 cmp l1(1,4) rest head uq l2(1) nb(1) by (auto simp: unf read_node_def)
      moreover have "length tk + length (rm_rest (ll_uniq l) m xs) + length (rm_front (ll_uniq l) m xs) = length xs"
        using l1(9) Cons len_matches [of "ll_uniq l" m "map (ndata (ll_heap l1)) rest"] by (simp add: rm)
      moreover have "rm_front (ll_uniq l) m xs \<noteq> []" by (simp add: rm(1))
      ultimately show ?thesis using l1(5,8) l2(2-4) by (intro exI [of _ l2]) auto
    qed
  qed
qed

section \<open>Freeing\<close>

lemma free_loop_ok:
  "lpath (ll_heap l) p ad None \<Longrightarrow> distinct ad \<Longrightarrow> length ad \<le> f \<Longrightarrow>
   \<exists>l'. free_loop l p f = Inr l' \<and> ll_heap l' = ll_heap l |` (- set ad) \<and>
     ll_freed l' = ll_freed l @ freed_rest l (map (ndata (ll_heap l)) ad)"
proof (induction ad arbitrary: l p f)
  case Nil
  then show ?case by (cases f) (auto simp: freed_rest_def)
next
  case (Cons a ad)
  then obtain f' na where a: "f = Suc f'" "p = Some a" "ll_heap l a = Some na" "a \<notin> set ad"
    "lpath (ll_heap l) (ln_next na) ad None" "length ad \<le> f'" "distinct ad" by (cases f) auto
  define l1 where "l1 = l\<lparr>ll_freed := ll_freed l @ freed_rest l [ln_data na],
    ll_heap := (ll_heap l)(a := None)\<rparr>"
  have "(if ln_data na \<noteq> NULL \<and> ll_free_fn l \<noteq> None
        then l\<lparr>ll_freed := ll_freed l @ [ln_data na]\<rparr> else l) =
        l\<lparr>ll_freed := ll_freed l @ freed_rest l [ln_data na]\<rparr>"
    by (auto simp: freed_rest_def)
  then have step: "free_loop l p f = free_loop l1 (ln_next na) f'"
    using a by (simp add: read_node_def free_node_def l1_def)
  have "lpath (ll_heap l1) (ln_next na) ad None" using a by (simp add: l1_def)
  from Cons.IH [OF this a(7,6)] obtain l' where l': "free_loop l1 (ln_next na) f' = Inr l'"
    "ll_heap l' = ll_heap l1 |` (- set ad)"
    "ll_freed l' = ll_freed l1 @ freed_rest l1 (map (ndata (ll_heap l1)) ad)" by blast
  have "map (ndata (ll_heap l1)) ad = map (ndata (ll_heap l)) ad" using a(4) by (simp add: l1_def)
  note l'(3) [unfolded this]
  moreover have "ll_heap l1 |` (- set ad) = ll_heap l |` (- set (a # ad))"
    by (auto simp: l1_def restrict_map_def fun_eq_iff)
  moreover have "ndata (ll_heap l) a = ln_data na" using a by (simp add: ndata_def)
  moreover have "freed_rest l [ln_data na] @ freed_rest l ys = freed_rest l (ln_data na # ys)"
    "freed_rest l1 ys = freed_rest l ys" for ys by (simp_all add: freed_rest_def l1_def)
  moreover have "ll_freed l1 = ll_freed l @ freed_rest l [ln_data na]" by (simp add: l1_def)
  ultimately show ?case using l'(1,2) step by simp
qed

lemma n_list_free_ok:
  assumes "list_rep l xs ok" "ll_refcnt l = 0"
  shows "n_list_free l = Inr (None, ll_freed l @ freed_rest l xs)"
proof -
  obtain ad where ad: "list_at l ad" "xs = map (ndata (ll_heap l)) ad"
    using assms(1) by (auto simp: list_rep_def)
  from free_loop_ok [of l "ll_head l" ad "ll_brk l"] ad list_at_length [OF ad(1)] assms(2)
  show ?thesis by (auto simp: n_list_free_def list_at_def)
qed

section \<open>The specification\<close>

text \<open>
  A list of items, the bit \<open>lsp_tail\<close> (\<open>tail\<close> is the last node), the items given to
  \<open>free_fn\<close> and the two settings that matter.
\<close>

record list_spec =
  lsp_items :: "ptr list"
  lsp_tail :: bool
  lsp_freed :: "ptr list"

datatype list_call = L_push ptr | L_unshift ptr | L_pop | L_shift | L_nth int | L_remove_nth int
  | L_remove ptr | L_lookup ptr | L_map | L_size

datatype list_answer = L_bool bool | L_ptr ptr | L_int int | L_ptrs "ptr list"

fun list_step :: "env \<Rightarrow> tn_list \<Rightarrow> list_call \<Rightarrow> (tn_list \<times> list_answer) result" where
  "list_step e l (L_push x) = rbind (n_list_push e l x) (\<lambda>(l, b). Inr (l, L_bool b))"
| "list_step e l (L_unshift x) = rbind (n_list_unshift e l x) (\<lambda>(l, b). Inr (l, L_bool b))"
| "list_step e l L_pop = rbind (n_list_pop e l) (\<lambda>(l, p). Inr (l, L_ptr p))"
| "list_step e l L_shift = rbind (n_list_shift e l) (\<lambda>(l, p). Inr (l, L_ptr p))"
| "list_step e l (L_nth i) = rbind (n_list_nth l i) (\<lambda>p. Inr (l, L_ptr p))"
| "list_step e l (L_remove_nth i) = rbind (n_list_remove_nth e l i) (\<lambda>(l, p). Inr (l, L_ptr p))"
| "list_step e l (L_remove x) = rbind (n_list_remove_ex e l x None) (\<lambda>(l, n). Inr (l, L_int n))"
| "list_step e l (L_lookup x) = rbind (n_list_lookup_ex e l x None) (\<lambda>p. Inr (l, L_ptr p))"
| "list_step e l L_map = rbind (n_list_map_arg e l True) (\<lambda>ps. Inr (l, L_ptrs ps))"
| "list_step e l L_size = Inr (l, L_int (n_list_size l))"

fun list_run :: "env \<Rightarrow> tn_list \<Rightarrow> list_call list \<Rightarrow> (tn_list \<times> list_answer list) result" where
  "list_run e l [] = Inr (l, [])"
| "list_run e l (k # ks) = rbind (list_step e l k)
     (\<lambda>(l, r). rbind (list_run e l ks) (\<lambda>(l, rs). Inr (l, r # rs)))"

definition lsp_take :: "list_spec \<Rightarrow> nat \<Rightarrow> list_spec" where
  "lsp_take s i = (let ys = take i (lsp_items s) @ drop (Suc i) (lsp_items s) in
     s\<lparr>lsp_items := ys, lsp_tail := lsp_tail s \<and> ys \<noteq> []\<rparr>)"

fun lsp_step ::
    "bool \<Rightarrow> bool \<Rightarrow> (ptr \<Rightarrow> ptr \<Rightarrow> int) \<Rightarrow> list_spec \<Rightarrow> list_call \<Rightarrow> (list_spec \<times> list_answer) result" where
  "lsp_step uniq fr c s (L_push x) =
     (if uniq \<and> find_item c x (lsp_items s) \<noteq> NULL then Inr (s, L_bool False)
      else if lsp_items s = [] \<or> lsp_tail s
      then Inr (s\<lparr>lsp_items := lsp_items s @ [x], lsp_tail := True\<rparr>, L_bool True)
      else Inl Mem_Fault)"
| "lsp_step uniq fr c s (L_unshift x) =
     (if uniq \<and> find_item c x (lsp_items s) \<noteq> NULL then Inr (s, L_bool False)
      else Inr (s\<lparr>lsp_items := x # lsp_items s\<rparr>, L_bool True))"
| "lsp_step uniq fr c s L_pop =
     (if lsp_items s = [] then Inl (Died ''n_list_pop: pop from empty list'')
      else if lsp_tail s
      then Inr (lsp_take s (length (lsp_items s) - 1), L_ptr (last (lsp_items s)))
      else Inl Mem_Fault)"
| "lsp_step uniq fr c s L_shift =
     (if lsp_items s = [] then Inl (Died ''n_list_shift: shift from empty list'')
      else Inr (lsp_take s 0, L_ptr (hd (lsp_items s))))"
| "lsp_step uniq fr c s (L_nth i) =
     Inr (s, L_ptr (if 0 \<le> i \<and> i < int (length (lsp_items s)) then lsp_items s ! nat i else NULL))"
| "lsp_step uniq fr c s (L_remove_nth i) =
     (if lsp_items s = [] then Inl (Died ''n_list_remove_nth: remove from empty list'')
      else if i < 0 \<or> int (length (lsp_items s)) \<le> i
      then Inl (Died ''n_list_remove_nth: index out of bounds'')
      else if i \<noteq> 0 \<and> i = int (length (lsp_items s)) - 1 \<and> \<not> lsp_tail s then Inl Mem_Fault
      else Inr (lsp_take s (nat i), L_ptr (lsp_items s ! nat i)))"
| "lsp_step uniq fr c s (L_remove x) =
     (let xs = lsp_items s; m = (\<lambda>d. c d x = 0); ys = rm_front uniq m xs in
      Inr (s\<lparr>lsp_items := ys, lsp_tail := lsp_tail s \<and> ys \<noteq> [],
             lsp_freed := lsp_freed s @ (if fr then takeWhile m xs @
               filter (\<lambda>d. d \<noteq> NULL) (rm_rest uniq m xs) else [])\<rparr>,
           L_int (int (length xs) - int (length ys))))"
| "lsp_step uniq fr c s (L_lookup x) = Inr (s, L_ptr (find_item c x (lsp_items s)))"
| "lsp_step uniq fr c s L_map = Inr (s, L_ptrs (lsp_items s))"
| "lsp_step uniq fr c s L_size = Inr (s, L_int (int (length (lsp_items s))))"

fun lsp_run ::
    "bool \<Rightarrow> bool \<Rightarrow> (ptr \<Rightarrow> ptr \<Rightarrow> int) \<Rightarrow> list_spec \<Rightarrow> list_call list \<Rightarrow>
     (list_spec \<times> list_answer list) result" where
  "lsp_run uniq fr c s [] = Inr (s, [])"
| "lsp_run uniq fr c s (k # ks) = rbind (lsp_step uniq fr c s k)
     (\<lambda>(s, r). rbind (lsp_run uniq fr c s ks) (\<lambda>(s, rs). Inr (s, r # rs)))"

definition list_rel :: "env \<Rightarrow> bool \<Rightarrow> bool \<Rightarrow> (ptr \<Rightarrow> ptr \<Rightarrow> int) \<Rightarrow> tn_list \<Rightarrow> list_spec \<Rightarrow> bool" where
  "list_rel e uniq fr c l s \<longleftrightarrow> list_rep l (lsp_items s) (lsp_tail s) \<and> ll_freed l = lsp_freed s \<and>
     ll_uniq l = uniq \<and> (ll_free_fn l \<noteq> None) = fr \<and>
     (\<exists>k. ll_cmp_fn l = Some k \<and> call_cmp e k = c)"

lemma list_relI:
  "list_rel e uniq fr c l s \<Longrightarrow> list_rep l' (lsp_items s') (lsp_tail s') \<Longrightarrow>
   ll_freed l' = lsp_freed s' \<Longrightarrow> list_conf l' = list_conf l \<Longrightarrow> list_rel e uniq fr c l' s'"
  by (auto simp: list_rel_def list_conf_def ll_uniq_def)

text \<open>One call on both sides: the same failure, or the same answer and related states.\<close>

definition list_agree where
  "list_agree e uniq fr c r sr = (case sr of Inl f \<Rightarrow> r = Inl f
     | Inr (s, a) \<Rightarrow> \<exists>l. r = Inr (l, a) \<and> list_rel e uniq fr c l s)"

lemma list_there_rel:
  "list_rel e uniq fr c l s \<Longrightarrow>
   list_there e l x (lsp_items s) \<longleftrightarrow> uniq \<and> find_item c x (lsp_items s) \<noteq> NULL"
  by (auto simp: list_rel_def list_there_def)

lemma step_push:
  assumes "list_rel e uniq fr c l s"
  shows "list_agree e uniq fr c (list_step e l (L_push x)) (lsp_step uniq fr c s (L_push x))"
proof -
  have rep: "list_rep l (lsp_items s) (lsp_tail s)" "ll_cmp_fn l \<noteq> None" "ll_freed l = lsp_freed s"
    using assms by (auto simp: list_rel_def)
  consider "list_there e l x (lsp_items s)"
    | "\<not> list_there e l x (lsp_items s)" "lsp_items s = [] \<or> lsp_tail s"
    | "\<not> list_there e l x (lsp_items s)" "lsp_items s \<noteq> []" "\<not> lsp_tail s" by blast
  then show ?thesis
  proof cases
    case 1
    with n_list_add_there [OF rep(1,2)] assms show ?thesis
      by (auto simp: list_agree_def list_there_rel [OF assms])
  next
    case 2
    with n_list_push_ok [OF rep(1,2)] obtain l' where
      "n_list_push e l x = Inr (l', True)" "list_rep l' (lsp_items s @ [x]) True"
      "list_conf l' = list_conf l" "ll_freed l' = ll_freed l" by blast
    with 2 show ?thesis
      by (auto simp: list_agree_def list_there_rel [OF assms] rep intro!: list_relI [OF assms])
  next
    case 3
    with n_list_push_lost [of l "lsp_items s"] rep show ?thesis
      by (auto simp: list_agree_def list_there_rel [OF assms])
  qed
qed

lemma step_unshift:
  assumes "list_rel e uniq fr c l s"
  shows "list_agree e uniq fr c (list_step e l (L_unshift x)) (lsp_step uniq fr c s (L_unshift x))"
proof -
  have rep: "list_rep l (lsp_items s) (lsp_tail s)" "ll_cmp_fn l \<noteq> None" "ll_freed l = lsp_freed s"
    using assms by (auto simp: list_rel_def)
  show ?thesis
  proof (cases "list_there e l x (lsp_items s)")
    case True
    with n_list_add_there [OF rep(1,2)] assms show ?thesis
      by (auto simp: list_agree_def list_there_rel [OF assms])
  next
    case False
    with n_list_unshift_ok [OF rep(1,2)] obtain l' where
      "n_list_unshift e l x = Inr (l', True)" "list_rep l' (x # lsp_items s) (lsp_tail s)"
      "list_conf l' = list_conf l" "ll_freed l' = ll_freed l" by blast
    with False show ?thesis
      by (auto simp: list_agree_def list_there_rel [OF assms] rep intro!: list_relI [OF assms])
  qed
qed

lemma step_shift:
  assumes "list_rel e uniq fr c l s" "\<not> die_hook e"
  shows "list_agree e uniq fr c (list_step e l L_shift) (lsp_step uniq fr c s L_shift)"
proof -
  have rep: "list_rep l (lsp_items s) (lsp_tail s)" "ll_freed l = lsp_freed s"
    using assms by (auto simp: list_rel_def)
  show ?thesis
  proof (cases "lsp_items s")
    case Nil
    with list_rep_head [OF rep(1)] assms(2) show ?thesis
      by (auto simp: list_agree_def n_list_shift_def)
  next
    case (Cons x xs)
    with n_list_shift_ok [of l x xs "lsp_tail s" e] rep show ?thesis
      by (auto simp: list_agree_def lsp_take_def intro!: list_relI [OF assms(1)])
  qed
qed

lemma step_pop:
  assumes "list_rel e uniq fr c l s" "\<not> die_hook e"
  shows "list_agree e uniq fr c (list_step e l L_pop) (lsp_step uniq fr c s L_pop)"
proof -
  have rep: "list_rep l (lsp_items s) (lsp_tail s)" "ll_freed l = lsp_freed s"
    using assms by (auto simp: list_rel_def)
  show ?thesis
  proof (cases "lsp_items s" rule: rev_cases)
    case Nil
    with list_rep_head [OF rep(1)] assms(2) show ?thesis
      by (auto simp: list_agree_def n_list_pop_def)
  next
    case (snoc xs x)
    show ?thesis
    proof (cases "lsp_tail s")
      case True
      with n_list_pop_ok [of l xs x e] rep snoc show ?thesis
        by (auto simp: list_agree_def lsp_take_def intro!: list_relI [OF assms(1)])
    next
      case False
      with n_list_pop_lost [of l "lsp_items s" e] rep snoc show ?thesis
        by (auto simp: list_agree_def)
    qed
  qed
qed

lemma list_nonempty:
  "list_rep l xs ok \<Longrightarrow> ll_items l = int (length xs) \<and> (ll_head l = None \<longleftrightarrow> xs = [])"
  using list_rep_elems list_rep_head by blast

lemma step_remove_nth:
  assumes "list_rel e uniq fr c l s" "\<not> die_hook e"
  shows "list_agree e uniq fr c (list_step e l (L_remove_nth i)) (lsp_step uniq fr c s (L_remove_nth i))"
proof -
  have rep: "list_rep l (lsp_items s) (lsp_tail s)" "ll_freed l = lsp_freed s"
    using assms by (auto simp: list_rel_def)
  note ne = list_nonempty [OF rep(1)]
  consider "lsp_items s = []" | "lsp_items s \<noteq> []" "i < 0 \<or> int (length (lsp_items s)) \<le> i"
    | "lsp_items s \<noteq> []" "i = 0"
    | "lsp_items s \<noteq> []" "i \<noteq> 0" "i = int (length (lsp_items s)) - 1"
    | "0 < i" "i < int (length (lsp_items s)) - 1" by fastforce
  then show ?thesis
  proof cases
    case 1
    with ne assms(2) show ?thesis by (auto simp: list_agree_def n_list_remove_nth_def)
  next
    case 2
    with ne assms(2) show ?thesis by (auto simp: list_agree_def n_list_remove_nth_def)
  next
    case 3
    then have "list_step e l (L_remove_nth i) = list_step e l L_shift"
      "lsp_step uniq fr c s (L_remove_nth i) = lsp_step uniq fr c s L_shift"
      using ne by (auto simp: n_list_remove_nth_def hd_conv_nth)
    with step_shift [OF assms] show ?thesis by simp
  next
    case 4
    then have "nat i = length (lsp_items s) - 1" "0 < i"
      by (cases "lsp_items s"; auto)+
    with 4 have "list_step e l (L_remove_nth i) = list_step e l L_pop"
      "lsp_step uniq fr c s (L_remove_nth i) = lsp_step uniq fr c s L_pop"
      using ne by (auto simp: n_list_remove_nth_def last_conv_nth)
    with step_pop [OF assms] show ?thesis by simp
  next
    case 5
    let ?n = "nat i" let ?xs = "lsp_items s"
    have lt: "?n < length ?xs" "Suc ?n < length ?xs" "0 < ?n" "int ?n = i" "?xs \<noteq> []" using 5 by auto
    have sp: "lsp_items s = take ?n ?xs @ ?xs ! ?n # drop (Suc ?n) ?xs"
      using lt by (simp add: id_take_nth_drop [symmetric])
    have "list_rep l (take ?n ?xs @ ?xs ! ?n # drop (Suc ?n) ?xs) (lsp_tail s)"
      using rep(1) by (simp only: sp [symmetric])
    from n_list_remove_nth_mid [OF this, of e] lt obtain l' where
      "n_list_remove_nth e l i = Inr (l', ?xs ! ?n)"
      "list_rep l' (take ?n ?xs @ drop (Suc ?n) ?xs) (lsp_tail s)"
      "list_conf l' = list_conf l" "ll_freed l' = ll_freed l" by auto
    then show ?thesis using 5 lt
      by (auto simp: list_agree_def lsp_take_def Let_def rep(2) intro!: list_relI [OF assms(1)])
  qed
qed

lemma step_remove:
  assumes "list_rel e uniq fr c l s"
  shows "list_agree e uniq fr c (list_step e l (L_remove x)) (lsp_step uniq fr c s (L_remove x))"
proof -
  obtain k where k: "list_cmp None l = Some k" "call_cmp e k = c" "ll_uniq l = uniq"
    "fr = (ll_free_fn l \<noteq> None)" "ll_freed l = lsp_freed s"
    "list_rep l (lsp_items s) (lsp_tail s)"
    using assms by (auto simp: list_rel_def list_cmp_def)
  from n_list_remove_ok [OF k(6,1), of e x] obtain l' where
    "n_list_remove_ex e l x None = Inr (l', int (length (lsp_items s)) -
       int (length (rm_front uniq (\<lambda>d. c d x = 0) (lsp_items s))))"
    "list_rep l' (rm_front uniq (\<lambda>d. c d x = 0) (lsp_items s))
      (lsp_tail s \<and> rm_front uniq (\<lambda>d. c d x = 0) (lsp_items s) \<noteq> [])"
    "list_conf l' = list_conf l"
    "ll_freed l' = lsp_freed s @ (if ll_free_fn l = None then [] else
        takeWhile (\<lambda>d. c d x = 0) (lsp_items s)) @
      freed_rest l (rm_rest uniq (\<lambda>d. c d x = 0) (lsp_items s))"
    unfolding k by blast
  note l' = this
  show ?thesis
  proof (cases fr)
    case True
    then have fr: "fr = True" "ll_free_fn l \<noteq> None" using k(4) by auto
    with l' show ?thesis
      by (auto simp: list_agree_def Let_def freed_rest_def intro!: list_relI [OF assms [unfolded fr(1)]])
  next
    case False
    then have fr: "fr = False" "ll_free_fn l = None" using k(4) by auto
    with l' show ?thesis
      by (auto simp: list_agree_def Let_def freed_rest_def intro!: list_relI [OF assms [unfolded fr(1)]])
  qed
qed

lemma step_ok:
  assumes "list_rel e uniq fr c l s" "\<not> die_hook e"
  shows "list_agree e uniq fr c (list_step e l k) (lsp_step uniq fr c s k)"
proof -
  obtain j where rep: "list_rep l (lsp_items s) (lsp_tail s)" "list_cmp None l = Some j"
    "call_cmp e j = c" using assms by (auto simp: list_rel_def list_cmp_def)
  note reads = n_list_nth_ok [OF rep(1)] n_list_map_ok [OF rep(1)] n_list_lookup_ok [OF rep(1,2)]
    list_nonempty [OF rep(1)]
  show ?thesis
    by (cases k)
       (use assms rep reads step_push step_unshift step_pop step_shift step_remove_nth step_remove
         in \<open>auto simp: list_agree_def n_list_size_def simp del: lsp_step.simps(1-4,6,7)
           list_step.simps(1-4,6,7)\<close>)
qed

lemma list_run_ok:
  assumes "list_rel e uniq fr c l s" "\<not> die_hook e"
  shows "list_agree e uniq fr c (list_run e l ks) (lsp_run uniq fr c s ks)"
  using assms(1)
proof (induction ks arbitrary: l s)
  case Nil
  then show ?case by (auto simp: list_agree_def)
next
  case (Cons k ks)
  note step = step_ok [OF Cons.prems assms(2), of k]
  show ?case
  proof (cases "lsp_step uniq fr c s k")
    case (Inl f)
    with step show ?thesis by (simp add: list_agree_def)
  next
    case (Inr sr)
    then obtain s1 r where s1: "lsp_step uniq fr c s k = Inr (s1, r)" by (cases sr) auto
    with step obtain l1 where l1: "list_step e l k = Inr (l1, r)" "list_rel e uniq fr c l1 s1"
      by (auto simp: list_agree_def)
    from Cons.IH [OF l1(2)] show ?thesis
      by (cases "lsp_run uniq fr c s1 ks") (auto simp: list_agree_def s1 l1(1))
  qed
qed

section \<open>As a double-ended queue\<close>

text \<open>Items go in at the end, so the first node is always made by \<open>n_list_push\<close> and \<open>tail\<close>
  stays right.\<close>

definition list_push_s :: "env \<Rightarrow> tn_list \<Rightarrow> ptr \<Rightarrow> tn_list result" where
  "list_push_s e l x = rbind (n_list_push e l x) (\<lambda>(l, _). Inr l)"

definition list_plain :: "tn_list \<Rightarrow> bool" where
  "list_plain l \<longleftrightarrow> (\<exists>xs. list_rep l xs (xs \<noteq> [])) \<and> \<not> ll_uniq l \<and> ll_cmp_fn l \<noteq> None"

lemma list_plain_rep: "list_plain l \<Longrightarrow> list_rep l (list_elems l) (list_elems l \<noteq> [])"
  using list_rep_elems by (fastforce simp: list_plain_def)

lemma list_plain_keep:
  "list_plain l \<Longrightarrow> list_conf l' = list_conf l \<Longrightarrow> list_rep l' xs (xs \<noteq> []) \<Longrightarrow>
   list_plain l' \<and> list_elems l' = xs"
  using list_rep_elems by (fastforce simp: list_plain_def list_conf_def ll_uniq_def)

interpretation lst: deque "list_push_s e" "n_list_pop e" list_elems list_plain "n_list_shift e"
proof unfold_locales
  fix l :: tn_list and x assume l: "list_plain l"
  then have "\<not> list_there e l x (list_elems l)" "ll_cmp_fn l \<noteq> None"
    by (auto simp: list_there_def list_plain_def)
  with n_list_push_ok [OF list_plain_rep [OF l]] obtain l' where
    "n_list_push e l x = Inr (l', True)" "list_rep l' (list_elems l @ [x]) True"
    "list_conf l' = list_conf l" by blast
  with list_plain_keep [OF l, of l' "list_elems l @ [x]"]
  show "\<exists>l'. list_push_s e l x = Inr l' \<and> list_plain l' \<and> list_elems l' = list_elems l @ [x]"
    by (auto simp: list_push_s_def)
next
  fix l :: tn_list and xs x assume l: "list_plain l" "list_elems l = xs @ [x]"
  with list_plain_rep [OF l(1)] have "list_rep l (xs @ [x]) True" by simp
  from n_list_pop_ok [OF this, of e] list_plain_keep [OF l(1)]
  show "\<exists>l'. n_list_pop e l = Inr (l', x) \<and> list_plain l' \<and> list_elems l' = xs" by blast
next
  fix l :: tn_list and x xs assume l: "list_plain l" "list_elems l = x # xs"
  with list_plain_rep [OF l(1)] have "list_rep l (x # xs) True" by simp
  from n_list_shift_ok [OF this, of e] list_plain_keep [OF l(1)]
  show "\<exists>l'. n_list_shift e l = Inr (l', x) \<and> list_plain l' \<and> list_elems l' = xs" by auto
qed

section \<open>Properties\<close>

lemma list_new_rel:
  "list_rel e (ll_uniq (n_list_new flags freef cmpf)) (freef \<noteq> None)
    (call_cmp e (case cmpf of None \<Rightarrow> Cmp_Default | Some c \<Rightarrow> c)) (n_list_new flags freef cmpf)
    \<lparr>lsp_items = [], lsp_tail = False, lsp_freed = []\<rparr>"
  using list_new_rep [of flags freef cmpf]
  by (auto simp: list_rel_def n_list_new_def split: option.splits)



lemma list_new_plain: "flags AND TN_LIST_UNIQ = 0 \<Longrightarrow> list_plain (n_list_new flags freef cmpf)"
proof -
  assume "flags AND TN_LIST_UNIQ = 0"
  then have "\<not> ll_uniq (n_list_new flags freef cmpf)" "ll_cmp_fn (n_list_new flags freef cmpf) \<noteq> None"
    by (auto simp: ll_uniq_def n_list_new_def split: option.splits)
  moreover have "list_rep (n_list_new flags freef cmpf) [] ([] \<noteq> ([] :: ptr list))"
    using list_new_rep by simp
  ultimately show ?thesis unfolding list_plain_def by blast
qed

lemma list_new_elems: "list_elems (n_list_new flags freef cmpf) = []"
  using list_rep_elems [OF list_new_rep] by blast

text \<open>A linked list is first in, first out with push and shift and last in, first out with
  push and pop: everything pushed onto a new list comes back, in order or reversed, and the
  list is empty again.\<close>

theorem n_list_fifo_lifo:
  assumes "flags AND TN_LIST_UNIQ = 0"
  shows "(\<exists>l1 l2. push_list (list_push_s e) (n_list_new flags freef cmpf) xs = Inr l1 \<and>
      n_list_size l1 = int (length xs) \<and>
      pop_list (n_list_shift e) (length xs) l1 = Inr (l2, xs) \<and> list_elems l2 = []) \<and>
    (\<exists>l1 l2. push_list (list_push_s e) (n_list_new flags freef cmpf) xs = Inr l1 \<and>
      pop_list (n_list_pop e) (length xs) l1 = Inr (l2, rev xs) \<and> list_elems l2 = [])"
proof -
  note new = list_new_plain [OF assms, of freef cmpf] list_new_elems [of flags freef cmpf]
  obtain l1 where l1: "push_list (list_push_s e) (n_list_new flags freef cmpf) xs = Inr l1"
    "list_plain l1" "list_elems l1 = xs" using lst.push_list_ok [OF new(1)] new(2) by auto
  then have "n_list_size l1 = int (length xs)"
    using list_rep_elems [OF list_plain_rep] by (simp add: n_list_size_def)
  with l1 lst.fifo [OF new(1,2), where e = e and xs = xs] lst.lifo [OF new(1), where e = e and xs = xs]
  show ?thesis by (auto simp: new(2))
qed

lemma n_list_fifo_lifo_witness:
  "(\<exists>l1 l2. push_list (list_push_s plain_env) (n_list_new 0 None None) [1, 2, 3] = Inr l1 \<and>
      n_list_size l1 = 3 \<and>
      pop_list (n_list_shift plain_env) 3 l1 = Inr (l2, [1, 2, 3]) \<and> list_elems l2 = []) \<and>
    (\<exists>l1 l2. push_list (list_push_s plain_env) (n_list_new 0 None None) [1, 2, 3] = Inr l1 \<and>
      pop_list (n_list_pop plain_env) 3 l1 = Inr (l2, [3, 2, 1]) \<and> list_elems l2 = [])"
  using n_list_fifo_lifo [of 0 plain_env None None "[1, 2, 3]"]
  by (simp del: push_list.simps pop_list.simps add: numeral_3_eq_3)



end
