(* ===== verification/Oash.thy ===== *)
theory Oash
  imports Hash
begin

text \<open>
  The open-addressing hash table \<open>tn_oash\<close> (\<open>noash.c\<close>, \<open>noash_int.h\<close>, \<open>noash.h\<close>): linear
  probing with Robin Hood displacement and backward-shift removal. The probe table
  holds \<open>tentry\<close> structs; keys and data lie in \<open>dentry\<close> blocks, one cell of the array
  \<open>data\<close> each. A pointer to an entry is its index, a pointer to a \<open>dentry\<close> is its cell.
  \<open>hash = 0\<close> marks an empty slot; \<open>psl\<close> is kept at its 16 bits.
\<close>

section \<open>State\<close>

record tentry =
  te_hash :: "32 word"
  te_psl :: nat
  te_klen :: nat
  te_di :: nat

record dentry =
  de_data :: ptr
  de_key :: bytes

record tn_oash =
  oa_refcnt :: "16 word"
  oa_flags :: "16 word"
  oa_cap :: nat
  oa_table :: "tentry list"
  oa_size :: nat
  oa_dcap :: nat
  oa_data :: "dentry option list"
  oa_dsize :: nat
  oa_free_fn :: "nat option"
  oa_na :: bool
  oa_freed :: "ptr list"

definition no_entry :: tentry where
  "no_entry = \<lparr>te_hash = 0, te_psl = 0, te_klen = 0, te_di = 0\<rparr>"

definition oa_has :: "tn_oash \<Rightarrow> 16 word \<Rightarrow> bool" where
  "oa_has ht f = (oa_flags ht AND f \<noteq> 0)"

definition oa_free :: "tn_oash \<Rightarrow> ptr \<Rightarrow> tn_oash" where
  "oa_free ht p =
     (if p \<noteq> NULL \<and> oa_free_fn ht \<noteq> None then ht\<lparr>oa_freed := oa_freed ht @ [p]\<rparr> else ht)"

definition tindex :: "nat \<Rightarrow> nat \<Rightarrow> nat" where
  "tindex cap i = (i AND (cap - 1))"

definition tentry_eq :: "tentry \<Rightarrow> tentry \<Rightarrow> bool" where
  "tentry_eq a b = (te_hash a = te_hash b \<and> te_klen a = te_klen b)"

text \<open>\<open>strncmp(a, b, n) == 0\<close>.\<close>

definition strncmp_eq :: "bytes \<Rightarrow> bytes \<Rightarrow> nat \<Rightarrow> bool" where
  "strncmp_eq a b n = (take n a = take n b)"

definition get_dentry :: "dentry option list \<Rightarrow> tentry \<Rightarrow> dentry result" where
  "get_dentry data e = rbind (mem_read data (te_di e))
     (\<lambda>d. case d of None \<Rightarrow> Inl Mem_Fault | Some d \<Rightarrow> Inr d)"

section \<open>Construction\<close>

definition ohash_new_ex :: "env \<Rightarrow> bool \<Rightarrow> nat \<Rightarrow> nat option \<Rightarrow> tn_oash result" where
  "ohash_new_ex e na n freefn = n_assert e (n < 4294967295)
     (Inr \<lparr>oa_refcnt = 0, oa_flags = 0, oa_cap = n mod 2 ^ 32, oa_table = replicate n no_entry,
        oa_size = 0, oa_dcap = n mod 2 ^ 32, oa_data = replicate n None, oa_dsize = 0,
        oa_free_fn = freefn, oa_na = na, oa_freed = []\<rparr>)"

definition ohash_new2 :: "env \<Rightarrow> bool \<Rightarrow> nat \<Rightarrow> nat option \<Rightarrow> tn_oash result" where
  "ohash_new2 e na n freefn = ohash_new_ex e na (rsize_loop 4 n) freefn"

definition n_oash_new_ex :: "env \<Rightarrow> nat \<Rightarrow> nat option \<Rightarrow> bool \<Rightarrow> tn_oash result" where
  "n_oash_new_ex e n freefn has_hashfn =
     (if \<not> has_hashfn then ohash_new2 e False n freefn else ohash_new_ex e False n freefn)"

definition n_oash_new_na :: "env \<Rightarrow> nat \<Rightarrow> nat option \<Rightarrow> tn_oash result" where
  "n_oash_new_na e n freefn = ohash_new2 e True n freefn"

definition n_oash_size :: "tn_oash \<Rightarrow> nat" where
  "n_oash_size ht = oa_size ht"

text \<open>\<open>noash.c\<close> has its own copy of the hash function of \<open>n_hash_new.c\<close>, word for word.\<close>

definition oash_murmur3_hash :: "bytes \<Rightarrow> 32 word" where
  "oash_murmur3_hash key = murmur3_hash key"

definition oash_hash :: "bytes \<Rightarrow> 32 word" where
  "oash_hash key = (let v = oash_murmur3_hash key in if v \<noteq> 0 then v else 1)"

definition n_oash_compute_hash :: "env \<Rightarrow> bytes \<Rightarrow> 32 word result" where
  "n_oash_compute_hash e key = n_assert e (length key > 0) (Inr (oash_hash key))"

definition n_oash_ctl :: "env \<Rightarrow> tn_oash \<Rightarrow> 16 word \<Rightarrow> (tn_oash \<times> int) result" where
  "n_oash_ctl e ht flags =
     (if oa_size ht > 0 then trurl_die e ''n_oash_ctl: hash table not empty'' (Inr (ht, 0))
      else Inr (ht\<lparr>oa_flags := oa_flags ht OR flags\<rparr>, 1))"

section \<open>Placing an entry\<close>

text \<open>
  The loop of \<open>n_oash_put_entry\<close>. \<open>key = None\<close> is a \<open>NULL\<close> key; \<open>re\<close> is the slot that
  will be given back. In a full table that does not have the key the loop never ends:
  it gets one step per slot.
\<close>

fun put_entry_loop ::
    "env \<Rightarrow> dentry option list \<Rightarrow> bytes option \<Rightarrow> nat \<Rightarrow> tentry list \<Rightarrow> nat \<Rightarrow> tentry \<Rightarrow> nat option \<Rightarrow>
     nat \<Rightarrow> nat \<Rightarrow> (tentry list \<times> nat \<times> nat option \<times> bool) result" where
  "put_entry_loop e data key cap tbl n x re index 0 = Inl Hang"
| "put_entry_loop e data key cap tbl n x re index (Suc f) =
     rbind (mem_read tbl index) (\<lambda>t.
       if te_hash t = 0
       then rbind (mem_write tbl index x) (\<lambda>tbl.
         Inr (tbl, n + 1, if re = None then Some index else re, False))
       else rbind (get_dentry data t) (\<lambda>d.
         if (case key of None \<Rightarrow> False
             | Some k \<Rightarrow> tentry_eq t x \<and> strncmp_eq (de_key d) k (te_klen t))
         then n_assert e (re = None) (Inr (tbl, n, Some index, True))
         else
           if te_psl x > te_psl t
           then rbind (mem_write tbl index x) (\<lambda>tbl.
             put_entry_loop e data key cap tbl n (t\<lparr>te_psl := (te_psl t + 1) mod 65536\<rparr>)
               (if re = None then Some index else re) (tindex cap (index + 1)) f)
           else put_entry_loop e data key cap tbl n (x\<lparr>te_psl := (te_psl x + 1) mod 65536\<rparr>)
               re (tindex cap (index + 1)) f))"

definition n_oash_put_entry ::
    "env \<Rightarrow> tn_oash \<Rightarrow> tentry \<Rightarrow> bytes option \<Rightarrow> (tn_oash \<times> nat option \<times> bool) result" where
  "n_oash_put_entry e ht x key =
     rbind (put_entry_loop e (oa_data ht) key (oa_cap ht) (oa_table ht) (oa_size ht)
         (x\<lparr>te_psl := 0\<rparr>) None (tindex (oa_cap ht) (unat (te_hash x))) (Suc (oa_cap ht)))
       (\<lambda>(tbl, n, re, found). Inr (ht\<lparr>oa_table := tbl, oa_size := n\<rparr>, re, found))"

text \<open>A free cell of \<open>data\<close>, from \<open>dsize\<close> on.\<close>

fun free_cell :: "dentry option list \<Rightarrow> nat \<Rightarrow> nat \<Rightarrow> nat \<Rightarrow> nat result" where
  "free_cell data dcap index 0 = Inl Hang"
| "free_cell data dcap index (Suc f) =
     rbind (mem_read data index) (\<lambda>d. if d = None then Inr index
       else free_cell data dcap (tindex dcap (index + 1)) f)"

definition put_dentry :: "tn_oash \<Rightarrow> dentry \<Rightarrow> (tn_oash \<times> nat) result" where
  "put_dentry ht d =
     rbind (free_cell (oa_data ht) (oa_dcap ht) (tindex (oa_dcap ht) (oa_dsize ht)) (Suc (oa_dcap ht)))
      (\<lambda>i. rbind (mem_write (oa_data ht) i (Some d)) (\<lambda>data.
        Inr (ht\<lparr>oa_data := data, oa_dsize := oa_dsize ht + 1\<rparr>, i)))"

definition new_dentry :: "env \<Rightarrow> bytes \<Rightarrow> ptr \<Rightarrow> dentry result" where
  "new_dentry e key data = n_assert e (length key > 0) (Inr \<lparr>de_data = data, de_key = key\<rparr>)"

section \<open>Growing\<close>

definition realloc_data :: "tn_oash \<Rightarrow> tn_oash" where
  "realloc_data ht =
     ht\<lparr>oa_data := oa_data ht @ replicate (2 * oa_dcap ht - oa_dcap ht) None,
        oa_dcap := 2 * oa_dcap ht\<rparr>"

fun put_entries :: "env \<Rightarrow> tn_oash \<Rightarrow> tentry list \<Rightarrow> tn_oash result" where
  "put_entries e ht [] = Inr ht"
| "put_entries e ht (t # ts) =
     (if te_hash t = 0 then put_entries e ht ts
      else rbind (n_oash_put_entry e ht t None) (\<lambda>(ht, _, _). put_entries e ht ts))"

definition ohash_rehash :: "env \<Rightarrow> tn_oash \<Rightarrow> tn_oash result" where
  "ohash_rehash e ht =
     (let old = take (oa_cap ht) (oa_table ht); n = 2 * oa_cap ht;
          ht = (realloc_data ht)\<lparr>oa_table := replicate n no_entry, oa_cap := n, oa_size := 0\<rparr>
      in put_entries e ht old)"

section \<open>Looking up\<close>

definition psldiff :: "nat \<Rightarrow> tentry \<Rightarrow> nat \<Rightarrow> nat" where
  "psldiff cap t index =
     (let index0 = tindex cap (unat (te_hash t)) in
      if index0 \<le> index then index - index0 else index + (cap - index0))"

text \<open>\<open>first\<close> is the home slot, \<open>np\<close> the number of probes made.\<close>

function get_entry_loop ::
    "tn_oash \<Rightarrow> bytes \<Rightarrow> 32 word \<Rightarrow> nat \<Rightarrow> nat \<Rightarrow> nat \<Rightarrow> (nat option) result" where
  "get_entry_loop ht key khash first i np =
     (if i < length (oa_table ht) then
        let t = oa_table ht ! i in
        if te_hash t = 0 \<or> np > psldiff (oa_cap ht) t i \<or> i \<noteq> first \<and> te_psl t = 0 then Inr None
        else rbind (if khash = te_hash t \<and> length key = te_klen t
                    then rbind (get_dentry (oa_data ht) t) (\<lambda>d. Inr (strncmp_eq key (de_key d) (length key))) else Inr False)
          (\<lambda>same. if same then Inr (Some i)
            else get_entry_loop ht key khash first (tindex (oa_cap ht) (i + 1)) (np + 1))
      else Inl Mem_Fault)"
  by pat_completeness auto
termination
proof (relation "measure (\<lambda>(ht, key, khash, first, i, np). length (oa_table ht) + oa_cap ht + 1 - np)")
  fix ht :: tn_oash and first np i t and key :: bytes and khash :: "32 word"
  assume "i < length (oa_table ht)" "t = oa_table ht ! i"
    "\<not> (te_hash t = 0 \<or> np > psldiff (oa_cap ht) t i \<or> i \<noteq> first \<and> te_psl t = 0)"
  then have "np < length (oa_table ht) + oa_cap ht"
    by (auto simp: psldiff_def Let_def split: if_splits)
  then show "((ht, key, khash, first, tindex (oa_cap ht) (i + 1), np + 1), ht, key, khash, first, i, np)
      \<in> measure (\<lambda>(ht, key, khash, first, i, np). length (oa_table ht) + oa_cap ht + 1 - np)"
    by simp
qed simp

declare get_entry_loop.simps [simp del]

definition ohash_get_entry :: "tn_oash \<Rightarrow> bytes \<Rightarrow> 32 word \<Rightarrow> (nat option) result" where
  "ohash_get_entry ht key khash =
     (let index = tindex (oa_cap ht) (unat khash) in get_entry_loop ht key khash index index 0)"

definition n_oash_hget :: "tn_oash \<Rightarrow> bytes \<Rightarrow> 32 word \<Rightarrow> ptr result" where
  "n_oash_hget ht key khash =
     rbind (ohash_get_entry ht key khash) (\<lambda>r.
       case r of None \<Rightarrow> Inr NULL
       | Some i \<Rightarrow> rbind (get_dentry (oa_data ht) (oa_table ht ! i)) (\<lambda>d. Inr (de_data d)))"

definition n_oash_get_ex :: "env \<Rightarrow> tn_oash \<Rightarrow> bytes \<Rightarrow> (ptr \<times> nat \<times> 32 word) result" where
  "n_oash_get_ex e ht key =
     rbind (n_oash_compute_hash e key) (\<lambda>khash.
       rbind (n_oash_hget ht key khash) (\<lambda>p. Inr (p, length key, khash)))"

definition n_oash_get :: "env \<Rightarrow> tn_oash \<Rightarrow> bytes \<Rightarrow> ptr result" where
  "n_oash_get e ht key = rbind (n_oash_get_ex e ht key) (\<lambda>(p, _, _). Inr p)"

definition n_oash_hexists :: "tn_oash \<Rightarrow> bytes \<Rightarrow> 32 word \<Rightarrow> bool result" where
  "n_oash_hexists ht key khash = rbind (ohash_get_entry ht key khash) (\<lambda>r. Inr (r \<noteq> None))"

definition n_oash_exists_ex :: "env \<Rightarrow> tn_oash \<Rightarrow> bytes \<Rightarrow> (bool \<times> 32 word) result" where
  "n_oash_exists_ex e ht key =
     rbind (n_oash_compute_hash e key) (\<lambda>khash.
       rbind (n_oash_hexists ht key khash) (\<lambda>b. Inr (b, khash)))"

definition n_oash_exists :: "env \<Rightarrow> tn_oash \<Rightarrow> bytes \<Rightarrow> bool result" where
  "n_oash_exists e ht key = rbind (n_oash_exists_ex e ht key) (\<lambda>(b, _). Inr b)"

section \<open>Putting\<close>

datatype put_mode = Put_Replace | Put_Keep | Put_Die

text \<open>The key is there: \<open>replace\<close> frees the old data, \<open>keep\<close> leaves it.\<close>

definition put_found :: "tn_oash \<Rightarrow> nat \<Rightarrow> ptr \<Rightarrow> put_mode \<Rightarrow> (tn_oash \<times> nat option) result" where
  "put_found ht i data mode =
     rbind (mem_read (oa_table ht) i) (\<lambda>t. rbind (get_dentry (oa_data ht) t) (\<lambda>d.
       if mode = Put_Replace
       then Inr ((oa_free ht (de_data d))\<lparr>oa_data := (oa_data ht)[te_di t := Some (d\<lparr>de_data := data\<rparr>)]\<rparr>,
              Some (te_di t))
       else Inr (ht, Some (te_di t))))"

definition put_new :: "env \<Rightarrow> tn_oash \<Rightarrow> bytes \<Rightarrow> ptr \<Rightarrow> nat \<Rightarrow> (tn_oash \<times> nat option) result" where
  "put_new e ht key data i =
     rbind (new_dentry e key data) (\<lambda>d. rbind (put_dentry ht d) (\<lambda>(ht, di).
       rbind (mem_read (oa_table ht) i) (\<lambda>t.
         let ht = ht\<lparr>oa_table := (oa_table ht)[i := t\<lparr>te_di := di\<rparr>]\<rparr> in
         rbind (if oa_has ht TN_HASH_REHASH \<and> oa_cap ht - oa_size ht \<le> oa_cap ht div 3
                then ohash_rehash e ht else Inr ht)
           (\<lambda>ht. Inr (ht, Some di)))))"

definition put_entry_and_data ::
    "env \<Rightarrow> tn_oash \<Rightarrow> bytes \<Rightarrow> 32 word \<Rightarrow> ptr \<Rightarrow> put_mode \<Rightarrow> (tn_oash \<times> nat option) result" where
  "put_entry_and_data e ht key khash data mode =
     rbind (n_oash_put_entry e ht
         \<lparr>te_hash = khash, te_psl = 0, te_klen = length key mod 65536, te_di = 0\<rparr> (Some key))
       (\<lambda>(ht, ie, found). case ie of None \<Rightarrow> Inr (ht, None)
         | Some i \<Rightarrow>
           if \<not> found then put_new e ht key data i
           else if mode = Put_Die then trurl_die e ''key already in table'' (Inr (ht, None))
           else put_found ht i data mode)"

definition n_oash_put ::
    "env \<Rightarrow> tn_oash \<Rightarrow> bytes \<Rightarrow> 32 word \<Rightarrow> ptr \<Rightarrow> put_mode \<Rightarrow> (tn_oash \<times> nat option) result" where
  "n_oash_put e ht key khash0 data mode =
     n_assert e (length key > 0) (n_assert e (length key < 65535)
      (rbind (if khash0 = 0 then n_oash_compute_hash e key else Inr khash0) (\<lambda>khash.
        if oa_cap ht = oa_size ht
        then rbind (ohash_get_entry ht key khash) (\<lambda>ee.
          case ee of
            Some i \<Rightarrow> if mode = Put_Die then put_entry_and_data e ht key khash data mode
                      else put_found ht i data mode
          | None \<Rightarrow>
              if oa_has ht TN_HASH_REHASH
              then rbind (ohash_rehash e ht) (\<lambda>ht.
                if mode = Put_Die then put_entry_and_data e ht key khash data mode else Inl Mem_Fault)
              else if mode = Put_Die then trurl_die e ''n_oash: table is full'' (Inr (ht, None))
              else Inr (ht, None))
        else put_entry_and_data e ht key khash data mode)))"

text \<open>The answers are whether the result is not \<open>NULL\<close>, or the cell of the data.\<close>

definition n_oash_hinsert ::
    "env \<Rightarrow> tn_oash \<Rightarrow> bytes \<Rightarrow> 32 word \<Rightarrow> ptr \<Rightarrow> (tn_oash \<times> bool) result" where
  "n_oash_hinsert e ht key khash data =
     rbind (n_oash_put e ht key khash data Put_Die) (\<lambda>(ht, d). Inr (ht, d \<noteq> None))"

definition n_oash_insert :: "env \<Rightarrow> tn_oash \<Rightarrow> bytes \<Rightarrow> ptr \<Rightarrow> (tn_oash \<times> bool) result" where
  "n_oash_insert e ht key data =
     rbind (n_oash_put e ht key 0 data Put_Die) (\<lambda>(ht, d). Inr (ht, d \<noteq> None))"

definition n_oash_insert_ex ::
    "env \<Rightarrow> tn_oash \<Rightarrow> bytes \<Rightarrow> 32 word \<Rightarrow> ptr \<Rightarrow> (tn_oash \<times> bool) result" where
  "n_oash_insert_ex e ht key khash data = n_oash_hinsert e ht key khash data"

definition n_oash_get_insert :: "env \<Rightarrow> tn_oash \<Rightarrow> bytes \<Rightarrow> (tn_oash \<times> nat option) result" where
  "n_oash_get_insert e ht key = n_oash_put e ht key 0 NULL Put_Keep"

definition n_oash__get_insert :: "env \<Rightarrow> tn_oash \<Rightarrow> bytes \<Rightarrow> (tn_oash \<times> nat option) result" where
  "n_oash__get_insert e ht key = n_oash_put e ht key 0 NULL Put_Keep"

definition n_oash_hreplace ::
    "env \<Rightarrow> tn_oash \<Rightarrow> bytes \<Rightarrow> 32 word \<Rightarrow> ptr \<Rightarrow> (tn_oash \<times> bool) result" where
  "n_oash_hreplace e ht key khash data =
     (if oa_has ht TN_HASH_NOREPLACE
      then trurl_die e ''n_oash_replace: replace requested for \"non-replace\" hash table'' (Inr (ht, False))
      else rbind (n_oash_put e ht key khash data Put_Replace) (\<lambda>(ht, d). Inr (ht, d \<noteq> None)))"

definition n_oash_replace :: "env \<Rightarrow> tn_oash \<Rightarrow> bytes \<Rightarrow> ptr \<Rightarrow> (tn_oash \<times> bool) result" where
  "n_oash_replace e ht key data = n_oash_hreplace e ht key 0 data"

section \<open>Removing\<close>

text \<open>
  The entries after the removed one move one slot back, up to an empty slot or an entry
  in its home slot. \<open>e->psl\<close> is counted down in place before the entry is copied.
\<close>

definition psl_sum :: "tentry list \<Rightarrow> nat set \<Rightarrow> nat" where
  "psl_sum tbl A = (\<Sum>j\<in>{..<length tbl} - A. te_psl (tbl ! j))"

lemma psl_sum_split:
  "i < length tbl \<Longrightarrow> i \<notin> A \<Longrightarrow> psl_sum tbl A = te_psl (tbl ! i) + psl_sum tbl (insert i A)"
proof -
  assume i: "i < length tbl" "i \<notin> A"
  have "{..<length tbl} - insert i A = ({..<length tbl} - A) - {i}" by auto
  then show ?thesis using i by (simp add: psl_sum_def sum.remove [of _ i])
qed

lemma psl_sum_upd: "i \<in> A \<Longrightarrow> psl_sum (tbl[i := t]) A = psl_sum tbl A"
  unfolding psl_sum_def by (rule sum.cong) (simp, metis DiffD2 nth_list_update_neq)

definition shift_measure :: "nat \<Rightarrow> tentry list \<Rightarrow> nat \<Rightarrow> nat \<Rightarrow> nat" where
  "shift_measure cap tbl iprev i =
     (if i \<noteq> iprev then psl_sum tbl {iprev}
      else if tindex cap (i + 1) = i then te_psl (tbl ! i) else Suc (psl_sum tbl {}))"

lemma shift_measure_less:
  assumes "i < length tbl" "iprev < length tbl" "te_psl (tbl ! i) = Suc q" "te_psl t = q"
  shows "shift_measure cap (tbl[i := t, iprev := t]) i (tindex cap (i + 1)) < shift_measure cap tbl iprev i"
proof -
  let ?u = "tbl[i := t, iprev := t]" and ?n = "tindex cap (i + 1)"
  have ti: "?u ! i = t" "?u ! iprev = t" using assms(1,2) by (auto simp: nth_list_update)
  have rest: "psl_sum ?u {i, iprev} = psl_sum tbl {i, iprev}" by (simp add: psl_sum_upd)
  show ?thesis
  proof (cases "i = iprev")
    case True
    have "psl_sum ?u {i} = psl_sum tbl {i}" using True by (simp add: psl_sum_upd)
    moreover have "psl_sum tbl {i} \<le> psl_sum tbl {}" using psl_sum_split [of i tbl "{}"] assms(1) by simp
    ultimately show ?thesis using True ti assms(3,4) by (auto simp: shift_measure_def)
  next
    case False
    have old: "psl_sum tbl {iprev} = Suc q + psl_sum tbl {i, iprev}"
      using psl_sum_split [of i tbl "{iprev}"] assms False by simp
    have "psl_sum ?u {i} = te_psl (?u ! iprev) + psl_sum ?u (insert iprev {i})"
      using assms(2) False by (intro psl_sum_split) auto
    then have "psl_sum ?u {i} = q + psl_sum tbl {i, iprev}"
      using rest ti assms(4) by (simp add: insert_commute)
    then show ?thesis using old ti assms(4) False by (auto simp: shift_measure_def)
  qed
qed

function shift_back :: "nat \<Rightarrow> tentry list \<Rightarrow> nat \<Rightarrow> nat \<Rightarrow> (tentry list \<times> nat) result" where
  "shift_back cap tbl iprev i =
     (if i < length tbl \<and> iprev < length tbl then
        let t = tbl ! i in
        if te_hash t \<noteq> 0 \<and> te_psl t > 0
        then shift_back cap (tbl[i := t\<lparr>te_psl := te_psl t - 1\<rparr>, iprev := t\<lparr>te_psl := te_psl t - 1\<rparr>])
          i (tindex cap (i + 1))
        else Inr (tbl, iprev)
      else Inl Mem_Fault)"
  by pat_completeness auto
termination
proof (relation "measure (\<lambda>(cap, tbl, iprev, i). shift_measure cap tbl iprev i)")
  fix cap tbl iprev i and t :: tentry
  assume "i < length tbl \<and> iprev < length tbl" "t = tbl ! i" "te_hash t \<noteq> 0 \<and> te_psl t > 0"
  then show "((cap, tbl[i := t\<lparr>te_psl := te_psl t - 1\<rparr>, iprev := t\<lparr>te_psl := te_psl t - 1\<rparr>], i,
      tindex cap (i + 1)), cap, tbl, iprev, i) \<in> measure (\<lambda>(cap, tbl, iprev, i). shift_measure cap tbl iprev i)"
    using shift_measure_less [of i tbl iprev "te_psl t - 1" "t\<lparr>te_psl := te_psl t - 1\<rparr>" cap] by simp
qed simp

declare shift_back.simps [simp del]

definition n_oash_remove :: "env \<Rightarrow> tn_oash \<Rightarrow> bytes \<Rightarrow> (tn_oash \<times> ptr) result" where
  "n_oash_remove e ht key =
     rbind (n_oash_compute_hash e key) (\<lambda>khash.
       rbind (ohash_get_entry ht key khash) (\<lambda>r.
         case r of None \<Rightarrow> Inr (ht, NULL)
         | Some eindex \<Rightarrow>
           let ee = oa_table ht ! eindex in
           n_assert e (te_hash ee = khash)
            (rbind (shift_back (oa_cap ht) (oa_table ht) eindex (tindex (oa_cap ht) (eindex + 1)))
              (\<lambda>(tbl, iprev).
                let tbl = tbl[iprev := (tbl ! iprev)\<lparr>te_hash := 0\<rparr>] in
                rbind (get_dentry (oa_data ht) ee) (\<lambda>d.
                  Inr (ht\<lparr>oa_table := tbl, oa_data := (oa_data ht)[te_di ee := None],
                         oa_dsize := oa_dsize ht - 1, oa_size := oa_size ht - 1\<rparr>, de_data d))))))"

text \<open>
  \<open>n_oash_clean\<close> gives every \<open>dentry\<close> to \<open>n_free\<close>, also one that came from the allocator
  of the table.
\<close>

fun oash_clean_slots :: "tn_oash \<Rightarrow> nat \<Rightarrow> nat \<Rightarrow> tn_oash result" where
  "oash_clean_slots ht i 0 = Inr ht"
| "oash_clean_slots ht i (Suc k) =
     rbind (mem_read (oa_table ht) i) (\<lambda>t.
       if te_hash t = 0 then oash_clean_slots ht (i + 1) k
       else rbind (get_dentry (oa_data ht) t) (\<lambda>d.
         if oa_na ht then Inl Mem_Fault
         else oash_clean_slots ((oa_free ht (de_data d))
             \<lparr>oa_table := (oa_table ht)[i := t\<lparr>te_hash := 0\<rparr>],
              oa_data := (oa_data ht)[te_di t := None]\<rparr>) (i + 1) k))"

definition n_oash_clean :: "tn_oash \<Rightarrow> tn_oash result" where
  "n_oash_clean ht = rbind (oash_clean_slots ht 0 (oa_cap ht))
     (\<lambda>ht. Inr (ht\<lparr>oa_dsize := 0, oa_size := 0\<rparr>))"

text \<open>An entry without a \<open>dentry\<close> is passed over. The result has the trace of \<open>free_fn\<close>.\<close>

fun oash_free_slots :: "tn_oash \<Rightarrow> tentry list \<Rightarrow> tn_oash result" where
  "oash_free_slots ht [] = Inr ht"
| "oash_free_slots ht (t # ts) =
     (if te_hash t = 0 then oash_free_slots ht ts
      else rbind (mem_read (oa_data ht) (te_di t)) (\<lambda>d.
        oash_free_slots (case d of None \<Rightarrow> ht | Some d \<Rightarrow> oa_free ht (de_data d)) ts))"

definition n_oash_free :: "tn_oash \<Rightarrow> (tn_oash option \<times> ptr list) result" where
  "n_oash_free ht =
     (if oa_refcnt ht > 0 then Inr (Some (ht\<lparr>oa_refcnt := oa_refcnt ht - 1\<rparr>), oa_freed ht)
      else rbind (oash_free_slots ht (take (oa_cap ht) (oa_table ht))) (\<lambda>ht. Inr (None, oa_freed ht)))"

section \<open>Walking, copying\<close>

fun oash_walk :: "dentry option list \<Rightarrow> tentry list \<Rightarrow> (tentry \<times> dentry) list result" where
  "oash_walk data [] = Inr []"
| "oash_walk data (t # ts) =
     (if te_hash t = 0 then oash_walk data ts
      else rbind (get_dentry data t) (\<lambda>d. rbind (oash_walk data ts) (\<lambda>ds. Inr ((t, d) # ds))))"

definition oash_walk_all :: "tn_oash \<Rightarrow> (tentry \<times> dentry) list result" where
  "oash_walk_all ht = oash_walk (oa_data ht) (take (oa_cap ht) (oa_table ht))"

definition n_oash_map :: "tn_oash \<Rightarrow> ((bytes \<times> ptr) list \<times> nat) result" where
  "n_oash_map ht = rbind (oash_walk_all ht) (\<lambda>es.
     Inr (map (\<lambda>(t, d). (de_key d, de_data d)) es, length es))"

definition n_oash_map_arg :: "tn_oash \<Rightarrow> ((bytes \<times> ptr) list \<times> nat) result" where
  "n_oash_map_arg ht = rbind (oash_walk_all ht) (\<lambda>es.
     Inr (map (\<lambda>(t, d). (de_key d, de_data d)) es, length es))"

definition n_oash_keys_ext :: "tn_oash \<Rightarrow> bytes list result" where
  "n_oash_keys_ext ht = rbind (oash_walk_all ht) (\<lambda>es. Inr (map (\<lambda>(t, d). de_key d) es))"

definition n_oash_keys :: "tn_oash \<Rightarrow> bytes list result" where
  "n_oash_keys ht = n_oash_keys_ext ht"

definition n_oash_values :: "env \<Rightarrow> tn_oash \<Rightarrow> tn_array result" where
  "n_oash_values e ht =
     rbind (n_array_new e (int (oa_size ht)) None None) (\<lambda>a.
       rbind (oash_walk_all ht) (\<lambda>es. push_all e a (map (\<lambda>(t, d). de_data d) es)))"

text \<open>The copy gets every entry with its stored hash value.\<close>

fun hinsert_all :: "env \<Rightarrow> tn_oash \<Rightarrow> nat option \<Rightarrow> (tentry \<times> dentry) list \<Rightarrow> tn_oash result" where
  "hinsert_all e h dup_fn [] = Inr h"
| "hinsert_all e h dup_fn ((t, d) # es) =
     (let p = (case dup_fn of None \<Rightarrow> de_data d
               | Some f \<Rightarrow> if de_data d \<noteq> NULL then user_dup e f (de_data d) else de_data d) in
      rbind (n_oash_hinsert e h (de_key d) (te_hash t) p) (\<lambda>(h, _). hinsert_all e h dup_fn es))"

definition n_oash_dup :: "env \<Rightarrow> tn_oash \<Rightarrow> nat option \<Rightarrow> tn_oash result" where
  "n_oash_dup e ht dup_fn =
     rbind (n_oash_new_ex e (oa_cap ht) (oa_free_fn ht) False) (\<lambda>h.
       rbind (oash_walk_all ht) (\<lambda>es.
         hinsert_all e (h\<lparr>oa_flags := oa_flags ht AND NOT TN_HASH_NOCPKEY\<rparr>) dup_fn es))"

section \<open>The iterator\<close>

text \<open>The state is \<open>pos\<close>. The loop reads \<open>table[i]\<close> before it compares \<open>i\<close> with \<open>cap\<close>.\<close>

definition n_oash_it_init :: nat where
  "n_oash_it_init = 0"

fun it_skip :: "tentry list \<Rightarrow> nat \<Rightarrow> nat \<Rightarrow> nat \<Rightarrow> nat result" where
  "it_skip tbl cap i 0 = rbind (mem_read tbl i) (\<lambda>t. Inr i)"
| "it_skip tbl cap i (Suc k) =
     rbind (mem_read tbl i) (\<lambda>t. if te_hash t = 0 \<and> i < cap then it_skip tbl cap (i + 1) k else Inr i)"

definition n_oash_it_get :: "tn_oash \<Rightarrow> nat \<Rightarrow> (nat \<times> (bytes \<times> ptr) option) result" where
  "n_oash_it_get ht pos =
     rbind (it_skip (oa_table ht) (oa_cap ht) pos (oa_cap ht - pos)) (\<lambda>i.
       if i \<ge> oa_cap ht then Inr (pos, None)
       else rbind (mem_read (oa_table ht) i) (\<lambda>t. rbind (get_dentry (oa_data ht) t) (\<lambda>d.
         Inr (i + 1, Some (de_key d, de_data d)))))"

end
