(* ===== verification/OashProps.thy ===== *)
theory OashProps
  imports Oash HashProps
begin

text \<open>
  Correctness of the open-addressing table: the Robin Hood invariant, what placing,
  looking up, growing and removing do to it, and the agreement with a finite map.
\<close>

section \<open>Slots\<close>

definition used :: "tentry \<Rightarrow> bool" where
  "used t = (te_hash t \<noteq> 0)"

definition te_home :: "nat \<Rightarrow> tentry \<Rightarrow> nat" where
  "te_home cap t = unat (te_hash t) mod cap"

lemma tindex_pow: "cap = 2 ^ m \<Longrightarrow> tindex cap i = i mod cap"
  by (simp add: tindex_def take_bit_eq_mask [symmetric] take_bit_eq_mod mask_eq_exp_minus_1 [symmetric]
      del: One_nat_def)

lemma next_slot: "a < cap \<Longrightarrow> Suc a mod cap = (if Suc a = cap then 0 else Suc a)"
  by auto

lemma next_slot_inj: "a < cap \<Longrightarrow> b < cap \<Longrightarrow> (a + 1) mod cap = (b + 1) mod cap \<Longrightarrow> a = (b::nat)"
  by (auto simp: next_slot split: if_splits)

lemma next_slot_neq: "1 < cap \<Longrightarrow> a < cap \<Longrightarrow> (a + 1) mod cap \<noteq> (a::nat)"
  by (auto simp: next_slot)

lemma step_slot: "((h + p) mod cap + 1) mod cap = (h + Suc p) mod (cap::nat)"
  by (simp add: mod_Suc_eq)

lemma offset_inj_le: "s \<le> t \<Longrightarrow> t < cap \<Longrightarrow> (i + t) mod cap = (i + s) mod cap \<Longrightarrow> t = (s::nat)"
proof -
  assume a: "s \<le> t" "t < cap" "(i + t) mod cap = (i + s) mod cap"
  then have "cap dvd (i + t) - (i + s)" by (subst mod_eq_dvd_iff_nat [symmetric]) auto
  then show "t = s" using a dvd_imp_le [of cap "t - s"] by (cases "t = s") auto
qed

lemma offset_inj: "s < cap \<Longrightarrow> t < cap \<Longrightarrow> (i + t) mod cap = (i + s) mod cap \<Longrightarrow> t = (s::nat)"
  using offset_inj_le [of s t cap i] offset_inj_le [of t s cap i] by (cases "s \<le> t") auto

lemma mod_add_if:
  "a < cap \<Longrightarrow> b < cap \<Longrightarrow> (a + b) mod cap = (if a + b < cap then a + b else a + b - (cap::nat))"
  by (auto simp: mod_if)

text \<open>
  \<open>rh_inv\<close>: every entry is \<open>psl\<close> slots after its home slot, and an entry that is not in
  its home slot follows an entry that is at most one slot nearer to its own.
\<close>

definition rh_next :: "nat \<Rightarrow> tentry list \<Rightarrow> nat \<Rightarrow> bool" where
  "rh_next cap T i = (let t = T ! ((i + 1) mod cap) in
     used t \<longrightarrow> 0 < te_psl t \<longrightarrow> used (T ! i) \<and> te_psl t \<le> te_psl (T ! i) + 1)"

definition rh_slot :: "nat \<Rightarrow> tentry list \<Rightarrow> nat \<Rightarrow> bool" where
  "rh_slot cap T i = (used (T ! i) \<longrightarrow>
     te_psl (T ! i) < cap \<and> i = (te_home cap (T ! i) + te_psl (T ! i)) mod cap)"

definition rh_inv :: "nat \<Rightarrow> tentry list \<Rightarrow> bool" where
  "rh_inv cap T \<longleftrightarrow> 1 < cap \<and> length T = cap \<and> (\<forall>i<cap. rh_slot cap T i \<and> rh_next cap T i)"

lemma rh_chain:
  assumes "rh_inv cap T" "used (T ! ((h + q) mod cap))" "q \<le> te_psl (T ! ((h + q) mod cap))" "t \<le> q"
  shows "used (T ! ((h + t) mod cap)) \<and> t \<le> te_psl (T ! ((h + t) mod cap))"
  using assms(2-4)
proof (induction q)
  case (Suc q)
  have cap: "(h + q) mod cap < cap" using assms(1) by (simp add: rh_inv_def)
  then have "rh_next cap T ((h + q) mod cap)" using assms(1) by (simp add: rh_inv_def)
  then have "used (T ! ((h + q) mod cap))" "q \<le> te_psl (T ! ((h + q) mod cap))"
    using Suc.prems unfolding rh_next_def step_slot by (auto simp: Let_def)
  with Suc show ?case by (cases "t = Suc q") auto
qed simp

lemma reach_slot: "z < cap \<Longrightarrow> \<exists>t < cap. (h + t) mod cap = (z::nat)"
proof -
  assume z: "z < cap"
  let ?t = "(z + (cap - h mod cap)) mod cap"
  have "(h + ?t) mod cap = (h mod cap + (z + (cap - h mod cap))) mod cap"
    by (simp add: mod_simps)
  also have "h mod cap + (z + (cap - h mod cap)) = z + cap"
    using z mod_less_divisor [of cap h] by linarith
  finally have "(h + ?t) mod cap = z" using z by simp
  moreover have "?t < cap" using z by simp
  ultimately show ?thesis by blast
qed

lemma rh_psl_bound:
  assumes "rh_inv cap T" "used (T ! ((h + q) mod cap))" "q \<le> te_psl (T ! ((h + q) mod cap))"
    "z < cap" "\<not> used (T ! z)"
  shows "Suc q < cap"
proof -
  obtain t where t: "t < cap" "(h + t) mod cap = z" using reach_slot [OF assms(4)] by blast
  then have "\<not> t \<le> q" using rh_chain [OF assms(1-3), of t] assms(5) by auto
  with t show ?thesis by simp
qed

text \<open>\<open>fits\<close>: the slot before the place of \<open>x\<close> lets \<open>x\<close> stand there.\<close>

definition fits :: "nat \<Rightarrow> tentry list \<Rightarrow> tentry \<Rightarrow> bool" where
  "fits cap T x = (0 < te_psl x \<longrightarrow> (let t = T ! ((te_home cap x + (te_psl x - 1)) mod cap) in
     used t \<and> te_psl x \<le> te_psl t + 1))"

lemma fits_bound:
  assumes "rh_inv cap T" "fits cap T x" "z < cap" "\<not> used (T ! z)"
  shows "te_psl x < cap"
proof (cases "te_psl x")
  case 0
  then show ?thesis using assms(1) by (simp add: rh_inv_def)
next
  case (Suc q)
  with assms(2) have "used (T ! ((te_home cap x + q) mod cap))"
    "q \<le> te_psl (T ! ((te_home cap x + q) mod cap))" by (auto simp: fits_def Let_def)
  from rh_psl_bound [OF assms(1) this assms(3,4)] Suc show ?thesis by simp
qed

lemma rh_place:
  assumes inv: "rh_inv cap T" and i: "i = (te_home cap x + te_psl x) mod cap" and f: "fits cap T x"
    and lt: "te_psl x < cap" and u: "used x" and up: "used (T ! i) \<Longrightarrow> te_psl (T ! i) \<le> te_psl x"
  shows "rh_inv cap (T[i := x])"
proof -
  have len: "length T = cap" "1 < cap" "i < cap" using inv i by (auto simp: rh_inv_def)
  have next_ok: "rh_next cap (T[i := x]) a" if a: "a < cap" for a
  proof -
    have old: "rh_next cap T a" using inv a by (simp add: rh_inv_def)
    have ne: "(a + 1) mod cap \<noteq> a" using next_slot_neq len(2) a by blast
    consider "(a + 1) mod cap = i" | "a = i" | "(a + 1) mod cap \<noteq> i" "a \<noteq> i" by blast
    then show ?thesis
    proof cases
      case 1
      then have x: "(T[i := x]) ! ((a + 1) mod cap) = x" "(T[i := x]) ! a = T ! a"
        using len a ne by auto
      have "used (T ! a) \<and> te_psl x \<le> te_psl (T ! a) + 1" if "0 < te_psl x"
      proof -
        let ?b = "(te_home cap x + (te_psl x - 1)) mod cap"
        have "(?b + 1) mod cap = i" using that step_slot [of "te_home cap x" "te_psl x - 1" cap]
          unfolding i by simp
        then have "(?b + 1) mod cap = (a + 1) mod cap" using 1 by simp
        from next_slot_inj [OF _ a this] have "?b = a" using len(2) by simp
        with f that show ?thesis by (simp add: fits_def Let_def)
      qed
      then show ?thesis unfolding rh_next_def Let_def x by simp
    next
      case 2
      then have "(T[i := x]) ! ((a + 1) mod cap) = T ! ((a + 1) mod cap)" "(T[i := x]) ! a = x"
        using len ne by auto
      then show ?thesis using old up u 2 by (auto simp: rh_next_def Let_def)
    next
      case 3
      then show ?thesis using old by (simp add: rh_next_def Let_def)
    qed
  qed
  have "rh_slot cap (T[i := x]) a" if "a < cap" for a
    using inv i lt len that by (cases "a = i") (auto simp: rh_inv_def rh_slot_def)
  with next_ok len show ?thesis by (simp add: rh_inv_def)
qed

section \<open>The entries of a table\<close>

definition payload :: "tentry \<Rightarrow> 32 word \<times> nat \<times> nat" where
  "payload t = (te_hash t, te_klen t, te_di t)"

definition entries :: "tentry list \<Rightarrow> (32 word \<times> nat \<times> nat) list" where
  "entries T = map payload (filter used T)"

lemma payload_psl [simp]: "payload (t\<lparr>te_psl := p\<rparr>) = payload t" "used (t\<lparr>te_psl := p\<rparr>) = used t"
  "te_home cap (t\<lparr>te_psl := p\<rparr>) = te_home cap t" "tentry_eq a (t\<lparr>te_psl := p\<rparr>) = tentry_eq a t"
  by (simp_all add: payload_def used_def te_home_def tentry_eq_def)

lemma entries_split:
  "i < length T \<Longrightarrow> entries T = entries (take i T) @ (if used (T ! i) then [payload (T ! i)] else []) @
     entries (drop (Suc i) T)"
  by (subst id_take_nth_drop [of i T]) (auto simp: entries_def)

lemma entries_update:
  "i < length T \<Longrightarrow> entries (T[i := x]) = entries (take i T) @ (if used x then [payload x] else []) @
     entries (drop (Suc i) T)"
  by (simp add: upd_conv_take_nth_drop entries_def)

lemma entries_place:
  "i < length T \<Longrightarrow> \<not> used (T ! i) \<Longrightarrow> used x \<Longrightarrow>
   mset (entries (T[i := x])) = add_mset (payload x) (mset (entries T))"
  by (simp add: entries_split [of i T] entries_update)

lemma entries_swap:
  "i < length T \<Longrightarrow> used (T ! i) \<Longrightarrow> used x \<Longrightarrow>
   add_mset (payload (T ! i)) (mset (entries (T[i := x]))) = add_mset (payload x) (mset (entries T))"
  by (simp add: entries_split [of i T] entries_update)

lemma in_entries: "p \<in> set (entries T) \<longleftrightarrow> (\<exists>i<length T. used (T ! i) \<and> payload (T ! i) = p)"
  by (auto simp: entries_def in_set_conv_nth image_iff)

section \<open>Placing\<close>

text \<open>The test of the key in the loop.\<close>

definition key_match :: "dentry option list \<Rightarrow> bytes option \<Rightarrow> tentry \<Rightarrow> tentry \<Rightarrow> bool" where
  "key_match data key x t = (case key of None \<Rightarrow> False
     | Some k \<Rightarrow> tentry_eq t x \<and> strncmp_eq (case data ! te_di t of None \<Rightarrow> [] | Some d \<Rightarrow> de_key d) k (te_klen t))"

definition has_dentry :: "dentry option list \<Rightarrow> tentry \<Rightarrow> bool" where
  "has_dentry data t = (te_di t < length data \<and> data ! te_di t \<noteq> None)"

lemma get_dentry_has:
  "has_dentry data t \<Longrightarrow> get_dentry data t = Inr (the (data ! te_di t))"
  by (auto simp: get_dentry_def has_dentry_def mem_read_def)

lemma loop_step:
  assumes "index < length T" "used (T ! index)" "has_dentry data (T ! index)"
    "\<not> key_match data key x (T ! index)"
  shows "put_entry_loop e data key cap T n x re index (Suc f) =
    (if te_psl x > te_psl (T ! index)
     then put_entry_loop e data key cap (T[index := x]) n
       ((T ! index)\<lparr>te_psl := (te_psl (T ! index) + 1) mod 65536\<rparr>)
       (if re = None then Some index else re) (tindex cap (index + 1)) f
     else put_entry_loop e data key cap T n (x\<lparr>te_psl := (te_psl x + 1) mod 65536\<rparr>)
       re (tindex cap (index + 1)) f)"
proof -
  obtain d where d: "data ! te_di (T ! index) = Some d" using assms(3) by (auto simp: has_dentry_def)
  then have "get_dentry data (T ! index) = Inr d" using get_dentry_has [OF assms(3)] by simp
  moreover have "\<not> (case key of None \<Rightarrow> False
      | Some k \<Rightarrow> tentry_eq (T ! index) x \<and> strncmp_eq (de_key d) k (te_klen (T ! index)))"
    using assms(4) d by (auto simp: key_match_def split: option.splits)
  ultimately show ?thesis using assms(1,2) by (simp add: mem_read_def mem_write_def used_def)
qed

text \<open>No entry on the way matches the one carried, neither the first nor one taken over.\<close>

definition way_clear :: "dentry option list \<Rightarrow> bytes option \<Rightarrow> nat \<Rightarrow> tentry list \<Rightarrow> tentry \<Rightarrow> nat \<Rightarrow> nat \<Rightarrow> bool" where
  "way_clear data key cap T x i d \<longleftrightarrow> (\<forall>t<d. \<not> key_match data key x (T ! ((i + t) mod cap)) \<and>
     (\<forall>s<t. \<not> key_match data key (T ! ((i + s) mod cap)) (T ! ((i + t) mod cap))))"

lemma way_clear_step:
  assumes "way_clear data key cap T x i (Suc d)" "i' = (i + 1) mod cap"
  shows "way_clear data key cap T x i' d" "way_clear data key cap T (T ! (i mod cap)) i' d"
proof -
  have sh: "(i' + t) mod cap = (i + Suc t) mod cap" for t by (simp add: assms(2) mod_simps)
  have a: "\<not> key_match data key x (T ! ((i + Suc t) mod cap))"
    and b: "s < Suc t \<Longrightarrow> \<not> key_match data key (T ! ((i + s) mod cap)) (T ! ((i + Suc t) mod cap))"
    if "t < d" for t s using assms(1) that by (auto simp: way_clear_def)
  show "way_clear data key cap T x i' d"
    using a b [of _ "Suc s" for s] unfolding way_clear_def sh by blast
  show "way_clear data key cap T (T ! (i mod cap)) i' d"
    using b [of _ 0] b [of _ "Suc s" for s] unfolding way_clear_def sh by simp
qed

lemma key_match_cong:
  "te_hash x' = te_hash x \<Longrightarrow> te_klen x' = te_klen x \<Longrightarrow> key_match data key x' = key_match data key x"
  by (auto simp: key_match_def tentry_eq_def fun_eq_iff split: option.splits)

lemma way_clear_cong:
  assumes "way_clear data key cap T x i d" "\<forall>t<d. T' ! ((i + t) mod cap) = T ! ((i + t) mod cap)"
    "te_hash x' = te_hash x" "te_klen x' = te_klen x"
  shows "way_clear data key cap T' x' i d"
  using assms(1,2) unfolding way_clear_def key_match_cong [OF assms(3,4)] by auto

text \<open>The slots of a walk; where it goes on after the first.\<close>

definition way :: "nat \<Rightarrow> nat \<Rightarrow> nat \<Rightarrow> nat set" where
  "way cap i d = (\<lambda>t. (i + t) mod cap) ` {..d}"

lemma way_step:
  assumes "i < cap" "Suc d < cap"
  shows "((i + 1) mod cap + t) mod cap = (i + Suc t) mod cap" "i \<notin> way cap ((i + 1) mod cap) d"
    "j \<notin> way cap i (Suc d) \<Longrightarrow> j \<notin> way cap ((i + 1) mod cap) d \<and> j \<noteq> i"
proof -
  have sh: "((i + 1) mod cap + t) mod cap = (i + Suc t) mod cap" for t by (simp add: mod_simps)
  show "((i + 1) mod cap + t) mod cap = (i + Suc t) mod cap" by (rule sh)
  have "t \<le> d \<Longrightarrow> (i + Suc t) mod cap \<noteq> (i + 0) mod cap" for t
    using offset_inj [of 0 cap "Suc t" i] assms by auto
  then show "i \<notin> way cap ((i + 1) mod cap) d" unfolding way_def sh using assms(1) by fastforce
  assume "j \<notin> way cap i (Suc d)"
  then have j: "t \<le> Suc d \<Longrightarrow> j \<noteq> (i + t) mod cap" for t by (auto simp: way_def)
  from j [of 0] j [of "Suc t" for t] show "j \<notin> way cap ((i + 1) mod cap) d \<and> j \<noteq> i"
    unfolding way_def sh using assms(1) by auto
qed

text \<open>
  The entry \<open>x\<close> is carried at slot \<open>i\<close>; the empty slot is \<open>d\<close> slots further. What the walk
  leaves: one entry more, nothing changed off the way.
\<close>

definition carried :: "dentry option list \<Rightarrow> bytes option \<Rightarrow> nat \<Rightarrow> tentry list \<Rightarrow> tentry \<Rightarrow> nat \<Rightarrow> nat \<Rightarrow> bool" where
  "carried data key cap T x i d \<longleftrightarrow> rh_inv cap T \<and> used x \<and> i = (te_home cap x + te_psl x) mod cap \<and> fits cap T x \<and>
     \<not> used (T ! ((i + d) mod cap)) \<and> (\<forall>t<d. used (T ! ((i + t) mod cap))) \<and> d < cap \<and>
     (\<forall>t<d. has_dentry data (T ! ((i + t) mod cap))) \<and> way_clear data key cap T x i d"

definition put_down :: "nat \<Rightarrow> tentry list \<Rightarrow> tentry \<Rightarrow> nat option \<Rightarrow> nat \<Rightarrow> nat \<Rightarrow> tentry list \<Rightarrow> nat \<Rightarrow> bool" where
  "put_down cap T x re i d T' r \<longleftrightarrow> rh_inv cap T' \<and> mset (entries T') = add_mset (payload x) (mset (entries T)) \<and>
    (re = None \<longrightarrow> r < cap \<and> used (T' ! r) \<and> payload (T' ! r) = payload x) \<and> (re \<noteq> None \<longrightarrow> re = Some r) \<and>
    (\<forall>j<cap. j \<notin> way cap i d \<longrightarrow> T' ! j = T ! j)"

lemma carriedD:
  assumes "carried data key cap T x i d"
  shows "rh_inv cap T" "used x" "fits cap T x" "\<not> used (T ! ((i + d) mod cap))"
    "t < d \<Longrightarrow> used (T ! ((i + t) mod cap))" "d < cap" "t < d \<Longrightarrow> has_dentry data (T ! ((i + t) mod cap))"
    "way_clear data key cap T x i d" "i = (te_home cap x + te_psl x) mod cap"
  using assms unfolding carried_def by blast+

lemma carried_facts:
  assumes "carried data key cap T x i (Suc d)"
  shows "length T = cap" "1 < cap" "i < cap" "Suc d < cap" "used (T ! i)" "has_dentry data (T ! i)"
    "\<not> key_match data key x (T ! i)" "te_psl x < cap"
proof -
  note C = carriedD [OF assms]
  show len: "length T = cap" "1 < cap" "i < cap" "Suc d < cap" using C(1,6,9) by (auto simp: rh_inv_def)
  show "used (T ! i)" "has_dentry data (T ! i)" "\<not> key_match data key x (T ! i)"
    using C(5,7) [of 0] C(8) len(3) by (auto simp: way_clear_def dest: spec [of _ 0])
  show "te_psl x < cap" using fits_bound [OF C(1,3) _ C(4)] len by simp
qed

lemma carried_last:
  assumes "carried data key cap T x i 0" "0 < f"
  shows "\<exists>T' r. put_entry_loop e data key cap T n x re i f = Inr (T', n + 1, Some r, False) \<and> put_down cap T x re i 0 T' r"
proof -
  note C = carriedD [OF assms(1)]
  have len: "length T = cap" "i < cap" using C(1,6,9) by (auto simp: rh_inv_def)
  have e: "\<not> used (T ! i)" using C(4) len by simp
  have "te_psl x < cap" using fits_bound [OF C(1,3) len(2) e] .
  then have "rh_inv cap (T[i := x])" using rh_place [OF C(1,9,3)] C(2) e by simp
  moreover have "mset (entries (T[i := x])) = add_mset (payload x) (mset (entries T))"
    using entries_place e C(2) len by simp
  moreover have "put_entry_loop e data key cap T n x re i f = Inr (T[i := x], n + 1, if re = None then Some i else re, False)"
    using assms(2) e len by (cases f) (auto simp: mem_read_def mem_write_def used_def)
  ultimately show ?thesis using len C(2) by (cases re) (auto simp: put_down_def way_def)
qed

text \<open>The walk goes on with the entry that was there \<dots>\<close>

lemma carried_swap:
  assumes "carried data key cap T x i (Suc d)" "te_psl x > te_psl (T ! i)" "cap \<le> 65536"
    "y = (T ! i)\<lparr>te_psl := (te_psl (T ! i) + 1) mod 65536\<rparr>"
  shows "carried data key cap (T[i := x]) y ((i + 1) mod cap) d"
proof -
  note C = carriedD [OF assms(1)] and F = carried_facts [OF assms(1)]
  note sh = way_step(1) [OF F(3,4)] and out = way_step(2) [OF F(3,4)]
  have py: "te_psl y = te_psl (T ! i) + 1" "te_hash y = te_hash (T ! i)" "te_klen y = te_klen (T ! i)"
      "te_home cap y = te_home cap (T ! i)" "used y"
    using assms(2-4) F(5,8) by simp_all
  have "rh_slot cap T i" using C(1) F(3) by (simp add: rh_inv_def)
  then have iy: "(te_home cap y + te_psl (T ! i)) mod cap = i"
    using F(5) py by (auto simp: rh_slot_def)
  then have "(i + 1) mod cap = (te_home cap y + te_psl y) mod cap"
    using py step_slot [of "te_home cap y" "te_psl (T ! i)" cap] by auto
  moreover have "fits cap (T[i := x]) y"
    unfolding fits_def Let_def using py iy F(1,3) C(2) assms(2) by simp
  moreover have "rh_inv cap (T[i := x])" using rh_place [OF C(1,9,3) F(8) C(2)] assms(2) by simp
  moreover have same: "(T[i := x]) ! (((i + 1) mod cap + t) mod cap) = T ! ((i + Suc t) mod cap)" if "t \<le> d" for t
    using out that unfolding way_def sh by (auto simp: image_iff)
  moreover have "way_clear data key cap (T[i := x]) y ((i + 1) mod cap) d"
  proof -
    have "\<forall>t<d. T[i := x] ! (((i + 1) mod cap + t) mod cap) = T ! (((i + 1) mod cap + t) mod cap)"
      using same unfolding sh by simp
    from way_clear_cong [OF way_clear_step(2) [OF C(8) refl] this, of y] py F(3) show ?thesis by simp
  qed
  ultimately show ?thesis using C(4) C(5,7) [of "Suc t" for t] F(4) py(5) unfolding carried_def sh by auto
qed

lemma put_down_swap:
  assumes "carried data key cap T x i (Suc d)" "payload y = payload (T ! i)"
    "put_down cap (T[i := x]) y (if re = None then Some i else re) ((i + 1) mod cap) d T' r"
  shows "put_down cap T x re i (Suc d) T' r"
proof -
  note F = carried_facts [OF assms(1)] and D = assms(3) [unfolded put_down_def]
  note step = way_step(2,3) [OF F(3,4)]
  have "used x" using assms(1) by (simp add: carried_def)
  then have "mset (entries T') = add_mset (payload x) (mset (entries T))"
    using D entries_swap [of i T x] F assms(2) by simp
  moreover have "T' ! i = x" using D step(1) F by simp
  moreover have "\<forall>j<cap. j \<notin> way cap i (Suc d) \<longrightarrow> T' ! j = T ! j"
    using D step(2) by (metis nth_list_update_neq)
  ultimately show ?thesis using D F \<open>used x\<close> by (auto simp: put_down_def split: if_splits)
qed

text \<open>\<dots> or with the same one.\<close>

lemma carried_pass:
  assumes "carried data key cap T x i (Suc d)" "\<not> te_psl x > te_psl (T ! i)" "cap \<le> 65536"
    "y = x\<lparr>te_psl := (te_psl x + 1) mod 65536\<rparr>"
  shows "carried data key cap T y ((i + 1) mod cap) d" "payload y = payload x"
proof -
  note C = carriedD [OF assms(1)] and F = carried_facts [OF assms(1)]
  note sh = way_step(1) [OF F(3,4)]
  have "Suc (te_psl x) < cap"
    using rh_psl_bound [OF C(1), of "te_home cap x" "te_psl x" "(i + Suc d) mod cap"] F C(4) assms(2) unfolding C(9) [symmetric] by simp
  then have py: "te_psl y = te_psl x + 1" "payload y = payload x" "used y" "te_home cap y = te_home cap x"
      "te_hash y = te_hash x" "te_klen y = te_klen x"
    using assms(3,4) C(2) by simp_all
  have "(i + 1) mod cap = (te_home cap y + te_psl y) mod cap"
    using py C(9) step_slot [of "te_home cap y" "te_psl x" cap] by simp
  moreover have "fits cap T y"
    unfolding fits_def Let_def using py C(9) assms(2) F(5) by simp
  moreover have "way_clear data key cap T y ((i + 1) mod cap) d"
    using way_clear_cong [OF way_clear_step(1) [OF C(8) refl], of T y] py by simp
  ultimately show "carried data key cap T y ((i + 1) mod cap) d"
    using C(1,4) C(5,7) [of "Suc t" for t] F(4) py(3) unfolding carried_def sh by auto
  show "payload y = payload x" by (rule py)
qed

lemma put_down_pass:
  assumes "carried data key cap T x i (Suc d)" "payload y = payload x" "put_down cap T y re ((i + 1) mod cap) d T' r"
  shows "put_down cap T x re i (Suc d) T' r"
  using assms(2,3) way_step(3) [OF carried_facts(3,4) [OF assms(1)]] unfolding put_down_def by auto

text \<open>The whole walk of an entry whose key is not in the table.\<close>

lemma put_loop_carried:
  assumes "\<And>i. tindex cap i = i mod cap" "cap \<le> 65536" "carried data key cap T x i d" "d < f"
  shows "\<exists>T' r. put_entry_loop e data key cap T n x re i f = Inr (T', n + 1, Some r, False) \<and> put_down cap T x re i d T' r"
  using assms(3,4)
proof (induction d arbitrary: T x i re f)
  case 0
  then show ?case by (intro carried_last) simp_all
next
  case (Suc d)
  note C = Suc.prems(1) and F = carried_facts [OF Suc.prems(1)]
  obtain f' where f: "f = Suc f'" "d < f'" using Suc.prems(2) by (cases f) auto
  note step = loop_step [OF _ F(5-7), of e cap n re f', unfolded f(1) [symmetric] assms(1)]
  show ?case
  proof (cases "te_psl x > te_psl (T ! i)")
    case True
    from Suc.IH [OF carried_swap [OF C True assms(2) refl] f(2), of "if re = None then Some i else re"]
    show ?thesis using step True F(1,3) put_down_swap [OF C, of "(T ! i)\<lparr>te_psl := (te_psl (T ! i) + 1) mod 65536\<rparr>" re]
      by fastforce
  next
    case False
    note p = carried_pass [OF C False assms(2) refl]
    from Suc.IH [OF p(1) f(2), of re] show ?thesis using step False F(1,3) put_down_pass [OF C p(2), of re] by fastforce
  qed
qed

lemma put_loop_absent:
  assumes "\<And>i. tindex cap i = i mod cap" "cap \<le> 65536" "rh_inv cap T" "used x"
    "i = (te_home cap x + te_psl x) mod cap" "fits cap T x"
    "\<not> used (T ! ((i + d) mod cap))" "\<forall>t<d. used (T ! ((i + t) mod cap))" "d < cap" "d < f"
    "\<forall>t<d. has_dentry data (T ! ((i + t) mod cap))"
    "way_clear data key cap T x i d"
  shows "\<exists>T' r. put_entry_loop e data key cap T n x re i f = Inr (T', n + 1, Some r, False) \<and>
    rh_inv cap T' \<and> mset (entries T') = add_mset (payload x) (mset (entries T)) \<and>
    (re = None \<longrightarrow> r < cap \<and> used (T' ! r) \<and> payload (T' ! r) = payload x) \<and>
    (re \<noteq> None \<longrightarrow> re = Some r) \<and>
    (\<forall>j<cap. j \<notin> (\<lambda>t. (i + t) mod cap) ` {..d} \<longrightarrow> T' ! j = T ! j)"
proof -
  have "carried data key cap T x i d" using assms(3-) by (simp add: carried_def)
  from put_loop_carried [OF assms(1,2) this assms(10), of e n re] show ?thesis
    unfolding put_down_def way_def by blast
qed

text \<open>The walk of an entry whose key is in the table.\<close>

lemma loop_hit:
  assumes "index < length T" "used (T ! index)" "has_dentry data (T ! index)" "key_match data key x (T ! index)"
  shows "put_entry_loop e data key cap T n x None index (Suc f) = Inr (T, n, Some index, True)"
proof -
  obtain d where d: "data ! te_di (T ! index) = Some d" using assms(3) by (auto simp: has_dentry_def)
  then have "get_dentry data (T ! index) = Inr d" using get_dentry_has [OF assms(3)] by simp
  moreover have "(case key of None \<Rightarrow> False
      | Some k \<Rightarrow> tentry_eq (T ! index) x \<and> strncmp_eq (de_key d) k (te_klen (T ! index)))"
    using assms(4) d by (auto simp: key_match_def split: option.splits)
  ultimately show ?thesis using assms(1,2) by (simp add: mem_read_def used_def)
qed

lemma put_loop_found:
  assumes "\<And>i. tindex cap i = i mod cap" "cap \<le> 65536" "rh_inv cap T"
    "used (T ! ((h + q) mod cap))" "te_psl (T ! ((h + q) mod cap)) = q" "q < cap"
    "key_match data key x (T ! ((h + q) mod cap))"
    "\<forall>t<q. \<not> key_match data key x (T ! ((h + t) mod cap))" "\<forall>j<cap. used (T ! j) \<longrightarrow> has_dentry data (T ! j)"
    "te_psl x \<le> q" "q - te_psl x < f"
  shows "put_entry_loop e data key cap T n x None ((h + te_psl x) mod cap) f =
    Inr (T, n, Some ((h + q) mod cap), True)"
  using assms(7-11)
proof (induction "q - te_psl x" arbitrary: x f)
  case 0
  have len: "length T = cap" "1 < cap" using assms(3) by (auto simp: rh_inv_def)
  have px: "te_psl x = q" using 0 by simp
  obtain f' where "f = Suc f'" using 0 by (cases f) auto
  then show ?case using loop_hit [of "(h + q) mod cap" T data key x e cap n f'] 0 len assms(4) px by simp
next
  case (Suc m)
  have len: "length T = cap" "1 < cap" using assms(3) by (auto simp: rh_inv_def)
  let ?i = "(h + te_psl x) mod cap"
  obtain f' where f: "f = Suc f'" "m < f'" using Suc by (cases f) auto
  have lt: "te_psl x < q" using Suc by simp
  have u: "used (T ! ?i)" "te_psl x \<le> te_psl (T ! ?i)"
    using rh_chain [OF assms(3,4), of "te_psl x"] assms(5) lt by auto
  have d: "has_dentry data (T ! ?i)" using u(1) len Suc.prems(3) by simp
  have nm: "\<not> key_match data key x (T ! ?i)" using lt Suc.prems(2) by simp
  define y where "y = x\<lparr>te_psl := (te_psl x + 1) mod 65536\<rparr>"
  have py: "te_psl y = te_psl x + 1" "te_hash y = te_hash x" "te_klen y = te_klen x"
    using lt assms(2,6) by (simp_all add: y_def)
  have km: "key_match data key y = key_match data key x" using py by (intro key_match_cong) auto
  have "put_entry_loop e data key cap T n x None ?i f =
      put_entry_loop e data key cap T n y None ((h + te_psl y) mod cap) f'"
    unfolding f using loop_step [OF _ u(1) d nm, of e cap n None f'] u(2) len py(1)
    by (simp add: y_def assms(1) step_slot [simplified])
  also have "\<dots> = Inr (T, n, Some ((h + q) mod cap), True)"
    using Suc.hyps(2) lt f(2) by (intro Suc.hyps(1)) (auto simp: py(1) km Suc.prems)
  finally show ?case .
qed

section \<open>Looking up\<close>

lemma psldiff_slot:
  assumes "\<And>i. tindex cap i = i mod cap" "rh_slot cap T i" "used (T ! i)"
  shows "psldiff cap (T ! i) i = te_psl (T ! i)"
proof -
  have p: "te_psl (T ! i) < cap" "i = (te_home cap (T ! i) + te_psl (T ! i)) mod cap"
    using assms(2,3) by (auto simp: rh_slot_def)
  have h: "te_home cap (T ! i) < cap" using p(1) by (simp add: te_home_def)
  have "psldiff cap (T ! i) i =
      (if te_home cap (T ! i) \<le> i then i - te_home cap (T ! i) else i + (cap - te_home cap (T ! i)))"
    by (simp add: psldiff_def assms(1) te_home_def Let_def)
  moreover have "i = (if te_home cap (T ! i) + te_psl (T ! i) < cap then te_home cap (T ! i) + te_psl (T ! i)
      else te_home cap (T ! i) + te_psl (T ! i) - cap)"
    using p(2) mod_add_if [OF h p(1)] by (rule trans)
  ultimately show ?thesis using p(1) h by (auto split: if_splits)
qed

definition found_at :: "dentry option list \<Rightarrow> bytes \<Rightarrow> 32 word \<Rightarrow> tentry \<Rightarrow> bool" where
  "found_at data key khash t = (khash = te_hash t \<and> length key = te_klen t \<and>
     strncmp_eq key (de_key (the (data ! te_di t))) (length key))"

lemma get_step:
  assumes "i < length (oa_table ht)" "used (oa_table ht ! i)" "has_dentry (oa_data ht) (oa_table ht ! i)"
    "\<not> (np > psldiff (oa_cap ht) (oa_table ht ! i) i)" "i = first \<or> te_psl (oa_table ht ! i) > 0"
  shows "get_entry_loop ht key khash first i np =
    (if found_at (oa_data ht) key khash (oa_table ht ! i) then Inr (Some i)
     else get_entry_loop ht key khash first (tindex (oa_cap ht) (i + 1)) (np + 1))"
  using assms get_dentry_has [OF assms(3)]
  by (subst get_entry_loop.simps) (auto simp: found_at_def used_def Let_def)

lemma get_absent:
  assumes "\<And>i. tindex (oa_cap ht) i = i mod oa_cap ht" "rh_inv (oa_cap ht) (oa_table ht)"
    "\<forall>j<oa_cap ht. used (oa_table ht ! j) \<longrightarrow> has_dentry (oa_data ht) (oa_table ht ! j) \<and>
       \<not> found_at (oa_data ht) key khash (oa_table ht ! j)"
  shows "i < oa_cap ht \<Longrightarrow> get_entry_loop ht key khash first i np = Inr None"
  using assms
proof (induction ht key khash first i np rule: get_entry_loop.induct)
  case (1 ht key khash first i np)
  have len: "length (oa_table ht) = oa_cap ht" using "1.prems"(3) by (simp add: rh_inv_def)
  show ?case
  proof (cases "te_hash (oa_table ht ! i) = 0 \<or> np > psldiff (oa_cap ht) (oa_table ht ! i) i \<or>
      i \<noteq> first \<and> te_psl (oa_table ht ! i) = 0")
    case True
    then show ?thesis using "1.prems"(1) len by (subst get_entry_loop.simps) (auto simp: Let_def)
  next
    case False
    then have u: "used (oa_table ht ! i)" by (simp add: used_def)
    then have hd: "has_dentry (oa_data ht) (oa_table ht ! i)"
      and nf: "\<not> found_at (oa_data ht) key khash (oa_table ht ! i)" using "1.prems" by auto
    have "get_entry_loop ht key khash first i np =
        get_entry_loop ht key khash first (tindex (oa_cap ht) (i + 1)) (np + 1)"
      using get_step [OF _ u hd, of np first key khash] False "1.prems"(1) len nf by auto
    also have "\<dots> = Inr None"
    proof (rule "1.IH" [OF _ refl])
      show "(if khash = te_hash (oa_table ht ! i) \<and> length key = te_klen (oa_table ht ! i)
            then rbind (get_dentry (oa_data ht) (oa_table ht ! i))
                  (\<lambda>d. Inr (strncmp_eq key (de_key d) (length key))) else Inr False) =
            Inr False"
        using nf get_dentry_has [OF hd] by (auto simp: found_at_def)
    qed (use False "1.prems" len in auto)
    finally show ?thesis .
  qed
qed

lemma get_found:
  assumes "\<And>i. tindex (oa_cap ht) i = i mod oa_cap ht" "rh_inv (oa_cap ht) (oa_table ht)"
    "used (oa_table ht ! ((h + q) mod oa_cap ht))" "te_psl (oa_table ht ! ((h + q) mod oa_cap ht)) = q"
    "q < oa_cap ht" "found_at (oa_data ht) key khash (oa_table ht ! ((h + q) mod oa_cap ht))"
    "\<forall>t<q. \<not> found_at (oa_data ht) key khash (oa_table ht ! ((h + t) mod oa_cap ht))"
    "\<forall>j<oa_cap ht. used (oa_table ht ! j) \<longrightarrow> has_dentry (oa_data ht) (oa_table ht ! j)"
    "p \<le> q"
  shows "get_entry_loop ht key khash (h mod oa_cap ht) ((h + p) mod oa_cap ht) p =
    Inr (Some ((h + q) mod oa_cap ht))"
  using assms(9)
proof (induction "q - p" arbitrary: p)
  case 0
  have len: "length (oa_table ht) = oa_cap ht" "1 < oa_cap ht" using assms(2) by (auto simp: rh_inv_def)
  have "rh_slot (oa_cap ht) (oa_table ht) ((h + q) mod oa_cap ht)"
    using assms(2) len by (simp add: rh_inv_def)
  from psldiff_slot [OF assms(1) this assms(3)] show ?case
    using 0 len assms get_step [of "(h + q) mod oa_cap ht" ht q "h mod oa_cap ht" key khash]
    by (cases "q = 0") auto
next
  case (Suc m)
  let ?i = "(h + p) mod oa_cap ht"
  have len: "length (oa_table ht) = oa_cap ht" "1 < oa_cap ht" "?i < oa_cap ht"
    using assms(2) by (auto simp: rh_inv_def)
  have u: "used (oa_table ht ! ?i)" "p \<le> te_psl (oa_table ht ! ?i)"
    using rh_chain [OF assms(2,3), of p] assms(4) Suc by auto
  have sl: "rh_slot (oa_cap ht) (oa_table ht) ?i" using assms(2) len by (simp add: rh_inv_def)
  have hd: "has_dentry (oa_data ht) (oa_table ht ! ?i)" using u(1) assms(8) len by simp
  have "get_entry_loop ht key khash (h mod oa_cap ht) ?i p =
      get_entry_loop ht key khash (h mod oa_cap ht) ((h + Suc p) mod oa_cap ht) (Suc p)"
    using get_step [OF _ u(1) hd, of p "h mod oa_cap ht" key khash] psldiff_slot [OF assms(1) sl u(1)] u(2)
      len assms(7) Suc step_slot [of h p "oa_cap ht"]
    by (cases "p = 0") (auto simp: assms(1))
  also have "\<dots> = Inr (Some ((h + q) mod oa_cap ht))" using Suc by (intro Suc.hyps(1)) auto
  finally show ?case .
qed

section \<open>Moving back\<close>

definition emptied :: "tentry list \<Rightarrow> nat \<Rightarrow> tentry list" where
  "emptied T h = T[h := (T ! h)\<lparr>te_hash := 0\<rparr>]"

lemma emptied_nth: "i < length T \<Longrightarrow> emptied T h ! i = (if i = h then (T ! h)\<lparr>te_hash := 0\<rparr> else T ! i)"
  by (simp add: emptied_def nth_list_update)

lemma not_used_hash_0 [simp]: "\<not> used (t\<lparr>te_hash := 0\<rparr>)"
  by (simp add: used_def)

text \<open>The table around the hole \<open>h\<close>: the entry after it may move into it.\<close>

definition hole_inv :: "nat \<Rightarrow> tentry list \<Rightarrow> nat \<Rightarrow> bool" where
  "hole_inv cap T h \<longleftrightarrow> 1 < cap \<and> length T = cap \<and> h < cap \<and>
     (\<forall>i<cap. rh_slot cap (emptied T h) i \<and> (i \<noteq> h \<longrightarrow> rh_next cap (emptied T h) i)) \<and>
     (\<forall>a<cap. (a + 1) mod cap = h \<longrightarrow> used (T ! ((h + 1) mod cap)) \<longrightarrow>
        1 < te_psl (T ! ((h + 1) mod cap)) \<longrightarrow>
        used (T ! a) \<and> te_psl (T ! ((h + 1) mod cap)) \<le> te_psl (T ! a) + 2)"

lemma hole_start:
  assumes inv: "rh_inv cap T" and h: "h < cap"
  shows "hole_inv cap T h"
proof -
  have len: "1 < cap" "length T = cap" using inv by (auto simp: rh_inv_def)
  have nx: "rh_next cap T a" "rh_slot cap T a" if "a < cap" for a
    using inv that by (auto simp: rh_inv_def)
  have "rh_next cap (emptied T h) i" if "i < cap" "i \<noteq> h" for i
    using nx(1) [OF that(1)] that len by (auto simp: rh_next_def emptied_nth Let_def)
  moreover have "rh_slot cap (emptied T h) i" if "i < cap" for i
    using nx(2) [OF that] that len by (auto simp: rh_slot_def emptied_nth)
  moreover have "used (T ! a) \<and> te_psl (T ! ((h + 1) mod cap)) \<le> te_psl (T ! a) + 2"
    if "a < cap" "(a + 1) mod cap = h" "used (T ! ((h + 1) mod cap))" "1 < te_psl (T ! ((h + 1) mod cap))" for a
    using nx(1) [OF that(1)] nx(1) [OF h] that by (auto simp: rh_next_def Let_def)
  ultimately show ?thesis using len h by (auto simp: hole_inv_def)
qed

lemma hole_end:
  assumes inv: "hole_inv cap T h" and stop: "\<not> (used (T ! ((h + 1) mod cap)) \<and> 0 < te_psl (T ! ((h + 1) mod cap)))"
  shows "rh_inv cap (emptied T h)"
proof -
  have len: "1 < cap" "length T = cap" "h < cap" using inv by (auto simp: hole_inv_def)
  have "(h + 1) mod cap \<noteq> h" using next_slot_neq len by blast
  then have "rh_next cap (emptied T h) h"
    using stop len by (auto simp: rh_next_def emptied_nth Let_def)
  with inv show ?thesis by (auto simp: rh_inv_def hole_inv_def emptied_def)
qed

lemma entries_clear:
  "i < length T \<Longrightarrow> used (T ! i) \<Longrightarrow> \<not> used x \<Longrightarrow>
   mset (entries T) = add_mset (payload (T ! i)) (mset (entries (T[i := x])))"
  by (simp add: entries_split [of i T] entries_update)

lemma entries_same: "i < length T \<Longrightarrow> used x = used (T ! i) \<Longrightarrow> payload x = payload (T ! i) \<Longrightarrow>
   entries (T[i := x]) = entries T"
  by (simp add: entries_split [of i T] entries_update)

text \<open>The entry \<open>t\<close> of slot \<open>i\<close> moves into the hole in front of it, and \<open>i\<close> is the new hole.\<close>

definition moves_back :: "nat \<Rightarrow> tentry list \<Rightarrow> nat \<Rightarrow> nat \<Rightarrow> tentry \<Rightarrow> bool" where
  "moves_back cap T h i t \<longleftrightarrow> hole_inv cap T h \<and> i = (h + 1) mod cap \<and> t = (T ! i)\<lparr>te_psl := te_psl (T ! i) - 1\<rparr> \<and>
     used (T ! i) \<and> 0 < te_psl (T ! i)"

lemma moves_backD:
  assumes "moves_back cap T h i t"
  shows "hole_inv cap T h" "i = (h + 1) mod cap" "used (T ! i)" "0 < te_psl (T ! i)"
    "1 < cap" "length T = cap" "h < cap" "i < cap" "i \<noteq> h"
    "used t" "te_home cap t = te_home cap (T ! i)" "te_psl t = te_psl (T ! i) - 1" "payload t = payload (T ! i)"
proof -
  show inv: "hole_inv cap T h" "i = (h + 1) mod cap" "used (T ! i)" "0 < te_psl (T ! i)"
    using assms unfolding moves_back_def by blast+
  then show len: "1 < cap" "length T = cap" "h < cap" "i < cap" by (auto simp: hole_inv_def)
  show "i \<noteq> h" using next_slot_neq len(1,3) inv(2) by metis
  have "t = (T ! i)\<lparr>te_psl := te_psl (T ! i) - 1\<rparr>" using assms by (simp add: moves_back_def)
  then show "used t" "te_home cap t = te_home cap (T ! i)" "te_psl t = te_psl (T ! i) - 1" "payload t = payload (T ! i)"
    using inv(3) by simp_all
qed

lemma moved_nth:
  assumes "moves_back cap T h i t" "a < cap"
  shows "emptied T h ! a = (if a = h then (T ! h)\<lparr>te_hash := 0\<rparr> else T ! a)"
    "emptied (T[i := t, h := t]) i ! a = (if a = i then t\<lparr>te_hash := 0\<rparr> else if a = h then t else T ! a)"
  using assms(2) moves_backD(6,9) [OF assms(1)] by (simp_all add: emptied_nth nth_list_update)

lemma moved_slot:
  assumes "moves_back cap T h i t" "a < cap"
  shows "rh_slot cap (emptied (T[i := t, h := t]) i) a"
proof -
  note M = moves_backD [OF assms(1)] and N = moved_nth [OF assms(1)]
  have sl: "rh_slot cap (emptied T h) a" if "a < cap" for a using M(1) that by (auto simp: hole_inv_def)
  have st: "te_psl (T ! i) < cap" "i = (te_home cap (T ! i) + te_psl (T ! i)) mod cap"
    using sl [OF M(8)] M(3,9) N(1) [OF M(8)] by (auto simp: rh_slot_def)
  have hs: "h = (te_home cap t + te_psl t) mod cap"
  proof -
    let ?b = "(te_home cap t + te_psl t) mod cap"
    have "(?b + 1) mod cap = (h + 1) mod cap"
      using st(2) M(2,4,11,12) step_slot [of "te_home cap t" "te_psl t" cap] by simp
    from next_slot_inj [OF _ M(7) this] M(5) show ?thesis by simp
  qed
  consider "a = i" | "a = h" | "a \<noteq> i" "a \<noteq> h" by blast
  then show ?thesis
  proof cases
    case 1
    then have "\<not> used (emptied (T[i := t, h := t]) i ! a)" using N(2) [OF assms(2)] by simp
    then show ?thesis by (simp add: rh_slot_def)
  next
    case 2
    then have "emptied (T[i := t, h := t]) i ! a = t" using N(2) [OF assms(2)] M(9) by auto
    moreover have "te_psl t < cap" using M(12) st(1) by simp
    ultimately show ?thesis using hs 2 unfolding rh_slot_def by metis
  next
    case 3
    then show ?thesis using sl [OF assms(2)] by (simp add: rh_slot_def N [OF assms(2)])
  qed
qed

lemma moved_next:
  assumes "moves_back cap T h i t" "a < cap" "a \<noteq> i"
  shows "rh_next cap (emptied (T[i := t, h := t]) i) a"
proof (cases "a = h")
  case True
  note M = moves_backD [OF assms(1)] and N = moved_nth [OF assms(1)]
  from True have "\<not> used (emptied (T[i := t, h := t]) i ! ((a + 1) mod cap))" using N(2) [OF M(8)] M(2) by simp
  then show ?thesis by (simp add: rh_next_def Let_def)
next
  case False
  note M = moves_backD [OF assms(1)] and N = moved_nth [OF assms(1)]
  have nl: "(a + 1) mod cap < cap" using M(5) by simp
  have ni: "(a + 1) mod cap \<noteq> i" using False assms(2) M(2,7) next_slot_inj by blast
  show ?thesis
  proof (cases "(a + 1) mod cap = h")
    case True
    have "1 < te_psl (T ! i) \<Longrightarrow> used (T ! a) \<and> te_psl (T ! i) \<le> te_psl (T ! a) + 2"
      using M(1-4) True assms(2) by (auto simp: hole_inv_def)
    then show ?thesis using True False assms(2,3) M(7-12) ni by (auto simp: rh_next_def Let_def N(2))
  next
    case h2: False
    have "rh_next cap (emptied T h) a" using M(1) False assms(2) by (auto simp: hole_inv_def)
    with h2 show ?thesis using nl ni assms(2,3) False by (simp add: rh_next_def Let_def N)
  qed
qed

lemma moved_hole:
  assumes "moves_back cap T h i t" "a < cap" "(a + 1) mod cap = i"
    "used (T[i := t, h := t] ! ((i + 1) mod cap))" "1 < te_psl (T[i := t, h := t] ! ((i + 1) mod cap))"
  shows "used (T[i := t, h := t] ! a) \<and> te_psl (T[i := t, h := t] ! ((i + 1) mod cap)) \<le> te_psl (T[i := t, h := t] ! a) + 2"
proof -
  note M = moves_backD [OF assms(1)] and N = moved_nth [OF assms(1)]
  have ah: "a = h" using next_slot_inj assms(2,3) M(2,7) by blast
  have nl: "(i + 1) mod cap < cap" "(i + 1) mod cap \<noteq> i" using M(5,8) next_slot_neq [of cap i] by auto
  show ?thesis
  proof (cases "(i + 1) mod cap = h")
    case True
    then show ?thesis using ah M(6,7,10) by simp
  next
    case False
    have "rh_next cap (emptied T h) i" using M(1,8,9) by (auto simp: hole_inv_def)
    then have "te_psl (T ! ((i + 1) mod cap)) \<le> te_psl (T ! i) + 1"
      using assms(4,5) False nl M(6-9) by (auto simp: rh_next_def Let_def N(1))
    then show ?thesis using ah M(4,6-10,12) False nl by simp
  qed
qed

lemma moved_entries:
  assumes "moves_back cap T h i t"
  shows "mset (entries (emptied (T[i := t, h := t]) i)) = mset (entries (emptied T h))"
proof -
  note M = moves_backD [OF assms]
  have "emptied (T[i := t, h := t]) i = (emptied T h)[h := t, i := t\<lparr>te_hash := 0\<rparr>]"
    using M(6-9) by (intro nth_equalityI) (auto simp: emptied_def nth_list_update)
  moreover have "mset (entries ((emptied T h)[h := t])) = add_mset (payload t) (mset (entries (emptied T h)))"
    using M(6,7,10) by (intro entries_place) (auto simp: emptied_def)
  moreover have "mset (entries ((emptied T h)[h := t])) = add_mset (payload t)
      (mset (entries ((emptied T h)[h := t, i := t\<lparr>te_hash := 0\<rparr>])))"
    using entries_clear [of i "(emptied T h)[h := t]" "t\<lparr>te_hash := 0\<rparr>"] M(3,6-9,13) by (simp add: emptied_def)
  ultimately show ?thesis by simp
qed

lemma hole_step:
  assumes "hole_inv cap T h" "i = (h + 1) mod cap" "t = (T ! i)\<lparr>te_psl := te_psl (T ! i) - 1\<rparr>"
    "used (T ! i)" "0 < te_psl (T ! i)"
  shows "hole_inv cap (T[i := t, h := t]) i \<and>
    mset (entries (emptied (T[i := t, h := t]) i)) = mset (entries (emptied T h))"
proof -
  have M: "moves_back cap T h i t" using assms by (simp add: moves_back_def)
  show ?thesis
    using moved_slot [OF M] moved_next [OF M] moved_hole [OF M] moved_entries [OF M] moves_backD(5,6,8) [OF M]
    by (simp add: hole_inv_def)
qed

lemma shift_back_ok:
  "hole_inv cap T h \<Longrightarrow> i = (h + 1) mod cap \<Longrightarrow> (\<And>i. tindex cap i = i mod cap) \<Longrightarrow> \<exists>T' h'. shift_back cap T h i = Inr (T', h') \<and> h' < cap \<and>
    length T' = cap \<and> rh_inv cap (emptied T' h') \<and> mset (entries (emptied T' h')) = mset (entries (emptied T h))"
proof (induction cap T h i rule: shift_back.induct)
  case (1 cap T h i)
  have len: "length T = cap" "h < cap" "i < cap" using "1.prems" by (auto simp: hole_inv_def)
  show ?case
  proof (cases "used (T ! i) \<and> 0 < te_psl (T ! i)")
    case False
    then have "shift_back cap T h i = Inr (T, h)"
      using len by (subst shift_back.simps) (auto simp: used_def Let_def)
    with hole_end [OF "1.prems"(1)] False len "1.prems"(2) show ?thesis by auto
  next
    case True
    let ?t = "(T ! i)\<lparr>te_psl := te_psl (T ! i) - 1\<rparr>"
    from hole_step [OF "1.prems"(1,2) refl] True
    have st: "hole_inv cap (T[i := ?t, h := ?t]) i"
      "mset (entries (emptied (T[i := ?t, h := ?t]) i)) = mset (entries (emptied T h))" by auto
    have "shift_back cap T h i = shift_back cap (T[i := ?t, h := ?t]) i ((i + 1) mod cap)"
      using len True by (subst shift_back.simps) (auto simp: used_def Let_def "1.prems"(3))
    with "1.IH" [OF _ refl _ st(1)] True len st(2) show ?thesis by (auto simp: used_def "1.prems"(3))
  qed
qed

section \<open>Keys and data\<close>

definition pl_di :: "32 word \<times> nat \<times> nat \<Rightarrow> nat" where "pl_di p = snd (snd p)"

definition pl_key :: "dentry option list \<Rightarrow> 32 word \<times> nat \<times> nat \<Rightarrow> bytes" where
  "pl_key data p = de_key (the (data ! pl_di p))"

definition pl_pair :: "dentry option list \<Rightarrow> 32 word \<times> nat \<times> nat \<Rightarrow> bytes \<times> ptr" where
  "pl_pair data p = (pl_key data p, de_data (the (data ! pl_di p)))"

definition pl_ok :: "dentry option list \<Rightarrow> 32 word \<times> nat \<times> nat \<Rightarrow> bool" where
  "pl_ok data p \<longleftrightarrow> pl_di p < length data \<and> data ! pl_di p \<noteq> None \<and> key_ok (pl_key data p) \<and>
     fst p = oash_hash (pl_key data p) \<and> fst (snd p) = length (pl_key data p)"

text \<open>Each entry has a cell of its own in \<open>data\<close>, no other cell is in use, and the keys differ.\<close>

definition data_ok :: "dentry option list \<Rightarrow> (32 word \<times> nat \<times> nat) list \<Rightarrow> bool" where
  "data_ok data P \<longleftrightarrow> (\<forall>p\<in>set P. pl_ok data p) \<and> distinct (map pl_di P) \<and>
     distinct (map (pl_key data) P) \<and> {k. k < length data \<and> data ! k \<noteq> None} = pl_di ` set P"

definition oash_inv :: "tn_oash \<Rightarrow> bool" where
  "oash_inv ht \<longleftrightarrow> (\<exists>m. 0 < m \<and> m \<le> 16 \<and> oa_cap ht = 2 ^ m) \<and> rh_inv (oa_cap ht) (oa_table ht) \<and>
     oa_dcap ht = oa_cap ht \<and> length (oa_data ht) = oa_cap ht \<and>
     data_ok (oa_data ht) (entries (oa_table ht)) \<and> oa_size ht = length (entries (oa_table ht))"

definition oash_list :: "tn_oash \<Rightarrow> (bytes \<times> ptr) list" where
  "oash_list ht = map (pl_pair (oa_data ht)) (entries (oa_table ht))"

definition oash_map :: "tn_oash \<Rightarrow> bytes \<Rightarrow> ptr option" where
  "oash_map ht = map_of (oash_list ht)"

text \<open>
  No two keys of \<open>K\<close> with the same length and the same hash value, one of them a prefix
  of a third key: then the loop of \<open>n_oash_put_entry\<close>, which goes on comparing the new
  key after it has taken another entry over, is never misled.
\<close>

definition no_clash :: "bytes set \<Rightarrow> bool" where
  "no_clash K \<longleftrightarrow> (\<forall>k1\<in>K. \<forall>k2\<in>K. \<forall>k\<in>K. k1 \<noteq> k2 \<longrightarrow> length k1 = length k2 \<longrightarrow>
     oash_hash k1 = oash_hash k2 \<longrightarrow> take (length k2) k \<noteq> k2)"

lemma mset_map_distinct: "mset P = mset Q \<Longrightarrow> distinct (map f P) = distinct (map f Q)"
  by (rule mset_eq_imp_distinct_iff) simp

lemma data_ok_mset:
  assumes "mset P = mset Q" shows "data_ok data P = data_ok data Q"
  unfolding data_ok_def mset_map_distinct [OF assms, of pl_di] mset_map_distinct [OF assms, of "pl_key data"]
    mset_eq_setD [OF assms] ..

lemma oash_list_keys: "map fst (oash_list ht) = map (pl_key (oa_data ht)) (entries (oa_table ht))"
  by (simp add: oash_list_def pl_pair_def comp_def)

lemma oash_keys_distinct: "oash_inv ht \<Longrightarrow> distinct (map fst (oash_list ht))"
  by (simp add: oash_list_keys oash_inv_def data_ok_def)

lemma map_of_mset:
  assumes "mset xs = mset ys" "distinct (map fst xs)" shows "map_of xs = map_of ys"
proof -
  have "distinct (map fst ys)" using mset_map_distinct [OF assms(1)] assms(2) by blast
  with map_of_inject_set [OF assms(2) this] mset_eq_setD [OF assms(1)] show ?thesis by blast
qed

lemma oash_inv_tindex: "oash_inv ht \<Longrightarrow> tindex (oa_cap ht) i = i mod oa_cap ht"
  by (auto simp: oash_inv_def tindex_pow)

lemma oash_inv_cap:
  "oash_inv ht \<Longrightarrow> 1 < oa_cap ht \<and> oa_cap ht \<le> 65536 \<and> length (oa_table ht) = oa_cap ht"
proof -
  assume inv: "oash_inv ht"
  then obtain m where "m \<le> 16" "oa_cap ht = 2 ^ m" by (auto simp: oash_inv_def)
  then have "oa_cap ht \<le> 2 ^ 16" using power_increasing [of m 16 "2::nat"] by simp
  then show ?thesis using inv by (auto simp: oash_inv_def rh_inv_def)
qed

lemma oash_hash_pos: "oash_hash k \<noteq> 0"
  by (simp add: oash_hash_def Let_def)

lemma key_ok_mod: "key_ok k \<Longrightarrow> length k mod 65536 = length k"
  by (simp add: key_ok_def)

text \<open>What the invariant says of a slot in use.\<close>

lemma slot_facts:
  assumes "oash_inv ht" "j < oa_cap ht" "used (oa_table ht ! j)"
  defines "t \<equiv> oa_table ht ! j"
  shows "payload t \<in> set (entries (oa_table ht))" "has_dentry (oa_data ht) t"
    "key_ok (pl_key (oa_data ht) (payload t))" "te_hash t = oash_hash (pl_key (oa_data ht) (payload t))"
    "te_klen t = length (pl_key (oa_data ht) (payload t))"
    "pl_key (oa_data ht) (payload t) = de_key (the (oa_data ht ! te_di t))"
proof -
  have "j < length (oa_table ht)" using oash_inv_cap [OF assms(1)] assms(2) by simp
  then show p: "payload t \<in> set (entries (oa_table ht))" using assms(3) by (auto simp: in_entries t_def)
  then have "pl_ok (oa_data ht) (payload t)" using assms(1) by (simp add: oash_inv_def data_ok_def)
  then show "has_dentry (oa_data ht) t"
    "key_ok (pl_key (oa_data ht) (payload t))" "te_hash t = oash_hash (pl_key (oa_data ht) (payload t))"
    "te_klen t = length (pl_key (oa_data ht) (payload t))"
    by (simp_all add: pl_ok_def has_dentry_def payload_def pl_di_def)
qed (simp add: pl_key_def pl_di_def payload_def)

lemma slot_key_inj:
  assumes "oash_inv ht" "i < oa_cap ht" "j < oa_cap ht" "used (oa_table ht ! i)" "used (oa_table ht ! j)"
    "pl_key (oa_data ht) (payload (oa_table ht ! i)) = pl_key (oa_data ht) (payload (oa_table ht ! j))"
  shows "i = j"
proof (rule ccontr)
  assume ne: "i \<noteq> j"
  let ?T = "oa_table ht" and ?f = "\<lambda>t. pl_key (oa_data ht) (payload t)"
  have len: "length ?T = oa_cap ht" using oash_inv_cap [OF assms(1)] by simp
  have d: "distinct (map ?f (filter used ?T))"
    using assms(1) by (simp add: oash_inv_def data_ok_def entries_def comp_def)
  define a b where "a = min i j" and "b = max i j"
  have ab: "a < b" "b < length ?T" "used (?T ! a)" "used (?T ! b)" "?f (?T ! a) = ?f (?T ! b)"
    using ne assms len by (auto simp: a_def b_def min_def max_def)
  have "?T = take b ?T @ ?T ! b # drop (Suc b) ?T" using ab(2) by (rule id_take_nth_drop)
  then have "filter used ?T = filter used (take b ?T) @ ?T ! b # filter used (drop (Suc b) ?T)"
    using ab(4) by (metis filter.simps(2) filter_append)
  moreover have "?T ! a \<in> set (filter used (take b ?T))"
    using ab by (auto simp: in_set_conv_nth intro!: exI [of _ a])
  then have "?f (?T ! b) \<in> set (map ?f (filter used (take b ?T)))"
    unfolding ab(5) [symmetric] set_map by (rule imageI)
  ultimately show False using d by simp
qed

section \<open>Looking a key up\<close>

definition slot_key :: "tn_oash \<Rightarrow> nat \<Rightarrow> bytes" where
  "slot_key ht j = pl_key (oa_data ht) (payload (oa_table ht ! j))"

definition holds_key :: "tn_oash \<Rightarrow> bytes \<Rightarrow> nat \<Rightarrow> bool" where
  "holds_key ht k j \<longleftrightarrow> j < oa_cap ht \<and> used (oa_table ht ! j) \<and> slot_key ht j = k"

lemma found_at_slot:
  assumes "oash_inv ht" "j < oa_cap ht" "used (oa_table ht ! j)"
  shows "found_at (oa_data ht) k (oash_hash k) (oa_table ht ! j) \<longleftrightarrow> slot_key ht j = k"
  using slot_facts [OF assms] by (auto simp: found_at_def strncmp_eq_def slot_key_def)

lemma oash_map_Some:
  assumes "oash_inv ht"
  shows "oash_map ht k = Some p \<longleftrightarrow>
    (\<exists>j. holds_key ht k j \<and> p = de_data (the (oa_data ht ! te_di (oa_table ht ! j))))"
proof -
  have len: "length (oa_table ht) = oa_cap ht" using oash_inv_cap [OF assms] by simp
  have "oash_map ht k = Some p \<longleftrightarrow> (k, p) \<in> set (oash_list ht)"
    unfolding oash_map_def by (rule map_of_eq_Some_iff [OF oash_keys_distinct [OF assms]])
  also have "\<dots> \<longleftrightarrow> (\<exists>q\<in>set (entries (oa_table ht)). pl_pair (oa_data ht) q = (k, p))"
    unfolding oash_list_def set_map image_iff by (simp only: eq_commute)
  also have "\<dots> \<longleftrightarrow> (\<exists>j<oa_cap ht. used (oa_table ht ! j) \<and>
      pl_pair (oa_data ht) (payload (oa_table ht ! j)) = (k, p))"
    unfolding Bex_def in_entries len by blast
  finally show ?thesis
    by (auto simp: holds_key_def slot_key_def pl_pair_def pl_key_def pl_di_def payload_def)
qed

lemma oash_map_dom: "oash_inv ht \<Longrightarrow> oash_map ht k \<noteq> None \<longleftrightarrow> (\<exists>j. holds_key ht k j)"
  using oash_map_Some by fastforce

lemma oash_map_None: "oash_inv ht \<Longrightarrow> oash_map ht k = None \<longleftrightarrow> (\<nexists>j. holds_key ht k j)"
  using oash_map_dom by blast

lemma slot_home:
  assumes "oash_inv ht" "holds_key ht k j"
  shows "j = (unat (oash_hash k) + te_psl (oa_table ht ! j)) mod oa_cap ht" "te_psl (oa_table ht ! j) < oa_cap ht"
proof -
  have j: "j < oa_cap ht" "used (oa_table ht ! j)" "slot_key ht j = k" using assms(2) by (auto simp: holds_key_def)
  have "rh_slot (oa_cap ht) (oa_table ht) j" using assms(1) j(1) by (simp add: oash_inv_def rh_inv_def)
  then have h: "te_psl (oa_table ht ! j) < oa_cap ht"
    "j = (te_home (oa_cap ht) (oa_table ht ! j) + te_psl (oa_table ht ! j)) mod oa_cap ht"
    using j(2) by (auto simp: rh_slot_def)
  have "te_hash (oa_table ht ! j) = oash_hash k"
    using slot_facts(4) [OF assms(1) j(1,2)] j(3) by (simp add: slot_key_def)
  with h show "j = (unat (oash_hash k) + te_psl (oa_table ht ! j)) mod oa_cap ht"
    "te_psl (oa_table ht ! j) < oa_cap ht" by (simp_all add: te_home_def mod_simps)
qed

lemma get_entry_Some:
  assumes inv: "oash_inv ht" and j: "holds_key ht k j"
  shows "ohash_get_entry ht k (oash_hash k) = Inr (Some j)"
proof -
  let ?q = "te_psl (oa_table ht ! j)" and ?h = "unat (oash_hash k)"
  note hm = slot_home [OF inv j]
  have cap: "0 < oa_cap ht" using oash_inv_cap [OF inv] by simp
  have jj: "j < oa_cap ht" "used (oa_table ht ! j)" "slot_key ht j = k" using j by (auto simp: holds_key_def)
  have rh: "rh_inv (oa_cap ht) (oa_table ht)" using inv by (simp add: oash_inv_def)
  have nf: "\<forall>t<?q. \<not> found_at (oa_data ht) k (oash_hash k) (oa_table ht ! ((?h + t) mod oa_cap ht))"
  proof (intro allI impI)
    fix t assume t: "t < ?q"
    let ?i = "(?h + t) mod oa_cap ht"
    have u: "used (oa_table ht ! ?i)" using rh_chain [OF rh, of ?h ?q t] hm t jj by simp
    have "?i \<noteq> j" using offset_inj [of t "oa_cap ht" ?q ?h] hm t by auto
    then have "slot_key ht ?i \<noteq> k"
      using slot_key_inj [OF inv _ jj(1) u jj(2)] jj(3) cap by (auto simp: slot_key_def)
    then show "\<not> found_at (oa_data ht) k (oash_hash k) (oa_table ht ! ?i)"
      using found_at_slot [OF inv _ u] cap by simp
  qed
  have "get_entry_loop ht k (oash_hash k) (?h mod oa_cap ht) ((?h + 0) mod oa_cap ht) 0 =
      Inr (Some ((?h + ?q) mod oa_cap ht))"
    using found_at_slot [OF inv jj(1,2)] jj hm slot_facts(2) [OF inv] nf
    by (intro get_found [OF oash_inv_tindex [OF inv] rh]) auto
  then show ?thesis using hm(1) by (simp add: ohash_get_entry_def oash_inv_tindex [OF inv] Let_def)
qed

lemma get_entry_None:
  assumes inv: "oash_inv ht" and no: "\<nexists>j. holds_key ht k j"
  shows "ohash_get_entry ht k (oash_hash k) = Inr None"
proof -
  have "0 < oa_cap ht" using oash_inv_cap [OF inv] by simp
  then have "unat (oash_hash k) mod oa_cap ht < oa_cap ht" by simp
  from get_absent [OF oash_inv_tindex [OF inv] _ _ this] inv no
  have "get_entry_loop ht k (oash_hash k) (unat (oash_hash k) mod oa_cap ht)
      (unat (oash_hash k) mod oa_cap ht) 0 = Inr None"
    using slot_facts(2) [OF inv] found_at_slot [OF inv] by (auto simp: oash_inv_def holds_key_def)
  then show ?thesis by (simp add: ohash_get_entry_def oash_inv_tindex [OF inv] Let_def)
qed

lemma slot_dentry:
  assumes "oash_inv ht" "holds_key ht k j"
  shows "\<exists>d. get_dentry (oa_data ht) (oa_table ht ! j) = Inr d \<and>
    oa_data ht ! te_di (oa_table ht ! j) = Some d \<and> oash_map ht k = Some (de_data d) \<and> de_key d = k \<and>
    te_di (oa_table ht ! j) < length (oa_data ht) \<and> j < length (oa_table ht)"
proof -
  have j: "j < oa_cap ht" "used (oa_table ht ! j)" "slot_key ht j = k" using assms(2) by (auto simp: holds_key_def)
  note f = slot_facts [OF assms(1) j(1,2)]
  from f(2) obtain d where d: "oa_data ht ! te_di (oa_table ht ! j) = Some d" by (auto simp: has_dentry_def)
  moreover have "oash_map ht k = Some (de_data d)" using oash_map_Some [OF assms(1)] assms(2) d by fastforce
  ultimately show ?thesis using get_dentry_has [OF f(2)] f(2,6) j oash_inv_cap [OF assms(1)]
    by (simp add: slot_key_def has_dentry_def)
qed

lemma hget_ok:
  assumes "oash_inv ht"
  shows "n_oash_hget ht k (oash_hash k) = Inr (case oash_map ht k of None \<Rightarrow> NULL | Some p \<Rightarrow> p)"
proof (cases "\<exists>j. holds_key ht k j")
  case True
  then obtain j where j: "holds_key ht k j" by blast
  from slot_dentry [OF assms j] get_entry_Some [OF assms j] show ?thesis by (auto simp: n_oash_hget_def)
next
  case False
  with oash_map_None [OF assms, of k] get_entry_None [OF assms False] show ?thesis by (simp add: n_oash_hget_def)
qed

lemma n_oash_get_ok:
  assumes "oash_inv ht" "key_ok k"
  shows "n_oash_get e ht k = Inr (case oash_map ht k of None \<Rightarrow> NULL | Some p \<Rightarrow> p)"
  using hget_ok [OF assms(1)] assms(2)
  by (simp add: n_oash_get_def n_oash_get_ex_def n_oash_compute_hash_def key_ok_def)

lemma n_oash_exists_ok:
  assumes "oash_inv ht" "key_ok k"
  shows "n_oash_exists e ht k = Inr (oash_map ht k \<noteq> None)"
proof (cases "\<exists>j. holds_key ht k j")
  case True
  then obtain j where j: "holds_key ht k j" by blast
  with oash_map_dom [OF assms(1)] get_entry_Some [OF assms(1) j] assms(2) show ?thesis
    by (auto simp: n_oash_exists_def n_oash_exists_ex_def n_oash_hexists_def n_oash_compute_hash_def key_ok_def)
next
  case False
  with oash_map_None [OF assms(1), of k] get_entry_None [OF assms(1) False] assms(2) show ?thesis
    by (simp add: n_oash_exists_def n_oash_exists_ex_def n_oash_hexists_def n_oash_compute_hash_def key_ok_def)
qed

section \<open>Placing a new key\<close>

declare put_entry_loop.simps [simp del]

lemma first_free:
  assumes "z < (cap :: nat)" "\<not> P z"
  shows "\<exists>d<cap. \<not> P ((i + d) mod cap) \<and> (\<forall>t<d. P ((i + t) mod cap))"
proof -
  let ?Q = "\<lambda>t. \<not> P ((i + t) mod cap)"
  obtain t where t: "t < cap" "(i + t) mod cap = z" using reach_slot [OF assms(1)] by blast
  then have q: "?Q t" using assms(2) by simp
  then have "?Q (LEAST t. ?Q t)" by (rule LeastI)
  moreover have "(LEAST t. ?Q t) < cap" using Least_le [of ?Q t, OF q] t(1) by simp
  moreover have "\<forall>s<(LEAST t. ?Q t). P ((i + s) mod cap)" using not_less_Least by blast
  ultimately show ?thesis by blast
qed

lemma unused_slot: "length (entries T) < length T \<Longrightarrow> \<exists>z<length T. \<not> used (T ! z)"
proof (rule ccontr)
  assume a: "length (entries T) < length T" "\<not> (\<exists>z<length T. \<not> used (T ! z))"
  then have "filter used T = T" by (auto simp: filter_id_conv in_set_conv_nth)
  with a(1) show False by (simp add: entries_def)
qed

definition keys_of :: "tn_oash \<Rightarrow> bytes set" where
  "keys_of ht = dom (oash_map ht)"

lemma match_slot:
  assumes "oash_inv ht" "j < oa_cap ht" "used (oa_table ht ! j)"
  shows "key_match (oa_data ht) (Some k) y (oa_table ht ! j) \<longleftrightarrow> tentry_eq (oa_table ht ! j) y \<and>
    take (length (slot_key ht j)) k = slot_key ht j"
  using slot_facts [OF assms] assms(2,3)
  by (auto simp: key_match_def slot_key_def strncmp_eq_def has_dentry_def)

lemma keys_of_slot: "oash_inv ht \<Longrightarrow> j < oa_cap ht \<Longrightarrow> used (oa_table ht ! j) \<Longrightarrow> slot_key ht j \<in> keys_of ht"
  using oash_map_dom [of ht "slot_key ht j"] by (auto simp: keys_of_def holds_key_def)

text \<open>A new key is not found, whichever entry is carried.\<close>

lemma absent_no_match:
  assumes "oash_inv ht" "oash_map ht k = None" "te_klen x = length k" "j < oa_cap ht" "used (oa_table ht ! j)"
  shows "\<not> key_match (oa_data ht) (Some k) x (oa_table ht ! j)"
proof -
  have "slot_key ht j \<noteq> k" using assms(2,4,5) oash_map_None [OF assms(1), of k] by (auto simp: holds_key_def)
  then show ?thesis using match_slot [OF assms(1,4,5), of k x] slot_facts(5) [OF assms(1,4,5)] assms(3)
    by (auto simp: tentry_eq_def slot_key_def)
qed

lemma taken_no_match:
  assumes inv: "oash_inv ht" and nc: "no_clash (insert k (keys_of ht))"
    and ab: "a < oa_cap ht" "used (oa_table ht ! a)" "b < oa_cap ht" "used (oa_table ht ! b)" "a \<noteq> b"
  shows "\<not> key_match (oa_data ht) (Some k) (oa_table ht ! a) (oa_table ht ! b)"
proof
  assume "key_match (oa_data ht) (Some k) (oa_table ht ! a) (oa_table ht ! b)"
  then have "tentry_eq (oa_table ht ! b) (oa_table ht ! a)" "take (length (slot_key ht b)) k = slot_key ht b"
    using match_slot [OF inv ab(3,4)] by auto
  moreover have "slot_key ht a \<noteq> slot_key ht b"
    using slot_key_inj [OF inv ab(1,3,2,4)] ab(5) by (auto simp: slot_key_def)
  ultimately show False using nc keys_of_slot [OF inv ab(1,2)] keys_of_slot [OF inv ab(3,4)]
      slot_facts(4,5) [OF inv ab(1,2)] slot_facts(4,5) [OF inv ab(3,4)]
    unfolding no_clash_def by (fastforce simp: tentry_eq_def slot_key_def)
qed

lemma absent_way_clear:
  assumes inv: "oash_inv ht" and new: "oash_map ht k = None" and nc: "no_clash (insert k (keys_of ht))"
    and x: "te_klen x = length k" and d: "d < oa_cap ht" "\<forall>t<d. used (oa_table ht ! ((i + t) mod oa_cap ht))"
  shows "way_clear (oa_data ht) (Some k) (oa_cap ht) (oa_table ht) x i d"
proof (unfold way_clear_def, intro allI impI conjI)
  have slot: "(i + t) mod oa_cap ht < oa_cap ht" for t using d(1) by simp
  fix t assume t: "t < d"
  show "\<not> key_match (oa_data ht) (Some k) x (oa_table ht ! ((i + t) mod oa_cap ht))"
    using absent_no_match [OF inv new x slot] d(2) t by blast
  fix s assume s: "s < t"
  have "(i + s) mod oa_cap ht \<noteq> (i + t) mod oa_cap ht"
    using offset_inj [of s "oa_cap ht" t i] s t d(1) by auto
  then show "\<not> key_match (oa_data ht) (Some k) (oa_table ht ! ((i + s) mod oa_cap ht)) (oa_table ht ! ((i + t) mod oa_cap ht))"
    using taken_no_match [OF inv nc slot _ slot] d(2) t s by (meson less_trans)
qed

lemma put_entry_absent:
  assumes inv: "oash_inv ht" and k: "key_ok k" and new: "oash_map ht k = None"
    and room: "oa_size ht < oa_cap ht" and nc: "no_clash (insert k (keys_of ht))"
  defines "x \<equiv> \<lparr>te_hash = oash_hash k, te_psl = 0, te_klen = length k mod 65536, te_di = 0\<rparr>"
  shows "\<exists>T r. n_oash_put_entry e ht x (Some k) =
      Inr (ht\<lparr>oa_table := T, oa_size := oa_size ht + 1\<rparr>, Some r, False) \<and>
    rh_inv (oa_cap ht) T \<and> mset (entries T) = add_mset (payload x) (mset (entries (oa_table ht))) \<and>
    r < oa_cap ht \<and> used (T ! r) \<and> payload (T ! r) = payload x"
proof -
  let ?T = "oa_table ht" and ?cap = "oa_cap ht" and ?data = "oa_data ht"
  have cap: "1 < ?cap" "?cap \<le> 65536" "length ?T = ?cap" using oash_inv_cap [OF inv] by auto
  have rh: "rh_inv ?cap ?T" using inv by (simp add: oash_inv_def)
  define i where "i = unat (oash_hash k) mod ?cap"
  have x: "used x" "te_psl x = 0" "te_home ?cap x = i" "te_klen x = length k"
    using oash_hash_pos k by (simp_all add: x_def used_def te_home_def i_def key_ok_mod)
  obtain z where z: "z < ?cap" "\<not> used (?T ! z)"
    using unused_slot [of ?T] room inv cap(3) by (auto simp: oash_inv_def)
  obtain d where d: "d < ?cap" "\<not> used (?T ! ((i + d) mod ?cap))" "\<forall>t<d. used (?T ! ((i + t) mod ?cap))"
    using first_free [of z ?cap "\<lambda>j. used (?T ! j)" i] z by blast
  have slot: "(i + t) mod ?cap < ?cap" for t using cap by simp
  note clear = absent_way_clear [OF inv new nc x(4) d(1,3)]
  have "fits ?cap ?T x" by (simp add: fits_def x)
  moreover have "i = (te_home ?cap x + te_psl x) mod ?cap" using x by (simp add: i_def)
  moreover have "\<forall>t<d. has_dentry ?data (?T ! ((i + t) mod ?cap))" using slot_facts(2) [OF inv slot] d(3) by blast
  moreover have "d < Suc ?cap" using d(1) by simp
  ultimately obtain T r where L: "put_entry_loop e ?data (Some k) ?cap ?T (oa_size ht) x None i (Suc ?cap) =
      Inr (T, oa_size ht + 1, Some r, False)" "rh_inv ?cap T"
    "mset (entries T) = add_mset (payload x) (mset (entries ?T))"
    "r < ?cap" "used (T ! r)" "payload (T ! r) = payload x"
    using put_loop_absent [OF oash_inv_tindex [OF inv] cap(2) rh x(1) _ _ d(2,3,1) _ _ clear, of "Suc ?cap" e "oa_size ht" None]
    by auto
  have "x\<lparr>te_psl := 0\<rparr> = x" by (simp add: x_def)
  then have "n_oash_put_entry e ht x (Some k) =
      Inr (ht\<lparr>oa_table := T, oa_size := oa_size ht + 1\<rparr>, Some r, False)"
    using L(1) by (simp add: n_oash_put_entry_def oash_inv_tindex [OF inv] x_def i_def)
  with L show ?thesis by blast
qed

lemma put_entry_present:
  assumes inv: "oash_inv ht" and k: "key_ok k" and j: "holds_key ht k j"
  defines "x \<equiv> \<lparr>te_hash = oash_hash k, te_psl = 0, te_klen = length k mod 65536, te_di = 0\<rparr>"
  shows "n_oash_put_entry e ht x (Some k) = Inr (ht, Some j, True)"
proof -
  let ?T = "oa_table ht" and ?cap = "oa_cap ht" and ?data = "oa_data ht"
    and ?q = "te_psl (oa_table ht ! j)" and ?h = "unat (oash_hash k)"
  have cap: "1 < ?cap" "?cap \<le> 65536" "length ?T = ?cap" using oash_inv_cap [OF inv] by auto
  have rh: "rh_inv ?cap ?T" using inv by (simp add: oash_inv_def)
  note hm = slot_home [OF inv j]
  have jj: "j < ?cap" "used (?T ! j)" "slot_key ht j = k" using j by (auto simp: holds_key_def)
  have x: "te_hash x = oash_hash k" "te_psl x = 0" "te_klen x = length k"
    using k by (simp_all add: x_def key_ok_mod)
  have match: "key_match ?data (Some k) x (?T ! i) \<longleftrightarrow> slot_key ht i = k" if "i < ?cap" "used (?T ! i)" for i
    using slot_facts [OF inv that] x
    by (auto simp: key_match_def slot_key_def strncmp_eq_def has_dentry_def tentry_eq_def)
  have nf: "\<forall>t<?q. \<not> key_match ?data (Some k) x (?T ! ((?h + t) mod ?cap))"
  proof (intro allI impI)
    fix t assume t: "t < ?q"
    let ?i = "(?h + t) mod ?cap"
    have u: "used (?T ! ?i)" using rh_chain [OF rh, of ?h ?q t] hm t jj by simp
    have "?i \<noteq> j" using offset_inj [of t ?cap ?q ?h] hm t by auto
    then have "slot_key ht ?i \<noteq> k"
      using slot_key_inj [OF inv _ jj(1) u jj(2)] jj(3) cap by (auto simp: slot_key_def)
    then show "\<not> key_match ?data (Some k) x (?T ! ?i)" using match u cap by simp
  qed
  have "put_entry_loop e ?data (Some k) ?cap ?T (oa_size ht) x None ((?h + te_psl x) mod ?cap) (Suc ?cap) =
      Inr (?T, oa_size ht, Some ((?h + ?q) mod ?cap), True)"
    using hm jj match [OF jj(1,2)] nf slot_facts(2) [OF inv] x
    by (intro put_loop_found [OF oash_inv_tindex [OF inv] cap(2) rh]) auto
  moreover have xx: "x\<lparr>te_psl := 0\<rparr> = x" by (simp add: x_def)
  ultimately show ?thesis using hm(1) x by (simp add: n_oash_put_entry_def oash_inv_tindex [OF inv] xx)
qed

section \<open>A cell for the data\<close>

lemma free_cell_ok:
  "(\<And>i. tindex cap i = i mod cap) \<Longrightarrow> length data = cap \<Longrightarrow> i < cap \<Longrightarrow>
   data ! ((i + d) mod cap) = None \<Longrightarrow> \<forall>t<d. data ! ((i + t) mod cap) \<noteq> None \<Longrightarrow> d < f \<Longrightarrow>
   free_cell data cap i f = Inr ((i + d) mod cap)"
proof (induction d arbitrary: i f)
  case 0
  then show ?case by (cases f) (auto simp: mem_read_def)
next
  case (Suc d)
  obtain f' where f: "f = Suc f'" "d < f'" using Suc.prems(6) by (cases f) auto
  have i': "(i + 1) mod cap < cap" using Suc.prems(3) by simp
  have sh: "((i + 1) mod cap + t) mod cap = (i + Suc t) mod cap" for t by (simp add: mod_simps)
  have "data ! i \<noteq> None" using Suc.prems(3,5) by (auto dest: spec [of _ 0])
  then have "free_cell data cap i f = free_cell data cap ((i + 1) mod cap) f'"
    using Suc.prems(1-3) f by (auto simp: mem_read_def)
  also have "\<dots> = Inr (((i + 1) mod cap + d) mod cap)"
    using Suc.prems f(2) i' by (intro Suc.IH) (auto simp only: sh Suc_less_eq)
  finally show ?case by (simp only: sh)
qed

declare free_cell.simps [simp del]

lemma free_cell_exists:
  assumes inv: "oash_inv ht" and room: "oa_size ht < oa_cap ht"
  shows "\<exists>c. free_cell (oa_data ht) (oa_dcap ht) (tindex (oa_dcap ht) n) (Suc (oa_dcap ht)) = Inr c \<and>
    c < length (oa_data ht) \<and> oa_data ht ! c = None"
proof -
  have cap: "0 < oa_cap ht" "oa_dcap ht = oa_cap ht" "length (oa_data ht) = oa_cap ht"
    using oash_inv_cap [OF inv] inv by (auto simp: oash_inv_def)
  let ?C = "{c. c < length (oa_data ht) \<and> oa_data ht ! c \<noteq> None}"
  have ok: "data_ok (oa_data ht) (entries (oa_table ht))" "oa_size ht = length (entries (oa_table ht))"
    using inv by (simp_all add: oash_inv_def)
  from ok(1) have "?C = pl_di ` set (entries (oa_table ht))" by (simp only: data_ok_def)
  then have "card ?C = card (pl_di ` set (entries (oa_table ht)))" by (rule arg_cong)
  also have "\<dots> \<le> oa_size ht"
    unfolding ok(2) by (rule order_trans [OF card_image_le card_length]) simp
  also note room
  finally have "card ?C \<noteq> card {..<oa_cap ht}" unfolding card_lessThan by (rule less_imp_neq)
  then have "?C \<noteq> {..<oa_cap ht}" by (rule contrapos_nn) (rule arg_cong)
  then obtain z where z: "z < oa_cap ht" "\<not> (oa_data ht ! z \<noteq> None)" using cap(3) by auto
  define i where "i = n mod oa_cap ht"
  have i: "i < oa_cap ht" using cap by (simp add: i_def)
  obtain d where d: "d < oa_cap ht" "oa_data ht ! ((i + d) mod oa_cap ht) = None"
    "\<forall>t<d. oa_data ht ! ((i + t) mod oa_cap ht) \<noteq> None"
    using first_free [of z "oa_cap ht" "\<lambda>c. oa_data ht ! c \<noteq> None" i] z by blast
  have "free_cell (oa_data ht) (oa_cap ht) i (Suc (oa_cap ht)) = Inr ((i + d) mod oa_cap ht)"
    using d(1) by (intro free_cell_ok [OF oash_inv_tindex [OF inv] cap(3) i d(2,3)]) simp
  then show ?thesis using d(2) cap by (simp add: i_def oash_inv_tindex [OF inv])
qed

lemma rh_inv_same:
  assumes "rh_inv cap T" "te_psl t = te_psl (T ! r)" "te_hash t = te_hash (T ! r)"
  shows "rh_inv cap (T[r := t])"
proof (cases "r < length T")
  case True
  have same: "te_psl (T[r := t] ! i) = te_psl (T ! i)" "te_hash (T[r := t] ! i) = te_hash (T ! i)" for i
    using assms(2,3) True by (cases "i = r"; simp)+
  have us: "used (T[r := t] ! i) = used (T ! i)" "te_home cap (T[r := t] ! i) = te_home cap (T ! i)" for i
    unfolding used_def te_home_def same by (rule refl)+
  have "rh_slot cap (T[r := t]) i = rh_slot cap T i" "rh_next cap (T[r := t]) i = rh_next cap T i" for i
    unfolding rh_slot_def rh_next_def Let_def us same by (rule refl)+
  then show ?thesis using assms(1) unfolding rh_inv_def by simp
next
  case False
  then have "T[r := t] = T" by (intro list_update_beyond) simp
  then show ?thesis using assms(1) by simp
qed

lemma data_ok_new:
  fixes data :: "dentry option list" and p :: ptr and k :: bytes and c :: nat
  assumes ok: "data_ok data P" and c: "c < length data" "data ! c = None" and k: "key_ok k"
    and new: "k \<notin> pl_key data ` set P"
  defines "data' \<equiv> data[c := Some \<lparr>de_data = p, de_key = k\<rparr>]" and "q \<equiv> (oash_hash k, length k, c)"
  shows "data_ok data' (q # P)" "map (pl_pair data') (q # P) = (k, p) # map (pl_pair data) P"
proof -
  have ne: "pl_di x \<noteq> c" if "x \<in> set P" for x using ok c that by (auto simp: data_ok_def pl_ok_def)
  have key: "pl_key data' x = pl_key data x" "pl_pair data' x = pl_pair data x" if "x \<in> set P" for x
    using ne [OF that] by (simp_all add: data'_def pl_key_def pl_pair_def)
  have kq: "pl_key data' q = k" "pl_pair data' q = (k, p)" "pl_di q = c"
    using c by (simp_all add: pl_key_def pl_pair_def pl_di_def q_def data'_def)
  have "pl_ok data' q" using kq c k by (simp add: pl_ok_def q_def data'_def)
  moreover have "pl_ok data' x" if "x \<in> set P" for x
    using ok ne [OF that] key [OF that] that by (auto simp: data_ok_def pl_ok_def data'_def)
  moreover have "distinct (map (pl_key data') P)" using ok key by (simp add: data_ok_def cong: map_cong)
  moreover have "{j. j < length data' \<and> data' ! j \<noteq> None} = insert c {j. j < length data \<and> data ! j \<noteq> None}"
    using c by (auto simp: data'_def nth_list_update)
  moreover have "c \<notin> pl_di ` set P" using ne by blast
  moreover have "pl_key data' ` set P = pl_key data ` set P" using key(1) by (rule image_cong [OF refl])
  ultimately show "data_ok data' (q # P)" using ok new kq by (simp add: data_ok_def)
  show "map (pl_pair data') (q # P) = (k, p) # map (pl_pair data) P" using key kq by simp
qed

definition oash_conf where
  "oash_conf ht = (oa_refcnt ht, oa_flags ht, oa_free_fn ht, oa_na ht)"

lemma oash_conf_has: "oash_conf ht' = oash_conf ht \<Longrightarrow> oa_has ht' f = oa_has ht f"
  by (simp add: oash_conf_def oa_has_def)

text \<open>The table after the entry and its data are in place, before it may grow.\<close>

lemma put_place:
  assumes inv: "oash_inv ht" and k: "key_ok k" and new: "oash_map ht k = None"
    and room: "oa_size ht < oa_cap ht" and nc: "no_clash (insert k (keys_of ht))"
  shows "\<exists>T r c ht2. n_oash_put_entry e ht
        \<lparr>te_hash = oash_hash k, te_psl = 0, te_klen = length k mod 65536, te_di = 0\<rparr> (Some k) =
      Inr (ht\<lparr>oa_table := T, oa_size := oa_size ht + 1\<rparr>, Some r, False) \<and>
    put_new e (ht\<lparr>oa_table := T, oa_size := oa_size ht + 1\<rparr>) k p r =
      rbind (if oa_has ht2 TN_HASH_REHASH \<and> oa_cap ht2 - oa_size ht2 \<le> oa_cap ht2 div 3
             then ohash_rehash e ht2 else Inr ht2) (\<lambda>ht. Inr (ht, Some c)) \<and>
    oash_inv ht2 \<and> oash_map ht2 = (oash_map ht)(k \<mapsto> p) \<and> oash_conf ht2 = oash_conf ht \<and>
    oa_freed ht2 = oa_freed ht \<and> oa_cap ht2 = oa_cap ht \<and> oa_size ht2 = oa_size ht + 1 \<and>
    c < length (oa_data ht2) \<and> oa_data ht2 ! c = Some \<lparr>de_data = p, de_key = k\<rparr>"
proof -
  let ?x = "\<lparr>te_hash = oash_hash k, te_psl = 0, te_klen = length k mod 65536, te_di = 0\<rparr>"
  let ?P = "entries (oa_table ht)" and ?data = "oa_data ht"
  obtain T r where T: "n_oash_put_entry e ht ?x (Some k) =
      Inr (ht\<lparr>oa_table := T, oa_size := oa_size ht + 1\<rparr>, Some r, False)"
    "rh_inv (oa_cap ht) T" "mset (entries T) = add_mset (payload ?x) (mset ?P)"
    "r < oa_cap ht" "used (T ! r)" "payload (T ! r) = payload ?x"
    using put_entry_absent [OF inv k new room nc, of e] by blast
  obtain c where c: "free_cell ?data (oa_dcap ht) (tindex (oa_dcap ht) (oa_dsize ht)) (Suc (oa_dcap ht)) = Inr c"
    "c < length ?data" "?data ! c = None" using free_cell_exists [OF inv room] by blast
  have len: "length T = oa_cap ht" using T(2) by (simp add: rh_inv_def)
  define d where "d = \<lparr>de_data = p, de_key = k\<rparr>"
  define T2 where "T2 = T[r := (T ! r)\<lparr>te_di := c\<rparr>]"
  define ht2 where "ht2 = ht\<lparr>oa_size := oa_size ht + 1, oa_data := ?data[c := Some d],
    oa_dsize := oa_dsize ht + 1, oa_table := T2\<rparr>"
  have "put_new e (ht\<lparr>oa_table := T, oa_size := oa_size ht + 1\<rparr>) k p r =
      rbind (if oa_has ht2 TN_HASH_REHASH \<and> oa_cap ht2 - oa_size ht2 \<le> oa_cap ht2 div 3
             then ohash_rehash e ht2 else Inr ht2) (\<lambda>ht. Inr (ht, Some c))"
    using k c T(4) len
    by (simp add: put_new_def new_dentry_def key_ok_def put_dentry_def mem_write_def mem_read_def
        d_def ht2_def T2_def oa_has_def)
  moreover have ent: "mset (entries T2) = mset ((oash_hash k, length k, c) # ?P)"
  proof -
    have u: "used ((T ! r)\<lparr>te_di := c\<rparr>)" "payload ((T ! r)\<lparr>te_di := c\<rparr>) = (oash_hash k, length k, c)"
      using T(5,6) k by (auto simp: used_def payload_def key_ok_mod)
    from entries_swap [of r T, OF _ T(5) u(1)] T(3,4,6) len u(2) show ?thesis by (simp add: T2_def)
  qed
  moreover have "rh_inv (oa_cap ht) T2" unfolding T2_def by (rule rh_inv_same [OF T(2)]) auto
  moreover have "k \<notin> pl_key ?data ` set ?P"
    using new by (auto simp: oash_map_def map_of_eq_None_iff oash_list_def pl_pair_def image_iff)
  note dn = data_ok_new [OF _ c(2,3) k this, of p]
  moreover have ok: "data_ok ?data ?P" using inv by (simp add: oash_inv_def)
  moreover have dn2: "map (pl_pair (oa_data ht2)) ((oash_hash k, length k, c) # ?P) =
      (k, p) # map (pl_pair ?data) ?P" using dn(2) [OF ok] by (simp add: ht2_def d_def)
  ultimately have inv2: "oash_inv ht2"
    using inv data_ok_mset [OF ent] size_mset [of "entries T2"] mset_eq_length [OF ent]
    by (simp add: oash_inv_def ht2_def d_def)
  have "map_of (oash_list ht2) = map_of (map (pl_pair (oa_data ht2)) ((oash_hash k, length k, c) # ?P))"
    using oash_keys_distinct [OF inv2] ent unfolding oash_list_def
    by (intro map_of_mset) (simp_all add: ht2_def)
  then have "oash_map ht2 = (oash_map ht)(k \<mapsto> p)"
    unfolding oash_map_def oash_list_def by (simp only: dn2 map_of.simps fst_conv snd_conv)
  with \<open>put_new _ _ _ _ _ = _\<close> T(1) inv2 show ?thesis
    by (intro exI [of _ T] exI [of _ r] exI [of _ c] exI [of _ ht2]) (auto simp: ht2_def oash_conf_def c(2) d_def)
qed

end
