(* ===== verification/OashRefine.thy ===== *)
theory OashRefine
  imports OashProps
begin

text \<open>
  What putting, growing and removing do to the contents of the open-addressing table,
  and the agreement of every sequence of calls with a finite map.
\<close>

section \<open>Growing\<close>

lemma has_dentry_payload:
  "has_dentry data t \<longleftrightarrow> pl_di (payload t) < length data \<and> data ! pl_di (payload t) \<noteq> None"
  by (simp add: has_dentry_def pl_di_def payload_def)

lemma entries_Cons: "entries (t # ts) = (if used t then [payload t] else []) @ entries ts"
  by (simp add: entries_def)

lemma entries_none [simp]: "entries (replicate n no_entry) = []"
  by (simp add: entries_def no_entry_def used_def filter_empty_conv)

lemma entries_Nil [simp]: "entries [] = []"
  by (simp add: entries_def)

text \<open>An entry put without a key finds its place in a table with room.\<close>

lemma put_entry_move:
  assumes "oa_cap ht = 2 ^ m" "m \<le> 16" "rh_inv (oa_cap ht) (oa_table ht)" "used t"
    "\<forall>p\<in>set (entries (oa_table ht)). pl_di p < length (oa_data ht) \<and> oa_data ht ! pl_di p \<noteq> None"
    "length (entries (oa_table ht)) < oa_cap ht"
  shows "\<exists>T r. n_oash_put_entry e ht t None =
      Inr (ht\<lparr>oa_table := T, oa_size := oa_size ht + 1\<rparr>, Some r, False) \<and> rh_inv (oa_cap ht) T \<and>
    mset (entries T) = add_mset (payload t) (mset (entries (oa_table ht)))"
proof -
  let ?T = "oa_table ht" and ?cap = "oa_cap ht" and ?x = "t\<lparr>te_psl := 0\<rparr>"
  have cap: "?cap \<le> 65536" using power_increasing [of m 16 "2::nat"] assms(1,2) by simp
  have ti: "tindex ?cap i = i mod ?cap" for i using tindex_pow [OF assms(1)] .
  have len: "length ?T = ?cap" "1 < ?cap" using assms(3) by (simp_all add: rh_inv_def)
  define i where "i = te_home ?cap ?x"
  obtain z where "z < ?cap" "\<not> used (?T ! z)" using unused_slot [of ?T] assms(6) len(1) by auto
  then obtain d where d: "d < ?cap" "\<not> used (?T ! ((i + d) mod ?cap))" "\<forall>t<d. used (?T ! ((i + t) mod ?cap))"
    using first_free [of z ?cap "\<lambda>j. used (?T ! j)" i] by blast
  have hd: "\<forall>s<d. has_dentry (oa_data ht) (?T ! ((i + s) mod ?cap))"
  proof (intro allI impI)
    fix s assume s: "s < d"
    have "payload (?T ! ((i + s) mod ?cap)) \<in> set (entries ?T)"
      using d(3) s len unfolding in_entries by (intro exI [of _ "(i + s) mod ?cap"]) simp
    with assms(5) show "has_dentry (oa_data ht) (?T ! ((i + s) mod ?cap))"
      by (simp add: has_dentry_payload)
  qed
  have clear: "way_clear (oa_data ht) None ?cap ?T ?x i d" by (simp add: way_clear_def key_match_def)
  have i: "i = (te_home ?cap ?x + te_psl ?x) mod ?cap" using len(2) by (simp add: i_def te_home_def)
  have fit: "fits ?cap ?T ?x" by (simp add: fits_def)
  obtain T r where L: "put_entry_loop e (oa_data ht) None ?cap ?T (oa_size ht) ?x None i (Suc ?cap) =
      Inr (T, oa_size ht + 1, Some r, False)" "rh_inv ?cap T"
    "mset (entries T) = add_mset (payload ?x) (mset (entries ?T))"
    using put_loop_absent [OF ti cap assms(3) _ i fit d(2,3,1) _ hd clear, of "Suc ?cap" e "oa_size ht" None]
      assms(4) d(1) by auto
  have "i = tindex ?cap (unat (te_hash t))" by (simp add: i_def te_home_def ti)
  with L show ?thesis by (intro exI [of _ T]) (simp add: n_oash_put_entry_def)
qed

lemma put_entries_ok:
  assumes "oa_cap ht = 2 ^ m" "m \<le> 16" "rh_inv (oa_cap ht) (oa_table ht)"
    "\<forall>p\<in>set (entries (oa_table ht) @ entries ts). pl_di p < length (oa_data ht) \<and> oa_data ht ! pl_di p \<noteq> None"
    "length (entries (oa_table ht)) + length (entries ts) < oa_cap ht"
  shows "\<exists>T. put_entries e ht ts = Inr (ht\<lparr>oa_table := T, oa_size := oa_size ht + length (entries ts)\<rparr>) \<and>
    rh_inv (oa_cap ht) T \<and> mset (entries T) = mset (entries (oa_table ht)) + mset (entries ts)"
  using assms
proof (induction ts arbitrary: ht)
  case Nil
  then show ?case by (intro exI [of _ "oa_table ht"]) simp
next
  case (Cons t ts)
  show ?case
  proof (cases "used t")
    case False
    with Cons.IH [OF Cons.prems(1-3)] Cons.prems show ?thesis
      by (simp add: entries_Cons) (simp add: used_def)
  next
    case True
    obtain T r where T: "n_oash_put_entry e ht t None =
        Inr (ht\<lparr>oa_table := T, oa_size := oa_size ht + 1\<rparr>, Some r, False)" "rh_inv (oa_cap ht) T"
      "mset (entries T) = add_mset (payload t) (mset (entries (oa_table ht)))"
      using put_entry_move [OF Cons.prems(1-3) True, of e] Cons.prems by auto
    let ?ht = "ht\<lparr>oa_table := T, oa_size := oa_size ht + 1\<rparr>"
    have "length (entries T) = Suc (length (entries (oa_table ht)))"
      using mset_eq_length [of "entries T" "payload t # entries (oa_table ht)"] T(3) by simp
    moreover have "set (entries T) = insert (payload t) (set (entries (oa_table ht)))"
      using mset_eq_setD [of "entries T" "payload t # entries (oa_table ht)"] T(3) by simp
    ultimately obtain T' where "put_entries e ?ht ts =
        Inr (?ht\<lparr>oa_table := T', oa_size := oa_size ?ht + length (entries ts)\<rparr>)"
      "rh_inv (oa_cap ht) T'" "mset (entries T') = mset (entries T) + mset (entries ts)"
      using Cons.IH [of ?ht] Cons.prems T(2) True by (auto simp: entries_Cons)
    with T True show ?thesis
      by (intro exI [of _ T']) (simp add: entries_Cons used_def)
  qed
qed

lemma data_ok_grow:
  fixes data :: "dentry option list"
  assumes "data_ok data P"
  shows "data_ok (data @ replicate n None) P" "map (pl_pair (data @ replicate n None)) P = map (pl_pair data) P"
proof -
  let ?data = "data @ replicate n None"
  have di: "pl_di x < length data" if "x \<in> set P" for x using assms that by (auto simp: data_ok_def pl_ok_def)
  have key: "pl_key ?data x = pl_key data x" "pl_pair ?data x = pl_pair data x" if "x \<in> set P" for x
    using di [OF that] by (simp_all add: pl_key_def pl_pair_def nth_append)
  have "pl_ok ?data x" if "x \<in> set P" for x
    using assms that key [OF that] di [OF that] by (auto simp: data_ok_def pl_ok_def nth_append)
  moreover have "distinct (map (pl_key ?data) P)" using assms key by (simp add: data_ok_def cong: map_cong)
  moreover have "{j. j < length ?data \<and> ?data ! j \<noteq> None} = {j. j < length data \<and> data ! j \<noteq> None}"
    by (auto simp: nth_append nth_replicate) (metis add_less_cancel_left le_add_diff_inverse not_less nth_replicate option.distinct(1))
  ultimately show "data_ok ?data P" using assms by (simp add: data_ok_def)
  show "map (pl_pair ?data) P = map (pl_pair data) P" using key by simp
qed

lemma rh_inv_empty: "1 < cap \<Longrightarrow> rh_inv cap (replicate cap no_entry)"
  by (simp add: rh_inv_def rh_slot_def rh_next_def used_def no_entry_def Let_def)

definition same_table :: "tn_oash \<Rightarrow> tn_oash \<Rightarrow> bool" where
  "same_table ht ht' \<longleftrightarrow> oash_inv ht' \<and> oash_map ht' = oash_map ht \<and> oash_conf ht' = oash_conf ht \<and>
     oa_freed ht' = oa_freed ht \<and> oa_size ht' = oa_size ht"

lemma ohash_rehash_ok:
  assumes inv: "oash_inv ht" and cap: "oa_cap ht \<le> 32768"
  shows "\<exists>ht'. ohash_rehash e ht = Inr ht' \<and> same_table ht ht' \<and> oa_cap ht' = 2 * oa_cap ht \<and>
    oa_data ht' = oa_data ht @ replicate (oa_cap ht) None"
proof -
  obtain m where m: "0 < m" "m \<le> 16" "oa_cap ht = 2 ^ m" using inv by (auto simp: oash_inv_def)
  then have m': "Suc m \<le> 16" using cap power_strict_increasing_iff [of 2 15 m] by (cases "m = 16") auto
  let ?P = "entries (oa_table ht)" and ?c = "2 * oa_cap ht"
  have len: "length (oa_table ht) = oa_cap ht" "1 < oa_cap ht" "oa_dcap ht = oa_cap ht"
    "length (oa_data ht) = oa_cap ht" "oa_size ht = length ?P"
    and ok: "data_ok (oa_data ht) ?P"
    using inv oash_inv_cap [OF inv] by (auto simp: oash_inv_def)
  define data where "data = oa_data ht @ replicate (oa_cap ht) None"
  define h where "h = ht\<lparr>oa_data := data, oa_dcap := ?c, oa_table := replicate ?c no_entry, oa_cap := ?c, oa_size := 0\<rparr>"
  note grow = data_ok_grow [OF ok, of "oa_cap ht"]
  have re: "ohash_rehash e ht = put_entries e h (oa_table ht)"
    using len by (simp add: ohash_rehash_def realloc_data_def Let_def h_def data_def)
  have "\<forall>p\<in>set (entries (oa_table h) @ ?P). pl_di p < length (oa_data h) \<and> oa_data h ! pl_di p \<noteq> None"
    using grow(1) by (simp add: h_def data_def data_ok_def pl_ok_def)
  moreover have "length ?P < 2 * oa_cap ht"
    using len length_filter_le [of used "oa_table ht"] by (simp add: entries_def)
  ultimately obtain T where T: "put_entries e h (oa_table ht) =
      Inr (h\<lparr>oa_table := T, oa_size := oa_size h + length ?P\<rparr>)"
    "rh_inv ?c T" "mset (entries T) = mset ?P"
    using put_entries_ok [of h "Suc m" "oa_table ht" e] m m' len rh_inv_empty [of ?c]
    by (auto simp: h_def)
  define h2 where "h2 = h\<lparr>oa_table := T, oa_size := oa_size h + length ?P\<rparr>"
  have "\<exists>m. 0 < m \<and> m \<le> 16 \<and> oa_cap h2 = 2 ^ m"
    using m m' by (intro exI [of _ "Suc m"]) (simp add: h2_def h_def)
  moreover have "length (entries T) = length ?P" using T(3) by (rule mset_eq_length)
  ultimately have inv2: "oash_inv h2"
    using T(2) len data_ok_mset [OF T(3), of data] grow(1)
    by (simp add: oash_inv_def h2_def h_def data_def)
  have "map_of (oash_list h2) = map_of (map (pl_pair data) ?P)"
    using oash_keys_distinct [OF inv2] T(3) unfolding oash_list_def
    by (intro map_of_mset) (simp_all add: h2_def h_def)
  then have "oash_map h2 = oash_map ht"
    using grow(2) by (simp add: oash_map_def oash_list_def data_def)
  with inv2 show ?thesis
    by (intro exI [of _ h2]) (simp add: re T(1) h2_def [symmetric] same_table_def,
        simp add: h2_def h_def oash_conf_def len(5) data_def)
qed

section \<open>Putting\<close>

text \<open>The table grows only where the doubled probe distances still fit into \<open>psl\<close>.\<close>

definition may_grow :: "tn_oash \<Rightarrow> bool" where
  "may_grow ht \<longleftrightarrow> (oa_has ht TN_HASH_REHASH \<longrightarrow>
     oa_cap ht - (oa_size ht + 1) \<le> oa_cap ht div 3 \<longrightarrow> oa_cap ht \<le> 32768)"

definition put_hash :: "bytes \<Rightarrow> 32 word \<Rightarrow> bool" where
  "put_hash k h \<longleftrightarrow> h = 0 \<or> h = oash_hash k"

definition freed_by :: "tn_oash \<Rightarrow> ptr \<Rightarrow> ptr list" where
  "freed_by ht p = (if p \<noteq> NULL \<and> oa_free_fn ht \<noteq> None then [p] else [])"

lemma n_oash_put_start:
  assumes "key_ok k" "put_hash k h" "oa_size ht < oa_cap ht"
  shows "n_oash_put e ht k h p mode = put_entry_and_data e ht k (oash_hash k) p mode"
  using assms by (auto simp: n_oash_put_def key_ok_def put_hash_def n_oash_compute_hash_def)

lemma n_oash_put_absent:
  assumes inv: "oash_inv ht" and k: "key_ok k" "put_hash k h" and new: "oash_map ht k = None"
    and room: "oa_size ht < oa_cap ht" "may_grow ht" and nc: "no_clash (insert k (keys_of ht))"
  shows "\<exists>ht' c. n_oash_put e ht k h p mode = Inr (ht', Some c) \<and> oash_inv ht' \<and>
    oash_map ht' = (oash_map ht)(k \<mapsto> p) \<and> oash_conf ht' = oash_conf ht \<and> oa_freed ht' = oa_freed ht \<and>
    oa_size ht' = oa_size ht + 1 \<and>
    oa_cap ht' = (if oa_has ht TN_HASH_REHASH \<and> oa_cap ht - oa_size ht' \<le> oa_cap ht div 3
                  then 2 * oa_cap ht else oa_cap ht) \<and>
    c < length (oa_data ht') \<and> oa_data ht' ! c = Some \<lparr>de_data = p, de_key = k\<rparr>"
proof -
  let ?x = "\<lparr>te_hash = oash_hash k, te_psl = 0, te_klen = length k mod 65536, te_di = 0\<rparr>"
  obtain T r c ht2 where P: "n_oash_put_entry e ht ?x (Some k) =
        Inr (ht\<lparr>oa_table := T, oa_size := oa_size ht + 1\<rparr>, Some r, False)"
    "put_new e (ht\<lparr>oa_table := T, oa_size := oa_size ht + 1\<rparr>) k p r =
      rbind (if oa_has ht2 TN_HASH_REHASH \<and> oa_cap ht2 - oa_size ht2 \<le> oa_cap ht2 div 3
             then ohash_rehash e ht2 else Inr ht2) (\<lambda>ht. Inr (ht, Some c))"
    "oash_inv ht2" "oash_map ht2 = (oash_map ht)(k \<mapsto> p)" "oash_conf ht2 = oash_conf ht"
    "oa_freed ht2 = oa_freed ht" "oa_cap ht2 = oa_cap ht" "oa_size ht2 = oa_size ht + 1"
    "c < length (oa_data ht2)" "oa_data ht2 ! c = Some \<lparr>de_data = p, de_key = k\<rparr>"
    using put_place [OF inv k(1) new room(1) nc, of e p] by blast
  have start: "n_oash_put e ht k h p mode = put_new e (ht\<lparr>oa_table := T, oa_size := oa_size ht + 1\<rparr>) k p r"
    using P(1) by (simp add: n_oash_put_start [OF k room(1)] put_entry_and_data_def)
  show ?thesis
  proof (cases "oa_has ht2 TN_HASH_REHASH \<and> oa_cap ht2 - oa_size ht2 \<le> oa_cap ht2 div 3")
    case True
    have "oa_cap ht2 \<le> 32768" using True room(2) oash_conf_has [OF P(5)] P(7,8) by (simp add: may_grow_def)
    from ohash_rehash_ok [OF P(3) this, of e] obtain ht3 where
      "ohash_rehash e ht2 = Inr ht3" "same_table ht2 ht3" "oa_cap ht3 = 2 * oa_cap ht2"
      "oa_data ht3 = oa_data ht2 @ replicate (oa_cap ht2) None" by blast
    with True P start oash_conf_has [OF P(5)] show ?thesis
      by (intro exI [of _ ht3]) (simp add: same_table_def nth_append)
  next
    case False
    with P start oash_conf_has [OF P(5)] show ?thesis by (intro exI [of _ ht2]) auto
  qed
qed

text \<open>Other data at a key that is there.\<close>

lemma data_ok_replace:
  fixes data :: "dentry option list" and c :: nat and d :: dentry and p :: ptr
  assumes ok: "data_ok data P" and c: "c < length data" "data ! c = Some d"
  defines "data' \<equiv> data[c := Some (d\<lparr>de_data := p\<rparr>)]"
  shows "data_ok data' P" "map (pl_pair data') P =
    map (\<lambda>x. (pl_key data x, if pl_di x = c then p else de_data (the (data ! pl_di x)))) P"
proof -
  have some: "data' ! j \<noteq> None \<longleftrightarrow> data ! j \<noteq> None" for j
    using c by (cases "j = c") (simp_all add: data'_def)
  have len: "length data' = length data" by (simp add: data'_def)
  have key: "pl_key data' x = pl_key data x" for x
    using c by (cases "pl_di x = c") (simp_all add: data'_def pl_key_def)
  have "pl_ok data' x = pl_ok data x" for x by (simp only: pl_ok_def key some len)
  moreover have "pl_key data' = pl_key data" using key by (rule ext)
  ultimately show "data_ok data' P" using ok by (simp only: data_ok_def some len simp_thms) blast
  show "map (pl_pair data') P =
      map (\<lambda>x. (pl_key data x, if pl_di x = c then p else de_data (the (data ! pl_di x)))) P"
  proof (rule map_cong [OF refl])
    fix x
    show "pl_pair data' x = (pl_key data x, if pl_di x = c then p else de_data (the (data ! pl_di x)))"
      unfolding pl_pair_def key using c by (cases "pl_di x = c") (simp_all add: data'_def)
  qed
qed

lemma put_found_replace:
  assumes inv: "oash_inv ht" and j: "holds_key ht k j"
  shows "\<exists>ht'. put_found ht j p Put_Replace = Inr (ht', Some (te_di (oa_table ht ! j))) \<and> oash_inv ht' \<and>
    oash_map ht' = (oash_map ht)(k \<mapsto> p) \<and> oash_conf ht' = oash_conf ht \<and>
    oa_freed ht' = oa_freed ht @ freed_by ht (the (oash_map ht k)) \<and>
    oa_size ht' = oa_size ht \<and> oa_cap ht' = oa_cap ht"
proof -
  let ?c = "te_di (oa_table ht ! j)" and ?P = "entries (oa_table ht)"
  obtain d where d: "get_dentry (oa_data ht) (oa_table ht ! j) = Inr d" "oa_data ht ! ?c = Some d"
    "oash_map ht k = Some (de_data d)" "de_key d = k" "?c < length (oa_data ht)" "j < length (oa_table ht)"
    using slot_dentry [OF inv j] by blast
  define data where "data = (oa_data ht)[?c := Some (d\<lparr>de_data := p\<rparr>)]"
  define ht' where "ht' = (oa_free ht (de_data d))\<lparr>oa_data := data\<rparr>"
  have sel: "oa_table ht' = oa_table ht" "oa_cap ht' = oa_cap ht" "oa_size ht' = oa_size ht"
    "oa_dcap ht' = oa_dcap ht" "oa_data ht' = data" "oash_conf ht' = oash_conf ht"
    "oa_freed ht' = oa_freed ht @ freed_by ht (de_data d)"
    by (simp_all add: ht'_def oa_free_def oash_conf_def freed_by_def)
  have ok: "data_ok (oa_data ht) ?P" using inv by (simp add: oash_inv_def)
  note rep = data_ok_replace [OF ok d(5,2), of p, folded data_def]
  have inv': "oash_inv ht'" using inv rep(1) by (simp add: oash_inv_def sel) (simp add: data_def)
  have "oash_map ht' k' = ((oash_map ht)(k \<mapsto> p)) k'" for k'
  proof (cases "k' = k")
    case True
    have "holds_key ht' k j" using j d by (auto simp: holds_key_def slot_key_def pl_key_def sel data_def
        pl_di_def payload_def nth_list_update)
    with slot_dentry [OF inv' this] True d(5) show ?thesis by (simp add: sel data_def)
  next
    case False
    have key: "slot_key ht' = slot_key ht" using d(2,5)
      by (auto simp: slot_key_def pl_key_def sel data_def nth_list_update fun_eq_iff)
    have hk: "holds_key ht' = holds_key ht" by (simp add: holds_key_def key sel fun_eq_iff)
    have "data ! te_di (oa_table ht ! i) = oa_data ht ! te_di (oa_table ht ! i)" if "holds_key ht k' i" for i
    proof -
      have "te_di (oa_table ht ! i) \<noteq> ?c" using slot_dentry [OF inv that] d False by auto
      then show ?thesis by (simp add: data_def)
    qed
    then have "oash_map ht' k' = Some q \<longleftrightarrow> oash_map ht k' = Some q" for q
      unfolding oash_map_Some [OF inv] oash_map_Some [OF inv'] hk sel by auto
    then have "oash_map ht' k' = oash_map ht k'" by (metis not_None_eq)
    then show ?thesis using False by simp
  qed
  then have "oash_map ht' = (oash_map ht)(k \<mapsto> p)" by (rule ext)
  with d inv' sel show ?thesis
    by (intro exI [of _ ht']) (simp add: put_found_def mem_read_def ht'_def data_def)
qed

lemma put_found_keep:
  assumes "oash_inv ht" "holds_key ht k j" "mode \<noteq> Put_Replace"
  shows "put_found ht j p mode = Inr (ht, Some (te_di (oa_table ht ! j)))"
  using slot_dentry [OF assms(1,2)] assms(3) by (auto simp: put_found_def mem_read_def)

lemma n_oash_put_present:
  assumes inv: "oash_inv ht" and k: "key_ok k" "put_hash k h" and j: "holds_key ht k j"
  shows "n_oash_put e ht k h p mode =
    (if mode = Put_Die then trurl_die e ''key already in table'' (Inr (ht, None)) else put_found ht j p mode)"
  using put_entry_present [OF inv k(1) j] get_entry_Some [OF inv j] k
  by (auto simp: n_oash_put_def put_entry_and_data_def key_ok_def put_hash_def n_oash_compute_hash_def)

lemma n_oash_put_full:
  assumes inv: "oash_inv ht" and k: "key_ok k" "put_hash k h" and new: "oash_map ht k = None"
    and full: "oa_size ht = oa_cap ht"
  shows "n_oash_put e ht k h p mode =
    (if oa_has ht TN_HASH_REHASH
     then rbind (ohash_rehash e ht) (\<lambda>ht. if mode = Put_Die
        then put_entry_and_data e ht k (oash_hash k) p mode else Inl Mem_Fault)
     else if mode = Put_Die then trurl_die e ''n_oash: table is full'' (Inr (ht, None)) else Inr (ht, None))"
proof -
  have "\<nexists>j. holds_key ht k j" using oash_map_None [OF inv] new by blast
  from get_entry_None [OF inv this] show ?thesis
    using k full by (auto simp: n_oash_put_def key_ok_def put_hash_def n_oash_compute_hash_def)
qed

section \<open>Removing\<close>

lemma data_ok_remove:
  fixes data :: "dentry option list" and q :: "32 word \<times> nat \<times> nat"
  assumes "data_ok data (q # P)"
  defines "data' \<equiv> data[pl_di q := None]"
  shows "data_ok data' P" "map (pl_pair data') P = map (pl_pair data) P" "pl_key data q \<notin> pl_key data ` set P"
proof -
  have q: "pl_di q < length data" using assms(1) by (simp add: data_ok_def pl_ok_def)
  have nq: "pl_di q \<notin> pl_di ` set P" using assms(1) by (simp add: data_ok_def)
  then have ne: "pl_di x \<noteq> pl_di q" if "x \<in> set P" for x using that by (metis imageI)
  have key: "pl_key data' x = pl_key data x" "pl_pair data' x = pl_pair data x" if "x \<in> set P" for x
    using ne [OF that] by (simp_all add: data'_def pl_key_def pl_pair_def)
  have ok: "pl_ok data' x" if "x \<in> set P" for x
    using assms(1) that key [OF that] ne [OF that] by (simp add: data_ok_def pl_ok_def data'_def)
  have d: "distinct (map (pl_key data') P)" using assms(1) key by (simp add: data_ok_def cong: map_cong)
  have "data' ! j \<noteq> None \<longleftrightarrow> j \<noteq> pl_di q \<and> data ! j \<noteq> None" for j
    using q by (cases "j = pl_di q") (simp_all add: data'_def)
  then have "{j. j < length data' \<and> data' ! j \<noteq> None} = {j. j < length data \<and> data ! j \<noteq> None} - {pl_di q}"
    by (simp only: data'_def length_list_update) blast
  also have "\<dots> = pl_di ` set (q # P) - {pl_di q}" using assms(1) by (simp only: data_ok_def)
  also have "\<dots> = pl_di ` set P" using nq by auto
  finally have "{j. j < length data' \<and> data' ! j \<noteq> None} = pl_di ` set P" .
  with ok d assms(1) show "data_ok data' P" by (simp only: data_ok_def) simp
  show "map (pl_pair data') P = map (pl_pair data) P" using key by simp
  show "pl_key data q \<notin> pl_key data ` set P" using assms(1) by (simp add: data_ok_def)
qed

lemma n_oash_remove_absent:
  assumes "oash_inv ht" "key_ok k" "oash_map ht k = None"
  shows "n_oash_remove e ht k = Inr (ht, NULL)"
proof -
  have "\<nexists>j. holds_key ht k j" using oash_map_None [OF assms(1)] assms(3) by blast
  from get_entry_None [OF assms(1) this] show ?thesis
    using assms(2) by (simp add: n_oash_remove_def n_oash_compute_hash_def key_ok_def)
qed

lemma n_oash_remove_present:
  assumes inv: "oash_inv ht" and k: "key_ok k" and p: "oash_map ht k = Some p"
  shows "\<exists>ht'. n_oash_remove e ht k = Inr (ht', p) \<and> oash_inv ht' \<and> oash_map ht' = (oash_map ht)(k := None) \<and>
    oash_conf ht' = oash_conf ht \<and> oa_freed ht' = oa_freed ht \<and> oa_cap ht' = oa_cap ht \<and>
    oa_size ht' + 1 = oa_size ht"
proof -
  let ?T = "oa_table ht" and ?data = "oa_data ht"
  have rh: "rh_inv (oa_cap ht) ?T" using inv by (simp add: oash_inv_def)
  obtain j where j: "holds_key ht k j" using oash_map_dom [OF inv, of k] p by auto
  then have jj: "j < oa_cap ht" "used (?T ! j)" "slot_key ht j = k" by (auto simp: holds_key_def)
  let ?q = "payload (?T ! j)"
  note f = slot_facts [OF inv jj(1,2)]
  obtain d where d: "get_dentry ?data (?T ! j) = Inr d" "de_data d = p" "j < length ?T"
    using slot_dentry [OF inv j] p by auto
  obtain T' h where T: "shift_back (oa_cap ht) ?T j ((j + 1) mod oa_cap ht) = Inr (T', h)" "h < oa_cap ht"
    "length T' = oa_cap ht" "rh_inv (oa_cap ht) (emptied T' h)"
    "mset (entries (emptied T' h)) = mset (entries (emptied ?T j))"
    using shift_back_ok [OF hole_start [OF rh jj(1)] refl oash_inv_tindex [OF inv]] by blast
  define E where "E = emptied T' h"
  define ht' where "ht' = ht\<lparr>oa_table := E, oa_data := ?data[pl_di ?q := None],
    oa_dsize := oa_dsize ht - 1, oa_size := oa_size ht - 1\<rparr>"
  have ent: "mset (entries ?T) = mset (?q # entries E)"
    using entries_clear [OF d(3) jj(2), of "(?T ! j)\<lparr>te_hash := 0\<rparr>"] T(5)
    by (simp add: E_def emptied_def)
  have "data_ok ?data (?q # entries E)" using inv data_ok_mset [OF ent] by (simp add: oash_inv_def)
  note rem = data_ok_remove [OF this]
  have len: "length (entries ?T) = Suc (length (entries E))" using mset_eq_length [OF ent] by simp
  then have inv': "oash_inv ht'"
    using inv rem(1) T(4) by (simp add: oash_inv_def ht'_def E_def [symmetric])
  have kq: "pl_key ?data ?q = k" using jj(3) by (simp add: slot_key_def)
  have "oash_map ht = map_of (map (pl_pair ?data) (?q # entries E))"
    unfolding oash_map_def oash_list_def
    using oash_keys_distinct [OF inv] ent by (intro map_of_mset) (simp_all add: oash_list_def)
  moreover have "map_of (map (pl_pair ?data) (entries E)) k = None"
    using rem(3) kq by (auto simp: map_of_eq_None_iff pl_pair_def image_iff)
  moreover have "oash_map ht' = map_of (map (pl_pair ?data) (entries E))"
    unfolding rem(2) [symmetric] by (simp add: oash_map_def oash_list_def ht'_def)
  moreover have "pl_pair ?data ?q = (k, p)"
    using kq d(1,2) get_dentry_has [OF f(2)] by (simp add: pl_pair_def pl_di_def payload_def)
  ultimately have "oash_map ht' = (oash_map ht)(k := None)"
    by (simp only: list.map map_of.simps fst_conv snd_conv) (simp add: fun_eq_iff)
  moreover have "n_oash_remove e ht k = Inr (ht', p)"
    using get_entry_Some [OF inv j] T(1) d k f(4) jj(3)
    by (simp add: n_oash_remove_def n_oash_compute_hash_def key_ok_def oash_inv_tindex [OF inv] Let_def
        ht'_def E_def emptied_def pl_di_def payload_def slot_key_def)
  moreover have "oa_size ht' + 1 = oa_size ht" using inv len by (simp add: ht'_def oash_inv_def)
  ultimately show ?thesis using inv' by (intro exI [of _ ht']) (simp add: ht'_def oash_conf_def)
qed

section \<open>The dictionary contract\<close>

definition oash_put_s :: "env \<Rightarrow> tn_oash \<Rightarrow> bytes \<Rightarrow> ptr \<Rightarrow> tn_oash result" where
  "oash_put_s e ht k p = rbind (n_oash_replace e ht k p) (\<lambda>(ht, _). Inr ht)"

text \<open>A growing table, replacing allowed, with keys from a set without clashes.\<close>

definition oash_plain :: "bytes set \<Rightarrow> tn_oash \<Rightarrow> bool" where
  "oash_plain K ht \<longleftrightarrow> oash_inv ht \<and> oa_has ht TN_HASH_REHASH \<and> \<not> oa_has ht TN_HASH_NOREPLACE \<and>
     oa_size ht < oa_cap ht \<and> no_clash K \<and> keys_of ht \<subseteq> K"

lemma no_clash_mono: "no_clash K \<Longrightarrow> L \<subseteq> K \<Longrightarrow> no_clash L"
  unfolding no_clash_def by blast

lemma oash_size_card: "oash_inv ht \<Longrightarrow> oa_size ht = card (dom (oash_map ht))"
proof -
  assume inv: "oash_inv ht"
  have "dom (oash_map ht) = set (map fst (oash_list ht))"
    by (simp add: oash_map_def dom_map_of_conv_image_fst)
  then have "card (dom (oash_map ht)) = length (oash_list ht)"
    using distinct_card [OF oash_keys_distinct [OF inv]] by simp
  then show ?thesis using inv by (simp add: oash_list_def oash_inv_def)
qed

interpretation oashd: dict "n_oash_get e" "oash_put_s e" "n_oash_remove e" oash_map "oash_plain K"
    "\<lambda>k. key_ok k \<and> k \<in> K" 32768 for e K
proof (unfold_locales, goal_cases)
  case (1 ht k)
  then show ?case using n_oash_get_ok by (simp add: oash_plain_def)
next
  case (2 ht k p)
  then have pl: "oash_inv ht" "oa_has ht TN_HASH_REHASH" "\<not> oa_has ht TN_HASH_NOREPLACE"
    "oa_size ht < oa_cap ht" "no_clash K" "keys_of ht \<subseteq> K" by (simp_all add: oash_plain_def)
  have put: "oash_put_s e ht k p = rbind (n_oash_put e ht k 0 p Put_Replace) (\<lambda>(ht, _). Inr ht)"
    using pl(3) by (simp add: oash_put_s_def n_oash_replace_def n_oash_hreplace_def rbind_assoc split_def)
  have dom: "keys_of ht' \<subseteq> K" if "oash_map ht' = (oash_map ht)(k \<mapsto> p)" for ht'
    using that pl(6) 2(2) by (auto simp: keys_of_def)
  show ?case
  proof (cases "oash_map ht k")
    case None
    have cap: "oa_cap ht - (oa_size ht + 1) \<le> oa_cap ht div 3 \<Longrightarrow> oa_cap ht \<le> 32768"
    proof -
      assume a: "oa_cap ht - (oa_size ht + 1) \<le> oa_cap ht div 3"
      obtain m where m: "m \<le> 16" "oa_cap ht = 2 ^ m" using pl(1) by (auto simp: oash_inv_def)
      have "oa_size ht < 32768" using 2(3) oash_size_card [OF pl(1)] by simp
      with a m show ?thesis using power_increasing [of m 15 "2::nat"] by (cases "m = 16") auto
    qed
    have nc: "no_clash (insert k (keys_of ht))"
      using pl(5) no_clash_mono [of K "insert k (keys_of ht)"] pl(6) 2(2) by blast
    obtain ht' c where ht': "n_oash_put e ht k 0 p Put_Replace = Inr (ht', Some c)" "oash_inv ht'"
      "oash_map ht' = (oash_map ht)(k \<mapsto> p)" "oash_conf ht' = oash_conf ht" "oa_size ht' = oa_size ht + 1"
      "oa_cap ht' = (if oa_has ht TN_HASH_REHASH \<and> oa_cap ht - oa_size ht' \<le> oa_cap ht div 3
                     then 2 * oa_cap ht else oa_cap ht)"
      using n_oash_put_absent [OF pl(1) _ _ None pl(4) _ nc, of 0 e p Put_Replace] 2(2) cap
      by (auto simp: put_hash_def may_grow_def)
    have "oa_size ht' < oa_cap ht'" using ht'(5,6) pl(2,4) by (auto split: if_splits)
    then have "oash_plain K ht'"
      using ht'(2) pl dom [OF ht'(3)] oash_conf_has [OF ht'(4)] by (simp add: oash_plain_def)
    then show ?thesis using ht'(1,3) put by simp
  next
    case (Some q)
    obtain j where j: "holds_key ht k j" using oash_map_dom [OF pl(1), of k] Some by auto
    have "n_oash_put e ht k 0 p Put_Replace = put_found ht j p Put_Replace"
      using n_oash_put_present [OF pl(1) _ _ j, of 0] 2(2) by (simp add: put_hash_def)
    with put_found_replace [OF pl(1) j, of p] obtain ht' where ht':
      "n_oash_put e ht k 0 p Put_Replace = Inr (ht', Some (te_di (oa_table ht ! j)))" "oash_inv ht'"
      "oash_map ht' = (oash_map ht)(k \<mapsto> p)" "oash_conf ht' = oash_conf ht" "oa_size ht' = oa_size ht"
      "oa_cap ht' = oa_cap ht" by auto
    then have "oash_plain K ht'"
      using pl dom [OF ht'(3)] oash_conf_has [OF ht'(4)] by (simp add: oash_plain_def)
    then show ?thesis using ht'(1,3) put by simp
  qed
next
  case (3 ht k)
  then have pl: "oash_inv ht" by (simp add: oash_plain_def)
  show ?case
  proof (cases "oash_map ht k")
    case None
    then have "(oash_map ht)(k := None) = oash_map ht" by auto
    then show ?thesis using n_oash_remove_absent [OF pl _ None, of e] 3 None by simp
  next
    case (Some q)
    from n_oash_remove_present [OF pl _ Some, of e] 3(2) obtain ht' where ht':
      "n_oash_remove e ht k = Inr (ht', q)" "oash_inv ht'" "oash_map ht' = (oash_map ht)(k := None)"
      "oash_conf ht' = oash_conf ht" "oa_cap ht' = oa_cap ht" "oa_size ht' + 1 = oa_size ht" by auto
    have "keys_of ht' \<subseteq> keys_of ht" using ht'(3) by (auto simp: keys_of_def)
    then have "oash_plain K ht'"
      using 3(1) ht' oash_conf_has [OF ht'(4)] unfolding oash_plain_def by auto
    then show ?thesis using ht' Some by simp
  qed
next
  case 4
  then show ?case by (simp add: oash_map_def finite_dom_map_of)
qed

section \<open>Properties\<close>

lemma rsize_pow: "\<exists>m\<ge>a. rsize_loop (2 ^ a) n = 2 ^ m"
proof (induction "2 ^ a :: nat" n arbitrary: a rule: rsize_loop.induct)
  case (1 n)
  show ?case
  proof (cases "2 ^ a < n")
    case True
    from 1 [of "Suc a"] True obtain m where "m \<ge> Suc a" "rsize_loop (2 ^ Suc a) n = 2 ^ m" by auto
    then show ?thesis using True by (intro exI [of _ m]) (simp add: rsize_loop.simps [of "2 ^ a" n])
  next
    case False
    then show ?thesis by (intro exI [of _ a]) (simp add: rsize_loop.simps [of "2 ^ a" n])
  qed
qed

text \<open>A new table, of a power of two of slots.\<close>

lemma new_oash:
  assumes "n \<le> 2 ^ 16" "n_oash_new_ex e n freefn False = Inr ht0" "n_oash_ctl e ht0 flags = Inr (ht, 1)"
  shows "oash_inv ht" "oash_map ht = Map.empty" "oa_flags ht = flags" "oa_size ht = 0" "oa_na ht = False"
    "oa_free_fn ht = freefn" "oa_freed ht = []" "4 \<le> oa_cap ht"
proof -
  obtain m where m: "2 \<le> m" "rsize_loop 4 n = 2 ^ m" using rsize_pow [of 2 n] by auto
  have r: "4 \<le> rsize_loop 4 n" "rsize_loop 4 n = 4 \<or> rsize_loop 4 n < 2 ^ 17"
    using rsize_loop_ok [of 4 n] assms(1) by auto
  have "m \<le> 16"
  proof (rule ccontr)
    assume "\<not> m \<le> 16"
    then have "(2::nat) ^ 17 \<le> 2 ^ m" by (intro power_increasing) auto
    with r(2) m(2) show False by auto
  qed
  then have small: "rsize_loop 4 n \<le> 65536" using m(2) power_increasing [of m 16 "2::nat"] by simp
  have ht: "ht = \<lparr>oa_refcnt = 0, oa_flags = flags, oa_cap = 2 ^ m, oa_table = replicate (2 ^ m) no_entry,
      oa_size = 0, oa_dcap = 2 ^ m, oa_data = replicate (2 ^ m) None, oa_dsize = 0,
      oa_free_fn = freefn, oa_na = False, oa_freed = []\<rparr>"
    using assms(2,3) small m(2)
    by (auto simp: n_oash_new_ex_def ohash_new2_def ohash_new_ex_def n_oash_ctl_def)
  have "rh_inv (2 ^ m) (replicate (2 ^ m) no_entry)" using r m(2) by (intro rh_inv_empty) simp
  then show "oash_inv ht" using m \<open>m \<le> 16\<close> by (auto simp: ht oash_inv_def data_ok_def)
  show "oash_map ht = Map.empty" by (simp add: ht oash_map_def oash_list_def)
  show "oa_flags ht = flags" "oa_size ht = 0" "oa_na ht = False" "oa_free_fn ht = freefn"
    "oa_freed ht = []" "4 \<le> oa_cap ht" using m r by (simp_all add: ht)
qed



text \<open>A full table that may not grow: looking for a free slot for a new key ends without
  touching the table; \<open>n_oash_get_insert\<close> and \<open>n_oash_replace\<close> give \<open>NULL\<close>, \<open>n_oash_insert\<close>
  is a fatal error, and a key that is there is still found and replaced.\<close>

theorem n_oash_full_table:
  assumes "oash_inv ht" "\<not> oa_has ht TN_HASH_REHASH" "\<not> oa_has ht TN_HASH_NOREPLACE"
    "oa_size ht = oa_cap ht" "key_ok k" "oash_map ht k = None" "key_ok k'" "oash_map ht k' = Some q"
  shows "n_oash_get_insert e ht k = Inr (ht, None) \<and> n_oash_replace e ht k p = Inr (ht, False) \<and>
    n_oash_insert e ht k p = trurl_die e ''n_oash: table is full'' (Inr (ht, False)) \<and>
    (\<exists>ht'. n_oash_replace e ht k' p = Inr (ht', True) \<and> oash_inv ht' \<and>
      oash_map ht' = (oash_map ht)(k' \<mapsto> p) \<and> oa_freed ht' = oa_freed ht @ freed_by ht q)"
proof -
  have h0: "put_hash x 0" for x by (simp add: put_hash_def)
  obtain j where j: "holds_key ht k' j" using oash_map_dom [OF assms(1), of k'] assms(8) by auto
  from put_found_replace [OF assms(1) j, of p] assms(8) obtain ht' where
    "put_found ht j p Put_Replace = Inr (ht', Some (te_di (oa_table ht ! j)))" "oash_inv ht'"
    "oash_map ht' = (oash_map ht)(k' \<mapsto> p)" "oa_freed ht' = oa_freed ht @ freed_by ht q" by auto
  with n_oash_put_present [OF assms(1,7) h0 j] n_oash_put_full [OF assms(1,5) h0 assms(6,4)] assms(2,3)
  show ?thesis
    by (auto simp: n_oash_get_insert_def n_oash_replace_def n_oash_hreplace_def n_oash_insert_def trurl_die_def)
qed

text \<open>Two keys in a table of two slots, made with a hash function of the caller's.\<close>

lemma two_slots:
  "\<exists>ht. oash_inv ht \<and> oa_flags ht = 0 \<and> oa_size ht = oa_cap ht \<and> oa_na ht = False \<and> oa_free_fn ht = Some 0 \<and>
     oa_freed ht = [] \<and> oash_map ht = [[97] \<mapsto> 5, [97, 98] \<mapsto> 6]"
proof -
  define h0 where "h0 = \<lparr>oa_refcnt = 0, oa_flags = 0, oa_cap = 2, oa_table = replicate 2 no_entry,
     oa_size = 0, oa_dcap = 2, oa_data = replicate 2 None, oa_dsize = 0,
     oa_free_fn = Some 0, oa_na = False, oa_freed = []\<rparr>"
  have inv: "oash_inv h0"
    using rh_inv_empty [of 2] by (auto simp: oash_inv_def h0_def data_ok_def intro!: exI [of _ 1])
  have m0: "oash_map h0 = Map.empty" by (simp add: oash_map_def oash_list_def h0_def)
  have grow: "may_grow h" if "oash_conf h = oash_conf h0" for h
    using oash_conf_has [OF that] by (simp add: may_grow_def oa_has_def h0_def)
  have nc: "no_clash {[97], [97, 98]}" by (auto simp: no_clash_def)
  obtain h1 c1 where h1: "n_oash_put plain_env h0 [97] 0 5 Put_Die = Inr (h1, Some c1)" "oash_inv h1"
    "oash_map h1 = [[97] \<mapsto> 5]" "oash_conf h1 = oash_conf h0" "oa_freed h1 = oa_freed h0"
    "oa_size h1 = 1" "oa_cap h1 = 2"
    using n_oash_put_absent [OF inv _ _ _ _ grow [OF refl], of "[97]" 0 plain_env 5 Put_Die] m0
      no_clash_mono [OF nc, of "{[97]}"]
    by (auto simp: key_ok_def put_hash_def keys_of_def h0_def oa_has_def)
  obtain h2 c2 where "n_oash_put plain_env h1 [97, 98] 0 6 Put_Die = Inr (h2, Some c2)" "oash_inv h2"
    "oash_map h2 = [[97] \<mapsto> 5, [97, 98] \<mapsto> 6]" "oash_conf h2 = oash_conf h0" "oa_freed h2 = oa_freed h0"
    "oa_size h2 = 2" "oa_cap h2 = 2"
    using n_oash_put_absent [OF h1(2) _ _ _ _ grow [OF h1(4)], of "[97, 98]" 0 plain_env 6 Put_Die] h1
      no_clash_mono [OF nc, of "{[97, 98], [97]}"] oash_conf_has [OF h1(4)]
    by (auto simp: key_ok_def put_hash_def keys_of_def h0_def oa_has_def)
  then show ?thesis by (intro exI [of _ h2]) (simp add: oash_conf_def h0_def)
qed

lemma n_oash_full_table_witness:
  "\<exists>ht ht'. oa_size ht = oa_cap ht \<and> n_oash_get_insert plain_env ht [99] = Inr (ht, None) \<and>
    n_oash_insert plain_env ht [99] 7 = Inl (Died ''n_oash: table is full'') \<and>
    n_oash_replace plain_env ht [97] 7 = Inr (ht', True) \<and> oa_freed ht' = [5]"
proof -
  obtain ht where ht: "oash_inv ht" "oa_flags ht = 0" "oa_size ht = oa_cap ht" "oa_free_fn ht = Some 0"
    "oa_freed ht = []" "oash_map ht = [[97] \<mapsto> 5, [97, 98] \<mapsto> 6]" using two_slots by blast
  from n_oash_full_table [OF ht(1) _ _ ht(3), of "[99]" "[97]" 5 plain_env 7] show ?thesis
    using ht by (auto simp: oa_has_def key_ok_def freed_by_def)
qed

section \<open>Walking, emptying, copying\<close>

lemma oash_walk_ok:
  "\<forall>p\<in>set (entries ts). pl_di p < length data \<and> data ! pl_di p \<noteq> None \<Longrightarrow>
   oash_walk data ts = Inr (map (\<lambda>t. (t, the (data ! te_di t))) (filter used ts))"
proof (induction ts)
  case (Cons t ts)
  show ?case
  proof (cases "used t")
    case True
    then have "has_dentry data t" using Cons.prems by (simp add: entries_Cons has_dentry_payload)
    from get_dentry_has [OF this] Cons True show ?thesis by (simp add: entries_Cons used_def)
  next
    case False
    with Cons show ?thesis by (simp add: entries_Cons used_def)
  qed
qed simp

lemma oash_inv_cells:
  "oash_inv ht \<Longrightarrow> \<forall>p\<in>set (entries (oa_table ht)). pl_di p < length (oa_data ht) \<and> oa_data ht ! pl_di p \<noteq> None"
  by (auto simp: oash_inv_def data_ok_def pl_ok_def)

lemma oash_walk_all_ok:
  assumes "oash_inv ht"
  shows "\<exists>es. oash_walk_all ht = Inr es \<and> map (\<lambda>(t, d). (de_key d, de_data d)) es = oash_list ht \<and>
    (\<forall>(t, d)\<in>set es. te_hash t = oash_hash (de_key d) \<and> key_ok (de_key d))"
proof -
  let ?es = "map (\<lambda>t. (t, the (oa_data ht ! te_di t))) (filter used (oa_table ht))"
  have "oash_walk_all ht = Inr ?es"
    using oash_walk_ok [OF oash_inv_cells [OF assms]] oash_inv_cap [OF assms]
    by (simp add: oash_walk_all_def)
  moreover have "map (\<lambda>(t, d). (de_key d, de_data d)) ?es = oash_list ht"
    by (simp add: oash_list_def entries_def pl_pair_def pl_key_def pl_di_def payload_def)
  moreover have "\<forall>(t, d)\<in>set ?es. te_hash t = oash_hash (de_key d) \<and> key_ok (de_key d)"
  proof -
    have "pl_ok (oa_data ht) (payload t)" if "t \<in> set (filter used (oa_table ht))" for t
      using assms that by (auto simp: oash_inv_def data_ok_def entries_def)
    then show ?thesis by (auto simp: pl_ok_def payload_def pl_key_def pl_di_def)
  qed
  ultimately show ?thesis by blast
qed

text \<open>The walks over the open-addressing table see every entry once: the keys are distinct, the
  pairs are those of the map, the count is \<open>n_oash_size\<close>, and the array of values has them in
  the same order.\<close>

theorem n_oash_walks_enumerate:
  assumes "oash_inv ht"
  shows "\<exists>ks kv a. n_oash_keys_ext ht = Inr ks \<and> distinct ks \<and> set ks = dom (oash_map ht) \<and>
    n_oash_map ht = Inr (kv, n_oash_size ht) \<and> map fst kv = ks \<and>
    (\<forall>k p. (k, p) \<in> set kv \<longleftrightarrow> oash_map ht k = Some p) \<and>
    n_oash_values e ht = Inr a \<and> array_wf a \<and> array_elems a = map snd kv"
proof -
  let ?kv = "oash_list ht"
  obtain es where es: "oash_walk_all ht = Inr es" "map (\<lambda>(t, d). (de_key d, de_data d)) es = ?kv"
    using oash_walk_all_ok [OF assms] by blast
  have keys: "map (\<lambda>(t, d). de_key d) es = map fst ?kv" "map (\<lambda>(t, d). de_data d) es = map snd ?kv"
    unfolding es(2) [symmetric] by (simp_all add: comp_def split_def)
  have d: "distinct (map fst ?kv)" by (rule oash_keys_distinct [OF assms])
  have n: "length es = oa_size ht"
    using arg_cong [OF es(2), of length] assms by (simp add: oash_list_def oash_inv_def)
  obtain a where a: "n_array_new e (int (oa_size ht)) None None = Inr a" "array_rep a []"
    "arr_start_index a = 0" "arr_flags a = 0"
    using n_array_new_ok [of "int (oa_size ht)" e None None] by auto
  have "array_plain a"
    using a array_rep_elems [OF a(2)] by (simp add: array_plain_rep arr_has_def)
  from arr.push_list_ok [OF this, of e "map snd ?kv"] array_rep_elems [OF a(2)]
  obtain a' where "push_all e a (map snd ?kv) = Inr a'" "array_plain a'" "array_elems a' = map snd ?kv"
    by (auto simp: push_all_list)
  then have "n_oash_values e ht = Inr a' \<and> array_wf a' \<and> array_elems a' = map snd ?kv"
    using a(1) es(1) keys(2) by (simp add: n_oash_values_def array_plain_def)
  moreover have "set (map fst ?kv) = dom (oash_map ht)"
    by (simp only: oash_map_def dom_map_of_conv_image_fst set_map)
  moreover have "\<forall>k p. (k, p) \<in> set ?kv \<longleftrightarrow> oash_map ht k = Some p"
    unfolding oash_map_def by (simp add: map_of_eq_Some_iff [OF d])
  moreover have "n_oash_keys_ext ht = Inr (map fst ?kv)" "n_oash_map ht = Inr (?kv, n_oash_size ht)"
    using es keys(1) n by (simp_all add: n_oash_keys_ext_def n_oash_map_def n_oash_size_def)
  ultimately show ?thesis using d by blast
qed

lemma n_oash_walks_enumerate_witness:
  "\<exists>ht ks. n_oash_keys_ext ht = Inr ks \<and> set ks = {[97], [97, 98]} \<and> distinct ks"
proof -
  obtain ht where ht: "oash_inv ht" "oash_map ht = [[97] \<mapsto> 5, [97, 98] \<mapsto> 6]" using two_slots by blast
  from n_oash_walks_enumerate [OF ht(1), of plain_env] show ?thesis unfolding ht(2)
    by (auto intro!: exI [of _ ht])
qed

text \<open>A run of calls of the iterator.\<close>

fun it_run :: "tn_oash \<Rightarrow> nat \<Rightarrow> nat \<Rightarrow> (nat \<times> (bytes \<times> ptr) list) result" where
  "it_run ht 0 pos = Inr (pos, [])"
| "it_run ht (Suc n) pos = rbind (n_oash_it_get ht pos) (\<lambda>(pos, r). case r of None \<Rightarrow> Inr (pos, [])
     | Some kp \<Rightarrow> rbind (it_run ht n pos) (\<lambda>(pos, kps). Inr (pos, kp # kps)))"

lemma it_skip_used: "i < length T \<Longrightarrow> used (T ! i) \<Longrightarrow> it_skip T cap i k = Inr i"
  by (cases k) (simp_all add: mem_read_def used_def)

lemma it_skip_bound: "it_skip T cap i k = Inr r \<Longrightarrow> r < length T"
  by (induction k arbitrary: i) (auto simp: mem_read_def split: if_splits)

lemma it_get_end: "length (oa_table ht) = oa_cap ht \<Longrightarrow> n_oash_it_get ht (oa_cap ht) = Inl Mem_Fault"
  by (simp add: n_oash_it_get_def mem_read_def)

lemma it_get_unused:
  assumes "pos < oa_cap ht" "\<not> used (oa_table ht ! pos)" "length (oa_table ht) = oa_cap ht"
  shows "n_oash_it_get ht pos = n_oash_it_get ht (Suc pos)"
proof -
  have "oa_cap ht - pos = Suc (oa_cap ht - Suc pos)" using assms(1) by simp
  then have "it_skip (oa_table ht) (oa_cap ht) pos (oa_cap ht - pos) =
      it_skip (oa_table ht) (oa_cap ht) (Suc pos) (oa_cap ht - Suc pos)"
    using assms by (simp add: mem_read_def used_def)
  then show ?thesis
    using it_skip_bound [of "oa_table ht" "oa_cap ht" "Suc pos" "oa_cap ht - Suc pos"] assms(3)
    by (cases "it_skip (oa_table ht) (oa_cap ht) (Suc pos) (oa_cap ht - Suc pos)")
      (simp_all add: n_oash_it_get_def)
qed

lemma it_run_unused:
  assumes "n_oash_it_get ht pos = n_oash_it_get ht (Suc pos)" "0 < n"
  shows "it_run ht n pos = it_run ht n (Suc pos)"
  using assms by (cases n) simp_all

lemma it_run_ok:
  assumes "oash_inv ht" "pos \<le> oa_cap ht"
  shows "\<exists>p. it_run ht (length (entries (drop pos (oa_table ht)))) pos =
      Inr (p, map (pl_pair (oa_data ht)) (entries (drop pos (oa_table ht)))) \<and>
    n_oash_it_get ht p = Inl Mem_Fault"
  using assms(2)
proof (induction "oa_cap ht - pos" arbitrary: pos)
  case 0
  have len: "length (oa_table ht) = oa_cap ht" using oash_inv_cap [OF assms(1)] by simp
  then show ?case using it_get_end [OF len] 0 by simp
next
  case (Suc n)
  let ?T = "oa_table ht"
  have len: "length ?T = oa_cap ht" "pos < oa_cap ht" using oash_inv_cap [OF assms(1)] Suc.hyps(2) by auto
  have dr: "drop pos ?T = ?T ! pos # drop (Suc pos) ?T" using len by (simp add: Cons_nth_drop_Suc)
  have n: "n = oa_cap ht - Suc pos" using Suc.hyps(2) by simp
  obtain p where p: "it_run ht (length (entries (drop (Suc pos) ?T))) (Suc pos) =
      Inr (p, map (pl_pair (oa_data ht)) (entries (drop (Suc pos) ?T)))" "n_oash_it_get ht p = Inl Mem_Fault"
    using Suc.hyps(1) [OF n] len(2) by auto
  show ?case
  proof (cases "used (?T ! pos)")
    case True
    note f = slot_facts(2) [OF assms(1) len(2) True]
    have "n_oash_it_get ht pos = Inr (Suc pos, Some (pl_pair (oa_data ht) (payload (?T ! pos))))"
      using it_skip_used [of pos ?T] True len get_dentry_has [OF f]
      by (simp add: n_oash_it_get_def mem_read_def pl_pair_def pl_key_def pl_di_def payload_def)
    with p True show ?thesis by (simp add: dr entries_Cons)
  next
    case False
    note same = it_get_unused [OF len(2) False len(1)]
    have ent: "entries (drop pos ?T) = entries (drop (Suc pos) ?T)" using False by (simp add: dr entries_Cons)
    show ?thesis
    proof (cases "entries (drop (Suc pos) ?T) = []")
      case True
      with p same show ?thesis by (simp add: ent)
    next
      case False
      with p it_run_unused [OF same] show ?thesis by (simp add: ent)
    qed
  qed
qed

text \<open>The iterator gives every entry of the table once, in the order of the slots, and the call
  after the last entry reads one slot past the end of the table before it can answer \<open>NULL\<close>.\<close>

theorem n_oash_it_overreads:
  assumes "oash_inv ht"
  shows "\<exists>pos. it_run ht (n_oash_size ht) n_oash_it_init = Inr (pos, oash_list ht) \<and>
    n_oash_it_get ht pos = Inl Mem_Fault"
  using it_run_ok [OF assms, of 0] assms
  by (simp add: n_oash_it_init_def n_oash_size_def oash_list_def oash_inv_def)

lemma n_oash_it_overreads_witness:
  "\<exists>ht pos kv. n_oash_size ht = 2 \<and> it_run ht 2 n_oash_it_init = Inr (pos, kv) \<and> distinct (map fst kv) \<and>
    n_oash_it_get ht pos = Inl Mem_Fault"
proof -
  obtain ht where ht: "oash_inv ht" "oash_map ht = [[97] \<mapsto> 5, [97, 98] \<mapsto> 6]" using two_slots by blast
  have "dom (oash_map ht) = {[97, 98], [97]}" unfolding ht(2) by auto
  then have "n_oash_size ht = 2" using oash_size_card [OF ht(1)] by (simp add: n_oash_size_def)
  with n_oash_it_overreads [OF ht(1)] oash_keys_distinct [OF ht(1)] show ?thesis by metis
qed

text \<open>Emptying the table, slot by slot.\<close>

lemma clean_slot_used:
  assumes "\<not> oa_na ht" "i < length (oa_table ht)" "used (oa_table ht ! i)" "has_dentry (oa_data ht) (oa_table ht ! i)"
  obtains h d where "oash_clean_slots ht i (Suc k) = oash_clean_slots h (Suc i) k"
    "oa_data ht ! te_di (oa_table ht ! i) = Some d" "te_di (oa_table ht ! i) < length (oa_data ht)"
    "oa_table h = (oa_table ht)[i := (oa_table ht ! i)\<lparr>te_hash := 0\<rparr>]"
    "oa_data h = (oa_data ht)[te_di (oa_table ht ! i) := None]" "oash_conf h = oash_conf ht"
    "oa_freed h = oa_freed ht @ freed_by ht (de_data d)" "oa_cap h = oa_cap ht" "oa_dcap h = oa_dcap ht"
    "oa_na h = oa_na ht" "oa_free_fn h = oa_free_fn ht"
proof -
  from assms(4) obtain d where d: "oa_data ht ! te_di (oa_table ht ! i) = Some d" "te_di (oa_table ht ! i) < length (oa_data ht)"
    by (auto simp: has_dentry_def)
  show thesis
    by (rule that [where h = "(oa_free ht (de_data d))\<lparr>oa_table := (oa_table ht)[i := (oa_table ht ! i)\<lparr>te_hash := 0\<rparr>],
        oa_data := (oa_data ht)[te_di (oa_table ht ! i) := None]\<rparr>" and d = d])
      (use assms d get_dentry_has [OF assms(4)] in
        \<open>simp_all add: mem_read_def used_def oa_free_def oash_conf_def freed_by_def\<close>)
qed

lemma oash_clean_slots_ok:
  assumes "\<not> oa_na ht" "length (oa_table ht) = i + k"
    "\<forall>p\<in>set (entries (drop i (oa_table ht))). pl_di p < length (oa_data ht) \<and> oa_data ht ! pl_di p \<noteq> None"
    "distinct (map pl_di (entries (drop i (oa_table ht))))" "entries (take i (oa_table ht)) = []"
  shows "\<exists>ht'. oash_clean_slots ht i k = Inr ht' \<and> length (oa_table ht') = i + k \<and> entries (oa_table ht') = [] \<and>
    length (oa_data ht') = length (oa_data ht) \<and>
    (\<forall>c. oa_data ht' ! c \<noteq> None \<longrightarrow> oa_data ht ! c \<noteq> None \<and> c \<notin> pl_di ` set (entries (drop i (oa_table ht)))) \<and>
    oa_freed ht' = oa_freed ht @ concat (map (\<lambda>p. freed_by ht (snd (pl_pair (oa_data ht) p)))
      (entries (drop i (oa_table ht)))) \<and> oash_conf ht' = oash_conf ht \<and> oa_cap ht' = oa_cap ht \<and>
    oa_dcap ht' = oa_dcap ht"
  using assms
proof (induction k arbitrary: ht i)
  case 0
  then show ?case by (simp add: entries_def)
next
  case (Suc k)
  let ?T = "oa_table ht" and ?D = "oa_data ht"
  have i: "i < length ?T" using Suc.prems(2) by simp
  have dr: "drop i ?T = ?T ! i # drop (Suc i) ?T" using i by (simp add: Cons_nth_drop_Suc)
  have tk: "take (Suc i) ?T = take i ?T @ [?T ! i]" using i by (rule take_Suc_conv_snoc)
  show ?case
  proof (cases "used (?T ! i)")
    case False
    then have t0: "te_hash (?T ! i) = 0" by (simp add: used_def)
    have pre: "entries (take (Suc i) ?T) = []" using Suc.prems(5) False by (simp add: tk entries_def)
    from False have ent: "entries (drop i ?T) = entries (drop (Suc i) ?T)" by (simp add: dr entries_Cons)
    have "oash_clean_slots ht i (Suc k) = oash_clean_slots ht (Suc i) k"
      using i t0 by (simp add: mem_read_def)
    with Suc.IH [of ht "Suc i"] Suc.prems pre show ?thesis unfolding ent by simp
  next
    case True
    let ?c = "te_di (?T ! i)"
    have hd: "has_dentry ?D (?T ! i)" using Suc.prems(3) True by (simp add: dr entries_Cons has_dentry_payload)
    from clean_slot_used [OF Suc.prems(1) i True hd, of k] obtain h d where
      st: "oash_clean_slots ht i (Suc k) = oash_clean_slots h (Suc i) k" and d: "?D ! ?c = Some d" "?c < length ?D"
      and sel: "oa_table h = ?T[i := (?T ! i)\<lparr>te_hash := 0\<rparr>]" "oa_data h = ?D[?c := None]"
        "oash_conf h = oash_conf ht" "oa_freed h = oa_freed ht @ freed_by ht (de_data d)"
        "oa_cap h = oa_cap ht" "oa_dcap h = oa_dcap ht" "oa_na h = oa_na ht" "oa_free_fn h = oa_free_fn ht" by metis
    have drh: "drop (Suc i) (oa_table h) = drop (Suc i) ?T" by (simp add: sel)
    have ent: "entries (drop i ?T) = payload (?T ! i) # entries (drop (Suc i) ?T)"
      using True by (simp add: dr entries_Cons)
    have fresh: "?c \<notin> pl_di ` set (entries (drop (Suc i) ?T))"
      using Suc.prems(4) unfolding ent by (simp add: pl_di_def payload_def)
    have other: "?D[?c := None] ! pl_di p = ?D ! pl_di p" if "p \<in> set (entries (drop (Suc i) ?T))" for p
      using fresh that by (metis imageI nth_list_update_neq)
    have "entries (take (Suc i) (oa_table h)) = []"
      using Suc.prems(5) i by (simp add: sel take_Suc_conv_snoc) (simp add: entries_def)
    moreover have "\<forall>p\<in>set (entries (drop (Suc i) (oa_table h))). pl_di p < length (oa_data h) \<and> oa_data h ! pl_di p \<noteq> None"
      using Suc.prems(3) other unfolding drh ent by (simp add: sel(2))
    moreover have "distinct (map pl_di (entries (drop (Suc i) (oa_table h))))"
      using Suc.prems(4) unfolding drh ent by simp
    ultimately obtain h' where h': "oash_clean_slots h (Suc i) k = Inr h'"
      "length (oa_table h') = Suc i + k" "entries (oa_table h') = []" "length (oa_data h') = length (oa_data h)"
      "\<forall>c. oa_data h' ! c \<noteq> None \<longrightarrow> oa_data h ! c \<noteq> None \<and> c \<notin> pl_di ` set (entries (drop (Suc i) ?T))"
      "oa_freed h' = oa_freed h @ concat (map (\<lambda>p. freed_by h (snd (pl_pair (oa_data h) p)))
        (entries (drop (Suc i) ?T)))" "oash_conf h' = oash_conf h" "oa_cap h' = oa_cap h" "oa_dcap h' = oa_dcap h"
      using Suc.IH [of h "Suc i"] Suc.prems(1,2) unfolding drh by (auto simp: sel)
    have fm: "map (\<lambda>p. freed_by h (snd (pl_pair (oa_data h) p))) (entries (drop (Suc i) ?T)) =
        map (\<lambda>p. freed_by ht (snd (pl_pair ?D p))) (entries (drop (Suc i) ?T))"
      using other by (simp add: sel pl_pair_def freed_by_def)
    have hd: "snd (pl_pair ?D (payload (?T ! i))) = de_data d"
      using d by (simp add: pl_pair_def pl_di_def payload_def)
    have fr: "oa_freed h' = oa_freed ht @ concat (map (\<lambda>p. freed_by ht (snd (pl_pair ?D p))) (entries (drop i ?T)))"
      using h'(6) unfolding fm sel(4) ent by (simp add: hd)
    have cells: "oa_data h' ! c \<noteq> None \<longrightarrow> ?D ! c \<noteq> None \<and> c \<notin> pl_di ` set (entries (drop i ?T))" for c
    proof
      assume "oa_data h' ! c \<noteq> None"
      then have "oa_data h ! c \<noteq> None" "c \<notin> pl_di ` set (entries (drop (Suc i) ?T))" using h'(5) by blast+
      moreover from this(1) have "c \<noteq> ?c" using d(2) by (auto simp: sel)
      ultimately show "?D ! c \<noteq> None \<and> c \<notin> pl_di ` set (entries (drop i ?T))"
        unfolding ent sel(2) by (simp add: pl_di_def payload_def)
    qed
    show ?thesis
      using h'(1-4,7-9) fr cells st by (intro exI [of _ h']) (simp add: sel del: oash_clean_slots.simps)
  qed
qed



section \<open>A misled insert\<close>

text \<open>
  A table with \<open>k\<close> and the two keys \<open>abbst\<close> and \<open>adxqo\<close>, which have the same hash value.
\<close>

definition misled_table :: tn_oash where
  "misled_table = \<lparr>oa_refcnt = 0, oa_flags = 0, oa_cap = 4,
     oa_table = [\<lparr>te_hash = 1392205291, te_psl = 1, te_klen = 5, te_di = 2\<rparr>, no_entry,
       \<lparr>te_hash = 811379894, te_psl = 0, te_klen = 1, te_di = 0\<rparr>,
       \<lparr>te_hash = 1392205291, te_psl = 0, te_klen = 5, te_di = 1\<rparr>], oa_size = 3, oa_dcap = 4,
     oa_data = [Some \<lparr>de_data = 1, de_key = [107]\<rparr>, Some \<lparr>de_data = 2, de_key = [97, 98, 98, 115, 116]\<rparr>,
       Some \<lparr>de_data = 3, de_key = [97, 100, 120, 113, 111]\<rparr>, None], oa_dsize = 3,
     oa_free_fn = None, oa_na = False, oa_freed = []\<rparr>"

fun insert_calls :: "env \<Rightarrow> tn_oash \<Rightarrow> (bytes \<times> ptr) list \<Rightarrow> tn_oash result" where
  "insert_calls e ht [] = Inr ht"
| "insert_calls e ht ((k, p) # kps) = rbind (n_oash_insert e ht k p) (\<lambda>(ht, _). insert_calls e ht kps)"

lemma misled_hashes [simp]:
  "oash_hash [107] = 811379894" "oash_hash [97, 98, 98, 115, 116] = 1392205291"
  "oash_hash [97, 100, 120, 113, 111] = 1392205291" "oash_hash [97, 100, 120, 113, 111, 101] = 2666982922"
  by code_simp+

lemmas put_entry_loop_numeral = put_entry_loop.simps(2) [where f = "pred_numeral n" for n, folded numeral_eq_Suc]

lemmas free_cell_numeral = free_cell.simps(2) [where f = "pred_numeral n" for n, folded numeral_eq_Suc]

lemma tindex_4: "tindex 4 i = i mod 4"
  using tindex_pow [of 4 2] by simp

lemmas misled_simps = n_oash_insert_def n_oash_put_def n_oash_compute_hash_def put_entry_and_data_def
  n_oash_put_entry_def put_new_def new_dentry_def put_dentry_def mem_read_def mem_write_def get_dentry_def
  tentry_eq_def strncmp_eq_def put_entry_loop.simps free_cell.simps oa_has_def no_entry_def tindex_4
  put_entry_loop_numeral free_cell_numeral

lemma replicate_4: "replicate 4 x = [x, x, x, x]"
  by (simp add: numeral_eq_Suc)

lemma misled_start: "n_oash_new_ex plain_env 4 None False = Inr (misled_table
    \<lparr>oa_table := replicate 4 no_entry, oa_size := 0, oa_data := replicate 4 None, oa_dsize := 0\<rparr>)"
  by (simp add: n_oash_new_ex_def ohash_new2_def ohash_new_ex_def rsize_loop.simps misled_table_def)

lemma misled_insert: "n_oash_insert plain_env misled_table [97, 100, 120, 113, 111, 101] 4 = Inl Assert_Failed"
  by (simp add: misled_simps misled_table_def n_assert_def)

lemma misled_absent: "n_oash_exists plain_env misled_table [97, 100, 120, 113, 111, 101] = Inr False"
  by (simp add: n_oash_exists_def n_oash_exists_ex_def n_oash_hexists_def n_oash_compute_hash_def
      ohash_get_entry_def misled_table_def tindex_4 get_entry_loop.simps psldiff_def no_entry_def)

lemma misled_table: "insert_calls plain_env (misled_table
    \<lparr>oa_table := replicate 4 no_entry, oa_size := 0, oa_data := replicate 4 None, oa_dsize := 0\<rparr>)
    [([107], 1), ([97, 98, 98, 115, 116], 2), ([97, 100, 120, 113, 111], 3)] = Inr misled_table"
  by (simp add: misled_simps misled_table_def replicate_4)


end
