(* ===== verification/Tuple.thy ===== *)
theory Tuple
  imports ArraySort
begin

text \<open>
  The fixed-size tuple \<open>tn_tuple\<close> (\<open>ntuple.c\<close>, \<open>ntuple.h\<close>): a size and that many pointers
  in one block. It shares the sorts and the binary search with the dynamic array.
\<close>

section \<open>State and operations\<close>

record tn_tuple =
  tu_refcnt :: "16 word"
  tu_size :: "16 word"
  tu_data :: "ptr list"

text \<open>
  \<open>size\<close> is an \<open>int\<close>; a negative one passes the assertion and then gives \<open>memcpy\<close> or
  \<open>memset\<close> a count close to \<open>2\<^sup>6\<^sup>4\<close>. \<open>data = None\<close> is \<open>NULL\<close>.
\<close>

definition n_tuple_new :: "env \<Rightarrow> int \<Rightarrow> ptr list option \<Rightarrow> tn_tuple result" where
  "n_tuple_new e n data = n_assert e (n < 65535)
     (if n < 0 then Inl Mem_Fault
      else rbind (case data of Some ps \<Rightarrow> if nat n \<le> length ps then Inr (take (nat n) ps) else Inl Mem_Fault
                  | None \<Rightarrow> Inr (replicate (nat n) NULL))
        (\<lambda>ps. Inr \<lparr>tu_refcnt = 0, tu_size = word_of_int n, tu_data = ps\<rparr>))"

text \<open>The array is emptied from the front into the tuple.\<close>

function fill_from_array :: "env \<Rightarrow> ptr list \<Rightarrow> tn_array \<Rightarrow> nat \<Rightarrow> (ptr list \<times> tn_array) result" where
  "fill_from_array e d a i =
     (if n_array_size a > 0
      then rbind (n_array_shift e a) (\<lambda>(a, p). if i < length d then fill_from_array e (d[i := p]) a (i + 1)
        else Inl Mem_Fault)
      else Inr (d, a))"
  by pat_completeness auto
termination by (relation "measure (\<lambda>(e, d, a, i). length d - i)") auto

declare fill_from_array.simps [simp del]

definition n_tuple_new_fromarray :: "env \<Rightarrow> tn_array \<Rightarrow> (tn_tuple \<times> tn_array) result" where
  "n_tuple_new_fromarray e a =
     rbind (n_tuple_new e (int (n_array_size a)) None) (\<lambda>tu.
       rbind (fill_from_array e (tu_data tu) a 0) (\<lambda>(d, a). Inr (tu\<lparr>tu_data := d\<rparr>, a)))"

text \<open>\<open>None\<close>: the block is given back.\<close>

definition n_tuple_free :: "tn_tuple \<Rightarrow> tn_tuple option" where
  "n_tuple_free tu =
     (if tu_refcnt tu > 0 then Some (tu\<lparr>tu_refcnt := tu_refcnt tu - 1\<rparr>) else None)"

definition n_tuple_size :: "tn_tuple \<Rightarrow> int" where
  "n_tuple_size tu = uint (tu_size tu)"

text \<open>
  With a hook that returns, an index out of bounds is used all the same; below 0 it
  reaches before the block.
\<close>

definition tuple_checked :: "env \<Rightarrow> tn_tuple \<Rightarrow> int \<Rightarrow> 'a result \<Rightarrow> 'a result" where
  "tuple_checked e tu i k =
     (if i \<ge> uint (tu_size tu) \<or> i < 0 then trurl_die e ''n_tuple_nth: index out of bounds'' k else k)"

definition n_tuple_nth :: "env \<Rightarrow> tn_tuple \<Rightarrow> int \<Rightarrow> ptr result" where
  "n_tuple_nth e tu i = tuple_checked e tu i
     (if i < 0 then Inl Mem_Fault else mem_read (tu_data tu) (nat i))"

definition n_tuple_set_nth :: "env \<Rightarrow> tn_tuple \<Rightarrow> int \<Rightarrow> ptr \<Rightarrow> tn_tuple result" where
  "n_tuple_set_nth e tu i p = tuple_checked e tu i
     (if i < 0 then Inl Mem_Fault
      else rbind (mem_write (tu_data tu) (nat i) p) (\<lambda>d. Inr (tu\<lparr>tu_data := d\<rparr>)))"

section \<open>Sorting and searching\<close>

datatype tuple_alg = Sort_Sort | Sort_Qsort | Sort_Isort

definition n_tuple_sort_internal :: "env \<Rightarrow> tn_tuple \<Rightarrow> cmp_id \<Rightarrow> tuple_alg \<Rightarrow> tn_tuple result" where
  "n_tuple_sort_internal e tu cmpf alg =
     (let c = call_cmp e cmpf; n = unat (tu_size tu) in
      rbind (case alg of
          Sort_Sort \<Rightarrow> if tu_size tu > 10 then trurl_qsort_voidp_arr c (tu_data tu) n
                       else trurl_isort_voidp_arr c (tu_data tu) n
        | Sort_Qsort \<Rightarrow> trurl_qsort_voidp_arr c (tu_data tu) n
        | Sort_Isort \<Rightarrow> trurl_isort_voidp_arr c (tu_data tu) n)
        (\<lambda>d. Inr (tu\<lparr>tu_data := d\<rparr>)))"

definition n_tuple_sort_ex :: "env \<Rightarrow> tn_tuple \<Rightarrow> cmp_id \<Rightarrow> tn_tuple result" where
  "n_tuple_sort_ex e tu cmpf = n_tuple_sort_internal e tu cmpf Sort_Sort"

definition n_tuple_qsort_ex :: "env \<Rightarrow> tn_tuple \<Rightarrow> cmp_id \<Rightarrow> tn_tuple result" where
  "n_tuple_qsort_ex e tu cmpf = n_tuple_sort_internal e tu cmpf Sort_Qsort"

definition n_tuple_isort_ex :: "env \<Rightarrow> tn_tuple \<Rightarrow> cmp_id \<Rightarrow> tn_tuple result" where
  "n_tuple_isort_ex e tu cmpf = n_tuple_sort_internal e tu cmpf Sort_Isort"

text \<open>\<open>bsearch_voidp_tu\<close> is \<open>bsearch_voidp_arr\<close> of the array, word for word.\<close>

definition bsearch_voidp_tu :: "(ptr \<Rightarrow> ptr \<Rightarrow> int) \<Rightarrow> ptr list \<Rightarrow> nat \<Rightarrow> ptr \<Rightarrow> int result" where
  "bsearch_voidp_tu c d n x = bsearch_loop c d x 0 n"

definition n_tuple_bsearch_idx_ex :: "env \<Rightarrow> tn_tuple \<Rightarrow> ptr \<Rightarrow> cmp_id \<Rightarrow> int result" where
  "n_tuple_bsearch_idx_ex e tu x cmpf =
     (let c = call_cmp e cmpf; base = tu_data tu in
      if tu_size tu = 0 then Inr (-1)
      else if tu_size tu > 1
      then rbind (bsearch_voidp_tu c base (unat (tu_size tu)) x) (\<lambda>idx.
        if idx > 0 then rbind (first_equal c base x (nat idx)) (\<lambda>i. Inr (int i)) else Inr idx)
      else rbind (mem_read base 0) (\<lambda>y. Inr (if c y x = 0 then 0 else -1)))"

definition n_tuple_bsearch_ex :: "env \<Rightarrow> tn_tuple \<Rightarrow> ptr \<Rightarrow> cmp_id \<Rightarrow> ptr result" where
  "n_tuple_bsearch_ex e tu x cmpf =
     (let c = call_cmp e cmpf; base = tu_data tu in
      if tu_size tu = 0 then Inr NULL
      else rbind
        (if tu_size tu > 1 then bsearch_voidp_tu c base (unat (tu_size tu)) x
         else rbind (mem_read base 0) (\<lambda>y. Inr (if c y x = 0 then 0 else -1)))
        (\<lambda>idx. if idx < 0 then Inr NULL else mem_read base (nat idx)))"

section \<open>Correctness\<close>

definition tuple_rep :: "tn_tuple \<Rightarrow> ptr list \<Rightarrow> bool" where
  "tuple_rep tu xs \<longleftrightarrow> tu_data tu = xs \<and> length xs < 65536 \<and> tu_size tu = word_of_nat (length xs)"

lemma tuple_rep_size: "tuple_rep tu xs \<Longrightarrow> unat (tu_size tu) = length xs"
  by (simp add: tuple_rep_def unat_of_nat)

lemma n_tuple_new_ok:
  "length xs < 65535 \<Longrightarrow> \<exists>tu. n_tuple_new e (int (length xs)) (Some (xs @ ws)) = Inr tu \<and> tuple_rep tu xs"
  by (simp add: n_tuple_new_def tuple_rep_def)

lemma array_rep_size: "array_rep a xs \<Longrightarrow> n_array_size a = length xs"
  by (simp add: n_array_size_def array_rep_def)

lemma fill_from_array_ok:
  "array_rep a xs \<Longrightarrow> \<not> arr_has a TN_ARRAY_FROZEN \<Longrightarrow>
   \<exists>a'. fill_from_array e (us @ replicate (length xs) NULL) a (length us) = Inr (us @ xs, a') \<and> array_rep a' [] \<and>
     arr_freed a' = arr_freed a"
proof (induction xs arbitrary: a us)
  case Nil
  then show ?case by (simp add: fill_from_array.simps array_rep_size)
next
  case (Cons x xs)
  from n_array_shift_ok [OF Cons.prems, of e] obtain a1 where a1: "n_array_shift e a = Inr (a1, x)"
    "array_rep a1 xs" "arr_flags a1 = arr_flags a" "arr_freed a1 = arr_freed a" by blast
  then have "\<not> arr_has a1 TN_ARRAY_FROZEN" using Cons.prems(2) by (simp add: arr_has_def)
  from Cons.IH [OF a1(2) this, of "us @ [x]"] obtain a' where
    "fill_from_array e ((us @ [x]) @ replicate (length xs) NULL) a1 (length us + 1) = Inr (us @ x # xs, a')"
    "array_rep a' []" "arr_freed a' = arr_freed a1" by auto
  moreover have "n_array_size a > 0" using array_rep_size [OF Cons.prems(1)] by simp
  ultimately show ?case using a1
    by (subst fill_from_array.simps) (simp add: list_update_append)
qed

text \<open>A tuple made from an array takes its items over in their order and leaves the array empty,
  without a call of \<open>free_fn\<close>.\<close>

theorem n_tuple_new_fromarray_moves:
  assumes "array_rep a xs" "\<not> arr_has a TN_ARRAY_FROZEN" "length xs < 65535"
  shows "\<exists>tu a'. n_tuple_new_fromarray e a = Inr (tu, a') \<and> tuple_rep tu xs \<and> n_tuple_size tu = int (length xs) \<and>
    (\<forall>i < length xs. n_tuple_nth e tu (int i) = Inr (xs ! i)) \<and> array_rep a' [] \<and> arr_freed a' = arr_freed a"
proof -
  let ?tu = "\<lparr>tu_refcnt = 0, tu_size = word_of_nat (length xs), tu_data = replicate (length xs) NULL\<rparr>"
  have "n_array_size a = length xs" using assms(1) by (rule array_rep_size)
  then have "n_tuple_new e (int (n_array_size a)) None = Inr ?tu"
    using assms(3) by (simp add: n_tuple_new_def)
  moreover obtain a' where "fill_from_array e (replicate (length xs) NULL) a 0 = Inr (xs, a')"
    "array_rep a' []" "arr_freed a' = arr_freed a" using fill_from_array_ok [OF assms(1,2), of e "[]"] by auto
  moreover have rep: "tuple_rep (?tu\<lparr>tu_data := xs\<rparr>) xs" using assms(3) by (simp add: tuple_rep_def)
  moreover have "n_tuple_size (?tu\<lparr>tu_data := xs\<rparr>) = int (length xs)"
    using tuple_rep_size [OF rep] by (simp only: n_tuple_size_def uint_nat)
  moreover have "n_tuple_nth e (?tu\<lparr>tu_data := xs\<rparr>) (int i) = Inr (xs ! i)" if "i < length xs" for i
    using that tuple_rep_size [OF rep] by (simp add: n_tuple_nth_def tuple_checked_def mem_read_def uint_nat)
  ultimately show ?thesis by (auto simp: n_tuple_new_fromarray_def)
qed

lemma n_tuple_new_fromarray_moves_witness:
  "\<exists>tu a'. n_tuple_new_fromarray plain_env unsorted_array = Inr (tu, a') \<and> tu_data tu = [3, 1, 2] \<and>
     array_rep a' []"
  using n_tuple_new_fromarray_moves [OF unsorted_array_facts(1,2), of plain_env] by (auto simp: tuple_rep_def)

lemma tuple_sort_ok:
  assumes "tuple_rep tu xs" "ordering_cmp (call_cmp e c) (set xs)"
  shows "\<exists>tu' zs. n_tuple_sort_internal e tu c alg = Inr tu' \<and> tuple_rep tu' zs \<and> mset zs = mset xs \<and>
    sorted_cmp (call_cmp e c) zs \<and> tu_refcnt tu' = tu_refcnt tu"
proof -
  note n = tuple_rep_size [OF assms(1)]
  from qsort_ok [of "call_cmp e c" xs "[]"] assms(2) obtain qs where
    q: "trurl_qsort_voidp_arr (call_cmp e c) xs (length xs) = Inr qs" "mset qs = mset xs" "sorted_cmp (call_cmp e c) qs"
    by auto
  from ordering_cmp.isort_ok [OF assms(2) subset_refl, of "[]"] obtain vs where
    i: "trurl_isort_voidp_arr (call_cmp e c) xs (length xs) = Inr vs" "mset vs = mset xs" "sorted_cmp (call_cmp e c) vs"
    by (auto simp: stable_perm_def)
  have rep: "tuple_rep (tu\<lparr>tu_data := zs\<rparr>) zs" if "mset zs = mset xs" for zs
    using assms(1) mset_eq_length [OF that] by (simp add: tuple_rep_def)
  have d: "tu_data tu = xs" using assms(1) by (simp add: tuple_rep_def)
  show ?thesis
  proof (cases alg)
    case Sort_Sort
    then show ?thesis using q i rep [OF q(2)] rep [OF i(2)]
      by (cases "tu_size tu > 10") (auto simp: n_tuple_sort_internal_def n d)
  qed (use q i rep [OF q(2)] rep [OF i(2)] in \<open>auto simp: n_tuple_sort_internal_def n d\<close>)
qed

text \<open>C27: After a sort of a tuple with a comparison that orders its items and the key, by any of the
  three entry points, the index search gives the first item equal to the key or \<open>-1\<close>, and the
  pointer search gives an equal item or \<open>NULL\<close>.\<close>

theorem n_tuple_sort_search:
  assumes "tuple_rep tu xs" "ordering_cmp (call_cmp e c) (insert x (set xs))"
    "srt \<in> {n_tuple_sort_ex e tu c, n_tuple_qsort_ex e tu c, n_tuple_isort_ex e tu c}"
  shows "\<exists>tu' zs i p. srt = Inr tu' \<and> tuple_rep tu' zs \<and> mset zs = mset xs \<and> sorted_cmp (call_cmp e c) zs \<and>
    n_tuple_bsearch_idx_ex e tu' x c = Inr i \<and> n_tuple_bsearch_ex e tu' x c = Inr p \<and>
    (if \<exists>y\<in>set xs. call_cmp e c y x = 0
     then p \<in> set xs \<and> call_cmp e c p x = 0 \<and> (\<exists>k < length zs. i = int k \<and> call_cmp e c (zs ! k) x = 0 \<and>
       (\<forall>j < k. call_cmp e c (zs ! j) x \<noteq> 0))
     else i = -1 \<and> p = NULL)"
proof -
  let ?c = "call_cmp e c"
  have o: "ordering_cmp ?c (set xs)" by (rule ordering_cmp_subset [OF assms(2)]) auto
  obtain tu' zs where s: "srt = Inr tu'" "tuple_rep tu' zs" "mset zs = mset xs" "sorted_cmp ?c zs"
    using tuple_sort_ok [OF assms(1) o] assms(3)
    unfolding n_tuple_sort_ex_def n_tuple_qsort_ex_def n_tuple_isort_ex_def by blast
  have set: "set zs = set xs" using s(3) by (rule mset_eq_setD)
  then have key: "key_in_order ?c zs x"
    by (intro ordering_cmp.sorted_key_in_order [OF assms(2) s(4)]) auto
  have n: "unat (tu_size tu') = length zs" "tu_data tu' = zs"
    using s(2) tuple_rep_size [OF s(2)] by (simp_all add: tuple_rep_def)
  have z: "tu_size tu' = 0 \<longleftrightarrow> length zs = 0" "tu_size tu' > 1 \<longleftrightarrow> length zs > 1"
    using n(1) by (auto simp: word_less_nat_alt unat_eq_0)
  from first_index_ok [OF key, of "[]"] obtain i where i: "first_index ?c zs (length zs) x = Inr i"
    "is_first_index ?c zs x i" by auto
  have idx: "n_tuple_bsearch_idx_ex e tu' x c = Inr i"
    using i(1) unfolding n_tuple_bsearch_idx_ex_def first_index_def Let_def z n bsearch_voidp_tu_def
    bsearch_voidp_arr_def by simp
  have p: "\<exists>p. n_tuple_bsearch_ex e tu' x c = Inr p \<and>
      (if \<exists>y\<in>set zs. ?c y x = 0 then p \<in> set zs \<and> ?c p x = 0 else p = NULL)"
  proof (cases "length zs > 1")
    case True
    from bsearch_ok [OF key, of "[]"] show ?thesis
      using True nth_mem [of _ zs] unfolding n_tuple_bsearch_ex_def Let_def z n bsearch_voidp_tu_def bsearch_voidp_arr_def
      by (auto simp: mem_read_def)
  next
    case False
    then show ?thesis unfolding n_tuple_bsearch_ex_def Let_def z n
      by (cases zs) (auto simp: mem_read_def)
  qed
  then obtain p where "n_tuple_bsearch_ex e tu' x c = Inr p"
    "if \<exists>y\<in>set zs. ?c y x = 0 then p \<in> set zs \<and> ?c p x = 0 else p = NULL" by blast
  with s idx i(2) show ?thesis unfolding is_first_index_def set
    by (intro exI [of _ tu'] exI [of _ zs] exI [of _ i] exI [of _ p]) (simp split: if_splits)
qed

lemma n_tuple_sort_search_witness:
  "\<exists>tu tu'. n_tuple_new plain_env 3 (Some [3, 1, 2]) = Inr tu \<and> n_tuple_sort_ex plain_env tu Cmp_Default = Inr tu' \<and>
     mset (tu_data tu') = {#1, 2, 3#} \<and> n_tuple_bsearch_ex plain_env tu' 2 Cmp_Default = Inr 2"
proof -
  obtain tu where tu: "n_tuple_new plain_env 3 (Some [3, 1, 2]) = Inr tu" "tuple_rep tu [3, 1, 2]"
    using n_tuple_new_ok [of "[3, 1, 2]" plain_env "[]"] by auto
  have "ordering_cmp (call_cmp plain_env Cmp_Default) (insert 2 (set [3, 1, 2]))"
    using small_order [of "[2, 3, 1]" plain_env] by (simp add: insert_commute)
  from n_tuple_sort_search [OF tu(2) this, of "n_tuple_sort_ex plain_env tu Cmp_Default"] tu show ?thesis
    by (auto simp: default_cmpf_small tuple_rep_def add_mset_commute)
qed

end
