(* ===== verification/Stream.thy ===== *)
theory Stream
  imports Interfaces Hash
begin

text \<open>
  The byte streams of \<open>nstream.c\<close> and \<open>nstream.h\<close> over a stdio \<open>FILE\<close>: reading and writing
  of bytes and of 8, 16 and 32 bit numbers, seeking, the write hook, lines, and the type
  guessed from a file name. The first part is what stdio does with a file that is open for
  reading and writing.
\<close>

section \<open>Files\<close>

text \<open>\<open>f_limit\<close> is the size the device lets the file grow to: beyond it writes are short.\<close>

record cfile =
  f_bytes :: bytes
  f_pos :: nat
  f_limit :: nat

text \<open>A \<open>size_t\<close> given back as an \<open>int\<close>.\<close>

definition c_int :: "nat \<Rightarrow> int" where
  "c_int n = sint (word_of_nat n :: 32 word)"

lemma c_int_small: "n < 2 ^ 31 \<Longrightarrow> c_int n = int n"
  by (simp add: c_int_def sint_uint uint_nat unat_of_nat signed_take_bit_int_eq_self_iff)

definition f_rest :: "cfile \<Rightarrow> bytes" where
  "f_rest f = drop (f_pos f) (f_bytes f)"

definition c_fread :: "cfile \<Rightarrow> nat \<Rightarrow> cfile \<times> bytes" where
  "c_fread f n = (let got = take n (f_rest f) in (f\<lparr>f_pos := f_pos f + length got\<rparr>, got))"

definition c_fwrite :: "cfile \<Rightarrow> bytes \<Rightarrow> cfile \<times> nat" where
  "c_fwrite f bs =
     (let k = min (length bs) (f_limit f - f_pos f) in
      if k = 0 then (f, 0)
      else (f\<lparr>f_bytes := take (f_pos f) (f_bytes f @ replicate (f_pos f - length (f_bytes f)) 0) @ take k bs @
               drop (f_pos f + k) (f_bytes f), f_pos := f_pos f + k\<rparr>, k))"

fun first_line :: "bytes \<Rightarrow> bytes" where
  "first_line [] = []"
| "first_line (b # bs) = (if b = 10 then [b] else b # first_line bs)"

text \<open>\<open>fgets\<close> as in the GNU library: a size of 1 gives the empty string.\<close>

definition c_fgets :: "cfile \<Rightarrow> nat \<Rightarrow> cfile \<times> bytes option" where
  "c_fgets f n =
     (if n = 0 then (f, None)
      else if n = 1 then (f, Some [])
      else let got = take (n - 1) (first_line (f_rest f)) in
        if got = [] then (f, None) else (f\<lparr>f_pos := f_pos f + length got\<rparr>, Some got))"

text \<open>\<open>None\<close> is \<open>EOF\<close>.\<close>

definition c_getc :: "cfile \<Rightarrow> cfile \<times> 8 word option" where
  "c_getc f = (case f_rest f of [] \<Rightarrow> (f, None) | b # _ \<Rightarrow> (f\<lparr>f_pos := f_pos f + 1\<rparr>, Some b))"

datatype whence = Seek_Set | Seek_Cur | Seek_End | Seek_Other int

definition c_fseek :: "cfile \<Rightarrow> int \<Rightarrow> whence \<Rightarrow> cfile \<times> int" where
  "c_fseek f off w =
     (case (case w of Seek_Set \<Rightarrow> Some off | Seek_Cur \<Rightarrow> Some (int (f_pos f) + off)
            | Seek_End \<Rightarrow> Some (int (length (f_bytes f)) + off) | Seek_Other _ \<Rightarrow> None) of
        None \<Rightarrow> (f, -1)
      | Some p \<Rightarrow> if p < 0 then (f, -1) else (f\<lparr>f_pos := nat p\<rparr>, 0))"

text \<open>\<open>strlen\<close> of the bytes a call has put into a buffer, which end in a NUL.\<close>

definition c_strlen :: "bytes \<Rightarrow> nat" where
  "c_strlen bs = length (takeWhile (\<lambda>b. b \<noteq> 0) bs)"

section \<open>Network byte order\<close>

text \<open>The bytes of \<open>htons(v)\<close> and \<open>htonl(v)\<close> in memory, and \<open>ntohs\<close>, \<open>ntohl\<close> of bytes.\<close>

definition n_hton16 :: "16 word \<Rightarrow> bytes" where
  "n_hton16 v = [ucast (drop_bit 8 v), ucast v]"

definition n_hton32 :: "32 word \<Rightarrow> bytes" where
  "n_hton32 v = [ucast (drop_bit 24 v), ucast (drop_bit 16 v), ucast (drop_bit 8 v), ucast v]"

fun n_ntoh16 :: "bytes \<Rightarrow> 16 word" where
  "n_ntoh16 [a, b] = push_bit 8 (ucast a) OR ucast b"
| "n_ntoh16 _ = 0"

fun n_ntoh32 :: "bytes \<Rightarrow> 32 word" where
  "n_ntoh32 [a, b, c, d] =
     push_bit 24 (ucast a) OR push_bit 16 (ucast b) OR push_bit 8 (ucast c) OR ucast d"
| "n_ntoh32 _ = 0"

lemma n_hton_length [simp]: "length (n_hton16 v) = 2" "length (n_hton32 w) = 4"
  by (simp_all add: n_hton16_def n_hton32_def)

lemma n_ntoh16_hton16 [simp]: "n_ntoh16 (n_hton16 v) = v"
  by (rule bit_word_eqI) (auto simp: n_hton16_def bit_simps)

lemma n_ntoh32_hton32 [simp]: "n_ntoh32 (n_hton32 v) = v"
proof (rule bit_word_eqI)
  fix n assume "n < LENGTH(32)"
  then consider "n < 8" | "8 \<le> n" "n < 16" | "16 \<le> n" "n < 24" | "24 \<le> n" "n < 32" by fastforce
  then show "bit (n_ntoh32 (n_hton32 v)) n = bit v n"
    by cases (auto simp: n_hton32_def bit_simps)
qed

section \<open>Streams\<close>

text \<open>\<open>st_hook\<close> is the caller's function: whether it lets the bytes through.\<close>

record tn_stream =
  st_type :: int
  st_stream :: cfile
  st_fd :: int
  st_hook :: "(bytes \<Rightarrow> bool) option"

definition n_stream_set_write_hook :: "tn_stream \<Rightarrow> (bytes \<Rightarrow> bool) option \<Rightarrow> tn_stream \<times> int" where
  "n_stream_set_write_hook st h = (st\<lparr>st_hook := h\<rparr>, 1)"

definition n_stream_fdno :: "tn_stream \<Rightarrow> int" where
  "n_stream_fdno st = st_fd st"

definition do_s_read :: "cfile \<Rightarrow> nat \<Rightarrow> cfile \<times> bytes \<times> int" where
  "do_s_read f n = (case c_fread f n of (f, got) \<Rightarrow> (f, got, c_int (length got)))"

definition do_s_write :: "cfile \<Rightarrow> bytes \<Rightarrow> cfile \<times> int" where
  "do_s_write f bs = (case c_fwrite f bs of (f, k) \<Rightarrow> (f, c_int k))"

definition do_s_gets :: "cfile \<Rightarrow> nat \<Rightarrow> cfile \<times> bytes option" where
  "do_s_gets f n = c_fgets f n"

definition n_stream_read :: "tn_stream \<Rightarrow> nat \<Rightarrow> tn_stream \<times> bytes \<times> int" where
  "n_stream_read st n = (case do_s_read (st_stream st) n of (f, got, r) \<Rightarrow> (st\<lparr>st_stream := f\<rparr>, got, r))"

text \<open>The numbers: the value is left alone when the read is short, except by the 32 bit read.\<close>

definition n_stream_read_uint8 :: "tn_stream \<Rightarrow> 8 word \<Rightarrow> tn_stream \<times> 8 word \<times> int" where
  "n_stream_read_uint8 st v0 =
     (case n_stream_read st 1 of (st, got, r) \<Rightarrow> if r \<noteq> 1 then (st, v0, 0) else (st, hd got, 1))"

definition n_stream_read_uint16 :: "tn_stream \<Rightarrow> 16 word \<Rightarrow> tn_stream \<times> 16 word \<times> int" where
  "n_stream_read_uint16 st v0 =
     (case n_stream_read st 2 of (st, got, r) \<Rightarrow> if r \<noteq> 2 then (st, v0, 0) else (st, n_ntoh16 got, 1))"

definition n_stream_read_uint32 :: "tn_stream \<Rightarrow> tn_stream \<times> 32 word \<times> int" where
  "n_stream_read_uint32 st =
     (case n_stream_read st 4 of (st, got, r) \<Rightarrow> if r \<noteq> 4 then (st, 0, 0) else (st, n_ntoh32 got, 4))"

text \<open>Bytes the hook does not let through count as written.\<close>

definition n_stream_write :: "tn_stream \<Rightarrow> bytes \<Rightarrow> tn_stream \<times> int" where
  "n_stream_write st bs =
     (if (case st_hook st of None \<Rightarrow> False | Some h \<Rightarrow> \<not> h bs) then (st, c_int (length bs))
      else case do_s_write (st_stream st) bs of (f, r) \<Rightarrow> (st\<lparr>st_stream := f\<rparr>, r))"

definition n_stream_write_uint8 :: "tn_stream \<Rightarrow> 8 word \<Rightarrow> tn_stream \<times> int" where
  "n_stream_write_uint8 st v = n_stream_write st [v]"

definition n_stream_write_uint16 :: "tn_stream \<Rightarrow> 16 word \<Rightarrow> tn_stream \<times> bool" where
  "n_stream_write_uint16 st v = (case n_stream_write st (n_hton16 v) of (st, r) \<Rightarrow> (st, r = 2))"

definition n_stream_write_uint32 :: "tn_stream \<Rightarrow> 32 word \<Rightarrow> tn_stream \<times> bool" where
  "n_stream_write_uint32 st v = (case n_stream_write st (n_hton32 v) of (st, r) \<Rightarrow> (st, r = 4))"

definition n_stream_seek :: "tn_stream \<Rightarrow> int \<Rightarrow> whence \<Rightarrow> tn_stream \<times> int" where
  "n_stream_seek st off w = (case c_fseek (st_stream st) off w of (f, r) \<Rightarrow> (st\<lparr>st_stream := f\<rparr>, r))"

definition n_stream_tell :: "tn_stream \<Rightarrow> int" where
  "n_stream_tell st = int (f_pos (st_stream st))"

text \<open>
  \<open>out\<close> is the whole text \<open>vsnprintf\<close> makes. Its length is given to \<open>st_write\<close>, so a text of
  more than 32 KB is written from beyond the buffer.
\<close>

definition n_stream_vprintf :: "tn_stream \<Rightarrow> bytes \<Rightarrow> (tn_stream \<times> int) result" where
  "n_stream_vprintf st out =
     (if length out > 32768 then Inl Mem_Fault
      else let buf = take 32767 out @ [0] in
        case do_s_write (st_stream st) (take (length out) buf) of (f, r) \<Rightarrow> Inr (st\<lparr>st_stream := f\<rparr>, r))"

definition n_stream_printf :: "tn_stream \<Rightarrow> bytes \<Rightarrow> (tn_stream \<times> int) result" where
  "n_stream_printf st out = n_stream_vprintf st out"

section \<open>Lines\<close>

definition n_stream_gets :: "tn_stream \<Rightarrow> nat \<Rightarrow> tn_stream \<times> bytes option \<times> nat" where
  "n_stream_gets st n = (case do_s_gets (st_stream st) n of (f, got) \<Rightarrow>
     (st\<lparr>st_stream := f\<rparr>, got, case got of None \<Rightarrow> 0 | Some s \<Rightarrow> c_strlen s))"

text \<open>
  The loop of \<open>n_stream_getline\<close>: \<open>buf\<close> has the \<open>n\<close> characters so far, the block is \<open>size\<close>
  bytes long. A NUL is put behind the last one.
\<close>

lemma drop_Cons_less: "drop p xs = y # ys \<Longrightarrow> p < length xs"
  by (metis drop_all list.distinct(1) not_less)

function getc_loop :: "cfile \<Rightarrow> bytes \<Rightarrow> nat \<Rightarrow> (cfile \<times> bytes) result" where
  "getc_loop f buf sz =
     (let sz = (if length buf = sz - 1 then 2 * sz else sz) in
      case c_getc f of
        (f', None) \<Rightarrow> if length buf < sz then Inr (f', buf) else Inl Mem_Fault
      | (f', Some c) \<Rightarrow>
          if length buf < sz
          then if c = 10 then if length buf + 1 < sz then Inr (f', buf @ [c]) else Inl Mem_Fault
               else getc_loop f' (buf @ [c]) sz
          else Inl Mem_Fault)"
  by pat_completeness auto
termination
  by (relation "measure (\<lambda>(f, buf, sz). length (f_rest f))")
    (auto simp: c_getc_def f_rest_def dest!: drop_Cons_less split: list.splits)

declare getc_loop.simps [simp del]

text \<open>
  \<open>None\<close> for \<open>*bufptr = NULL\<close>: a buffer of \<open>MAX_CANON\<close> bytes is made. The result is the
  string in the buffer and the number returned.
\<close>

definition n_stream_getline :: "nat \<Rightarrow> tn_stream \<Rightarrow> nat option \<Rightarrow> (tn_stream \<times> bytes \<times> int) result" where
  "n_stream_getline max_canon st size0 =
     (let sz = (case size0 of None \<Rightarrow> max_canon | Some n \<Rightarrow> n) in
      if sz = 0 then Inl Mem_Fault
      else case n_stream_gets st sz of (st, got, n) \<Rightarrow>
        let buf = take n (case got of None \<Rightarrow> [] | Some s \<Rightarrow> s) in
        if n < sz - 1 then Inr (st, buf, c_int n)
        else rbind (getc_loop (st_stream st) buf sz) (\<lambda>(f, buf).
          Inr (st\<lparr>st_stream := f\<rparr>, buf, c_int (length buf))))"

section \<open>The type of a file\<close>

definition TN_STREAM_STDIO :: int where "TN_STREAM_STDIO = 1"
definition TN_STREAM_GZIO :: int where "TN_STREAM_GZIO = 2"
definition TN_STREAM_ZSTDIO :: int where "TN_STREAM_ZSTDIO = 3"
definition TN_STREAM_GZIO_NG :: int where "TN_STREAM_GZIO_NG = 4"

text \<open>\<open>strrchr\<close>: the string from the last \<open>c\<close> on.\<close>

fun c_strrchr :: "bytes \<Rightarrow> 8 word \<Rightarrow> bytes option" where
  "c_strrchr [] c = None"
| "c_strrchr (b # bs) c = (case c_strrchr bs c of Some p \<Rightarrow> Some p
     | None \<Rightarrow> if b = c then Some (b # bs) else None)"

text \<open>\<open>zng\<close>: whether the library was built with zlib-ng.\<close>

definition n_stream_guess_type :: "bool \<Rightarrow> bytes \<Rightarrow> int" where
  "n_stream_guess_type zng path =
     (case c_strrchr path 46 of
        None \<Rightarrow> TN_STREAM_STDIO
      | Some p \<Rightarrow>
          if p = [46, 103, 122] then TN_STREAM_GZIO
          else if p = [46, 122, 115, 116] then TN_STREAM_ZSTDIO
          else if p = [46, 110, 103, 122] then (if zng then TN_STREAM_GZIO_NG else TN_STREAM_GZIO)
          else TN_STREAM_STDIO)"

end
