(* ===== verification/Numbers.thy ===== *)
theory Numbers
  imports Stream
begin

text \<open>
  Numbers of 8, 16 and 32 bits in network byte order, and the contracts of an object they
  are written to and of one they are read from: streams and buffers keep them.
\<close>

section \<open>Numbers\<close>

datatype num_width_tag = K8 | K16 | K32

datatype net_num = N8 "8 word" | N16 "16 word" | N32 "32 word"

fun num_bytes :: "net_num \<Rightarrow> bytes" where
  "num_bytes (N8 v) = [v]"
| "num_bytes (N16 v) = n_hton16 v"
| "num_bytes (N32 v) = n_hton32 v"

fun num_kind :: "net_num \<Rightarrow> num_width_tag" where
  "num_kind (N8 _) = K8" | "num_kind (N16 _) = K16" | "num_kind (N32 _) = K32"

fun num_width :: "num_width_tag \<Rightarrow> nat" where
  "num_width K8 = 1" | "num_width K16 = 2" | "num_width K32 = 4"

lemma num_bytes_length [simp]: "length (num_bytes v) = num_width (num_kind v)"
  by (cases v) simp_all

definition nums_bytes :: "net_num list \<Rightarrow> bytes" where
  "nums_bytes vs = concat (map num_bytes vs)"

lemma nums_bytes_simps [simp]: "nums_bytes [] = []" "nums_bytes (v # vs) = num_bytes v @ nums_bytes vs"
  by (simp_all add: nums_bytes_def)

section \<open>Writing\<close>

fun put_nums :: "('s \<Rightarrow> net_num \<Rightarrow> ('s \<times> bool) result) \<Rightarrow> 's \<Rightarrow> net_num list \<Rightarrow> ('s \<times> bool) result" where
  "put_nums put s [] = Inr (s, True)"
| "put_nums put s (v # vs) =
     rbind (put s v) (\<lambda>(s, b). rbind (put_nums put s vs) (\<lambda>(s, b'). Inr (s, b \<and> b')))"

locale num_writer =
  fixes put :: "'s \<Rightarrow> net_num \<Rightarrow> ('s \<times> bool) result"
    and written :: "'s \<Rightarrow> bytes"
    and room :: "'s \<Rightarrow> nat"
    and inv :: "'s \<Rightarrow> bool"
  assumes put_ok: "inv s \<Longrightarrow> num_width (num_kind v) \<le> room s \<Longrightarrow>
      \<exists>s'. put s v = Inr (s', True) \<and> inv s' \<and> written s' = written s @ num_bytes v \<and>
        room s \<le> room s' + num_width (num_kind v)"
begin

lemma put_nums_ok:
  "inv s \<Longrightarrow> length (nums_bytes vs) \<le> room s \<Longrightarrow>
   \<exists>s'. put_nums put s vs = Inr (s', True) \<and> inv s' \<and> written s' = written s @ nums_bytes vs"
proof (induction vs arbitrary: s)
  case (Cons v vs)
  from put_ok [OF Cons.prems(1), of v] Cons.prems(2) obtain s1 where s1: "put s v = Inr (s1, True)" "inv s1"
    "written s1 = written s @ num_bytes v" "room s \<le> room s1 + num_width (num_kind v)" by auto
  with Cons.prems(2) have "length (nums_bytes vs) \<le> room s1" by simp
  from Cons.IH [OF s1(2) this] s1 show ?case by auto
qed simp

end

section \<open>Reading\<close>

fun get_nums ::
    "('r \<Rightarrow> num_width_tag \<Rightarrow> ('r \<times> net_num option) result) \<Rightarrow> 'r \<Rightarrow> num_width_tag list \<Rightarrow>
     ('r \<times> net_num list option) result" where
  "get_nums get r [] = Inr (r, Some [])"
| "get_nums get r (k # ks) = rbind (get r k) (\<lambda>(r, v). case v of
     None \<Rightarrow> Inr (r, None)
   | Some v \<Rightarrow> rbind (get_nums get r ks) (\<lambda>(r, vs). Inr (r, map_option (\<lambda>vs. v # vs) vs)))"

locale num_reader =
  fixes get :: "'r \<Rightarrow> num_width_tag \<Rightarrow> ('r \<times> net_num option) result"
    and rest :: "'r \<Rightarrow> bytes"
    and inv :: "'r \<Rightarrow> bool"
  assumes get_ok: "inv r \<Longrightarrow> rest r = num_bytes v @ bs \<Longrightarrow>
      \<exists>r'. get r (num_kind v) = Inr (r', Some v) \<and> inv r' \<and> rest r' = bs"
    and get_short: "inv r \<Longrightarrow> length (rest r) < num_width k \<Longrightarrow> \<exists>r'. get r k = Inr (r', None)"
begin

lemma get_nums_ok:
  "inv r \<Longrightarrow> rest r = nums_bytes vs @ bs \<Longrightarrow>
   \<exists>r'. get_nums get r (map num_kind vs) = Inr (r', Some vs) \<and> inv r' \<and> rest r' = bs"
proof (induction vs arbitrary: r)
  case (Cons v vs)
  then have "rest r = num_bytes v @ nums_bytes vs @ bs" by simp
  from get_ok [OF Cons.prems(1) this] obtain r1 where
    r1: "get r (num_kind v) = Inr (r1, Some v)" "inv r1" "rest r1 = nums_bytes vs @ bs" by blast
  from Cons.IH [OF r1(2,3)] r1(1) show ?case by auto
qed simp

text \<open>A read past the end gives nothing, whatever came before.\<close>

lemma get_nums_short:
  "inv r \<Longrightarrow> rest r = nums_bytes vs \<Longrightarrow> \<exists>r'. get_nums get r (map num_kind vs @ [k]) = Inr (r', None)"
proof (induction vs arbitrary: r)
  case Nil
  then have "length (rest r) < num_width k" by (cases k) simp_all
  from get_short [OF Nil(1) this] show ?case by auto
next
  case (Cons v vs)
  then have "rest r = num_bytes v @ nums_bytes vs" by simp
  from get_ok [OF Cons.prems(1) this] obtain r1 where
    r1: "get r (num_kind v) = Inr (r1, Some v)" "inv r1" "rest r1 = nums_bytes vs" by blast
  from Cons.IH [OF r1(2,3)] r1(1) show ?case by auto
qed

end

section \<open>Streams\<close>

fun st_put_num :: "tn_stream \<Rightarrow> net_num \<Rightarrow> (tn_stream \<times> bool) result" where
  "st_put_num st (N8 v) = (case n_stream_write_uint8 st v of (st, r) \<Rightarrow> Inr (st, r = 1))"
| "st_put_num st (N16 v) = Inr (n_stream_write_uint16 st v)"
| "st_put_num st (N32 v) = Inr (n_stream_write_uint32 st v)"

fun st_get_num :: "tn_stream \<Rightarrow> num_width_tag \<Rightarrow> (tn_stream \<times> net_num option) result" where
  "st_get_num st K8 = (case n_stream_read_uint8 st 0 of (st, v, r) \<Rightarrow> Inr (st, if r = 1 then Some (N8 v) else None))"
| "st_get_num st K16 = (case n_stream_read_uint16 st 0 of (st, v, r) \<Rightarrow> Inr (st, if r = 1 then Some (N16 v) else None))"
| "st_get_num st K32 = (case n_stream_read_uint32 st of (st, v, r) \<Rightarrow> Inr (st, if r = 4 then Some (N32 v) else None))"

definition st_at_end :: "tn_stream \<Rightarrow> bool" where
  "st_at_end st \<longleftrightarrow> st_hook st = None \<and> f_pos (st_stream st) = length (f_bytes (st_stream st))"

definition st_room :: "tn_stream \<Rightarrow> nat" where
  "st_room st = f_limit (st_stream st) - f_pos (st_stream st)"

definition st_bytes :: "tn_stream \<Rightarrow> bytes" where
  "st_bytes st = f_bytes (st_stream st)"

definition st_rest :: "tn_stream \<Rightarrow> bytes" where
  "st_rest st = f_rest (st_stream st)"

lemma c_fwrite_end:
  "f_pos f = length (f_bytes f) \<Longrightarrow> length bs \<le> f_limit f - f_pos f \<Longrightarrow>
   c_fwrite f bs = (f\<lparr>f_bytes := f_bytes f @ bs, f_pos := f_pos f + length bs\<rparr>, length bs)"
  by (cases "bs = []") (simp_all add: c_fwrite_def Let_def)

lemma n_stream_write_end:
  assumes "st_at_end st" "length bs \<le> st_room st"
  shows "\<exists>st'. n_stream_write st bs = (st', c_int (length bs)) \<and> st_at_end st' \<and> st_bytes st' = st_bytes st @ bs \<and>
    st_room st' + length bs = st_room st \<and> f_limit (st_stream st') = f_limit (st_stream st)"
  using assms c_fwrite_end [of "st_stream st" bs]
  by (auto simp: n_stream_write_def do_s_write_def st_at_end_def st_room_def st_bytes_def)

lemma n_stream_read_split:
  "st_rest st = xs @ bs \<Longrightarrow> \<exists>st'. n_stream_read st (length xs) = (st', xs, c_int (length xs)) \<and> st_rest st' = bs \<and>
     st_hook st' = st_hook st \<and> f_bytes (st_stream st') = f_bytes (st_stream st)"
  by (auto simp: n_stream_read_def do_s_read_def c_fread_def st_rest_def f_rest_def Let_def
      drop_drop [symmetric] add.commute simp del: drop_drop)

lemma n_stream_read_short:
  "length (st_rest st) < n \<Longrightarrow> \<exists>st'. n_stream_read st n = (st', st_rest st, c_int (length (st_rest st)))"
  by (simp add: n_stream_read_def do_s_read_def c_fread_def st_rest_def Let_def)

interpretation stw: num_writer st_put_num st_bytes st_room st_at_end
proof (unfold_locales, goal_cases)
  case (1 st v)
  from n_stream_write_end [OF 1(1), of "num_bytes v"] 1(2) obtain st' where
    w: "n_stream_write st (num_bytes v) = (st', c_int (num_width (num_kind v)))" "st_at_end st'"
    "st_bytes st' = st_bytes st @ num_bytes v" "st_room st' + num_width (num_kind v) = st_room st" by auto
  then have "st_put_num st v = Inr (st', True)"
    by (cases v) (auto simp: n_stream_write_uint8_def n_stream_write_uint16_def n_stream_write_uint32_def c_int_small)
  with w show ?case by simp
qed

interpretation str: num_reader st_get_num st_rest "\<lambda>_. True"
proof (unfold_locales, goal_cases)
  case (1 st v bs)
  from n_stream_read_split [OF 1(2)] obtain st' where
    "n_stream_read st (num_width (num_kind v)) = (st', num_bytes v, c_int (num_width (num_kind v)))" "st_rest st' = bs"
    by auto
  then show ?case
    by (cases v) (auto simp: n_stream_read_uint8_def n_stream_read_uint16_def n_stream_read_uint32_def c_int_small)
next
  case (2 st k)
  from n_stream_read_short [OF 2(2)] obtain st' where
    "n_stream_read st (num_width k) = (st', st_rest st, c_int (length (st_rest st)))" by blast
  with 2(2) show ?case
    by (cases k) (auto simp: n_stream_read_uint8_def n_stream_read_uint16_def n_stream_read_uint32_def c_int_small)
qed


definition empty_stream :: tn_stream where
  "empty_stream = \<lparr>st_type = 1, st_stream = \<lparr>f_bytes = [], f_pos = 0, f_limit = 1000\<rparr>, st_fd = -1, st_hook = None\<rparr>"


section \<open>Lines\<close>

text \<open>
  The line at the front and the bytes after it.
\<close>

lemma first_line_prefix: "take (length (first_line bs)) bs = first_line bs"
  by (induction bs) auto

lemma first_line_le: "length (first_line bs) \<le> length bs"
  by (induction bs) auto

lemma first_line_set: "set (first_line bs) \<subseteq> set bs"
  by (induction bs) auto

lemma first_line_nil [simp]: "first_line bs = [] \<longleftrightarrow> bs = []"
  by (cases bs) auto

lemma getc_loop_ok:
  "0 < sz \<Longrightarrow> length buf < sz \<Longrightarrow>
   getc_loop f buf sz = Inr (f\<lparr>f_pos := f_pos f + length (first_line (f_rest f))\<rparr>, buf @ first_line (f_rest f))"
proof (induction f buf sz rule: getc_loop.induct)
  case (1 f buf sz)
  let ?sz = "if length buf = sz - 1 then 2 * sz else sz"
  have room: "length buf + 1 < ?sz" using "1.prems" by auto
  show ?case
  proof (cases "f_rest f")
    case Nil
    then show ?thesis using room by (subst getc_loop.simps) (simp add: c_getc_def)
  next
    case (Cons b bs)
    let ?f = "f\<lparr>f_pos := f_pos f + 1\<rparr>"
    have g: "c_getc f = (?f, Some b)" using Cons by (simp add: c_getc_def)
    have r: "f_rest ?f = bs" using Cons by (simp add: f_rest_def drop_Suc) (metis drop_Suc list.sel(3) tl_drop)
    show ?thesis
    proof (cases "b = 10")
      case True
      then show ?thesis using room Cons g by (subst getc_loop.simps) simp
    next
      case False
      have st: "getc_loop f buf sz = getc_loop ?f (buf @ [b]) ?sz"
        using g False room by (subst getc_loop.simps) (simp del: getc_loop.simps)
      have "getc_loop ?f (buf @ [b]) ?sz = Inr (?f\<lparr>f_pos := f_pos ?f + length (first_line (f_rest ?f))\<rparr>,
          (buf @ [b]) @ first_line (f_rest ?f))"
        using "1.prems" room by (intro "1.IH" [OF refl g [symmetric] refl _ False]) auto
      then show ?thesis unfolding st r by (simp add: Cons False)
    qed
  qed
qed

lemma first_line_drop: "n < length (first_line bs) \<Longrightarrow> first_line (drop n bs) = drop n (first_line bs)"
proof (induction bs arbitrary: n)
  case (Cons b bs)
  then show ?case by (cases n) (auto split: if_splits)
qed simp

lemma first_line_all: "bs \<noteq> [] \<Longrightarrow> last (first_line bs) \<noteq> 10 \<Longrightarrow> first_line bs = bs"
  by (induction bs) (auto split: if_splits)

lemma f_rest_skip: "f_rest (f\<lparr>f_pos := f_pos f + n\<rparr>) = drop n (f_rest f)"
  by (simp add: f_rest_def add.commute)

lemma c_strlen_whole: "0 \<notin> set bs \<Longrightarrow> c_strlen bs = length bs"
  unfolding c_strlen_def by (subst takeWhile_eq_all_conv [THEN iffD2]) auto

text \<open>What \<open>gets\<close> takes: the line or its first \<open>sz - 1\<close> characters.\<close>

lemma n_stream_gets_ok:
  assumes "0 \<notin> set (st_rest st)" "0 < sz"
  shows "\<exists>st' got. n_stream_gets st sz = (st', got, length (take (sz - 1) (first_line (st_rest st)))) \<and>
    (case got of None \<Rightarrow> [] | Some s \<Rightarrow> s) = take (sz - 1) (first_line (st_rest st)) \<and>
    st_stream st' = (st_stream st)\<lparr>f_pos := f_pos (st_stream st) + length (take (sz - 1) (first_line (st_rest st)))\<rparr> \<and>
    st_hook st' = st_hook st"
proof -
  let ?l = "take (sz - 1) (first_line (st_rest st))"
  have "0 \<notin> set ?l" using assms(1) first_line_set [of "st_rest st"] by (auto dest: in_set_takeD)
  from c_strlen_whole [OF this] show ?thesis using assms(2)
    by (cases "sz = 1"; cases "?l = []")
      (auto simp: n_stream_gets_def do_s_gets_def c_fgets_def Let_def st_rest_def c_strlen_def)
qed

text \<open>C26: \<open>n_stream_getline\<close> gives the next line with its newline, whatever the size of the buffer, with
  one exception: a line that fills the buffer exactly, newline included, is given together with
  the line after it.\<close>

theorem n_stream_getline_reads:
  assumes "0 \<notin> set (st_rest st)" "0 < sz"
  shows "\<exists>st' r. n_stream_getline mc st (Some sz) = Inr (st', r, c_int (length r)) \<and>
    st_rest st' = drop (length r) (st_rest st) \<and>
    r = (if length (first_line (st_rest st)) = sz - 1 \<and> last (first_line (st_rest st)) = 10 \<and> st_rest st \<noteq> []
         then first_line (st_rest st) @ first_line (drop (sz - 1) (st_rest st))
         else first_line (st_rest st))"
proof -
  let ?b = "st_rest st" and ?l = "first_line (st_rest st)" and ?g = "take (sz - 1) (first_line (st_rest st))"
  obtain st1 got where g: "n_stream_gets st sz = (st1, got, length ?g)" "(case got of None \<Rightarrow> [] | Some s \<Rightarrow> s) = ?g"
    "st_stream st1 = (st_stream st)\<lparr>f_pos := f_pos (st_stream st) + length ?g\<rparr>"
    using n_stream_gets_ok [OF assms] by blast
  have rest1: "st_rest st1 = drop (length ?g) ?b" using g(3) f_rest_skip by (simp add: st_rest_def)
  have get: "n_stream_getline mc st (Some sz) = (if length ?g < sz - 1 then Inr (st1, ?g, c_int (length ?g))
      else rbind (getc_loop (st_stream st1) ?g sz) (\<lambda>(f, buf). Inr (st1\<lparr>st_stream := f\<rparr>, buf, c_int (length buf))))"
    using g(1,2) assms(2) by (simp add: n_stream_getline_def Let_def)
  show ?thesis
  proof (cases "length ?l < sz - 1")
    case True
    then show ?thesis using get rest1 by simp
  next
    case False
    then have n: "length ?g = sz - 1" "\<not> length ?g < sz - 1" by auto
    define f where "f = (st_stream st1)\<lparr>f_pos := f_pos (st_stream st1) + length (first_line (st_rest st1))\<rparr>"
    have "getc_loop (st_stream st1) ?g sz = Inr (f, ?g @ first_line (st_rest st1))"
      using getc_loop_ok [of sz ?g "st_stream st1"] n assms(2) by (simp add: f_def st_rest_def)
    then have r: "n_stream_getline mc st (Some sz) = Inr (st1\<lparr>st_stream := f\<rparr>, ?g @ first_line (st_rest st1),
        c_int (length (?g @ first_line (st_rest st1))))" using get n(2) by simp
    have "st_rest (st1\<lparr>st_stream := f\<rparr>) = drop (length (?g @ first_line (st_rest st1))) ?b"
      using f_rest_skip [of "st_stream st1" "length (first_line (st_rest st1))"] rest1
      by (simp add: st_rest_def f_def add.commute)
    moreover have "?g @ first_line (st_rest st1) =
        (if length ?l = sz - 1 \<and> last ?l = 10 \<and> ?b \<noteq> [] then ?l @ first_line (drop (sz - 1) ?b) else ?l)"
    proof (cases "length ?l = sz - 1")
      case True
      then show ?thesis using rest1 n(1) first_line_all [of ?b] by (cases "?b = []") auto
    next
      case False
      with \<open>\<not> length ?l < sz - 1\<close> have "sz - 1 < length ?l" by simp
      from first_line_drop [OF this] show ?thesis using rest1 n(1) False by simp
    qed
    ultimately show ?thesis using r
      by (intro exI [of _ "st1\<lparr>st_stream := f\<rparr>"] exI [of _ "?g @ first_line (st_rest st1)"] conjI)
  qed
qed

definition two_lines :: tn_stream where
  "two_lines = empty_stream\<lparr>st_stream := \<lparr>f_bytes = [97, 98, 10, 99, 10], f_pos = 0, f_limit = 1000\<rparr>\<rparr>"

lemma n_stream_getline_reads_witness:
  "\<exists>st4 st9. n_stream_getline 256 two_lines (Some 4) = Inr (st4, [97, 98, 10, 99, 10], 5) \<and>
     n_stream_getline 256 two_lines (Some 9) = Inr (st9, [97, 98, 10], 3)"
proof -
  have r: "st_rest two_lines = [97, 98, 10, 99, 10]" by (simp add: two_lines_def st_rest_def f_rest_def)
  from n_stream_getline_reads [of two_lines 4 256] n_stream_getline_reads [of two_lines 9 256] show ?thesis
    unfolding r by (simp add: c_int_small) blast
qed

text \<open>The type of a stream is given by the part of the path after its last dot: \<open>gz\<close>, \<open>zst\<close> and
  \<open>ngz\<close> are compressed, everything else, a path without a dot included, is stdio.\<close>

theorem n_stream_guess_type_suffix:
  assumes "46 \<notin> set ext"
  shows "n_stream_guess_type zng (base @ 46 # ext) =
     (if ext = [103, 122] then TN_STREAM_GZIO else if ext = [122, 115, 116] then TN_STREAM_ZSTDIO
      else if ext = [110, 103, 122] then (if zng then TN_STREAM_GZIO_NG else TN_STREAM_GZIO)
      else TN_STREAM_STDIO) \<and>
     n_stream_guess_type zng ext = TN_STREAM_STDIO"
proof -
  have none: "c_strrchr ext 46 = None" using assms by (induction ext) auto
  then have "c_strrchr (base @ 46 # ext) 46 = Some (46 # ext)" by (induction base) auto
  with none show ?thesis by (simp add: n_stream_guess_type_def)
qed

lemma n_stream_guess_type_suffix_witness:
  "n_stream_guess_type False [97, 46, 98, 46, 103, 122] = TN_STREAM_GZIO"
  using n_stream_guess_type_suffix [of "[103, 122]" False "[97, 46, 98]"] by simp

end
