(* ===== verification/Store.thy ===== *)
theory Store
  imports Numbers OashRefine
begin

text \<open>
  Numbers of variable size in a stream (\<open>nstore.c\<close>) and the open-addressing table written to
  a stream and read back (\<open>n_oash_store\<close>, \<open>n_oash_restore\<close> of \<open>noash.c\<close>).
\<close>

section \<open>Numbers of variable size\<close>

definition n_store_uint32 :: "tn_stream \<Rightarrow> 32 word \<Rightarrow> tn_stream \<times> bool" where
  "n_store_uint32 st val =
     (let (flag, bs) = (if val < 255 then (0, [ucast val])
                        else if val < 65535 then (1, n_hton16 (ucast val)) else (2, n_hton32 val))
      in case n_stream_write (fst (n_stream_write st [flag])) bs of (st, r) \<Rightarrow> (st, r = int (length bs)))"

text \<open>The state, the value at \<open>vptr\<close> and the result, which is always 0.\<close>

definition n_restore_uint32 :: "env \<Rightarrow> tn_stream \<Rightarrow> (tn_stream \<times> 32 word \<times> int) result" where
  "n_restore_uint32 e st =
     (case n_stream_read st 1 of (st, flag, r) \<Rightarrow>
        if r \<noteq> 1 then Inr (st, 0, 0)
        else if hd flag = 0 then
          (case n_stream_read st 1 of (st, bs, r) \<Rightarrow> Inr (st, if r \<noteq> 1 then 0 else ucast (hd bs), 0))
        else if hd flag = 1 then
          (case n_stream_read st 2 of (st, bs, r) \<Rightarrow> Inr (st, if r \<noteq> 2 then 0 else ucast (n_ntoh16 bs), 0))
        else if hd flag = 2 then
          (case n_stream_read st 4 of (st, bs, r) \<Rightarrow> Inr (st, if r \<noteq> 4 then 0 else n_ntoh32 bs, 0))
        else n_assert e False (Inr (st, 0, 0)))"

section \<open>Storing and restoring the table\<close>

definition store_version :: bytes where
  "store_version = [109, 114, 51]"

fun store_slots ::
    "(ptr \<Rightarrow> tn_stream \<Rightarrow> tn_stream \<times> bool) \<Rightarrow> tn_oash \<Rightarrow> tn_stream \<Rightarrow> nat \<Rightarrow> tentry list \<Rightarrow> nat \<Rightarrow>
     (tn_stream \<times> nat) result" where
  "store_slots store_fn ht st i [] n = Inr (st, n)"
| "store_slots store_fn ht st i (t # ts) n =
     (if te_hash t = 0 then store_slots store_fn ht st (i + 1) ts n
      else
        let st = fst (n_stream_write_uint32 st (word_of_nat i));
            st = fst (n_stream_write_uint32 st (te_hash t));
            st = fst (n_stream_write_uint16 st (word_of_nat (te_psl t)));
            st = fst (n_stream_write_uint16 st (word_of_nat (te_klen t)));
            st = fst (n_stream_write_uint32 st (word_of_nat (te_di t)))
        in rbind (get_dentry (oa_data ht) t) (\<lambda>d.
          let st = fst (n_stream_write st (take (te_klen t) (de_key d))) in
          case store_fn (de_data d) st of (st, ok) \<Rightarrow>
            if \<not> ok then Inr (st, 0) else store_slots store_fn ht st (i + 1) ts (n + 1)))"

definition n_oash_store ::
    "tn_oash \<Rightarrow> tn_stream \<Rightarrow> (ptr \<Rightarrow> tn_stream \<Rightarrow> tn_stream \<times> bool) \<Rightarrow> (tn_stream \<times> nat) result" where
  "n_oash_store ht st store_fn =
     (let st = fst (n_stream_write st store_version);
          st = fst (n_stream_write_uint32 st (word_of_nat (oa_cap ht)));
          st = fst (n_stream_write_uint16 st (oa_flags ht AND NOT TN_HASH_NOCPKEY));
          st = fst (n_stream_write_uint32 st (word_of_nat (oa_size ht)))
      in store_slots store_fn ht st 0 (take (oa_cap ht) (oa_table ht)) 0)"

text \<open>
  The key goes through a local array of 512 bytes and gets a NUL behind it; a key that ends
  early leaves bytes of the array unset, which counts as a fault.
\<close>

fun restore_entries ::
    "env \<Rightarrow> (tn_stream \<Rightarrow> tn_stream \<times> ptr) \<Rightarrow> tn_oash \<Rightarrow> tn_stream \<Rightarrow> nat \<Rightarrow> (tn_stream \<times> tn_oash) result" where
  "restore_entries e restore_fn ht st 0 = Inr (st, ht)"
| "restore_entries e restore_fn ht st (Suc n) =
     (case n_stream_read_uint32 st of (st, index, _) \<Rightarrow>
      rbind (mem_read (oa_table ht) (unat index)) (\<lambda>t.
        case n_stream_read_uint32 st of (st, hash, _) \<Rightarrow>
        case n_stream_read_uint16 st (word_of_nat (te_psl t)) of (st, psl, _) \<Rightarrow>
        case n_stream_read_uint16 st (word_of_nat (te_klen t)) of (st, klen, _) \<Rightarrow>
        case n_stream_read_uint32 st of (st, di, _) \<Rightarrow>
        if klen > 511 then Inl Mem_Fault
        else case n_stream_read st (unat klen) of (st, key, _) \<Rightarrow>
          if length key < unat klen then Inl Mem_Fault
          else case restore_fn st of (st, data) \<Rightarrow>
            rbind (new_dentry e key data) (\<lambda>d. rbind (mem_write (oa_data ht) (unat di) (Some d)) (\<lambda>cells.
              restore_entries e restore_fn
                (ht\<lparr>oa_table := (oa_table ht)[unat index :=
                       \<lparr>te_hash = hash, te_psl = unat psl, te_klen = unat klen, te_di = unat di\<rparr>],
                   oa_data := cells\<rparr>) st n))))"

definition n_oash_restore ::
    "env \<Rightarrow> tn_stream \<Rightarrow> (tn_stream \<Rightarrow> tn_stream \<times> ptr) \<Rightarrow> nat option \<Rightarrow> (tn_stream \<times> tn_oash option) result" where
  "n_oash_restore e st restore_fn freefn =
     (case n_stream_read st 3 of (st, version, r) \<Rightarrow>
        if r = 0 \<or> version \<noteq> store_version then Inr (st, None)
        else case n_stream_read_uint32 st of (st, sz, _) \<Rightarrow>
          rbind (n_oash_new_ex e (unat sz) freefn False) (\<lambda>ht.
            case n_stream_read_uint16 st (oa_flags ht) of (st, flags, _) \<Rightarrow>
            case n_stream_read_uint32 st of (st, n, _) \<Rightarrow>
              rbind (restore_entries e restore_fn (ht\<lparr>oa_flags := flags, oa_size := unat n\<rparr>) st (unat n))
                (\<lambda>(st, ht). Inr (st, Some (ht\<lparr>oa_free_fn := freefn\<rparr>)))))"

section \<open>Bytes appended, bytes consumed\<close>

definition appended :: "tn_stream \<Rightarrow> bytes \<Rightarrow> tn_stream \<Rightarrow> bool" where
  "appended st bs st' \<longleftrightarrow> st_at_end st' \<and> st_bytes st' = st_bytes st @ bs \<and> st_room st' + length bs = st_room st"

lemma appended_trans: "appended st bs st1 \<Longrightarrow> appended st1 cs st2 \<Longrightarrow> appended st (bs @ cs) st2"
  by (auto simp: appended_def)

lemma write_appends:
  assumes "st_at_end st" "length bs \<le> st_room st"
  shows "appended st bs (fst (n_stream_write st bs))" "snd (n_stream_write st bs) = c_int (length bs)"
  using n_stream_write_end [OF assms] by (auto simp: appended_def)

lemma write_num_appends:
  "st_at_end st \<Longrightarrow> 2 \<le> st_room st \<Longrightarrow> appended st (n_hton16 v) (fst (n_stream_write_uint16 st v))"
  "st_at_end st \<Longrightarrow> 4 \<le> st_room st \<Longrightarrow> appended st (n_hton32 w) (fst (n_stream_write_uint32 st w))"
  using write_appends(1) [of st "n_hton16 v"] write_appends(1) [of st "n_hton32 w"]
  by (simp_all add: n_stream_write_uint16_def n_stream_write_uint32_def split_def)

definition consumed :: "tn_stream \<Rightarrow> bytes \<Rightarrow> tn_stream \<Rightarrow> bool" where
  "consumed st bs st' \<longleftrightarrow> st_rest st = bs @ st_rest st'"

lemma read_consumes:
  "st_rest st = xs @ bs \<Longrightarrow> \<exists>st'. n_stream_read st (length xs) = (st', xs, c_int (length xs)) \<and> st_rest st' = bs"
  using n_stream_read_split [of st xs bs] by blast

lemma read_num_consumes:
  "st_rest st = n_hton16 v @ bs \<Longrightarrow> \<exists>st'. n_stream_read_uint16 st v0 = (st', v, 1) \<and> st_rest st' = bs"
  "st_rest st = n_hton32 w @ bs \<Longrightarrow> \<exists>st'. n_stream_read_uint32 st = (st', w, 4) \<and> st_rest st' = bs"
  using read_consumes [of st "n_hton16 v" bs] read_consumes [of st "n_hton32 w" bs]
  by (auto simp: n_stream_read_uint16_def n_stream_read_uint32_def c_int_small)

section \<open>The round trip of a number\<close>

definition stored_bytes :: "32 word \<Rightarrow> bytes" where
  "stored_bytes val = (if val < 255 then [0, ucast val]
     else if val < 65535 then 1 # n_hton16 (ucast val) else 2 # n_hton32 val)"

lemma n_store_uint32_ok:
  assumes "st_at_end st" "5 \<le> st_room st"
  shows "\<exists>st'. n_store_uint32 st val = (st', True) \<and> appended st (stored_bytes val) st'"
proof -
  define fb :: "8 word \<times> bytes" where "fb = (if val < 255 then (0, [ucast val])
      else if val < 65535 then (1, n_hton16 (ucast val)) else (2, n_hton32 val))"
  have len: "length (snd fb) \<le> 4" by (simp add: fb_def)
  have b: "stored_bytes val = fst fb # snd fb" by (simp add: fb_def stored_bytes_def)
  let ?st1 = "fst (n_stream_write st [fst fb])"
  have a1: "appended st [fst fb] ?st1" using assms by (intro write_appends) simp_all
  then have "st_at_end ?st1" "length (snd fb) \<le> st_room ?st1" using assms(2) len by (simp_all add: appended_def)
  note w = write_appends [OF this]
  have "appended st (stored_bytes val) (fst (n_stream_write ?st1 (snd fb)))"
    using appended_trans [OF a1 w(1)] b by simp
  moreover have "n_store_uint32 st val = (fst (n_stream_write ?st1 (snd fb)), True)"
    using w(2) len unfolding n_store_uint32_def fb_def [symmetric] by (simp add: split_def c_int_small)
  ultimately show ?thesis by blast
qed

lemma ucast_small:
  "val < 255 \<Longrightarrow> ucast (ucast (val :: 32 word) :: 8 word) = val"
  "val < 65535 \<Longrightarrow> ucast (ucast (val :: 32 word) :: 16 word) = val"
  by (simp_all add: word_unat_eq_iff unsigned_ucast_eq unsigned_take_bit_eq word_less_nat_alt take_bit_nat_eq_self)

lemma n_restore_uint32_ok:
  "st_rest st = stored_bytes val @ bs \<Longrightarrow> \<exists>st'. n_restore_uint32 e st = Inr (st', val, 0) \<and> st_rest st' = bs"
proof -
  assume r: "st_rest st = stored_bytes val @ bs"
  obtain flag cs where fc: "stored_bytes val = flag # cs"
    by (cases "stored_bytes val") (auto simp: stored_bytes_def split: if_splits)
  with r have "st_rest st = [flag] @ cs @ bs" by simp
  from read_consumes [OF this] obtain st1 where s1: "n_stream_read st 1 = (st1, [flag], 1)" "st_rest st1 = cs @ bs"
    by (auto simp: c_int_small)
  from read_consumes [OF s1(2)] obtain st2 where s2: "n_stream_read st1 (length cs) = (st2, cs, c_int (length cs))"
    "st_rest st2 = bs" by blast
  show ?thesis
    using s1(1) s2 fc ucast_small [of val]
    by (auto simp: n_restore_uint32_def stored_bytes_def c_int_small split: if_splits)
qed

text \<open>C25: A number stored with \<open>n_store_uint32\<close> takes at most 5 bytes and is read back by
  \<open>n_restore_uint32\<close> into \<open>*vptr\<close>; the result of \<open>n_restore_uint32\<close> is 0 all the same.\<close>

theorem n_store_uint32_roundtrip:
  assumes "st_at_end st" "5 \<le> st_room st"
  shows "\<exists>st1 st2 st3. n_store_uint32 st val = (st1, True) \<and>
    length (st_bytes st1) \<le> length (st_bytes st) + (if val < 255 then 2 else if val < 65535 then 3 else 5) \<and>
    n_stream_seek st1 (n_stream_tell st) Seek_Set = (st2, 0) \<and>
    n_restore_uint32 e st2 = Inr (st3, val, 0) \<and> st_rest st3 = []"
proof -
  from n_store_uint32_ok [OF assms] obtain st1 where st1: "n_store_uint32 st val = (st1, True)"
    "appended st (stored_bytes val) st1" by blast
  define st2 where "st2 = st1\<lparr>st_stream := (st_stream st1)\<lparr>f_pos := f_pos (st_stream st)\<rparr>\<rparr>"
  have "n_stream_seek st1 (n_stream_tell st) Seek_Set = (st2, 0)"
    by (simp add: n_stream_seek_def c_fseek_def n_stream_tell_def st2_def)
  moreover have "st_rest st2 = stored_bytes val @ []"
    using st1(2) assms(1) by (simp add: st_rest_def f_rest_def st2_def st_bytes_def st_at_end_def appended_def)
  from n_restore_uint32_ok [OF this] obtain st3 where "n_restore_uint32 e st2 = Inr (st3, val, 0)" "st_rest st3 = []"
    by blast
  ultimately show ?thesis using st1 by (auto simp: appended_def stored_bytes_def)
qed

lemma n_store_uint32_roundtrip_witness:
  "\<exists>st1 st2 st3. n_store_uint32 empty_stream 255 = (st1, True) \<and> n_stream_seek st1 0 Seek_Set = (st2, 0) \<and>
    n_restore_uint32 plain_env st2 = Inr (st3, 255, 0)"
  using n_store_uint32_roundtrip [of empty_stream 255 plain_env]
  by (auto simp: empty_stream_def st_at_end_def st_room_def n_stream_tell_def)

section \<open>The round trip of a table\<close>

text \<open>
  What the caller's two functions must do: \<open>store_fn\<close> appends an encoding of the data and
  \<open>restore_fn\<close> reads it back.
\<close>

definition data_codec ::
    "(ptr \<Rightarrow> bytes) \<Rightarrow> (ptr \<Rightarrow> tn_stream \<Rightarrow> tn_stream \<times> bool) \<Rightarrow> (tn_stream \<Rightarrow> tn_stream \<times> ptr) \<Rightarrow> ptr set \<Rightarrow> bool" where
  "data_codec enc store_fn restore_fn P \<longleftrightarrow> (\<forall>p\<in>P.
     (\<forall>st. st_at_end st \<longrightarrow> length (enc p) \<le> st_room st \<longrightarrow>
        (\<exists>st'. store_fn p st = (st', True) \<and> appended st (enc p) st')) \<and>
     (\<forall>st bs. st_rest st = enc p @ bs \<longrightarrow> (\<exists>st'. restore_fn st = (st', p) \<and> st_rest st' = bs)))"

definition entry_bytes :: "(ptr \<Rightarrow> bytes) \<Rightarrow> nat \<Rightarrow> tentry \<Rightarrow> dentry \<Rightarrow> bytes" where
  "entry_bytes enc i t d = n_hton32 (word_of_nat i) @ n_hton32 (te_hash t) @ n_hton16 (word_of_nat (te_psl t)) @
     n_hton16 (word_of_nat (te_klen t)) @ n_hton32 (word_of_nat (te_di t)) @ de_key d @ enc (de_data d)"

fun slots_bytes :: "(ptr \<Rightarrow> bytes) \<Rightarrow> dentry option list \<Rightarrow> nat \<Rightarrow> tentry list \<Rightarrow> bytes" where
  "slots_bytes enc data i [] = []"
| "slots_bytes enc data i (t # ts) =
     (if used t then entry_bytes enc i t (the (data ! te_di t)) else []) @ slots_bytes enc data (i + 1) ts"

definition oash_bytes :: "(ptr \<Rightarrow> bytes) \<Rightarrow> tn_oash \<Rightarrow> bytes" where
  "oash_bytes enc ht = store_version @ n_hton32 (word_of_nat (oa_cap ht)) @
     n_hton16 (oa_flags ht AND NOT TN_HASH_NOCPKEY) @ n_hton32 (word_of_nat (oa_size ht)) @
     slots_bytes enc (oa_data ht) 0 (oa_table ht)"

text \<open>An entry with its data, as the invariant of the table gives it.\<close>

definition entry_fits :: "dentry option list \<Rightarrow> tentry \<Rightarrow> bool" where
  "entry_fits data t \<longleftrightarrow> (\<exists>d. get_dentry data t = Inr d \<and> data ! te_di t = Some d \<and> te_di t < length data \<and>
     length (de_key d) = te_klen t \<and> 0 < te_klen t \<and> te_klen t < 512 \<and> te_psl t < 65536)"

lemma store_entry_ok:
  assumes "data_codec enc store_fn restore_fn P" "used t" "entry_fits (oa_data ht) t" "oa_data ht ! te_di t = Some d"
    "de_data d \<in> P" "st_at_end st" "16 + length (de_key d) + length (enc (de_data d)) + m \<le> st_room st"
  obtains st' where "store_slots store_fn ht st i (t # ts) n = store_slots store_fn ht st' (i + 1) ts (n + 1)"
    "appended st (entry_bytes enc i t d) st'" "st_at_end st'" "m \<le> st_room st'"
proof -
  have h: "te_hash t \<noteq> 0" using assms(2) by (simp add: used_def)
  have d: "get_dentry (oa_data ht) t = Inr d" "length (de_key d) = te_klen t" using assms(3,4) by (auto simp: entry_fits_def)
  note room = assms(7)
  let ?s1 = "fst (n_stream_write_uint32 st (word_of_nat i))"
  let ?s2 = "fst (n_stream_write_uint32 ?s1 (te_hash t))"
  let ?s3 = "fst (n_stream_write_uint16 ?s2 (word_of_nat (te_psl t)))"
  let ?s4 = "fst (n_stream_write_uint16 ?s3 (word_of_nat (te_klen t)))"
  let ?s5 = "fst (n_stream_write_uint32 ?s4 (word_of_nat (te_di t)))"
  let ?s6 = "fst (n_stream_write ?s5 (take (te_klen t) (de_key d)))"
  have a1: "appended st (n_hton32 (word_of_nat i)) ?s1" using assms(6) room by (intro write_num_appends) auto
  have a2: "appended ?s1 (n_hton32 (te_hash t)) ?s2"
    using a1 room by (intro write_num_appends) (auto simp: appended_def)
  have a3: "appended ?s2 (n_hton16 (word_of_nat (te_psl t))) ?s3"
    using a1 a2 room by (intro write_num_appends) (auto simp: appended_def)
  have a4: "appended ?s3 (n_hton16 (word_of_nat (te_klen t))) ?s4"
    using a1 a2 a3 room by (intro write_num_appends) (auto simp: appended_def)
  have a5: "appended ?s4 (n_hton32 (word_of_nat (te_di t))) ?s5"
    using a1 a2 a3 a4 room by (intro write_num_appends) (auto simp: appended_def)
  have a6: "appended ?s5 (de_key d) ?s6"
    using a1 a2 a3 a4 a5 room d(2) write_appends(1) [of ?s5 "de_key d"] by (auto simp: appended_def)
  have "st_at_end ?s6" "length (enc (de_data d)) \<le> st_room ?s6"
    using a1 a2 a3 a4 a5 a6 room by (auto simp: appended_def)
  then obtain s7 where a7: "store_fn (de_data d) ?s6 = (s7, True)" "appended ?s6 (enc (de_data d)) s7"
    using assms(1,5) unfolding data_codec_def by blast
  have a: "appended st (entry_bytes enc i t d) s7"
    unfolding entry_bytes_def
    by (rule appended_trans [OF a1 appended_trans [OF a2 appended_trans [OF a3 appended_trans [OF a4
        appended_trans [OF a5 appended_trans [OF a6 a7(2)]]]]]])
  show thesis
    by (rule that [OF _ a]) (use h d(1) a7(1) a room in \<open>auto simp: Let_def appended_def entry_bytes_def\<close>)
qed

lemma store_slots_ok:
  assumes "data_codec enc store_fn restore_fn P"
  shows "st_at_end st \<Longrightarrow> length (slots_bytes enc (oa_data ht) i ts) \<le> st_room st \<Longrightarrow>
    \<forall>t\<in>set ts. used t \<longrightarrow> entry_fits (oa_data ht) t \<and> de_data (the (oa_data ht ! te_di t)) \<in> P \<Longrightarrow>
    \<exists>st'. store_slots store_fn ht st i ts n = Inr (st', n + length (entries ts)) \<and>
      appended st (slots_bytes enc (oa_data ht) i ts) st'"
proof (induction ts arbitrary: st i n)
  case Nil
  then show ?case by (simp add: appended_def)
next
  case (Cons t ts)
  show ?case
  proof (cases "used t")
    case False
    then have "te_hash t = 0" by (simp add: used_def)
    with Cons.IH [of st "i + 1" n] Cons.prems False show ?thesis by (simp add: entries_Cons)
  next
    case True
    obtain d where d: "entry_fits (oa_data ht) t" "oa_data ht ! te_di t = Some d" "de_data d \<in> P"
      using Cons.prems(3) True by (fastforce simp: entry_fits_def)
    have "16 + length (de_key d) + length (enc (de_data d)) + length (slots_bytes enc (oa_data ht) (i + 1) ts) \<le> st_room st"
      using Cons.prems(2) True d(2) by (simp add: entry_bytes_def)
    from store_entry_ok [OF assms True d Cons.prems(1) this, of i ts n] obtain s7 where
      s: "store_slots store_fn ht st i (t # ts) n = store_slots store_fn ht s7 (i + 1) ts (n + 1)"
      and a: "appended st (entry_bytes enc i t d) s7" and at: "st_at_end s7"
      "length (slots_bytes enc (oa_data ht) (i + 1) ts) \<le> st_room s7" by metis
    from Cons.IH [OF at, of "n + 1"] Cons.prems(3) obtain st' where
      st': "store_slots store_fn ht s7 (i + 1) ts (n + 1) = Inr (st', n + 1 + length (entries ts))"
      "appended s7 (slots_bytes enc (oa_data ht) (i + 1) ts) st'" by auto
    with s appended_trans [OF a st'(2)] True d(2) show ?thesis by (simp add: entries_Cons del: store_slots.simps)
  qed
qed

text \<open>The table and the cells with the entries of some slots put back.\<close>

fun restored_table :: "nat \<Rightarrow> tentry list \<Rightarrow> tentry list \<Rightarrow> tentry list" where
  "restored_table i [] T = T"
| "restored_table i (t # ts) T = restored_table (i + 1) ts (if used t then T[i := t] else T)"

fun restored_cells :: "dentry option list \<Rightarrow> tentry list \<Rightarrow> dentry option list \<Rightarrow> dentry option list" where
  "restored_cells data [] D = D"
| "restored_cells data (t # ts) D = restored_cells data ts (if used t then D[te_di t := data ! te_di t] else D)"

lemma restored_table_length [simp]: "length (restored_table i ts T) = length T"
  by (induction ts arbitrary: i T) auto

lemma restored_cells_length [simp]: "length (restored_cells data ts D) = length D"
  by (induction ts arbitrary: D) auto

lemma restored_table_nth:
  "i + length ts \<le> length T \<Longrightarrow> j < length T \<Longrightarrow> restored_table i ts T ! j =
     (if i \<le> j \<and> j < i + length ts \<and> used (ts ! (j - i)) then ts ! (j - i) else T ! j)"
proof (induction ts arbitrary: i T)
  case (Cons t ts)
  then show ?case by (cases "j = i") (auto simp: nth_Cons' Suc_diff_le split: if_splits)
next
  case Nil
  then show ?case by auto
qed

lemma restored_cells_nth:
  "c < length D \<Longrightarrow> restored_cells data ts D ! c = (if c \<in> pl_di ` set (entries ts) then data ! c else D ! c)"
  by (induction ts arbitrary: D) (auto simp: entries_Cons pl_di_def payload_def)

lemma restore_entry_ok:
  assumes "data_codec enc store_fn restore_fn P" "used t" "entry_fits data t" "data ! te_di t = Some d" "de_data d \<in> P"
    and rest: "st_rest st = entry_bytes enc i t d @ rest" and i: "i < length (oa_table ht)" "length (oa_table ht) \<le> 65536"
    and cells: "length (oa_data ht) = length data" "length data \<le> 65536"
  obtains st' where "restore_entries e restore_fn ht st (Suc n) =
      restore_entries e restore_fn (ht\<lparr>oa_table := (oa_table ht)[i := t], oa_data := (oa_data ht)[te_di t := Some d]\<rparr>) st' n"
    "st_rest st' = rest"
proof -
  have d: "te_di t < length data" "length (de_key d) = te_klen t"
    "0 < te_klen t" "te_klen t < 512" "te_psl t < 65536" using assms(3,4) by (auto simp: entry_fits_def)
  have r: "st_rest st = n_hton32 (word_of_nat i) @ n_hton32 (te_hash t) @ n_hton16 (word_of_nat (te_psl t)) @
      n_hton16 (word_of_nat (te_klen t)) @ n_hton32 (word_of_nat (te_di t)) @ de_key d @ enc (de_data d) @ rest"
    using rest by (simp add: entry_bytes_def)
  from read_num_consumes(2) [OF r] obtain s1 where s1: "n_stream_read_uint32 st = (s1, word_of_nat i, 4)"
    "st_rest s1 = n_hton32 (te_hash t) @ n_hton16 (word_of_nat (te_psl t)) @
      n_hton16 (word_of_nat (te_klen t)) @ n_hton32 (word_of_nat (te_di t)) @ de_key d @ enc (de_data d) @ rest" by blast
  from read_num_consumes(2) [OF s1(2)] obtain s2 where s2: "n_stream_read_uint32 s1 = (s2, te_hash t, 4)"
    "st_rest s2 = n_hton16 (word_of_nat (te_psl t)) @
      n_hton16 (word_of_nat (te_klen t)) @ n_hton32 (word_of_nat (te_di t)) @ de_key d @ enc (de_data d) @ rest" by blast
  from read_num_consumes(1) [OF s2(2)] obtain s3 where s3: "\<And>v. n_stream_read_uint16 s2 v = (s3 v, word_of_nat (te_psl t), 1)"
    "\<And>v. st_rest (s3 v) = n_hton16 (word_of_nat (te_klen t)) @ n_hton32 (word_of_nat (te_di t)) @ de_key d @ enc (de_data d) @ rest"
    by metis
  let ?s3 = "s3 (word_of_nat (te_psl (oa_table ht ! i)))"
  from read_num_consumes(1) [OF s3(2) [of "word_of_nat (te_psl (oa_table ht ! i))"]] obtain s4 where
    s4: "n_stream_read_uint16 ?s3 (word_of_nat (te_klen (oa_table ht ! i))) = (s4, word_of_nat (te_klen t), 1)"
    "st_rest s4 = n_hton32 (word_of_nat (te_di t)) @ de_key d @ enc (de_data d) @ rest" by blast
  from read_num_consumes(2) [OF s4(2)] obtain s5 where s5: "n_stream_read_uint32 s4 = (s5, word_of_nat (te_di t), 4)"
    "st_rest s5 = de_key d @ enc (de_data d) @ rest" by blast
  from read_consumes [OF s5(2)] obtain s6 where s6: "n_stream_read s5 (te_klen t) = (s6, de_key d, c_int (te_klen t))"
    "st_rest s6 = enc (de_data d) @ rest" using d(2) by auto
  obtain s7 where s7: "restore_fn s6 = (s7, de_data d)" "st_rest s7 = rest"
    using assms(1,5) s6(2) unfolding data_codec_def by blast
  have w: "unat (word_of_nat i :: 32 word) = i" "unat (word_of_nat (te_psl t) :: 16 word) = te_psl t"
    "unat (word_of_nat (te_klen t) :: 16 word) = te_klen t" "unat (word_of_nat (te_di t) :: 32 word) = te_di t"
    using i cells d by (simp_all add: unat_of_nat)
  have k: "\<not> (word_of_nat (te_klen t) :: 16 word) > 511" using d(4) w(3) by (simp add: word_less_nat_alt)
  have tt: "\<lparr>te_hash = te_hash t, te_psl = te_psl t, te_klen = te_klen t, te_di = te_di t\<rparr> = t" by (cases t) simp
  have "\<lparr>de_data = de_data d, de_key = de_key d\<rparr> = d" by (cases d) simp
  then have nd: "new_dentry e (de_key d) (de_data d) = Inr d" using d(2,3) by (simp add: new_dentry_def)
  show thesis
    by (rule that [OF _ s7(2)]) (use i cells d s1(1) s2(1) s3(1) s4(1) s5(1) s6(1) s7(1) nd in
      \<open>simp add: w k tt mem_read_def mem_write_def\<close>)
qed

lemma restore_entries_ok:
  assumes "data_codec enc store_fn restore_fn P"
  shows "st_rest st = slots_bytes enc data i ts @ bs \<Longrightarrow> i + length ts \<le> length (oa_table ht) \<Longrightarrow>
    length (oa_table ht) \<le> 65536 \<Longrightarrow> length (oa_data ht) = length data \<Longrightarrow> length data \<le> 65536 \<Longrightarrow>
    \<forall>t\<in>set ts. used t \<longrightarrow> entry_fits data t \<and> de_data (the (data ! te_di t)) \<in> P \<Longrightarrow>
    \<exists>st'. restore_entries e restore_fn ht st (length (entries ts)) =
      Inr (st', ht\<lparr>oa_table := restored_table i ts (oa_table ht), oa_data := restored_cells data ts (oa_data ht)\<rparr>) \<and>
      st_rest st' = bs"
proof (induction ts arbitrary: st i ht)
  case Nil
  then show ?case by (simp add: entries_def)
next
  case (Cons t ts)
  show ?case
  proof (cases "used t")
    case False
    with Cons.IH [of st "i + 1" ht] Cons.prems show ?thesis by (simp add: entries_Cons)
  next
    case True
    obtain d where d: "entry_fits data t" "data ! te_di t = Some d" "de_data d \<in> P"
      using Cons.prems(6) True by (fastforce simp: entry_fits_def)
    have r: "st_rest st = entry_bytes enc i t d @ slots_bytes enc data (i + 1) ts @ bs" "i < length (oa_table ht)"
      using Cons.prems(1,2) True d(2) by simp_all
    let ?ht = "ht\<lparr>oa_table := (oa_table ht)[i := t], oa_data := (oa_data ht)[te_di t := Some d]\<rparr>"
    from restore_entry_ok [OF assms True d r Cons.prems(3-5), of e "length (entries ts)"] obtain s7 where
      st: "restore_entries e restore_fn ht st (Suc (length (entries ts))) =
        restore_entries e restore_fn ?ht s7 (length (entries ts))"
      and s7: "st_rest s7 = slots_bytes enc data (i + 1) ts @ bs" by metis
    from Cons.IH [OF s7, of ?ht] Cons.prems obtain st' where
      "restore_entries e restore_fn ?ht s7 (length (entries ts)) =
        Inr (st', ?ht\<lparr>oa_table := restored_table (i + 1) ts (oa_table ?ht), oa_data := restored_cells data ts (oa_data ?ht)\<rparr>)"
      "st_rest st' = bs" by auto
    with st True d(2) show ?thesis by (simp add: entries_Cons del: restore_entries.simps)
  qed
qed

text \<open>Two tables with the same slots in use have the same entries and keep the same invariant.\<close>

lemma same_slots:
  assumes "rh_inv cap T" "length T' = cap" "\<forall>j<cap. if used (T ! j) then T' ! j = T ! j else \<not> used (T' ! j)"
  shows "rh_inv cap T'" "entries T' = entries T"
proof -
  have len: "length T = cap" "1 < cap" using assms(1) by (auto simp: rh_inv_def)
  have same: "used (T' ! j) = used (T ! j)" "used (T ! j) \<Longrightarrow> T' ! j = T ! j" if "j < cap" for j
    using assms(3) that by (auto split: if_splits)
  have "rh_slot cap T' j \<and> rh_next cap T' j" if j: "j < cap" for j
  proof -
    have k: "(j + 1) mod cap < cap" using len by simp
    have old: "rh_slot cap T j" "rh_next cap T j" using assms(1) j by (auto simp: rh_inv_def)
    have "rh_slot cap T' j"
    proof (cases "used (T ! j)")
      case True
      from old(1) show ?thesis unfolding rh_slot_def same(2) [OF j True] .
    next
      case False
      then show ?thesis using same(1) [OF j] by (simp add: rh_slot_def)
    qed
    moreover have "rh_next cap T' j"
      using old(2) same(1) [OF j] same(2) [OF j] same(1) [OF k] same(2) [OF k] unfolding rh_next_def Let_def by metis
    ultimately show ?thesis by blast
  qed
  then show "rh_inv cap T'" using assms(2) len by (simp add: rh_inv_def)
  have "concat (map (\<lambda>j. if used (T' ! j) then [payload (T' ! j)] else []) [0..<cap]) =
      concat (map (\<lambda>j. if used (T ! j) then [payload (T ! j)] else []) [0..<cap])"
    using same by (intro arg_cong [of _ _ concat] map_cong) auto
  moreover have "entries X = concat (map (\<lambda>j. if used (X ! j) then [payload (X ! j)] else []) [0..<length X])" for X
  proof -
    have "entries X = concat (map (\<lambda>t. if used t then [payload t] else []) X)"
      by (induction X) (auto simp: entries_Cons)
    also have "map (\<lambda>t. if used t then [payload t] else []) X =
        map (\<lambda>j. if used (X ! j) then [payload (X ! j)] else []) [0..<length X]"
      by (rule nth_equalityI) auto
    finally show ?thesis .
  qed
  ultimately show "entries T' = entries T" using assms(2) len by simp
qed

lemma rsize_loop_power:
  assumes "n = 2 ^ m" "4 \<le> n" shows "rsize_loop 4 n = n"
proof -
  obtain m' where m': "rsize_loop 4 n = 2 ^ m'" using rsize_pow [of 2 n] by auto
  have r: "n \<le> rsize_loop 4 n" "rsize_loop 4 n = 4 \<or> rsize_loop 4 n < 2 * n" using rsize_loop_ok [of 4 n] by auto
  have "rsize_loop 4 n \<noteq> 4 \<Longrightarrow> m' = m"
  proof -
    assume "rsize_loop 4 n \<noteq> 4"
    then have "(2::nat) ^ m \<le> 2 ^ m'" "(2::nat) ^ m' < 2 ^ Suc m" using r m' assms(1) by auto
    then show "m' = m" by (auto simp del: power_Suc simp: less_Suc_eq_le)
  qed
  then show ?thesis using r m' assms by (cases "rsize_loop 4 n = 4") auto
qed

lemma slot_entry_fits:
  assumes "oash_inv ht" "\<forall>k\<in>keys_of ht. length k < 512" "t \<in> set (oa_table ht)" "used t"
  shows "entry_fits (oa_data ht) t \<and> de_data (the (oa_data ht ! te_di t)) \<in> ran (oash_map ht)"
proof -
  obtain j where j: "j < oa_cap ht" "oa_table ht ! j = t"
    using assms(3) oash_inv_cap [OF assms(1)] by (auto simp: in_set_conv_nth)
  then have u: "used (oa_table ht ! j)" using assms(4) by simp
  note f = slot_facts [OF assms(1) j(1) u]
  have hk: "holds_key ht (slot_key ht j) j" using j(1) u by (simp add: holds_key_def)
  from slot_dentry [OF assms(1) hk] j(2) obtain d where d: "get_dentry (oa_data ht) t = Inr d"
    "oa_data ht ! te_di t = Some d" "oash_map ht (slot_key ht j) = Some (de_data d)" "de_key d = slot_key ht j"
    "te_di t < length (oa_data ht)" by auto
  have "slot_key ht j \<in> keys_of ht" using d(3) by (auto simp: keys_of_def)
  then have "length (de_key d) < 512" using assms(2) d(4) by simp
  moreover have "te_klen t = length (de_key d)" "0 < length (de_key d)"
    using f(3,5) j(2) d(4) by (simp_all add: slot_key_def key_ok_def)
  moreover have "te_psl t < 65536"
    using slot_home(2) [OF assms(1) hk] oash_inv_cap [OF assms(1)] j(2) by simp
  moreover have "de_data d \<in> ran (oash_map ht)" using d(3) by (rule ranI)
  ultimately show ?thesis using d by (auto simp: entry_fits_def)
qed

lemma oash_table_sizes:
  assumes "oash_inv ht"
  shows "length (oa_table ht) = oa_cap ht" "oa_cap ht \<le> 65536" "length (oa_data ht) = oa_cap ht"
    "oa_size ht = length (entries (oa_table ht))" "oa_size ht \<le> oa_cap ht"
proof -
  show c: "length (oa_table ht) = oa_cap ht" "oa_cap ht \<le> 65536" "length (oa_data ht) = oa_cap ht"
    "oa_size ht = length (entries (oa_table ht))"
    using assms oash_inv_cap [OF assms] by (auto simp: oash_inv_def)
  show "oa_size ht \<le> oa_cap ht" using c length_filter_le [of used "oa_table ht"] by (simp add: entries_def)
qed

lemma all_entries_fit:
  assumes "oash_inv ht" "\<forall>k\<in>keys_of ht. length k < 512"
  shows "\<forall>t\<in>set (oa_table ht). used t \<longrightarrow> entry_fits (oa_data ht) t \<and> de_data (the (oa_data ht ! te_di t)) \<in> ran (oash_map ht)"
  using slot_entry_fits [OF assms] by blast

text \<open>Writing a table.\<close>

lemma oash_store_ok:
  assumes "oash_inv ht" "\<forall>k\<in>keys_of ht. length k < 512" "data_codec enc store_fn restore_fn (ran (oash_map ht))"
    "st_at_end st" "length (oash_bytes enc ht) \<le> st_room st"
  shows "\<exists>st1. n_oash_store ht st store_fn = Inr (st1, n_oash_size ht) \<and> appended st (oash_bytes enc ht) st1"
proof -
  let ?T = "oa_table ht" and ?cap = "oa_cap ht"
  let ?flags = "oa_flags ht AND NOT TN_HASH_NOCPKEY" and ?slots = "slots_bytes enc (oa_data ht) 0 ?T"
  let ?s1 = "fst (n_stream_write st store_version)"
  let ?s2 = "fst (n_stream_write_uint32 ?s1 (word_of_nat ?cap))"
  let ?s3 = "fst (n_stream_write_uint16 ?s2 ?flags)"
  let ?s4 = "fst (n_stream_write_uint32 ?s3 (word_of_nat (oa_size ht)))"
  have room: "13 + length ?slots \<le> st_room st" using assms(5) by (simp add: oash_bytes_def store_version_def)
  have a1: "appended st store_version ?s1"
    using assms(4) room by (intro write_appends) (auto simp: store_version_def)
  have a2: "appended ?s1 (n_hton32 (word_of_nat ?cap)) ?s2"
    using a1 room by (intro write_num_appends) (auto simp: appended_def store_version_def)
  have a3: "appended ?s2 (n_hton16 ?flags) ?s3"
    using a1 a2 room by (intro write_num_appends) (auto simp: appended_def store_version_def)
  have a4: "appended ?s3 (n_hton32 (word_of_nat (oa_size ht))) ?s4"
    using a1 a2 a3 room by (intro write_num_appends) (auto simp: appended_def store_version_def)
  have "st_at_end ?s4" "length ?slots \<le> st_room ?s4"
    using a1 a2 a3 a4 room by (auto simp: appended_def store_version_def)
  from store_slots_ok [OF assms(3) this all_entries_fit [OF assms(1,2)], of 0] obtain st1 where
    st1: "store_slots store_fn ht ?s4 0 ?T 0 = Inr (st1, length (entries ?T))" "appended ?s4 ?slots st1" by auto
  have "n_oash_store ht st store_fn = Inr (st1, n_oash_size ht)"
    using st1(1) oash_table_sizes [OF assms(1)] by (simp add: n_oash_store_def Let_def n_oash_size_def)
  moreover have "appended st (oash_bytes enc ht) st1"
    unfolding oash_bytes_def
    by (rule appended_trans [OF a1 appended_trans [OF a2 appended_trans [OF a3 appended_trans [OF a4 st1(2)]]]])
  ultimately show ?thesis by blast
qed

text \<open>The table the numbers in front of the entries make, and the one that comes out.\<close>

definition fresh_oash :: "tn_oash \<Rightarrow> nat option \<Rightarrow> tn_oash" where
  "fresh_oash ht freefn = \<lparr>oa_refcnt = 0, oa_flags = oa_flags ht AND NOT TN_HASH_NOCPKEY, oa_cap = oa_cap ht,
     oa_table = replicate (oa_cap ht) no_entry, oa_size = oa_size ht, oa_dcap = oa_cap ht,
     oa_data = replicate (oa_cap ht) None, oa_dsize = 0, oa_free_fn = freefn, oa_na = False, oa_freed = []\<rparr>"

definition restored_oash :: "tn_oash \<Rightarrow> nat option \<Rightarrow> tn_oash" where
  "restored_oash ht freefn = (fresh_oash ht freefn)\<lparr>oa_table := restored_table 0 (oa_table ht) (replicate (oa_cap ht) no_entry),
     oa_data := oa_data ht\<rparr>"

lemma restored_cells_all:
  assumes "oash_inv ht"
  shows "restored_cells (oa_data ht) (oa_table ht) (replicate (oa_cap ht) None) = oa_data ht"
proof (rule nth_equalityI)
  let ?D = "oa_data ht"
  note sz = oash_table_sizes [OF assms]
  have ok: "data_ok ?D (entries (oa_table ht))" using assms by (simp add: oash_inv_def)
  show "length (restored_cells ?D (oa_table ht) (replicate (oa_cap ht) None)) = length ?D" using sz by simp
  fix c assume "c < length (restored_cells ?D (oa_table ht) (replicate (oa_cap ht) None))"
  then have c: "c < length ?D" using sz by simp
  have "{k. k < length ?D \<and> ?D ! k \<noteq> None} = pl_di ` set (entries (oa_table ht))" using ok by (simp only: data_ok_def)
  with c have "?D ! c \<noteq> None \<longleftrightarrow> c \<in> pl_di ` set (entries (oa_table ht))" by blast
  then show "restored_cells ?D (oa_table ht) (replicate (oa_cap ht) None) ! c = ?D ! c"
    using c sz restored_cells_nth [of c "replicate (oa_cap ht) None" ?D "oa_table ht"] by auto
qed

text \<open>Reading a table.\<close>

lemma oash_restore_ok:
  assumes "oash_inv ht" "4 \<le> oa_cap ht" "\<forall>k\<in>keys_of ht. length k < 512"
    "data_codec enc store_fn restore_fn (ran (oash_map ht))" "st_rest st = oash_bytes enc ht"
  shows "\<exists>st'. n_oash_restore e st restore_fn freefn = Inr (st', Some (restored_oash ht freefn))"
proof -
  let ?cap = "oa_cap ht" and ?flags = "oa_flags ht AND NOT TN_HASH_NOCPKEY"
    and ?slots = "slots_bytes enc (oa_data ht) 0 (oa_table ht)" and ?h = "fresh_oash ht freefn"
  note sz = oash_table_sizes [OF assms(1)]
  have r: "st_rest st = store_version @ n_hton32 (word_of_nat ?cap) @ n_hton16 ?flags @
      n_hton32 (word_of_nat (oa_size ht)) @ ?slots @ []" using assms(5) by (simp add: oash_bytes_def)
  have l3: "length store_version = 3" by (simp add: store_version_def)
  from read_consumes [OF r, unfolded l3] obtain r1 where r1: "n_stream_read st 3 = (r1, store_version, 3)"
    "st_rest r1 = n_hton32 (word_of_nat ?cap) @ n_hton16 ?flags @ n_hton32 (word_of_nat (oa_size ht)) @ ?slots @ []"
    by (auto simp: c_int_small)
  from read_num_consumes(2) [OF r1(2)] obtain r2 where r2: "n_stream_read_uint32 r1 = (r2, word_of_nat ?cap, 4)"
    "st_rest r2 = n_hton16 ?flags @ n_hton32 (word_of_nat (oa_size ht)) @ ?slots @ []" by blast
  from read_num_consumes(1) [OF r2(2)] obtain r3 where r3: "n_stream_read_uint16 r2 0 = (r3, ?flags, 1)"
    "st_rest r3 = n_hton32 (word_of_nat (oa_size ht)) @ ?slots @ []" by blast
  from read_num_consumes(2) [OF r3(2)] obtain r4 where r4: "n_stream_read_uint32 r3 = (r4, word_of_nat (oa_size ht), 4)"
    "st_rest r4 = ?slots @ []" by blast
  have w: "unat (word_of_nat ?cap :: 32 word) = ?cap" "unat (word_of_nat (oa_size ht) :: 32 word) = oa_size ht"
    using sz by (simp_all add: unat_of_nat)
  obtain m where m: "?cap = 2 ^ m" using assms(1) by (auto simp: oash_inv_def)
  have new: "\<exists>h0. n_oash_new_ex e ?cap freefn False = Inr h0 \<and> oa_flags h0 = 0 \<and>
      h0\<lparr>oa_flags := ?flags, oa_size := oa_size ht\<rparr> = ?h"
    using sz(2) rsize_loop_power [OF m assms(2)] by (simp add: n_oash_new_ex_def ohash_new2_def ohash_new_ex_def fresh_oash_def)
  from restore_entries_ok [OF assms(4) r4(2), of ?h e] all_entries_fit [OF assms(1,3)] sz obtain st3 where
    "restore_entries e restore_fn ?h r4 (oa_size ht) =
      Inr (st3, ?h\<lparr>oa_table := restored_table 0 (oa_table ht) (oa_table ?h), oa_data := restored_cells (oa_data ht) (oa_table ht) (oa_data ?h)\<rparr>)"
    by (auto simp: fresh_oash_def)
  then have "restore_entries e restore_fn ?h r4 (oa_size ht) = Inr (st3, restored_oash ht freefn)"
    using restored_cells_all [OF assms(1)] by (simp add: restored_oash_def fresh_oash_def)
  then show ?thesis using new r1(1) r2(1) r3(1) r4(1)
    by (auto simp: n_oash_restore_def w restored_oash_def fresh_oash_def)
qed

lemma restored_oash_ok:
  assumes "oash_inv ht"
  shows "oash_inv (restored_oash ht freefn)" "oash_list (restored_oash ht freefn) = oash_list ht"
proof -
  let ?h = "restored_oash ht freefn"
  note sz = oash_table_sizes [OF assms]
  have slots: "oa_table ?h ! j = (if used (oa_table ht ! j) then oa_table ht ! j else no_entry)" if "j < oa_cap ht" for j
    using that sz(1) restored_table_nth [of 0 "oa_table ht" "replicate (oa_cap ht) no_entry" j]
    by (simp add: restored_oash_def)
  have "rh_inv (oa_cap ht) (oa_table ht)" using assms by (simp add: oash_inv_def)
  from same_slots [OF this, of "oa_table ?h"] slots
  have same: "rh_inv (oa_cap ht) (oa_table ?h)" "entries (oa_table ?h) = entries (oa_table ht)"
    by (auto simp: restored_oash_def fresh_oash_def no_entry_def used_def)
  have sel: "oa_cap ?h = oa_cap ht" "oa_data ?h = oa_data ht" "oa_size ?h = oa_size ht" "oa_dcap ?h = oa_cap ht"
    by (simp_all add: restored_oash_def fresh_oash_def)
  show "oash_inv ?h" using assms same sz by (simp add: oash_inv_def sel)
  show "oash_list ?h = oash_list ht" using same(2) by (simp add: oash_list_def sel)
qed

text \<open>C24: A table written with \<open>n_oash_store\<close> and read back with \<open>n_oash_restore\<close> has the same entries
  in the same slots, if the caller's functions write and read the data, the keys fit the local
  array of 512 bytes, the table has at least the 4 slots of a new one and the stream has room.\<close>

theorem n_oash_store_restore:
  assumes "oash_inv ht" "4 \<le> oa_cap ht" "\<forall>k\<in>keys_of ht. length k < 512"
    "data_codec enc store_fn restore_fn (ran (oash_map ht))"
    "st_at_end st" "length (oash_bytes enc ht) \<le> st_room st"
  shows "\<exists>st1 st2 st3 ht'. n_oash_store ht st store_fn = Inr (st1, n_oash_size ht) \<and>
    n_stream_seek st1 (n_stream_tell st) Seek_Set = (st2, 0) \<and>
    n_oash_restore e st2 restore_fn freefn = Inr (st3, Some ht') \<and> oash_inv ht' \<and> oa_cap ht' = oa_cap ht \<and>
    oash_list ht' = oash_list ht \<and> oash_map ht' = oash_map ht \<and> oa_free_fn ht' = freefn \<and>
    n_oash_size ht' = n_oash_size ht \<and> oa_dsize ht' = 0"
proof -
  from oash_store_ok [OF assms(1,3-6)] obtain st1 where
    st1: "n_oash_store ht st store_fn = Inr (st1, n_oash_size ht)" "appended st (oash_bytes enc ht) st1" by blast
  define st2 where "st2 = st1\<lparr>st_stream := (st_stream st1)\<lparr>f_pos := f_pos (st_stream st)\<rparr>\<rparr>"
  have seek: "n_stream_seek st1 (n_stream_tell st) Seek_Set = (st2, 0)"
    by (simp add: n_stream_seek_def c_fseek_def n_stream_tell_def st2_def)
  have "st_rest st2 = oash_bytes enc ht"
    using st1(2) assms(5) by (simp add: st_rest_def f_rest_def st2_def st_bytes_def st_at_end_def appended_def)
  from oash_restore_ok [OF assms(1-4) this, of e freefn] obtain st3 where
    "n_oash_restore e st2 restore_fn freefn = Inr (st3, Some (restored_oash ht freefn))" by blast
  moreover have "oa_cap (restored_oash ht freefn) = oa_cap ht \<and> oa_free_fn (restored_oash ht freefn) = freefn \<and>
      oa_size (restored_oash ht freefn) = oa_size ht \<and> oa_dsize (restored_oash ht freefn) = 0"
    by (simp add: restored_oash_def fresh_oash_def)
  ultimately show ?thesis using st1(1) seek restored_oash_ok [OF assms(1), of freefn]
    by (auto simp: oash_map_def n_oash_size_def)
qed

text \<open>Small pointers as data, written as 32 bit numbers.\<close>

definition num_store :: "ptr \<Rightarrow> tn_stream \<Rightarrow> tn_stream \<times> bool" where
  "num_store p st = n_stream_write_uint32 st (ucast p)"

definition num_restore :: "tn_stream \<Rightarrow> tn_stream \<times> ptr" where
  "num_restore st = (case n_stream_read_uint32 st of (st, v, r) \<Rightarrow> (st, ucast v))"

lemma num_enc_len: "length (n_hton32 (ucast (p::ptr))) = 4" "n_hton32 (ucast (5::ptr)) = n_hton32 5"
  by simp_all

lemma num_codec: "data_codec (\<lambda>p. n_hton32 (ucast p)) num_store num_restore {5}"
proof -
  have st: "\<exists>st'. num_store p st = (st', True) \<and> appended st (n_hton32 (ucast p)) st'"
    if "st_at_end st" "4 \<le> st_room st" for p st
    using write_num_appends(2) [OF that, of "ucast p"] write_appends(2) [OF that(1), of "n_hton32 (ucast p)"] that
    by (simp add: num_store_def n_stream_write_uint32_def split_def c_int_small)
  have "\<exists>st'. num_restore st = (st', 5) \<and> st_rest st' = bs" if "st_rest st = n_hton32 5 @ bs" for st bs
    using read_num_consumes(2) [OF that] by (auto simp: num_restore_def)
  with st [of _ 5] show ?thesis by (simp add: data_codec_def num_enc_len)
qed

lemma n_oash_store_restore_witness:
  "\<exists>ht st1 st2 st3 ht'. oash_map ht = [[97] \<mapsto> 5] \<and> n_oash_store ht empty_stream num_store = Inr (st1, 1) \<and>
    n_stream_seek st1 0 Seek_Set = (st2, 0) \<and>
    n_oash_restore plain_env st2 num_restore None = Inr (st3, Some ht') \<and> oash_map ht' = [[97] \<mapsto> 5]"
proof -
  obtain h0 where h0: "n_oash_new_ex plain_env 4 None False = Inr h0" "n_oash_ctl plain_env h0 0 = Inr (h0\<lparr>oa_flags := 0\<rparr>, 1)"
    by (simp add: n_oash_new_ex_def ohash_new2_def ohash_new_ex_def rsize_loop.simps n_oash_ctl_def)
  note new = new_oash [OF _ h0, simplified]
  let ?h = "h0\<lparr>oa_flags := 0\<rparr>"
  have flags: "\<not> oa_has ?h TN_HASH_REHASH" by (simp add: oa_has_def)
  have pre: "key_ok [97]" "put_hash [97] 0" "oash_map ?h [97] = None" "oa_size ?h < oa_cap ?h" "may_grow ?h"
    "no_clash (insert [97] (keys_of ?h))"
    using new flags by (simp_all add: key_ok_def put_hash_def may_grow_def no_clash_def keys_of_def)
  from n_oash_put_absent [OF new(1) pre, of plain_env 5 Put_Die] obtain ht where
    h: "oash_inv ht" "oash_map ht = (oash_map ?h)([97] \<mapsto> 5)" "oa_size ht = oa_size ?h + 1" "oa_cap ht = oa_cap ?h"
    by (simp only: flags simp_thms if_False) blast
  have ht: "oash_inv ht" "oash_map ht = [[97] \<mapsto> 5]" "oa_size ht = 1" "4 \<le> oa_cap ht"
    using h new by simp_all
  have len: "length (entries (oa_table ht)) = 1" using ht(1,3) by (simp add: oash_inv_def)
  have keys: "keys_of ht = {[97]}" using ht(2) by (auto simp: keys_of_def)
  then have klen: "\<forall>k\<in>keys_of ht. length k < 512" by simp
  have slots: "length (slots_bytes enc D i ts) = sum_list (map (\<lambda>t. 16 + length (de_key (the (D ! te_di t))) +
      length (enc (de_data (the (D ! te_di t))))) (filter used ts))" for enc D i ts
    by (induction ts arbitrary: i) (auto simp: entry_bytes_def)
  obtain t where t: "filter used (oa_table ht) = [t]"
    using len by (auto simp: entries_def length_Suc_conv)
  then have "t \<in> set (filter used (oa_table ht))" by simp
  then have "t \<in> set (oa_table ht)" "used t" by simp_all
  then have "length (de_key (the (oa_data ht ! te_di t))) < 512"
    using slot_entry_fits [OF ht(1) klen] unfolding entry_fits_def by fastforce
  then have room: "length (oash_bytes (\<lambda>p. n_hton32 (ucast p)) ht) \<le> st_room empty_stream"
    by (simp add: oash_bytes_def slots t store_version_def empty_stream_def st_room_def)
  have "ran (oash_map ht) = {5}" using ht(2) by auto
  with num_codec have codec: "data_codec (\<lambda>p. n_hton32 (ucast p)) num_store num_restore (ran (oash_map ht))" by simp
  have "st_at_end empty_stream" by (simp add: empty_stream_def st_at_end_def)
  have pos: "n_stream_tell empty_stream = 0" "n_oash_size ht = 1"
    using ht(3) by (simp_all add: empty_stream_def n_stream_tell_def n_oash_size_def)
  from n_oash_store_restore [OF ht(1,4) klen codec \<open>st_at_end empty_stream\<close> room, of plain_env None, unfolded pos]
  show ?thesis using ht(2) by metis
qed

end
