(* ===== verification/Buf.thy ===== *)
theory Buf
  imports Store
begin

text \<open>
  The dynamic buffer (\<open>nbuf.c\<close>, \<open>nbuf.h\<close>): writing at a position, growing, seeking, the
  iterator that reads it, and storing a buffer on a stream or in another buffer.

  The block is a list of cells; a cell nobody has written yet is \<open>None\<close>, and a program that
  looks at its value is faulty. \<open>bf_data = None\<close> is \<open>NULL\<close>. An \<open>int\<close> argument is an \<open>int\<close>,
  cut to 32 bits or extended to 64 where the code does it. A buffer is not its own source.
\<close>

section \<open>Cells\<close>

type_synonym cells = "8 word option list"

text \<open>The bytes behind a pointer to \<open>n\<close> cells that all have a value.\<close>

definition cells_bytes :: "cells \<Rightarrow> nat \<Rightarrow> nat \<Rightarrow> bytes result" where
  "cells_bytes cs i n =
     (if n = 0 then Inr []
      else if i + n \<le> length cs \<and> None \<notin> set (take n (drop i cs))
      then Inr (map the (take n (drop i cs))) else Inl Mem_Fault)"

text \<open>\<open>memcpy(&dst[i], src, n)\<close> with a signed \<open>n\<close>: a negative one is a count close to \<open>2\<^sup>6\<^sup>4\<close>.\<close>

definition cells_copy :: "cells \<Rightarrow> nat \<Rightarrow> cells \<Rightarrow> int \<Rightarrow> cells result" where
  "cells_copy dst i src n =
     (if n = 0 then Inr dst
      else if n < 0 \<or> length src < nat n \<or> length dst < i + nat n then Inl Mem_Fault
      else Inr (take i dst @ take (nat n) src @ drop (i + nat n) dst))"

text \<open>An integer as a \<open>size_t\<close>.\<close>

definition to_size :: "int \<Rightarrow> nat" where
  "to_size i = nat (i mod 2 ^ 64)"

lemma to_size_small: "0 \<le> i \<Longrightarrow> i < 2 ^ 64 \<Longrightarrow> to_size i = nat i"
  by (simp add: to_size_def)

section \<open>The buffer\<close>

record tn_buf =
  bf_refcnt :: "16 word"
  bf_flags :: "16 word"
  bf_data :: "cells option"
  bf_allocated :: nat
  bf_size :: nat
  bf_off :: nat

definition TN_BUF_CONSTSIZE :: "16 word" where "TN_BUF_CONSTSIZE = 1"
definition TN_BUF_CONSTDATA :: "16 word" where "TN_BUF_CONSTDATA = 2"

definition bf_has :: "tn_buf \<Rightarrow> 16 word \<Rightarrow> bool" where
  "bf_has b f \<longleftrightarrow> bf_flags b AND f \<noteq> 0"

definition bf_cells :: "tn_buf \<Rightarrow> cells" where
  "bf_cells b = (case bf_data b of None \<Rightarrow> [] | Some cs \<Rightarrow> cs)"

text \<open>\<open>malloc\<close> cannot give the block of a negative size, and \<open>n_malloc\<close> then ends the process.\<close>

definition n_buf_new :: "int \<Rightarrow> tn_buf result" where
  "n_buf_new initial_size =
     (let b = \<lparr>bf_refcnt = 0, bf_flags = 0, bf_data = None, bf_allocated = 0, bf_size = 0, bf_off = 0\<rparr> in
      if initial_size = 0 then Inr b
      else if initial_size < 0 then Inl (Died ''Memory exhausted'')
      else Inr (b\<lparr>bf_allocated := nat initial_size, bf_data := Some ((replicate (nat initial_size) None)[0 := Some 0])\<rparr>))"

definition n_buf_init :: "env \<Rightarrow> tn_buf \<Rightarrow> cells option \<Rightarrow> int \<Rightarrow> tn_buf result" where
  "n_buf_init e b buffer n = n_assert e (bf_data b = None)
     (Inr (b\<lparr>bf_off := 0, bf_data := buffer, bf_allocated := to_size n, bf_size := to_size n,
             bf_flags := TN_BUF_CONSTSIZE OR TN_BUF_CONSTDATA\<rparr>))"

definition n_buf_ctl :: "tn_buf \<Rightarrow> 16 word \<Rightarrow> tn_buf" where
  "n_buf_ctl b flags = b\<lparr>bf_flags := bf_flags b OR flags\<rparr>"

definition n_buf_clean :: "tn_buf \<Rightarrow> tn_buf result" where
  "n_buf_clean b =
     (if bf_has b TN_BUF_CONSTDATA
      then Inr (b\<lparr>bf_data := None, bf_allocated := 0, bf_flags := 0, bf_off := 0\<rparr>)
      else let b = b\<lparr>bf_size := 0, bf_off := 0\<rparr> in
        rbind (mem_write (bf_cells b) 0 (Some 0)) (\<lambda>cs. Inr (b\<lparr>bf_data := Some cs\<rparr>)))"

text \<open>The buffer, if it stays, and whether \<open>free\<close> is called on its block.\<close>

definition n_buf_free :: "tn_buf \<Rightarrow> tn_buf option \<times> bool" where
  "n_buf_free b =
     (if bf_refcnt b > 0 then (Some (b\<lparr>bf_refcnt := bf_refcnt b - 1\<rparr>), False)
      else (None, \<not> bf_has b TN_BUF_CONSTDATA))"

definition n_buf_size :: "tn_buf \<Rightarrow> int" where
  "n_buf_size b = c_int (bf_size b)"

definition n_buf_ptr :: "tn_buf \<Rightarrow> cells option" where
  "n_buf_ptr b = bf_data b"

section \<open>Growing\<close>

text \<open>\<open>False\<close> stands for a \<open>NULL\<close> result. The difference of the sizes is an \<open>int\<close>.\<close>

definition n_buf_realloc :: "env \<Rightarrow> tn_buf \<Rightarrow> nat \<Rightarrow> (tn_buf \<times> bool) result" where
  "n_buf_realloc e b new_size =
     (let diff = c_int (to_size (int new_size - int (bf_allocated b))) in
      n_assert e (diff > 0)
       (if bf_has b TN_BUF_CONSTSIZE
        then trurl_die e ''n_buf_grow: grow request for const size buffer'' (Inr (b, False))
        else if diff > 0
        then Inr (b\<lparr>bf_data := Some (take new_size (bf_cells b) @ replicate (new_size - length (bf_cells b)) None),
                    bf_allocated := new_size\<rparr>, True)
        else Inr (b, True)))"

partial_function (option) buf_grow_loop :: "nat \<Rightarrow> nat \<Rightarrow> nat option" where
  "buf_grow_loop req sz = (if req \<ge> sz then buf_grow_loop req (2 * sz mod 2 ^ 64) else Some sz)"

definition n_buf_grow :: "env \<Rightarrow> tn_buf \<Rightarrow> nat \<Rightarrow> (tn_buf \<times> bool) result" where
  "n_buf_grow e b req_size =
     (case buf_grow_loop req_size (if bf_allocated b = 0 then 2 else bf_allocated b) of
        None \<Rightarrow> Inl Hang
      | Some new_size \<Rightarrow> n_buf_realloc e b new_size)"

section \<open>Writing\<close>

definition n_buf_seek :: "env \<Rightarrow> tn_buf \<Rightarrow> int \<Rightarrow> whence \<Rightarrow> (tn_buf \<times> int) result" where
  "n_buf_seek e b off w =
     rbind (case w of
         Seek_Cur \<Rightarrow> Inr (b\<lparr>bf_off := to_size (int (bf_off b) + off)\<rparr>)
       | Seek_Set \<Rightarrow> Inr (b\<lparr>bf_off := to_size off\<rparr>)
       | Seek_End \<Rightarrow> (let b = b\<lparr>bf_off := bf_size b\<rparr> in
           if off \<noteq> 0 then trurl_die e ''nbuf: offset must be 0 with SEEK_END'' (Inr b) else Inr b)
       | Seek_Other _ \<Rightarrow> trurl_die e ''nbuf: unknown whence'' (Inr b))
      (\<lambda>b. Inr (b, c_int (bf_off b)))"

text \<open>
  \<open>src\<close> is the memory behind \<open>ptr\<close>. The room is compared as 64 bits with a sum of 32 bits; a
  position behind the block makes the difference wrap around.
\<close>

definition n_buf_write_ex :: "env \<Rightarrow> tn_buf \<Rightarrow> cells \<Rightarrow> int \<Rightarrow> bool \<Rightarrow> (tn_buf \<times> int) result" where
  "n_buf_write_ex e b src n zero =
     (let z = (if zero then 1 else 0) in
      rbind (if to_size (int (bf_allocated b) - int (bf_off b)) < nat ((n + z + 1) mod 2 ^ 32)
             then n_buf_grow e b (to_size (int (bf_allocated b) + n + z + 1)) else Inr (b, True))
       (\<lambda>(b, ok). if \<not> ok then Inr (b, -1)
        else rbind (cells_copy (bf_cells b) (bf_off b) src n) (\<lambda>cs.
          let b = b\<lparr>bf_data := (if n = 0 then bf_data b else Some cs), bf_off := to_size (int (bf_off b) + n)\<rparr>;
              b = (if bf_off b > bf_size b then b\<lparr>bf_size := bf_off b\<rparr> else b) in
          if zero then rbind (mem_write (bf_cells b) (bf_off b) (Some 0)) (\<lambda>cs. Inr (b\<lparr>bf_data := Some cs\<rparr>, n))
          else Inr (b, n))))"

definition n_buf_add :: "env \<Rightarrow> tn_buf \<Rightarrow> cells \<Rightarrow> int \<Rightarrow> (tn_buf \<times> int) result" where
  "n_buf_add e b src n = n_buf_write_ex e b src n False"

definition n_buf_addata :: "env \<Rightarrow> tn_buf \<Rightarrow> cells \<Rightarrow> int \<Rightarrow> bool \<Rightarrow> (tn_buf \<times> int) result" where
  "n_buf_addata e b src n zero = n_buf_write_ex e b src n zero"

definition n_buf_addstring :: "env \<Rightarrow> tn_buf \<Rightarrow> bytes \<Rightarrow> bool \<Rightarrow> (tn_buf \<times> int) result" where
  "n_buf_addstring e b str zero = n_buf_write_ex e b (map Some str) (c_int (c_strlen str)) zero"

text \<open>\<open>out\<close> is the text of the format; \<open>n_vsnprintf\<close> cuts it to the 4096 bytes with the final NUL.\<close>

definition n_vsnprintf :: "nat \<Rightarrow> bytes \<Rightarrow> bytes \<times> int" where
  "n_vsnprintf sz out = (take (sz - 1) out, if length out \<ge> sz then int (sz - 1) else int (length out))"

definition n_buf_vprintf :: "env \<Rightarrow> tn_buf \<Rightarrow> bytes \<Rightarrow> (tn_buf \<times> int) result" where
  "n_buf_vprintf e b out =
     (case n_vsnprintf 4096 out of (buf, n) \<Rightarrow>
        rbind (n_buf_write_ex e b (map Some buf) n True) (\<lambda>(b, _). Inr (b, n)))"

definition n_buf_printf :: "env \<Rightarrow> tn_buf \<Rightarrow> bytes \<Rightarrow> (tn_buf \<times> int) result" where
  "n_buf_printf e b out = n_buf_vprintf e b out"

definition n_buf_write_int8 :: "env \<Rightarrow> tn_buf \<Rightarrow> int \<Rightarrow> (tn_buf \<times> int) result" where
  "n_buf_write_int8 e b v = n_buf_write_ex e b [Some (word_of_int v)] 1 False"

definition n_buf_write_int16 :: "env \<Rightarrow> tn_buf \<Rightarrow> int \<Rightarrow> (tn_buf \<times> int) result" where
  "n_buf_write_int16 e b v = n_buf_write_ex e b (map Some (n_hton16 (word_of_int v))) 2 False"

definition n_buf_write_int32 :: "env \<Rightarrow> tn_buf \<Rightarrow> int \<Rightarrow> (tn_buf \<times> int) result" where
  "n_buf_write_int32 e b v = n_buf_write_ex e b (map Some (n_hton32 (word_of_int v))) 4 False"

section \<open>The iterator\<close>

text \<open>The buffer it points to is an argument of its operations.\<close>

record tn_buf_it =
  bi_offs :: nat

definition n_buf_it_init :: tn_buf_it where
  "n_buf_it_init = \<lparr>bi_offs = 0\<rparr>"

text \<open>The index of the bytes, or \<open>None\<close> for \<open>NULL\<close>. The offset goes through an \<open>int\<close>.\<close>

definition n_buf_it_get :: "tn_buf \<Rightarrow> tn_buf_it \<Rightarrow> nat \<Rightarrow> tn_buf_it \<times> int option" where
  "n_buf_it_get b it n =
     (let boff = c_int (bi_offs it) in
      if to_size (boff + int n) > bf_size b then (it, None)
      else (it\<lparr>bi_offs := to_size (c_int (to_size (boff + int n)))\<rparr>,
            if bf_data b = None \<and> boff = 0 then None else Some boff))"

text \<open>The bytes at an index that may be negative.\<close>

definition bf_bytes_at :: "tn_buf \<Rightarrow> int \<Rightarrow> nat \<Rightarrow> bytes result" where
  "bf_bytes_at b i n = (if i < 0 then Inl Mem_Fault else cells_bytes (bf_cells b) (nat i) n)"

definition n_buf_it_read :: "tn_buf \<Rightarrow> tn_buf_it \<Rightarrow> nat \<Rightarrow> (tn_buf_it \<times> bytes \<times> int) result" where
  "n_buf_it_read b it n =
     (case n_buf_it_get b it n of
        (it, None) \<Rightarrow> Inr (it, [], -1)
      | (it, Some p) \<Rightarrow> rbind (bf_bytes_at b p n) (\<lambda>bs. Inr (it, bs, c_int n)))"

definition n_buf_it_get_int8 :: "tn_buf \<Rightarrow> tn_buf_it \<Rightarrow> 8 word \<Rightarrow> (tn_buf_it \<times> 8 word \<times> int) result" where
  "n_buf_it_get_int8 b it v0 =
     (case n_buf_it_get b it 1 of
        (it, None) \<Rightarrow> Inr (it, v0, 0)
      | (it, Some p) \<Rightarrow> rbind (bf_bytes_at b p 1) (\<lambda>bs. Inr (it, hd bs, 1)))"

definition n_buf_it_get_int16 :: "tn_buf \<Rightarrow> tn_buf_it \<Rightarrow> 16 word \<Rightarrow> (tn_buf_it \<times> 16 word \<times> int) result" where
  "n_buf_it_get_int16 b it v0 =
     (case n_buf_it_get b it 2 of
        (it, None) \<Rightarrow> Inr (it, v0, 0)
      | (it, Some p) \<Rightarrow> rbind (bf_bytes_at b p 2) (\<lambda>bs. Inr (it, n_ntoh16 bs, 1)))"

definition n_buf_it_get_int32 :: "tn_buf \<Rightarrow> tn_buf_it \<Rightarrow> 32 word \<Rightarrow> (tn_buf_it \<times> 32 word \<times> int) result" where
  "n_buf_it_get_int32 b it v0 =
     (case n_buf_it_get b it 4 of
        (it, None) \<Rightarrow> Inr (it, v0, 0)
      | (it, Some p) \<Rightarrow> rbind (bf_bytes_at b p 4) (\<lambda>bs. Inr (it, n_ntoh32 bs, 1)))"

text \<open>The search for the end of a line: the offset it stops at.\<close>

function gets_loop :: "tn_buf \<Rightarrow> int \<Rightarrow> nat \<Rightarrow> nat result" where
  "gets_loop b endl offs =
     (if offs < bf_size b
      then rbind (bf_bytes_at b (int offs) 1) (\<lambda>bs.
        if uint (hd bs) \<noteq> endl then gets_loop b endl (offs + 1) else Inr offs)
      else Inr offs)"
  by pat_completeness auto
termination by (relation "measure (\<lambda>(b, endl, offs). bf_size b - offs)") auto

declare gets_loop.simps [simp del]

text \<open>The index and length of the line; \<open>None\<close> for \<open>NULL\<close>.\<close>

definition n_buf_it_gets_ext :: "tn_buf \<Rightarrow> tn_buf_it \<Rightarrow> int \<Rightarrow> (tn_buf_it \<times> (nat \<times> nat) option) result" where
  "n_buf_it_gets_ext b it endl =
     (if bi_offs it + 1 > bf_size b then Inr (it, None)
      else rbind (gets_loop b endl (bi_offs it)) (\<lambda>offs.
        Inr (it\<lparr>bi_offs := offs + 1\<rparr>, Some (bi_offs it, offs - bi_offs it))))"

section \<open>Storing and restoring\<close>

text \<open>\<open>sizebits\<close> tells how the size is written; no case of the \<open>switch\<close> writes none.\<close>

definition TN_BUF_STORE_8B :: int where "TN_BUF_STORE_8B = 1"
definition TN_BUF_STORE_16B :: int where "TN_BUF_STORE_16B = 2"
definition TN_BUF_STORE_32B :: int where "TN_BUF_STORE_32B = 3"

text \<open>The block as the source of a write of \<open>n\<close> bytes.\<close>

definition n_buf_store :: "env \<Rightarrow> tn_buf \<Rightarrow> tn_stream \<Rightarrow> int \<Rightarrow> (tn_stream \<times> bool) result" where
  "n_buf_store e b st sizebits =
     (let n = n_buf_size b in
      rbind (if sizebits = 0 then Inr (fst (n_store_uint32 st (word_of_int n)))
             else if sizebits = TN_BUF_STORE_8B then n_assert e False (Inr st)
             else if sizebits = TN_BUF_STORE_16B
             then n_assert e (n < 32767) (Inr (fst (n_stream_write_uint16 st (word_of_int n))))
             else if sizebits = TN_BUF_STORE_32B
             then n_assert e (n < 2147483647) (Inr (fst (n_stream_write_uint32 st (word_of_int n))))
             else Inr st)
       (\<lambda>st. if n < 0 then Inl Mem_Fault
        else rbind (cells_bytes (bf_cells b) 0 (nat n)) (\<lambda>bs.
          case n_stream_write st bs of (st, r) \<Rightarrow> Inr (st, r = n))))"

definition n_buf_store_buf :: "env \<Rightarrow> tn_buf \<Rightarrow> tn_buf \<Rightarrow> int \<Rightarrow> (tn_buf \<times> int) result" where
  "n_buf_store_buf e b tob sizebits =
     (let n = n_buf_size b in
      rbind (if sizebits = 0 \<or> sizebits = TN_BUF_STORE_8B then n_assert e False (Inr (tob, 0))
             else if sizebits = TN_BUF_STORE_16B then n_assert e (n < 32767) (n_buf_write_int16 e tob n)
             else if sizebits = TN_BUF_STORE_32B then n_assert e (n < 2147483647) (n_buf_write_int32 e tob n)
             else Inr (tob, 0))
       (\<lambda>(tob, _). n_buf_write_ex e tob (bf_cells b) n False))"

text \<open>The size read back. Where the assertion returns, the size is a variable without a value.\<close>

definition restore_size :: "env \<Rightarrow> tn_stream \<Rightarrow> int \<Rightarrow> (tn_stream \<times> 32 word) result" where
  "restore_size e st sizebits =
     (if sizebits = 0 then rbind (n_restore_uint32 e st) (\<lambda>(st, v, _). Inr (st, v))
      else if sizebits = TN_BUF_STORE_8B
      then (case n_stream_read_uint8 st 0 of (st, v, _) \<Rightarrow> Inr (st, ucast v))
      else if sizebits = TN_BUF_STORE_16B
      then (case n_stream_read_uint16 st 0 of (st, v, _) \<Rightarrow> Inr (st, ucast v))
      else if sizebits = TN_BUF_STORE_32B
      then (case n_stream_read_uint32 st of (st, v, _) \<Rightarrow> Inr (st, v))
      else n_assert e False (Inl Mem_Fault))"

definition n_buf_restore_skip :: "env \<Rightarrow> tn_stream \<Rightarrow> int \<Rightarrow> (tn_stream \<times> int) result" where
  "n_buf_restore_skip e st sizebits =
     rbind (restore_size e st sizebits) (\<lambda>(st, n). Inr (n_stream_seek st (uint n) Seek_Cur))"

text \<open>
  \<open>bptr\<close>: the pointer is not \<open>NULL\<close>. \<open>process\<close> is the caller's function with its argument; it
  gets the buffer and its result is given back. The stream, \<open>*bptr\<close> and the result.
\<close>

definition n_buf_restore_ex ::
    "env \<Rightarrow> tn_stream \<Rightarrow> bool \<Rightarrow> int \<Rightarrow> (tn_buf \<Rightarrow> int) option \<Rightarrow> (tn_stream \<times> tn_buf option \<times> int) result" where
  "n_buf_restore_ex e st bptr sizebits process_buf =
     rbind (restore_size e st sizebits) (\<lambda>(st, n).
       case n_stream_read st (unat n) of (st, bs, r) \<Rightarrow>
         if r \<noteq> sint n then Inr (st, None, 0)
         else rbind (n_buf_new 0) (\<lambda>b. rbind (n_buf_init e b (Some (map Some bs)) (sint n)) (\<lambda>b.
           case process_buf of
             None \<Rightarrow> if bptr then Inr (st, Some (b\<lparr>bf_flags := bf_flags b AND NOT TN_BUF_CONSTDATA\<rparr>), 1)
                     else Inl Mem_Fault
           | Some f \<Rightarrow> Inr (st, None, f b))))"

end
