(* ===== verification/Simulation.thy ===== *)
theory Simulation
  imports Prelude
begin

text \<open>
  Objects driven by a sequence of calls, and the contract that one of them follows an
  abstract one: whatever answers the specification gives, the object gives. The buffer as a
  byte file and the buffered input keep it.
\<close>

fun call_run :: "('s \<Rightarrow> 'c \<Rightarrow> ('s \<times> 'r) result) \<Rightarrow> 's \<Rightarrow> 'c list \<Rightarrow> ('s \<times> 'r list) result" where
  "call_run step s [] = Inr (s, [])"
| "call_run step s (c # cs) = rbind (step s c) (\<lambda>(s, r). rbind (call_run step s cs) (\<lambda>(s, rs). Inr (s, r # rs)))"

text \<open>A specification has no answer for a call outside its use.\<close>

fun answers :: "('a \<Rightarrow> 'c \<Rightarrow> ('a \<times> 'r) option) \<Rightarrow> 'a \<Rightarrow> 'c list \<Rightarrow> ('a \<times> 'r list) option" where
  "answers spec a [] = Some (a, [])"
| "answers spec a (c # cs) = (case spec a c of None \<Rightarrow> None
     | Some (a, r) \<Rightarrow> map_option (\<lambda>(a, rs). (a, r # rs)) (answers spec a cs))"

locale simulation =
  fixes step :: "'s \<Rightarrow> 'c \<Rightarrow> ('s \<times> 'r) result"
    and spec :: "'a \<Rightarrow> 'c \<Rightarrow> ('a \<times> 'r) option"
    and rel :: "'s \<Rightarrow> 'a \<Rightarrow> bool"
  assumes step_ok: "rel s a \<Longrightarrow> spec a c = Some (a', r) \<Longrightarrow> \<exists>s'. step s c = Inr (s', r) \<and> rel s' a'"
begin

lemma run_ok:
  "rel s a \<Longrightarrow> answers spec a cs = Some (a', rs) \<Longrightarrow> \<exists>s'. call_run step s cs = Inr (s', rs) \<and> rel s' a'"
proof (induction cs arbitrary: s a rs)
  case (Cons c cs)
  from Cons.prems(2) obtain a1 r rs1 where a1: "spec a c = Some (a1, r)" "answers spec a1 cs = Some (a', rs1)" "rs = r # rs1"
    by (auto split: option.splits)
  from step_ok [OF Cons.prems(1) a1(1)] obtain s1 where s1: "step s c = Inr (s1, r)" "rel s1 a1" by blast
  from Cons.IH [OF s1(2) a1(2)] s1(1) a1(3) show ?case by auto
qed simp

text \<open>A run in two parts is one run.\<close>

lemma run_append:
  assumes "rel s a" "answers spec a cs = Some (a1, rs)" "answers spec a1 ds = Some (a2, qs)"
  shows "\<exists>s1 s2. call_run step s cs = Inr (s1, rs) \<and> call_run step s1 ds = Inr (s2, qs) \<and> rel s2 a2"
  using run_ok [OF assms(1,2)] run_ok [OF _ assms(3)] by blast

end

end
