(* ===== verification/BufProps.thy ===== *)
theory BufProps
  imports Buf Simulation
begin

text \<open>
  What the dynamic buffer promises. A buffer stands for the bytes below its size and a
  position: it refines a byte file held in memory, it keeps the contract of a writer and of a
  reader of numbers, its line reader cuts the bytes at the line ends, and a stored buffer is
  restored. The bounds keep every size an \<open>int\<close>.
\<close>

section \<open>Growing\<close>

lemma buf_grow_loop_ok:
  "0 < sz \<Longrightarrow> req < 2 ^ 62 \<Longrightarrow>
   \<exists>s. buf_grow_loop req sz = Some s \<and> req < s \<and> sz \<le> s \<and> (s = sz \<or> s \<le> 2 * req)"
proof (induction "req + 1 - sz" arbitrary: sz rule: less_induct)
  case less
  show ?case
  proof (cases "req \<ge> sz")
    case False
    then show ?thesis by (subst buf_grow_loop.simps) auto
  next
    case True
    have m: "2 * sz mod 2 ^ 64 = 2 * sz" using True less.prems by simp
    have "req + 1 - 2 * sz < req + 1 - sz" "0 < 2 * sz" using True less.prems by auto
    from less.hyps [OF this(1) this(2) less.prems(2)] True m show ?thesis
      by (subst buf_grow_loop.simps) auto
  qed
qed

section \<open>The bytes of a buffer\<close>

text \<open>No block of the buffer reaches \<open>2\<^sup>3\<^sup>1\<close> bytes.\<close>

definition buf_rep :: "tn_buf \<Rightarrow> bytes \<Rightarrow> bool" where
  "buf_rep b c \<longleftrightarrow> (\<exists>rest. bf_cells b = map Some c @ rest) \<and> length (bf_cells b) = bf_allocated b \<and>
     bf_size b = length c \<and> bf_allocated b < 2 ^ 31"

definition buf_content :: "tn_buf \<Rightarrow> bytes" where
  "buf_content b = map the (take (bf_size b) (bf_cells b))"

lemma buf_rep_content: "buf_rep b c \<Longrightarrow> buf_content b = c"
  by (auto simp: buf_rep_def buf_content_def o_def)

lemma buf_rep_le: "buf_rep b c \<Longrightarrow> length c \<le> bf_allocated b"
  by (auto simp: buf_rep_def dest: arg_cong [of _ _ length])

text \<open>What a write makes of the bytes: with \<open>zero\<close> a byte behind the written ones, if there is
  one, becomes 0.\<close>

definition overwrite :: "bytes \<Rightarrow> nat \<Rightarrow> bytes \<Rightarrow> bool \<Rightarrow> bytes" where
  "overwrite c p bs zero =
     (let c' = take p c @ bs @ drop (p + length bs) c in if zero then c'[p + length bs := 0] else c')"

lemma overwrite_end [simp]: "overwrite c (length c) bs zero = c @ bs"
  by (simp add: overwrite_def Let_def list_update_beyond)

lemma overwrite_length: "p \<le> length c \<Longrightarrow> length (overwrite c p bs zero) = max (length c) (p + length bs)"
  by (simp add: overwrite_def Let_def)

lemma n_buf_grow_ok:
  assumes "bf_flags b = 0" "length (bf_cells b) = bf_allocated b" "bf_allocated b \<le> req" "0 < req" "req \<le> 2 ^ 29 + 8"
  shows "\<exists>b' k. n_buf_grow e b req = Inr (b', True) \<and> bf_data b' = Some (bf_cells b @ replicate k None) \<and>
    bf_allocated b' = bf_allocated b + k \<and> bf_size b' = bf_size b \<and> bf_off b' = bf_off b \<and> bf_flags b' = 0 \<and>
    req < bf_allocated b' \<and> bf_allocated b' < 2 ^ 31"
proof -
  let ?s0 = "if bf_allocated b = 0 then 2 else bf_allocated b"
  have "0 < ?s0" "req < 2 ^ 62" using assms(5) by auto
  from buf_grow_loop_ok [OF this] obtain s where s: "buf_grow_loop req ?s0 = Some s" "req < s" "?s0 \<le> s"
    "s = ?s0 \<or> s \<le> 2 * req" by blast
  then have big: "bf_allocated b < s" "s < 2 ^ 31" using assms(3,4,5) by (auto split: if_splits)
  then have d: "to_size (int s - int (bf_allocated b)) = s - bf_allocated b" by (simp add: to_size_def)
  have "c_int (to_size (int s - int (bf_allocated b))) = int (s - bf_allocated b)"
    unfolding d using big by (intro c_int_small) simp
  then have "n_buf_grow e b req = Inr (b\<lparr>bf_data := Some (bf_cells b @ replicate (s - bf_allocated b) None),
      bf_allocated := s\<rparr>, True)"
    using big s(1) assms(1,2) by (simp add: n_buf_grow_def n_buf_realloc_def Let_def bf_has_def)
  with big s(2) assms(1) show ?thesis by fastforce
qed

lemma cells_copy_ok:
  "i + length bs \<le> length cs \<Longrightarrow>
   cells_copy cs i (map Some bs) (int (length bs)) = Inr (take i cs @ map Some bs @ drop (i + length bs) cs)"
  by (simp add: cells_copy_def)

text \<open>Room is made when it has to be.\<close>

lemma write_room:
  assumes rep: "buf_rep b c" "bf_flags b = 0" and pos: "bf_off b \<le> length c" "bf_off b + n \<le> 2 ^ 28"
    and z: "z = (if zero then 1 else 0 :: int)"
  shows "\<exists>b1. (if to_size (int (bf_allocated b) - int (bf_off b)) < nat ((int n + z + 1) mod 2 ^ 32)
      then n_buf_grow e b (to_size (int (bf_allocated b) + int n + z + 1)) else Inr (b, True)) = Inr (b1, True) \<and>
    buf_rep b1 c \<and> bf_off b1 = bf_off b \<and> bf_flags b1 = 0 \<and> bf_off b + n + nat z < bf_allocated b1 \<and>
    bf_data b1 \<noteq> None"
proof -
  have le: "bf_off b \<le> bf_allocated b" using pos(1) buf_rep_le [OF rep(1)] by simp
  have al: "bf_allocated b < 2 ^ 31" using rep by (simp add: buf_rep_def)
  have sz: "to_size (int (bf_allocated b) - int (bf_off b)) = bf_allocated b - bf_off b"
    "nat ((int n + z + 1) mod 2 ^ 32) = n + nat z + 1"
    "to_size (int (bf_allocated b) + int n + z + 1) = bf_allocated b + n + nat z + 1"
    using le al pos(2) z by (auto simp: to_size_def nat_add_distrib)
  show ?thesis
  proof (cases "bf_allocated b - bf_off b < n + nat z + 1")
    case False
    with le have "bf_allocated b \<noteq> 0" by simp
    with rep(1) have "bf_data b \<noteq> None" by (auto simp: buf_rep_def bf_cells_def split: option.splits)
    with False rep le show ?thesis unfolding sz by auto
  next
    case True
    let ?r = "bf_allocated b + n + nat z + 1"
    have r: "bf_allocated b \<le> ?r" "0 < ?r" "?r \<le> 2 ^ 29 + 8" using True le pos(2) z by auto
    have len: "length (bf_cells b) = bf_allocated b" using rep by (simp add: buf_rep_def)
    from n_buf_grow_ok [OF rep(2) len r, of e] obtain b1 k where b1: "n_buf_grow e b ?r = Inr (b1, True)"
      "bf_data b1 = Some (bf_cells b @ replicate k None)" "bf_allocated b1 = bf_allocated b + k"
      "bf_size b1 = bf_size b" "bf_off b1 = bf_off b" "bf_flags b1 = 0" "?r < bf_allocated b1" "bf_allocated b1 < 2 ^ 31"
      by blast
    then have "buf_rep b1 c" using rep len by (auto simp: buf_rep_def bf_cells_def [of b1])
    with b1 True le show ?thesis unfolding sz by auto
  qed
qed

lemma write_ok:
  assumes rep: "buf_rep b c" "bf_flags b = 0" and pos: "bf_off b \<le> length c" "bf_off b + length bs \<le> 2 ^ 28"
  shows "\<exists>b'. n_buf_write_ex e b (map Some bs) (int (length bs)) zero = Inr (b', int (length bs)) \<and>
    buf_rep b' (overwrite c (bf_off b) bs zero) \<and> bf_flags b' = 0 \<and> bf_off b' = bf_off b + length bs \<and> 0 < bf_allocated b'"
proof -
  define z where "z = (if zero then 1 else 0 :: int)"
  obtain b1 where b1: "(if to_size (int (bf_allocated b) - int (bf_off b)) < nat ((int (length bs) + z + 1) mod 2 ^ 32)
      then n_buf_grow e b (to_size (int (bf_allocated b) + int (length bs) + z + 1)) else Inr (b, True)) = Inr (b1, True)"
    "buf_rep b1 c" "bf_off b1 = bf_off b" "bf_flags b1 = 0" "bf_off b + length bs + nat z < bf_allocated b1"
    "bf_data b1 \<noteq> None"
    using write_room [OF rep pos z_def, of e] by blast
  obtain rest where rest: "bf_cells b1 = map Some c @ rest" using b1(2) by (auto simp: buf_rep_def)
  have len: "length (bf_cells b1) = bf_allocated b1" "bf_size b1 = length c" "bf_allocated b1 < 2 ^ 31"
    using b1(2) by (simp_all add: buf_rep_def)
  let ?p = "bf_off b" and ?n = "length bs"
  define cs where "cs = take ?p (bf_cells b1) @ map Some bs @ drop (?p + ?n) (bf_cells b1)"
  have copy: "cells_copy (bf_cells b1) (bf_off b1) (map Some bs) (int ?n) = Inr cs"
    using b1(3,5) len(1) by (simp add: cells_copy_ok cs_def)
  have same: "?n = 0 \<Longrightarrow> cs = bf_cells b1" by (simp add: cs_def)
  have off: "to_size (int (bf_off b1) + int ?n) = ?p + ?n" using b1(3) pos(2) by (simp add: to_size_def nat_add_distrib)
  have ln: "length cs = bf_allocated b1" using len(1) b1(5) by (simp add: cs_def)
  define b2 where "b2 = b1\<lparr>bf_data := Some cs, bf_off := ?p + ?n, bf_size := max (length c) (?p + ?n)\<rparr>"
  have cells: "cs = map Some (overwrite c ?p bs False) @ drop (?p + ?n - length c) rest"
    using pos(1) by (simp add: cs_def rest overwrite_def Let_def take_map drop_map)
  then have rep2: "buf_rep b2 (overwrite c ?p bs False)"
    using pos(1) ln len(3) by (auto simp: buf_rep_def b2_def bf_cells_def overwrite_length)
  obtain d where d: "bf_data b1 = Some d" using b1(6) by auto
  have w: "n_buf_write_ex e b (map Some bs) (int ?n) zero =
      (if zero then rbind (mem_write (bf_cells b2) (bf_off b2) (Some 0)) (\<lambda>cs. Inr (b2\<lparr>bf_data := Some cs\<rparr>, int ?n))
       else Inr (b2, int ?n))"
  proof -
    have data: "(if int ?n = 0 then bf_data b1 else Some cs) = Some cs" using same d by (auto simp: bf_cells_def)
    have upd: "(if bf_size b3 < bf_off b3 then b3\<lparr>bf_size := bf_off b3\<rparr> else b3) = b2"
      if "b3 = b1\<lparr>bf_data := Some cs, bf_off := ?p + ?n\<rparr>" for b3
      using that len(2) by (auto simp: b2_def max_def)
    show ?thesis
      unfolding n_buf_write_ex_def z_def [symmetric] Let_def b1(1) rbind.simps prod.case copy data off upd [OF refl] by simp
  qed
  show ?thesis
  proof (cases zero)
    case False
    with w rep2 b1(4,5) show ?thesis by (auto simp: b2_def)
  next
    case True
    let ?b = "b2\<lparr>bf_data := Some (cs[?p + ?n := Some 0])\<rparr>"
    have "?p + ?n < length cs" using b1(5) ln by simp
    then have "n_buf_write_ex e b (map Some bs) (int ?n) zero = Inr (?b, int ?n)"
      using w True by (simp add: b2_def bf_cells_def mem_write_def)
    moreover have "\<exists>r. cs[?p + ?n := Some 0] = map Some (overwrite c ?p bs True) @ r"
      unfolding cells by (auto simp: list_update_append overwrite_def Let_def map_update)
    then have "buf_rep ?b (overwrite c ?p bs True)"
      using pos(1) ln len(3) by (auto simp: buf_rep_def b2_def bf_cells_def overwrite_length)
    ultimately show ?thesis using True b1(4,5) by (auto simp: b2_def)
  qed
qed

section \<open>The buffer as a byte file\<close>

datatype buf_call = BWrite bytes bool | BPrintf bytes | BSeek int whence | BSize | BClean

fun buf_step :: "env \<Rightarrow> tn_buf \<Rightarrow> buf_call \<Rightarrow> (tn_buf \<times> int) result" where
  "buf_step e b (BWrite bs zero) = n_buf_write_ex e b (map Some bs) (int (length bs)) zero"
| "buf_step e b (BPrintf out) = n_buf_printf e b out"
| "buf_step e b (BSeek off w) = n_buf_seek e b off w"
| "buf_step e b BSize = Inr (b, n_buf_size b)"
| "buf_step e b BClean = rbind (n_buf_clean b) (\<lambda>b. Inr (b, 0))"

text \<open>
  The file: its bytes and the position. There is no answer for a position beyond the end, nor
  for bytes beyond \<open>2\<^sup>2\<^sup>8\<close>.
\<close>

definition file_write :: "bytes \<times> nat \<Rightarrow> bytes \<Rightarrow> bool \<Rightarrow> ((bytes \<times> nat) \<times> int) option" where
  "file_write f bs zero = (case f of (c, p) \<Rightarrow>
     if p + length bs \<le> 2 ^ 28 then Some ((overwrite c p bs zero, p + length bs), int (length bs)) else None)"

fun seek_target :: "bytes \<times> nat \<Rightarrow> int \<Rightarrow> whence \<Rightarrow> int option" where
  "seek_target (c, p) off Seek_Set = Some off"
| "seek_target (c, p) off Seek_Cur = Some (int p + off)"
| "seek_target (c, p) off Seek_End = (if off = 0 then Some (int (length c)) else None)"
| "seek_target (c, p) off (Seek_Other w) = None"

fun file_step :: "bytes \<times> nat \<Rightarrow> buf_call \<Rightarrow> ((bytes \<times> nat) \<times> int) option" where
  "file_step f (BWrite bs zero) = file_write f bs zero"
| "file_step f (BPrintf out) = file_write f (take 4095 out) True"
| "file_step f (BSeek off w) = (case seek_target f off w of None \<Rightarrow> None
     | Some q \<Rightarrow> if 0 \<le> q \<and> q \<le> int (length (fst f)) then Some ((fst f, nat q), q) else None)"
| "file_step f BSize = Some (f, int (length (fst f)))"
| "file_step f BClean = Some (([], 0), 0)"

definition buf_rel :: "tn_buf \<Rightarrow> bytes \<times> nat \<Rightarrow> bool" where
  "buf_rel b f \<longleftrightarrow> buf_rep b (fst f) \<and> bf_flags b = 0 \<and> bf_off b = snd f \<and>
     snd f \<le> length (fst f) \<and> 0 < bf_allocated b"

lemma buf_rep_small: "buf_rep b c \<Longrightarrow> length c < 2 ^ 31"
  using buf_rep_le [of b c] by (simp add: buf_rep_def)

lemma write_rel:
  assumes "buf_rel b f" "file_write f bs zero = Some (f', r)"
  shows "\<exists>b'. n_buf_write_ex e b (map Some bs) (int (length bs)) zero = Inr (b', r) \<and> buf_rel b' f'"
proof -
  obtain c p where f: "f = (c, p)" by (cases f)
  with assms have a: "p + length bs \<le> 2 ^ 28" "f' = (overwrite c p bs zero, p + length bs)" "r = int (length bs)"
    "buf_rep b c" "bf_flags b = 0" "bf_off b = p" "p \<le> length c"
    by (auto simp: file_write_def buf_rel_def split: if_splits)
  with write_ok [of b c bs e zero] obtain b' where b':
    "n_buf_write_ex e b (map Some bs) (int (length bs)) zero = Inr (b', int (length bs))"
    "buf_rep b' (overwrite c p bs zero)" "bf_flags b' = 0" "bf_off b' = p + length bs" "0 < bf_allocated b'" by auto
  with b' a show ?thesis by (auto simp: buf_rel_def overwrite_length)
qed

lemma seek_rel:
  assumes "buf_rel b f" "file_step f (BSeek off w) = Some (f', r)"
  shows "\<exists>b'. n_buf_seek e b off w = Inr (b', r) \<and> buf_rel b' f'"
proof -
  obtain c p where f: "f = (c, p)" by (cases f)
  obtain q where q: "seek_target (c, p) off w = Some q" "0 \<le> q" "q \<le> int (length c)" "f' = (c, nat q)" "r = q"
  proof (cases "seek_target (c, p) off w")
    case None
    then show ?thesis using assms(2) f by simp
  next
    case (Some q)
    show ?thesis
    proof (cases "0 \<le> q \<and> q \<le> int (length c)")
      case True
      with Some assms(2) f have "f' = (c, nat q)" "r = q" by auto
      with Some True show ?thesis by (intro that) simp_all
    next
      case False
      with Some assms(2) f show ?thesis by simp
    qed
  qed
  have rep: "buf_rep b c" "bf_off b = p" "length c < 2 ^ 31" using assms(1) f buf_rep_small [of b c] by (auto simp: buf_rel_def)
  have ts: "to_size q = nat q" "c_int (nat q) = q" using q rep(3) by (auto simp: to_size_def c_int_small)
  have "n_buf_seek e b off w = Inr (b\<lparr>bf_off := nat q\<rparr>, q)"
    using q(1) rep(1,2) ts by (cases w) (auto simp: n_buf_seek_def buf_rep_def split: if_splits)
  moreover have "buf_rel (b\<lparr>bf_off := nat q\<rparr>) f'"
    using assms(1) f q by (auto simp: buf_rel_def buf_rep_def bf_cells_def)
  ultimately show ?thesis using q(5) by blast
qed

lemma clean_rel:
  assumes "buf_rel b f"
  shows "\<exists>b'. n_buf_clean b = Inr b' \<and> buf_rel b' ([], 0)"
proof -
  from assms have l: "0 < length (bf_cells b)" "bf_flags b = 0" by (auto simp: buf_rel_def buf_rep_def)
  have "n_buf_clean b = Inr (b\<lparr>bf_size := 0, bf_off := 0, bf_data := Some ((bf_cells b)[0 := Some 0])\<rparr>)"
    using l by (simp add: n_buf_clean_def bf_has_def mem_write_def bf_cells_def)
  then show ?thesis using assms by (auto simp: buf_rel_def buf_rep_def bf_cells_def)
qed

interpretation bff: simulation "buf_step e" file_step buf_rel for e
proof (unfold_locales, goal_cases)
  case (1 b f c f' r)
  show ?case
  proof (cases c)
    case (BWrite bs zero)
    with 1 write_rel [of b f bs zero f' r e] show ?thesis by simp
  next
    case (BPrintf out)
    with 1(2) have w: "file_write f (take 4095 out) True = Some (f', r)" by simp
    then have r: "r = int (min 4095 (length out))" by (auto simp: file_write_def min.commute split: prod.splits if_splits)
    have "n_vsnprintf 4096 out = (take 4095 out, int (length (take 4095 out)))" by (simp add: n_vsnprintf_def)
    with write_rel [OF 1(1) w, of e] r BPrintf show ?thesis
      by (auto simp: n_buf_printf_def n_buf_vprintf_def min.commute)
  next
    case (BSeek off w)
    with seek_rel [OF 1(1)] 1(2) show ?thesis by simp
  next
    case BSize
    with 1 buf_rep_small [of b "fst f"] show ?thesis
      by (auto simp: n_buf_size_def buf_rel_def buf_rep_def c_int_small)
  next
    case BClean
    with clean_rel [OF 1(1)] 1(2) show ?thesis by auto
  qed
qed

text \<open>C4: A new buffer is a byte file: any sequence of writes, formatted writes, seeks inside the bytes,
  size questions and cleanings gives the answers of the file and leaves its bytes and its
  position. A write with a terminating NUL in the middle of the bytes destroys the byte behind
  what it writes.\<close>

theorem n_buf_refines_file:
  assumes "0 < n" "n < 2 ^ 31" "answers file_step ([], 0) cs = Some ((c, p), rs)"
  shows "\<exists>b b'. n_buf_new n = Inr b \<and> call_run (buf_step e) b cs = Inr (b', rs) \<and>
    buf_content b' = c \<and> n_buf_size b' = int (length c) \<and> bf_off b' = p"
proof -
  obtain b where b: "n_buf_new n = Inr b" "buf_rel b ([], 0)"
    using assms(1,2) by (simp add: n_buf_new_def Let_def buf_rel_def buf_rep_def bf_cells_def)
  from bff.run_ok [OF b(2) assms(3), of e] obtain b' where
    b': "call_run (buf_step e) b cs = Inr (b', rs)" "buf_rel b' (c, p)" by blast
  then have r: "buf_rep b' c" "bf_off b' = p" by (simp_all add: buf_rel_def)
  have "n_buf_size b' = int (length c)"
    using r(1) buf_rep_small [OF r(1)] by (simp add: n_buf_size_def buf_rep_def c_int_small)
  with b(1) b'(1) r buf_rep_content [OF r(1)] show ?thesis by blast
qed

lemma n_buf_refines_file_witness:
  "\<exists>b b'. n_buf_new 2 = Inr b \<and>
    call_run (buf_step plain_env) b [BWrite [104, 105] False, BWrite [33] True, BSeek 0 Seek_Set, BWrite [72] True, BSize] =
      Inr (b', [2, 1, 0, 1, 3]) \<and> buf_content b' = [72, 0, 33] \<and> n_buf_size b' = 3 \<and> bf_off b' = 1"
  using n_buf_refines_file [of 2
      "[BWrite [104, 105] False, BWrite [33] True, BSeek 0 Seek_Set, BWrite [72] True, BSize]"
      "[72, 0, 33]" 1 "[2, 1, 0, 1, 3]" plain_env]
  by (simp add: file_write_def overwrite_def Let_def)

section \<open>Numbers\<close>

fun buf_put_num :: "env \<Rightarrow> tn_buf \<Rightarrow> net_num \<Rightarrow> (tn_buf \<times> bool) result" where
  "buf_put_num e b (N8 v) = rbind (n_buf_write_int8 e b (uint v)) (\<lambda>(b, r). Inr (b, r = 1))"
| "buf_put_num e b (N16 v) = rbind (n_buf_write_int16 e b (uint v)) (\<lambda>(b, r). Inr (b, r = 2))"
| "buf_put_num e b (N32 v) = rbind (n_buf_write_int32 e b (sint v)) (\<lambda>(b, r). Inr (b, r = 4))"

fun buf_get_num :: "tn_buf \<times> tn_buf_it \<Rightarrow> num_width_tag \<Rightarrow> ((tn_buf \<times> tn_buf_it) \<times> net_num option) result" where
  "buf_get_num (b, it) K8 = rbind (n_buf_it_get_int8 b it 0) (\<lambda>(it, v, r). Inr ((b, it), if r = 1 then Some (N8 v) else None))"
| "buf_get_num (b, it) K16 = rbind (n_buf_it_get_int16 b it 0) (\<lambda>(it, v, r). Inr ((b, it), if r = 1 then Some (N16 v) else None))"
| "buf_get_num (b, it) K32 = rbind (n_buf_it_get_int32 b it 0) (\<lambda>(it, v, r). Inr ((b, it), if r = 1 then Some (N32 v) else None))"

definition buf_at_end :: "tn_buf \<Rightarrow> bool" where
  "buf_at_end b \<longleftrightarrow> buf_rep b (buf_content b) \<and> bf_flags b = 0 \<and> bf_off b = bf_size b \<and> bf_size b \<le> 2 ^ 28"

definition buf_room :: "tn_buf \<Rightarrow> nat" where
  "buf_room b = 2 ^ 28 - bf_size b"

lemma write_end:
  assumes "buf_at_end b" "length bs \<le> buf_room b"
  shows "\<exists>b'. n_buf_write_ex e b (map Some bs) (int (length bs)) zero = Inr (b', int (length bs)) \<and>
    buf_at_end b' \<and> buf_content b' = buf_content b @ bs \<and> buf_room b' + length bs = buf_room b"
proof -
  from assms have a: "buf_rep b (buf_content b)" "bf_flags b = 0" "bf_off b = length (buf_content b)"
    "bf_size b = length (buf_content b)" "bf_size b + length bs \<le> 2 ^ 28" by (auto simp: buf_at_end_def buf_rep_def buf_room_def)
  with write_ok [OF a(1,2), of bs e zero] obtain b' where
    b': "n_buf_write_ex e b (map Some bs) (int (length bs)) zero = Inr (b', int (length bs))"
    "buf_rep b' (buf_content b @ bs)" "bf_flags b' = 0" "bf_off b' = length (buf_content b) + length bs" by auto
  then have "bf_size b' = bf_size b + length bs" using a(4) by (simp add: buf_rep_def)
  with b' a buf_rep_content [OF b'(2)] show ?thesis by (auto simp: buf_at_end_def buf_room_def)
qed

interpretation bufw: num_writer "buf_put_num e" buf_content buf_room buf_at_end for e
proof (unfold_locales, goal_cases)
  case (1 b v)
  from write_end [OF 1(1), of "num_bytes v" e False] 1(2) obtain b' where
    w: "n_buf_write_ex e b (map Some (num_bytes v)) (int (num_width (num_kind v))) False = Inr (b', int (num_width (num_kind v)))"
    "buf_at_end b'" "buf_content b' = buf_content b @ num_bytes v" "buf_room b' + num_width (num_kind v) = buf_room b"
    by auto
  then have "buf_put_num e b v = Inr (b', True)"
    by (cases v) (auto simp: n_buf_write_int8_def n_buf_write_int16_def n_buf_write_int32_def)
  with w show ?case by simp
qed

section \<open>The iterator\<close>

definition it_inv :: "tn_buf \<times> tn_buf_it \<Rightarrow> bool" where
  "it_inv r \<longleftrightarrow> (case r of (b, it) \<Rightarrow> buf_rep b (buf_content b) \<and> bi_offs it \<le> length (buf_content b))"

definition it_rest :: "tn_buf \<times> tn_buf_it \<Rightarrow> bytes" where
  "it_rest r = (case r of (b, it) \<Rightarrow> drop (bi_offs it) (buf_content b))"

lemma bytes_at_ok:
  assumes "buf_rep b c" "i + n \<le> length c"
  shows "bf_bytes_at b (int i) n = Inr (take n (drop i c))"
proof -
  obtain rest where r: "bf_cells b = map Some c @ rest" using assms(1) by (auto simp: buf_rep_def)
  then have "take n (drop i (bf_cells b)) = map Some (take n (drop i c))"
    using assms(2) by (simp add: take_map drop_map)
  moreover have "i + n \<le> length (bf_cells b)" using r assms(2) by simp
  ultimately show ?thesis by (auto simp: bf_bytes_at_def cells_bytes_def o_def)
qed

lemma it_get_ok:
  assumes "it_inv (b, it)" "n \<le> 2 ^ 31"
  shows "n_buf_it_get b it n =
    (if n \<le> length (it_rest (b, it))
     then (it\<lparr>bi_offs := bi_offs it + n\<rparr>, if bf_data b = None \<and> bi_offs it = 0 then None else Some (int (bi_offs it)))
     else (it, None))"
proof -
  let ?c = "buf_content b" and ?i = "bi_offs it"
  have r: "buf_rep b ?c" "?i \<le> length ?c" using assms(1) by (simp_all add: it_inv_def)
  note s = buf_rep_small [OF r(1)]
  have i: "c_int ?i = int ?i" using r(2) s by (simp add: c_int_small)
  have ts: "to_size (int ?i + int n) = ?i + n" using r(2) s assms(2) by (simp add: to_size_def nat_add_distrib)
  have "to_size (c_int (?i + n)) = ?i + n" if "?i + n \<le> length ?c"
    using that s by (simp add: c_int_small to_size_def nat_add_distrib)
  moreover have "bf_size b = length ?c" using r(1) by (simp add: buf_rep_def)
  ultimately show ?thesis using r(2) by (auto simp: n_buf_it_get_def i ts it_rest_def Let_def)
qed

interpretation bufr: num_reader buf_get_num it_rest it_inv
proof (unfold_locales, goal_cases)
  case (1 r v bs)
  obtain b it where r: "r = (b, it)" by (cases r)
  let ?w = "num_width (num_kind v)" and ?i = "bi_offs it"
  have w: "?w \<le> 2 ^ 31" "0 < ?w" by (cases v; simp)+
  have rep: "buf_rep b (buf_content b)" using 1(1) r by (simp add: it_inv_def)
  have rest: "drop ?i (buf_content b) = num_bytes v @ bs" using 1(2) r by (simp add: it_rest_def)
  then have len: "?i + ?w \<le> length (buf_content b)"
  proof -
    have "length (buf_content b) - ?i = ?w + length bs" using arg_cong [OF rest, of length] by simp
    with w(2) show ?thesis by linarith
  qed
  then have "bf_data b \<noteq> None" using rep w(2) by (auto simp: buf_rep_def bf_cells_def split: option.splits)
  then have g: "n_buf_it_get b it ?w = (it\<lparr>bi_offs := ?i + ?w\<rparr>, Some (int ?i))"
    using it_get_ok [of b it ?w] 1 w(1) r by simp
  have bat: "bf_bytes_at b (int ?i) ?w = Inr (num_bytes v)" using bytes_at_ok [OF rep len] rest by simp
  have "buf_get_num r (num_kind v) = Inr ((b, it\<lparr>bi_offs := ?i + ?w\<rparr>), Some v)"
    using g bat r by (cases v) (auto simp: n_buf_it_get_int8_def n_buf_it_get_int16_def n_buf_it_get_int32_def)
  moreover have "drop (?i + ?w) (buf_content b) = bs"
    using arg_cong [OF rest, of "drop ?w"] by (simp add: add.commute)
  ultimately show ?case using rep len by (auto simp: it_inv_def it_rest_def)
next
  case (2 r k)
  obtain b it where r: "r = (b, it)" by (cases r)
  have "num_width k \<le> 2 ^ 31" by (cases k) simp_all
  with it_get_ok [of b it "num_width k"] 2 r have "n_buf_it_get b it (num_width k) = (it, None)" by simp
  then show ?case
    unfolding r by (cases k) (auto simp: n_buf_it_get_int8_def n_buf_it_get_int16_def n_buf_it_get_int32_def)
qed

lemma n_buf_new_rep:
  assumes "0 \<le> n" "n < 2 ^ 31"
  shows "\<exists>b. n_buf_new n = Inr b \<and> buf_rep b [] \<and> buf_at_end b \<and> buf_content b = [] \<and> buf_room b = 2 ^ 28"
proof -
  have "\<exists>b. n_buf_new n = Inr b \<and> buf_rep b [] \<and> bf_flags b = 0 \<and> bf_off b = 0 \<and> bf_size b = 0"
    using assms by (auto simp: n_buf_new_def Let_def buf_rep_def bf_cells_def)
  then obtain b where b: "n_buf_new n = Inr b" "buf_rep b []" "bf_flags b = 0" "bf_off b = 0" "bf_size b = 0" by blast
  with buf_rep_content [OF b(2)] show ?thesis by (auto simp: buf_at_end_def buf_room_def)
qed

text \<open>Numbers written to a new buffer are read back by an iterator, in the same order, in network
  byte order, and a read after the last one fails and reads nothing.\<close>

theorem n_buf_numbers_roundtrip:
  assumes "0 \<le> n" "n < 2 ^ 31" "length (nums_bytes vs) \<le> 2 ^ 28"
  shows "\<exists>b b' r. n_buf_new n = Inr b \<and> put_nums (buf_put_num e) b vs = Inr (b', True) \<and>
    buf_content b' = nums_bytes vs \<and>
    get_nums buf_get_num (b', n_buf_it_init) (map num_kind vs) = Inr (r, Some vs) \<and>
    (\<forall>k. \<exists>r'. get_nums buf_get_num (b', n_buf_it_init) (map num_kind vs @ [k]) = Inr (r', None))"
proof -
  obtain b where b: "n_buf_new n = Inr b" "buf_at_end b" "buf_content b = []" "buf_room b = 2 ^ 28"
    using n_buf_new_rep [OF assms(1,2)] by blast
  from bufw.put_nums_ok [OF b(2), of vs e] b(3,4) assms(3) obtain b' where
    b': "put_nums (buf_put_num e) b vs = Inr (b', True)" "buf_at_end b'" "buf_content b' = nums_bytes vs" by auto
  have i: "it_inv (b', n_buf_it_init)" "it_rest (b', n_buf_it_init) = nums_bytes vs"
    using b'(2,3) by (simp_all add: it_inv_def it_rest_def n_buf_it_init_def buf_at_end_def)
  from bufr.get_nums_ok [OF i(1), of vs "[]"] i(2) obtain r where
    "get_nums buf_get_num (b', n_buf_it_init) (map num_kind vs) = Inr (r, Some vs)" by auto
  with bufr.get_nums_short [OF i] b(1) b'(1,3) show ?thesis by blast
qed

lemma n_buf_numbers_roundtrip_witness:
  "\<exists>b b' r. n_buf_new 0 = Inr b \<and> put_nums (buf_put_num plain_env) b [N16 258, N8 3, N32 67438087] = Inr (b', True) \<and>
    buf_content b' = [1, 2, 3, 4, 5, 6, 7] \<and>
    get_nums buf_get_num (b', n_buf_it_init) [K16, K8, K32] = Inr (r, Some [N16 258, N8 3, N32 67438087])"
proof -
  have "nums_bytes [N16 258, N8 3, N32 67438087] = [1, 2, 3, 4, 5, 6, 7]" by (simp add: n_hton16_def n_hton32_def)
  with n_buf_numbers_roundtrip [of 0 "[N16 258, N8 3, N32 67438087]" plain_env] show ?thesis by fastforce
qed

section \<open>Lines\<close>

text \<open>A caller's loop over the lines: the index and length of each.\<close>

lemma gets_loop_ge: "gets_loop b endl i = Inr j \<Longrightarrow> i \<le> j"
proof (induction b endl i rule: gets_loop.induct)
  case (1 b endl i)
  from 1(2) show ?case
    by (subst (asm) gets_loop.simps) (auto simp: rbind_eq_Inr split: if_splits dest!: 1(1))
qed

lemma n_buf_it_gets_ext_moves:
  "n_buf_it_gets_ext b it endl = Inr (it', Some q) \<Longrightarrow> bi_offs it < bi_offs it' \<and> bi_offs it < bf_size b"
  by (auto simp: n_buf_it_gets_ext_def rbind_eq_Inr split: if_splits dest!: gets_loop_ge)

function gets_all :: "tn_buf \<Rightarrow> tn_buf_it \<Rightarrow> int \<Rightarrow> (nat \<times> nat) list result" where
  "gets_all b it endl = rbind (n_buf_it_gets_ext b it endl) (\<lambda>(it, r).
     case r of None \<Rightarrow> Inr [] | Some q \<Rightarrow> rbind (gets_all b it endl) (\<lambda>qs. Inr (q # qs)))"
  by pat_completeness auto
termination
  by (relation "measure (\<lambda>(b, it, endl). bf_size b - bi_offs it)")
    (auto dest!: n_buf_it_gets_ext_moves)

declare gets_all.simps [simp del]

lemma gets_loop_ok:
  assumes "buf_rep b c"
  shows "i \<le> length c \<Longrightarrow> gets_loop b endl i =
    Inr (i + length (takeWhile (\<lambda>x. uint x \<noteq> endl) (drop i c)))"
proof (induction "length c - i" arbitrary: i)
  case 0
  then show ?case using assms by (subst gets_loop.simps) (simp add: buf_rep_def)
next
  case (Suc n)
  then have i: "i < length c" "n = length c - (i + 1)" "i + 1 \<le> length c" by auto
  have d: "drop i c = c ! i # drop (i + 1) c" using i(1) by (simp add: Cons_nth_drop_Suc)
  have "bf_bytes_at b (int i) 1 = Inr [c ! i]" using bytes_at_ok [OF assms, of i 1] i(1) d by simp
  with Suc(1) [OF i(2,3)] i(1) assms d show ?case by (subst gets_loop.simps) (simp add: buf_rep_def)
qed

lemma gets_ext_ok:
  assumes "buf_rep b c"
  shows "n_buf_it_gets_ext b it endl =
    (if bi_offs it < length c
     then let n = length (takeWhile (\<lambda>x. uint x \<noteq> endl) (drop (bi_offs it) c)) in
       Inr (it\<lparr>bi_offs := bi_offs it + n + 1\<rparr>, Some (bi_offs it, n))
     else Inr (it, None))"
  using gets_loop_ok [OF assms, of "bi_offs it" endl] assms
  by (auto simp: n_buf_it_gets_ext_def buf_rep_def Let_def)

definition piece :: "bytes \<Rightarrow> nat \<times> nat \<Rightarrow> bytes" where
  "piece c q = (case q of (i, n) \<Rightarrow> take n (drop i c))"

lemma takeWhile_line:
  "endl \<notin> uint ` set l \<Longrightarrow> uint x = endl \<Longrightarrow> takeWhile (\<lambda>x. uint x \<noteq> endl) (l @ x # r) = l"
  "endl \<notin> uint ` set l \<Longrightarrow> takeWhile (\<lambda>x. uint x \<noteq> endl) l = l"
proof -
  assume n: "endl \<notin> uint ` set l"
  have all: "takeWhile (\<lambda>x. uint x \<noteq> endl) (l @ ys) = l @ takeWhile (\<lambda>x. uint x \<noteq> endl) ys" for ys
    using n by (intro takeWhile_append2) force
  show "uint x = endl \<Longrightarrow> takeWhile (\<lambda>x. uint x \<noteq> endl) (l @ x # r) = l" by (simp add: all)
  show "takeWhile (\<lambda>x. uint x \<noteq> endl) l = l" using all [of "[]"] by simp
qed

lemma gets_all_ok:
  assumes "buf_rep b c" "\<forall>l\<in>set ls. endl \<notin> uint ` set l" "endl \<notin> uint ` set r" "uint x = endl"
  shows "drop (bi_offs it) c = concat (map (\<lambda>l. l @ [x]) ls) @ r \<Longrightarrow>
    \<exists>qs. gets_all b it endl = Inr qs \<and> map (piece c) qs = ls @ (if r = [] then [] else [r])"
  using assms(2)
proof (induction ls arbitrary: it)
  case Nil
  then have d: "drop (bi_offs it) c = r" by simp
  show ?case
  proof (cases "r = []")
    case True
    then have "\<not> bi_offs it < length c" using d by simp
    then show ?thesis using True by (subst gets_all.simps) (simp add: gets_ext_ok [OF assms(1)])
  next
    case False
    have l: "bi_offs it < length c" "length r = length c - bi_offs it" using d False by auto
    have "gets_all b (it\<lparr>bi_offs := bi_offs it + length r + 1\<rparr>) endl = Inr []"
      using l by (subst gets_all.simps) (simp add: gets_ext_ok [OF assms(1)])
    then have "gets_all b it endl = Inr [(bi_offs it, length r)]"
      using l(1)
      by (subst gets_all.simps) (simp add: gets_ext_ok [OF assms(1)] Let_def d takeWhile_line(2) [OF assms(3)])
    then show ?thesis using False d by (simp add: piece_def)
  qed
next
  case (Cons l ls)
  have d: "drop (bi_offs it) c = l @ x # concat (map (\<lambda>l. l @ [x]) ls) @ r" using Cons.prems(1) by simp
  then have lt: "bi_offs it < length c" using drop_Cons_less by (metis append_is_Nil_conv drop_all list.distinct(1) not_less)
  let ?it = "it\<lparr>bi_offs := bi_offs it + length l + 1\<rparr>"
  have "drop (bi_offs ?it) c = drop (length l + 1) (drop (bi_offs it) c)" by (simp add: add.commute)
  also have "\<dots> = concat (map (\<lambda>l. l @ [x]) ls) @ r" by (simp add: d)
  finally obtain qs where qs: "gets_all b ?it endl = Inr qs" "map (piece c) qs = ls @ (if r = [] then [] else [r])"
    using Cons.IH [of ?it] Cons.prems(2) by auto
  have "takeWhile (\<lambda>x. uint x \<noteq> endl) (drop (bi_offs it) c) = l"
    using takeWhile_line(1) [OF _ assms(4)] Cons.prems(2) by (simp add: d)
  then have "gets_all b it endl = Inr ((bi_offs it, length l) # qs)"
    using lt qs(1) by (subst gets_all.simps) (simp add: gets_ext_ok [OF assms(1)] Let_def)
  moreover have "piece c (bi_offs it, length l) = l" by (simp add: piece_def d)
  ultimately show ?case using qs(2) by simp
qed

text \<open>C28: Lines written to a new buffer, each with the line end behind it, and a last piece without
  one come back from the iterator one by one; nothing outside the bytes of the buffer is read.\<close>

theorem n_buf_lines_roundtrip:
  assumes "\<forall>l\<in>set (r # ls). uint x \<notin> uint ` set l" "0 \<le> n" "n < 2 ^ 31"
    "length (concat (map (\<lambda>l. l @ [x]) ls) @ r) \<le> 2 ^ 28"
  shows "\<exists>b b' qs k. n_buf_new n = Inr b \<and>
    n_buf_write_ex e b (map Some (concat (map (\<lambda>l. l @ [x]) ls) @ r)) k False = Inr (b', k) \<and>
    gets_all b' n_buf_it_init (uint x) = Inr qs \<and>
    map (piece (buf_content b')) qs = ls @ (if r = [] then [] else [r])"
proof -
  let ?c = "concat (map (\<lambda>l. l @ [x]) ls) @ r"
  obtain b where b: "n_buf_new n = Inr b" "buf_at_end b" "buf_content b = []" "buf_room b = 2 ^ 28"
    using n_buf_new_rep [OF assms(2,3)] by blast
  from write_end [OF b(2), of ?c e False] b(3,4) assms(4) obtain b' where
    b': "n_buf_write_ex e b (map Some ?c) (int (length ?c)) False = Inr (b', int (length ?c))" "buf_at_end b'"
    "buf_content b' = ?c" by auto
  then have "buf_rep b' ?c" by (simp add: buf_at_end_def)
  from gets_all_ok [OF this, of ls "uint x" r x n_buf_it_init] assms(1) obtain qs where
    "gets_all b' n_buf_it_init (uint x) = Inr qs" "map (piece ?c) qs = ls @ (if r = [] then [] else [r])"
    by (auto simp: n_buf_it_init_def)
  with b(1) b' show ?thesis by metis
qed

lemma n_buf_lines_roundtrip_witness:
  "\<exists>b b' qs k. n_buf_new 0 = Inr b \<and>
    n_buf_write_ex plain_env b (map Some [97, 10, 10, 98, 99]) k False = Inr (b', k) \<and>
    gets_all b' n_buf_it_init 10 = Inr qs \<and> map (piece (buf_content b')) qs = [[97], [], [98, 99]]"
  using n_buf_lines_roundtrip [of "[98, 99]" "[[97], []]" 10 0 plain_env] by simp

section \<open>Storing and restoring\<close>

definition size_bytes :: "int \<Rightarrow> 32 word \<Rightarrow> bytes" where
  "size_bytes bits n = (if bits = 0 then stored_bytes n else if bits = 2 then n_hton16 (ucast n) else n_hton32 n)"

definition size_fits :: "int \<Rightarrow> nat \<Rightarrow> bool" where
  "size_fits bits n \<longleftrightarrow> bits = 0 \<or> bits = 3 \<or> bits = 2 \<and> n < 32767"

lemma size_bytes_length: "length (size_bytes bits n) \<le> 5"
  by (simp add: size_bytes_def stored_bytes_def)

lemma small_word:
  "n < 2 ^ 28 \<Longrightarrow> unat (word_of_nat n :: 32 word) = n" "n < 2 ^ 28 \<Longrightarrow> sint (word_of_nat n :: 32 word) = int n"
  using c_int_small [of n] by (simp_all add: unat_of_nat c_int_def)

lemma restore_size_ok:
  assumes "st_rest st = size_bytes bits (word_of_nat n) @ bs" "size_fits bits n" "n < 2 ^ 28"
  shows "\<exists>st'. restore_size e st bits = Inr (st', word_of_nat n) \<and> st_rest st' = bs"
proof -
  consider "bits = 0" | "bits = 2" "n < 32767" | "bits = 3" using assms(2) by (auto simp: size_fits_def)
  then show ?thesis
  proof cases
    case 1
    with n_restore_uint32_ok [of st "word_of_nat n" bs e] assms(1) show ?thesis
      by (auto simp: restore_size_def size_bytes_def)
  next
    case 2
    have "(word_of_nat n :: 32 word) < 65535" using 2(2) small_word(1) [OF assms(3)] by (simp add: word_less_nat_alt)
    with read_num_consumes(1) [of st "ucast (word_of_nat n :: 32 word)" bs 0] 2 assms(1) ucast_small(2) [of "word_of_nat n"]
    show ?thesis by (auto simp: restore_size_def size_bytes_def TN_BUF_STORE_8B_def TN_BUF_STORE_16B_def)
  next
    case 3
    with read_num_consumes(2) [of st "word_of_nat n" bs] assms(1) show ?thesis
      by (auto simp: restore_size_def size_bytes_def TN_BUF_STORE_8B_def TN_BUF_STORE_16B_def TN_BUF_STORE_32B_def)
  qed
qed

lemma store_ok:
  assumes "buf_rep b c" "length c < 2 ^ 28" "size_fits bits (length c)" "st_at_end st" "length c + 5 \<le> st_room st"
  shows "\<exists>st'. n_buf_store e b st bits = Inr (st', True) \<and>
    appended st (size_bytes bits (word_of_nat (length c)) @ c) st'"
proof -
  let ?w = "word_of_nat (length c) :: 32 word" and ?n = "n_buf_size b"
  have n: "?n = int (length c)" using assms(1,2) by (simp add: n_buf_size_def buf_rep_def c_int_small)
  define put where "put = (if bits = 0 then fst (n_store_uint32 st ?w)
    else if bits = 2 then fst (n_stream_write_uint16 st (word_of_nat (length c)))
    else fst (n_stream_write_uint32 st ?w))"
  have u16: "(word_of_nat (length c) :: 16 word) = ucast ?w"
    by (rule bit_word_eqI) (simp add: bit_simps)
  have a: "appended st (size_bytes bits ?w) put"
    using n_store_uint32_ok [of st ?w] write_num_appends [of st] assms(3,4,5) u16
    by (auto simp: size_fits_def size_bytes_def put_def)
  then have "st_at_end put" "length c \<le> st_room put"
    using size_bytes_length [of bits ?w] assms(5) by (auto simp: appended_def)
  from write_appends [OF this] obtain st' where st': "n_stream_write put c = (st', int (length c))" "appended put c st'"
    using assms(2) by (cases "n_stream_write put c") (simp add: c_int_small)
  have cells: "cells_bytes (bf_cells b) 0 (length c) = Inr c"
    using bytes_at_ok [OF assms(1), of 0 "length c"] by (simp add: bf_bytes_at_def)
  have small: "int (length c) < 2147483647" using assms(2) by simp
  have "n_buf_store e b st bits = Inr (st', True)"
    using assms(3) st'(1) cells small
    by (auto simp: n_buf_store_def n Let_def size_fits_def put_def TN_BUF_STORE_8B_def TN_BUF_STORE_16B_def
        TN_BUF_STORE_32B_def)
  with appended_trans [OF a st'(2)] show ?thesis by blast
qed

text \<open>C29: A buffer stored on a stream, with the size in front in 16 bits, 32 bits or the shortest form, is
  restored from there: the new buffer has the same bytes, stands at its start and may not grow.
  Skipping it instead leaves the stream at the same place.\<close>

theorem n_buf_store_restore:
  assumes "buf_rep b c" "length c < 2 ^ 28" "size_fits bits (length c)" "st_at_end st" "length c + 5 \<le> st_room st"
  shows "\<exists>st1 st2 st3 st4 b'. n_buf_store e b st bits = Inr (st1, True) \<and>
    n_stream_seek st1 (n_stream_tell st) Seek_Set = (st2, 0) \<and>
    n_buf_restore_ex e st2 True bits None = Inr (st3, Some b', 1) \<and> st_rest st3 = [] \<and>
    buf_rep b' c \<and> bf_off b' = 0 \<and> bf_flags b' = TN_BUF_CONSTSIZE \<and>
    n_buf_restore_skip e st2 bits = Inr (st4, 0) \<and> st_rest st4 = []"
proof -
  from store_ok [OF assms, of e] obtain st1 where st1: "n_buf_store e b st bits = Inr (st1, True)"
    "appended st (size_bytes bits (word_of_nat (length c)) @ c) st1" by blast
  define st2 where "st2 = st1\<lparr>st_stream := (st_stream st1)\<lparr>f_pos := f_pos (st_stream st)\<rparr>\<rparr>"
  have seek: "n_stream_seek st1 (n_stream_tell st) Seek_Set = (st2, 0)"
    by (simp add: n_stream_seek_def c_fseek_def n_stream_tell_def st2_def)
  have "st_rest st2 = size_bytes bits (word_of_nat (length c)) @ c"
    using st1(2) assms(4) by (simp add: st_rest_def f_rest_def st2_def st_bytes_def st_at_end_def appended_def)
  from restore_size_ok [OF this assms(3,2), of e] obtain r1 where
    r1: "restore_size e st2 bits = Inr (r1, word_of_nat (length c))" "st_rest r1 = c @ []" by auto
  from read_consumes [OF r1(2)] obtain st3 where st3: "n_stream_read r1 (length c) = (st3, c, int (length c))"
    "st_rest st3 = []" using assms(2) by (auto simp: c_int_small)
  let ?b = "\<lparr>bf_refcnt = 0, bf_flags = TN_BUF_CONSTSIZE, bf_data = Some (map Some c), bf_allocated = length c,
    bf_size = length c, bf_off = 0\<rparr>"
  have restore: "n_buf_restore_ex e st2 True bits None = Inr (st3, Some ?b, 1)"
    using assms(2) r1(1) st3(1) small_word [OF assms(2)]
    by (simp add: n_buf_restore_ex_def n_buf_new_def n_buf_init_def to_size_small TN_BUF_CONSTSIZE_def TN_BUF_CONSTDATA_def)
  let ?st4 = "r1\<lparr>st_stream := (st_stream r1)\<lparr>f_pos := f_pos (st_stream r1) + length c\<rparr>\<rparr>"
  have "uint (word_of_nat (length c) :: 32 word) = int (length c)"
    using small_word(1) [OF assms(2)] by (simp add: uint_nat)
  then have skip: "n_buf_restore_skip e st2 bits = Inr (?st4, 0)"
    by (simp add: n_buf_restore_skip_def r1(1) n_stream_seek_def c_fseek_def nat_add_distrib)
  have "st_rest ?st4 = drop (length c) (st_rest r1)" by (simp add: st_rest_def f_rest_def add.commute)
  then have "st_rest ?st4 = []" using r1(2) by simp
  moreover have "buf_rep ?b c" using assms(2) by (simp add: buf_rep_def bf_cells_def)
  ultimately show ?thesis using st1(1) seek restore st3(2) skip
    by (intro exI [of _ st1] exI [of _ st2] exI [of _ st3] exI [of _ ?st4] exI [of _ ?b]) simp
qed

lemma n_buf_store_restore_witness:
  "\<exists>b st1 st2 st3 b'. n_buf_new 8 = Inr b \<and> buf_rep b [] \<and> n_buf_store plain_env b empty_stream 2 = Inr (st1, True) \<and>
    n_stream_seek st1 0 Seek_Set = (st2, 0) \<and>
    n_buf_restore_ex plain_env st2 True 2 None = Inr (st3, Some b', 1) \<and> buf_rep b' []"
proof -
  obtain b where b: "n_buf_new 8 = Inr b" "buf_rep b []" using n_buf_new_rep [of 8] by auto
  have "st_at_end empty_stream" "length ([] :: bytes) + 5 \<le> st_room empty_stream" "n_stream_tell empty_stream = 0"
    by (simp_all add: empty_stream_def st_at_end_def st_room_def n_stream_tell_def)
  with n_buf_store_restore [OF b(2), of 2 empty_stream plain_env] b show ?thesis by (auto simp: size_fits_def)
qed

section \<open>Traps\<close>

text \<open>Cleaning a buffer made without a block writes through \<open>NULL\<close>. Cleaning a buffer over the
  caller's block takes the block away but keeps the size, so the line reader then reads through
  \<open>NULL\<close>.\<close>

theorem n_buf_clean_traps:
  assumes "bs \<noteq> []" "length bs < 2 ^ 31"
  shows "rbind (n_buf_new 0) n_buf_clean = Inl Mem_Fault \<and>
    (\<exists>b b'. rbind (n_buf_new 0) (\<lambda>b. n_buf_init e b (Some (map Some bs)) (int (length bs))) = Inr b \<and>
      buf_rep b bs \<and> n_buf_clean b = Inr b' \<and> bf_data b' = None \<and> n_buf_size b' = int (length bs) \<and>
      n_buf_it_gets_ext b' n_buf_it_init endl = Inl Mem_Fault)"
proof -
  let ?b = "\<lparr>bf_refcnt = 0, bf_flags = 3, bf_data = Some (map Some bs), bf_allocated = length bs,
    bf_size = length bs, bf_off = 0\<rparr>"
  let ?b' = "?b\<lparr>bf_data := None, bf_allocated := 0, bf_flags := 0, bf_off := 0\<rparr>"
  have "rbind (n_buf_new 0) (\<lambda>b. n_buf_init e b (Some (map Some bs)) (int (length bs))) = Inr ?b"
    using assms(2) by (simp add: n_buf_new_def n_buf_init_def to_size_small TN_BUF_CONSTSIZE_def TN_BUF_CONSTDATA_def)
  moreover have "n_buf_clean ?b = Inr ?b'" by (simp add: n_buf_clean_def bf_has_def TN_BUF_CONSTDATA_def)
  moreover have "bf_bytes_at ?b' 0 1 = Inl Mem_Fault" by (simp add: bf_bytes_at_def cells_bytes_def bf_cells_def)
  then have "n_buf_it_gets_ext ?b' n_buf_it_init endl = Inl Mem_Fault"
    using assms(1) by (subst n_buf_it_gets_ext_def, subst gets_loop.simps) (auto simp: n_buf_it_init_def Suc_le_eq)
  moreover have "rbind (n_buf_new 0) n_buf_clean = Inl Mem_Fault"
    by (simp add: n_buf_new_def n_buf_clean_def bf_has_def TN_BUF_CONSTDATA_def bf_cells_def mem_write_def)
  moreover have "buf_rep ?b bs" "n_buf_size ?b' = int (length bs)"
    using assms(2) by (simp_all add: buf_rep_def bf_cells_def n_buf_size_def c_int_small)
  ultimately show ?thesis by (intro conjI exI [of _ ?b] exI [of _ ?b']) simp_all
qed

lemma n_buf_clean_traps_witness:
  "\<exists>b b'. rbind (n_buf_new 0) (\<lambda>b. n_buf_init plain_env b (Some [Some 97]) 1) = Inr b \<and>
    n_buf_clean b = Inr b' \<and> n_buf_it_gets_ext b' n_buf_it_init 10 = Inl Mem_Fault"
  using n_buf_clean_traps [of "[97]" plain_env 10] by auto

text \<open>A write after a seek beyond the block is not noticed: the room wraps around, nothing grows and
  the bytes go outside the block.\<close>

theorem n_buf_seek_past_faults:
  assumes "buf_rep b c" "int (bf_allocated b) < off" "off < 2 ^ 31" "bs \<noteq> []" "length bs < 2 ^ 31"
  shows "rbind (n_buf_seek e b off Seek_Set) (\<lambda>(b, _). n_buf_write_ex e b (map Some bs) (int (length bs)) zero) = Inl Mem_Fault"
proof -
  let ?b = "b\<lparr>bf_off := nat off\<rparr>"
  have o: "0 \<le> off" using assms(2) by linarith
  have s: "n_buf_seek e b off Seek_Set = Inr (?b, off)"
    using o assms(3) by (simp add: n_buf_seek_def to_size_small c_int_small)
  define z where "z = (if zero then 1 else 0 :: int)"
  have "(int (bf_allocated b) - off) mod 2 ^ 64 = (2 ^ 64 + (int (bf_allocated b) - off)) mod 2 ^ 64" by simp
  also have "\<dots> = 2 ^ 64 + (int (bf_allocated b) - off)"
    using assms(2,3) by (intro mod_pos_pos_trivial) auto
  finally have "(int (bf_allocated b) - off) mod 2 ^ 64 = 2 ^ 64 + (int (bf_allocated b) - off)" .
  then have room: "\<not> to_size (int (bf_allocated ?b) - int (bf_off ?b)) < nat ((int (length bs) + z + 1) mod 2 ^ 32)"
    using o assms(2,3,5) by (auto simp: to_size_def z_def)
  have "length (bf_cells b) = bf_allocated b" using assms(1) by (simp add: buf_rep_def)
  then have "cells_copy (bf_cells ?b) (bf_off ?b) (map Some bs) (int (length bs)) = Inl Mem_Fault"
    using o assms(2,4) by (simp add: cells_copy_def bf_cells_def)
  then have "n_buf_write_ex e ?b (map Some bs) (int (length bs)) zero = Inl Mem_Fault"
    unfolding n_buf_write_ex_def z_def [symmetric] Let_def if_not_P [OF room] by simp
  then show ?thesis by (simp add: s)
qed

lemma n_buf_seek_past_faults_witness:
  "\<exists>b. n_buf_new 4 = Inr b \<and>
    rbind (n_buf_seek plain_env b 5 Seek_Set) (\<lambda>(b, _). n_buf_write_ex plain_env b [Some 97] 1 False) = Inl Mem_Fault"
proof -
  obtain b where b: "n_buf_new 4 = Inr b" "buf_rep b []" using n_buf_new_rep [of 4] by auto
  moreover have "bf_allocated b = 4" using b(1) by (auto simp: n_buf_new_def Let_def)
  ultimately show ?thesis using n_buf_seek_past_faults [OF b(2), of 5 "[97]" plain_env False] by simp
qed

end
