(* ===== verification/Str.thy ===== *)
theory Str
  imports Stream
begin

text \<open>
  The string functions: \<open>nstr.c\<close>, \<open>nstr_cpy.c\<close>, \<open>nstr_len.c\<close>, \<open>nstr_concat.c\<close>,
  \<open>nstr_basenam.c\<close>, \<open>nstr_tok.c\<close> and the splitting into words of \<open>nstr_tokl.c\<close>.

  A string that is only read is the list of its characters, without the final NUL; a string
  that is written is a block of bytes and an index into it. The variable arguments of a
  function are a list. Strings are shorter than \<open>2\<^sup>3\<^sup>1\<close> bytes, so their lengths fit an \<open>int\<close>.
\<close>

section \<open>Strings in memory\<close>

text \<open>The string at an index of a block; the string functions of C run out of the block when there is no NUL.\<close>

definition str_at :: "bytes \<Rightarrow> nat \<Rightarrow> bytes" where
  "str_at mem i = takeWhile (\<lambda>b. b \<noteq> 0) (drop i mem)"

definition c_isspace :: "8 word \<Rightarrow> bool" where
  "c_isspace b \<longleftrightarrow> b = 32 \<or> 9 \<le> b \<and> b \<le> 13"

function str_end :: "bytes \<Rightarrow> nat \<Rightarrow> nat result" where
  "str_end mem p = rbind (mem_read mem p) (\<lambda>c. if c = 0 then Inr p else str_end mem (p + 1))"
  by pat_completeness auto
termination by (relation "measure (\<lambda>(mem, p). length mem - p)") (auto simp: mem_read_Inr)

declare str_end.simps [simp del]

section \<open>White space at the ends\<close>

function skip_space :: "bytes \<Rightarrow> nat \<Rightarrow> nat result" where
  "skip_space mem p = rbind (mem_read mem p) (\<lambda>c. if c_isspace c then skip_space mem (p + 1) else Inr p)"
  by pat_completeness auto
termination by (relation "measure (\<lambda>(mem, p). length mem - p)") (auto simp: mem_read_Inr)

declare skip_space.simps [simp del]

text \<open>The loop from the end; the pointer is one below its second argument.\<close>

fun strip_back :: "bytes \<Rightarrow> nat \<Rightarrow> nat \<Rightarrow> bytes result" where
  "strip_back mem 0 str = Inl Mem_Fault"
| "strip_back mem (Suc p) str =
     (if p = str then Inr mem
      else rbind (mem_read mem p) (\<lambda>c. if c_isspace c
        then rbind (mem_write mem p 0) (\<lambda>mem. strip_back mem p str) else Inr mem))"

definition n_str_strip_ws :: "(bytes \<times> nat) option \<Rightarrow> (bytes \<times> nat) option result" where
  "n_str_strip_ws str =
     (case str of None \<Rightarrow> Inr None
      | Some (mem, o0) \<Rightarrow> rbind (skip_space mem o0) (\<lambda>str. rbind (str_end mem str) (\<lambda>p.
          rbind (strip_back mem p str) (\<lambda>mem. Inr (Some (mem, str))))))"

section \<open>Comparison, length, concatenation\<close>

fun n_str_vin :: "bytes \<Rightarrow> bytes list \<Rightarrow> int" where
  "n_str_vin s [] = 0"
| "n_str_vin s (p # ps) = (if p = s then 1 else n_str_vin s ps)"

definition n_str_in :: "bytes \<Rightarrow> bytes list \<Rightarrow> int" where
  "n_str_in s args = n_str_vin s args"

fun add_lengths :: "nat \<Rightarrow> bytes list \<Rightarrow> nat" where
  "add_lengths len [] = len"
| "add_lengths len (p # ps) = add_lengths (len + length p) ps"

definition n_str_vlen :: "bytes \<Rightarrow> bytes list \<Rightarrow> nat" where
  "n_str_vlen s args = add_lengths (length s) args"

definition n_str_len :: "bytes \<Rightarrow> bytes list \<Rightarrow> nat" where
  "n_str_len s args = n_str_vlen s args"

text \<open>\<open>strcpy\<close> and \<open>strcat\<close> into a block.\<close>

definition c_strcpy :: "bytes \<Rightarrow> nat \<Rightarrow> bytes \<Rightarrow> bytes result" where
  "c_strcpy mem i s =
     (if i + length s < length mem then Inr (take i mem @ s @ [0] @ drop (i + length s + 1) mem) else Inl Mem_Fault)"

definition c_strcat :: "bytes \<Rightarrow> bytes \<Rightarrow> bytes result" where
  "c_strcat mem s = rbind (str_end mem 0) (\<lambda>i. c_strcpy mem i s)"

fun cat_all :: "bytes \<Rightarrow> bytes list \<Rightarrow> bytes result" where
  "cat_all mem [] = Inr mem"
| "cat_all mem (p # ps) = rbind (c_strcat mem p) (\<lambda>mem. cat_all mem ps)"

text \<open>\<open>junk\<close> is what is in the new block.\<close>

definition n_str_vconcat :: "(nat \<Rightarrow> 8 word) \<Rightarrow> bytes \<Rightarrow> bytes list \<Rightarrow> bytes result" where
  "n_str_vconcat junk s args =
     (let len = add_lengths (length s) args in
      rbind (c_strcpy (map junk [0..<len + 1]) 0 s) (\<lambda>rstr. cat_all rstr args))"

definition n_str_concat :: "(nat \<Rightarrow> 8 word) \<Rightarrow> bytes \<Rightarrow> bytes list \<Rightarrow> bytes result" where
  "n_str_concat junk s args = n_str_vconcat junk s args"

section \<open>Bounded copy\<close>

text \<open>The block, and the index behind the last byte written. The counter wraps around at 0.\<close>

fun strncpy_loop :: "bytes \<Rightarrow> nat \<Rightarrow> bytes \<Rightarrow> 64 word \<Rightarrow> (bytes \<times> nat) result" where
  "strncpy_loop dest i [] n = rbind (mem_write dest i 0) (\<lambda>dest. Inr (dest, i + 1))"
| "strncpy_loop dest i (c # cs) n = rbind (mem_write dest i c) (\<lambda>dest.
     if n - 1 = 0 then Inr (dest, i + 1) else strncpy_loop dest (i + 1) cs (n - 1))"

definition n_strncpy :: "bytes \<Rightarrow> bytes \<Rightarrow> 64 word \<Rightarrow> (bytes \<times> nat) result" where
  "n_strncpy dest src n = rbind (strncpy_loop dest 0 src n) (\<lambda>(dest, i).
     rbind (mem_write dest (i - 1) 0) (\<lambda>dest. Inr (dest, i - 1)))"

section \<open>Names of files\<close>

text \<open>The path, whether the directory name is the path or \<open>NULL\<close>, and the index of the base name.\<close>

definition n_basedirnam :: "bytes \<Rightarrow> (bytes \<times> bool \<times> nat) result" where
  "n_basedirnam mem =
     (case c_strrchr (str_at mem 0) 47 of
        None \<Rightarrow> Inr (mem, False, 0)
      | Some s \<Rightarrow> (let i = length (str_at mem 0) - length s in
          rbind (mem_write mem i 0) (\<lambda>mem. Inr (mem, True, i + 1))))"

definition n_basenam :: "bytes \<Rightarrow> bytes" where
  "n_basenam path = (case c_strrchr path 47 of Some s \<Rightarrow> tl s | None \<Rightarrow> path)"

section \<open>Words\<close>

text \<open>
  The characters that end a word are skipped by a loop over the delimiters that starts at the
  second one after each match: its second argument is the rest of the delimiters.
\<close>

function skip_delims :: "bytes \<Rightarrow> bytes \<Rightarrow> bytes \<Rightarrow> bytes" where
  "skip_delims delim [] p = []"
| "skip_delims delim (c # s) [] = c # s"
| "skip_delims delim (c # s) (d # p) =
     (if c = d then skip_delims delim s (tl delim) else skip_delims delim (c # s) p)"
  by pat_completeness auto
termination by (relation "measures [\<lambda>(delim, s, p). length s, \<lambda>(delim, s, p). length p]") auto

text \<open>The token goes to index \<open>k\<close> of the block; \<open>lim\<close> is the index of the last byte of the buffer.\<close>

fun tok_loop :: "bytes \<Rightarrow> bytes \<Rightarrow> bytes \<Rightarrow> nat \<Rightarrow> int \<Rightarrow> (bytes \<times> bytes) result" where
  "tok_loop delim [] mem k lim = rbind (mem_write mem k 0) (\<lambda>mem. Inr (mem, []))"
| "tok_loop delim (c # s) mem k lim =
     (if int k \<le> lim
      then if c \<in> set delim then rbind (mem_write mem k 0) (\<lambda>mem. Inr (mem, skip_delims delim s delim))
           else rbind (mem_write mem k c) (\<lambda>mem. tok_loop delim s mem (k + 1) lim)
      else rbind (mem_write mem k 0) (\<lambda>mem. Inr (mem, c # s)))"

text \<open>The buffer \<open>tok\<close> is at index \<open>k\<close> of a block; \<open>None\<close> for \<open>NULL\<close>.\<close>

definition n_str_tok :: "bytes \<Rightarrow> bytes \<Rightarrow> nat \<Rightarrow> nat \<Rightarrow> bytes \<Rightarrow> (bytes \<times> bytes option) result" where
  "n_str_tok s mem k toklen delim =
     (if s = [] then Inr (mem, None)
      else rbind (tok_loop delim (dropWhile (\<lambda>c. c \<in> set delim) s) mem k (int (k + toklen) - 1))
        (\<lambda>(mem, s). Inr (mem, Some s)))"

text \<open>
  The splitting of a string: the array of pointers has the indices of the tokens in the copy
  \<open>scpy\<close> of the string, \<open>None\<close> for \<open>NULL\<close>, and grows by 8; its first element, which points to
  the copy, is not among those given back. A buffer of no bytes would never take a character.
\<close>

lemma skip_delims_length: "length (skip_delims delim s p) \<le> length s"
  by (induction delim s p rule: skip_delims.induct) auto

lemma tok_loop_length: "tok_loop delim s mem k lim = Inr (mem', s') \<Longrightarrow> length s' \<le> length s"
proof (induction delim s mem k lim rule: tok_loop.induct)
  case (2 delim c s mem k lim)
  then show ?case using skip_delims_length [of delim s delim]
    by (auto simp: rbind_eq_Inr split: if_splits)
qed (auto simp: rbind_eq_Inr)

lemma tok_loop_less:
  "s \<noteq> [] \<Longrightarrow> int k \<le> lim \<Longrightarrow> tok_loop delim s mem k lim = Inr (mem', s') \<Longrightarrow> length s' < length s"
  using skip_delims_length [of delim "tl s" delim] tok_loop_length [of delim "tl s" _ "k + 1" lim mem' s']
  by (cases s) (force simp: rbind_eq_Inr split: if_splits)+

lemma n_str_tok_less:
  assumes "s \<noteq> []" "0 < toklen" "n_str_tok s mem k toklen delim = Inr (mem', Some s')"
  shows "length s' < length s"
proof -
  let ?s = "dropWhile (\<lambda>c. c \<in> set delim) s"
  from assms have l: "tok_loop delim ?s mem k (int (k + toklen) - 1) = Inr (mem', s')"
    by (auto simp: n_str_tok_def rbind_eq_Inr)
  show ?thesis
  proof (cases "?s = []")
    case True
    with l assms(1) show ?thesis by (auto simp: rbind_eq_Inr)
  next
    case False
    from tok_loop_less [OF this _ l] assms(2) have "length s' < length ?s" by simp
    also have "\<dots> \<le> length s" by (rule length_dropWhile_le)
    finally show ?thesis .
  qed
qed

function tokl_loop ::
    "bytes \<Rightarrow> nat \<Rightarrow> bytes \<Rightarrow> bytes \<Rightarrow> nat \<Rightarrow> nat option list \<Rightarrow> nat \<Rightarrow> (bytes \<times> nat option list \<times> nat) result" where
  "tokl_loop delim slen p mem scpy tokens n =
     (if p = [] then Inr (mem, tokens, n)
      else if slen = 0 then Inl Hang
      else case n_str_tok p mem scpy slen delim of
        Inl f \<Rightarrow> Inl f
      | Inr (mem, None) \<Rightarrow> Inl Mem_Fault
      | Inr (mem, Some p) \<Rightarrow>
          rbind (mem_write tokens n (Some scpy)) (\<lambda>tokens.
            let scpy = scpy + length (str_at mem scpy) + 1; n = n + 1;
                tokens = (if n = length tokens then tokens @ replicate 8 None else tokens) in
            tokl_loop delim slen p mem scpy tokens n))"
  by pat_completeness auto
termination
  by (relation "measure (\<lambda>(delim, slen, p, mem, scpy, tokens, n). length p)") (auto dest: n_str_tok_less)

declare tokl_loop.simps [simp del]

definition n_str_tokl_n :: "bytes \<Rightarrow> bytes \<Rightarrow> (bytes \<times> nat option list \<times> nat) result" where
  "n_str_tokl_n s delim =
     (let slen = length s in
      rbind (tokl_loop delim slen s (replicate (slen + 1) 0) 0 (Some 0 # replicate 7 None) 1)
        (\<lambda>(mem, tokens, n). Inr (mem, tl tokens, n - 1)))"

definition n_str_tokl :: "bytes \<Rightarrow> bytes \<Rightarrow> (bytes \<times> nat option list) result" where
  "n_str_tokl s delim = rbind (n_str_tokl_n s delim) (\<lambda>(mem, tokens, n). Inr (mem, tokens))"

text \<open>\<open>None\<close> is \<open>NULL\<close>: the first pointer behind it is read all the same.\<close>

definition n_str_tokl_free :: "nat option list option \<Rightarrow> unit result" where
  "n_str_tokl_free tokens = (case tokens of None \<Rightarrow> Inl Mem_Fault | Some _ \<Rightarrow> Inr ())"

end
