(* ===== verification/StrProps.thy ===== *)
theory StrProps
  imports Str
begin

text \<open>
  What the string functions give: stripping, bounded copying, concatenation and file names
  against their meaning on lists, and the words of a string as its splitting gives them.
\<close>

section \<open>Strings in memory\<close>

lemma str_at_app: "length pre = i \<Longrightarrow> 0 \<notin> set s \<Longrightarrow> str_at (pre @ s @ 0 # post) i = s"
proof -
  assume a: "length pre = i" "0 \<notin> set s"
  have "takeWhile (\<lambda>b. b \<noteq> 0) (s @ 0 # post) = s @ takeWhile (\<lambda>b. b \<noteq> 0) (0 # post)"
    using a(2) by (intro takeWhile_append2) auto
  then show ?thesis using a(1) by (simp add: str_at_def)
qed

lemma str_end_app:
  "length pre = i \<Longrightarrow> 0 \<notin> set s \<Longrightarrow> str_end (pre @ s @ 0 # post) i = Inr (i + length s)"
proof (induction s arbitrary: pre i)
  case Nil
  then show ?case by (subst str_end.simps) (auto simp: mem_read_def nth_append)
next
  case (Cons c s)
  from Cons.IH [of "pre @ [c]" "i + 1"] Cons.prems have "str_end (pre @ (c # s) @ 0 # post) (i + 1) = Inr (i + length (c # s))"
    by simp
  moreover have "mem_read (pre @ (c # s) @ 0 # post) i = Inr c" "c \<noteq> 0"
    using Cons.prems by (auto simp: mem_read_def nth_append)
  ultimately show ?case by (subst str_end.simps) simp
qed

lemma write_app: "length pre = i \<Longrightarrow> mem_write (pre @ c # post) i v = Inr (pre @ v # post)"
  by (auto simp: mem_write_def list_update_append)

section \<open>Stripping\<close>

lemma skip_space_app:
  "length pre = i \<Longrightarrow> \<forall>c\<in>set ws. c_isspace c \<Longrightarrow> \<not> c_isspace d \<Longrightarrow>
   skip_space (pre @ ws @ d # post) i = Inr (i + length ws)"
proof (induction ws arbitrary: pre i)
  case Nil
  then show ?case by (subst skip_space.simps) (auto simp: mem_read_def nth_append)
next
  case (Cons c ws)
  from Cons.IH [of "pre @ [c]" "i + 1"] Cons.prems have
    "skip_space (pre @ (c # ws) @ d # post) (i + 1) = Inr (i + length (c # ws))" by simp
  moreover have "mem_read (pre @ (c # ws) @ d # post) i = Inr c" "c_isspace c"
    using Cons.prems by (auto simp: mem_read_def nth_append)
  ultimately show ?case by (subst skip_space.simps) simp
qed

text \<open>Blanks at the end of a string become NULs.\<close>

lemma strip_back_app:
  assumes "\<not> c_isspace d" "str \<le> length pre"
  shows "\<forall>c\<in>set ws. c_isspace c \<Longrightarrow>
    strip_back (pre @ d # ws @ post) (length pre + length ws + 1) str =
      Inr (pre @ d # replicate (length ws) 0 @ post)"
proof (induction ws arbitrary: post rule: rev_induct)
  case Nil
  show ?case using assms by (simp add: mem_read_def nth_append)
next
  case (snoc w ws)
  have r: "mem_read (pre @ d # (ws @ [w]) @ post) (length pre + length ws + 1) = Inr w"
    by (simp add: mem_read_def nth_append)
  have w: "mem_write (pre @ d # (ws @ [w]) @ post) (length pre + length ws + 1) 0 = Inr (pre @ d # ws @ 0 # post)"
    using write_app [of "pre @ d # ws" "length pre + length ws + 1" w post 0] by simp
  have ne: "length pre + length ws + 1 \<noteq> str" using assms(2) by simp
  have "length pre + length (ws @ [w]) + 1 = Suc (length pre + length ws + 1)" by simp
  then have "strip_back (pre @ d # (ws @ [w]) @ post) (length pre + length (ws @ [w]) + 1) str =
      strip_back (pre @ d # ws @ 0 # post) (length pre + length ws + 1) str"
    using r w ne snoc.prems by (simp only: strip_back.simps) simp
  also have "\<dots> = Inr (pre @ d # replicate (length ws) 0 @ 0 # post)" using snoc by simp
  also have "replicate (length ws) (0 :: 8 word) @ 0 # post = replicate (length (ws @ [w])) 0 @ post"
    by (simp add: replicate_append_same [symmetric])
  finally show ?case .
qed

lemma strip_back_blank:
  "\<forall>c\<in>set ws. c_isspace c \<Longrightarrow> length ws \<le> str \<Longrightarrow> strip_back (ws @ post) (length ws) str = Inl Mem_Fault"
proof (induction ws arbitrary: post rule: rev_induct)
  case (snoc w ws)
  from snoc.prems have "mem_read (ws @ w # post) (length ws) = Inr w" "length ws \<noteq> str" "c_isspace w"
    by (auto simp: mem_read_def nth_append)
  with snoc write_app [of ws "length ws" w post 0] show ?case by simp
qed simp

lemma strip_ws_ok:
  assumes "\<forall>c\<in>set ws1. c_isspace c" "\<forall>c\<in>set ws2. c_isspace c" "0 \<notin> set s" "s \<noteq> []"
    "\<not> c_isspace (hd s)" "\<not> c_isspace (last s)"
  shows "n_str_strip_ws (Some (pre @ ws1 @ s @ ws2 @ 0 # post, length pre)) =
    Inr (Some (pre @ ws1 @ s @ replicate (length ws2 + 1) 0 @ post, length pre + length ws1))"
proof -
  let ?mem = "pre @ ws1 @ s @ ws2 @ 0 # post" and ?i = "length pre + length ws1"
  obtain t where t: "s = hd s # t" using assms(4) by (cases s) auto
  obtain u where u: "s = u @ [last s]" using assms(4) by (metis append_butlast_last_id)
  have blank: "0 \<notin> set ws2" using assms(2) by (auto simp: c_isspace_def)
  have "skip_space (pre @ ws1 @ hd s # (t @ ws2 @ 0 # post)) (length pre) = Inr ?i"
    using skip_space_app [OF refl assms(1,5)] .
  then have skip: "skip_space ?mem (length pre) = Inr ?i" using t by (metis append_Cons)
  have fin: "str_end ?mem ?i = Inr (?i + length s + length ws2)"
    using str_end_app [of "pre @ ws1" ?i "s @ ws2" post] assms(3) blank by (simp add: add.assoc)
  have "length s = length u + 1" using arg_cong [OF u, of length] by simp
  then have len: "length (pre @ ws1 @ u) + length ws2 + 1 = ?i + length s + length ws2" by simp
  have mem: "pre @ ws1 @ s @ xs = (pre @ ws1 @ u) @ last s # xs" for xs
    by (subst u) simp
  have "strip_back ?mem (?i + length s + length ws2) ?i =
      Inr ((pre @ ws1 @ u) @ last s # replicate (length ws2) 0 @ 0 # post)"
    unfolding mem len [symmetric] using assms(2,6) by (intro strip_back_app) auto
  then show ?thesis using skip fin by (simp add: n_str_strip_ws_def mem replicate_append_same)
qed

text \<open>C33: A string with a character that is not blank is stripped of the blanks at both ends, and the
  memory around it stays; a string of blanks alone at the start of its block, the empty one too, makes
  the function run out of the block.\<close>

theorem n_str_strip_ws_strips:
  assumes "\<forall>c\<in>set ws1. c_isspace c" "\<forall>c\<in>set ws2. c_isspace c" "0 \<notin> set s" "s \<noteq> []"
    "\<not> c_isspace (hd s)" "\<not> c_isspace (last s)"
  shows "\<exists>post'. n_str_strip_ws (Some (pre @ ws1 @ s @ ws2 @ 0 # post, length pre)) =
      Inr (Some (pre @ ws1 @ s @ post' @ post, length pre + length ws1)) \<and>
    str_at (pre @ ws1 @ s @ post' @ post) (length pre + length ws1) = s \<and>
    n_str_strip_ws (Some (ws1 @ 0 # post, 0)) = Inl Mem_Fault"
proof (intro exI conjI)
  show "n_str_strip_ws (Some (pre @ ws1 @ s @ ws2 @ 0 # post, length pre)) =
      Inr (Some (pre @ ws1 @ s @ replicate (length ws2 + 1) 0 @ post, length pre + length ws1))"
    by (rule strip_ws_ok [OF assms])
  show "str_at (pre @ ws1 @ s @ replicate (length ws2 + 1) 0 @ post) (length pre + length ws1) = s"
    using str_at_app [of "pre @ ws1" _ s "replicate (length ws2) 0 @ post"] assms(3) by simp
  have sp0: "\<not> c_isspace 0" by (simp add: c_isspace_def)
  have n0: "0 \<notin> set ws1" using assms(1) sp0 by auto
  have "skip_space (ws1 @ 0 # post) 0 = Inr (length ws1)"
    using skip_space_app [of "[]" 0 ws1 0 post] assms(1) sp0 by simp
  moreover have "str_end (ws1 @ 0 # post) (length ws1) = Inr (length ws1)"
    using str_end_app [of ws1 "length ws1" "[]" post] by simp
  moreover have "strip_back (ws1 @ 0 # post) (length ws1) (length ws1) = Inl Mem_Fault"
    using strip_back_blank [of ws1 "length ws1" "0 # post"] assms(1) by simp
  ultimately show "n_str_strip_ws (Some (ws1 @ 0 # post, 0)) = Inl Mem_Fault" by (simp add: n_str_strip_ws_def)
qed

lemma n_str_strip_ws_strips_witness:
  "\<exists>post'. n_str_strip_ws (Some ([120, 32, 97, 98, 9, 0, 121], 1)) = Inr (Some ([120, 32, 97, 98] @ post' @ [121], 2)) \<and>
    str_at ([120, 32, 97, 98] @ post' @ [121]) 2 = [97, 98] \<and> n_str_strip_ws (Some ([32, 0, 121], 0)) = Inl Mem_Fault"
proof -
  have "c_isspace 32" "c_isspace 9" "\<not> c_isspace 97" "\<not> c_isspace 98" by (simp_all add: c_isspace_def)
  with n_str_strip_ws_strips [of "[32]" "[9]" "[97, 98]" "[120]" "[121]"] show ?thesis
    by (simp add: numeral_2_eq_2 [symmetric])
qed

section \<open>Copying and joining\<close>

lemma c_strcpy_app:
  "length pre = i \<Longrightarrow> length s = length old \<Longrightarrow> c_strcpy (pre @ old @ d # post) i s = Inr (pre @ s @ 0 # post)"
  by (simp add: c_strcpy_def)

lemma add_lengths_eq: "add_lengths n ps = n + length (concat ps)"
  by (induction ps arbitrary: n) simp_all

lemma cat_all_ok:
  "0 \<notin> set s \<Longrightarrow> 0 \<notin> set (concat ps) \<Longrightarrow> length post = length (concat ps) \<Longrightarrow>
   cat_all (s @ 0 # post) ps = Inr (s @ concat ps @ [0])"
proof (induction ps arbitrary: s post)
  case Nil
  then show ?case by simp
next
  case (Cons p ps)
  have e: "str_end (s @ 0 # post) 0 = Inr (length s)"
    using str_end_app [of "[]" 0 s post] Cons.prems(1) by simp
  obtain old d rest where o: "0 # post = old @ d # rest" "length old = length p" "length rest = length (concat ps)"
  proof -
    have "length p < length (0 # post)" using Cons.prems(3) by simp
    from id_take_nth_drop [OF this] show thesis
      using Cons.prems(3) by (intro that [of "take (length p) (0 # post)" _ "drop (length p) post"]) (auto simp: min_def)
  qed
  have "c_strcpy (s @ 0 # post) (length s) p = Inr (s @ p @ 0 # rest)"
    unfolding o(1) using o(2) by (intro c_strcpy_app) auto
  moreover have "cat_all ((s @ p) @ 0 # rest) ps = Inr ((s @ p) @ concat ps @ [0])"
    using Cons.prems o(3) by (intro Cons.IH) auto
  ultimately show ?case using e by (simp add: c_strcat_def)
qed

lemma n_str_concat_ok:
  assumes "0 \<notin> set s" "0 \<notin> set (concat ps)"
  shows "n_str_concat junk s ps = Inr (s @ concat ps @ [0])" "n_str_len s ps = length (s @ concat ps)"
proof -
  let ?n = "length s + length (concat ps)"
  let ?blk = "map junk [0..<?n + 1]"
  have "take (length s) ?blk @ drop (length s) ?blk = ?blk" by simp
  moreover have "drop (length s) ?blk = junk (length s) # drop (length s + 1) ?blk"
    by (subst Cons_nth_drop_Suc [symmetric]) (auto simp: nth_append simp del: upt_Suc)
  ultimately have "?blk = [] @ take (length s) ?blk @ junk (length s) # drop (length s + 1) ?blk"
    by (metis append_Nil)
  moreover have "c_strcpy ([] @ take (length s) ?blk @ junk (length s) # drop (length s + 1) ?blk) 0 s =
      Inr ([] @ s @ 0 # drop (length s + 1) ?blk)"
    by (rule c_strcpy_app) simp_all
  ultimately have "c_strcpy ?blk 0 s = Inr (s @ 0 # drop (length s + 1) ?blk)" by simp
  moreover have "cat_all (s @ 0 # drop (length s + 1) ?blk) ps = Inr (s @ concat ps @ [0])"
    using assms by (intro cat_all_ok) simp_all
  ultimately show "n_str_concat junk s ps = Inr (s @ concat ps @ [0])"
    by (simp add: n_str_concat_def n_str_vconcat_def add_lengths_eq Let_def del: upt_Suc)
  show "n_str_len s ps = length (s @ concat ps)"
    by (simp add: n_str_len_def n_str_vlen_def add_lengths_eq)
qed

text \<open>A copy bounded by \<open>n\<close> takes at most \<open>n - 1\<close> characters and ends in a NUL.\<close>

lemma strncpy_loop_ok:
  "0 < n \<Longrightarrow> i + min (unat n) (length s + 1) \<le> length dest \<Longrightarrow>
   \<exists>dest' j. strncpy_loop dest i s n = Inr (dest', j) \<and> j = i + min (unat n) (length s + 1) \<and>
     dest' = take i dest @ take (unat n) (s @ [0]) @ drop j dest"
proof (induction dest i s n rule: strncpy_loop.induct)
  case (1 dest i n)
  then have "0 < unat n" by (simp add: unat_gt_0)
  then have m: "min (unat n) (length ([] :: bytes) + 1) = 1" by simp
  with 1 have "i < length dest" by simp
  then show ?case using m \<open>0 < unat n\<close> by (auto simp: mem_write_def upd_conv_take_nth_drop)
next
  case (2 dest i c cs n)
  have n: "0 < unat n" using 2(2) by (simp add: unat_gt_0)
  have i: "i < length dest" using 2(3) n by simp
  then have w: "mem_write dest i c = Inr (take i dest @ c # drop (i + 1) dest)"
    by (simp add: mem_write_def upd_conv_take_nth_drop)
  have un: "unat (n - 1) = unat n - 1" using 2(2) by (simp add: unat_minus_one)
  show ?case
  proof (cases "n - 1 = 0")
    case True
    then have "unat n = 1" using n un by simp
    with True w i show ?thesis by (simp add: mem_write_def)
  next
    case False
    then have n1: "0 < n - 1" by (simp add: word_gt_0)
    let ?d = "take i dest @ c # drop (i + 1) dest"
    have l: "length ?d = length dest" using i by simp
    have "mem_write dest i c = Inr ?d" by (rule w)
    from 2(1) [OF this False n1] 2(3) un n l obtain dest' j where
      r: "strncpy_loop ?d (i + 1) cs (n - 1) = Inr (dest', j)" "j = i + 1 + min (unat (n - 1)) (length cs + 1)"
      "dest' = take (i + 1) ?d @ take (unat (n - 1)) (cs @ [0]) @ drop j ?d" by auto
    have "take (unat n) ((c # cs) @ [0]) = c # take (unat (n - 1)) (cs @ [0])"
      using n un by (cases "unat n") auto
    moreover have "j = i + min (unat n) (length (c # cs) + 1)" using r(2) un n by auto
    moreover have "drop j ?d = drop j dest" using i r(2) by (auto simp: drop_Cons add.commute split: nat.splits)
    ultimately show ?thesis using r w False i by (simp add: min_def)
  qed
qed

lemma n_strncpy_ok:
  assumes "0 < n" "min (unat n) (length s + 1) \<le> length dest"
  defines "k \<equiv> min (unat n - 1) (length s)"
  shows "n_strncpy dest s n = Inr (take k s @ [0] @ drop (k + 1) dest, k)"
proof -
  have n: "0 < unat n" using assms(1) by (simp add: unat_gt_0)
  have k: "min (unat n) (length s + 1) = k + 1" using n by (auto simp: k_def)
  from strncpy_loop_ok [of n 0 s dest] assms(1,2) obtain dest' j where
    d: "strncpy_loop dest 0 s n = Inr (dest', j)" "j = k + 1" "dest' = take (unat n) (s @ [0]) @ drop (k + 1) dest"
    using k by auto
  have "take (unat n) (s @ [0]) = take k s @ [(s @ [0]) ! k]"
  proof -
    have "take (unat n) (s @ [0]) = take (k + 1) (s @ [0])" using k by (cases "unat n \<le> length s + 1") (auto simp: min_def)
    also have "\<dots> = take k (s @ [0]) @ [(s @ [0]) ! k]" by (subst take_Suc_conv_app_nth [symmetric]) (auto simp: k_def)
    finally show ?thesis by (simp add: k_def)
  qed
  moreover have "length (take k s) = k" by (simp add: k_def)
  ultimately have "mem_write dest' (j - 1) 0 = Inr (take k s @ [0] @ drop (k + 1) dest)"
    using d(2,3) write_app [of "take k s" k] by simp
  with d show ?thesis by (simp add: n_strncpy_def)
qed

section \<open>Names of files\<close>

lemma c_strrchr_app: "c \<notin> set b \<Longrightarrow> c_strrchr (a @ c # b) c = Some (c # b)" "c \<notin> set b \<Longrightarrow> c_strrchr b c = None"
proof -
  assume b: "c \<notin> set b"
  show n: "c_strrchr b c = None" using b by (induction b) auto
  show "c_strrchr (a @ c # b) c = Some (c # b)" by (induction a) (auto simp: n split: option.splits)
qed

text \<open>The directory and the base name of a path.\<close>

lemma n_basedirnam_ok:
  assumes "0 \<notin> set d" "0 \<notin> set b" "47 \<notin> set b"
  shows "n_basedirnam (d @ 47 # b @ [0]) = Inr (d @ 0 # b @ [0], True, length d + 1)"
    "str_at (d @ 0 # b @ [0]) 0 = d" "str_at (d @ 0 # b @ [0]) (length d + 1) = b"
    "n_basedirnam (b @ [0]) = Inr (b @ [0], False, 0)" "n_basenam (d @ 47 # b) = b" "n_basenam b = b"
proof -
  have p: "str_at (d @ 47 # b @ [0]) 0 = d @ 47 # b"
    using str_at_app [of "[]" 0 "d @ 47 # b" "[]"] assms by simp
  show "n_basedirnam (d @ 47 # b @ [0]) = Inr (d @ 0 # b @ [0], True, length d + 1)"
    using write_app [of d "length d" 47 "b @ [0]" 0] c_strrchr_app(1) [OF assms(3), of d]
    by (simp add: n_basedirnam_def p)
  show "str_at (d @ 0 # b @ [0]) 0 = d" using str_at_app [of "[]" 0 d] assms(1) by simp
  show "str_at (d @ 0 # b @ [0]) (length d + 1) = b" using str_at_app [of "d @ [0]" _ b "[]"] assms(2) by simp
  have "str_at (b @ [0]) 0 = b" using str_at_app [of "[]" 0 b "[]"] assms(2) by simp
  then show "n_basedirnam (b @ [0]) = Inr (b @ [0], False, 0)"
    using c_strrchr_app(2) [OF assms(3)] by (simp add: n_basedirnam_def)
  show "n_basenam (d @ 47 # b) = b" "n_basenam b = b"
    using c_strrchr_app [OF assms(3)] by (simp_all add: n_basenam_def)
qed

section \<open>Words\<close>

text \<open>The words of a string: its longest parts without a delimiter.\<close>

function words :: "bytes \<Rightarrow> bytes \<Rightarrow> bytes list" where
  "words delim s =
     (let s = dropWhile (\<lambda>c. c \<in> set delim) s in
      if s = [] then [] else takeWhile (\<lambda>c. c \<notin> set delim) s # words delim (dropWhile (\<lambda>c. c \<notin> set delim) s))"
  by pat_completeness auto
termination
proof (relation "measure (\<lambda>(delim, s). length s)", goal_cases)
  case (2 delim s s')
  then have "hd s' \<notin> set delim" using hd_dropWhile [of "\<lambda>c. c \<in> set delim" s] by simp
  moreover obtain a t where "s' = a # t" using 2(2) by (meson list.exhaust)
  ultimately have "length (dropWhile (\<lambda>c. c \<notin> set delim) s') < length s'"
    using length_dropWhile_le [of "\<lambda>c. c \<notin> set delim" t] by simp
  also have "\<dots> \<le> length s" using 2 by (simp add: length_dropWhile_le)
  finally show ?case by simp
qed simp

declare words.simps [simp del]

lemma words_skip: "set ds \<subseteq> set delim \<Longrightarrow> words delim (ds @ s) = words delim s"
proof -
  assume "set ds \<subseteq> set delim"
  then have "dropWhile (\<lambda>c. c \<in> set delim) (ds @ s) = dropWhile (\<lambda>c. c \<in> set delim) s"
    by (intro dropWhile_append2) auto
  then show ?thesis by (simp add: words.simps [of delim "ds @ s"] words.simps [of delim s])
qed

lemma skip_delims_split:
  "set p \<subseteq> set delim \<Longrightarrow> \<exists>ds. set ds \<subseteq> set delim \<and> s = ds @ skip_delims delim s p"
proof (induction delim s p rule: skip_delims.induct)
  case (3 delim c s d p)
  show ?case
  proof (cases "c = d")
    case True
    have "set (tl delim) \<subseteq> set delim" by (cases delim) auto
    from 3(1) [OF True this] obtain ds where "set ds \<subseteq> set delim" "s = ds @ skip_delims delim s (tl delim)" by blast
    then have "set (c # ds) \<subseteq> set delim" "c # s = (c # ds) @ skip_delims delim (c # s) (d # p)"
      using True 3(3) by simp_all
    then show ?thesis by blast
  next
    case False
    with 3 show ?thesis by simp
  qed
qed auto

text \<open>The tokens: the words, and after a run of delimiters that is skipped only in part an empty one.\<close>

function toks :: "bytes \<Rightarrow> bytes \<Rightarrow> bytes list" where
  "toks delim s =
     (if s = [] then []
      else let s = dropWhile (\<lambda>c. c \<in> set delim) s; r = dropWhile (\<lambda>c. c \<notin> set delim) s in
        takeWhile (\<lambda>c. c \<notin> set delim) s # (if r = [] then [] else toks delim (skip_delims delim (tl r) delim)))"
  by pat_completeness auto
termination
proof (relation "measure (\<lambda>(delim, s). length s)", goal_cases)
  case (2 delim s s' r)
  have "length (skip_delims delim (tl r) delim) \<le> length (tl r)" by (rule skip_delims_length)
  also have "\<dots> < length r" using 2 by (cases r) auto
  also have "\<dots> \<le> length s" using 2 by (metis length_dropWhile_le le_trans)
  finally show ?case by simp
qed simp

declare toks.simps [simp del]

lemma toks_Nil [simp]: "toks delim [] = []"
  by (simp add: toks.simps)

lemma toks_step:
  fixes delim s :: bytes
  assumes "s \<noteq> []"
  defines "s' \<equiv> dropWhile (\<lambda>c. c \<in> set delim) s"
  defines "w \<equiv> takeWhile (\<lambda>c. c \<notin> set delim) s'" and "r \<equiv> dropWhile (\<lambda>c. c \<notin> set delim) s'"
  shows "\<exists>q. toks delim s = w # toks delim q \<and> (r \<noteq> [] \<longrightarrow> q = skip_delims delim (tl r) delim) \<and>
    (r = [] \<and> q = [] \<or> (\<exists>d ds. r = d # ds @ q \<and> d \<in> set delim \<and> set ds \<subseteq> set delim))"
proof -
  have t: "toks delim s = w # (if r = [] then [] else toks delim (skip_delims delim (tl r) delim))"
    unfolding w_def r_def s'_def by (subst toks.simps) (simp add: assms(1) Let_def)
  show ?thesis
  proof (cases "r = []")
    case True
    with t show ?thesis by (intro exI [of _ "[]"]) simp
  next
    case False
    then have d: "hd r \<in> set delim" using hd_dropWhile [of "\<lambda>c. c \<notin> set delim" s'] by (simp add: r_def)
    from skip_delims_split [of delim delim "tl r"] obtain ds where
      ds: "set ds \<subseteq> set delim" "tl r = ds @ skip_delims delim (tl r) delim" by blast
    then have "r = hd r # ds @ skip_delims delim (tl r) delim" using False by (metis list.collapse)
    with t False d ds(1) show ?thesis by (intro exI [of _ "skip_delims delim (tl r) delim"]) auto
  qed
qed

lemma words_app:
  assumes "set w \<inter> set delim = {}" "w \<noteq> []" "r = [] \<or> hd r \<in> set delim"
  shows "words delim (w @ r) = w # words delim r"
proof -
  have d: "dropWhile (\<lambda>c. c \<in> set delim) (w @ r) = w @ r"
    using assms(1,2) by (cases w) auto
  have "takeWhile (\<lambda>c. c \<notin> set delim) (w @ r) = w @ takeWhile (\<lambda>c. c \<notin> set delim) r"
    using assms(1) by (intro takeWhile_append2) auto
  moreover have "dropWhile (\<lambda>c. c \<notin> set delim) (w @ r) = dropWhile (\<lambda>c. c \<notin> set delim) r"
    using assms(1) by (intro dropWhile_append2) auto
  moreover have "takeWhile (\<lambda>c. c \<notin> set delim) r = []" "dropWhile (\<lambda>c. c \<notin> set delim) r = r"
    using assms(3) by (cases r; simp)+
  ultimately show ?thesis using d assms(2) by (simp add: words.simps [of delim "w @ r"] Let_def)
qed

lemma toks_words:
  "filter (\<lambda>t. t \<noteq> []) (toks delim s) = words delim s \<and> [] \<notin> set (butlast (toks delim s)) \<and>
   (s \<noteq> [] \<longrightarrow> sum_list (map length (toks delim s)) + length (toks delim s) \<le> length s + 1) \<and>
   (s \<noteq> [] \<longrightarrow> last s \<notin> set delim \<longrightarrow> [] \<notin> set (toks delim s))"
proof (induction "length s" arbitrary: s rule: less_induct)
  case less
  show ?case
  proof (cases "s = []")
    case True
    then show ?thesis by (simp add: words.simps)
  next
    case False
    let ?s = "dropWhile (\<lambda>c. c \<in> set delim) s"
    define w where "w = takeWhile (\<lambda>c. c \<notin> set delim) ?s"
    define r where "r = dropWhile (\<lambda>c. c \<notin> set delim) ?s"
    from toks_step [OF False, of delim] obtain q where q: "toks delim s = w # toks delim q"
      and rq: "r = [] \<and> q = [] \<or> (\<exists>d ds. r = d # ds @ q \<and> d \<in> set delim \<and> set ds \<subseteq> set delim)"
      unfolding w_def r_def by blast
    have s: "?s = w @ r" "set w \<inter> set delim = {}" "toks delim s = w # toks delim q"
      using q by (auto simp: w_def r_def dest: set_takeWhileD)
    obtain pre where pre: "s = pre @ ?s" "set pre \<subseteq> set delim"
      by (metis set_takeWhileD subsetI takeWhile_dropWhile_id)
    have ws: "words delim s = words delim (w @ r)" using words_skip [OF pre(2), of ?s] pre(1) s(1) by simp
    have wq: "words delim r = words delim q"
      using rq words_skip [of "_ # _" delim q] by (metis append_Cons insert_subset list.simps(15))
    have len: "length q + length w + (if r = [] then 0 else 1) \<le> length s"
      using rq arg_cong [OF pre(1), of length] by (auto simp: s(1))
    show ?thesis
    proof (cases "w = []")
      case True
      have "?s = []"
      proof (rule ccontr)
        assume "?s \<noteq> []"
        with hd_dropWhile [of "\<lambda>c. c \<in> set delim" s] True show False
          unfolding w_def by (metis list.collapse list.distinct(1) takeWhile.simps(2))
      qed
      then have "r = []" "q = []" using s(1) rq by auto
      moreover have "last s \<in> set delim" using False pre \<open>?s = []\<close> by (metis append_Nil2 last_in_set subsetD)
      ultimately show ?thesis using s(3) True ws False by (simp add: words.simps)
    next
      case w0: False
      then have "length q < length s" using len by (cases w) auto
      from less [OF this] have IH: "filter (\<lambda>t. t \<noteq> []) (toks delim q) = words delim q"
        "[] \<notin> set (butlast (toks delim q))"
        "q \<noteq> [] \<Longrightarrow> sum_list (map length (toks delim q)) + length (toks delim q) \<le> length q + 1"
        "q \<noteq> [] \<Longrightarrow> last q \<notin> set delim \<Longrightarrow> [] \<notin> set (toks delim q)" by auto
      have "words delim (w @ r) = w # words delim r" using rq by (intro words_app [OF s(2) w0]) auto
      moreover have "last s = last q" if "q \<noteq> []"
        using that rq pre(1) s(1) by (metis append_is_Nil_conv last_ConsR last_appendR list.distinct(1))
      ultimately show ?thesis using IH ws wq s(3) w0 len rq by (cases "q = []") (auto split: if_splits)
    qed
  qed
qed

section \<open>Splitting into words\<close>

text \<open>One token is copied to index \<open>k\<close>, with a NUL behind it.\<close>

lemma tok_loop_ok:
  assumes "set w \<inter> set delim = {}" "r = [] \<or> hd r \<in> set delim"
  shows "length pre = k \<Longrightarrow> length w = length old \<Longrightarrow>
    (if r = [] then int (k + length w) \<le> lim + 1 else int (k + length w) \<le> lim) \<Longrightarrow>
    tok_loop delim (w @ r) (pre @ old @ x # post) k lim =
      Inr (pre @ w @ 0 # post, if r = [] then [] else skip_delims delim (tl r) delim)"
  using assms(1)
proof (induction w arbitrary: pre k old)
  case Nil
  with assms(2) write_app [of pre k x post 0] show ?case by (cases r) auto
next
  case (Cons c w)
  then obtain b old' where old: "old = b # old'" by (cases old) auto
  have "tok_loop delim (w @ r) ((pre @ [c]) @ old' @ x # post) (k + 1) lim =
      Inr ((pre @ [c]) @ w @ 0 # post, if r = [] then [] else skip_delims delim (tl r) delim)"
    using Cons.prems old by (intro Cons.IH) auto
  moreover have "int k \<le> lim" using Cons.prems(3) by (auto split: if_splits)
  ultimately show ?case
    using Cons.prems(1,4) write_app [of pre k b "old' @ x # post" c] by (simp add: old)
qed

text \<open>With a buffer of just the given length, a word that fills it puts its NUL behind the buffer.\<close>

lemma tok_loop_overrun:
  "set w \<inter> set delim = {} \<Longrightarrow> k \<le> length mem \<Longrightarrow> int (length mem) = lim + 1 \<Longrightarrow> k + length w \<ge> length mem \<Longrightarrow>
   tok_loop delim (w @ r) mem k lim = Inl Mem_Fault"
proof (induction w arbitrary: k mem)
  case Nil
  then show ?case by (cases r) (auto simp: mem_write_def)
next
  case (Cons c w)
  show ?case
  proof (cases "k < length mem")
    case True
    with Cons have "tok_loop delim (w @ r) (mem[k := c]) (k + 1) lim = Inl Mem_Fault" by (intro Cons.IH) auto
    with True Cons.prems show ?thesis by (simp add: mem_write_def)
  next
    case False
    with Cons.prems show ?thesis by (simp add: mem_write_def)
  qed
qed

lemma str_at_prefix:
  "0 \<notin> set w \<Longrightarrow> length pre = i \<Longrightarrow> take (i + length w + 1) mem = pre @ w @ [0] \<Longrightarrow> str_at mem i = w"
  using str_at_app [of pre i w "drop (i + length w + 1) mem"] append_take_drop_id [of "i + length w + 1" mem]
  by simp

text \<open>The pointers: the indices so far and \<open>NULL\<close>s behind them, at least one.\<close>

definition ptrs :: "nat list \<Rightarrow> nat \<Rightarrow> nat option list" where
  "ptrs offs m = map Some offs @ replicate (Suc m) None"

lemma ptrs_write:
  "mem_write (ptrs offs m) (length offs) (Some i) = Inr (map Some (offs @ [i]) @ replicate m None)"
  by (simp add: ptrs_def mem_write_def list_update_append)

lemma tok_one:
  assumes "p \<noteq> []" "length p \<le> slen" "0 \<notin> set p" "scpy + length p < length mem"
  obtains w q mem1 where "toks delim p = w # toks delim q" "n_str_tok p mem scpy slen delim = Inr (mem1, Some q)"
    "length mem1 = length mem" "take (scpy + length w + 1) mem1 = take scpy mem @ w @ [0]" "0 \<notin> set w"
    "scpy + length w < length mem" "length q < length p" "0 \<notin> set q" "q = [] \<or> scpy + length w + 1 + length q < length mem"
proof -
  let ?s = "dropWhile (\<lambda>c. c \<in> set delim) p"
  define w where "w = takeWhile (\<lambda>c. c \<notin> set delim) ?s"
  define r where "r = dropWhile (\<lambda>c. c \<notin> set delim) ?s"
  from toks_step [OF assms(1), of delim] obtain q where q: "toks delim p = w # toks delim q"
    and rq: "r = [] \<and> q = [] \<or> (\<exists>d ds. r = d # ds @ q \<and> d \<in> set delim \<and> set ds \<subseteq> set delim)"
    and qs: "r \<noteq> [] \<longrightarrow> q = skip_delims delim (tl r) delim"
    unfolding w_def r_def by blast
  have s: "?s = w @ r" "set w \<inter> set delim = {}" by (auto simp: w_def r_def dest: set_takeWhileD)
  have sub: "length w + length r \<le> length p" "set w \<subseteq> set p" "set r \<subseteq> set p"
    using arg_cong [OF s(1), of length] arg_cong [OF s(1), of set] length_dropWhile_le [of _ p]
    by (auto dest: set_dropWhileD simp del: dropWhile_append) (metis length_append length_dropWhile_le)
  have fit: "scpy + length w < length mem" using sub(1) assms(4) by simp
  define old where "old = take (length w) (drop scpy mem)"
  have mem: "mem = take scpy mem @ old @ mem ! (scpy + length w) # drop (scpy + length w + 1) mem"
    using fit id_take_nth_drop [of "length w" "drop scpy mem"] by (simp add: old_def add.commute)
  define mem1 where "mem1 = take scpy mem @ w @ 0 # drop (scpy + length w + 1) mem"
  have "tok_loop delim (w @ r) (take scpy mem @ old @ mem ! (scpy + length w) # drop (scpy + length w + 1) mem) scpy
      (int (scpy + slen) - 1) = Inr (mem1, if r = [] then [] else skip_delims delim (tl r) delim)"
    unfolding mem1_def
  proof (rule tok_loop_ok [OF s(2)])
    show "r = [] \<or> hd r \<in> set delim" using rq by auto
    show "length (take scpy mem) = scpy" "length w = length old" using fit by (simp_all add: old_def)
    have "r \<noteq> [] \<Longrightarrow> length w < slen" using sub(1) assms(2) by (cases r) auto
    then show "if r = [] then int (scpy + length w) \<le> int (scpy + slen) - 1 + 1
        else int (scpy + length w) \<le> int (scpy + slen) - 1"
      using sub(1) assms(2) by auto
  qed
  then have "n_str_tok p mem scpy slen delim = Inr (mem1, Some q)"
    using assms(1) qs rq mem by (auto simp: n_str_tok_def s(1))
  moreover have "length q < length p" using rq sub(1) assms(1) by (cases "r = []") auto
  moreover have "0 \<notin> set w" "0 \<notin> set q" using sub(2,3) rq assms(3) by auto
  moreover have "q = [] \<or> scpy + length w + 1 + length q < length mem" using rq sub(1) assms(4) by auto
  ultimately show thesis using that [OF q] fit by (simp add: mem1_def)
qed

lemma ptrs_grown:
  obtains m1 where "(if length (offs @ [a]) = length (map Some (offs @ [a]) @ replicate m None)
      then (map Some (offs @ [a]) @ replicate m None) @ replicate 8 None
      else map Some (offs @ [a]) @ replicate m None) = ptrs (offs @ [a]) m1"
proof (cases m)
  case 0
  then show ?thesis by (intro that [of 7]) (simp add: ptrs_def numeral_eq_Suc)
next
  case (Suc k)
  then show ?thesis by (intro that [of k]) (simp add: ptrs_def)
qed

lemma tokl_loop_ok:
  assumes "0 < slen"
  shows "length p \<le> slen \<Longrightarrow> 0 \<notin> set p \<Longrightarrow> p = [] \<or> scpy + length p < length mem \<Longrightarrow>
    \<exists>mem' offs' m'. tokl_loop delim slen p mem scpy (ptrs offs m) (length offs) =
        Inr (mem', ptrs (offs @ offs') m', length (offs @ offs')) \<and>
      length mem' = length mem \<and> take scpy mem' = take scpy mem \<and> map (str_at mem') offs' = toks delim p"
proof (induction "length p" arbitrary: p mem scpy offs m rule: less_induct)
  case less
  show ?case
  proof (cases "p = []")
    case True
    then show ?thesis
      by (intro exI [of _ mem] exI [of _ "[]"] exI [of _ m]) (simp add: tokl_loop.simps [of _ _ "[]"])
  next
    case False
    then have "scpy + length p < length mem" using less.prems(3) by simp
    from tok_one [OF False less.prems(1,2) this, of delim] obtain w q mem1 where q: "toks delim p = w # toks delim q"
      and tok: "n_str_tok p mem scpy slen delim = Inr (mem1, Some q)" and len1: "length mem1 = length mem"
      and t1: "take (scpy + length w + 1) mem1 = take scpy mem @ w @ [0]" and w0: "0 \<notin> set w"
      and fit: "scpy + length w < length mem" and lq: "length q < length p" and q0: "0 \<notin> set q"
      and qfit: "q = [] \<or> scpy + length w + 1 + length q < length mem" by metis
    have at: "str_at mem1 scpy = w" using w0 fit t1 by (intro str_at_prefix [of w "take scpy mem"]) simp_all
    obtain m1 where m1: "(if length (offs @ [scpy]) = length (map Some (offs @ [scpy]) @ replicate m None)
        then (map Some (offs @ [scpy]) @ replicate m None) @ replicate 8 None
        else map Some (offs @ [scpy]) @ replicate m None) = ptrs (offs @ [scpy]) m1" by (rule ptrs_grown)
    have n1: "length (offs @ [scpy]) = length offs + 1" by simp
    have step: "tokl_loop delim slen p mem scpy (ptrs offs m) (length offs) =
        tokl_loop delim slen q mem1 (scpy + length w + 1) (ptrs (offs @ [scpy]) m1) (length (offs @ [scpy]))"
      using False assms unfolding m1 [symmetric] n1
      by (subst tokl_loop.simps) (simp only: gr_implies_not0 tok ptrs_write Let_def at if_False simp_thms rbind.simps sum.case prod.case option.case)
    have "length q \<le> slen" using lq less.prems(1) by simp
    with q0 qfit len1 obtain mem' offs' m' where IH:
      "tokl_loop delim slen q mem1 (scpy + length w + 1) (ptrs (offs @ [scpy]) m1) (length (offs @ [scpy])) =
         Inr (mem', ptrs ((offs @ [scpy]) @ offs') m', length ((offs @ [scpy]) @ offs'))"
      "length mem' = length mem1" "take (scpy + length w + 1) mem' = take (scpy + length w + 1) mem1"
      "map (str_at mem') offs' = toks delim q"
      using less.hyps [OF lq, of "scpy + length w + 1" mem1 "offs @ [scpy]" m1] by auto
    have "str_at mem' scpy = w" using w0 fit t1 IH(3) by (intro str_at_prefix [of w "take scpy mem"]) simp_all
    moreover have "take scpy mem' = take scpy mem"
      using arg_cong [OF IH(3) [unfolded t1], of "take scpy"] fit by simp
    ultimately show ?thesis using step IH len1 q
      by (intro exI [of _ mem'] exI [of _ "scpy # offs'"] exI [of _ m']) simp
  qed
qed

text \<open>C30: \<open>n_str_tokl_n\<close> splits any string: the pointers end in \<open>NULL\<close> and their number is reported; the
  tokens that are not empty are the words of the string in order, and only the last token can be empty,
  which takes a string that ends in a delimiter.\<close>

theorem n_str_tokl_words:
  assumes "0 \<notin> set s"
  shows "\<exists>mem offs m. n_str_tokl_n s delim = Inr (mem, map Some offs @ replicate (Suc m) None, length offs) \<and>
    filter (\<lambda>t. t \<noteq> []) (map (str_at mem) offs) = words delim s \<and>
    [] \<notin> set (butlast (map (str_at mem) offs)) \<and>
    (s \<noteq> [] \<longrightarrow> last s \<notin> set delim \<longrightarrow> map (str_at mem) offs = words delim s)"
proof -
  have p0: "Some 0 # replicate 7 None = ptrs [0] 6" by (simp add: ptrs_def numeral_eq_Suc)
  obtain mem offs m where t: "tokl_loop delim (length s) s (replicate (length s + 1) 0) 0 (ptrs [0] 6) 1 =
      Inr (mem, ptrs ([0] @ offs) m, length ([0] @ offs))" "map (str_at mem) offs = toks delim s"
  proof (cases "s = []")
    case True
    then show thesis by (intro that [of "[0]" "[]" 6]) (simp_all add: tokl_loop.simps [of _ _ "[]"])
  next
    case False
    then have "0 < length s" "s = [] \<or> 0 + length s < length (replicate (length s + 1) (0 :: 8 word))" by simp_all
    from tokl_loop_ok [OF this(1) order_refl assms this(2), of delim "[0]" 6] that show thesis by auto
  qed
  have "n_str_tokl_n s delim = Inr (mem, map Some offs @ replicate (Suc m) None, length offs)"
    unfolding n_str_tokl_n_def Let_def p0 using t(1) by (simp add: ptrs_def [of "0 # offs"])
  moreover have "map (str_at mem) offs = words delim s" if "s \<noteq> []" "last s \<notin> set delim"
  proof -
    have "[] \<notin> set (toks delim s)" using toks_words [of delim s] that by blast
    then have "filter (\<lambda>t. t \<noteq> []) (toks delim s) = toks delim s" by (auto simp: filter_id_conv)
    with toks_words [of delim s] show ?thesis by (simp add: t(2))
  qed
  ultimately show ?thesis using toks_words [of delim s] t(2) by auto
qed

lemma n_str_tokl_words_witness:
  "\<exists>mem offs m. n_str_tokl_n [32, 97, 98, 32, 32, 44, 99] [32, 44] =
      Inr (mem, map Some offs @ replicate (Suc m) None, length offs) \<and>
    map (str_at mem) offs = [[97, 98], [99]]"
proof -
  have "words [32, 44] [32, 97, 98, 32, 32, 44, 99] = [[97, 98], [99]]"
    by (simp add: words.simps)
  with n_str_tokl_words [of "[32, 97, 98, 32, 32, 44, 99]" "[32, 44]"] show ?thesis by fastforce
qed

text \<open>An empty token: the third comma of the string is not skipped.\<close>

lemma empty_token: "toks [44] [97, 44, 44, 44] = [[97], []]"
  by (simp add: toks.simps)

end
