(* ===== verification/Etokl.thy ===== *)
theory Etokl
  imports Str ArrayRefine
begin

text \<open>
  The tokenizer with quotes, break characters and escapes of \<open>nstr_tokl.c\<close>: the state
  \<open>struct lp_state\<close>, one turn of the loop of \<open>lp_parse\<close> as a function and as a step relation,
  the loop itself, and \<open>n_str_etokl_ext\<close>, which collects copies of the tokens in a dynamic
  array.

  The line and the character sets are strings that are only read; \<open>st->line[i]\<close> is read with
  the bound of the NUL. The buffer of a token is a block, \<open>junk\<close> what \<open>alloca\<close> left in it.
\<close>

section \<open>Copies of strings\<close>

text \<open>The blocks made by \<open>n_strdup\<close> and \<open>n_strdupl\<close>; the pointer to one is its number.\<close>

type_synonym blocks = "bytes list"

definition new_block :: "blocks \<Rightarrow> bytes \<Rightarrow> blocks \<times> ptr" where
  "new_block hs b = (hs @ [b], word_of_nat (length hs + 1))"

definition n_strdupl :: "blocks \<Rightarrow> bytes \<Rightarrow> nat \<Rightarrow> (blocks \<times> ptr) result" where
  "n_strdupl hs s len = (if len \<le> length s then Inr (new_block hs (take len s @ [0])) else Inl Mem_Fault)"

definition n_strdup :: "blocks \<Rightarrow> bytes \<Rightarrow> (blocks \<times> ptr) result" where
  "n_strdup hs s =
     (if str_at s 0 = s then Inl Mem_Fault else Inr (new_block hs (take (length (str_at s 0) + 1) s)))"

definition string_of :: "blocks \<Rightarrow> ptr \<Rightarrow> bytes" where
  "string_of hs p = str_at (hs ! (unat p - 1)) 0"

section \<open>The state\<close>

datatype lp_mode = St_White | St_Token | St_Quote

record lp_state =
  ls_line :: bytes
  ls_index :: int
  ls_white :: bytes
  ls_brk :: bytes
  ls_quote :: bytes
  ls_escape :: "8 word"
  ls_state :: lp_mode
  ls_curr_quote :: "8 word"
  ls_is_break :: "8 word"

definition lp_init :: "bytes \<Rightarrow> bytes \<Rightarrow> bytes \<Rightarrow> bytes \<Rightarrow> 8 word \<Rightarrow> lp_state" where
  "lp_init line white brk quote escape =
     \<lparr>ls_line = line, ls_index = 0, ls_white = white, ls_brk = brk, ls_quote = quote, ls_escape = escape,
      ls_state = St_White, ls_curr_quote = 0, ls_is_break = 0\<rparr>"

text \<open>\<open>st->line[i]\<close>, the NUL included.\<close>

definition line_char :: "bytes \<Rightarrow> int \<Rightarrow> (8 word) result" where
  "line_char line i = (if i < 0 then Inl Mem_Fault else mem_read (line @ [0]) (nat i))"

text \<open>The character is stored when the index is inside the buffer.\<close>

definition storechr :: "bytes \<Rightarrow> nat \<Rightarrow> nat \<Rightarrow> 8 word \<Rightarrow> (bytes \<times> nat) result" where
  "storechr s slen sindex c =
     (if sindex < slen then rbind (mem_write s sindex c) (\<lambda>s. Inr (s, sindex + 1)) else Inr (s, sindex))"

section \<open>One turn of the loop\<close>

text \<open>A turn goes on to the next character or jumps to \<open>l_end\<close>.\<close>

datatype lp_next = Go lp_state bytes nat | Stop lp_state bytes nat

definition store_go :: "lp_state \<Rightarrow> bytes \<Rightarrow> nat \<Rightarrow> nat \<Rightarrow> 8 word \<Rightarrow> lp_next result" where
  "store_go st token toksize i c = rbind (storechr token toksize i c) (\<lambda>(token, i). Inr (Go st token i))"

definition is_special :: "lp_state \<Rightarrow> 8 word \<Rightarrow> bool" where
  "is_special st c \<longleftrightarrow> c \<in> set (ls_white st) \<or> c \<in> set (ls_brk st) \<or> c \<in> set (ls_quote st)"

text \<open>The escape character: the next character \<open>nc\<close> is looked at.\<close>

definition lp_escape :: "lp_state \<Rightarrow> bytes \<Rightarrow> nat \<Rightarrow> nat \<Rightarrow> 8 word \<Rightarrow> lp_next result" where
  "lp_escape st token toksize i c =
     rbind (line_char (ls_line st) (ls_index st + 1)) (\<lambda>nc.
     rbind (if nc = 0 \<or> nc = ls_escape st
            then rbind (storechr token toksize i c) (\<lambda>(token, i).
              Inr (st\<lparr>ls_is_break := 0, ls_index := ls_index st + 1\<rparr>, token, i))
            else Inr (st, token, i)) (\<lambda>(st, token, i).
     if nc = 0 then Inr (Stop st token i)
     else case ls_state st of
       St_White \<Rightarrow> Inr (Go (st\<lparr>ls_index := ls_index st - 1, ls_state := St_Token\<rparr>) token i)
     | _ \<Rightarrow>
         (if is_special st nc
          then let st = st\<lparr>ls_index := ls_index st + 1\<rparr> in
            rbind (line_char (ls_line st) (ls_index st)) (\<lambda>x. store_go st token toksize i x)
          else rbind (line_char (ls_line st) (ls_index st)) (\<lambda>x. store_go st token toksize i x))))"

definition lp_char :: "lp_state \<Rightarrow> bytes \<Rightarrow> nat \<Rightarrow> nat \<Rightarrow> 8 word \<Rightarrow> lp_next result" where
  "lp_char st token toksize i c =
     (if c \<in> set (ls_brk st) then
        (case ls_state st of
           St_Quote \<Rightarrow> store_go st token toksize i c
         | _ \<Rightarrow> Inr (Stop (st\<lparr>ls_index := ls_index st + 1, ls_is_break := c\<rparr>) token i))
      else if c \<in> set (ls_quote st) then
        (case ls_state st of
           St_Quote \<Rightarrow>
             if c \<noteq> ls_curr_quote st then store_go st token toksize i c
             else Inr (Go (st\<lparr>ls_state := St_Token, ls_curr_quote := 0\<rparr>) token i)
         | _ \<Rightarrow> Inr (Go (st\<lparr>ls_state := St_Quote, ls_curr_quote := c\<rparr>) token i))
      else if c \<in> set (ls_white st) then
        (case ls_state st of
           St_White \<Rightarrow> Inr (Go st token i)
         | St_Token \<Rightarrow> Inr (Stop (st\<lparr>ls_state := St_White\<rparr>) token i)
         | St_Quote \<Rightarrow> store_go st token toksize i c)
      else if ls_escape st \<noteq> 0 \<and> c = ls_escape st then lp_escape st token toksize i c
      else
        (case ls_state st of
           St_White \<Rightarrow> store_go (st\<lparr>ls_state := St_Token\<rparr>) token toksize i c
         | _ \<Rightarrow> store_go st token toksize i c))"

text \<open>The turn with \<open>c = st->line[++st->lindex]\<close> as a step relation.\<close>

inductive lp_step :: "nat \<Rightarrow> lp_state \<times> bytes \<times> nat \<times> 8 word \<Rightarrow> lp_state \<times> bytes \<times> nat \<times> 8 word \<Rightarrow> bool"
  for toksize :: nat where
  lp_stepI: "c \<noteq> 0 \<Longrightarrow> lp_char st token toksize i c = Inr (Go st1 token1 i1) \<Longrightarrow>
    line_char (ls_line st1) (ls_index st1 + 1) = Inr c1 \<Longrightarrow>
    lp_step toksize (st, token, i, c) (st1\<lparr>ls_index := ls_index st1 + 1\<rparr>, token1, i1, c1)"

inductive_cases lp_stepE: "lp_step toksize (st, token, i, c) s"

section \<open>The loop ends\<close>

lemma store_go_Go: "store_go st token toksize i c = Inr (Go st1 token1 i1) \<Longrightarrow> st1 = st"
  by (auto simp: store_go_def rbind_eq_Inr)

lemma store_go_Stop [simp]: "store_go st token toksize i c \<noteq> Inr (Stop st1 token1 i1)"
  by (auto simp: store_go_def rbind_eq_Inr)

text \<open>What a turn never changes.\<close>

definition lp_sets :: "lp_state \<Rightarrow> bytes \<times> bytes \<times> bytes \<times> bytes \<times> 8 word" where
  "lp_sets st = (ls_line st, ls_white st, ls_brk st, ls_quote st, ls_escape st)"

lemma lp_sets_upd [simp]:
  "lp_sets (st\<lparr>ls_index := k\<rparr>) = lp_sets st" "lp_sets (st\<lparr>ls_state := m\<rparr>) = lp_sets st"
  "lp_sets (st\<lparr>ls_curr_quote := q\<rparr>) = lp_sets st" "lp_sets (st\<lparr>ls_is_break := b\<rparr>) = lp_sets st"
  by (simp_all add: lp_sets_def)

lemma lp_sets_line: "lp_sets st1 = lp_sets st \<Longrightarrow> ls_line st1 = ls_line st \<and> is_special st1 = is_special st"
  by (auto simp: lp_sets_def is_special_def)

definition lp_rank :: "lp_state \<Rightarrow> nat" where
  "lp_rank st = 2 * nat (int (length (ls_line st)) + 1 - ls_index st) + (if ls_state st = St_White then 1 else 0)"

lemma lp_escape_go:
  "lp_escape st token toksize i c = Inr (Go st1 token1 i1) \<Longrightarrow> lp_sets st1 = lp_sets st \<and>
    (ls_index st \<le> ls_index st1 \<or> ls_index st1 = ls_index st - 1 \<and> ls_state st = St_White \<and> ls_state st1 = St_Token)"
  by (auto simp: lp_escape_def rbind_eq_Inr Let_def split: if_splits lp_mode.splits dest!: store_go_Go)

lemma lp_char_go:
  "lp_char st token toksize i c = Inr (Go st1 token1 i1) \<Longrightarrow> lp_sets st1 = lp_sets st \<and>
    (ls_index st \<le> ls_index st1 \<or>
     ls_index st1 = ls_index st - 1 \<and> ls_state st = St_White \<and> ls_state st1 = St_Token \<and> \<not> is_special st c)"
  unfolding lp_char_def
  by (auto simp: is_special_def split: if_splits lp_mode.splits dest!: store_go_Go lp_escape_go)

lemma line_char_le: "line_char line i = Inr c \<Longrightarrow> 0 \<le> i \<and> i \<le> int (length line)"
  by (auto simp: line_char_def mem_read_Inr split: if_splits)

lemma lp_rank_less:
  assumes "lp_char st token toksize i c = Inr (Go st1 token1 i1)" "line_char (ls_line st1) (ls_index st1 + 1) = Inr c1"
  shows "lp_rank (st1\<lparr>ls_index := ls_index st1 + 1\<rparr>) < lp_rank st"
  using lp_char_go [OF assms(1)] line_char_le [OF assms(2)] by (auto simp: lp_rank_def lp_sets_def)

function lp_loop :: "lp_state \<Rightarrow> bytes \<Rightarrow> nat \<Rightarrow> nat \<Rightarrow> 8 word \<Rightarrow> (lp_state \<times> bytes \<times> nat) result" where
  "lp_loop st token toksize i c =
     (if c = 0 then Inr (st, token, i)
      else rbind (lp_char st token toksize i c) (\<lambda>r. case r of
          Stop st token i \<Rightarrow> Inr (st, token, i)
        | Go st token i \<Rightarrow> rbind (line_char (ls_line st) (ls_index st + 1)) (\<lambda>c.
            lp_loop (st\<lparr>ls_index := ls_index st + 1\<rparr>) token toksize i c)))"
  by pat_completeness auto
termination
  by (relation "measure (\<lambda>(st, token, toksize, i, c). lp_rank st)") (auto intro: lp_rank_less)

declare lp_loop.simps [simp del]

text \<open>The state, the token buffer, the result and \<open>*toklen\<close>.\<close>

definition lp_parse :: "env \<Rightarrow> lp_state \<Rightarrow> bytes \<Rightarrow> nat \<Rightarrow> (lp_state \<times> bytes \<times> int \<times> nat) result" where
  "lp_parse e st token toksize =
     rbind (mem_write token 0 0) (\<lambda>token.
     let st = st\<lparr>ls_state := St_White, ls_curr_quote := 0, ls_is_break := 0\<rparr> in
     rbind (line_char (ls_line st) (ls_index st)) (\<lambda>c.
     if c = 0 then Inr (st, token, 0, 0)
     else rbind (lp_loop st token toksize 0 c) (\<lambda>(st, token, tokindex).
       n_assert e (tokindex < toksize)
         (rbind (mem_write token tokindex 0) (\<lambda>token. Inr (st, token, 1, tokindex))))))"

section \<open>A call moves on\<close>

text \<open>Where a call is after some turns, \<open>k0\<close> being where it began.\<close>

definition lp_moved :: "int \<Rightarrow> lp_state \<Rightarrow> 8 word \<Rightarrow> bool" where
  "lp_moved k0 st c \<longleftrightarrow> line_char (ls_line st) (ls_index st) = Inr c \<and> k0 \<le> ls_index st \<and>
     (k0 < ls_index st \<or> ls_state st = St_White \<or> ls_state st = St_Token \<and> \<not> is_special st c)"

lemma lp_moved_go:
  assumes "lp_moved k0 st c" "lp_char st token toksize i c = Inr (Go st1 token1 i1)"
    "line_char (ls_line st1) (ls_index st1 + 1) = Inr c1"
  shows "lp_moved k0 (st1\<lparr>ls_index := ls_index st1 + 1\<rparr>) c1"
proof -
  note g = lp_char_go [OF assms(2)]
  then have s: "ls_line st1 = ls_line st" "is_special (st1\<lparr>ls_index := ls_index st1 + 1\<rparr>) = is_special st"
    using lp_sets_line [of "st1\<lparr>ls_index := ls_index st1 + 1\<rparr>" st] lp_sets_line [of st1 st] by simp_all
  from g consider "ls_index st \<le> ls_index st1"
    | "ls_index st1 = ls_index st - 1" "ls_state st1 = St_Token" "\<not> is_special st c" by blast
  then show ?thesis using assms(1,3) s by cases (auto simp: lp_moved_def)
qed

lemma lp_char_stop:
  assumes "lp_moved k0 st c" "lp_char st token toksize i c = Inr (Stop st1 token1 i1)"
  shows "k0 < ls_index st1 \<and> lp_sets st1 = lp_sets st"
  using assms
  by (auto simp: lp_char_def lp_escape_def lp_moved_def is_special_def rbind_eq_Inr Let_def split: if_splits lp_mode.splits)

lemma lp_loop_moves:
  "lp_moved k0 st c \<Longrightarrow> line_char (ls_line st) k0 \<noteq> Inr 0 \<Longrightarrow>
   lp_loop st token toksize i c = Inr (st', token', i') \<Longrightarrow> k0 < ls_index st' \<and> lp_sets st' = lp_sets st"
proof (induction st token toksize i c rule: lp_loop.induct)
  case (1 st token toksize i c)
  show ?case
  proof (cases "c = 0")
    case True
    then have "ls_index st \<noteq> k0" using 1(2,3) by (auto simp: lp_moved_def)
    with True 1(2,4) show ?thesis by (auto simp: lp_loop.simps lp_moved_def)
  next
    case False
    from 1(4) False obtain r where r: "lp_char st token toksize i c = Inr r"
      by (subst (asm) lp_loop.simps) (auto simp: rbind_eq_Inr)
    show ?thesis
    proof (cases r)
      case (Stop st1 t1 i1)
      with 1(4) False r lp_char_stop [OF 1(2), of token toksize i st1 t1 i1] show ?thesis
        by (subst (asm) lp_loop.simps) simp
    next
      case (Go st1 t1 i1)
      with 1(4) False r obtain c1 where c1: "line_char (ls_line st1) (ls_index st1 + 1) = Inr c1"
        "lp_loop (st1\<lparr>ls_index := ls_index st1 + 1\<rparr>) t1 toksize i1 c1 = Inr (st', token', i')"
        by (subst (asm) lp_loop.simps) (auto simp: rbind_eq_Inr)
      have s: "lp_sets st1 = lp_sets st" using lp_char_go [OF r [unfolded Go]] by blast
      then have "line_char (ls_line (st1\<lparr>ls_index := ls_index st1 + 1\<rparr>)) k0 \<noteq> Inr 0" using 1(3) by (simp add: lp_sets_def)
      from 1(1) [OF False r Go c1(1) lp_moved_go [OF 1(2) r [unfolded Go] c1(1)] this c1(2)] s show ?thesis by simp
    qed
  qed
qed

lemma lp_parse_moves:
  assumes "lp_parse e st token toksize = Inr (st', token', r, n)" "r > 0"
  shows "ls_index st < ls_index st' \<and> lp_sets st' = lp_sets st \<and> ls_index st \<le> int (length (ls_line st))"
proof -
  let ?st = "st\<lparr>ls_state := St_White, ls_curr_quote := 0, ls_is_break := 0\<rparr>"
  from assms obtain token1 c st1 token2 i where c: "line_char (ls_line st) (ls_index st) = Inr c" "c \<noteq> 0"
    "lp_loop ?st token1 toksize 0 c = Inr (st1, token2, i)" "st' = st1"
    by (auto simp: lp_parse_def rbind_eq_Inr Let_def n_assert_def split: if_splits)
  have "lp_moved (ls_index st) ?st c" using c(1) by (simp add: lp_moved_def)
  from lp_loop_moves [OF this _ c(3)] c line_char_le [OF c(1)] show ?thesis by auto
qed

section \<open>The tokens of a line\<close>

function etokl_loop ::
    "env \<Rightarrow> lp_state \<Rightarrow> bytes \<Rightarrow> nat \<Rightarrow> tn_array \<Rightarrow> blocks \<Rightarrow> (tn_array \<times> blocks) result" where
  "etokl_loop e st token toksize ts hs =
     rbind (lp_parse e st token toksize) (\<lambda>(st, token, r, toklen).
     if r > 0 then
       rbind (if toklen > 0
              then rbind (n_strdupl hs token toklen) (\<lambda>(hs, p). rbind (array_push_s e ts p) (\<lambda>ts. Inr (ts, hs)))
              else Inr (ts, hs)) (\<lambda>(ts, hs).
       rbind (if ls_is_break st \<noteq> 0
              then rbind (n_strdup hs [ls_is_break st, 0]) (\<lambda>(hs, p). rbind (array_push_s e ts p) (\<lambda>ts. Inr (ts, hs)))
              else Inr (ts, hs)) (\<lambda>(ts, hs).
       etokl_loop e st token toksize ts hs))
     else Inr (ts, hs))"
  by pat_completeness auto
termination
  by (relation "measure (\<lambda>(e, st, token, toksize, ts, hs). nat (int (length (ls_line st)) + 1 - ls_index st))")
    (auto simp: lp_sets_def dest!: lp_parse_moves)

declare etokl_loop.simps [simp del]

text \<open>\<open>None\<close> is \<open>NULL\<close>: the default set. The array frees its items and compares them with \<open>strcmp\<close>.\<close>

definition n_str_etokl_ext ::
    "env \<Rightarrow> (nat \<Rightarrow> 8 word) \<Rightarrow> blocks \<Rightarrow> bytes \<Rightarrow> bytes option \<Rightarrow> bytes option \<Rightarrow> bytes option \<Rightarrow> 8 word \<Rightarrow>
     (tn_array \<times> blocks) result" where
  "n_str_etokl_ext e junk hs line white brk quote escape =
     (let white = (case white of None \<Rightarrow> [32, 9] | Some s \<Rightarrow> s);
          brk = (case brk of None \<Rightarrow> [59, 124] | Some s \<Rightarrow> s);
          quote = (case quote of None \<Rightarrow> [34, 39] | Some s \<Rightarrow> s);
          st = lp_init line white brk quote escape;
          toksize = length line + 1;
          token = map junk [0..<toksize + 1] in
      rbind (n_array_new e 4 (Some 0) (Some (Cmp_User 0))) (\<lambda>ts. etokl_loop e st token toksize ts hs))"

definition n_str_etokl :: "env \<Rightarrow> (nat \<Rightarrow> 8 word) \<Rightarrow> blocks \<Rightarrow> bytes \<Rightarrow> (tn_array \<times> blocks) result" where
  "n_str_etokl e junk hs line = n_str_etokl_ext e junk hs line None None None 92"

end
