(* ===== verification/EtoklProps.thy ===== *)
theory EtoklProps
  imports Etokl StrProps
begin

text \<open>
  What the tokenizer promises. The step relation keeps an invariant under which a turn always
  has a next one or ends the token, inside the buffer and inside the line; so the tokenizer
  ends on every line. Text that is quoted comes back as it was.
\<close>

section \<open>The invariant of a token\<close>

text \<open>
  What has been stored fits what has been read since \<open>k0\<close> and comes from the line; the buffer
  has one byte more than the line with its NUL.
\<close>

definition lp_safe :: "int \<Rightarrow> nat \<Rightarrow> lp_state \<times> bytes \<times> nat \<times> 8 word \<Rightarrow> bool" where
  "lp_safe k0 toksize s \<longleftrightarrow> (case s of (st, token, i, c) \<Rightarrow>
     lp_moved k0 st c \<and> 0 \<le> k0 \<and> int i \<le> ls_index st - k0 \<and> length token = toksize + 1 \<and>
     toksize = length (ls_line st) + 1 \<and> 0 \<notin> set (ls_line st) \<and> set (take i token) \<subseteq> set (ls_line st) \<and>
     ls_is_break st = 0)"

definition lp_ended :: "int \<Rightarrow> nat \<Rightarrow> lp_state \<Rightarrow> bytes \<Rightarrow> nat \<Rightarrow> bool" where
  "lp_ended k0 toksize st token i \<longleftrightarrow>
     int i + (if ls_is_break st \<noteq> 0 then 1 else 0) \<le> ls_index st - k0 \<and> ls_index st \<le> int (length (ls_line st)) \<and>
     length token = toksize + 1 \<and> toksize = length (ls_line st) + 1 \<and> set (take i token) \<subseteq> set (ls_line st) \<and>
     (ls_is_break st \<noteq> 0 \<longrightarrow> ls_is_break st \<in> set (ls_line st))"

lemma line_char_nz:
  "line_char line i = Inr c \<Longrightarrow> c \<noteq> 0 \<Longrightarrow> 0 \<le> i \<and> i < int (length line) \<and> c \<in> set line"
  by (auto simp: line_char_def mem_read_Inr nth_append split: if_splits)

lemma line_char_ok: "0 \<le> i \<Longrightarrow> i \<le> int (length line) \<Longrightarrow> \<exists>c. line_char line i = Inr c"
  by (simp add: line_char_def mem_read_def nat_le_iff)

lemma storechr_ok:
  "i < slen \<Longrightarrow> i < length s \<Longrightarrow> storechr s slen i c = Inr (s[i := c], i + 1)"
  by (simp add: storechr_def mem_write_def)

lemma take_update: "i < length s \<Longrightarrow> take (i + 1) (s[i := c]) = take i s @ [c]"
  by (simp add: take_Suc_conv_app_nth)

text \<open>The room of an invariant state for one more character.\<close>

lemma lp_safe_room:
  assumes "lp_safe k0 toksize (st, token, i, c)" "c \<noteq> 0"
  shows "i < toksize" "i < length token" "ls_index st < int (length (ls_line st))" "c \<in> set (ls_line st)" "0 \<le> ls_index st"
  using assms line_char_nz [of "ls_line st" "ls_index st" c] by (auto simp: lp_safe_def lp_moved_def)

text \<open>What a turn leaves: the next state is invariant but for its next character, or the token ends.\<close>

definition lp_next_ok :: "int \<Rightarrow> nat \<Rightarrow> lp_next \<Rightarrow> bool" where
  "lp_next_ok k0 toksize r \<longleftrightarrow> (case r of
     Go st token i \<Rightarrow> int i \<le> ls_index st + 1 - k0 \<and> ls_index st < int (length (ls_line st)) \<and> 0 \<le> ls_index st + 1 \<and>
       length token = toksize + 1 \<and> set (take i token) \<subseteq> set (ls_line st) \<and> ls_is_break st = 0
   | Stop st token i \<Rightarrow> lp_ended k0 toksize st token i)"

lemma store_go_ok:
  assumes "lp_safe k0 toksize (st, token, i, c)" "c \<noteq> 0" "x \<in> set (ls_line st)"
    "ls_line st1 = ls_line st" "ls_index st \<le> ls_index st1" "ls_index st1 < int (length (ls_line st))" "ls_is_break st1 = 0"
  shows "\<exists>r. store_go st1 token toksize i x = Inr r \<and> lp_next_ok k0 toksize r"
proof -
  note room = lp_safe_room [OF assms(1,2)]
  have "store_go st1 token toksize i x = Inr (Go st1 (token[i := x]) (i + 1))"
    using room by (simp add: store_go_def storechr_ok)
  moreover have "lp_next_ok k0 toksize (Go st1 (token[i := x]) (i + 1))"
    using assms room take_update [of i token x] by (auto simp: lp_next_ok_def lp_safe_def)
  ultimately show ?thesis by blast
qed

lemma lp_escape_pair:
  assumes safe: "lp_safe k0 toksize (st, token, i, c)" "c \<noteq> 0" "c = ls_escape st" "\<not> is_special st c"
    and nc: "line_char (ls_line st) (ls_index st + 1) = Inr c"
  shows "\<exists>r. lp_escape st token toksize i c = Inr r \<and> lp_next_ok k0 toksize r"
proof -
  note room = lp_safe_room [OF safe(1,2)] and n3 = line_char_nz [OF nc safe(2)]
  have st: "storechr token toksize i c = Inr (token[i := c], i + 1)" using room by (simp add: storechr_ok)
  have tk: "set (take (i + 1) (token[i := c])) \<subseteq> set (ls_line st)"
    using take_update [OF room(2)] safe(1) room(4) by (auto simp: lp_safe_def)
  let ?st = "st\<lparr>ls_is_break := 0, ls_index := ls_index st + 1\<rparr>"
  have sp: "\<not> is_special ?st c" using safe(4) by (simp add: is_special_def)
  show ?thesis
  proof (cases "ls_state st = St_White")
    case True
    then show ?thesis using nc safe st tk room by (simp add: lp_escape_def lp_next_ok_def lp_safe_def)
  next
    case False
    have i1: "i + 1 < toksize" "i + 1 < length token" using n3 safe(1) room by (auto simp: lp_safe_def)
    have "lp_escape st token toksize i c = store_go ?st (token[i := c]) toksize (i + 1) c"
      using nc safe(2-4) st sp False by (cases "ls_state st") (simp_all add: lp_escape_def)
    also have "\<dots> = Inr (Go ?st (token[i := c, i + 1 := c]) (i + 2))"
      using i1 by (simp add: store_go_def storechr_ok)
    finally have e: "lp_escape st token toksize i c = Inr (Go ?st (token[i := c, i + 1 := c]) (i + 2))" .
    have "take (i + 2) (token[i := c, i + 1 := c]) = take (i + 1) (token[i := c]) @ [c]"
      using take_update [of "i + 1" "token[i := c]" c] i1 by simp
    then show ?thesis unfolding e using tk n3 safe(1) room by (simp add: lp_next_ok_def lp_safe_def)
  qed
qed

lemma lp_escape_ok:
  assumes safe: "lp_safe k0 toksize (st, token, i, c)" "c \<noteq> 0" "c = ls_escape st" "\<not> is_special st c"
  shows "\<exists>r. lp_escape st token toksize i c = Inr r \<and> lp_next_ok k0 toksize r"
proof -
  note room = lp_safe_room [OF safe(1,2)]
  obtain nc where nc: "line_char (ls_line st) (ls_index st + 1) = Inr nc"
    using line_char_ok [of "ls_index st + 1" "ls_line st"] room(3,5) by auto
  have here: "line_char (ls_line st) (ls_index st) = Inr c" using safe(1) by (simp add: lp_safe_def lp_moved_def)
  have st: "storechr token toksize i c = Inr (token[i := c], i + 1)" using room by (simp add: storechr_ok)
  have tk: "set (take (i + 1) (token[i := c])) \<subseteq> set (ls_line st)"
    using take_update [OF room(2)] safe(1) room(4) by (auto simp: lp_safe_def)
  consider "nc = 0" | "nc \<noteq> 0" "nc \<noteq> ls_escape st" | "nc \<noteq> 0" "nc = ls_escape st" by blast
  then show ?thesis
  proof cases
    case 1
    then show ?thesis using nc st tk safe(1) room
      by (simp add: lp_escape_def lp_next_ok_def lp_ended_def lp_safe_def)
  next
    case 2
    note n2 = line_char_nz [OF nc 2(1)]
    show ?thesis
    proof (cases "ls_state st = St_White")
      case True
      then show ?thesis using nc 2 safe(1) room by (simp add: lp_escape_def lp_next_ok_def lp_safe_def)
    next
      case False
      then have w: "lp_escape st token toksize i c =
          (if is_special st nc then store_go (st\<lparr>ls_index := ls_index st + 1\<rparr>) token toksize i nc
           else store_go st token toksize i c)"
        using nc 2 here by (cases "ls_state st") (simp_all add: lp_escape_def Let_def)
      show ?thesis
        unfolding w using store_go_ok [OF safe(1,2), of nc "st\<lparr>ls_index := ls_index st + 1\<rparr>"]
          store_go_ok [OF safe(1,2), of c st] n2 room safe(1) by (simp add: lp_safe_def)
    qed
  next
    case 3
    with lp_escape_pair [OF safe] nc safe(3) show ?thesis by simp
  qed
qed

lemma lp_char_ok:
  assumes safe: "lp_safe k0 toksize (st, token, i, c)" "c \<noteq> 0"
  shows "\<exists>r. lp_char st token toksize i c = Inr r \<and> lp_next_ok k0 toksize r"
proof -
  note room = lp_safe_room [OF safe]
  have store: "\<exists>r. store_go st1 token toksize i c = Inr r \<and> lp_next_ok k0 toksize r"
    if "ls_line st1 = ls_line st" "ls_index st1 = ls_index st" "ls_is_break st1 = 0" for st1
    using store_go_ok [OF safe room(4), of st1] that room by simp
  have b0: "ls_is_break st = 0" using safe(1) by (simp add: lp_safe_def)
  have keep: "lp_next_ok k0 toksize (Go st1 token i)"
    if "ls_line st1 = ls_line st" "ls_index st1 = ls_index st" "ls_is_break st1 = 0" for st1
    using that safe(1) room by (simp add: lp_next_ok_def lp_safe_def)
  consider "c \<in> set (ls_brk st)" | "c \<notin> set (ls_brk st)" "c \<in> set (ls_quote st)"
    | "c \<notin> set (ls_brk st)" "c \<notin> set (ls_quote st)" "c \<in> set (ls_white st)"
    | "\<not> is_special st c" "ls_escape st \<noteq> 0" "c = ls_escape st"
    | "\<not> is_special st c" "\<not> (ls_escape st \<noteq> 0 \<and> c = ls_escape st)" by (auto simp: is_special_def)
  then show ?thesis
  proof cases
    case 1
    have "lp_next_ok k0 toksize (Stop (st\<lparr>ls_index := ls_index st + 1, ls_is_break := c\<rparr>) token i)"
      using safe room by (simp add: lp_next_ok_def lp_ended_def lp_safe_def)
    with 1 store [of st] b0 show ?thesis by (cases "ls_state st") (simp_all add: lp_char_def)
  next
    case 2
    with store [of st] b0 keep show ?thesis by (cases "ls_state st") (simp_all add: lp_char_def)
  next
    case 3
    have "lp_next_ok k0 toksize (Stop (st\<lparr>ls_state := St_White\<rparr>) token i)"
      using safe(1) room b0 by (simp add: lp_next_ok_def lp_ended_def lp_safe_def)
    with 3 store [of st] b0 keep show ?thesis by (cases "ls_state st") (simp_all add: lp_char_def)
  next
    case 4
    with lp_escape_ok [OF safe 4(3,1)] show ?thesis by (simp add: lp_char_def is_special_def)
  next
    case 5
    with store [of st] store [of "st\<lparr>ls_state := St_Token\<rparr>"] b0 show ?thesis
      by (cases "ls_state st") (auto simp: lp_char_def is_special_def)
  qed
qed

text \<open>The step relation keeps the invariant, and a state that is not at the end has a step or stops.\<close>

lemma lp_step_safe: "lp_step toksize s s' \<Longrightarrow> lp_safe k0 toksize s \<Longrightarrow> lp_safe k0 toksize s'"
proof (induction rule: lp_step.induct)
  case (lp_stepI c st token i st1 token1 i1 c1)
  have m: "lp_moved k0 st c" using lp_stepI(4) by (simp add: lp_safe_def)
  have "lp_next_ok k0 toksize (Go st1 token1 i1)" using lp_char_ok [OF lp_stepI(4,1)] lp_stepI(2) by auto
  moreover have "ls_line st1 = ls_line st" using lp_char_go [OF lp_stepI(2)] by (simp add: lp_sets_def)
  ultimately show ?case using lp_moved_go [OF m lp_stepI(2,3)] lp_stepI(4) by (auto simp: lp_safe_def lp_next_ok_def)
qed

lemma lp_reach_safe: "(lp_step toksize)\<^sup>*\<^sup>* s s' \<Longrightarrow> lp_safe k0 toksize s \<Longrightarrow> lp_safe k0 toksize s'"
  by (induction rule: rtranclp_induct) (auto dest: lp_step_safe)

lemma lp_progress:
  assumes "lp_safe k0 toksize (st, token, i, c)" "c \<noteq> 0"
  shows "(\<exists>s'. lp_step toksize (st, token, i, c) s') \<or>
    (\<exists>st1 token1 i1. lp_char st token toksize i c = Inr (Stop st1 token1 i1) \<and> lp_ended k0 toksize st1 token1 i1)"
proof -
  obtain r where r: "lp_char st token toksize i c = Inr r" "lp_next_ok k0 toksize r" using lp_char_ok [OF assms] by blast
  show ?thesis
  proof (cases r)
    case (Stop st1 token1 i1)
    with r show ?thesis by (auto simp: lp_next_ok_def)
  next
    case (Go st1 token1 i1)
    with r(2) obtain c1 where "line_char (ls_line st1) (ls_index st1 + 1) = Inr c1"
      using line_char_ok [of "ls_index st1 + 1" "ls_line st1"] by (auto simp: lp_next_ok_def)
    with lp_step.intros [OF assms(2) r(1) [unfolded Go]] show ?thesis by blast
  qed
qed

lemma lp_loop_ok:
  "lp_safe k0 toksize (st, token, i, c) \<Longrightarrow> line_char (ls_line st) k0 \<noteq> Inr 0 \<Longrightarrow>
   \<exists>st' token' i'. lp_loop st token toksize i c = Inr (st', token', i') \<and> lp_ended k0 toksize st' token' i'"
proof (induction st token toksize i c rule: lp_loop.induct)
  case (1 st token toksize i c)
  show ?case
  proof (cases "c = 0")
    case True
    have "lp_ended k0 toksize st token i"
      using 1(2) line_char_le [of "ls_line st" "ls_index st" c] by (auto simp: lp_safe_def lp_ended_def lp_moved_def)
    with True show ?thesis by (simp add: lp_loop.simps)
  next
    case False
    from lp_progress [OF 1(2) False] show ?thesis
    proof
      assume "\<exists>st1 token1 i1. lp_char st token toksize i c = Inr (Stop st1 token1 i1) \<and> lp_ended k0 toksize st1 token1 i1"
      with False show ?thesis by (subst lp_loop.simps) auto
    next
      assume "\<exists>s'. lp_step toksize (st, token, i, c) s'"
      then obtain s' where s': "lp_step toksize (st, token, i, c) s'" ..
      then obtain st1 t1 i1 c1 where s1: "lp_char st token toksize i c = Inr (Go st1 t1 i1)"
        "line_char (ls_line st1) (ls_index st1 + 1) = Inr c1" "s' = (st1\<lparr>ls_index := ls_index st1 + 1\<rparr>, t1, i1, c1)"
        by (auto elim: lp_stepE)
      have safe: "lp_safe k0 toksize (st1\<lparr>ls_index := ls_index st1 + 1\<rparr>, t1, i1, c1)"
        using lp_step_safe [OF s' 1(2)] s1(3) by simp
      have "ls_line st1 = ls_line st" using lp_char_go [OF s1(1)] by (simp add: lp_sets_def)
      with 1(3) have "line_char (ls_line (st1\<lparr>ls_index := ls_index st1 + 1\<rparr>)) k0 \<noteq> Inr 0" by simp
      from 1(1) [OF False s1(1) refl s1(2) safe this] False s1 show ?thesis by (subst lp_loop.simps) auto
    qed
  qed
qed

text \<open>A call of \<open>lp_parse\<close>: at the end of the line, or with a token that came from the line.\<close>

definition lp_ready :: "lp_state \<Rightarrow> bytes \<Rightarrow> nat \<Rightarrow> bool" where
  "lp_ready st token toksize \<longleftrightarrow> 0 \<le> ls_index st \<and> ls_index st \<le> int (length (ls_line st)) \<and> 0 \<notin> set (ls_line st) \<and>
     toksize = length (ls_line st) + 1 \<and> length token = toksize + 1"

lemma lp_parse_ok:
  assumes "lp_ready st token toksize"
  shows "(\<exists>st' token'. lp_parse e st token toksize = Inr (st', token', 0, 0)) \<or>
    (\<exists>st' token' n. lp_parse e st token toksize = Inr (st', token', 1, n) \<and> lp_ready st' token' toksize \<and>
       lp_sets st' = lp_sets st \<and> n \<le> length token' \<and> set (take n token') \<subseteq> set (ls_line st) \<and>
       (ls_is_break st' \<noteq> 0 \<longrightarrow> ls_is_break st' \<in> set (ls_line st)) \<and> ls_index st < ls_index st' \<and>
       int n + (if ls_is_break st' \<noteq> 0 then 1 else 0) \<le> ls_index st' - ls_index st)"
proof -
  let ?st = "st\<lparr>ls_state := St_White, ls_curr_quote := 0, ls_is_break := 0\<rparr>"
  obtain c where c: "line_char (ls_line st) (ls_index st) = Inr c"
    using line_char_ok assms unfolding lp_ready_def by blast
  have t: "mem_write token 0 0 = Inr (token[0 := 0])" using assms by (simp add: mem_write_def lp_ready_def)
  show ?thesis
  proof (cases "c = 0")
    case True
    with c t show ?thesis by (simp add: lp_parse_def)
  next
    case False
    have "lp_safe (ls_index st) toksize (?st, token[0 := 0], 0, c)"
      using assms c by (simp add: lp_safe_def lp_ready_def lp_moved_def)
    from lp_loop_ok [OF this] c False obtain st1 token1 i where
      l: "lp_loop ?st (token[0 := 0]) toksize 0 c = Inr (st1, token1, i)" "lp_ended (ls_index st) toksize st1 token1 i"
      by auto
    have sets: "lp_sets st1 = lp_sets st" "ls_index st < ls_index st1"
    proof -
      have "lp_moved (ls_index st) ?st c" using c by (simp add: lp_moved_def)
      from lp_loop_moves [OF this _ l(1)] c False show "lp_sets st1 = lp_sets st" "ls_index st < ls_index st1" by simp_all
    qed
    then have line: "ls_line st1 = ls_line st" by (simp add: lp_sets_def)
    have i: "i < toksize" "i < length token1" using l(2) assms line by (auto simp: lp_ended_def lp_ready_def split: if_splits)
    then have "lp_parse e st token toksize = Inr (st1, token1[i := 0], 1, i)"
      using c False t l(1) by (simp add: lp_parse_def Let_def mem_write_def)
    moreover have "lp_ready st1 (token1[i := 0]) toksize"
      using l(2) assms line sets(2) by (simp add: lp_ready_def lp_ended_def)
    moreover have "take i (token1[i := 0]) = take i token1" by simp
    ultimately show ?thesis using l(2) sets i line by (auto simp: lp_ended_def)
  qed
qed

section \<open>The tokens in the array\<close>

text \<open>The array holds pointers to the new blocks in order, one for each token.\<close>

definition holds_tokens :: "blocks \<Rightarrow> tn_array \<Rightarrow> blocks \<Rightarrow> bytes list \<Rightarrow> bool" where
  "holds_tokens hs0 ts hs tks \<longleftrightarrow> array_plain ts \<and> hs = hs0 @ map (\<lambda>t. t @ [0]) tks \<and>
     array_elems ts = map (\<lambda>j. word_of_nat (j + 1)) [length hs0..<length hs0 + length tks] \<and> (\<forall>t\<in>set tks. 0 \<notin> set t)"

lemma holds_strings:
  assumes "holds_tokens hs0 ts hs tks" "length hs < 2 ^ 64"
  shows "map (string_of hs) (array_elems ts) = tks"
proof (rule nth_equalityI)
  show "length (map (string_of hs) (array_elems ts)) = length tks" using assms(1) by (simp add: holds_tokens_def)
  fix j assume "j < length (map (string_of hs) (array_elems ts))"
  then have j: "j < length tks" using assms(1) by (simp add: holds_tokens_def)
  then have e: "array_elems ts ! j = word_of_nat (length hs0 + j + 1)" "hs ! (length hs0 + j) = tks ! j @ [0]"
    using assms(1) by (auto simp: holds_tokens_def nth_append)
  have "length hs0 + j + 1 < 2 ^ 64" using assms j by (auto simp: holds_tokens_def)
  then have "unat (word_of_nat (length hs0 + j + 1) :: 64 word) - 1 = length hs0 + j"
    by (simp only: unat_of_nat) simp
  moreover have "str_at ([] @ tks ! j @ 0 # []) 0 = tks ! j"
    using assms(1) j by (intro str_at_app) (auto simp: holds_tokens_def)
  ultimately show "map (string_of hs) (array_elems ts) ! j = tks ! j"
    using e j assms(1) by (simp add: string_of_def holds_tokens_def del: of_nat_Suc)
qed

lemma push_token:
  assumes "holds_tokens hs0 ts hs tks" "0 \<notin> set t"
  shows "\<exists>ts' hs'. new_block hs (t @ [0]) = (hs', word_of_nat (length hs + 1)) \<and>
    array_push_s e ts (word_of_nat (length hs + 1)) = Inr ts' \<and> holds_tokens hs0 ts' hs' (tks @ [t])"
proof -
  from assms(1) have a: "array_plain ts" "hs = hs0 @ map (\<lambda>t. t @ [0]) tks"
    "array_elems ts = map (\<lambda>j. word_of_nat (j + 1)) [length hs0..<length hs0 + length tks]" "\<forall>t\<in>set tks. 0 \<notin> set t"
    by (simp_all add: holds_tokens_def)
  from arr.push_ok [OF a(1), of e "word_of_nat (length hs + 1)"] obtain ts' where
    ts': "array_push_s e ts (word_of_nat (length hs + 1)) = Inr ts'" "array_plain ts'"
    "array_elems ts' = array_elems ts @ [word_of_nat (length hs + 1)]" by blast
  then have "holds_tokens hs0 ts' (hs @ [t @ [0]]) (tks @ [t])"
    using a assms(2) by (simp add: holds_tokens_def add.assoc)
  with ts'(1) show ?thesis by (auto simp: new_block_def)
qed

lemma etokl_step:
  assumes p: "lp_parse e st token toksize = Inr (st', token', 1, n)" "n \<le> length token'" "0 \<notin> set (take n token')"
    and h: "holds_tokens hs0 ts hs tks"
  shows "\<exists>ts' hs'. etokl_loop e st token toksize ts hs = etokl_loop e st' token' toksize ts' hs' \<and>
    holds_tokens hs0 ts' hs' (tks @ (if n > 0 then [take n token'] else []) @
      (if ls_is_break st' \<noteq> 0 then [[ls_is_break st']] else []))"
proof -
  let ?t = "if n > 0 then [take n token'] else []"
  obtain ts1 hs1 where s1: "(if n > 0
      then rbind (n_strdupl hs token' n) (\<lambda>(hs, p). rbind (array_push_s e ts p) (\<lambda>tl. Inr (tl, hs)))
      else Inr (ts, hs)) = Inr (ts1, hs1)" "holds_tokens hs0 ts1 hs1 (tks @ ?t)"
    using push_token [OF h p(3), of e] p(2) h by (cases "n > 0") (auto simp: n_strdupl_def)
  let ?b = "ls_is_break st'"
  have dup: "?b \<noteq> 0 \<Longrightarrow> n_strdup hs1 [?b, 0] = Inr (new_block hs1 ([?b] @ [0]))"
    by (simp add: n_strdup_def str_at_def)
  obtain ts2 hs2 where s2: "(if ?b \<noteq> 0
      then rbind (n_strdup hs1 [?b, 0]) (\<lambda>(hs, p). rbind (array_push_s e ts1 p) (\<lambda>tl. Inr (tl, hs)))
      else Inr (ts1, hs1)) = Inr (ts2, hs2)"
    "holds_tokens hs0 ts2 hs2 ((tks @ ?t) @ (if ?b \<noteq> 0 then [[?b]] else []))"
    using push_token [OF s1(2), of "[?b]" e] s1(2) dup by (cases "?b = 0") auto
  have "etokl_loop e st token toksize ts hs = etokl_loop e st' token' toksize ts2 hs2"
    by (subst etokl_loop.simps) (simp only: p(1) rbind.simps prod.case s1(1) s2(1) zero_less_one if_True)
  with s2(2) show ?thesis unfolding append_assoc by blast
qed

lemma etokl_stop:
  "lp_parse e st token toksize = Inr (st', token', 0, n) \<Longrightarrow> etokl_loop e st token toksize ts hs = Inr (ts, hs)"
  by (subst etokl_loop.simps) simp

lemma etokl_loop_ok:
  "lp_ready st token toksize \<Longrightarrow> holds_tokens hs0 ts hs tks \<Longrightarrow>
   \<exists>ts' hs' new. etokl_loop e st token toksize ts hs = Inr (ts', hs') \<and> holds_tokens hs0 ts' hs' (tks @ new) \<and>
     int (sum_list (map length new)) \<le> int (length (ls_line st)) - ls_index st \<and>
     (\<forall>t\<in>set new. t \<noteq> [] \<and> set t \<subseteq> set (ls_line st))"
proof (induction "nat (int (length (ls_line st)) - ls_index st)" arbitrary: st token ts hs tks rule: less_induct)
  case less
  from lp_parse_ok [OF less.prems(1), of e] show ?case
  proof
    assume "\<exists>st' token'. lp_parse e st token toksize = Inr (st', token', 0, 0)"
    then have "etokl_loop e st token toksize ts hs = Inr (ts, hs)" using etokl_stop by blast
    then show ?thesis using less.prems by (intro exI [of _ ts] exI [of _ hs] exI [of _ "[]"]) (simp add: lp_ready_def)
  next
    assume "\<exists>st' token' n. lp_parse e st token toksize = Inr (st', token', 1, n) \<and> lp_ready st' token' toksize \<and>
       lp_sets st' = lp_sets st \<and> n \<le> length token' \<and> set (take n token') \<subseteq> set (ls_line st) \<and>
       (ls_is_break st' \<noteq> 0 \<longrightarrow> ls_is_break st' \<in> set (ls_line st)) \<and> ls_index st < ls_index st' \<and>
       int n + (if ls_is_break st' \<noteq> 0 then 1 else 0) \<le> ls_index st' - ls_index st"
    then obtain st' token' n where p: "lp_parse e st token toksize = Inr (st', token', 1, n)" "lp_ready st' token' toksize"
      "lp_sets st' = lp_sets st" "n \<le> length token'" "set (take n token') \<subseteq> set (ls_line st)"
      "ls_is_break st' \<noteq> 0 \<longrightarrow> ls_is_break st' \<in> set (ls_line st)" "ls_index st < ls_index st'"
      "int n + (if ls_is_break st' \<noteq> 0 then 1 else 0) \<le> ls_index st' - ls_index st" by blast
    have line: "ls_line st' = ls_line st" using p(3) by (simp add: lp_sets_def)
    let ?new = "(if n > 0 then [take n token'] else []) @ (if ls_is_break st' \<noteq> 0 then [[ls_is_break st']] else [])"
    have "0 \<notin> set (take n token')" using p(5) less.prems(1) by (auto simp: lp_ready_def)
    from etokl_step [OF p(1,4) this less.prems(2)] obtain ts1 hs1 where
      s1: "etokl_loop e st token toksize ts hs = etokl_loop e st' token' toksize ts1 hs1"
      "holds_tokens hs0 ts1 hs1 (tks @ ?new)" by blast
    have "nat (int (length (ls_line st')) - ls_index st') < nat (int (length (ls_line st)) - ls_index st)"
      using p(2,7) line by (auto simp: lp_ready_def)
    from less.hyps [OF this p(2) s1(2)] obtain ts' hs' new where
      s2: "etokl_loop e st' token' toksize ts1 hs1 = Inr (ts', hs')" "holds_tokens hs0 ts' hs' ((tks @ ?new) @ new)"
      "int (sum_list (map length new)) \<le> int (length (ls_line st)) - ls_index st'"
      "\<forall>t\<in>set new. t \<noteq> [] \<and> set t \<subseteq> set (ls_line st)" unfolding line by blast
    have "int (sum_list (map length (?new @ new))) \<le> int (length (ls_line st)) - ls_index st"
      using p(4,8) s2(3) by auto
    moreover have "\<forall>t\<in>set (?new @ new). t \<noteq> [] \<and> set t \<subseteq> set (ls_line st)"
      using p(4,5,6) s2(4) by auto
    moreover have "holds_tokens hs0 ts' hs' (tks @ (?new @ new))" using s2(2) by simp
    ultimately show ?thesis using s1(1) s2(1)
      by (intro exI [of _ ts'] exI [of _ hs'] exI [of _ "?new @ new"]) simp
  qed
qed

lemma etokl_start:
  assumes "0 \<notin> set line"
  shows "\<exists>ts. n_str_etokl_ext e junk hs line (Some white) (Some brk) (Some quote) escape =
      etokl_loop e (lp_init line white brk quote escape) (map junk [0..<length line + 2]) (length line + 1) ts hs \<and>
    holds_tokens hs ts hs [] \<and>
    lp_ready (lp_init line white brk quote escape) (map junk [0..<length line + 2]) (length line + 1)"
proof -
  obtain a where a: "n_array_new e 4 (Some 0) (Some (Cmp_User 0)) = Inr a" "array_rep a []" "arr_start_index a = 0"
    "arr_flags a = 0" using n_array_new_ok [of 4 e "Some 0" "Some (Cmp_User 0)"] by auto
  have "array_plain a" using a(2-4) array_rep_elems [OF a(2)] by (simp add: array_plain_rep arr_has_def)
  then have "holds_tokens hs a hs []" using array_rep_elems [OF a(2)] by (simp add: holds_tokens_def)
  then show ?thesis using a(1) assms
    by (auto simp: n_str_etokl_ext_def Let_def lp_ready_def lp_init_def simp del: upt_Suc)
qed

lemma length_le_total: "\<forall>t\<in>set ts. t \<noteq> [] \<Longrightarrow> length ts \<le> sum_list (map length ts)"
proof (induction ts)
  case (Cons t ts)
  then have "1 \<le> length t" by (cases t) auto
  with Cons show ?case by simp
qed simp

text \<open>C31: The tokenizer ends on every line and never leaves the line or the buffer of the token: its
  result is an array of pointers to new strings, none of them empty, made of characters of the line
  and together no longer than it; whatever the character sets, the escape and what the stack holds.\<close>

theorem n_str_etokl_total:
  assumes "0 \<notin> set line" "length hs + length line < 2 ^ 64"
  shows "\<exists>ts hs'. n_str_etokl_ext e junk hs line (Some white) (Some brk) (Some quote) escape = Inr (ts, hs') \<and>
    take (length hs) hs' = hs \<and>
    (\<forall>t\<in>set (map (string_of hs') (array_elems ts)). t \<noteq> [] \<and> set t \<subseteq> set line) \<and>
    length (concat (map (string_of hs') (array_elems ts))) \<le> length line"
proof -
  from etokl_start [OF assms(1)] obtain ts where ts:
    "n_str_etokl_ext e junk hs line (Some white) (Some brk) (Some quote) escape =
      etokl_loop e (lp_init line white brk quote escape) (map junk [0..<length line + 2]) (length line + 1) ts hs"
    "holds_tokens hs ts hs []"
    "lp_ready (lp_init line white brk quote escape) (map junk [0..<length line + 2]) (length line + 1)" by blast
  from etokl_loop_ok [OF ts(3,2), of e] obtain ts' hs' new where r:
    "etokl_loop e (lp_init line white brk quote escape) (map junk [0..<length line + 2]) (length line + 1) ts hs = Inr (ts', hs')"
    "holds_tokens hs ts' hs' new" "sum_list (map length new) \<le> length line" "\<forall>t\<in>set new. t \<noteq> [] \<and> set t \<subseteq> set line"
    by (auto simp: lp_init_def)
  have "length new \<le> sum_list (map length new)"
    using r(4) by (intro length_le_total) auto
  then have "length hs' < 2 ^ 64" using r(2,3) assms(2) by (simp add: holds_tokens_def)
  with holds_strings [OF r(2)] have "map (string_of hs') (array_elems ts') = new" by blast
  moreover have "take (length hs) hs' = hs" using r(2) by (simp add: holds_tokens_def)
  ultimately show ?thesis using ts(1) r by (auto simp: length_concat)
qed

lemma n_str_etokl_total_witness:
  "\<exists>ts hs'. n_str_etokl_ext plain_env (\<lambda>_. 0) [] [97, 92, 92, 59, 34, 98] (Some [32]) (Some [59]) (Some [34]) 92 = Inr (ts, hs') \<and>
    length (concat (map (string_of hs') (array_elems ts))) \<le> 6"
  using n_str_etokl_total [of "[97, 92, 92, 59, 34, 98]" "[]" plain_env "\<lambda>_. 0" "[32]" "[59]" "[34]" 92] by auto

section \<open>Quoted text\<close>

text \<open>A token between quotes, with the escape before each quote in it; each token has a blank in front.\<close>

definition body :: "8 word \<Rightarrow> 8 word \<Rightarrow> bytes \<Rightarrow> bytes" where
  "body q esc t = concat (map (\<lambda>c. if c = q then [esc, c] else [c]) t)"

definition requote :: "8 word \<Rightarrow> 8 word \<Rightarrow> bytes \<Rightarrow> bytes" where
  "requote q esc t = q # body q esc t @ [q]"

definition quoted_line :: "8 word \<Rightarrow> 8 word \<Rightarrow> 8 word \<Rightarrow> bytes list \<Rightarrow> bytes" where
  "quoted_line w q esc ts = concat (map (\<lambda>t. w # requote q esc t) ts)"

lemma body_simps [simp]: "body q esc [] = []"
  "body q esc (c # t) = (if c = q then esc # c # body q esc t else c # body q esc t)"
  by (simp_all add: body_def)

lemma body_length: "length t \<le> length (body q esc t)"
  by (induction t) auto

lemma body_nonzero: "q \<noteq> 0 \<Longrightarrow> esc \<noteq> 0 \<Longrightarrow> 0 \<notin> set t \<Longrightarrow> 0 \<notin> set (body q esc t)"
  by (induction t) auto

definition quoting :: "bytes \<Rightarrow> bytes \<Rightarrow> bytes \<Rightarrow> 8 word \<Rightarrow> 8 word \<Rightarrow> 8 word \<Rightarrow> bool" where
  "quoting white brk quote esc w q \<longleftrightarrow> q \<in> set quote \<and> q \<notin> set brk \<and> w \<in> set white \<and> w \<notin> set brk \<and> w \<notin> set quote \<and>
     esc \<noteq> 0 \<and> esc \<notin> set white \<and> esc \<notin> set brk \<and> esc \<notin> set quote \<and> w \<noteq> 0 \<and> q \<noteq> 0"

definition lp_quoting :: "lp_state \<Rightarrow> 8 word \<Rightarrow> 8 word \<Rightarrow> bool" where
  "lp_quoting st w q \<longleftrightarrow> quoting (ls_white st) (ls_brk st) (ls_quote st) (ls_escape st) w q"

lemma lp_quoting_sets: "lp_sets st' = lp_sets st \<Longrightarrow> lp_quoting st' w q = lp_quoting st w q"
  by (simp add: lp_quoting_def lp_sets_def)

lemma line_char_drop: "drop k line = x # xs \<Longrightarrow> line_char line (int k) = Inr x"
  using drop_Cons_less [of k line x xs] by (auto simp: line_char_def mem_read_def nth_append simp flip: hd_drop_conv_nth)

lemma line_char_end: "line_char line (int (length line)) = Inr 0"
  by (simp add: line_char_def mem_read_def)

text \<open>One turn of the loop.\<close>

lemma lp_turn:
  assumes "c \<noteq> 0" "lp_char st token toksize i c = Inr (Go st1 token1 i1)"
    "line_char (ls_line st1) (ls_index st1 + 1) = Inr c1"
  shows "lp_loop st token toksize i c = lp_loop (st1\<lparr>ls_index := ls_index st1 + 1\<rparr>) token1 toksize i1 c1"
  using assms by (subst lp_loop.simps) simp

lemma quote_char:
  assumes "lp_quoting st w q" "ls_state st = St_Quote" "ls_curr_quote st = q" "i < toksize" "toksize < length token"
  shows "c \<noteq> q \<Longrightarrow> c \<noteq> ls_escape st \<Longrightarrow> lp_char st token toksize i c = Inr (Go st (token[i := c]) (i + 1))"
    "line_char (ls_line st) (ls_index st + 1) = Inr q \<Longrightarrow>
     lp_char st token toksize i (ls_escape st) = Inr (Go (st\<lparr>ls_index := ls_index st + 1\<rparr>) (token[i := q]) (i + 1))"
    "lp_char st token toksize i q = Inr (Go (st\<lparr>ls_state := St_Token, ls_curr_quote := 0\<rparr>) token i)"
  using assms
  by (auto simp: lp_char_def lp_escape_def lp_quoting_def quoting_def is_special_def store_go_def storechr_ok Let_def)

lemma quote_body:
  assumes "lp_quoting st0 w q" "ls_state st0 = St_Quote" "ls_curr_quote st0 = q" "toksize < length token0"
  shows "drop k (ls_line st0) = body q (ls_escape st0) t @ q # rest \<Longrightarrow> i + length t \<le> toksize \<Longrightarrow>
    length token = length token0 \<Longrightarrow> 0 \<notin> set t \<Longrightarrow> ls_escape st0 \<notin> set t \<Longrightarrow>
    \<exists>token'. lp_loop (st0\<lparr>ls_index := int k\<rparr>) token toksize i (hd (body q (ls_escape st0) t @ [q])) =
        lp_loop (st0\<lparr>ls_index := int (k + length (body q (ls_escape st0) t))\<rparr>) token' toksize (i + length t) q \<and>
      take (i + length t) token' = take i token @ t \<and> length token' = length token"
proof (induction t arbitrary: k i token)
  case Nil
  then show ?case by auto
next
  case (Cons c t)
  let ?esc = "ls_escape st0" and ?st = "st0\<lparr>ls_index := int k\<rparr>" and ?tok = "token[i := c]"
  let ?k = "if c = q then k + 2 else k + 1"
  have st: "lp_quoting ?st w q" "ls_state ?st = St_Quote" "ls_curr_quote ?st = q" "i < toksize" "toksize < length token"
    using assms Cons.prems by (simp_all add: lp_quoting_def)
  note ch = quote_char [OF st]
  have nz: "?esc \<noteq> 0" "c \<noteq> 0" using assms(1) Cons.prems by (auto simp: lp_quoting_def quoting_def)
  obtain x xs where x: "body q ?esc t @ q # rest = x # xs" "hd (body q ?esc t @ [q]) = x"
    by (cases "body q ?esc t") auto
  have dk: "drop ?k (ls_line st0) = body q ?esc t @ q # rest"
  proof -
    have "drop ?k (ls_line st0) = drop (?k - k) (drop k (ls_line st0))" by (simp add: add.commute)
    also have "\<dots> = body q ?esc t @ q # rest" using Cons.prems(1) by (simp add: numeral_2_eq_2)
    finally show ?thesis .
  qed
  then have next1: "line_char (ls_line st0) (int ?k) = Inr x" using x line_char_drop by metis
  have "lp_loop ?st token toksize i (hd (body q ?esc (c # t) @ [q])) =
      lp_loop (st0\<lparr>ls_index := int ?k\<rparr>) ?tok toksize (i + 1) x"
  proof (cases "c = q")
    case True
    have "drop (k + 1) (ls_line st0) = drop 1 (drop k (ls_line st0))" by simp
    also have "\<dots> = q # body q ?esc t @ q # rest" using Cons.prems(1) True by simp
    finally have "line_char (ls_line st0) (int k + 1) = Inr q" using line_char_drop [of "k + 1"] by (simp add: add.commute)
    then have "lp_char ?st token toksize i ?esc = Inr (Go (?st\<lparr>ls_index := int k + 1\<rparr>) ?tok (i + 1))"
      using ch(2) True by simp
    from lp_turn [OF nz(1) this, of x] next1 True show ?thesis by simp
  next
    case False
    then have "lp_char ?st token toksize i c = Inr (Go ?st ?tok (i + 1))" using ch(1) Cons.prems(5) by auto
    from lp_turn [OF nz(2) this, of x] next1 False show ?thesis by (simp add: add.commute)
  qed
  moreover from Cons.IH [OF dk, of "i + 1" ?tok] Cons.prems obtain token' where
    "lp_loop (st0\<lparr>ls_index := int ?k\<rparr>) ?tok toksize (i + 1) x =
       lp_loop (st0\<lparr>ls_index := int (?k + length (body q ?esc t))\<rparr>) token' toksize (i + 1 + length t) q"
    "take (i + 1 + length t) token' = take (i + 1) ?tok @ t" "length token' = length token"
    using x(2) by auto
  moreover have "take (i + 1) ?tok = take i token @ [c]" using take_update [of i token c] st(4,5) by simp
  moreover have "?k + length (body q ?esc t) = k + length (body q ?esc (c # t))" by simp
  ultimately show ?case by (intro exI [of _ token']) (simp del: body_simps)
qed

text \<open>One call of \<open>lp_parse\<close> on a blank and a quoted token.\<close>

lemma quote_close:
  assumes q: "lp_quoting st w q" and s: "ls_state st = St_Quote" "ls_curr_quote st = q" "ls_is_break st = 0"
    and k: "ls_index st = int k" "k + 1 \<le> length (ls_line st)" and rest: "drop (k + 1) (ls_line st) = rest"
      "rest = [] \<or> hd rest = w"
  obtains m where "lp_loop st token toksize i q =
    Inr (st\<lparr>ls_state := m, ls_curr_quote := 0, ls_index := int (k + 1)\<rparr>, token, i)"
proof -
  have nz: "w \<noteq> 0" "q \<noteq> 0" and sets: "w \<in> set (ls_white st)" "w \<notin> set (ls_brk st)" "w \<notin> set (ls_quote st)"
    "q \<in> set (ls_quote st)" "q \<notin> set (ls_brk st)" using q by (auto simp: lp_quoting_def quoting_def)
  let ?st = "st\<lparr>ls_state := St_Token, ls_curr_quote := 0, ls_index := int (k + 1)\<rparr>"
  obtain y where y: "line_char (ls_line st) (int (k + 1)) = Inr y" "y = (if rest = [] then 0 else w)"
  proof (cases "rest = []")
    case True
    then have "k + 1 = length (ls_line st)" using k(2) rest(1) by simp
    with True line_char_end that show thesis by metis
  next
    case False
    then have "drop (k + 1) (ls_line st) = w # tl rest" using rest by (cases rest) auto
    with line_char_drop [of "k + 1"] False that show thesis by simp
  qed
  have "lp_char st token toksize i q = Inr (Go (st\<lparr>ls_state := St_Token, ls_curr_quote := 0\<rparr>) token i)"
    using sets s by (simp add: lp_char_def)
  from lp_turn [OF nz(2) this, of y] y(1) k(1)
  have "lp_loop st token toksize i q = lp_loop ?st token toksize i y" by (simp add: add.commute)
  moreover have "\<exists>m. lp_loop ?st token toksize i y = Inr (?st\<lparr>ls_state := m\<rparr>, token, i)"
  proof (cases "rest = []")
    case True
    then show ?thesis using y(2) by (intro exI [of _ St_Token], subst lp_loop.simps) simp
  next
    case False
    then show ?thesis using y(2) nz(1) sets s(3)
      by (intro exI [of _ St_White], subst lp_loop.simps) (simp add: lp_char_def)
  qed
  ultimately obtain m where "lp_loop st token toksize i q = Inr (?st\<lparr>ls_state := m\<rparr>, token, i)" by auto
  then show thesis by (intro that [of m]) simp
qed

lemma quoted_parse:
  assumes ready: "lp_ready st token toksize" and q: "lp_quoting st w q"
    and d: "drop k (ls_line st) = w # requote q (ls_escape st) t @ rest" and k: "ls_index st = int k"
    and rest: "rest = [] \<or> hd rest = w" and t: "ls_escape st \<notin> set t" "0 \<notin> set t"
  shows "\<exists>st' token'. lp_parse e st token toksize = Inr (st', token', 1, length t) \<and>
    take (length t) token' = t \<and> lp_sets st' = lp_sets st \<and> ls_is_break st' = 0 \<and>
    drop (k + length (w # requote q (ls_escape st) t)) (ls_line st) = rest \<and>
    ls_index st' = int (k + length (w # requote q (ls_escape st) t)) \<and> lp_ready st' token' toksize"
proof -
  let ?esc = "ls_escape st" and ?b = "body q (ls_escape st) t"
  let ?st = "st\<lparr>ls_state := St_White, ls_curr_quote := 0, ls_is_break := 0\<rparr>"
  let ?tok = "token[0 := 0]" and ?n = "length (body q (ls_escape st) t)"
  have nz: "w \<noteq> 0" "q \<noteq> 0" and sets: "w \<in> set (ls_white st)" "w \<notin> set (ls_brk st)" "w \<notin> set (ls_quote st)"
    "q \<in> set (ls_quote st)" "q \<notin> set (ls_brk st)" using q by (auto simp: lp_quoting_def quoting_def)
  have dr: "drop (k + j) (ls_line st) = drop j (w # q # ?b @ q # rest)" for j
    using d by (simp add: requote_def add.commute flip: drop_drop)
  have len: "length (ls_line st) = k + length (w # requote q ?esc t) + length rest"
    using arg_cong [OF d, of length] drop_Cons_less [OF d [unfolded requote_def]] by simp
  have len_t: "length t \<le> toksize" "toksize < length ?tok"
    using ready len body_length [of t q ?esc] by (simp_all add: lp_ready_def requote_def)
  let ?s1 = "?st\<lparr>ls_index := int (k + 1)\<rparr>" and ?s2 = "?st\<lparr>ls_state := St_Quote, ls_curr_quote := q\<rparr>"
  obtain x xs where x: "?b @ q # rest = x # xs" "hd (?b @ [q]) = x" by (cases ?b) auto
  have c0: "line_char (ls_line st) (ls_index st) = Inr w" using line_char_drop [OF d] k by simp
  have c1: "line_char (ls_line st) (int k + 1) = Inr q"
    using line_char_drop [of "k + 1" "ls_line st"] dr [of 1] by (simp add: add.commute)
  have c2: "line_char (ls_line st) (int k + 2) = Inr x"
    using line_char_drop [of "k + 2" "ls_line st" x xs] dr [of 2] x(1) by (simp add: add.commute numeral_2_eq_2)
  have l1: "lp_loop ?st ?tok toksize 0 w = lp_loop ?s1 ?tok toksize 0 q"
    using lp_turn [of w ?st ?tok toksize 0 ?st ?tok 0 q] nz(1) sets c1 k by (simp add: lp_char_def add.commute)
  have l2: "\<dots> = lp_loop (?s2\<lparr>ls_index := int (k + 2)\<rparr>) ?tok toksize 0 x"
    using lp_turn [of q ?s1 ?tok toksize 0 "?s1\<lparr>ls_state := St_Quote, ls_curr_quote := q\<rparr>" ?tok 0 x] nz(2) sets c2
    by (simp add: lp_char_def add.commute)
  have "drop (k + 2) (ls_line st) = ?b @ q # rest" using dr [of 2] by (simp add: numeral_2_eq_2)
  then obtain token1 where l3: "lp_loop (?s2\<lparr>ls_index := int (k + 2)\<rparr>) ?tok toksize 0 x =
      lp_loop (?s2\<lparr>ls_index := int (k + 2 + ?n)\<rparr>) token1 toksize (length t) q"
    "take (length t) token1 = t" "length token1 = length token"
    using quote_body [of ?s2 w q toksize ?tok "k + 2" t rest 0 ?tok] q len_t t x(2)
    by (auto simp: lp_quoting_def)
  let ?s4 = "?st\<lparr>ls_curr_quote := 0, ls_index := int (k + 2 + ?n + 1)\<rparr>"
  let ?s3 = "?s2\<lparr>ls_index := int (k + 2 + ?n)\<rparr>"
  have "lp_quoting ?s3 w q" "k + 2 + ?n + 1 \<le> length (ls_line ?s3)" "drop (k + 2 + ?n + 1) (ls_line ?s3) = rest"
    using q len dr [of "3 + ?n"] by (simp_all add: lp_quoting_def requote_def numeral_3_eq_3)
  from quote_close [OF this(1) _ _ _ _ this(2,3) rest, of token1 toksize "length t"] obtain m where
    "lp_loop ?s3 token1 toksize (length t) q =
      Inr (?s3\<lparr>ls_state := m, ls_curr_quote := 0, ls_index := int (k + 2 + ?n + 1)\<rparr>, token1, length t)" by auto
  then have l4: "lp_loop ?s3 token1 toksize (length t) q = Inr (?s4\<lparr>ls_state := m\<rparr>, token1, length t)" by simp
  have "lp_loop ?st ?tok toksize 0 w = Inr (?s4\<lparr>ls_state := m\<rparr>, token1, length t)"
    using l1 l2 l3(1) l4 by simp
  moreover have "length t < toksize" using ready len body_length [of t q ?esc] by (simp add: lp_ready_def requote_def)
  moreover have "length t < length token1" using len_t l3(3) \<open>length t < toksize\<close> by simp
  ultimately have "lp_parse e st token toksize = Inr (?s4\<lparr>ls_state := m\<rparr>, token1[length t := 0], 1, length t)"
    using c0 nz(1) ready by (simp add: lp_parse_def mem_write_def lp_ready_def)
  moreover have "drop (k + length (w # requote q ?esc t)) (ls_line st) = rest"
    using dr [of "3 + ?n"] by (simp add: requote_def numeral_3_eq_3)
  moreover have "lp_ready (?s4\<lparr>ls_state := m\<rparr>) (token1[length t := 0]) toksize"
    using ready len l3(3) by (simp add: lp_ready_def requote_def)
  moreover have "k + length (w # requote q ?esc t) = k + 3 + ?n" by (simp add: requote_def)
  ultimately show ?thesis using l3(2) by (intro exI [of _ "?s4\<lparr>ls_state := m\<rparr>"] exI [of _ "token1[length t := 0]"]) simp
qed

lemma quoted_loop:
  assumes "\<forall>t\<in>set ts. esc \<notin> set t \<and> 0 \<notin> set t"
  shows "lp_ready st token toksize \<Longrightarrow> lp_quoting st w q \<Longrightarrow> ls_escape st = esc \<Longrightarrow> ls_index st = int k \<Longrightarrow>
    drop k (ls_line st) = quoted_line w q esc ts \<Longrightarrow> holds_tokens hs0 arr hs tks \<Longrightarrow>
    \<exists>arr' hs'. etokl_loop e st token toksize arr hs = Inr (arr', hs') \<and>
      holds_tokens hs0 arr' hs' (tks @ filter (\<lambda>t. t \<noteq> []) ts)"
  using assms
proof (induction ts arbitrary: st token k arr hs tks)
  case Nil
  then have "k = length (ls_line st)" by (auto simp: quoted_line_def lp_ready_def)
  then have "line_char (ls_line st) (ls_index st) = Inr 0" using Nil.prems(4) line_char_end by simp
  then have "lp_parse e st token toksize = Inr (st\<lparr>ls_state := St_White, ls_curr_quote := 0, ls_is_break := 0\<rparr>, token[0 := 0], 0, 0)"
    using Nil.prems(1) by (simp add: lp_parse_def mem_write_def lp_ready_def)
  from etokl_stop [OF this] Nil.prems(6) show ?case by auto
next
  case (Cons t ts)
  have d: "drop k (ls_line st) = w # requote q (ls_escape st) t @ quoted_line w q esc ts"
    using Cons.prems(3,5) by (simp add: quoted_line_def)
  have "quoted_line w q esc ts = [] \<or> hd (quoted_line w q esc ts) = w" by (cases ts) (simp_all add: quoted_line_def)
  from quoted_parse [OF Cons.prems(1,2) d Cons.prems(4) this, of e] Cons.prems(3,7) obtain st' token' where
    p: "lp_parse e st token toksize = Inr (st', token', 1, length t)" "take (length t) token' = t"
    "lp_sets st' = lp_sets st" "ls_is_break st' = 0"
    "drop (k + length (w # requote q (ls_escape st) t)) (ls_line st) = quoted_line w q esc ts"
    "ls_index st' = int (k + length (w # requote q (ls_escape st) t))" "lp_ready st' token' toksize" by auto
  have l: "length t \<le> length token'" using arg_cong [OF p(2), of length] by simp
  have z: "0 \<notin> set (take (length t) token')" using p(2) Cons.prems(7) by simp
  have new: "(if length t > 0 then [take (length t) token'] else []) @ (if ls_is_break st' \<noteq> 0 then [[ls_is_break st']] else [])
      = filter (\<lambda>t. t \<noteq> []) [t]"
    using p(2,4) by simp
  from etokl_step [OF p(1) l z Cons.prems(6), unfolded new] obtain arr1 hs1 where
    s: "etokl_loop e st token toksize arr hs = etokl_loop e st' token' toksize arr1 hs1"
    "holds_tokens hs0 arr1 hs1 (tks @ filter (\<lambda>t. t \<noteq> []) [t])" by blast
  have sets: "lp_quoting st' w q" "ls_escape st' = esc" "ls_line st' = ls_line st"
    using p(3) Cons.prems(2,3) lp_quoting_sets [OF p(3)] by (simp_all add: lp_sets_def)
  have d': "drop (k + length (w # requote q (ls_escape st) t)) (ls_line st') = quoted_line w q esc ts"
    using p(5) sets(3) by simp
  from Cons.IH [OF p(7) sets(1,2) p(6) d' s(2)] Cons.prems(7) s(1) show ?case by auto
qed

text \<open>C32: Text in quotes comes back: a line of quoted tokens, each with a blank in front and with the
  escape before every quote in it, is split into these tokens, blanks, break characters and other
  quotes included; empty ones are lost.\<close>

theorem n_str_etokl_quoted:
  assumes "quoting white brk quote esc w q" "\<forall>t\<in>set ts. esc \<notin> set t \<and> 0 \<notin> set t"
    "length hs + length (quoted_line w q esc ts) < 2 ^ 64"
  shows "\<exists>arr hs'. n_str_etokl_ext e junk hs (quoted_line w q esc ts) (Some white) (Some brk) (Some quote) esc = Inr (arr, hs') \<and>
    map (string_of hs') (array_elems arr) = filter (\<lambda>t. t \<noteq> []) ts"
proof -
  let ?l = "quoted_line w q esc ts"
  have "0 \<notin> set (body q esc t)" if "t \<in> set ts" for t
    using assms(1,2) that body_nonzero [of q esc t] by (auto simp: quoting_def)
  then have l0: "0 \<notin> set ?l" using assms(1) by (auto simp: quoted_line_def requote_def quoting_def)
  obtain arr where st: "n_str_etokl_ext e junk hs ?l (Some white) (Some brk) (Some quote) esc =
      etokl_loop e (lp_init ?l white brk quote esc) (map junk [0..<length ?l + 2]) (length ?l + 1) arr hs"
    "holds_tokens hs arr hs []" "lp_ready (lp_init ?l white brk quote esc) (map junk [0..<length ?l + 2]) (length ?l + 1)"
    using etokl_start [OF l0] by blast
  from quoted_loop [OF assms(2) st(3), of w q 0 hs arr hs "[]" e] assms(1) st(2) obtain arr' hs' where
    r: "etokl_loop e (lp_init ?l white brk quote esc) (map junk [0..<length ?l + 2]) (length ?l + 1) arr hs = Inr (arr', hs')"
    "holds_tokens hs arr' hs' (filter (\<lambda>t. t \<noteq> []) ts)" by (auto simp: lp_quoting_def lp_init_def)
  have "length ts \<le> length ?l" by (induction ts) (auto simp: quoted_line_def)
  then have "length (filter (\<lambda>t. t \<noteq> []) ts) \<le> length ?l" using length_filter_le le_trans by blast
  then have "length hs' < 2 ^ 64" using r(2) assms(3) by (simp add: holds_tokens_def)
  from holds_strings [OF r(2) this] st(1) r(1) show ?thesis by auto
qed

lemma n_str_etokl_quoted_witness:
  "\<exists>arr hs'. n_str_etokl plain_env (\<lambda>_. 0) []
      [32, 34, 97, 32, 98, 34, 32, 34, 34, 32, 34, 59, 92, 34, 39, 34] = Inr (arr, hs') \<and>
    map (string_of hs') (array_elems arr) = [[97, 32, 98], [59, 34, 39]]"
proof -
  have "quoting [32, 9] [59, 124] [34, 39] 92 32 34" by (simp add: quoting_def)
  from n_str_etokl_quoted [OF this, of "[[97, 32, 98], [], [59, 34, 39]]" "[]" plain_env "\<lambda>_. 0"] show ?thesis
    by (simp add: quoted_line_def requote_def n_str_etokl_def n_str_etokl_ext_def)
qed

end
