(* ===== verification/Obstack.thy ===== *)
theory Obstack
  imports Simulation Buf
begin

text \<open>
  The object stacks of \<open>lib/obstack.c\<close> and \<open>lib/obstack.h\<close>, which the allocators of
  \<open>nmalloc.c\<close> take their memory from. Objects are built at the end of the newest chunk
  and finished one after the other; freeing an object frees all the younger ones.

  Addresses are integers, \<open>ob_mem\<close> is the memory at them. The chunks are listed from
  \<open>h->chunk\<close> along their \<open>prev\<close> pointers. The function that gives out chunks is the
  caller's: from the chunks the obstack holds and a size it makes an address, 0 for \<open>NULL\<close>.
  Pointers have 8 bytes, so the two fields in front of the contents of a chunk take 16.
\<close>

section \<open>Memory\<close>

definition ob_peek :: "(int \<Rightarrow> 8 word) \<Rightarrow> int \<Rightarrow> nat \<Rightarrow> bytes" where
  "ob_peek mem a n = map (\<lambda>i. mem (a + int i)) [0..<n]"

definition ob_store :: "(int \<Rightarrow> 8 word) \<Rightarrow> int \<Rightarrow> bytes \<Rightarrow> int \<Rightarrow> 8 word" where
  "ob_store mem a bs = (\<lambda>x. if a \<le> x \<and> x < a + int (length bs) then bs ! nat (x - a) else mem x)"

record ob_chunk =
  ck_addr :: int
  ck_limit :: int

definition ck_contents :: "ob_chunk \<Rightarrow> int" where
  "ck_contents c = ck_addr c + 16"

text \<open>A write must stay inside the contents of a chunk.\<close>

definition ob_poke :: "ob_chunk list \<Rightarrow> (int \<Rightarrow> 8 word) \<Rightarrow> int \<Rightarrow> bytes \<Rightarrow> (int \<Rightarrow> 8 word) result" where
  "ob_poke cs mem a bs =
     (if bs = [] \<or> (\<exists>c\<in>set cs. ck_contents c \<le> a \<and> a + int (length bs) \<le> ck_limit c)
      then Inr (ob_store mem a bs) else Inl Mem_Fault)"

text \<open>The bytes of a word in memory.\<close>

definition le_bytes :: "nat \<Rightarrow> 'a::len word \<Rightarrow> bytes" where
  "le_bytes n w = map (\<lambda>i. ucast (drop_bit (8 * i) w)) [0..<n]"

section \<open>Chunks\<close>

record obstack =
  ob_chunk_size :: int
  ob_chunks :: "ob_chunk list"
  ob_object_base :: int
  ob_next_free :: int
  ob_chunk_limit :: int
  ob_alignment_mask :: int
  ob_maybe_empty_object :: bool
  ob_alloc_failed :: bool
  ob_mem :: "int \<Rightarrow> 8 word"

type_synonym chunk_fun = "(int \<times> int) list \<Rightarrow> int \<Rightarrow> int"

definition ob_live :: "obstack \<Rightarrow> (int \<times> int) list" where
  "ob_live h = map (\<lambda>c. (ck_addr c, ck_limit c)) (ob_chunks h)"

definition DEFAULT_ALIGNMENT :: int where "DEFAULT_ALIGNMENT = 8"
definition DEFAULT_ROUNDING :: int where "DEFAULT_ROUNDING = 8"
definition COPYING_UNIT :: nat where "COPYING_UNIT = 4"

definition ob_begin :: "chunk_fun \<Rightarrow> obstack \<Rightarrow> int \<Rightarrow> int \<Rightarrow> (obstack \<times> bool) result" where
  "ob_begin cf h sz alignment =
     (let alignment = (if alignment = 0 then DEFAULT_ALIGNMENT else alignment);
          extra = (((12 + DEFAULT_ROUNDING - 1) AND NOT (DEFAULT_ROUNDING - 1))
                   + 4 + DEFAULT_ROUNDING - 1) AND NOT (DEFAULT_ROUNDING - 1);
          sz = (if sz = 0 then 4096 - extra else sz);
          h = h\<lparr>ob_chunk_size := sz, ob_alignment_mask := alignment - 1\<rparr>;
          a = cf [] sz in
      if a = 0 then Inr (h\<lparr>ob_alloc_failed := True\<rparr>, False)
      else if sz < 16 then Inl Mem_Fault
      else Inr (h\<lparr>ob_chunks := [\<lparr>ck_addr = a, ck_limit = a + sz\<rparr>], ob_alloc_failed := False,
             ob_next_free := a + 16, ob_object_base := a + 16, ob_chunk_limit := a + sz,
             ob_maybe_empty_object := False\<rparr>, True))"

text \<open>The same with a chunk function that is given one argument more.\<close>

definition ob_begin_1 :: "('a \<Rightarrow> chunk_fun) \<Rightarrow> 'a \<Rightarrow> obstack \<Rightarrow> int \<Rightarrow> int \<Rightarrow> (obstack \<times> bool) result" where
  "ob_begin_1 cf arg h sz alignment = ob_begin (cf arg) h sz alignment"

text \<open>The growing object moves word by word from the end, then byte by byte.\<close>

fun copy_units :: "ob_chunk list \<Rightarrow> (int \<Rightarrow> 8 word) \<Rightarrow> int \<Rightarrow> int \<Rightarrow> nat \<Rightarrow> (int \<Rightarrow> 8 word) result" where
  "copy_units cs mem dst src 0 = Inr mem"
| "copy_units cs mem dst src (Suc i) =
     rbind (ob_poke cs mem (dst + int (COPYING_UNIT * i)) (ob_peek mem (src + int (COPYING_UNIT * i)) COPYING_UNIT))
       (\<lambda>mem. copy_units cs mem dst src i)"

fun copy_rest :: "ob_chunk list \<Rightarrow> (int \<Rightarrow> 8 word) \<Rightarrow> int \<Rightarrow> int \<Rightarrow> nat \<Rightarrow> nat \<Rightarrow> (int \<Rightarrow> 8 word) result" where
  "copy_rest cs mem dst src i 0 = Inr mem"
| "copy_rest cs mem dst src i (Suc k) =
     rbind (ob_poke cs mem (dst + int i) [mem (src + int i)])
       (\<lambda>mem. copy_rest cs mem dst src (Suc i) k)"

definition ob_new_size :: "obstack \<Rightarrow> int \<Rightarrow> int" where
  "ob_new_size h len =
     (let obj_size = ob_next_free h - ob_object_base h;
          new_size = (obj_size + len) + drop_bit 3 obj_size + 100 in
      if new_size < ob_chunk_size h then ob_chunk_size h else new_size)"

definition copy_object :: "obstack \<Rightarrow> ob_chunk list \<Rightarrow> int \<Rightarrow> nat \<Rightarrow> (int \<Rightarrow> 8 word) result" where
  "copy_object h cs dst n =
     (let units = (if ob_alignment_mask h + 1 \<ge> DEFAULT_ALIGNMENT then n div COPYING_UNIT else 0);
          already = units * COPYING_UNIT in
      rbind (copy_units cs (ob_mem h) dst (ob_object_base h) units) (\<lambda>mem.
        copy_rest cs mem dst (ob_object_base h) already (n - already)))"

definition ob_newchunk :: "chunk_fun \<Rightarrow> obstack \<Rightarrow> int \<Rightarrow> obstack result" where
  "ob_newchunk cf h len =
     (case ob_chunks h of [] \<Rightarrow> Inl Mem_Fault
      | old # rest \<Rightarrow>
        let obj_size = ob_next_free h - ob_object_base h; new_size = ob_new_size h len;
            a = cf (ob_live h) new_size in
        if a = 0 then Inr (h\<lparr>ob_alloc_failed := True\<rparr>)
        else
          let new = \<lparr>ck_addr = a, ck_limit = a + new_size\<rparr> in
          rbind (copy_object h (new # old # rest) (ck_contents new) (nat obj_size)) (\<lambda>mem.
            Inr (h\<lparr>ob_alloc_failed := False, ob_chunk_limit := a + new_size, ob_mem := mem,
              ob_chunks := (if ob_object_base h = ck_contents old \<and> \<not> ob_maybe_empty_object h
                            then new # rest else new # old # rest),
              ob_object_base := ck_contents new, ob_next_free := ck_contents new + obj_size,
              ob_maybe_empty_object := False\<rparr>)))"

section \<open>Growing and finishing\<close>

definition obstack_base :: "obstack \<Rightarrow> int" where
  "obstack_base h = (if ob_alloc_failed h then 0 else ob_object_base h)"

definition obstack_object_size :: "obstack \<Rightarrow> int" where
  "obstack_object_size h = (if ob_alloc_failed h then 0 else ob_next_free h - ob_object_base h)"

definition obstack_room :: "obstack \<Rightarrow> int" where
  "obstack_room h = ob_chunk_limit h - ob_next_free h"

definition obstack_grow :: "chunk_fun \<Rightarrow> obstack \<Rightarrow> bytes \<Rightarrow> obstack result" where
  "obstack_grow cf h bs =
     (let len = int (length bs) in
      rbind (if ob_next_free h + len > ob_chunk_limit h then ob_newchunk cf h len else Inr h) (\<lambda>h.
        if ob_alloc_failed h then Inr h
        else rbind (ob_poke (ob_chunks h) (ob_mem h) (ob_next_free h) bs) (\<lambda>mem.
          Inr (h\<lparr>ob_mem := mem, ob_next_free := ob_next_free h + len\<rparr>))))"

definition obstack_grow0 :: "chunk_fun \<Rightarrow> obstack \<Rightarrow> bytes \<Rightarrow> obstack result" where
  "obstack_grow0 cf h bs =
     (let len = int (length bs) in
      rbind (if ob_next_free h + len + 1 > ob_chunk_limit h then ob_newchunk cf h (len + 1) else Inr h) (\<lambda>h.
        if ob_alloc_failed h then Inr h
        else rbind (ob_poke (ob_chunks h) (ob_mem h) (ob_next_free h) bs) (\<lambda>mem.
          let h = h\<lparr>ob_mem := mem, ob_next_free := ob_next_free h + len\<rparr> in
          rbind (ob_poke (ob_chunks h) (ob_mem h) (ob_next_free h) [0]) (\<lambda>mem.
            Inr (h\<lparr>ob_mem := mem, ob_next_free := ob_next_free h + 1\<rparr>)))))"

definition obstack_1grow :: "chunk_fun \<Rightarrow> obstack \<Rightarrow> 8 word \<Rightarrow> obstack result" where
  "obstack_1grow cf h b =
     rbind (if ob_next_free h + 1 > ob_chunk_limit h then ob_newchunk cf h 1 else Inr h) (\<lambda>h.
       if ob_alloc_failed h then Inr h
       else rbind (ob_poke (ob_chunks h) (ob_mem h) (ob_next_free h) [b]) (\<lambda>mem.
         Inr (h\<lparr>ob_mem := mem, ob_next_free := ob_next_free h + 1\<rparr>)))"

definition obstack_ptr_grow :: "chunk_fun \<Rightarrow> obstack \<Rightarrow> ptr \<Rightarrow> obstack result" where
  "obstack_ptr_grow cf h datum =
     rbind (if ob_next_free h + 8 > ob_chunk_limit h then ob_newchunk cf h 8 else Inr h) (\<lambda>h.
       if ob_alloc_failed h then Inr h
       else rbind (ob_poke (ob_chunks h) (ob_mem h) (ob_next_free h) (le_bytes 8 datum)) (\<lambda>mem.
         Inr (h\<lparr>ob_mem := mem, ob_next_free := ob_next_free h + 8\<rparr>)))"

definition obstack_int_grow :: "chunk_fun \<Rightarrow> obstack \<Rightarrow> 32 word \<Rightarrow> obstack result" where
  "obstack_int_grow cf h datum =
     rbind (if ob_next_free h + 4 > ob_chunk_limit h then ob_newchunk cf h 4 else Inr h) (\<lambda>h.
       if ob_alloc_failed h then Inr h
       else rbind (ob_poke (ob_chunks h) (ob_mem h) (ob_next_free h) (le_bytes 4 datum)) (\<lambda>mem.
         Inr (h\<lparr>ob_mem := mem, ob_next_free := ob_next_free h + 4\<rparr>)))"

text \<open>The fast ones look at nothing: the caller has asked for the room.\<close>

definition ob_put_fast :: "obstack \<Rightarrow> bytes \<Rightarrow> obstack result" where
  "ob_put_fast h bs =
     rbind (ob_poke (ob_chunks h) (ob_mem h) (ob_next_free h) bs) (\<lambda>mem.
       Inr (h\<lparr>ob_mem := mem, ob_next_free := ob_next_free h + int (length bs)\<rparr>))"

definition obstack_1grow_fast :: "obstack \<Rightarrow> 8 word \<Rightarrow> obstack result" where
  "obstack_1grow_fast h achar = ob_put_fast h [achar]"

definition obstack_ptr_grow_fast :: "obstack \<Rightarrow> ptr \<Rightarrow> obstack result" where
  "obstack_ptr_grow_fast h aptr = ob_put_fast h (le_bytes 8 aptr)"

definition obstack_int_grow_fast :: "obstack \<Rightarrow> 32 word \<Rightarrow> obstack result" where
  "obstack_int_grow_fast h aint = ob_put_fast h (le_bytes 4 aint)"

definition obstack_blank_fast :: "obstack \<Rightarrow> int \<Rightarrow> obstack" where
  "obstack_blank_fast h n = h\<lparr>ob_next_free := ob_next_free h + n\<rparr>"

definition obstack_next_free :: "obstack \<Rightarrow> int" where
  "obstack_next_free h = (if ob_alloc_failed h then 0 else ob_next_free h)"

definition obstack_blank :: "chunk_fun \<Rightarrow> obstack \<Rightarrow> int \<Rightarrow> obstack result" where
  "obstack_blank cf h len =
     rbind (if ob_chunk_limit h - ob_next_free h < len then ob_newchunk cf h len else Inr h) (\<lambda>h.
       if ob_alloc_failed h then Inr h else Inr (h\<lparr>ob_next_free := ob_next_free h + len\<rparr>))"

definition obstack_finish :: "obstack \<Rightarrow> obstack \<times> int" where
  "obstack_finish h =
     (if ob_alloc_failed h then (h, 0)
      else
        let p = ob_object_base h;
            empty = (ob_next_free h = p);
            next = (ob_next_free h + ob_alignment_mask h) AND NOT (ob_alignment_mask h);
            next = (if next > ob_chunk_limit h then ob_chunk_limit h else next) in
        (h\<lparr>ob_maybe_empty_object := (empty \<or> ob_maybe_empty_object h),
           ob_next_free := next, ob_object_base := next\<rparr>, p))"

definition obstack_alloc :: "chunk_fun \<Rightarrow> obstack \<Rightarrow> int \<Rightarrow> (obstack \<times> int) result" where
  "obstack_alloc cf h len = rbind (obstack_blank cf h len) (\<lambda>h. Inr (obstack_finish h))"

definition obstack_copy :: "chunk_fun \<Rightarrow> obstack \<Rightarrow> bytes \<Rightarrow> (obstack \<times> int) result" where
  "obstack_copy cf h bs = rbind (obstack_grow cf h bs) (\<lambda>h. Inr (obstack_finish h))"

definition obstack_copy0 :: "chunk_fun \<Rightarrow> obstack \<Rightarrow> bytes \<Rightarrow> (obstack \<times> int) result" where
  "obstack_copy0 cf h bs = rbind (obstack_grow0 cf h bs) (\<lambda>h. Inr (obstack_finish h))"

section \<open>Freeing\<close>

text \<open>The chunks that do not hold the object are given back; whether there were any.\<close>

fun free_chunks :: "int \<Rightarrow> ob_chunk list \<Rightarrow> ob_chunk list \<times> bool" where
  "free_chunks obj [] = ([], False)"
| "free_chunks obj (c # cs) =
     (if ck_addr c \<ge> obj \<or> ck_limit c < obj then (fst (free_chunks obj cs), True) else (c # cs, False))"

definition ob_free :: "obstack \<Rightarrow> int \<Rightarrow> obstack result" where
  "ob_free h obj =
     (case free_chunks obj (ob_chunks h) of (cs, switched) \<Rightarrow>
        let h = h\<lparr>ob_chunks := cs, ob_maybe_empty_object := (switched \<or> ob_maybe_empty_object h)\<rparr> in
        case cs of
          c # _ \<Rightarrow> Inr (h\<lparr>ob_object_base := obj, ob_next_free := obj, ob_chunk_limit := ck_limit c\<rparr>)
        | [] \<Rightarrow> if obj \<noteq> 0 then Inl (Died ''abort'') else Inr h)"

text \<open>\<open>_obstack_free\<close> has the same text as the function \<open>obstack_free\<close> behind the macro.\<close>

definition ob_free_1 :: "obstack \<Rightarrow> int \<Rightarrow> obstack result" where
  "ob_free_1 h obj = ob_free h obj"

definition obstack_free :: "obstack \<Rightarrow> int \<Rightarrow> obstack result" where
  "obstack_free h obj =
     (case ob_chunks h of [] \<Rightarrow> Inl Mem_Fault
      | c # _ \<Rightarrow>
        if obj > ck_addr c \<and> obj < ob_chunk_limit h
        then Inr (h\<lparr>ob_next_free := obj, ob_object_base := obj\<rparr>) else ob_free h obj)"

definition ob_allocated_p :: "obstack \<Rightarrow> int \<Rightarrow> bool" where
  "ob_allocated_p h obj = (fst (free_chunks obj (ob_chunks h)) \<noteq> [])"

end
