(* ===== verification/ObstackProps.thy ===== *)
theory ObstackProps
  imports Obstack
begin

text \<open>
  An obstack as a stack of byte objects: \<open>ob_spec\<close> is the abstract stack, \<open>ob_holds\<close> the
  relation, and every sequence of calls keeps the bytes of the objects that are not freed.
\<close>

section \<open>Memory\<close>

text \<open>The memory at \<open>p\<close> has the bytes of the cells that are known.\<close>

definition agrees :: "(int \<Rightarrow> 8 word) \<Rightarrow> int \<Rightarrow> cells \<Rightarrow> bool" where
  "agrees mem p x \<longleftrightarrow> (\<forall>i<length x. \<forall>b. x ! i = Some b \<longrightarrow> mem (p + int i) = b)"

lemma agrees_Nil [simp]: "agrees mem p []"
  by (simp add: agrees_def)

lemma agrees_cong:
  "agrees mem p x \<Longrightarrow> (\<And>i. i < length x \<Longrightarrow> mem' (q + int i) = mem (p + int i)) \<Longrightarrow> agrees mem' q x"
  by (simp add: agrees_def)

lemma agrees_append:
  "agrees mem p (x @ y) \<longleftrightarrow> agrees mem p x \<and> agrees mem (p + int (length x)) y"
proof (intro iffI conjI)
  assume a: "agrees mem p (x @ y)"
  then show "agrees mem p x" by (auto simp: agrees_def nth_append)
  show "agrees mem (p + int (length x)) y" unfolding agrees_def
  proof (intro allI impI)
    fix i b assume "i < length y" "y ! i = Some b"
    then have "(x @ y) ! (length x + i) = Some b" "length x + i < length (x @ y)" by simp_all
    with a have "mem (p + int (length x + i)) = b" unfolding agrees_def by blast
    then show "mem (p + int (length x) + int i) = b" by (simp add: add.assoc)
  qed
next
  assume a: "agrees mem p x \<and> agrees mem (p + int (length x)) y"
  show "agrees mem p (x @ y)" unfolding agrees_def
  proof (intro allI impI)
    fix i b assume "i < length (x @ y)" "(x @ y) ! i = Some b"
    with a show "mem (p + int i) = b"
      by (cases "i < length x") (auto simp: agrees_def nth_append dest!: spec [of _ "i - length x"])
  qed
qed

lemma agrees_unknown [simp]: "agrees mem p (replicate n None)"
  by (simp add: agrees_def)

lemma agrees_store_same: "agrees (ob_store mem p bs) p (map Some bs)"
  by (simp add: agrees_def ob_store_def)

lemma agrees_store_other:
  "agrees mem p x \<Longrightarrow> p + int (length x) \<le> a \<or> a + int (length bs) \<le> p \<Longrightarrow> agrees (ob_store mem a bs) p x"
  by (auto simp: agrees_def ob_store_def)

lemma agrees_peek:
  assumes "agrees mem p x" "n \<le> length x" "None \<notin> set (take n x)"
  shows "ob_peek mem p n = map the (take n x)"
proof (rule nth_equalityI)
  fix i assume i: "i < length (ob_peek mem p n)"
  then have "take n x ! i \<in> set (take n x)" using assms(2) by (intro nth_mem) (simp add: ob_peek_def)
  then obtain b where "x ! i = Some b" using i assms(3) by (cases "x ! i") (auto simp: ob_peek_def)
  then show "ob_peek mem p n ! i = map the (take n x) ! i"
    using i assms(1,2) by (simp add: agrees_def ob_peek_def)
qed (use assms in \<open>simp add: ob_peek_def\<close>)

text \<open>The copy loops of \<open>_obstack_newchunk\<close> are a copy of the whole block.\<close>

definition copied :: "(int \<Rightarrow> 8 word) \<Rightarrow> int \<Rightarrow> int \<Rightarrow> nat \<Rightarrow> nat \<Rightarrow> int \<Rightarrow> 8 word" where
  "copied mem dst src lo hi = (\<lambda>x. if dst + int lo \<le> x \<and> x < dst + int hi then mem (src + (x - dst)) else mem x)"

lemma copied_empty [simp]: "copied mem dst src n n = mem"
  by (rule ext) (auto simp: copied_def)

lemma store_peek:
  assumes "dst + int (lo + n) \<le> src \<or> src + int (lo + n) \<le> dst"
  shows "ob_store mem (dst + int lo) (ob_peek mem (src + int lo) n) = copied mem dst src lo (lo + n)"
  by (rule ext) (auto simp: ob_store_def ob_peek_def copied_def algebra_simps)

lemma copied_copied:
  assumes "dst + int hi \<le> src \<or> src + int hi \<le> dst" "lo \<le> mid" "mid \<le> hi"
  shows "copied (copied mem dst src lo mid) dst src mid hi = copied mem dst src lo hi"
    and "copied (copied mem dst src mid hi) dst src lo mid = copied mem dst src lo hi"
  using assms by (auto simp: copied_def fun_eq_iff)

lemma poke_in:
  "c \<in> set cs \<Longrightarrow> ck_contents c \<le> a \<Longrightarrow> a + int (length bs) \<le> ck_limit c \<Longrightarrow>
   ob_poke cs mem a bs = Inr (ob_store mem a bs)"
  by (auto simp: ob_poke_def)

lemma poke_peek:
  assumes "c \<in> set cs" "ck_contents c \<le> dst" "dst + int (lo + n) \<le> ck_limit c"
    "dst + int (lo + n) \<le> src \<or> src + int (lo + n) \<le> dst"
  shows "ob_poke cs mem (dst + int lo) (ob_peek mem (src + int lo) n) = Inr (copied mem dst src lo (lo + n))"
  using assms poke_in [of c cs "dst + int lo" "ob_peek mem (src + int lo) n" mem] store_peek [of dst lo n src mem]
  by (simp add: ob_peek_def)

lemma copy_units_ok:
  assumes "c \<in> set cs" "ck_contents c \<le> dst" "dst + int (4 * k) \<le> ck_limit c"
    "dst + int (4 * k) \<le> src \<or> src + int (4 * k) \<le> dst"
  shows "copy_units cs mem dst src k = Inr (copied mem dst src 0 (4 * k))"
  using assms(3,4)
proof (induction k arbitrary: mem)
  case (Suc k)
  have "ob_poke cs mem (dst + int (COPYING_UNIT * k)) (ob_peek mem (src + int (COPYING_UNIT * k)) COPYING_UNIT) =
      Inr (copied mem dst src (4 * k) (4 * k + 4))"
    unfolding COPYING_UNIT_def using Suc.prems assms(1,2) by (intro poke_peek) auto
  moreover have "copy_units cs mem' dst src k = Inr (copied mem' dst src 0 (4 * k))" for mem'
    using Suc.prems by (intro Suc.IH) auto
  ultimately show ?case using Suc.prems copied_copied(2) [of dst "4 * k + 4" src 0 "4 * k" mem] by (simp add: add.commute)
qed simp

lemma copy_rest_ok:
  assumes "c \<in> set cs" "ck_contents c \<le> dst" "dst + int (i + k) \<le> ck_limit c"
    "dst + int (i + k) \<le> src \<or> src + int (i + k) \<le> dst"
  shows "copy_rest cs mem dst src i k = Inr (copied mem dst src i (i + k))"
  using assms(3,4)
proof (induction k arbitrary: mem i)
  case (Suc k)
  have "dst + int (i + 1) \<le> ck_limit c" "dst + int (i + 1) \<le> src \<or> src + int (i + 1) \<le> dst"
    using Suc.prems by auto
  then have "ob_poke cs mem (dst + int i) [mem (src + int i)] = Inr (copied mem dst src i (i + 1))"
    using assms(1,2) poke_peek [of c cs dst i 1 src mem] by (simp add: ob_peek_def)
  moreover have "copy_rest cs mem' dst src (Suc i) k = Inr (copied mem' dst src (Suc i) (Suc i + k))" for mem'
    using Suc.prems by (intro Suc.IH) auto
  ultimately show ?case
    using Suc.prems copied_copied(1) [of dst "Suc i + k" src i "Suc i" mem] by simp
qed simp

section \<open>The invariant\<close>

text \<open>What the caller's chunk function promises: aligned memory nobody holds, as \<open>malloc\<close> gives it.\<close>

definition chunk_fun_ok :: "chunk_fun \<Rightarrow> bool" where
  "chunk_fun_ok cf \<longleftrightarrow> (\<forall>live n. 16 \<le> n \<longrightarrow> 0 < cf live n \<and> 16 dvd cf live n \<and>
     (\<forall>(a, l)\<in>set live. l \<le> cf live n \<or> cf live n + n \<le> a))"

definition chunk_ok :: "ob_chunk \<Rightarrow> bool" where
  "chunk_ok c \<longleftrightarrow> 0 < ck_addr c \<and> 16 dvd ck_addr c \<and> ck_contents c \<le> ck_limit c"

definition apart :: "ob_chunk \<Rightarrow> ob_chunk \<Rightarrow> bool" where
  "apart c d \<longleftrightarrow> ck_limit c \<le> ck_addr d \<or> ck_limit d \<le> ck_addr c"

text \<open>Objects lie one below the other in \<open>[lo, hi)\<close>, the youngest at the top.\<close>

fun packed :: "int \<Rightarrow> int \<Rightarrow> (int \<times> cells) list \<Rightarrow> bool" where
  "packed lo hi [] \<longleftrightarrow> lo \<le> hi"
| "packed lo hi ((p, x) # os) \<longleftrightarrow> p + int (length x) \<le> hi \<and> packed lo p os"

definition chunk_holds :: "ob_chunk \<Rightarrow> (int \<times> cells) list \<Rightarrow> bool" where
  "chunk_holds c os \<longleftrightarrow> packed (ck_contents c) (ck_limit c) os"

text \<open>An object starts at a multiple of the alignment, or is an empty one at the end of its chunk.\<close>

definition placed :: "int \<Rightarrow> ob_chunk \<Rightarrow> (int \<times> cells) list \<Rightarrow> bool" where
  "placed m c os \<longleftrightarrow> (\<forall>(p, x)\<in>set os. m + 1 dvd p \<or> p = ck_limit c)"

lemma placed_simps [simp]:
  "placed m c []"
  "placed m c ((p, x) # os) \<longleftrightarrow> (m + 1 dvd p \<or> p = ck_limit c) \<and> placed m c os"
  by (auto simp: placed_def)

definition mask_ok :: "int \<Rightarrow> bool" where
  "mask_ok m \<longleftrightarrow> (\<exists>k\<le>4. m = 2 ^ k - 1)"

definition ob_parts :: "obstack \<Rightarrow> ob_chunk \<Rightarrow> ob_chunk list \<Rightarrow> (int \<times> cells) list \<Rightarrow> (int \<times> cells) list list \<Rightarrow> cells \<Rightarrow> bool" where
  "ob_parts h c cs os oss cur \<longleftrightarrow>
     ob_chunks h = c # cs \<and> list_all chunk_ok (c # cs) \<and> sorted_wrt apart (c # cs) \<and>
     list_all2 chunk_holds cs oss \<and> packed (ck_contents c) (ob_object_base h) os \<and>
     ob_next_free h = ob_object_base h + int (length cur) \<and> ob_next_free h \<le> ck_limit c \<and>
     ob_chunk_limit h = ck_limit c \<and> \<not> ob_alloc_failed h \<and> mask_ok (ob_alignment_mask h) \<and>
     (ob_maybe_empty_object h \<or> (\<forall>y\<in>set os. snd y \<noteq> [])) \<and>
     (ob_alignment_mask h + 1 dvd ob_object_base h \<or> ob_object_base h = ck_limit c) \<and>
     list_all2 (placed (ob_alignment_mask h)) (c # cs) (os # oss)"

definition ob_bytes :: "obstack \<Rightarrow> (int \<times> cells) list \<Rightarrow> cells \<Rightarrow> bool" where
  "ob_bytes h objs cur \<longleftrightarrow> agrees (ob_mem h) (ob_object_base h) cur \<and>
     (\<forall>(p, x)\<in>set objs. agrees (ob_mem h) p x)"

definition ob_holds :: "obstack \<Rightarrow> (int \<times> cells) list \<Rightarrow> cells \<Rightarrow> bool" where
  "ob_holds h objs cur \<longleftrightarrow>
     (\<exists>c cs os oss. ob_parts h c cs os oss cur \<and> objs = os @ concat oss) \<and> ob_bytes h objs cur"

lemma holdsI:
  "ob_parts h c cs os oss cur \<Longrightarrow> objs = os @ concat oss \<Longrightarrow> ob_bytes h objs cur \<Longrightarrow> ob_holds h objs cur"
  by (auto simp: ob_holds_def)

lemma holdsE:
  assumes "ob_holds h objs cur"
  obtains c cs os oss where "ob_parts h c cs os oss cur" "objs = os @ concat oss" "ob_bytes h objs cur"
  using assms by (auto simp: ob_holds_def)

lemma packed_lo: "packed lo hi os \<Longrightarrow> lo \<le> hi"
  by (induction os arbitrary: hi) (auto, fastforce)

lemma packed_below: "packed lo hi (os1 @ (p, x) # os2) \<Longrightarrow> packed lo p os2 \<and> p \<le> hi"
  by (induction os1 arbitrary: hi) (auto, fastforce)

lemma packed_in: "packed lo hi os \<Longrightarrow> (p, x) \<in> set os \<Longrightarrow> lo \<le> p \<and> p + int (length x) \<le> hi"
proof (induction os arbitrary: hi)
  case (Cons y os)
  then show ?case using packed_lo [of lo "fst y" os] by (cases y) fastforce
qed simp

lemma objects_in_chunks:
  assumes "ob_parts h c cs os oss cur" "(p, x) \<in> set (os @ concat oss)"
  shows "\<exists>d\<in>set (c # cs). ck_contents d \<le> p \<and> p + int (length x) \<le> ck_limit d \<and>
    (d = c \<longrightarrow> p + int (length x) \<le> ob_object_base h)"
proof -
  note parts = assms(1) [unfolded ob_parts_def]
  show ?thesis
  proof (cases "(p, x) \<in> set os")
    case True
    then show ?thesis using parts packed_in [of "ck_contents c" "ob_object_base h" os p x] by (intro bexI [of _ c]) auto
  next
    case False
    then obtain ys where ys: "ys \<in> set oss" "(p, x) \<in> set ys" using assms(2) by auto
    have "list_all2 chunk_holds cs oss" using parts by blast
    then obtain d where d: "d \<in> set cs" "chunk_holds d ys" using ys(1)
      by (metis in_set_conv_nth list_all2_conv_all_nth)
    have "list_all chunk_ok (c # cs)" "sorted_wrt apart (c # cs)" using parts by blast+
    then have "apart c d" "ck_addr c < ck_limit c" using d(1) by (auto simp: chunk_ok_def ck_contents_def)
    then have "d \<noteq> c" by (auto simp: apart_def)
    then show ?thesis using d ys(2) packed_in [of "ck_contents d" "ck_limit d" ys p x]
      by (intro bexI [of _ d]) (auto simp: chunk_holds_def)
  qed
qed

text \<open>A write at or above the growing object, or into memory of no chunk, leaves the objects alone.\<close>

lemma object_outside:
  assumes "ob_parts h c cs os oss cur" "(p, x) \<in> set (os @ concat oss)"
    "ob_object_base h \<le> a" "a + n \<le> ck_limit c"
  shows "p + int (length x) \<le> a \<or> a + n \<le> p"
proof -
  from objects_in_chunks [OF assms(1,2)] obtain d where d: "d \<in> set (c # cs)" "ck_contents d \<le> p"
    "p + int (length x) \<le> ck_limit d" "d = c \<longrightarrow> p + int (length x) \<le> ob_object_base h" by blast
  note parts = assms(1) [unfolded ob_parts_def]
  have "sorted_wrt apart (c # cs)" "packed (ck_contents c) (ob_object_base h) os" using parts by blast+
  then show ?thesis using d assms(3,4) packed_lo by (fastforce simp: apart_def ck_contents_def)
qed

lemma object_outside_fresh:
  assumes "ob_parts h c cs os oss cur" "(p, x) \<in> set (os @ concat oss)"
    "\<forall>(a, l)\<in>set (ob_live h). l \<le> b \<or> b + n \<le> a"
  shows "p + int (length x) \<le> b \<or> b + n \<le> p"
proof -
  from objects_in_chunks [OF assms(1,2)] obtain d where d: "d \<in> set (c # cs)" "ck_contents d \<le> p"
    "p + int (length x) \<le> ck_limit d" by blast
  then have "(ck_addr d, ck_limit d) \<in> set (ob_live h)" using assms(1) by (auto simp: ob_parts_def ob_live_def)
  with assms(3) d show ?thesis by (fastforce simp: ck_contents_def)
qed

section \<open>Room\<close>

lemma packed_mono: "packed lo hi os \<Longrightarrow> hi \<le> hi' \<Longrightarrow> packed lo hi' os"
  by (cases os) auto

lemma packed_nothing: "packed lo lo os \<Longrightarrow> \<forall>y\<in>set os. snd y \<noteq> [] \<Longrightarrow> os = []"
proof (cases os)
  case (Cons y ys)
  assume "packed lo lo os" "\<forall>y\<in>set os. snd y \<noteq> []"
  with packed_in [of lo lo os "fst y" "snd y"] Cons have "lo \<le> fst y" "fst y + int (length (snd y)) \<le> lo" by simp_all
  then have "int (length (snd y)) \<le> 0" by linarith
  then have "snd y = []" by simp
  with \<open>\<forall>y\<in>set os. snd y \<noteq> []\<close> Cons show ?thesis by simp
qed simp

lemma mask_ok_align: "mask_ok m \<Longrightarrow> 16 dvd a \<Longrightarrow> m + 1 dvd a" for a :: int
proof -
  assume "mask_ok m" "16 dvd a"
  then obtain k where "k \<le> 4" "m + 1 = 2 ^ k" by (auto simp: mask_ok_def)
  then have "m + 1 dvd 2 ^ 4" by (metis le_imp_power_dvd)
  with \<open>16 dvd a\<close> show ?thesis by (simp add: dvd_trans)
qed

lemma copy_object_ok:
  assumes "c \<in> set cs" "ck_contents c \<le> dst" "dst + int n \<le> ck_limit c"
    "dst + int n \<le> ob_object_base h \<or> ob_object_base h + int n \<le> dst"
  shows "copy_object h cs dst n = Inr (copied (ob_mem h) dst (ob_object_base h) 0 n)"
proof -
  define units where "units = (if ob_alignment_mask h + 1 \<ge> DEFAULT_ALIGNMENT then n div 4 else 0)"
  have u: "units * 4 \<le> n" by (simp add: units_def)
  have "copy_units cs (ob_mem h) dst (ob_object_base h) units = Inr (copied (ob_mem h) dst (ob_object_base h) 0 (4 * units))"
    using assms u by (intro copy_units_ok [of c]) auto
  moreover have "copy_rest cs mem dst (ob_object_base h) (units * 4) (n - units * 4) =
      Inr (copied mem dst (ob_object_base h) (units * 4) n)" for mem
    using assms u copy_rest_ok [of c cs dst "units * 4" "n - units * 4" "ob_object_base h" mem] by simp
  ultimately show ?thesis
    using assms(4) u copied_copied(1) [of dst n "ob_object_base h" 0 "units * 4" "ob_mem h"]
    unfolding copy_object_def Let_def COPYING_UNIT_def units_def [symmetric] by (simp add: mult.commute)
qed

lemma new_size_ge: "ob_object_base h \<le> ob_next_free h \<Longrightarrow> ob_next_free h - ob_object_base h + len + 100 \<le> ob_new_size h len"
proof -
  assume "ob_object_base h \<le> ob_next_free h"
  then have "0 \<le> drop_bit 3 (ob_next_free h - ob_object_base h)" by simp
  then show ?thesis unfolding ob_new_size_def Let_def by (split if_split) linarith
qed

lemma newchunk_parts:
  fixes mem :: "int \<Rightarrow> 8 word"
  assumes parts: "ob_parts h c cs os oss cur" and fresh: "\<forall>(b, l)\<in>set (ob_live h). l \<le> a \<or> a + sz \<le> b"
    and a: "0 < a" "16 dvd a" and sz: "int (length cur) + 100 \<le> sz" and new: "new = \<lparr>ck_addr = a, ck_limit = a + sz\<rparr>"
  defines "keep \<equiv> \<not> (ob_object_base h = ck_contents c \<and> \<not> ob_maybe_empty_object h)"
  defines "h' \<equiv> h\<lparr>ob_alloc_failed := False, ob_chunk_limit := a + sz, ob_mem := mem,
      ob_chunks := (if keep then new # c # cs else new # cs), ob_object_base := a + 16,
      ob_next_free := a + 16 + int (length cur), ob_maybe_empty_object := False\<rparr>"
  shows "ob_parts h' new (if keep then c # cs else cs) [] (if keep then os # oss else oss) cur"
proof -
  note P = parts [unfolded ob_parts_def]
  have sel: "ck_contents new = a + 16" "ck_limit new = a + sz" "ck_addr new = a" by (simp_all add: new ck_contents_def)
  have "apart new d" if "d \<in> set (c # cs)" for d
  proof -
    from that have "(ck_addr d, ck_limit d) \<in> set (ob_live h)" using P by (auto simp: ob_live_def)
    with fresh show ?thesis by (fastforce simp: apart_def sel)
  qed
  moreover have "chunk_ok new" using a sz by (simp add: chunk_ok_def sel)
  moreover have "chunk_holds c os" using P packed_mono unfolding chunk_holds_def by fastforce
  moreover have "ob_alignment_mask h + 1 dvd a + 16" using P a by (intro mask_ok_align) auto
  ultimately show ?thesis using P sz unfolding ob_parts_def by (simp add: h'_def sel)
qed

lemma newchunk_bytes:
  assumes parts: "ob_parts h c cs os oss cur" and bytes: "ob_bytes h (os @ concat oss) cur"
    and fresh: "\<forall>(b, l)\<in>set (ob_live h). l \<le> a \<or> a + sz \<le> b" and sz: "int (length cur) + 100 \<le> sz"
    and h': "ob_mem h' = copied (ob_mem h) (a + 16) (ob_object_base h) 0 (length cur)" "ob_object_base h' = a + 16"
  shows "ob_bytes h' (os @ concat oss) cur"
proof -
  have "agrees (ob_mem h') (a + 16) cur" unfolding h'
    by (rule agrees_cong [of "ob_mem h" "ob_object_base h"]) (use bytes in \<open>auto simp: ob_bytes_def copied_def\<close>)
  moreover have "agrees (ob_mem h') p x" if x: "(p, x) \<in> set (os @ concat oss)" for p x
  proof -
    have "p + int (length x) \<le> a \<or> a + sz \<le> p" using object_outside_fresh [OF parts _ fresh, of p x] x by simp
    moreover have "agrees (ob_mem h) p x" using bytes x by (auto simp: ob_bytes_def)
    ultimately show ?thesis unfolding h' using sz
      by (auto intro!: agrees_cong [of "ob_mem h" p x] simp: copied_def)
  qed
  ultimately show ?thesis using bytes by (auto simp: ob_bytes_def h'(2))
qed

lemma newchunk_ok:
  assumes cf: "chunk_fun_ok cf" and h: "ob_holds h objs cur" and len: "0 \<le> len"
  shows "\<exists>h'. ob_newchunk cf h len = Inr h' \<and> ob_holds h' objs cur \<and> ob_next_free h' + len \<le> ob_chunk_limit h'"
proof -
  from h obtain c cs os oss where parts: "ob_parts h c cs os oss cur" and objs: "objs = os @ concat oss"
    and bytes: "ob_bytes h objs cur" by (rule holdsE)
  note P = parts [unfolded ob_parts_def]
  define n where "n = length cur"
  define sz where "sz = ob_new_size h len"
  define a where "a = cf (ob_live h) sz"
  have obj: "ob_next_free h = ob_object_base h + int n" using P by (simp add: n_def)
  have sz: "int n + len + 100 \<le> sz" using new_size_ge [of h len] obj by (simp add: sz_def)
  have a: "0 < a" "16 dvd a" and fresh: "\<forall>(b, l)\<in>set (ob_live h). l \<le> a \<or> a + sz \<le> b"
    using cf sz len unfolding chunk_fun_ok_def a_def by auto
  define new where "new = \<lparr>ck_addr = a, ck_limit = a + sz\<rparr>"
  have new: "ck_contents new = a + 16" "ck_limit new = a + sz" "ck_addr new = a" by (simp_all add: new_def ck_contents_def)
  define mem where "mem = copied (ob_mem h) (a + 16) (ob_object_base h) 0 n"
  have "(ck_addr c, ck_limit c) \<in> set (ob_live h)" using P by (auto simp: ob_live_def)
  with fresh have "ck_limit c \<le> a \<or> a + sz \<le> ck_addr c" by fast
  moreover have "ck_addr c + 16 \<le> ob_object_base h" using P packed_lo ck_contents_def by metis
  ultimately have "a + 16 + int n \<le> ob_object_base h \<or> ob_object_base h + int n \<le> a + 16"
    using P sz len by (auto simp: n_def)
  then have copy: "copy_object h (new # c # cs) (a + 16) n = Inr mem"
    unfolding mem_def using sz len by (intro copy_object_ok [of new]) (auto simp: new)
  define keep where "keep \<longleftrightarrow> \<not> (ob_object_base h = ck_contents c \<and> \<not> ob_maybe_empty_object h)"
  define h' where "h' = h\<lparr>ob_alloc_failed := False, ob_chunk_limit := a + sz, ob_mem := mem,
      ob_chunks := (if keep then new # c # cs else new # cs), ob_object_base := a + 16,
      ob_next_free := a + 16 + int n, ob_maybe_empty_object := False\<rparr>"
  have "ob_chunks h = c # cs" using P by blast
  then have "ob_newchunk cf h len = Inr h'"
    using copy a unfolding ob_newchunk_def h'_def
    by (simp add: obj Let_def sz_def [symmetric] a_def [symmetric] new_def [symmetric] new keep_def)
  moreover have "ob_parts h' new (if keep then c # cs else cs) [] (if keep then os # oss else oss) cur"
    using newchunk_parts [OF parts fresh a _ new_def, of mem] sz len unfolding h'_def keep_def n_def by simp
  moreover have "objs = [] @ concat (if keep then os # oss else oss)"
    using objs P packed_nothing [of "ck_contents c" os] by (auto simp: keep_def)
  moreover have "ob_bytes h' objs cur"
    unfolding objs by (rule newchunk_bytes [OF parts bytes [unfolded objs] fresh])
      (use sz len in \<open>simp_all add: h'_def mem_def n_def\<close>)
  moreover have "ob_next_free h' + len \<le> ob_chunk_limit h'" using sz by (simp add: h'_def)
  ultimately show ?thesis unfolding ob_holds_def by blast
qed

lemma holds_not_failed: "ob_holds h objs cur \<Longrightarrow> \<not> ob_alloc_failed h"
  by (auto simp: ob_holds_def ob_parts_def)

lemma reserve_ok:
  assumes "chunk_fun_ok cf" "ob_holds h objs cur" "0 \<le> len" "\<not> full \<Longrightarrow> ob_next_free h + len \<le> ob_chunk_limit h"
  shows "\<exists>h'. (if full then ob_newchunk cf h len else Inr h) = Inr h' \<and> ob_holds h' objs cur \<and>
    ob_next_free h' + len \<le> ob_chunk_limit h'"
  using newchunk_ok [OF assms(1-3)] assms(2,4) by (cases full) auto

lemma extend_ok:
  assumes "ob_holds h objs cur" "ob_next_free h + int (length bs) \<le> ob_chunk_limit h"
  shows "\<exists>mem. ob_poke (ob_chunks h) (ob_mem h) (ob_next_free h) bs = Inr mem \<and>
    ob_holds (h\<lparr>ob_mem := mem, ob_next_free := ob_next_free h + int (length bs)\<rparr>) objs (cur @ map Some bs)"
proof -
  from assms(1) obtain c cs os oss where parts: "ob_parts h c cs os oss cur" and objs: "objs = os @ concat oss"
    and bytes: "ob_bytes h objs cur" by (rule holdsE)
  note P = parts [unfolded ob_parts_def]
  define mem where "mem = ob_store (ob_mem h) (ob_next_free h) bs"
  have lo: "ck_contents c \<le> ob_object_base h" using P packed_lo by blast
  then have poke: "ob_poke (ob_chunks h) (ob_mem h) (ob_next_free h) bs = Inr mem"
    using P assms(2) unfolding mem_def by (intro poke_in [of c]) auto
  have "ob_parts (h\<lparr>ob_mem := mem, ob_next_free := ob_next_free h + int (length bs)\<rparr>) c cs os oss (cur @ map Some bs)"
    using P assms(2) by (simp add: ob_parts_def)
  moreover have "agrees mem p x" if "(p, x) \<in> set objs" for p x
  proof -
    have "ob_object_base h \<le> ob_next_free h" "ob_next_free h + int (length bs) \<le> ck_limit c"
      using P assms(2) by auto
    from object_outside [OF parts _ this] that objs
    have "p + int (length x) \<le> ob_next_free h \<or> ob_next_free h + int (length bs) \<le> p" by simp
    moreover have "agrees (ob_mem h) p x" using bytes that by (auto simp: ob_bytes_def)
    ultimately show ?thesis unfolding mem_def by (intro agrees_store_other)
  qed
  moreover have "agrees mem (ob_object_base h) (cur @ map Some bs)"
  proof -
    have nf: "ob_next_free h = ob_object_base h + int (length cur)" using P by blast
    have "agrees (ob_mem h) (ob_object_base h) cur" using bytes by (simp add: ob_bytes_def)
    then have "agrees mem (ob_object_base h) cur" unfolding mem_def by (rule agrees_store_other) (simp add: nf)
    then show ?thesis using agrees_store_same [of "ob_mem h" "ob_next_free h" bs] by (simp add: agrees_append nf mem_def)
  qed
  ultimately have "ob_holds (h\<lparr>ob_mem := mem, ob_next_free := ob_next_free h + int (length bs)\<rparr>) objs (cur @ map Some bs)"
    using bytes by (intro holdsI [OF _ objs]) (auto simp: ob_bytes_def)
  with poke show ?thesis by blast
qed

lemma blank_extend:
  assumes "ob_holds h objs cur" "ob_next_free h + int n \<le> ob_chunk_limit h"
  shows "ob_holds (h\<lparr>ob_next_free := ob_next_free h + int n\<rparr>) objs (cur @ replicate n None)"
proof -
  from assms(1) obtain c cs os oss where parts: "ob_parts h c cs os oss cur" and objs: "objs = os @ concat oss"
    and bytes: "ob_bytes h objs cur" by (rule holdsE)
  then have "ob_parts (h\<lparr>ob_next_free := ob_next_free h + int n\<rparr>) c cs os oss (cur @ replicate n None)"
    using assms(2) by (simp add: ob_parts_def)
  with objs bytes show ?thesis unfolding ob_holds_def by (auto simp: ob_bytes_def agrees_append)
qed

section \<open>The operations\<close>

lemma grow_ok:
  assumes "chunk_fun_ok cf" "ob_holds h objs cur"
  shows "\<exists>h'. obstack_grow cf h bs = Inr h' \<and> ob_holds h' objs (cur @ map Some bs)"
proof -
  from reserve_ok [OF assms, of "int (length bs)" "ob_next_free h + int (length bs) > ob_chunk_limit h"]
  obtain h1 where h1: "(if ob_next_free h + int (length bs) > ob_chunk_limit h then ob_newchunk cf h (int (length bs)) else Inr h) = Inr h1"
    "ob_holds h1 objs cur" "ob_next_free h1 + int (length bs) \<le> ob_chunk_limit h1" by auto
  from extend_ok [OF h1(2,3)] show ?thesis
    unfolding obstack_grow_def Let_def h1(1) using holds_not_failed [OF h1(2)] by auto
qed

lemma grow_1_ok: "obstack_1grow cf h b = obstack_grow cf h [b]"
  by (simp add: obstack_1grow_def obstack_grow_def Let_def)

lemma le_bytes_length [simp]: "length (le_bytes n w) = n"
  by (simp add: le_bytes_def)

lemma grow_word_ok:
  "obstack_ptr_grow cf h p = obstack_grow cf h (le_bytes 8 p)"
  "obstack_int_grow cf h i = obstack_grow cf h (le_bytes 4 i)"
  by (simp_all add: obstack_ptr_grow_def obstack_int_grow_def obstack_grow_def Let_def)

text \<open>With the room that \<open>obstack_room\<close> tells the fast functions are the others.\<close>

lemma grow_fast_ok:
  assumes "\<not> ob_alloc_failed h"
  shows "1 \<le> obstack_room h \<Longrightarrow> obstack_1grow_fast h b = obstack_1grow cf h b"
    and "8 \<le> obstack_room h \<Longrightarrow> obstack_ptr_grow_fast h p = obstack_ptr_grow cf h p"
    and "4 \<le> obstack_room h \<Longrightarrow> obstack_int_grow_fast h i = obstack_int_grow cf h i"
    and "n \<le> obstack_room h \<Longrightarrow> Inr (obstack_blank_fast h n) = obstack_blank cf h n"
  using assms by (simp_all add: obstack_1grow_fast_def obstack_ptr_grow_fast_def obstack_int_grow_fast_def
      obstack_1grow_def obstack_ptr_grow_def obstack_int_grow_def obstack_blank_fast_def obstack_blank_def
      ob_put_fast_def obstack_room_def)

lemma grow0_ok:
  assumes "chunk_fun_ok cf" "ob_holds h objs cur"
  shows "\<exists>h'. obstack_grow0 cf h bs = Inr h' \<and> ob_holds h' objs (cur @ map Some (bs @ [0]))"
proof -
  let ?len = "int (length bs) + 1"
  from reserve_ok [OF assms, of ?len "ob_next_free h + int (length bs) + 1 > ob_chunk_limit h"]
  obtain h1 where h1: "(if ob_next_free h + int (length bs) + 1 > ob_chunk_limit h then ob_newchunk cf h ?len else Inr h) = Inr h1"
    "ob_holds h1 objs cur" "ob_next_free h1 + ?len \<le> ob_chunk_limit h1" by auto
  have "ob_next_free h1 + int (length bs) \<le> ob_chunk_limit h1" using h1(3) by simp
  from extend_ok [OF h1(2) this] obtain mem where mem: "ob_poke (ob_chunks h1) (ob_mem h1) (ob_next_free h1) bs = Inr mem"
    "ob_holds (h1\<lparr>ob_mem := mem, ob_next_free := ob_next_free h1 + int (length bs)\<rparr>) objs (cur @ map Some bs)" by blast
  from extend_ok [OF mem(2), of "[0]"] h1(3) show ?thesis
    unfolding obstack_grow0_def Let_def h1(1) using holds_not_failed [OF h1(2)] mem(1) by (auto simp: add.assoc)
qed

lemma blank_ok:
  assumes "chunk_fun_ok cf" "ob_holds h objs cur"
  shows "\<exists>h'. obstack_blank cf h (int n) = Inr h' \<and> ob_holds h' objs (cur @ replicate n None)"
proof -
  from reserve_ok [OF assms, of "int n" "ob_chunk_limit h - ob_next_free h < int n"]
  obtain h1 where h1: "(if ob_chunk_limit h - ob_next_free h < int n then ob_newchunk cf h (int n) else Inr h) = Inr h1"
    "ob_holds h1 objs cur" "ob_next_free h1 + int n \<le> ob_chunk_limit h1" by auto
  from blank_extend [OF h1(2,3)] show ?thesis
    unfolding obstack_blank_def h1(1) using holds_not_failed [OF h1(2)] by auto
qed

lemma align_up:
  assumes "mask_ok m"
  shows "x \<le> (x + m) AND NOT m \<and> m + 1 dvd (x + m) AND NOT m"
proof -
  from assms obtain k where k: "m = 2 ^ k - 1" by (auto simp: mask_ok_def)
  have "(x + m) - ((x + m) AND m) = (x + m) AND NOT ((x + m) AND m)"
    by (rule disjunctive_diff) (simp add: bit_simps)
  also have "\<dots> = (x + m) AND NOT m" by (rule bit_eqI) (auto simp: bit_simps)
  finally have "(x + m) AND NOT m = x + m - take_bit k (x + m)"
    by (simp add: k mask_eq_exp_minus_1 [symmetric] take_bit_eq_mask)
  then have eq: "(x + m) AND NOT m = (x + m) div 2 ^ k * 2 ^ k"
    by (simp add: take_bit_eq_mod minus_mod_eq_div_mult)
  moreover have "x + m - (x + m) mod 2 ^ k = (x + m) div 2 ^ k * 2 ^ k" by (simp add: minus_mod_eq_div_mult)
  moreover have "(x + m) mod 2 ^ k < 2 ^ k" by simp
  ultimately have "x \<le> (x + m) AND NOT m" using k by linarith
  then show ?thesis using eq k by simp
qed

lemma finish_ok:
  assumes "ob_holds h objs cur"
  shows "\<exists>h' p. obstack_finish h = (h', p) \<and> ob_holds h' ((p, cur) # objs) []"
proof -
  from assms obtain c cs os oss where parts: "ob_parts h c cs os oss cur" and objs: "objs = os @ concat oss"
    and bytes: "ob_bytes h objs cur" by (rule holdsE)
  note P = parts [unfolded ob_parts_def]
  define nf where "nf = (let n = (ob_next_free h + ob_alignment_mask h) AND NOT (ob_alignment_mask h)
     in if n > ob_chunk_limit h then ob_chunk_limit h else n)"
  have nx: "ob_next_free h \<le> nf" "nf \<le> ck_limit c" "ob_alignment_mask h + 1 dvd nf \<or> nf = ck_limit c"
    using align_up [of "ob_alignment_mask h" "ob_next_free h"] P by (auto simp: nf_def Let_def)
  define h' where "h' = h\<lparr>ob_maybe_empty_object := (ob_next_free h = ob_object_base h \<or> ob_maybe_empty_object h),
    ob_next_free := nf, ob_object_base := nf\<rparr>"
  have "obstack_finish h = (h', ob_object_base h)"
    using P by (simp add: obstack_finish_def h'_def nf_def Let_def)
  moreover have "ob_parts h' c cs ((ob_object_base h, cur) # os) oss []"
    using P nx by (auto simp: ob_parts_def h'_def)
  moreover have "ob_alignment_mask h + 1 dvd ob_object_base h" if "cur \<noteq> []"
    using P that by (cases cur) auto
  moreover from this bytes have "ob_bytes h' ((ob_object_base h, cur) # objs) []" by (auto simp: ob_bytes_def h'_def)
  ultimately show ?thesis using holdsI [of h' c cs "(ob_object_base h, cur) # os" oss "[]"] objs by auto
qed

text \<open>Freeing goes back to the chunk the object lies in.\<close>

lemma free_chunks_until:
  assumes "sorted_wrt apart (ds @ d # cs)" "list_all chunk_ok (ds @ d # cs)" "ck_contents d \<le> p" "p \<le> ck_limit d"
  shows "free_chunks p (ds @ d # cs) = (d # cs, ds \<noteq> [])"
  using assms
proof (induction ds)
  case Nil
  then show ?case by (simp add: ck_contents_def)
next
  case (Cons e ds)
  then have "apart e d" "ck_addr e < ck_limit e" by (auto simp: chunk_ok_def ck_contents_def)
  then have "ck_addr e \<ge> p \<or> ck_limit e < p" using Cons.prems(3,4) by (auto simp: apart_def ck_contents_def)
  with Cons show ?case by simp
qed

lemma append_split_left:
  assumes "ys @ bs = zs @ z # cs" "length zs < length ys"
  shows "\<exists>us. ys = zs @ z # us \<and> cs = us @ bs"
proof -
  have "take (length zs) ys = zs" using arg_cong [OF assms(1), of "take (length zs)"] assms(2) by simp
  moreover have "drop (length zs) ys @ bs = z # cs"
    using arg_cong [OF assms(1), of "drop (length zs)"] assms(2) by simp
  moreover from this assms(2) obtain us where "drop (length zs) ys = z # us"
    by (cases "drop (length zs) ys") auto
  ultimately show ?thesis by (metis append_Cons append_take_drop_id list.inject)
qed

lemma append_split_right:
  assumes "ys @ bs = zs @ cs" "length ys \<le> length zs"
  shows "\<exists>us. bs = us @ cs"
  using arg_cong [OF assms(1), of "drop (length ys)"] assms(2) by auto

text \<open>Where an object lies: \<open>t\<close> is the top of the objects of chunk \<open>d\<close>.\<close>

definition part_holds :: "ob_chunk \<times> int \<Rightarrow> (int \<times> cells) list \<Rightarrow> bool" where
  "part_holds dt os \<longleftrightarrow> packed (ck_contents (fst dt)) (snd dt) os"

lemma located:
  assumes "list_all2 part_holds dts oss" "concat oss = zs @ (p, x) # os2"
  shows "\<exists>n ys zs. n < length dts \<and> oss ! n = zs @ (p, x) # ys \<and> os2 = ys @ concat (drop (Suc n) oss) \<and>
    packed (ck_contents (fst (dts ! n))) p ys \<and> p \<le> snd (dts ! n)"
  using assms
proof (induction dts oss arbitrary: zs rule: list_all2_induct)
  case (Cons d dts ys yss)
  show ?case
  proof (cases "length zs < length ys")
    case True
    have "ys @ concat yss = zs @ (p, x) # os2" using Cons.prems by simp
    from append_split_left [OF this True] obtain us where us: "ys = zs @ (p, x) # us" "os2 = us @ concat yss" by blast
    have "packed (ck_contents (fst d)) (snd d) ys" using Cons.hyps(1) by (simp add: part_holds_def)
    from packed_below [OF this [unfolded us(1)]] show ?thesis using us by (intro exI [of _ 0] exI [of _ us] exI [of _ zs]) simp
  next
    case False
    have "ys @ concat yss = zs @ (p, x) # os2" using Cons.prems by simp
    from append_split_right [OF this] False obtain us where "concat yss = us @ (p, x) # os2" by auto
    from Cons.IH [OF this] obtain n us' zs' where "n < length dts" "yss ! n = zs' @ (p, x) # us'"
      "os2 = us' @ concat (drop (Suc n) yss)" "packed (ck_contents (fst (dts ! n))) p us'" "p \<le> snd (dts ! n)"
      by blast
    then show ?thesis by (intro exI [of _ "Suc n"] exI [of _ us'] exI [of _ zs']) simp
  qed
qed simp

lemma parts_located:
  assumes "ob_parts h c cs os oss cur"
  shows "list_all2 part_holds ((c, ob_object_base h) # map (\<lambda>d. (d, ck_limit d)) cs) (os # oss)"
proof -
  have "list_all2 chunk_holds cs oss" "packed (ck_contents c) (ob_object_base h) os"
    using assms by (simp_all add: ob_parts_def)
  moreover have "(\<lambda>d. part_holds (d, ck_limit d)) = chunk_holds" by (simp add: fun_eq_iff part_holds_def chunk_holds_def)
  ultimately show ?thesis by (simp add: list_all2_map1) (simp add: part_holds_def)
qed

lemma free_head:
  assumes "ob_chunks h = c # cs" "ob_chunk_limit h = ck_limit c" "sorted_wrt apart (c # cs)" "list_all chunk_ok (c # cs)"
    "n < length (c # cs)" "ck_contents ((c # cs) ! n) \<le> p" "p \<le> ck_limit ((c # cs) ! n)"
  shows "obstack_free h p = Inr (h\<lparr>ob_chunks := drop n (c # cs), ob_object_base := p, ob_next_free := p,
    ob_chunk_limit := ck_limit ((c # cs) ! n), ob_maybe_empty_object := (n \<noteq> 0 \<or> ob_maybe_empty_object h)\<rparr>)"
proof -
  let ?d = "(c # cs) ! n"
  have split: "c # cs = take n (c # cs) @ ?d # drop (Suc n) (c # cs)" using assms(5) by (rule id_take_nth_drop)
  have rest: "drop n (c # cs) = ?d # drop (Suc n) (c # cs)" by (rule Cons_nth_drop_Suc [OF assms(5), symmetric])
  have "free_chunks p (take n (c # cs) @ ?d # drop (Suc n) (c # cs)) = (?d # drop (Suc n) (c # cs), take n (c # cs) \<noteq> [])"
    using assms(3-7) split [symmetric] by (intro free_chunks_until) simp_all
  then have "free_chunks p (c # cs) = (?d # drop (Suc n) (c # cs), n \<noteq> 0)"
    unfolding split [symmetric] by simp
  moreover have "n = 0" if "ck_addr c < p" "p < ck_limit c"
  proof (rule ccontr)
    assume "n \<noteq> 0"
    then have "?d \<in> set cs" using assms(5) by (cases n) auto
    then have "apart c ?d" using assms(3) by simp
    then show False using that assms(6,7) by (simp add: apart_def ck_contents_def)
  qed
  ultimately show ?thesis using assms(1,2,6) unfolding rest
    by (auto simp: obstack_free_def ob_free_def Let_def simp del: free_chunks.simps)
qed

lemma free_ok:
  assumes "ob_holds h (os1 @ (p, x) # os2) cur"
  shows "\<exists>h'. obstack_free h p = Inr h' \<and> ob_holds h' os2 []"
proof -
  from assms obtain c cs os oss where parts: "ob_parts h c cs os oss cur"
    and objs: "os1 @ (p, x) # os2 = os @ concat oss" and bytes: "ob_bytes h (os1 @ (p, x) # os2) cur" by (rule holdsE)
  note P = parts [unfolded ob_parts_def]
  let ?tops = "(c, ob_object_base h) # map (\<lambda>d. (d, ck_limit d)) cs"
  from located [OF parts_located [OF parts], of os1 p x os2] objs obtain n ys zs
    where n: "n < length ?tops" "(os # oss) ! n = zs @ (p, x) # ys" "os2 = ys @ concat (drop (Suc n) (os # oss))"
      "packed (ck_contents (fst (?tops ! n))) p ys" "p \<le> snd (?tops ! n)" by auto
  let ?d = "(c # cs) ! n"
  have n': "n < length (c # cs)" using n(1) by simp
  have d: "fst (?tops ! n) = ?d" "snd (?tops ! n) \<le> ck_limit ?d" using P n' by (cases n; simp)+
  have lo: "ck_contents ?d \<le> p" using packed_lo n(4) d(1) by metis
  define h' where "h' = h\<lparr>ob_chunks := drop n (c # cs), ob_object_base := p, ob_next_free := p,
    ob_chunk_limit := ck_limit ?d, ob_maybe_empty_object := (n \<noteq> 0 \<or> ob_maybe_empty_object h)\<rparr>"
  have "obstack_free h p = Inr h'" unfolding h'_def
    using P n' lo n(5) d(2) by (intro free_head) auto
  moreover have "ob_holds h' os2 []"
  proof (rule holdsI)
    have drop: "drop n (c # cs) = ?d # drop (Suc n) (c # cs)" by (rule Cons_nth_drop_Suc [OF n', symmetric])
    have "list_all2 (placed (ob_alignment_mask h)) (c # cs) (os # oss)" using P by blast
    then have "placed (ob_alignment_mask h) ?d ((os # oss) ! n)"
      and placed: "list_all2 (placed (ob_alignment_mask h)) (drop (Suc n) (c # cs)) (drop (Suc n) (os # oss))"
      using n' list_all2_nthD list_all2_dropI by blast+
    then have "placed (ob_alignment_mask h) ?d ys" "ob_alignment_mask h + 1 dvd p \<or> p = ck_limit ?d"
      by (auto simp: placed_def n(2))
    moreover have "ob_maybe_empty_object h' \<or> (\<forall>y\<in>set ys. snd y \<noteq> [])" using P n(2) by (cases n) (auto simp: h'_def)
    moreover have "list_all chunk_ok (drop n (c # cs))"
      using P set_drop_subset [of n "c # cs"] unfolding list_all_iff by blast
    moreover have "sorted_wrt apart (drop n (c # cs))" using P sorted_wrt_drop by blast
    moreover have "list_all2 chunk_holds (drop (Suc n) (c # cs)) (drop (Suc n) (os # oss))"
      using P by (simp add: list_all2_dropI)
    ultimately show "ob_parts h' ?d (drop (Suc n) (c # cs)) ys (drop (Suc n) (os # oss)) []"
      using P n(4,5) d placed unfolding ob_parts_def drop by (simp add: h'_def del: drop_Suc_Cons) (simp add: drop)
    show "ob_bytes h' os2 []" using bytes by (auto simp: ob_bytes_def h'_def)
  qed (rule n(3))
  ultimately show ?thesis by blast
qed

section \<open>Objects do not overlap\<close>

definition clear_of :: "int \<times> cells \<Rightarrow> int \<times> cells \<Rightarrow> bool" where
  "clear_of a b \<longleftrightarrow> fst b + int (length (snd b)) \<le> fst a \<or> fst a + int (length (snd a)) \<le> fst b"

lemma packed_clear: "packed lo hi os \<Longrightarrow> sorted_wrt clear_of os"
proof (induction os arbitrary: hi)
  case (Cons y os)
  then show ?case using packed_in [of lo "fst y" os] by (cases y) (auto simp: clear_of_def)
qed simp

lemma parts_clear:
  assumes "list_all2 part_holds dts oss" "sorted_wrt apart (map fst dts)" "\<forall>dt\<in>set dts. snd dt \<le> ck_limit (fst dt)"
  shows "sorted_wrt clear_of (concat oss)"
  using assms
proof (induction dts oss rule: list_all2_induct)
  case (Cons d dts ys yss)
  have "clear_of y z" if y: "y \<in> set ys" and z: "z \<in> set (concat yss)" for y z
  proof -
    from z obtain zs where zs: "zs \<in> set yss" "z \<in> set zs" by auto
    with Cons.hyps(2) obtain e where e: "e \<in> set dts" "part_holds e zs"
      by (metis in_set_conv_nth list_all2_conv_all_nth)
    have "ck_contents (fst d) \<le> fst y \<and> fst y + int (length (snd y)) \<le> snd d"
      using packed_in [of _ _ ys "fst y" "snd y"] Cons.hyps(1) y by (simp add: part_holds_def)
    moreover have "ck_contents (fst e) \<le> fst z \<and> fst z + int (length (snd z)) \<le> snd e"
      using packed_in [of _ _ zs "fst z" "snd z"] e zs by (simp add: part_holds_def)
    moreover have "apart (fst d) (fst e)" "snd d \<le> ck_limit (fst d)" "snd e \<le> ck_limit (fst e)"
      using Cons.prems e by auto
    ultimately show ?thesis by (auto simp: clear_of_def apart_def ck_contents_def)
  qed
  moreover have "sorted_wrt clear_of ys" using Cons.hyps(1) packed_clear by (auto simp: part_holds_def)
  ultimately show ?case using Cons by (simp add: sorted_wrt_append)
qed simp

lemma holds_clear:
  assumes "ob_holds h objs cur"
  shows "sorted_wrt clear_of objs"
proof -
  from assms obtain c cs os oss where parts: "ob_parts h c cs os oss cur" and objs: "objs = os @ concat oss"
    by (rule holdsE)
  have "sorted_wrt apart (c # cs)" "ob_object_base h \<le> ck_limit c" using parts by (auto simp: ob_parts_def)
  then have "sorted_wrt clear_of (concat (os # oss))"
    by (intro parts_clear [OF parts_located [OF parts]]) (auto simp: comp_def)
  with objs show ?thesis by simp
qed

lemma holds_object:
  assumes "ob_holds h objs cur" "(p, x) \<in> set objs" "x \<noteq> []"
  shows "0 < p \<and> ob_alignment_mask h + 1 dvd p \<and> agrees (ob_mem h) p x"
proof -
  from assms(1) obtain c cs os oss where parts: "ob_parts h c cs os oss cur" and objs: "objs = os @ concat oss"
    and bytes: "ob_bytes h objs cur" by (rule holdsE)
  have ok: "list_all chunk_ok (c # cs)" using parts by (simp add: ob_parts_def)
  from objects_in_chunks [OF parts] assms(2) objs obtain d where "d \<in> set (c # cs)" "ck_contents d \<le> p" by blast
  then have "0 < p" using ok by (auto simp: list_all_iff chunk_ok_def ck_contents_def)
  moreover have "ob_alignment_mask h + 1 dvd p"
  proof -
    let ?tops = "(c, ob_object_base h) # map (\<lambda>d. (d, ck_limit d)) cs"
    from assms(2) objs obtain os1 os2 where "os @ concat oss = os1 @ (p, x) # os2" by (metis split_list)
    with located [OF parts_located [OF parts], of os1 p x os2] obtain n ys zs
      where n: "n < length ?tops" "(os # oss) ! n = zs @ (p, x) # ys" by auto
    have "placed (ob_alignment_mask h) ((c # cs) ! n) ((os # oss) ! n)" "part_holds (?tops ! n) ((os # oss) ! n)"
      using n(1) parts parts_located [OF parts] by (auto simp: ob_parts_def list_all2_conv_all_nth simp del: nth_Cons_Suc)
    then have "ob_alignment_mask h + 1 dvd p \<or> p = ck_limit ((c # cs) ! n)"
      "p + int (length x) \<le> snd (?tops ! n)"
      using packed_in [of _ _ "(os # oss) ! n" p x] by (auto simp: placed_def part_holds_def n(2))
    moreover have "snd (?tops ! n) \<le> ck_limit ((c # cs) ! n)" using parts n(1) by (cases n) (auto simp: ob_parts_def)
    ultimately show ?thesis using assms(3) by (cases x) auto
  qed
  moreover have "agrees (ob_mem h) p x" using bytes assms(2) by (auto simp: ob_bytes_def)
  ultimately show ?thesis by blast
qed

section \<open>Sequences of calls\<close>

text \<open>The client keeps the pointers it got, the youngest first; it frees or reads one by its index.\<close>

datatype ob_call = Ob_Grow bytes | Ob_Grow0 bytes | Ob_1Grow "8 word" | Ob_Ptr_Grow ptr | Ob_Int_Grow "32 word" | Ob_Blank nat | Ob_Finish
  | Ob_Alloc nat | Ob_Copy bytes | Ob_Copy0 bytes | Ob_Free nat | Ob_Read nat nat

fun ob_step :: "chunk_fun \<Rightarrow> obstack \<times> int list \<Rightarrow> ob_call \<Rightarrow> ((obstack \<times> int list) \<times> bytes option) result" where
  "ob_step cf (h, ps) (Ob_Grow bs) = rbind (obstack_grow cf h bs) (\<lambda>h. Inr ((h, ps), None))"
| "ob_step cf (h, ps) (Ob_Grow0 bs) = rbind (obstack_grow0 cf h bs) (\<lambda>h. Inr ((h, ps), None))"
| "ob_step cf (h, ps) (Ob_1Grow b) = rbind (obstack_1grow cf h b) (\<lambda>h. Inr ((h, ps), None))"
| "ob_step cf (h, ps) (Ob_Ptr_Grow p) = rbind (obstack_ptr_grow cf h p) (\<lambda>h. Inr ((h, ps), None))"
| "ob_step cf (h, ps) (Ob_Int_Grow i) = rbind (obstack_int_grow cf h i) (\<lambda>h. Inr ((h, ps), None))"
| "ob_step cf (h, ps) (Ob_Blank n) = rbind (obstack_blank cf h (int n)) (\<lambda>h. Inr ((h, ps), None))"
| "ob_step cf (h, ps) Ob_Finish = (case obstack_finish h of (h, p) \<Rightarrow> Inr ((h, p # ps), None))"
| "ob_step cf (h, ps) (Ob_Alloc n) = rbind (obstack_alloc cf h (int n)) (\<lambda>(h, p). Inr ((h, p # ps), None))"
| "ob_step cf (h, ps) (Ob_Copy bs) = rbind (obstack_copy cf h bs) (\<lambda>(h, p). Inr ((h, p # ps), None))"
| "ob_step cf (h, ps) (Ob_Copy0 bs) = rbind (obstack_copy0 cf h bs) (\<lambda>(h, p). Inr ((h, p # ps), None))"
| "ob_step cf (h, ps) (Ob_Free k) = rbind (obstack_free h (ps ! k)) (\<lambda>h. Inr ((h, drop (Suc k) ps), None))"
| "ob_step cf (h, ps) (Ob_Read k n) = Inr ((h, ps), Some (ob_peek (ob_mem h) (ps ! k) n))"

text \<open>
  The stack of finished objects and the growing one. A byte of an object made by
  \<open>obstack_blank\<close> or \<open>obstack_alloc\<close> is unknown; reading it is outside the specification, and
  so is freeing an object that is not there.
\<close>

fun ob_spec :: "cells list \<times> cells \<Rightarrow> ob_call \<Rightarrow> ((cells list \<times> cells) \<times> bytes option) option" where
  "ob_spec (objs, cur) (Ob_Grow bs) = Some ((objs, cur @ map Some bs), None)"
| "ob_spec (objs, cur) (Ob_Grow0 bs) = Some ((objs, cur @ map Some (bs @ [0])), None)"
| "ob_spec (objs, cur) (Ob_1Grow b) = Some ((objs, cur @ [Some b]), None)"
| "ob_spec (objs, cur) (Ob_Ptr_Grow p) = Some ((objs, cur @ map Some (le_bytes 8 p)), None)"
| "ob_spec (objs, cur) (Ob_Int_Grow i) = Some ((objs, cur @ map Some (le_bytes 4 i)), None)"
| "ob_spec (objs, cur) (Ob_Blank n) = Some ((objs, cur @ replicate n None), None)"
| "ob_spec (objs, cur) Ob_Finish = Some ((cur # objs, []), None)"
| "ob_spec (objs, cur) (Ob_Alloc n) = Some (((cur @ replicate n None) # objs, []), None)"
| "ob_spec (objs, cur) (Ob_Copy bs) = Some (((cur @ map Some bs) # objs, []), None)"
| "ob_spec (objs, cur) (Ob_Copy0 bs) = Some (((cur @ map Some (bs @ [0])) # objs, []), None)"
| "ob_spec (objs, cur) (Ob_Free k) = (if k < length objs then Some ((drop (Suc k) objs, []), None) else None)"
| "ob_spec (objs, cur) (Ob_Read k n) =
     (if k < length objs \<and> n \<le> length (objs ! k) \<and> None \<notin> set (take n (objs ! k))
      then Some ((objs, cur), Some (map the (take n (objs ! k)))) else None)"

definition ob_rel :: "chunk_fun \<Rightarrow> obstack \<times> int list \<Rightarrow> cells list \<times> cells \<Rightarrow> bool" where
  "ob_rel cf s a \<longleftrightarrow> chunk_fun_ok cf \<and> length (snd s) = length (fst a) \<and> ob_holds (fst s) (zip (snd s) (fst a)) (snd a)"

lemma finish_rel:
  assumes "ob_rel cf (h, ps) (objs, cur)"
  shows "\<exists>h' p. obstack_finish h = (h', p) \<and> ob_rel cf (h', p # ps) (cur # objs, [])"
  using finish_ok [of h "zip ps objs" cur] assms by (auto simp: ob_rel_def)

lemma grow_rel:
  assumes "ob_rel cf (h, ps) (objs, cur)"
  shows "\<exists>h'. obstack_grow cf h bs = Inr h' \<and> ob_rel cf (h', ps) (objs, cur @ map Some bs)"
    and "\<exists>h'. obstack_grow0 cf h bs = Inr h' \<and> ob_rel cf (h', ps) (objs, cur @ map Some (bs @ [0]))"
    and "\<exists>h'. obstack_blank cf h (int n) = Inr h' \<and> ob_rel cf (h', ps) (objs, cur @ replicate n None)"
  using grow_ok [of cf h "zip ps objs" cur bs] grow0_ok [of cf h "zip ps objs" cur bs]
    blank_ok [of cf h "zip ps objs" cur n] assms by (auto simp: ob_rel_def)

lemma made_rel:
  assumes "\<exists>h'. made = Inr h' \<and> ob_rel cf (h', ps) (objs, cur)"
  shows "\<exists>h' p. rbind made (\<lambda>h. Inr (obstack_finish h)) = Inr (h', p) \<and> ob_rel cf (h', p # ps) (cur # objs, [])"
  using assms finish_rel by fastforce

lemma free_rel:
  assumes "ob_rel cf (h, ps) (objs, cur)" "k < length objs"
  shows "\<exists>h'. obstack_free h (ps ! k) = Inr h' \<and> ob_rel cf (h', drop (Suc k) ps) (drop (Suc k) objs, [])"
proof -
  have len: "length ps = length objs" and h: "ob_holds h (zip ps objs) cur" using assms(1) by (simp_all add: ob_rel_def)
  have "zip ps objs = take k (zip ps objs) @ (ps ! k, objs ! k) # drop (Suc k) (zip ps objs)"
    using id_take_nth_drop [of k "zip ps objs"] assms(2) len by simp
  then have "ob_holds h (take k (zip ps objs) @ (ps ! k, objs ! k) # drop (Suc k) (zip ps objs)) cur" using h by simp
  from free_ok [OF this] show ?thesis using assms(1) len by (auto simp: ob_rel_def drop_zip)
qed

lemma ob_step_rel:
  assumes "ob_rel cf s a" "ob_spec a c = Some (a', r)"
  shows "\<exists>s'. ob_step cf s c = Inr (s', r) \<and> ob_rel cf s' a'"
proof -
  obtain h ps objs cur where [simp]: "s = (h, ps)" "a = (objs, cur)" by (cases s; cases a)
  note rel = assms(1) [simplified]
  note grow = grow_rel [OF rel] and made = grow_rel [OF rel, THEN made_rel]
  show ?thesis
  proof (cases c)
    case (Ob_Read k n)
    then have kn: "k < length objs" "n \<le> length (objs ! k)" "None \<notin> set (take n (objs ! k))"
      "a' = a" "r = Some (map the (take n (objs ! k)))"
      using assms(2) by (simp_all split: if_splits)
    have "ob_peek (ob_mem h) (ps ! k) n = map the (take n (objs ! k))"
    proof (cases "objs ! k = []")
      case False
      have "(ps ! k, objs ! k) \<in> set (zip ps objs)" using kn(1) rel by (auto simp: ob_rel_def set_zip)
      then show ?thesis using kn(2,3) holds_object False rel
        by (intro agrees_peek) (auto simp: ob_rel_def)
    qed (use kn(2) in \<open>simp add: ob_peek_def\<close>)
    then show ?thesis using Ob_Read kn rel by simp
  next
    case (Ob_Grow bs) then show ?thesis using assms(2) grow(1) [of bs] by auto
  next
    case (Ob_Grow0 bs) then show ?thesis using assms(2) grow(2) [of bs] by auto
  next
    case (Ob_1Grow b) then show ?thesis using assms(2) grow(1) [of "[b]"] by (auto simp: grow_1_ok)
  next
    case (Ob_Ptr_Grow p) then show ?thesis using assms(2) grow(1) [of "le_bytes 8 p"] by (auto simp: grow_word_ok)
  next
    case (Ob_Int_Grow i) then show ?thesis using assms(2) grow(1) [of "le_bytes 4 i"] by (auto simp: grow_word_ok)
  next
    case (Ob_Blank n) then show ?thesis using assms(2) grow(3) [of n] by auto
  next
    case Ob_Finish then show ?thesis using assms(2) finish_rel [OF rel] by auto
  next
    case (Ob_Alloc n) then show ?thesis using assms(2) made(3) [of n] by (auto simp: obstack_alloc_def)
  next
    case (Ob_Copy bs) then show ?thesis using assms(2) made(1) [of bs] by (auto simp: obstack_copy_def)
  next
    case (Ob_Copy0 bs) then show ?thesis using assms(2) made(2) [of bs] by (auto simp: obstack_copy0_def)
  next
    case (Ob_Free k) then show ?thesis using assms(2) free_rel [OF rel, of k] by (auto split: if_splits)
  qed
qed

interpretation obs: simulation "ob_step cf" ob_spec "ob_rel cf" for cf
  by unfold_locales (rule ob_step_rel)

section \<open>The properties\<close>

definition alignment_ok :: "int \<Rightarrow> bool" where
  "alignment_ok a \<longleftrightarrow> a \<in> {0, 1, 2, 4, 8, 16}"

lemma begin_rel:
  assumes "chunk_fun_ok cf" "alignment_ok alignment" "sz = 0 \<or> 16 \<le> sz"
  shows "\<exists>h0. ob_begin cf h sz alignment = Inr (h0, True) \<and> ob_rel cf (h0, []) ([], []) \<and>
    ob_alignment_mask h0 = (if alignment = 0 then 8 else alignment) - 1"
proof -
  define sz' where "sz' = (if sz = 0 then 4072 else sz)"
  define m where "m = (if alignment = 0 then 8 else alignment) - 1"
  define a where "a = cf [] sz'"
  have a: "0 < a" "16 dvd a" using assms(1,3) by (auto simp: chunk_fun_ok_def a_def sz'_def)
  have "\<exists>k\<le>4. m = 2 ^ k - 1"
    using assms(2) unfolding m_def alignment_ok_def
    by (auto intro: exI [of _ 0] exI [of _ 1] exI [of _ 2] exI [of _ 3] exI [of _ 4])
  then have mask: "mask_ok m" by (simp add: mask_ok_def)
  let ?h = "h\<lparr>ob_chunk_size := sz', ob_alignment_mask := m, ob_chunks := [\<lparr>ck_addr = a, ck_limit = a + sz'\<rparr>],
    ob_alloc_failed := False, ob_next_free := a + 16, ob_object_base := a + 16, ob_chunk_limit := a + sz',
    ob_maybe_empty_object := False\<rparr>"
  have sz': "16 \<le> sz'" using assms(3) by (auto simp: sz'_def)
  have "ob_begin cf h sz alignment = Inr (?h, True)"
    using a sz' unfolding a_def by (auto simp: ob_begin_def Let_def DEFAULT_ROUNDING_def DEFAULT_ALIGNMENT_def sz'_def m_def)
  moreover have "ob_holds ?h [] []"
    using a sz' mask mask_ok_align [OF mask, of "a + 16"]
    by (intro holdsI [of _ "\<lparr>ck_addr = a, ck_limit = a + sz'\<rparr>" "[]" "[]" "[]"])
      (auto simp: ob_parts_def ob_bytes_def chunk_ok_def ck_contents_def)
  ultimately show ?thesis using assms(1) by (auto simp: ob_rel_def m_def)
qed



text \<open>A chunk function that never gives memory twice.\<close>

definition fresh_chunk :: chunk_fun where
  "fresh_chunk live n = 16 * (foldr (\<lambda>(a, l) m. max l m) live 0 div 16 + 1)"

lemma fresh_chunk_above: "(a, l) \<in> set live \<Longrightarrow> l \<le> foldr (\<lambda>(a, l) m. max l m) live (0::int)"
  by (induction live) auto

lemma fresh_chunk_ok: "chunk_fun_ok fresh_chunk"
proof -
  have nonneg: "0 \<le> foldr (\<lambda>(a, l) m. max l m) live (0::int)" for live :: "(int \<times> int) list"
    by (induction live) auto
  have up: "m \<le> 16 * (m div 16 + 1)" for m :: int by presburger
  have pos: "0 \<le> m \<Longrightarrow> 0 < 16 * (m div 16 + 1)" for m :: int by presburger
  have "l \<le> fresh_chunk live n" if "(a, l) \<in> set live" for a l live n
    using fresh_chunk_above [OF that] up order_trans unfolding fresh_chunk_def by blast
  moreover have "0 < fresh_chunk live n" for live n using pos [OF nonneg [of live]] by (simp add: fresh_chunk_def)
  ultimately show ?thesis by (auto simp: chunk_fun_ok_def fresh_chunk_def)
qed



end
