(* ===== verification/Alloc.thy ===== *)
theory Alloc
  imports Obstack Oash
begin

text \<open>
  The allocators of \<open>nmalloc.c\<close>: making and freeing an allocator with its reference count, and
  the functions of one that takes its memory from an obstack, with the strings that are kept
  once only by means of an open-addressing table. The functions of an allocator over
  \<open>malloc\<close> only pass their arguments on.

  \<open>al_ob\<close> and \<open>al_ht\<close> are the two fields of \<open>struct privdata\<close>. The table lives in the
  obstack of its own allocator: its head is 56 bytes long, an entry without a copy of the
  key 16. A pointer into the obstack is its address as a 64-bit word.
\<close>

section \<open>Allocators\<close>

record tn_alloc =
  al_refcnt :: "16 word"
  al_flags :: "16 word"
  al_ob :: obstack
  al_ht :: "tn_oash option"

definition TN_ALLOC_MALLOC :: "32 word" where "TN_ALLOC_MALLOC = 1"
definition TN_ALLOC_OBSTACK :: "32 word" where "TN_ALLOC_OBSTACK = 2"

definition al_has_obstack :: "tn_alloc \<Rightarrow> bool" where
  "al_has_obstack na \<longleftrightarrow> al_flags na AND ucast TN_ALLOC_OBSTACK \<noteq> 0"

text \<open>\<open>n_calloc\<close> of the private data.\<close>

definition no_obstack :: obstack where
  "no_obstack = \<lparr>ob_chunk_size = 0, ob_chunks = [], ob_object_base = 0, ob_next_free = 0, ob_chunk_limit = 0,
     ob_alignment_mask = 0, ob_maybe_empty_object = False, ob_alloc_failed = False, ob_mem = (\<lambda>_. 0)\<rparr>"

text \<open>\<open>unaligned\<close>: the library was built for a processor that reads unaligned words.\<close>

definition n_alloc_new :: "env \<Rightarrow> chunk_fun \<Rightarrow> bool \<Rightarrow> nat \<Rightarrow> 32 word \<Rightarrow> tn_alloc result" where
  "n_alloc_new e cf unaligned chunkkb flags =
     (let na = \<lparr>al_refcnt = 0, al_flags = ucast flags, al_ob = no_obstack, al_ht = None\<rparr> in
      if flags AND TN_ALLOC_MALLOC \<noteq> 0 then Inr na
      else if flags AND TN_ALLOC_OBSTACK \<noteq> 0 then
        rbind (ob_begin cf no_obstack 0 0) (\<lambda>(h, _).
          let chunkkb = (if chunkkb < 2 then 2 else chunkkb);
              h = h\<lparr>ob_chunk_size := int (1024 * chunkkb)\<rparr>;
              h = (if unaligned then h\<lparr>ob_alignment_mask := 0\<rparr> else h) in
          Inr (na\<lparr>al_ob := h\<rparr>))
      else n_assert e False (Inr na))"

section \<open>Memory from the obstack\<close>

text \<open>The size is a \<open>size_t\<close> that \<open>obstack_alloc\<close> keeps in an \<open>int\<close>.\<close>

definition aobstack_malloc :: "chunk_fun \<Rightarrow> tn_alloc \<Rightarrow> nat \<Rightarrow> (tn_alloc \<times> int) result" where
  "aobstack_malloc cf na sz =
     rbind (obstack_alloc cf (al_ob na) (c_int sz)) (\<lambda>(h, p). Inr (na\<lparr>al_ob := h\<rparr>, p))"

definition al_poke :: "tn_alloc \<Rightarrow> int \<Rightarrow> bytes \<Rightarrow> tn_alloc result" where
  "al_poke na p bs = rbind (ob_poke (ob_chunks (al_ob na)) (ob_mem (al_ob na)) p bs)
     (\<lambda>mem. Inr (na\<lparr>al_ob := (al_ob na)\<lparr>ob_mem := mem\<rparr>\<rparr>))"

definition aobstack_calloc :: "chunk_fun \<Rightarrow> tn_alloc \<Rightarrow> nat \<Rightarrow> (tn_alloc \<times> int) result" where
  "aobstack_calloc cf na sz = rbind (aobstack_malloc cf na sz) (\<lambda>(na, p).
     rbind (al_poke na p (replicate sz 0)) (\<lambda>na. Inr (na, p)))"

definition aobstack_free :: "tn_alloc \<Rightarrow> int \<Rightarrow> tn_alloc" where
  "aobstack_free na p = na"

text \<open>\<open>sz\<close> bytes are copied, also when the new block is smaller.\<close>

definition aobstack_realloc :: "chunk_fun \<Rightarrow> tn_alloc \<Rightarrow> int \<Rightarrow> nat \<Rightarrow> nat \<Rightarrow> (tn_alloc \<times> int) result" where
  "aobstack_realloc cf na p sz newsize = rbind (aobstack_malloc cf na newsize) (\<lambda>(na, q).
     rbind (al_poke na q (ob_peek (ob_mem (al_ob na)) p sz)) (\<lambda>na. Inr (na, q)))"

section \<open>Strings kept once\<close>

text \<open>The bytes of a \<open>tn_str8\<close> and of a \<open>tn_str16\<close>: the length, cut to its field, then the string.\<close>

definition str8_block :: "bytes \<Rightarrow> bytes" where
  "str8_block s = word_of_nat (length s) # s @ [0]"

definition str16_block :: "bytes \<Rightarrow> bytes" where
  "str16_block s = word_of_nat (length s) # word_of_nat (length s div 256) # s @ [0]"

definition al_table :: "env \<Rightarrow> chunk_fun \<Rightarrow> tn_alloc \<Rightarrow> (tn_alloc \<times> tn_oash) result" where
  "al_table e cf na =
     (case al_ht na of Some ht \<Rightarrow> Inr (na, ht)
      | None \<Rightarrow> rbind (n_ref e (al_refcnt na)) (\<lambda>r.
          rbind (aobstack_calloc cf (na\<lparr>al_refcnt := r\<rparr>) 56) (\<lambda>(na, _).
          rbind (n_oash_new_na e 0 None) (\<lambda>ht.
          rbind (n_oash_ctl e ht (TN_HASH_NOCPKEY OR TN_HASH_REHASH)) (\<lambda>(ht, _).
            Inr (na\<lparr>al_ht := Some ht\<rparr>, ht))))))"

text \<open>The entry of the string; a new one takes its \<open>dentry\<close> from the allocator.\<close>

definition al_entry :: "env \<Rightarrow> chunk_fun \<Rightarrow> tn_alloc \<Rightarrow> bytes \<Rightarrow> (tn_alloc \<times> tn_oash \<times> nat option) result" where
  "al_entry e cf na str =
     rbind (al_table e cf na) (\<lambda>(na, ht).
     rbind (n_oash_get_insert e ht str) (\<lambda>(ht', de).
     rbind (if oa_size ht' > oa_size ht then rbind (aobstack_malloc cf na 16) (\<lambda>(na, _). Inr na) else Inr na)
       (\<lambda>na. Inr (na\<lparr>al_ht := Some ht'\<rparr>, ht', de))))"

definition al_new_str :: "chunk_fun \<Rightarrow> tn_alloc \<Rightarrow> tn_oash \<Rightarrow> nat \<Rightarrow> bytes \<Rightarrow> bytes \<Rightarrow> (tn_alloc \<times> ptr) result" where
  "al_new_str cf na ht di block str =
     rbind (aobstack_malloc cf na (length block)) (\<lambda>(na, p).
     rbind (al_poke na p block) (\<lambda>na.
       Inr (na\<lparr>al_ht := Some (ht\<lparr>oa_data := (oa_data ht)[di := Some \<lparr>de_data = word_of_int p, de_key = str\<rparr>]\<rparr>)\<rparr>,
            word_of_int p)))"

definition aobstack_alloc_str :: "env \<Rightarrow> chunk_fun \<Rightarrow> tn_alloc \<Rightarrow> nat \<Rightarrow> bytes \<Rightarrow> (tn_alloc \<times> ptr) result" where
  "aobstack_alloc_str e cf na max_len str =
     n_assert e (length str > 0) (n_assert e (length str \<le> 65535)
      (rbind (al_entry e cf na str) (\<lambda>(na, ht, de).
        n_assert e (de \<noteq> None)
         (case de of None \<Rightarrow> Inl Mem_Fault
          | Some di \<Rightarrow> rbind (mem_read (oa_data ht) di) (\<lambda>d. case d of None \<Rightarrow> Inl Mem_Fault
            | Some d \<Rightarrow>
              if de_data d \<noteq> NULL then Inr (na, de_data d)
              else if max_len = 255 then al_new_str cf na ht di (str8_block str) str
              else if max_len = 65535 then al_new_str cf na ht di (str16_block str) str
              else trurl_die e ''invalid max arg'' (Inr (na, de_data d)))))))"

definition aobstack_alloc_str8 :: "env \<Rightarrow> chunk_fun \<Rightarrow> tn_alloc \<Rightarrow> bytes \<Rightarrow> (tn_alloc \<times> ptr) result" where
  "aobstack_alloc_str8 e cf na str = aobstack_alloc_str e cf na 255 str"

definition aobstack_alloc_str16 :: "env \<Rightarrow> chunk_fun \<Rightarrow> tn_alloc \<Rightarrow> bytes \<Rightarrow> (tn_alloc \<times> ptr) result" where
  "aobstack_alloc_str16 e cf na str = aobstack_alloc_str e cf na 65535 str"

section \<open>Freeing an allocator\<close>

text \<open>
  \<open>None\<close>: the allocator and all its chunks are given back. When the only reference left is
  the one of its own table, the table is freed first and calls the function again.
\<close>

function n_alloc_free :: "env \<Rightarrow> tn_alloc \<Rightarrow> tn_alloc option result" where
  "n_alloc_free e na =
     rbind (case al_ht na of
         Some ht \<Rightarrow>
           if al_refcnt na = 1 \<and> al_has_obstack na
           then rbind (n_oash_free ht) (\<lambda>(left, _).
             if left = None then n_alloc_free e (na\<lparr>al_ht := None\<rparr>) else Inr (Some (na\<lparr>al_ht := None\<rparr>)))
           else Inr (Some na)
       | None \<Rightarrow> Inr (Some na))
      (\<lambda>na. case na of None \<Rightarrow> Inl Mem_Fault
       | Some na \<Rightarrow>
         if al_refcnt na > 0 then Inr (Some (na\<lparr>al_refcnt := al_refcnt na - 1\<rparr>))
         else if al_has_obstack na
         then n_assert e (al_ht na = None) (rbind (obstack_free (al_ob na) 0) (\<lambda>_. Inr None))
         else Inr None)"
  by pat_completeness auto
termination
  by (relation "measure (\<lambda>(e, na). case al_ht na of None \<Rightarrow> 0 | Some _ \<Rightarrow> 1)") auto

declare n_alloc_free.simps [simp del]

end
