(* ===== verification/AllocProps.thy ===== *)
theory AllocProps
  imports Alloc ObstackProps OashRefine
begin

text \<open>
  The strings of an allocator are kept once, and an allocator is given back by the call of
  \<open>n_alloc_free\<close> that follows the last reference.
\<close>

section \<open>Entries of the table\<close>

lemma cell_slot:
  assumes "oash_inv ht" "c < length (oa_data ht)" "oa_data ht ! c = Some d"
  shows "\<exists>j. holds_key ht (de_key d) j \<and> te_di (oa_table ht ! j) = c"
proof -
  have "{k. k < length (oa_data ht) \<and> oa_data ht ! k \<noteq> None} = pl_di ` set (entries (oa_table ht))"
    using assms(1) unfolding oash_inv_def data_ok_def by blast
  moreover have "c \<in> {k. k < length (oa_data ht) \<and> oa_data ht ! k \<noteq> None}" using assms(2,3) by simp
  ultimately obtain x where x: "x \<in> set (entries (oa_table ht))" "c = pl_di x" by auto
  then obtain j where j: "j < length (oa_table ht)" "used (oa_table ht ! j)" "payload (oa_table ht ! j) = x"
    unfolding in_entries by blast
  have "te_di (oa_table ht ! j) = c" using j(3) x(2) by (auto simp: payload_def pl_di_def)
  moreover have "holds_key ht (de_key d) j"
    using j x(2) assms(3) oash_inv_cap [OF assms(1)] by (auto simp: holds_key_def slot_key_def pl_key_def)
  ultimately show ?thesis by blast
qed

lemma set_cell_ok:
  fixes ht :: tn_oash and c :: nat and d :: dentry and p :: ptr
  assumes pl: "oash_plain K ht" and free: "oa_free_fn ht = None"
    and c: "c < length (oa_data ht)" "oa_data ht ! c = Some d"
  defines "ht' \<equiv> ht\<lparr>oa_data := (oa_data ht)[c := Some \<lparr>de_data = p, de_key = de_key d\<rparr>]\<rparr>"
  shows "oash_plain K ht' \<and> oash_map ht' = (oash_map ht)(de_key d \<mapsto> p) \<and> oash_conf ht' = oash_conf ht \<and>
    oa_size ht' = oa_size ht"
proof -
  have inv: "oash_inv ht" using pl by (simp add: oash_plain_def)
  from cell_slot [OF inv c] obtain j where j: "holds_key ht (de_key d) j" "te_di (oa_table ht ! j) = c" by blast
  have "get_dentry (oa_data ht) (oa_table ht ! j) = Inr d" "j < length (oa_table ht)"
    using slot_dentry [OF inv j(1)] c j(2) by auto
  then have "put_found ht j p Put_Replace = Inr (ht\<lparr>oa_data := (oa_data ht)[c := Some (d\<lparr>de_data := p\<rparr>)]\<rparr>, Some c)"
    using free j(2) by (simp add: put_found_def mem_read_def oa_free_def)
  moreover have "d\<lparr>de_data := p\<rparr> = \<lparr>de_data = p, de_key = de_key d\<rparr>" by (cases d) simp
  ultimately have "put_found ht j p Put_Replace = Inr (ht', Some c)" by (simp only: ht'_def)
  with put_found_replace [OF inv j(1), of p] have r: "oash_inv ht'" "oash_map ht' = (oash_map ht)(de_key d \<mapsto> p)"
    "oash_conf ht' = oash_conf ht" "oa_size ht' = oa_size ht" "oa_cap ht' = oa_cap ht" by auto
  have "keys_of ht' \<subseteq> insert (de_key d) (keys_of ht)" using r(2) by (auto simp: keys_of_def)
  moreover have "de_key d \<in> keys_of ht" using oash_map_dom [OF inv, of "de_key d"] j(1) by (auto simp: keys_of_def)
  ultimately show ?thesis using pl r oash_conf_has [OF r(3)] by (auto simp: oash_plain_def)
qed

lemma get_insert_ok:
  assumes pl: "oash_plain K ht" and k: "key_ok k" "k \<in> K" and room: "card (dom (oash_map ht)) < 32768"
  shows "\<exists>ht' c d. n_oash_get_insert e ht k = Inr (ht', Some c) \<and> oash_plain K ht' \<and> c < length (oa_data ht') \<and>
    oa_data ht' ! c = Some d \<and> de_key d = k \<and> oash_map ht' = (oash_map ht)(k \<mapsto> de_data d) \<and>
    oash_conf ht' = oash_conf ht \<and> de_data d = (case oash_map ht k of None \<Rightarrow> NULL | Some p \<Rightarrow> p)"
proof -
  have P: "oash_inv ht" "oa_has ht TN_HASH_REHASH" "\<not> oa_has ht TN_HASH_NOREPLACE"
    "oa_size ht < oa_cap ht" "no_clash K" "keys_of ht \<subseteq> K" using pl by (simp_all add: oash_plain_def)
  show ?thesis
  proof (cases "oash_map ht k")
    case None
    obtain m where m: "m \<le> 16" "oa_cap ht = 2 ^ m" using P(1) by (auto simp: oash_inv_def)
    have "oa_size ht < 32768" using room oash_size_card [OF P(1)] by simp
    then have grow: "may_grow ht"
      using m power_increasing [of m 15 "2::nat"] by (cases "m = 16") (auto simp: may_grow_def)
    have "no_clash (insert k (keys_of ht))" using P(5,6) k(2) no_clash_mono [of K] by simp
    from n_oash_put_absent [OF P(1) k(1) _ None P(4) grow this, of 0 e NULL Put_Keep] obtain ht' c where ht':
      "n_oash_put e ht k 0 NULL Put_Keep = Inr (ht', Some c)" "oash_inv ht'" "oash_map ht' = (oash_map ht)(k \<mapsto> NULL)"
      "oash_conf ht' = oash_conf ht" "oa_size ht' = oa_size ht + 1"
      "oa_cap ht' = (if oa_has ht TN_HASH_REHASH \<and> oa_cap ht - oa_size ht' \<le> oa_cap ht div 3
                     then 2 * oa_cap ht else oa_cap ht)"
      "c < length (oa_data ht')" "oa_data ht' ! c = Some \<lparr>de_data = NULL, de_key = k\<rparr>"
      by (auto simp: put_hash_def)
    have "oa_size ht' < oa_cap ht'" using ht'(5,6) P(2,4) by (auto split: if_splits)
    moreover have "keys_of ht' \<subseteq> K" using ht'(3) P(6) k(2) by (auto simp: keys_of_def)
    ultimately have "oash_plain K ht'" using ht'(2) P oash_conf_has [OF ht'(4)] by (simp add: oash_plain_def)
    with ht' None show ?thesis by (intro exI [of _ ht'] exI [of _ c] exI [of _ "\<lparr>de_data = NULL, de_key = k\<rparr>"])
      (simp add: n_oash_get_insert_def)
  next
    case (Some q)
    then obtain j where j: "holds_key ht k j" using oash_map_dom [OF P(1), of k] by auto
    from slot_dentry [OF P(1) j] obtain d where d: "oa_data ht ! te_di (oa_table ht ! j) = Some d"
      "oash_map ht k = Some (de_data d)" "de_key d = k" "te_di (oa_table ht ! j) < length (oa_data ht)" by blast
    have "n_oash_put e ht k 0 NULL Put_Keep = Inr (ht, Some (te_di (oa_table ht ! j)))"
      using n_oash_put_present [OF P(1) k(1) _ j, of 0] put_found_keep [OF P(1) j] by (simp add: put_hash_def)
    moreover have "(oash_map ht)(k \<mapsto> de_data d) = oash_map ht" using d(2) by auto
    ultimately show ?thesis using d pl by (intro exI [of _ ht] exI [of _ "te_di (oa_table ht ! j)"] exI [of _ d])
      (simp add: n_oash_get_insert_def)
  qed
qed

section \<open>Memory from the obstack\<close>

lemma finish_mem:
  "obstack_finish (h\<lparr>ob_mem := m\<rparr>) = (case obstack_finish h of (h', p) \<Rightarrow> (h'\<lparr>ob_mem := m\<rparr>, p))"
  by (simp add: obstack_finish_def Let_def)

lemma finish_keeps: "obstack_finish h = (h', p) \<Longrightarrow> ob_chunks h' = ob_chunks h \<and> ob_mem h' = ob_mem h"
  by (auto simp: obstack_finish_def Let_def split: if_splits)

lemma fill_current:
  assumes "ob_holds h objs cur" "length bs = length cur"
  shows "\<exists>m. ob_poke (ob_chunks h) (ob_mem h) (ob_object_base h) bs = Inr m \<and> ob_holds (h\<lparr>ob_mem := m\<rparr>) objs (map Some bs)"
proof -
  from assms(1) obtain c cs os oss where parts: "ob_parts h c cs os oss cur" and objs: "objs = os @ concat oss"
    and bytes: "ob_bytes h objs cur" by (rule holdsE)
  note P = parts [unfolded ob_parts_def]
  define m where "m = ob_store (ob_mem h) (ob_object_base h) bs"
  have "ck_contents c \<le> ob_object_base h" using P packed_lo by blast
  then have "ob_poke (ob_chunks h) (ob_mem h) (ob_object_base h) bs = Inr m"
    using P assms(2) unfolding m_def by (intro poke_in [of c]) auto
  moreover have others: "agrees m p x" if "(p, x) \<in> set objs" for p x
  proof -
    have "ob_object_base h + int (length bs) \<le> ck_limit c" using P assms(2) by auto
    from object_outside [OF parts _ order_refl this] that objs
    have "p + int (length x) \<le> ob_object_base h \<or> ob_object_base h + int (length bs) \<le> p" by simp
    moreover have "agrees (ob_mem h) p x" using bytes that by (auto simp: ob_bytes_def)
    ultimately show ?thesis unfolding m_def by (intro agrees_store_other)
  qed
  moreover have "ob_parts (h\<lparr>ob_mem := m\<rparr>) c cs os oss (map Some bs)" using P assms(2) by (simp add: ob_parts_def)
  moreover have "ob_bytes (h\<lparr>ob_mem := m\<rparr>) objs (map Some bs)"
    using others agrees_store_same [of "ob_mem h" "ob_object_base h" bs] by (auto simp: ob_bytes_def m_def)
  ultimately show ?thesis using objs holdsI by blast
qed

text \<open>A block from the obstack, before and after it is filled.\<close>

lemma ob_alloc_ok:
  assumes "chunk_fun_ok cf" "ob_holds h objs []" "n < 2 ^ 31"
  shows "\<exists>h' p. obstack_alloc cf h (c_int n) = Inr (h', p) \<and> ob_holds h' ((p, replicate n None) # objs) [] \<and>
    (\<forall>bs. length bs = n \<longrightarrow> (\<exists>m. ob_poke (ob_chunks h') (ob_mem h') p bs = Inr m \<and>
      ob_holds (h'\<lparr>ob_mem := m\<rparr>) ((p, map Some bs) # objs) []))"
proof -
  from blank_ok [OF assms(1,2), of n] obtain h1 where h1: "obstack_blank cf h (int n) = Inr h1"
    "ob_holds h1 objs (replicate n None)" by auto
  obtain h' p where fin: "obstack_finish h1 = (h', p)" by fastforce
  have p: "p = ob_object_base h1" using fin holds_not_failed [OF h1(2)]
    by (auto simp: obstack_finish_def Let_def)
  have "\<exists>m. ob_poke (ob_chunks h') (ob_mem h') p bs = Inr m \<and> ob_holds (h'\<lparr>ob_mem := m\<rparr>) ((p, map Some bs) # objs) []"
    if "length bs = n" for bs
  proof -
    from fill_current [OF h1(2), of bs] that obtain m where
      m: "ob_poke (ob_chunks h1) (ob_mem h1) p bs = Inr m" "ob_holds (h1\<lparr>ob_mem := m\<rparr>) objs (map Some bs)" by (auto simp: p)
    from finish_ok [OF m(2)] fin show ?thesis using m(1) finish_keeps [OF fin] by (simp add: finish_mem)
  qed
  moreover have "ob_holds h' ((p, replicate n None) # objs) []" using finish_ok [OF h1(2)] fin by simp
  ultimately show ?thesis using h1(1) fin c_int_small [OF assms(3)] by (simp add: obstack_alloc_def)
qed

lemma al_malloc_ok:
  assumes "chunk_fun_ok cf" "ob_holds (al_ob na) objs []" "n < 2 ^ 31"
  shows "\<exists>h' p. aobstack_malloc cf na n = Inr (na\<lparr>al_ob := h'\<rparr>, p) \<and> ob_holds h' ((p, replicate n None) # objs) [] \<and>
    (\<forall>bs. length bs = n \<longrightarrow> (\<exists>h2. al_poke (na\<lparr>al_ob := h'\<rparr>) p bs = Inr (na\<lparr>al_ob := h2\<rparr>) \<and>
      ob_holds h2 ((p, map Some bs) # objs) []))"
proof -
  from ob_alloc_ok [OF assms] obtain h' p where h': "obstack_alloc cf (al_ob na) (c_int n) = Inr (h', p)"
    "ob_holds h' ((p, replicate n None) # objs) []"
    "\<forall>bs. length bs = n \<longrightarrow> (\<exists>m. ob_poke (ob_chunks h') (ob_mem h') p bs = Inr m \<and>
      ob_holds (h'\<lparr>ob_mem := m\<rparr>) ((p, map Some bs) # objs) [])" by blast
  then have "\<exists>h2. al_poke (na\<lparr>al_ob := h'\<rparr>) p bs = Inr (na\<lparr>al_ob := h2\<rparr>) \<and> ob_holds h2 ((p, map Some bs) # objs) []"
    if "length bs = n" for bs using that by (fastforce simp: al_poke_def)
  with h' show ?thesis by (auto simp: aobstack_malloc_def)
qed

lemma al_calloc_ok:
  assumes "chunk_fun_ok cf" "ob_holds (al_ob na) objs []" "n < 2 ^ 31"
  shows "\<exists>h' p. aobstack_calloc cf na n = Inr (na\<lparr>al_ob := h'\<rparr>, p) \<and> ob_holds h' ((p, replicate n (Some 0)) # objs) []"
proof -
  from al_malloc_ok [OF assms] obtain h' p where h': "aobstack_malloc cf na n = Inr (na\<lparr>al_ob := h'\<rparr>, p)"
    "\<exists>h2. al_poke (na\<lparr>al_ob := h'\<rparr>) p (replicate n 0) = Inr (na\<lparr>al_ob := h2\<rparr>) \<and>
      ob_holds h2 ((p, map Some (replicate n 0)) # objs) []" by force
  then show ?thesis by (auto simp: aobstack_calloc_def)
qed

section \<open>The invariant of an allocator\<close>

definition al_map :: "tn_alloc \<Rightarrow> bytes \<Rightarrow> ptr option" where
  "al_map na = (case al_ht na of None \<Rightarrow> Map.empty | Some ht \<Rightarrow> oash_map ht)"

definition str_block :: "nat \<Rightarrow> bytes \<Rightarrow> bytes" where
  "str_block w s = (if w = 255 then str8_block s else str16_block s)"

definition al_table_ok :: "bytes set \<Rightarrow> tn_alloc \<Rightarrow> bool" where
  "al_table_ok K na \<longleftrightarrow> al_has_obstack na \<and> (case al_ht na of None \<Rightarrow> al_refcnt na = 0
     | Some ht \<Rightarrow> al_refcnt na = 1 \<and> oash_plain K ht \<and> oa_free_fn ht = None \<and> oa_refcnt ht = 0)"

text \<open>Every string of the table is an object of the obstack, with its length in front and a NUL behind.\<close>

definition al_inv :: "nat \<Rightarrow> bytes set \<Rightarrow> tn_alloc \<Rightarrow> (int \<times> cells) list \<Rightarrow> bool" where
  "al_inv w K na objs \<longleftrightarrow> ob_holds (al_ob na) objs [] \<and> al_table_ok K na \<and>
     (\<forall>k p. al_map na k = Some p \<longrightarrow> p = NULL \<or> (\<exists>q. (q, map Some (str_block w k)) \<in> set objs \<and> p = word_of_int q))"

lemma new_table:
  "\<exists>ht0 ht. n_oash_new_na e 0 None = Inr ht0 \<and> n_oash_ctl e ht0 (TN_HASH_NOCPKEY OR TN_HASH_REHASH) = Inr (ht, 1) \<and>
    (no_clash K \<longrightarrow> oash_plain K ht) \<and> oa_free_fn ht = None \<and> oa_refcnt ht = 0 \<and> oash_map ht = Map.empty"
proof -
  define ht where "ht = \<lparr>oa_refcnt = 0, oa_flags = TN_HASH_NOCPKEY OR TN_HASH_REHASH, oa_cap = 4,
      oa_table = replicate 4 no_entry, oa_size = 0, oa_dcap = 4, oa_data = replicate 4 None, oa_dsize = 0,
      oa_free_fn = None, oa_na = True, oa_freed = []\<rparr>"
  have "rsize_loop 4 0 = 4" by (simp add: rsize_loop.simps)
  then have "n_oash_new_na e 0 None = Inr (ht\<lparr>oa_flags := 0\<rparr>)"
    by (simp add: n_oash_new_na_def ohash_new2_def ohash_new_ex_def ht_def)
  moreover have "n_oash_ctl e (ht\<lparr>oa_flags := 0\<rparr>) (TN_HASH_NOCPKEY OR TN_HASH_REHASH) = Inr (ht, 1)"
    by (simp add: n_oash_ctl_def ht_def)
  moreover have map: "oash_map ht = Map.empty" by (simp add: ht_def oash_map_def oash_list_def)
  moreover have "oash_inv ht"
    using rh_inv_empty [of 4] by (auto simp: oash_inv_def ht_def data_ok_def intro!: exI [of _ 2])
  moreover have "oa_has ht TN_HASH_REHASH" "\<not> oa_has ht TN_HASH_NOREPLACE"
    by (simp_all add: oa_has_def ht_def TN_HASH_NOCPKEY_def TN_HASH_REHASH_def TN_HASH_NOREPLACE_def)
  ultimately show ?thesis
    by (intro exI [of _ "ht\<lparr>oa_flags := 0\<rparr>"] exI [of _ ht]) (auto simp: oash_plain_def keys_of_def, simp_all add: ht_def)
qed

lemma table_ok:
  assumes cf: "chunk_fun_ok cf" and nc: "no_clash K" and inv: "al_inv w K na objs"
  shows "\<exists>na' ht objs'. al_table e cf na = Inr (na', ht) \<and> al_ht na' = Some ht \<and> al_inv w K na' (objs' @ objs) \<and>
    al_map na' = al_map na"
proof (cases "al_ht na")
  case (Some ht)
  then show ?thesis using inv by (intro exI [of _ na] exI [of _ ht] exI [of _ "[]"]) (simp add: al_table_def)
next
  case None
  then have zero: "al_refcnt na = 0" "al_flags na AND ucast TN_ALLOC_OBSTACK \<noteq> 0"
    using inv by (simp_all add: al_inv_def al_table_ok_def al_has_obstack_def)
  then have ref: "n_ref e (al_refcnt na) = Inr (al_refcnt na + 1)" by (simp add: n_ref_def)
  have "ob_holds (al_ob (na\<lparr>al_refcnt := al_refcnt na + 1\<rparr>)) objs []" using inv by (simp add: al_inv_def)
  from al_calloc_ok [OF cf this, of 56] obtain h' p where
    h': "aobstack_calloc cf (na\<lparr>al_refcnt := al_refcnt na + 1\<rparr>) 56 = Inr (na\<lparr>al_refcnt := al_refcnt na + 1, al_ob := h'\<rparr>, p)"
    "ob_holds h' ((p, replicate 56 (Some 0)) # objs) []" by auto
  from new_table [of e K] nc obtain ht0 ht where ht: "n_oash_new_na e 0 None = Inr ht0"
    "n_oash_ctl e ht0 (TN_HASH_NOCPKEY OR TN_HASH_REHASH) = Inr (ht, 1)" "oash_plain K ht" "oa_free_fn ht = None"
    "oa_refcnt ht = 0" "oash_map ht = Map.empty" by blast
  then show ?thesis using None ref h' zero
    by (intro exI [of _ "na\<lparr>al_refcnt := al_refcnt na + 1, al_ob := h', al_ht := Some ht\<rparr>"] exI [of _ ht]
        exI [of _ "[(p, replicate 56 (Some 0))]"])
      (simp add: al_table_def al_inv_def al_table_ok_def al_map_def al_has_obstack_def)
qed

lemma entry_ok:
  assumes cf: "chunk_fun_ok cf" and nc: "no_clash K" and inv: "al_inv w K na objs"
    and k: "key_ok k" "k \<in> K" and room: "card (dom (al_map na)) < 32768"
  shows "\<exists>na' ht di d objs'. al_entry e cf na k = Inr (na', ht, Some di) \<and> al_ht na' = Some ht \<and>
    al_inv w K na' (objs' @ objs) \<and> di < length (oa_data ht) \<and> oa_data ht ! di = Some d \<and> de_key d = k \<and>
    al_map na' = (al_map na)(k \<mapsto> de_data d) \<and> de_data d = (case al_map na k of None \<Rightarrow> NULL | Some p \<Rightarrow> p)"
proof -
  from table_ok [OF cf nc inv, of e] obtain na1 ht objs1 where
    t: "al_table e cf na = Inr (na1, ht)" "al_ht na1 = Some ht" "al_inv w K na1 (objs1 @ objs)" "al_map na1 = al_map na" by blast
  have ht: "oash_plain K ht" "oa_free_fn ht = None" "oa_refcnt ht = 0" "al_map na = oash_map ht"
    and na1: "al_refcnt na1 = 1" "al_has_obstack na1"
    using t by (auto simp: al_inv_def al_table_ok_def al_map_def)
  have "card (dom (oash_map ht)) < 32768" using room ht(4) by simp
  from get_insert_ok [OF ht(1) k this, of e] obtain ht' di d where
    g: "n_oash_get_insert e ht k = Inr (ht', Some di)" "oash_plain K ht'" "di < length (oa_data ht')" "oa_data ht' ! di = Some d"
      "de_key d = k" "oash_map ht' = (oash_map ht)(k \<mapsto> de_data d)" "oash_conf ht' = oash_conf ht"
      "de_data d = (case oash_map ht k of None \<Rightarrow> NULL | Some p \<Rightarrow> p)" by blast
  have "ob_holds (al_ob na1) (objs1 @ objs) []" using t(3) by (simp add: al_inv_def)
  from al_malloc_ok [OF cf this, of 16] obtain h2 p where
    m: "aobstack_malloc cf na1 16 = Inr (na1\<lparr>al_ob := h2\<rparr>, p)" "ob_holds h2 ((p, replicate 16 None) # objs1 @ objs) []" by auto
  define grown where "grown \<longleftrightarrow> oa_size ht' > oa_size ht"
  define objs2 where "objs2 = (if grown then (p, replicate 16 None) # objs1 else objs1)"
  define na2 where "na2 = (if grown then na1\<lparr>al_ob := h2\<rparr> else na1)\<lparr>al_ht := Some ht'\<rparr>"
  have "al_entry e cf na k = Inr (na2, ht', Some di)"
    using t(1) g(1) m(1) by (simp add: al_entry_def na2_def grown_def)
  moreover have "ob_holds (al_ob na2) (objs2 @ objs) []" using m(2) t(3) by (auto simp: na2_def objs2_def al_inv_def)
  moreover have "al_table_ok K na2" using g(2,7) ht(2,3) na1 by (auto simp: al_table_ok_def na2_def oash_conf_def al_has_obstack_def)
  moreover have map: "al_map na2 = (al_map na)(k \<mapsto> de_data d)" using g(6) ht(4) by (simp add: al_map_def na2_def)
  moreover have "p = NULL \<or> (\<exists>q. (q, map Some (str_block w k')) \<in> set (objs2 @ objs) \<and> p = word_of_int q)"
    if "al_map na2 k' = Some p" for k' p
  proof -
    have "al_map na k' = Some p \<or> p = NULL"
      using that g(8) ht(4) map by (cases "k' = k"; cases "oash_map ht k") auto
    then show ?thesis using t(3,4) unfolding al_inv_def objs2_def by auto
  qed
  ultimately show ?thesis using g ht(4)
    by (intro exI [of _ na2] exI [of _ ht'] exI [of _ di] exI [of _ d] exI [of _ objs2]) (simp add: al_inv_def na2_def)
qed

section \<open>Strings\<close>

lemma new_str_ok:
  assumes cf: "chunk_fun_ok cf" and inv: "al_inv w K na objs" and ht: "al_ht na = Some ht"
    and cell: "di < length (oa_data ht)" "oa_data ht ! di = Some d" "de_key d = k" and k: "key_ok k"
  shows "\<exists>na' q. al_new_str cf na ht di (str_block w k) k = Inr (na', word_of_int q) \<and>
    al_inv w K na' ((q, map Some (str_block w k)) # objs) \<and> al_map na' = (al_map na)(k \<mapsto> word_of_int q)"
proof -
  let ?b = "str_block w k"
  have "length ?b < 2 ^ 31" using k by (auto simp: str_block_def str8_block_def str16_block_def key_ok_def)
  moreover have "ob_holds (al_ob na) objs []" using inv by (simp add: al_inv_def)
  ultimately obtain h1 q where m1: "aobstack_malloc cf na (length ?b) = Inr (na\<lparr>al_ob := h1\<rparr>, q)"
    "\<forall>bs. length bs = length ?b \<longrightarrow> (\<exists>h2. al_poke (na\<lparr>al_ob := h1\<rparr>) q bs = Inr (na\<lparr>al_ob := h2\<rparr>) \<and>
      ob_holds h2 ((q, map Some bs) # objs) [])"
    using al_malloc_ok [OF cf, of na objs "length ?b"] by blast
  then obtain h2 where m: "aobstack_malloc cf na (length ?b) = Inr (na\<lparr>al_ob := h1\<rparr>, q)"
    "al_poke (na\<lparr>al_ob := h1\<rparr>) q ?b = Inr (na\<lparr>al_ob := h2\<rparr>)" "ob_holds h2 ((q, map Some ?b) # objs) []" by blast
  define ht' where "ht' = ht\<lparr>oa_data := (oa_data ht)[di := Some \<lparr>de_data = word_of_int q, de_key = k\<rparr>]\<rparr>"
  have t: "oash_plain K ht" "oa_free_fn ht = None" "oa_refcnt ht = 0" "al_refcnt na = 1" "al_has_obstack na" using inv ht by (auto simp: al_inv_def al_table_ok_def)
  have t': "oash_plain K ht'" "oash_map ht' = (oash_map ht)(k \<mapsto> word_of_int q)" "oash_conf ht' = oash_conf ht"
    using set_cell_ok [OF t(1,2) cell(1,2), of "word_of_int q"] cell(3) unfolding ht'_def by auto
  define na' where "na' = na\<lparr>al_ob := h2, al_ht := Some ht'\<rparr>"
  have "al_new_str cf na ht di ?b k = Inr (na', word_of_int q)" using m by (simp add: al_new_str_def na'_def ht'_def)
  moreover have map: "al_map na' = (al_map na)(k \<mapsto> word_of_int q)" using t'(2) ht by (simp add: al_map_def na'_def)
  moreover have "al_inv w K na' ((q, map Some ?b) # objs)"
    unfolding al_inv_def
  proof (intro conjI allI impI)
    show "ob_holds (al_ob na') ((q, map Some ?b) # objs) []" using m(3) by (simp add: na'_def)
    show "al_table_ok K na'" using t t'(1,3) by (simp add: al_table_ok_def na'_def oash_conf_def al_has_obstack_def)
    fix k' p assume "al_map na' k' = Some p"
    then have "k' = k \<and> p = word_of_int q \<or> al_map na k' = Some p" unfolding map by (auto split: if_splits)
    then show "p = NULL \<or> (\<exists>r. (r, map Some (str_block w k')) \<in> set ((q, map Some ?b) # objs) \<and> p = word_of_int r)"
      using inv by (auto simp: al_inv_def)
  qed
  ultimately show ?thesis by blast
qed

lemma alloc_str_ok:
  assumes cf: "chunk_fun_ok cf" and nc: "no_clash K" and inv: "al_inv w K na objs" and w: "w = 255 \<or> w = 65535"
    and k: "key_ok k" "k \<in> K" and room: "card (dom (al_map na)) < 32768"
  shows "\<exists>na' q objs'. aobstack_alloc_str e cf na w k = Inr (na', word_of_int q) \<and> al_inv w K na' (objs' @ objs) \<and>
    (q, map Some (str_block w k)) \<in> set (objs' @ objs) \<and> al_map na' = (al_map na)(k \<mapsto> word_of_int q) \<and>
    (\<forall>p. al_map na k = Some p \<longrightarrow> p \<noteq> NULL \<longrightarrow> p = word_of_int q)"
proof -
  from entry_ok [OF cf nc inv k room, of e] obtain na1 ht di d objs1 where
    en: "al_entry e cf na k = Inr (na1, ht, Some di)" "al_ht na1 = Some ht" "al_inv w K na1 (objs1 @ objs)"
      "di < length (oa_data ht)" "oa_data ht ! di = Some d" "de_key d = k" "al_map na1 = (al_map na)(k \<mapsto> de_data d)"
      "de_data d = (case al_map na k of None \<Rightarrow> NULL | Some p \<Rightarrow> p)" by blast
  have start: "aobstack_alloc_str e cf na w k = (if de_data d \<noteq> NULL then Inr (na1, de_data d)
      else al_new_str cf na1 ht di (str_block w k) k)"
    using k(1) w en by (auto simp: aobstack_alloc_str_def key_ok_def mem_read_def str_block_def)
  show ?thesis
  proof (cases "de_data d = NULL")
    case True
    from new_str_ok [OF cf en(3,2,4,5,6) k(1)] obtain na' q where
      n: "al_new_str cf na1 ht di (str_block w k) k = Inr (na', word_of_int q)"
        "al_inv w K na' ((q, map Some (str_block w k)) # objs1 @ objs)" "al_map na' = (al_map na1)(k \<mapsto> word_of_int q)" by blast
    have "\<forall>p. al_map na k = Some p \<longrightarrow> p \<noteq> NULL \<longrightarrow> p = word_of_int q" using en(8) True by auto
    with n True start en(7) show ?thesis
      by (intro exI [of _ na'] exI [of _ q] exI [of _ "(q, map Some (str_block w k)) # objs1"]) simp
  next
    case False
    then obtain p where p: "al_map na k = Some p" "p = de_data d" using en(8) by (cases "al_map na k") auto
    have "al_map na1 k = Some p" using en(7) p(2) by simp
    then obtain q where q: "(q, map Some (str_block w k)) \<in> set (objs1 @ objs)" "p = word_of_int q"
      using en(3) False p(2) unfolding al_inv_def by blast
    with p False start en(3,7) show ?thesis
      by (intro exI [of _ na1] exI [of _ q] exI [of _ objs1]) simp
  qed
qed

fun alloc_all :: "env \<Rightarrow> chunk_fun \<Rightarrow> nat \<Rightarrow> tn_alloc \<Rightarrow> bytes list \<Rightarrow> (tn_alloc \<times> ptr list) result" where
  "alloc_all e cf w na [] = Inr (na, [])"
| "alloc_all e cf w na (s # ss) = rbind (aobstack_alloc_str e cf na w s) (\<lambda>(na, p).
     rbind (alloc_all e cf w na ss) (\<lambda>(na, ps). Inr (na, p # ps)))"

text \<open>Every address fits a pointer.\<close>

definition fits_ptr :: "(int \<times> cells) list \<Rightarrow> bool" where
  "fits_ptr objs \<longleftrightarrow> (\<forall>(q, x)\<in>set objs. x \<noteq> [] \<longrightarrow> q < 2 ^ 64)"

lemma str_block_Cons: "str_block w s \<noteq> []"
  by (simp add: str_block_def str8_block_def str16_block_def)

lemma uint_addr: "0 < q \<Longrightarrow> q < 2 ^ 64 \<Longrightarrow> uint (word_of_int q :: ptr) = q"
  by (simp add: uint_word_of_int)

lemma block_ptr:
  assumes "al_inv w K na objs" "(q, map Some (str_block w s)) \<in> set objs" "fits_ptr objs"
  shows "uint (word_of_int q :: ptr) = q" "word_of_int q \<noteq> NULL"
proof -
  have "0 < q" using assms(1,2) holds_object str_block_Cons by (fastforce simp: al_inv_def)
  moreover have "q < 2 ^ 64" using assms(2,3) str_block_Cons by (force simp: fits_ptr_def)
  ultimately show "uint (word_of_int q :: ptr) = q" by (rule uint_addr)
  with \<open>0 < q\<close> show "word_of_int q \<noteq> NULL" by (metis less_irrefl unsigned_0)
qed

definition is_block :: "nat \<Rightarrow> (int \<times> cells) list \<Rightarrow> bytes \<Rightarrow> ptr \<Rightarrow> bool" where
  "is_block w objs s p \<longleftrightarrow> (\<exists>q. (q, map Some (str_block w s)) \<in> set objs \<and> p = word_of_int q)"

lemma alloc_all_ok:
  assumes cf: "chunk_fun_ok cf" and nc: "no_clash K" and w: "w = 255 \<or> w = 65535"
    and ss: "\<forall>s\<in>set ss. key_ok s \<and> s \<in> K"
  shows "al_inv w K na objs \<Longrightarrow> card (dom (al_map na)) + length ss \<le> 32768 \<Longrightarrow> finite (dom (al_map na)) \<Longrightarrow>
    \<exists>na' ps objs'. alloc_all e cf w na ss = Inr (na', ps) \<and> al_inv w K na' (objs' @ objs) \<and>
      list_all2 (is_block w (objs' @ objs)) ss ps \<and>
      (fits_ptr (objs' @ objs) \<longrightarrow> (\<forall>(s, p)\<in>set (zip ss ps). al_map na' s = Some p) \<and>
        (\<forall>k p. al_map na k = Some p \<longrightarrow> p \<noteq> NULL \<longrightarrow> al_map na' k = Some p))"
  using ss
proof (induction ss arbitrary: na objs)
  case Nil
  then show ?case by (intro exI [of _ na] exI [of _ "[]"]) simp
next
  case (Cons s ss)
  have "card (dom (al_map na)) < 32768" using Cons.prems(2) by simp
  from alloc_str_ok [OF cf nc Cons.prems(1) w _ _ this, of s e] Cons.prems(4) obtain na1 q objs1 where
    a: "aobstack_alloc_str e cf na w s = Inr (na1, word_of_int q)" "al_inv w K na1 (objs1 @ objs)"
      "(q, map Some (str_block w s)) \<in> set (objs1 @ objs)" "al_map na1 = (al_map na)(s \<mapsto> word_of_int q)"
      "\<forall>p. al_map na s = Some p \<longrightarrow> p \<noteq> NULL \<longrightarrow> p = word_of_int q" by auto
  have "card (dom (al_map na1)) \<le> Suc (card (dom (al_map na)))" "finite (dom (al_map na1))"
    using Cons.prems(3) by (simp_all add: a(4) card_insert_if)
  then obtain na' ps objs2 where r: "alloc_all e cf w na1 ss = Inr (na', ps)" "al_inv w K na' (objs2 @ objs1 @ objs)"
    "list_all2 (is_block w (objs2 @ objs1 @ objs)) ss ps"
    "fits_ptr (objs2 @ objs1 @ objs) \<longrightarrow> (\<forall>(s, p)\<in>set (zip ss ps). al_map na' s = Some p) \<and>
        (\<forall>k p. al_map na1 k = Some p \<longrightarrow> p \<noteq> NULL \<longrightarrow> al_map na' k = Some p)"
    using Cons.IH [OF a(2)] Cons.prems(2,4) by auto
  have "is_block w (objs2 @ objs1 @ objs) s (word_of_int q)" using a(3) by (auto simp: is_block_def)
  moreover have "al_map na' s = Some (word_of_int q)" if "fits_ptr (objs2 @ objs1 @ objs)"
    using r(4) that block_ptr(2) [OF r(2) _ that, of q s] a(3,4) by simp
  moreover have "al_map na' k = Some p"
    if "fits_ptr (objs2 @ objs1 @ objs)" "al_map na k = Some p" "p \<noteq> NULL" for k p
    using r(4) that a(4,5) by (cases "k = s") auto
  ultimately show ?case using a(1) r
    by (intro exI [of _ na'] exI [of _ "word_of_int q # ps"] exI [of _ "objs2 @ objs1"]) simp
qed

section \<open>New allocators\<close>

lemma unaligned_holds: "ob_holds h objs cur \<Longrightarrow> ob_holds (h\<lparr>ob_alignment_mask := 0\<rparr>) objs cur"
proof -
  assume "ob_holds h objs cur"
  then obtain c cs os oss where parts: "ob_parts h c cs os oss cur" and objs: "objs = os @ concat oss"
    and bytes: "ob_bytes h objs cur" by (rule holdsE)
  have "mask_ok 0" by (auto simp: mask_ok_def)
  moreover have "list_all2 (placed 0) (c # cs) (os # oss)"
    using parts by (auto simp: ob_parts_def placed_def list_all2_conv_all_nth)
  ultimately have "ob_parts (h\<lparr>ob_alignment_mask := 0\<rparr>) c cs os oss cur" using parts by (simp add: ob_parts_def)
  with objs bytes show ?thesis by (intro holdsI) (auto simp: ob_bytes_def)
qed

lemma chunk_size_holds: "ob_holds h objs cur \<Longrightarrow> ob_holds (h\<lparr>ob_chunk_size := n\<rparr>) objs cur"
  by (simp add: ob_holds_def ob_parts_def ob_bytes_def)

lemma n_alloc_new_ok:
  assumes "chunk_fun_ok cf"
  shows "\<exists>na. n_alloc_new e cf unaligned kb TN_ALLOC_OBSTACK = Inr na \<and> al_inv w K na [] \<and> al_map na = Map.empty"
proof -
  from begin_rel [OF assms, of 0 0 no_obstack] obtain h0 where h0: "ob_begin cf no_obstack 0 0 = Inr (h0, True)"
    "ob_holds h0 [] []" by (auto simp: alignment_ok_def ob_rel_def)
  then show ?thesis
    using chunk_size_holds [OF h0(2)] unaligned_holds [OF chunk_size_holds [OF h0(2)]]
    by (auto simp: n_alloc_new_def TN_ALLOC_OBSTACK_def TN_ALLOC_MALLOC_def al_inv_def al_table_ok_def al_map_def
        al_has_obstack_def Let_def)
qed

section \<open>Freeing\<close>

lemma oash_free_slots_ok:
  assumes "\<forall>t\<in>set ts. te_hash t \<noteq> 0 \<longrightarrow> te_di t < length (oa_data ht)" "oa_free_fn ht = None"
  shows "oash_free_slots ht ts = Inr ht"
  using assms
proof (induction ts arbitrary: ht)
  case (Cons t ts)
  have "(case oa_data ht ! te_di t of None \<Rightarrow> ht | Some d \<Rightarrow> oa_free ht (de_data d)) = ht"
    using Cons.prems(2) by (cases "oa_data ht ! te_di t") (simp_all add: oa_free_def)
  moreover have "oash_free_slots ht ts = Inr ht" using Cons by simp
  ultimately show ?case using Cons.prems(1) by (simp add: mem_read_def)
qed simp

lemma oash_free_ok:
  assumes "oash_inv ht" "oa_free_fn ht = None" "oa_refcnt ht = 0"
  shows "n_oash_free ht = Inr (None, oa_freed ht)"
proof -
  have "te_di t < length (oa_data ht)" if "t \<in> set (take (oa_cap ht) (oa_table ht))" "te_hash t \<noteq> 0" for t
  proof -
    from that obtain j where j: "j < oa_cap ht" "oa_table ht ! j = t" "j < length (oa_table ht)"
      by (auto simp: in_set_conv_nth)
    with that(2) have "used (oa_table ht ! j)" by (simp add: used_def)
    then have "holds_key ht (slot_key ht j) j" using j by (simp add: holds_key_def)
    from slot_dentry [OF assms(1) this] j(2) show ?thesis by auto
  qed
  then show ?thesis using oash_free_slots_ok [OF _ assms(2)] assms(3) by (simp add: n_oash_free_def)
qed

lemma obstack_free_all:
  assumes "ob_holds h objs cur"
  shows "\<exists>h'. obstack_free h 0 = Inr h' \<and> ob_chunks h' = []"
proof -
  from assms obtain c cs os oss where "ob_parts h c cs os oss cur" by (rule holdsE)
  then have c: "ob_chunks h = c # cs" "\<forall>d\<in>set (c # cs). 0 < ck_addr d" by (auto simp: ob_parts_def chunk_ok_def list_all_iff)
  have "fst (free_chunks 0 ds) = []" if "\<forall>d\<in>set ds. 0 < ck_addr d" for ds
    using that by (induction ds) auto
  with c(2) have "fst (free_chunks 0 (c # cs)) = []" by blast
  then show ?thesis using c by (auto simp: obstack_free_def ob_free_def Let_def split: prod.splits)
qed

fun free_calls :: "env \<Rightarrow> tn_alloc \<Rightarrow> nat \<Rightarrow> tn_alloc option result" where
  "free_calls e na 0 = Inr (Some na)"
| "free_calls e na (Suc n) = rbind (n_alloc_free e na) (\<lambda>na. case na of
     None \<Rightarrow> if n = 0 then Inr None else Inl Mem_Fault | Some na \<Rightarrow> free_calls e na n)"

text \<open>\<open>r\<close> more references are held, by tables and arrays made with the allocator.\<close>

definition with_refs :: "tn_alloc \<Rightarrow> nat \<Rightarrow> tn_alloc" where
  "with_refs na r = na\<lparr>al_refcnt := al_refcnt na + word_of_nat r\<rparr>"

lemma n_alloc_free_dec:
  "al_refcnt na > 0 \<Longrightarrow> al_ht na = None \<or> al_refcnt na \<noteq> 1 \<Longrightarrow>
   n_alloc_free e na = Inr (Some (na\<lparr>al_refcnt := al_refcnt na - 1\<rparr>))"
  by (auto simp: n_alloc_free.simps [of e na] split: option.splits)

lemma refs_pos: "0 < k \<Longrightarrow> k < 65536 \<Longrightarrow> (word_of_nat k :: 16 word) > 0"
  by (simp add: word_gt_0 word_of_nat_eq_0_iff nat_dvd_not_less)

lemma refs_not_1: "1 < k \<Longrightarrow> k < 65536 \<Longrightarrow> (word_of_nat k :: 16 word) \<noteq> 1"
proof
  assume "1 < k" "k < 65536" "(word_of_nat k :: 16 word) = 1"
  then have "unat (word_of_nat k :: 16 word) = 1" by simp
  with \<open>1 < k\<close> \<open>k < 65536\<close> show False by (simp add: unat_of_nat)
qed

lemma with_refs_step:
  assumes "al_inv w K na objs" "r < 65000"
  shows "n_alloc_free e (with_refs na (Suc r)) = Inr (Some (with_refs na r))"
proof -
  define b where "b = (if al_ht na = None then 0 else 1 :: nat)"
  have "al_refcnt na = word_of_nat b" using assms(1) by (auto simp: al_inv_def al_table_ok_def b_def split: option.splits)
  then have c: "al_refcnt (with_refs na (Suc r)) = word_of_nat (b + Suc r)" by (simp add: with_refs_def)
  have "al_refcnt (with_refs na (Suc r)) > 0" unfolding c using assms(2) by (intro refs_pos) (auto simp: b_def)
  moreover have "al_ht na \<noteq> None \<Longrightarrow> al_refcnt (with_refs na (Suc r)) \<noteq> 1"
    unfolding c using assms(2) by (intro refs_not_1) (auto simp: b_def)
  moreover have "al_ht (with_refs na (Suc r)) = al_ht na" by (simp add: with_refs_def)
  ultimately have "n_alloc_free e (with_refs na (Suc r)) =
      Inr (Some ((with_refs na (Suc r))\<lparr>al_refcnt := al_refcnt (with_refs na (Suc r)) - 1\<rparr>))"
    by (intro n_alloc_free_dec) auto
  then show ?thesis by (simp add: with_refs_def)
qed

lemma n_alloc_free_last:
  assumes "al_inv w K na objs"
  shows "n_alloc_free e na = Inr None"
proof -
  have ob: "al_has_obstack na" "ob_holds (al_ob na) objs []" using assms by (auto simp: al_inv_def al_table_ok_def)
  from obstack_free_all [OF ob(2)] obtain h' where h': "obstack_free (al_ob na) 0 = Inr h'" by blast
  show ?thesis
  proof (cases "al_ht na")
    case None
    then show ?thesis using assms h' ob(1) by (simp add: n_alloc_free.simps [of e na] al_inv_def al_table_ok_def)
  next
    case (Some ht)
    then have ht: "oash_inv ht" "oa_free_fn ht = None" "oa_refcnt ht = 0" "al_refcnt na = 1"
      using assms by (auto simp: al_inv_def al_table_ok_def oash_plain_def)
    have "n_alloc_free e (na\<lparr>al_ht := None\<rparr>) = Inr (Some (na\<lparr>al_ht := None, al_refcnt := 0\<rparr>))"
      using ht(4) by (simp add: n_alloc_free.simps [of e "na\<lparr>al_ht := None\<rparr>"])
    then show ?thesis using Some ht h' ob(1) oash_free_ok [OF ht(1-3)]
      by (simp add: n_alloc_free.simps [of e na] al_has_obstack_def)
  qed
qed

lemma free_calls_ok:
  assumes "al_inv w K na objs"
  shows "r < 65000 \<Longrightarrow> k \<le> r \<Longrightarrow> free_calls e (with_refs na r) k = Inr (Some (with_refs na (r - k)))"
    and "r < 65000 \<Longrightarrow> free_calls e (with_refs na r) (Suc r) = Inr None"
proof -
  show "r < 65000 \<Longrightarrow> k \<le> r \<Longrightarrow> free_calls e (with_refs na r) k = Inr (Some (with_refs na (r - k)))"
  proof (induction k arbitrary: r)
    case (Suc k)
    then obtain r' where r: "r = Suc r'" by (cases r) auto
    with Suc with_refs_step [OF assms, of r' e] show ?case by simp
  qed simp
  show "r < 65000 \<Longrightarrow> free_calls e (with_refs na r) (Suc r) = Inr None"
  proof (induction r)
    case 0
    have "with_refs na 0 = na" by (simp add: with_refs_def)
    then show ?case using n_alloc_free_last [OF assms, of e] by simp
  next
    case (Suc r)
    with with_refs_step [OF assms, of r e] show ?case by simp
  qed
qed

section \<open>The properties\<close>

lemma blocks_differ:
  assumes "ob_holds h objs cur" "(q, x) \<in> set objs" "(q, y) \<in> set objs" "x \<noteq> []" "y \<noteq> []"
  shows "x = y"
proof (rule ccontr)
  assume ne: "x \<noteq> y"
  obtain i where i: "i < length objs" "objs ! i = (q, x)" using assms(2) by (auto simp: in_set_conv_nth)
  obtain j where j: "j < length objs" "objs ! j = (q, y)" using assms(3) by (auto simp: in_set_conv_nth)
  have "i \<noteq> j" using i j ne by auto
  then have "clear_of (q, x) (q, y) \<or> clear_of (q, y) (q, x)"
    using sorted_wrt_nth_less [OF holds_clear [OF assms(1)], of i j] sorted_wrt_nth_less [OF holds_clear [OF assms(1)], of j i] i j
    by (cases "i < j") auto
  then show False using assms(4,5) by (auto simp: clear_of_def)
qed

lemma str_block_inj: "str_block w s = str_block w t \<Longrightarrow> s = t"
  by (auto simp: str_block_def str8_block_def str16_block_def split: if_splits)

lemma block_in_chunk:
  assumes "ob_holds h objs cur" "\<forall>c\<in>set (ob_chunks h). ck_limit c \<le> 2 ^ 64"
  shows "fits_ptr objs"
proof -
  from assms(1) obtain c cs os oss where parts: "ob_parts h c cs os oss cur" and objs: "objs = os @ concat oss"
    by (rule holdsE)
  have "q < 2 ^ 64" if "(q, x) \<in> set objs" "x \<noteq> []" for q x
  proof -
    from objects_in_chunks [OF parts, of q x] that(1) objs obtain d where
      "d \<in> set (c # cs)" "q + int (length x) \<le> ck_limit d" by auto
    moreover have "set (ob_chunks h) = set (c # cs)" using parts by (simp add: ob_parts_def)
    with calculation(1) have "ck_limit d \<le> 2 ^ 64" using assms(2) by blast
    ultimately show ?thesis using that(2) by (cases x) auto
  qed
  then show ?thesis by (auto simp: fits_ptr_def)
qed



section \<open>A run inside one chunk\<close>

text \<open>While the first chunk has room, no other is taken.\<close>

definition al_room :: "tn_alloc \<Rightarrow> int \<Rightarrow> bool" where
  "al_room na r \<longleftrightarrow> \<not> ob_alloc_failed (al_ob na) \<and> ob_alignment_mask (al_ob na) = 0 \<and>
     ob_next_free (al_ob na) + r \<le> ob_chunk_limit (al_ob na)"

definition same_chunks :: "tn_alloc \<Rightarrow> tn_alloc \<Rightarrow> int \<Rightarrow> bool" where
  "same_chunks na na' r \<longleftrightarrow> al_room na' r \<and> ob_chunks (al_ob na') = ob_chunks (al_ob na)"

lemma same_chunks_trans: "same_chunks na na1 r1 \<Longrightarrow> same_chunks na1 na2 r2 \<Longrightarrow> same_chunks na na2 r2"
  by (simp add: same_chunks_def)

lemma malloc_room:
  assumes "aobstack_malloc cf na n = Inr (na', p)" "al_room na (int n + r)" "n < 2 ^ 31" "0 \<le> r"
  shows "same_chunks na na' r"
  using assms c_int_small [OF assms(3)]
  by (auto simp: aobstack_malloc_def obstack_alloc_def obstack_blank_def obstack_finish_def al_room_def
      same_chunks_def Let_def split: if_splits)

lemma poke_room: "al_poke na p bs = Inr na' \<Longrightarrow> al_room na r \<Longrightarrow> same_chunks na na' r"
  by (auto simp: al_poke_def same_chunks_def al_room_def rbind_eq_Inr)

lemma calloc_room:
  assumes "aobstack_calloc cf na n = Inr (na', p)" "al_room na (int n + r)" "n < 2 ^ 31" "0 \<le> r"
  shows "same_chunks na na' r"
proof -
  from assms(1) obtain na1 where "aobstack_malloc cf na n = Inr (na1, p)" "al_poke na1 p (replicate n 0) = Inr na'"
    by (auto simp: aobstack_calloc_def rbind_eq_Inr)
  with malloc_room [OF _ assms(2-4)] poke_room show ?thesis unfolding same_chunks_def by metis
qed

lemma entry_room:
  assumes "al_entry e cf na str = Inr (na', ht, de)" "al_room na (72 + r)" "0 \<le> r"
  shows "same_chunks na na' r"
proof -
  from assms(1) obtain na1 ht1 where t1: "al_table e cf na = Inr (na1, ht1)" by (auto simp: al_entry_def rbind_eq_Inr)
  with assms(1) have "rbind (if oa_size ht > oa_size ht1 then rbind (aobstack_malloc cf na1 16) (\<lambda>(na, _). Inr na) else Inr na1)
      (\<lambda>na. Inr (na\<lparr>al_ht := Some ht\<rparr>, ht, de)) = Inr (na', ht, de)"
    by (cases "n_oash_get_insert e ht1 str") (auto simp: al_entry_def rbind_eq_Inr split: if_splits)
  then obtain na2 where t: "(if oa_size ht > oa_size ht1 then rbind (aobstack_malloc cf na1 16) (\<lambda>(na, _). Inr na) else Inr na1) = Inr na2"
    "na' = na2\<lparr>al_ht := Some ht\<rparr>" by (auto simp: rbind_eq_Inr split del: if_split)
  have "same_chunks na na1 (16 + r)"
  proof (cases "al_ht na")
    case (Some h)
    then show ?thesis using t1 assms(2) by (auto simp: al_table_def same_chunks_def al_room_def)
  next
    case None
    with t1 obtain v na3 p h where "aobstack_calloc cf (na\<lparr>al_refcnt := v\<rparr>) 56 = Inr (na3, p)"
      "na1 = na3\<lparr>al_ht := Some h\<rparr>" by (auto simp: al_table_def rbind_eq_Inr)
    with calloc_room [of cf "na\<lparr>al_refcnt := v\<rparr>" 56 na3 p "16 + r"] assms(2,3) show ?thesis
      by (simp add: same_chunks_def al_room_def)
  qed
  moreover have "same_chunks na1 na2 r"
    using t(1) calculation malloc_room [of cf na1 16 na2 _ r] assms(3)
    by (auto simp: rbind_eq_Inr same_chunks_def al_room_def split: if_splits)
  moreover have "same_chunks na2 na' r" using calculation(2) t(2) by (simp add: same_chunks_def al_room_def)
  ultimately show ?thesis using same_chunks_trans by blast
qed

lemma alloc_str_room:
  assumes "aobstack_alloc_str e cf na w str = Inr (na', p)" "al_room na (76 + int (length str) + r)" "0 \<le> r"
    "w = 255 \<or> w = 65535" "key_ok str" "\<not> assert_hook e"
  shows "same_chunks na na' r"
proof -
  have block: "length (str_block w str) \<le> length str + 3" "length (str_block w str) < 2 ^ 31"
    using assms(5) by (auto simp: str_block_def str8_block_def str16_block_def key_ok_def)
  from assms(1,5) obtain na1 ht de where en: "al_entry e cf na str = Inr (na1, ht, de)"
    by (auto simp: aobstack_alloc_str_def key_ok_def rbind_eq_Inr)
  with assms(1,5,6) obtain di d where de: "de = Some di" "mem_read (oa_data ht) di = Inr (Some d)"
    by (cases de) (auto simp: aobstack_alloc_str_def key_ok_def n_assert_def rbind_eq_Inr split: option.splits)
  then have rest: "na' = na1 \<or> (\<exists>di. al_new_str cf na1 ht di (str_block w str) str = Inr (na', p))"
    using assms(1,4,5) en by (cases "de_data d = NULL") (auto simp: aobstack_alloc_str_def key_ok_def str_block_def)
  from entry_room [OF en, of "int (length str) + 3 + r"] assms(2,3)
  have r1: "same_chunks na na1 (int (length str) + 3 + r)" by (simp add: add.commute add.left_commute al_room_def)
  from rest show ?thesis
  proof
    assume "na' = na1"
    then show ?thesis using r1 by (auto simp: same_chunks_def al_room_def)
  next
    assume "\<exists>di. al_new_str cf na1 ht di (str_block w str) str = Inr (na', p)"
    then obtain na2 q na3 h where m: "aobstack_malloc cf na1 (length (str_block w str)) = Inr (na2, q)"
      "al_poke na2 q (str_block w str) = Inr na3" "na' = na3\<lparr>al_ht := h\<rparr>"
      by (auto simp: al_new_str_def rbind_eq_Inr split_def)
    have "al_room na1 (int (length (str_block w str)) + r)" using r1 block(1) by (simp add: same_chunks_def al_room_def)
    from malloc_room [OF m(1) this block(2) assms(3)] poke_room [OF m(2)] m(3) r1
    show ?thesis by (auto simp: same_chunks_def al_room_def)
  qed
qed

lemma alloc_all_room:
  assumes "w = 255 \<or> w = 65535" "\<not> assert_hook e"
  shows "alloc_all e cf w na ss = Inr (na', ps) \<Longrightarrow> \<forall>s\<in>set ss. key_ok s \<Longrightarrow>
    al_room na (int (sum_list (map (\<lambda>s. 76 + length s) ss))) \<Longrightarrow> ob_chunks (al_ob na') = ob_chunks (al_ob na)"
proof (induction ss arbitrary: na ps)
  case (Cons s ss)
  from Cons.prems(1) obtain na1 p qs where r: "aobstack_alloc_str e cf na w s = Inr (na1, p)"
    "alloc_all e cf w na1 ss = Inr (na', qs)" by (auto simp: rbind_eq_Inr split_def)
  have "same_chunks na na1 (int (sum_list (map (\<lambda>s. 76 + length s) ss)))"
    using Cons.prems(2,3) assms by (intro alloc_str_room [OF r(1)]) auto
  with Cons.IH [OF r(2)] Cons.prems(2) show ?case by (simp add: same_chunks_def)
qed simp

lemma fresh_alloc:
  "\<exists>na. n_alloc_new plain_env fresh_chunk True 16 TN_ALLOC_OBSTACK = Inr na \<and> al_room na 4000 \<and>
    ob_chunks (al_ob na) = [\<lparr>ck_addr = 16, ck_limit = 4088\<rparr>]"
  by (simp add: n_alloc_new_def TN_ALLOC_OBSTACK_def TN_ALLOC_MALLOC_def ob_begin_def fresh_chunk_def Let_def
      DEFAULT_ALIGNMENT_def DEFAULT_ROUNDING_def al_room_def)



end
