(* ===== verification/Iobuf.thy ===== *)
theory Iobuf
  imports Stream
begin

text \<open>
  The compressed files of \<open>niobuf.c\<close> and their only back end, \<open>niobuf_zstd.c\<close>. The functions
  of the Zstandard library are parameters, the fields of \<open>zstd_lib\<close>: each takes the state of
  a stream, the room in the output buffer and the input that is left, and gives the new
  state, the bytes made, the number of bytes taken and the value returned. A loop that
  never ends is \<open>None\<close> inside this theory and \<open>Hang\<close> for its callers.
\<close>

section \<open>The back end\<close>

definition TRURL_IO_MODE_READ :: int where "TRURL_IO_MODE_READ = 1"
definition TRURL_IO_MODE_WRITE :: int where "TRURL_IO_MODE_WRITE = 2"

record ('c, 'd) zstd_lib =
  z_create_c :: "'c option"
  z_init_c :: "'c \<Rightarrow> int \<Rightarrow> 'c \<times> int"
  z_out_size :: nat
  z_create_d :: "'d option"
  z_init_d :: "'d \<Rightarrow> 'd \<times> int"
  z_in_size :: nat
  z_is_error :: "int \<Rightarrow> bool"
  z_compress :: "'c \<Rightarrow> nat \<Rightarrow> bytes \<Rightarrow> 'c \<times> bytes \<times> nat \<times> int"
  z_flush :: "'c \<Rightarrow> nat \<Rightarrow> 'c \<times> bytes \<times> int"
  z_end :: "'c \<Rightarrow> nat \<Rightarrow> 'c \<times> bytes \<times> int"
  z_decompress :: "'d \<Rightarrow> nat \<Rightarrow> bytes \<Rightarrow> 'd \<times> bytes \<times> nat \<times> int"

text \<open>\<open>zs_src\<close> and \<open>zs_pos\<close> are \<open>inbuf\<close>; \<open>outbuf\<close> is reset before every use.\<close>

record ('c, 'd) zstd_state =
  zs_mode :: int
  zs_c :: "'c option"
  zs_d :: "'d option"
  zs_src :: bytes
  zs_pos :: nat
  zs_bufsize :: nat

definition zstd_new_c_stream :: "('c, 'd) zstd_lib \<Rightarrow> ('c \<times> nat) option" where
  "zstd_new_c_stream lib =
     (case z_create_c lib of None \<Rightarrow> None
      | Some c \<Rightarrow> case z_init_c lib c 3 of (c, rc) \<Rightarrow>
          if z_is_error lib rc then None else Some (c, z_out_size lib))"

definition zstd_new_d_stream :: "('c, 'd) zstd_lib \<Rightarrow> ('d \<times> nat) option" where
  "zstd_new_d_stream lib =
     (case z_create_d lib of None \<Rightarrow> None
      | Some d \<Rightarrow> case z_init_d lib d of (d, rc) \<Rightarrow>
          if z_is_error lib rc then None else Some (d, z_in_size lib))"

definition zstd_new :: "env \<Rightarrow> ('c, 'd) zstd_lib \<Rightarrow> int \<Rightarrow> ('c, 'd) zstd_state option result" where
  "zstd_new e lib mode =
     n_assert e (mode = TRURL_IO_MODE_READ \<or> mode = TRURL_IO_MODE_WRITE)
      (let st = \<lparr>zs_mode = mode, zs_c = None, zs_d = None, zs_src = [], zs_pos = 0, zs_bufsize = 0\<rparr> in
       Inr (if mode = TRURL_IO_MODE_READ
            then map_option (\<lambda>(d, n). st\<lparr>zs_d := Some d, zs_bufsize := n\<rparr>) (zstd_new_d_stream lib)
            else map_option (\<lambda>(c, n). st\<lparr>zs_c := Some c, zs_bufsize := n\<rparr>) (zstd_new_c_stream lib)))"

definition zstd_reset :: "('c, 'd) zstd_lib \<Rightarrow> ('c, 'd) zstd_state \<Rightarrow> ('c, 'd) zstd_state" where
  "zstd_reset lib st =
     (let st = (if zs_mode st = TRURL_IO_MODE_READ
                then st\<lparr>zs_d := map_option fst (zstd_new_d_stream lib)\<rparr>
                else st\<lparr>zs_c := map_option fst (zstd_new_c_stream lib)\<rparr>)
      in st\<lparr>zs_src := [], zs_pos := 0\<rparr>)"

text \<open>The assertion of \<open>fill_inbuf\<close> is the condition under which it is called.\<close>

definition fill_inbuf :: "('c, 'd) zstd_state \<Rightarrow> cfile \<Rightarrow> ('c, 'd) zstd_state \<times> cfile \<times> int" where
  "fill_inbuf st f = (case c_fread f (zs_bufsize st) of (f, got) \<Rightarrow>
     (st\<lparr>zs_src := got, zs_pos := 0\<rparr>, f, c_int (length got)))"

text \<open>The loop of \<open>zstd_read\<close>: \<open>out\<close> is what \<open>dest\<close> holds so far.\<close>

partial_function (option) zstd_read_loop ::
    "env \<Rightarrow> ('c, 'd) zstd_lib \<Rightarrow> nat \<Rightarrow> ('c, 'd) zstd_state \<Rightarrow> cfile \<Rightarrow> bytes \<Rightarrow>
     (('c, 'd) zstd_state \<times> cfile \<times> bytes \<times> int) result option" where
  "zstd_read_loop e lib n st f out =
     (if n \<le> length out then Some (Inr (st, f, out, c_int (length out)))
      else if length (zs_src st) < zs_pos st \<and> \<not> assert_hook e then Some (Inl Assert_Failed)
      else case (if zs_pos st = length (zs_src st) then fill_inbuf st f else (st, f, 1)) of (st, f, k) \<Rightarrow>
        if k = 0 then Some (Inr (st, f, out, c_int (length out)))
        else case zs_d st of None \<Rightarrow> Some (Inl Mem_Fault)
        | Some d \<Rightarrow>
          case z_decompress lib d (n - length out) (drop (zs_pos st) (zs_src st)) of (d, got, used, r) \<Rightarrow>
            let st = st\<lparr>zs_d := Some d, zs_pos := zs_pos st + used\<rparr> in
            if z_is_error lib r then Some (Inr (st, f, out @ got, - 1))
            else zstd_read_loop e lib n st f (out @ got))"

definition zstd_read :: "env \<Rightarrow> ('c, 'd) zstd_lib \<Rightarrow> ('c, 'd) zstd_state \<Rightarrow> cfile \<Rightarrow> nat \<Rightarrow>
    (('c, 'd) zstd_state \<times> cfile \<times> bytes \<times> int) result" where
  "zstd_read e lib st f n =
     (case zstd_read_loop e lib n st f [] of None \<Rightarrow> Inl Hang | Some r \<Rightarrow> r)"

text \<open>\<open>None\<close> when the file takes less than all of the buffer.\<close>

definition flush_outbuf :: "cfile \<Rightarrow> bytes \<Rightarrow> cfile \<times> int" where
  "flush_outbuf f made =
     (if made = [] then (f, 0)
      else case c_fwrite f made of (f, k) \<Rightarrow> if k \<noteq> length made then (f, - 1) else (f, c_int k))"

partial_function (option) zstd_write_loop ::
    "('c, 'd) zstd_lib \<Rightarrow> ('c, 'd) zstd_state \<Rightarrow> cfile \<Rightarrow> bytes \<Rightarrow> nat \<Rightarrow>
     (('c, 'd) zstd_state \<times> cfile \<times> int) result option" where
  "zstd_write_loop lib st f src pos =
     (if length src \<le> pos then Some (Inr (st, f, c_int pos))
      else case zs_c st of None \<Rightarrow> Some (Inl Mem_Fault)
      | Some c \<Rightarrow>
        case z_compress lib c (zs_bufsize st) (drop pos src) of (c, made, used, r) \<Rightarrow>
          let st = st\<lparr>zs_c := Some c\<rparr> in
          if z_is_error lib r then Some (Inr (st, f, - 1))
          else case flush_outbuf f made of (f, nw) \<Rightarrow>
            if nw = - 1 then Some (Inr (st, f, - 1))
            else zstd_write_loop lib st f src (pos + used))"

definition zstd_write :: "('c, 'd) zstd_lib \<Rightarrow> ('c, 'd) zstd_state \<Rightarrow> cfile \<Rightarrow> bytes \<Rightarrow>
    (('c, 'd) zstd_state \<times> cfile \<times> int) result" where
  "zstd_write lib st f src = (case zstd_write_loop lib st f src 0 of None \<Rightarrow> Inl Hang | Some r \<Rightarrow> r)"

partial_function (option) zstd_flush_loop ::
    "('c, 'd) zstd_lib \<Rightarrow> ('c, 'd) zstd_state \<Rightarrow> cfile \<Rightarrow> int \<Rightarrow>
     (('c, 'd) zstd_state \<times> cfile \<times> int) result option" where
  "zstd_flush_loop lib st f nw =
     (case zs_c st of None \<Rightarrow> Some (Inl Mem_Fault)
      | Some c \<Rightarrow>
        case z_flush lib c (zs_bufsize st) of (c, made, n) \<Rightarrow>
          let st = st\<lparr>zs_c := Some c\<rparr> in
          if z_is_error lib n then Some (Inr (st, f, - 1))
          else case flush_outbuf f made of (f, nf) \<Rightarrow>
            if nf = - 1 then Some (Inr (st, f, - 1))
            else if n > 0 then zstd_flush_loop lib st f (nw + nf)
            else Some (Inr (st, f, nw + nf)))"

definition zstd_flush :: "('c, 'd) zstd_lib \<Rightarrow> ('c, 'd) zstd_state \<Rightarrow> cfile \<Rightarrow>
    (('c, 'd) zstd_state \<times> cfile \<times> int) result" where
  "zstd_flush lib st f =
     (if zs_mode st = TRURL_IO_MODE_READ then Inr (st, f, 0)
      else case zstd_flush_loop lib st f 0 of None \<Rightarrow> Inl Hang | Some r \<Rightarrow> r)"

text \<open>The end of the stream is made by one call, whatever it says is left.\<close>

definition zstd_destroy :: "('c, 'd) zstd_lib \<Rightarrow> ('c, 'd) zstd_state \<Rightarrow> cfile \<Rightarrow> (cfile \<times> int) result" where
  "zstd_destroy lib st f =
     (if zs_mode st = TRURL_IO_MODE_READ then Inr (f, 0)
      else rbind (zstd_flush lib st f) (\<lambda>(st, f, _).
        case zs_c st of None \<Rightarrow> Inl Mem_Fault
        | Some c \<Rightarrow> case z_end lib c (zs_bufsize st) of (c, made, n) \<Rightarrow>
            if z_is_error lib n then Inr (f, - 1)
            else case flush_outbuf f made of (f, nw) \<Rightarrow> Inr (f, if nw = - 1 then - 1 else 0)))"

section \<open>The table of functions\<close>

record 's trurl_io =
  io_new :: "int \<Rightarrow> 's option result"
  io_read :: "'s \<Rightarrow> cfile \<Rightarrow> nat \<Rightarrow> ('s \<times> cfile \<times> bytes \<times> int) result"
  io_write :: "'s \<Rightarrow> cfile \<Rightarrow> bytes \<Rightarrow> ('s \<times> cfile \<times> int) result"
  io_flush :: "'s \<Rightarrow> cfile \<Rightarrow> ('s \<times> cfile \<times> int) result"
  io_reset :: "'s \<Rightarrow> 's"
  io_destroy :: "'s \<Rightarrow> cfile \<Rightarrow> (cfile \<times> int) result"

definition zstdio :: "env \<Rightarrow> ('c, 'd) zstd_lib \<Rightarrow> ('c, 'd) zstd_state trurl_io" where
  "zstdio e lib = \<lparr>io_new = zstd_new e lib, io_read = zstd_read e lib, io_write = zstd_write lib,
     io_flush = zstd_flush lib, io_reset = zstd_reset lib, io_destroy = zstd_destroy lib\<rparr>"

section \<open>Buffered files\<close>

text \<open>\<open>ib_state = None\<close>: the back end gave \<open>NULL\<close>, which nobody checks.\<close>

record 's tn_iobuf =
  ib_state :: "'s option"
  ib_mode :: int
  ib_stream :: cfile
  ib_fd :: int
  ib_pos :: int
  ib_seek :: int

definition n_iobuf_new :: "env \<Rightarrow> 's trurl_io \<Rightarrow> int \<Rightarrow> bool \<Rightarrow> cfile \<Rightarrow> 's tn_iobuf result" where
  "n_iobuf_new e io type reading f =
     (let m = (if reading then TRURL_IO_MODE_READ else TRURL_IO_MODE_WRITE) in
      n_assert e (type = TN_STREAM_ZSTDIO)
       (rbind (io_new io m) (\<lambda>st.
         Inr \<lparr>ib_state = st, ib_mode = m, ib_stream = f, ib_fd = 0, ib_pos = 0, ib_seek = 0\<rparr>)))"

text \<open>\<open>file\<close> is what \<open>fopen\<close> or \<open>fdopen\<close> gave, \<open>reading\<close> whether the mode starts with \<open>r\<close>.\<close>

definition n_iobuf_open :: "env \<Rightarrow> 's trurl_io \<Rightarrow> (cfile \<times> int) option \<Rightarrow> bool \<Rightarrow> 's tn_iobuf option result" where
  "n_iobuf_open e io file reading =
     (case file of None \<Rightarrow> Inr None
      | Some (f, fd) \<Rightarrow> rbind (n_iobuf_new e io TN_STREAM_ZSTDIO reading f) (\<lambda>ib. Inr (Some (ib\<lparr>ib_fd := fd\<rparr>))))"

definition n_iobuf_dopen :: "env \<Rightarrow> 's trurl_io \<Rightarrow> int \<Rightarrow> cfile option \<Rightarrow> bool \<Rightarrow> 's tn_iobuf option result" where
  "n_iobuf_dopen e io fd file reading =
     (case file of None \<Rightarrow> Inr None
      | Some f \<Rightarrow> rbind (n_iobuf_new e io TN_STREAM_ZSTDIO reading f) (\<lambda>ib. Inr (Some (ib\<lparr>ib_fd := fd\<rparr>))))"

definition ib_with :: "'s tn_iobuf \<Rightarrow> ('s \<Rightarrow> 'a result) \<Rightarrow> 'a result" where
  "ib_with ib k = (case ib_state ib of None \<Rightarrow> Inl Mem_Fault | Some st \<Rightarrow> k st)"

text \<open>The file that is left; what \<open>destroy\<close> returns is lost, \<open>fclose\<close> succeeds.\<close>

definition n_iobuf_close :: "'s trurl_io \<Rightarrow> 's tn_iobuf \<Rightarrow> (cfile \<times> int) result" where
  "n_iobuf_close io ib = ib_with ib (\<lambda>st. rbind (io_destroy io st (ib_stream ib)) (\<lambda>(f, _). Inr (f, 0)))"

definition io_read_at :: "'s trurl_io \<Rightarrow> 's tn_iobuf \<Rightarrow> nat \<Rightarrow> ('s tn_iobuf \<times> bytes \<times> int) result" where
  "io_read_at io ib n = ib_with ib (\<lambda>st. rbind (io_read io st (ib_stream ib) n) (\<lambda>(st, f, got, r).
     Inr (ib\<lparr>ib_state := Some st, ib_stream := f, ib_pos := ib_pos ib + r\<rparr>, got, r)))"

text \<open>Skipping forward; \<open>left\<close> is an \<open>unsigned\<close>. At the end of the file \<open>ib_seek\<close> stays as it was.\<close>

partial_function (option) skip_loop ::
    "'s trurl_io \<Rightarrow> 's tn_iobuf \<Rightarrow> int \<Rightarrow> ('s tn_iobuf \<times> bool) result option" where
  "skip_loop io ib left =
     (if left > 0 then
        case io_read_at io ib (if 32768 > left then nat left else 32768) of Inl err \<Rightarrow> Some (Inl err)
        | Inr (ib', _, r) \<Rightarrow>
          if r = 0 then Some (Inr (ib', True)) else skip_loop io ib' ((left - r) mod 2 ^ 32)
      else Some (Inr (ib, False)))"

definition ib_rewind :: "'s trurl_io \<Rightarrow> 's tn_iobuf \<Rightarrow> int \<Rightarrow> 's tn_iobuf result" where
  "ib_rewind io ib fwd = ib_with ib (\<lambda>st.
     Inr (ib\<lparr>ib_stream := (ib_stream ib)\<lparr>f_pos := 0\<rparr>, ib_state := Some (io_reset io st), ib_pos := 0, ib_seek := fwd\<rparr>))"

text \<open>The value returned: 0 at the end of the file, else the position.\<close>

definition n_iobuf_real_seek :: "env \<Rightarrow> 's trurl_io \<Rightarrow> 's tn_iobuf \<Rightarrow> ('s tn_iobuf \<times> int) result" where
  "n_iobuf_real_seek e io ib =
     rbind (if ib_seek ib < 0
            then let fwd = sint (word_of_int (ib_pos ib + ib_seek ib) :: 32 word) in
              n_assert e (fwd \<ge> 0) (ib_rewind io ib fwd)
            else Inr ib)
      (\<lambda>ib. if ib_seek ib > 0
        then rbind (case skip_loop io ib (ib_seek ib mod 2 ^ 32) of None \<Rightarrow> Inl Hang | Some r \<Rightarrow> r)
          (\<lambda>(ib, eof). if eof then Inr (ib, 0) else Inr (ib\<lparr>ib_seek := 0\<rparr>, ib_pos ib))
        else Inr (ib, ib_pos ib))"

definition n_iobuf_seek :: "env \<Rightarrow> 's tn_iobuf \<Rightarrow> int \<Rightarrow> whence \<Rightarrow> ('s tn_iobuf \<times> int) result" where
  "n_iobuf_seek e ib offset w =
     rbind (case w of
         Seek_Cur \<Rightarrow> Inr (ib_pos ib + offset)
       | Seek_Set \<Rightarrow> n_assert e (offset \<ge> 0) (Inr offset)
       | Seek_End \<Rightarrow> trurl_die e ''iobuf: SEEK_END is not supported'' (Inr (ib_pos ib))
       | Seek_Other _ \<Rightarrow> trurl_die e ''iobuf: unknown whence'' (Inr (ib_pos ib)))
      (\<lambda>pos.
        let pos = (if w = Seek_Cur \<and> ib_seek ib \<noteq> 0 then pos + ib_seek ib else pos);
            ib = ib\<lparr>ib_seek := sint (word_of_int (pos - ib_pos ib) :: 32 word)\<rparr> in
        (if ib_mode ib = TRURL_IO_MODE_WRITE \<and> ib_seek ib \<noteq> 0
         then trurl_die e ''n_iobuf: seek in write mode is not allowed'' (Inr (ib, 1)) else Inr (ib, 1)))"

definition n_iobuf_tell :: "'s tn_iobuf \<Rightarrow> int" where
  "n_iobuf_tell ib = ib_pos ib + ib_seek ib"

definition n_iobuf_write :: "'s trurl_io \<Rightarrow> 's tn_iobuf \<Rightarrow> bytes \<Rightarrow> ('s tn_iobuf \<times> int) result" where
  "n_iobuf_write io ib buf = ib_with ib (\<lambda>st. rbind (io_write io st (ib_stream ib) buf) (\<lambda>(st, f, n).
     let ib = ib\<lparr>ib_state := Some st, ib_stream := f\<rparr> in
     Inr (if n > 0 then ib\<lparr>ib_pos := ib_pos ib + n\<rparr> else ib, n)))"

text \<open>\<open>EOF\<close> is -1. \<open>fflush\<close> succeeds.\<close>

definition n_iobuf_flush :: "'s trurl_io \<Rightarrow> 's tn_iobuf \<Rightarrow> ('s tn_iobuf \<times> int) result" where
  "n_iobuf_flush io ib = ib_with ib (\<lambda>st. rbind (io_flush io st (ib_stream ib)) (\<lambda>(st, f, rv).
     Inr (ib\<lparr>ib_state := Some st, ib_stream := f\<rparr>, if rv = 0 then 0 else - 1)))"

definition n_iobuf_read :: "env \<Rightarrow> 's trurl_io \<Rightarrow> 's tn_iobuf \<Rightarrow> nat \<Rightarrow> ('s tn_iobuf \<times> bytes \<times> int) result" where
  "n_iobuf_read e io ib n = rbind (n_iobuf_real_seek e io ib) (\<lambda>(ib, _). io_read_at io ib n)"

text \<open>
  \<open>room\<close> is the length of the block \<open>dest\<close>; \<open>k\<close> bytes are still to be read. The NUL goes
  behind the last byte, to \<open>dest[size]\<close> when the line is not shorter than \<open>size\<close>.
\<close>

fun getx_loop :: "env \<Rightarrow> 's trurl_io \<Rightarrow> 's tn_iobuf \<Rightarrow> nat \<Rightarrow> 8 word \<Rightarrow> bytes \<Rightarrow> nat \<Rightarrow> ('s tn_iobuf \<times> bytes) result" where
  "getx_loop e io ib room endl dest 0 = Inr (ib, dest)"
| "getx_loop e io ib room endl dest (Suc k) =
     rbind (n_iobuf_read e io ib 1) (\<lambda>(ib, got, r).
       if r = 1 then
         if length dest < room
         then let dest = dest @ [hd got] in if hd got = endl then Inr (ib, dest) else getx_loop e io ib room endl dest k
         else Inl Mem_Fault
       else Inr (ib, dest))"

definition n_iobuf_getx :: "env \<Rightarrow> 's trurl_io \<Rightarrow> 's tn_iobuf \<Rightarrow> nat \<Rightarrow> nat \<Rightarrow> 8 word \<Rightarrow> ('s tn_iobuf \<times> bytes) result" where
  "n_iobuf_getx e io ib room sz endl = rbind (getx_loop e io ib room endl [] sz) (\<lambda>(ib, dest).
     if length dest < room then Inr (ib, dest) else Inl Mem_Fault)"

definition n_iobuf_gets :: "env \<Rightarrow> 's trurl_io \<Rightarrow> 's tn_iobuf \<Rightarrow> nat \<Rightarrow> nat \<Rightarrow> ('s tn_iobuf \<times> bytes) result" where
  "n_iobuf_gets e io ib room sz = n_iobuf_getx e io ib room sz 10"

definition n_iobuf_getc :: "env \<Rightarrow> 's trurl_io \<Rightarrow> 's tn_iobuf \<Rightarrow> ('s tn_iobuf \<times> 8 word option) result" where
  "n_iobuf_getc e io ib = rbind (n_iobuf_read e io ib 1) (\<lambda>(ib, got, r).
     Inr (ib, if r = 1 then Some (hd got) else None))"

end
