(* ===== verification/IobufProps.thy ===== *)
theory IobufProps
  imports Iobuf Simulation
begin

text \<open>
  A compressed file that is read answers as the file of its plain bytes does: \<open>byte_source\<close> is
  what \<open>niobuf.c\<close> needs of its back end, the Zstandard back end keeps it for every decoder that
  keeps \<open>decoder_ok\<close>, and what is written and closed is read back.
\<close>

section \<open>What a reader needs of its back end\<close>

text \<open>\<open>src s f P r\<close>: the back end in state \<open>s\<close> over file \<open>f\<close> has still to give \<open>r\<close> of the plain bytes \<open>P\<close>.\<close>

datatype ib_call = Ib_Read nat | Ib_Getc | Ib_Gets nat | Ib_Seek int whence | Ib_Tell
datatype ib_answer = Ib_Bytes bytes int | Ib_Char "8 word option" | Ib_Line bytes | Ib_Pos int

fun ib_step :: "env \<Rightarrow> 's trurl_io \<Rightarrow> 's tn_iobuf \<Rightarrow> ib_call \<Rightarrow> ('s tn_iobuf \<times> ib_answer) result" where
  "ib_step e io ib (Ib_Read n) = rbind (n_iobuf_read e io ib n) (\<lambda>(ib, got, r). Inr (ib, Ib_Bytes got r))"
| "ib_step e io ib Ib_Getc = rbind (n_iobuf_getc e io ib) (\<lambda>(ib, c). Inr (ib, Ib_Char c))"
| "ib_step e io ib (Ib_Gets n) = rbind (n_iobuf_gets e io ib (Suc n) n) (\<lambda>(ib, line). Inr (ib, Ib_Line line))"
| "ib_step e io ib (Ib_Seek off w) = rbind (n_iobuf_seek e ib off w) (\<lambda>(ib, r). Inr (ib, Ib_Pos r))"
| "ib_step e io ib Ib_Tell = Inr (ib, Ib_Pos (n_iobuf_tell ib))"

text \<open>
  The plain bytes and a position in them. Seeking behind the end, in front of the start or
  from the end, and reading \<open>2\<^sup>3\<^sup>1\<close> bytes at once, are outside the specification.
\<close>

fun ib_spec :: "bytes \<times> nat \<Rightarrow> ib_call \<Rightarrow> ((bytes \<times> nat) \<times> ib_answer) option" where
  "ib_spec (P, t) (Ib_Read n) =
     (if n < 2 ^ 31 then let got = take n (drop t P) in Some ((P, t + length got), Ib_Bytes got (int (length got)))
      else None)"
| "ib_spec (P, t) Ib_Getc =
     Some (if t < length P then ((P, t + 1), Ib_Char (Some (P ! t))) else ((P, t), Ib_Char None))"
| "ib_spec (P, t) (Ib_Gets n) = (let line = take n (first_line (drop t P)) in Some ((P, t + length line), Ib_Line line))"
| "ib_spec (P, t) (Ib_Seek off w) =
     (case (case w of Seek_Set \<Rightarrow> Some off | Seek_Cur \<Rightarrow> Some (int t + off) | _ \<Rightarrow> None) of
        None \<Rightarrow> None
      | Some p \<Rightarrow> if 0 \<le> p \<and> p \<le> int (length P) then Some ((P, nat p), Ib_Pos 1) else None)"
| "ib_spec (P, t) Ib_Tell = Some ((P, t), Ib_Pos (int t))"

definition ib_at :: "('s \<Rightarrow> cfile \<Rightarrow> bytes \<Rightarrow> bytes \<Rightarrow> bool) \<Rightarrow> 's tn_iobuf \<Rightarrow> bytes \<Rightarrow> nat \<Rightarrow> bool" where
  "ib_at src ib P p \<longleftrightarrow> length P < 2 ^ 31 \<and> p \<le> length P \<and> ib_pos ib = int p \<and> ib_mode ib = TRURL_IO_MODE_READ \<and>
     (\<exists>s. ib_state ib = Some s \<and> src s (ib_stream ib) P (drop p P))"

definition ib_rel :: "('s \<Rightarrow> cfile \<Rightarrow> bytes \<Rightarrow> bytes \<Rightarrow> bool) \<Rightarrow> 's tn_iobuf \<Rightarrow> bytes \<times> nat \<Rightarrow> bool" where
  "ib_rel src ib a \<longleftrightarrow> (\<exists>p. ib_at src ib (fst a) p) \<and> ib_pos ib + ib_seek ib = int (snd a) \<and> snd a \<le> length (fst a)"

lemma small_int: "- (2 ^ 31) \<le> x \<Longrightarrow> x < 2 ^ 31 \<Longrightarrow> sint (word_of_int x :: 32 word) = x"
  by (simp add: sint_sbintrunc' signed_take_bit_int_eq_self)

locale byte_source =
  fixes io :: "'s trurl_io" and src :: "'s \<Rightarrow> cfile \<Rightarrow> bytes \<Rightarrow> bytes \<Rightarrow> bool"
  assumes read_ok: "src s f P r \<Longrightarrow> n < 2 ^ 31 \<Longrightarrow>
      \<exists>s' f'. io_read io s f n = Inr (s', f', take n r, int (length (take n r))) \<and> src s' f' P (drop n r)"
    and reset_ok: "src s f P r \<Longrightarrow> src (io_reset io s) (f\<lparr>f_pos := 0\<rparr>) P P"
begin

lemma read_at_ok:
  assumes "ib_at src ib P p" "n < 2 ^ 31"
  shows "\<exists>ib'. io_read_at io ib n = Inr (ib', take n (drop p P), int (length (take n (drop p P)))) \<and>
    ib_at src ib' P (p + length (take n (drop p P))) \<and> ib_seek ib' = ib_seek ib"
proof -
  obtain s where s: "ib_state ib = Some s" "src s (ib_stream ib) P (drop p P)" "p \<le> length P" "ib_pos ib = int p"
    "ib_mode ib = TRURL_IO_MODE_READ" "length P < 2 ^ 31" using assms(1) by (auto simp: ib_at_def)
  from read_ok [OF s(2) assms(2)] obtain s' f' where
    r: "io_read io s (ib_stream ib) n = Inr (s', f', take n (drop p P), int (length (take n (drop p P))))"
      "src s' f' P (drop n (drop p P))" by blast
  have "drop n (drop p P) = drop (p + length (take n (drop p P))) P"
    by (cases "n \<le> length P - p") (auto simp: add.commute)
  with r s show ?thesis by (auto simp: io_read_at_def ib_with_def ib_at_def)
qed

lemma skip_ok:
  assumes "ib_at src ib P p" "p + k \<le> length P"
  shows "\<exists>ib'. skip_loop io ib (int k) = Some (Inr (ib', False)) \<and> ib_at src ib' P (p + k)"
  using assms
proof (induction k arbitrary: ib p rule: less_induct)
  case (less k)
  show ?case
  proof (cases "k = 0")
    case True
    then show ?thesis using less.prems by (simp add: skip_loop.simps)
  next
    case False
    define n where "n = min k 32768"
    have n: "0 < n" "n \<le> k" "n < 2 ^ 31"
      using False by (auto simp: n_def)
    have len: "length (take n (drop p P)) = n" using less.prems(2) n(2) by simp
    from read_at_ok [OF less.prems(1) n(3)] obtain ib' where
      r: "io_read_at io ib n = Inr (ib', take n (drop p P), int n)" "ib_at src ib' P (p + n)" unfolding len by blast
    have "k < 2 ^ 31" using less.prems by (auto simp: ib_at_def)
    then have "(int k - int n) mod 2 ^ 32 = int (k - n)" using n(2) by (simp add: of_nat_diff)
    moreover have "(if 32768 > int k then nat (int k) else 32768) = n" by (simp add: n_def)
    ultimately have "skip_loop io ib (int k) = skip_loop io ib' (int (k - n))"
      using False n(1) r(1) by (subst skip_loop.simps) (simp del: nat_int)
    moreover obtain ib2 where "skip_loop io ib' (int (k - n)) = Some (Inr (ib2, False))" "ib_at src ib2 P (p + n + (k - n))"
      using less.IH [of "k - n" ib' "p + n"] n(1,2) less.prems(2) r(2) by auto
    ultimately show ?thesis using n(2) by simp
  qed
qed

lemma rewind_ok:
  assumes "ib_at src ib P p"
  shows "\<exists>ib'. ib_rewind io ib k = Inr ib' \<and> ib_at src ib' P 0 \<and> ib_seek ib' = k"
  using assms reset_ok by (fastforce simp: ib_rewind_def ib_with_def ib_at_def)

lemma real_seek_ok:
  assumes "ib_rel src ib (P, t)"
  shows "\<exists>ib' v. n_iobuf_real_seek e io ib = Inr (ib', v) \<and> ib_at src ib' P t \<and> ib_seek ib' = 0"
proof -
  obtain p where p: "ib_at src ib P p" "ib_pos ib = int p" and t: "ib_pos ib + ib_seek ib = int t" "t \<le> length P"
    and small: "length P < 2 ^ 31"
    using assms by (auto simp: ib_rel_def ib_at_def)
  have "\<exists>ib1 q. (if ib_seek ib < 0
      then let fwd = sint (word_of_int (ib_pos ib + ib_seek ib) :: 32 word) in n_assert e (fwd \<ge> 0) (ib_rewind io ib fwd)
      else Inr ib) = Inr ib1 \<and> ib_at src ib1 P q \<and> int q + ib_seek ib1 = int t \<and> q \<le> t"
  proof (cases "ib_seek ib < 0")
    case True
    have "sint (word_of_int (ib_pos ib + ib_seek ib) :: 32 word) = int t" using t small by (subst small_int) auto
    with rewind_ok [OF p(1), of "int t"] True show ?thesis by (fastforce simp: Let_def)
  next
    case False
    then show ?thesis using p t by fastforce
  qed
  then obtain ib1 q where ib1: "(if ib_seek ib < 0
      then let fwd = sint (word_of_int (ib_pos ib + ib_seek ib) :: 32 word) in n_assert e (fwd \<ge> 0) (ib_rewind io ib fwd)
      else Inr ib) = Inr ib1" "ib_at src ib1 P q" "int q + ib_seek ib1 = int t" "q \<le> t" by blast
  have sk: "ib_seek ib1 = int (t - q)" using ib1(3,4) by simp
  show ?thesis
  proof (cases "t = q")
    case True
    then show ?thesis using ib1 sk unfolding n_iobuf_real_seek_def by simp
  next
    case False
    from skip_ok [OF ib1(2), of "t - q"] ib1(4) t(2) obtain ib2 where
      ib2: "skip_loop io ib1 (int (t - q)) = Some (Inr (ib2, False))" "ib_at src ib2 P t" by auto
    have "int (t - q) mod 2 ^ 32 = int (t - q)" using t(2) small by (intro mod_pos_pos_trivial) auto
    moreover have "ib_at src (ib2\<lparr>ib_seek := 0\<rparr>) P t" using ib2(2) by (simp add: ib_at_def)
    ultimately show ?thesis using ib1(1) ib2(1) sk False ib1(4) unfolding n_iobuf_real_seek_def by simp
  qed
qed

lemma iobuf_read_ok:
  assumes "ib_rel src ib (P, t)" "n < 2 ^ 31"
  shows "\<exists>ib'. n_iobuf_read e io ib n = Inr (ib', take n (drop t P), int (length (take n (drop t P)))) \<and>
    ib_rel src ib' (P, t + length (take n (drop t P)))"
proof -
  from real_seek_ok [OF assms(1), of e] obtain ib1 v where
    s: "n_iobuf_real_seek e io ib = Inr (ib1, v)" "ib_at src ib1 P t" "ib_seek ib1 = 0" by blast
  from read_at_ok [OF s(2) assms(2)] obtain ib' where
    r: "io_read_at io ib1 n = Inr (ib', take n (drop t P), int (length (take n (drop t P))))"
      "ib_at src ib' P (t + length (take n (drop t P)))" "ib_seek ib' = ib_seek ib1" by blast
  then have "ib_rel src ib' (P, t + length (take n (drop t P)))" using s(3) by (auto simp: ib_rel_def ib_at_def)
  then show ?thesis using s(1) r(1) by (simp add: n_iobuf_read_def)
qed

lemma getc_ok:
  assumes "ib_rel src ib (P, t)"
  shows "t < length P \<Longrightarrow> \<exists>ib'. n_iobuf_read e io ib 1 = Inr (ib', [P ! t], 1) \<and> ib_rel src ib' (P, t + 1)"
    and "\<not> t < length P \<Longrightarrow> \<exists>ib'. n_iobuf_read e io ib 1 = Inr (ib', [], 0) \<and> ib_rel src ib' (P, t)"
  using iobuf_read_ok [OF assms, of 1 e] by (auto simp: take_Suc_conv_app_nth [of 0, simplified] hd_drop_conv_nth take_Suc)

lemma getx_ok:
  assumes "ib_rel src ib (P, t)" "length dest + length (take k (first_line (drop t P))) < room"
  shows "\<exists>ib'. getx_loop e io ib room 10 dest k = Inr (ib', dest @ take k (first_line (drop t P))) \<and>
    ib_rel src ib' (P, t + length (take k (first_line (drop t P))))"
  using assms
proof (induction k arbitrary: ib t dest)
  case (Suc k)
  show ?case
  proof (cases "t < length P")
    case True
    from getc_ok(1) [OF Suc.prems(1) True, of e] obtain ib1 where
      r: "n_iobuf_read e io ib 1 = Inr (ib1, [P ! t], 1)" "ib_rel src ib1 (P, t + 1)" by blast
    have drop: "drop t P = P ! t # drop (t + 1) P" using True by (simp add: Cons_nth_drop_Suc)
    show ?thesis
    proof (cases "P ! t = 10")
      case True
      then show ?thesis using r Suc.prems(2) by (simp add: drop)
    next
      case False
      with Suc.prems(2) have "length (dest @ [P ! t]) + length (take k (first_line (drop (t + 1) P))) < room"
        by (simp add: drop)
      from Suc.IH [OF r(2) this] False Suc.prems(2) r(1) show ?thesis by (auto simp: drop)
    qed
  next
    case False
    from getc_ok(2) [OF Suc.prems(1) False, of e] False show ?thesis by fastforce
  qed
qed simp

text \<open>A line that does not fit the block is written over its end.\<close>

lemma getx_overrun:
  assumes "ib_rel src ib (P, t)" "room \<le> length dest + length (take k (first_line (drop t P)))"
  shows "rbind (getx_loop e io ib room 10 dest k) (\<lambda>(ib, dest). if length dest < room then Inr (ib, dest) else Inl Mem_Fault) =
    Inl Mem_Fault"
  using assms
proof (induction k arbitrary: ib t dest)
  case (Suc k)
  show ?case
  proof (cases "t < length P")
    case True
    from getc_ok(1) [OF Suc.prems(1) True, of e] obtain ib1 where
      r: "n_iobuf_read e io ib 1 = Inr (ib1, [P ! t], 1)" "ib_rel src ib1 (P, t + 1)" by blast
    have drop: "drop t P = P ! t # drop (t + 1) P" using True by (simp add: Cons_nth_drop_Suc)
    show ?thesis
    proof (cases "P ! t = 10 \<or> \<not> length dest < room")
      case True
      then show ?thesis using r Suc.prems(2) by (auto simp: drop)
    next
      case False
      with Suc.prems(2) have "room \<le> length (dest @ [P ! t]) + length (take k (first_line (drop (t + 1) P)))"
        by (simp add: drop)
      from Suc.IH [OF r(2) this] False r(1) show ?thesis by simp
    qed
  next
    case False
    from getc_ok(2) [OF Suc.prems(1) False, of e] False Suc.prems(2) show ?thesis by fastforce
  qed
qed simp

lemma seek_ok:
  assumes "ib_rel src ib (P, t)"
    and w: "(case w of Seek_Set \<Rightarrow> Some off | Seek_Cur \<Rightarrow> Some (int t + off) | _ \<Rightarrow> None) = Some p"
    and p: "0 \<le> p" "p \<le> int (length P)"
  shows "\<exists>ib'. n_iobuf_seek e ib off w = Inr (ib', 1) \<and> ib_rel src ib' (P, nat p)"
proof -
  obtain q where q: "ib_at src ib P q" and t: "ib_pos ib + ib_seek ib = int t" using assms(1) by (auto simp: ib_rel_def)
  have small: "length P < 2 ^ 31" "q \<le> length P" "ib_pos ib = int q" "ib_mode ib = TRURL_IO_MODE_READ"
    using q by (auto simp: ib_at_def)
  let ?ib = "ib\<lparr>ib_seek := p - int q\<rparr>"
  have s: "sint (word_of_int (p - int q) :: 32 word) = p - int q" using p small by (intro small_int) auto
  have "ib_at src ?ib P q" using q by (simp add: ib_at_def)
  then have rel: "ib_rel src ?ib (P, nat p)" using p small(3) by (auto simp: ib_rel_def)
  have "n_iobuf_seek e ib off w = Inr (?ib, 1)"
    using w p t small(3,4) s
    by (cases w) (auto simp: n_iobuf_seek_def Let_def TRURL_IO_MODE_READ_def TRURL_IO_MODE_WRITE_def algebra_simps)
  with rel show ?thesis by blast
qed

lemma ib_step_ok:
  assumes "ib_rel src ib a" "ib_spec a c = Some (a', r)"
  shows "\<exists>ib'. ib_step e io ib c = Inr (ib', r) \<and> ib_rel src ib' a'"
proof -
  obtain P t where a [simp]: "a = (P, t)" by (cases a)
  note rel = assms(1) [simplified]
  show ?thesis
  proof (cases c)
    case (Ib_Read n)
    then show ?thesis using assms(2) iobuf_read_ok [OF rel, of n e] by (auto simp: Let_def split: if_splits)
  next
    case Ib_Getc
    then show ?thesis using assms(2) getc_ok [OF rel, of e] by (cases "t < length P") (auto simp: n_iobuf_getc_def)
  next
    case (Ib_Gets n)
    with assms(2) getx_ok [OF rel, of "[]" n "Suc n" e] show ?thesis
      by (auto simp: n_iobuf_gets_def n_iobuf_getx_def Let_def less_Suc_eq_le)
  next
    case (Ib_Seek off w)
    with assms(2) obtain p where p: "(case w of Seek_Set \<Rightarrow> Some off | Seek_Cur \<Rightarrow> Some (int t + off) | _ \<Rightarrow> None) = Some p"
      "0 \<le> p" "p \<le> int (length P)" "a' = (P, nat p)" "r = Ib_Pos 1"
      by (auto split: option.splits if_splits)
    from seek_ok [OF rel p(1-3), of e] Ib_Seek p(4,5) show ?thesis by auto
  next
    case Ib_Tell
    then show ?thesis using assms(2) rel by (auto simp: n_iobuf_tell_def ib_rel_def)
  qed
qed

end

sublocale byte_source \<subseteq> plain: simulation "ib_step e io" ib_spec "ib_rel src" for e
  by unfold_locales (rule ib_step_ok)

section \<open>What the Zstandard library promises\<close>

text \<open>
  \<open>dec d z r\<close>: the decoder in state \<open>d\<close> makes \<open>r\<close> of the bytes \<open>z\<close> it has still to be given.
  A call makes progress, gives no more than there is room for, and says how much it took.
  Where no byte is left none is held back: \<open>libzstd\<close> leaves the last byte of a frame untaken
  until all the output is delivered. \<open>zstd_read\<close> needs that, it does not call the decoder
  again at the end of the file.
\<close>

definition decodes :: "('c, 'd) zstd_lib \<Rightarrow> ('d \<Rightarrow> bytes \<Rightarrow> bytes \<Rightarrow> bool) \<Rightarrow> 'd \<Rightarrow> nat \<Rightarrow> bytes \<Rightarrow> bytes \<Rightarrow> bytes \<Rightarrow> bool" where
  "decodes lib dec d room inp z r \<longleftrightarrow> (case z_decompress lib d room inp of (d', got, used, rc) \<Rightarrow>
     \<not> z_is_error lib rc \<and> used \<le> length inp \<and> length got \<le> room \<and> (0 < used \<or> got \<noteq> []) \<and>
     (\<exists>r'. r = got @ r' \<and> dec d' (drop used inp @ z) r'))"

definition decoder_ok :: "('c, 'd) zstd_lib \<Rightarrow> ('d \<Rightarrow> bytes \<Rightarrow> bytes \<Rightarrow> bool) \<Rightarrow> bool" where
  "decoder_ok lib dec \<longleftrightarrow> 0 < z_in_size lib \<and> z_in_size lib < 2 ^ 31 \<and>
     (\<forall>d inp z r room. dec d (inp @ z) r \<longrightarrow> inp \<noteq> [] \<longrightarrow> 0 < room \<longrightarrow> decodes lib dec d room inp z r) \<and>
     (\<forall>d r. dec d [] r \<longrightarrow> r = [])"

text \<open>A new decoder makes \<open>P\<close> of \<open>Z\<close>.\<close>

definition packs :: "('c, 'd) zstd_lib \<Rightarrow> ('d \<Rightarrow> bytes \<Rightarrow> bytes \<Rightarrow> bool) \<Rightarrow> bytes \<Rightarrow> bytes \<Rightarrow> bool" where
  "packs lib dec Z P \<longleftrightarrow> (\<exists>d. zstd_new_d_stream lib = Some (d, z_in_size lib) \<and> dec d Z P)"

definition zs_input :: "('c, 'd) zstd_state \<Rightarrow> cfile \<Rightarrow> bytes" where
  "zs_input s f = drop (zs_pos s) (zs_src s) @ f_rest f"

definition zstd_src :: "('c, 'd) zstd_lib \<Rightarrow> ('d \<Rightarrow> bytes \<Rightarrow> bytes \<Rightarrow> bool) \<Rightarrow>
    ('c, 'd) zstd_state \<Rightarrow> cfile \<Rightarrow> bytes \<Rightarrow> bytes \<Rightarrow> bool" where
  "zstd_src lib dec s f P r \<longleftrightarrow> decoder_ok lib dec \<and> zs_mode s = TRURL_IO_MODE_READ \<and> zs_bufsize s = z_in_size lib \<and>
     zs_pos s \<le> length (zs_src s) \<and> packs lib dec (f_bytes f) P \<and> (\<exists>d. zs_d s = Some d \<and> dec d (zs_input s f) r)"

lemma zstd_filled:
  assumes "zstd_src lib dec s f P r"
  shows "\<exists>s' f' k. (if zs_pos s = length (zs_src s) then fill_inbuf s f else (s, f, 1)) = (s', f', k) \<and>
    zstd_src lib dec s' f' P r \<and> zs_input s' f' = zs_input s f \<and> (k = 0 \<longleftrightarrow> zs_input s f = []) \<and>
    (k \<noteq> 0 \<longrightarrow> zs_pos s' < length (zs_src s'))"
proof (cases "zs_pos s = length (zs_src s)")
  case True
  have sz: "0 < zs_bufsize s" "zs_bufsize s < 2 ^ 31" using assms by (auto simp: zstd_src_def decoder_ok_def)
  let ?got = "take (zs_bufsize s) (f_rest f)"
  have len: "length ?got \<le> zs_bufsize s" by simp
  with sz(2) have k: "c_int (length ?got) = int (length ?got)" by (intro c_int_small) linarith
  have rest: "f_rest (f\<lparr>f_pos := f_pos f + length ?got\<rparr>) = drop (zs_bufsize s) (f_rest f)"
    by (cases "zs_bufsize s \<le> length (f_rest f)") (auto simp: f_rest_def add.commute min_def)
  show ?thesis
    using assms sz(1) True rest k
    by (auto simp: fill_inbuf_def c_fread_def Let_def zstd_src_def zs_input_def)
next
  case False
  then show ?thesis using assms by (auto simp: zstd_src_def zs_input_def)
qed

lemma zstd_loop_ok:
  assumes "zstd_src lib dec s f P r" "length out \<le> n" "n < 2 ^ 31"
  shows "\<exists>s' f'. zstd_read_loop e lib n s f out =
      Some (Inr (s', f', out @ take (n - length out) r, int (length (out @ take (n - length out) r)))) \<and>
    zstd_src lib dec s' f' P (drop (n - length out) r)"
  using assms
proof (induction "n - length out + length (zs_input s f)" arbitrary: s f out r rule: less_induct)
  case less
  show ?case
  proof (cases "n \<le> length out")
    case True
    then show ?thesis using less.prems
      by (subst zstd_read_loop.simps) (simp add: c_int_small)
  next
    case False
    from zstd_filled [OF less.prems(1)] obtain s1 f1 k where fill:
      "(if zs_pos s = length (zs_src s) then fill_inbuf s f else (s, f, 1)) = (s1, f1, k)"
      "zstd_src lib dec s1 f1 P r" "zs_input s1 f1 = zs_input s f" "k = 0 \<longleftrightarrow> zs_input s f = []"
      "k \<noteq> 0 \<longrightarrow> zs_pos s1 < length (zs_src s1)" by blast
    have pos: "\<not> length (zs_src s) < zs_pos s" using less.prems(1) by (simp add: zstd_src_def)
    from fill(2) obtain d where d: "zs_d s1 = Some d" "dec d (zs_input s1 f1) r" and ok: "decoder_ok lib dec"
      by (auto simp: zstd_src_def)
    have loop: "zstd_read_loop e lib n s f out = (if k = 0 then Some (Inr (s1, f1, out, c_int (length out)))
        else case z_decompress lib d (n - length out) (drop (zs_pos s1) (zs_src s1)) of (d, got, used, r) \<Rightarrow>
            let st = s1\<lparr>zs_d := Some d, zs_pos := zs_pos s1 + used\<rparr> in
            if z_is_error lib r then Some (Inr (st, f1, out @ got, - 1))
            else zstd_read_loop e lib n st f1 (out @ got))"
      using False pos by (subst zstd_read_loop.simps) (simp add: fill(1) d(1))
    show ?thesis
    proof (cases "k = 0")
      case True
      then have "dec d [] r" using fill(3,4) d(2) by simp
      then have "r = []" using ok by (auto simp: decoder_ok_def)
      then show ?thesis using loop True fill(2) less.prems(2,3) by (simp add: c_int_small)
    next
      case k: False
      let ?inp = "drop (zs_pos s1) (zs_src s1)" and ?room = "n - length out"
      have "decodes lib dec d ?room ?inp (f_rest f1) r"
        using ok d(2) fill(5) k False unfolding decoder_ok_def zs_input_def by auto
      then obtain d' got used rc r' where dd: "z_decompress lib d ?room ?inp = (d', got, used, rc)"
        "\<not> z_is_error lib rc" "used \<le> length ?inp" "length got \<le> ?room" "0 < used \<or> got \<noteq> []" "r = got @ r'"
        "dec d' (drop used ?inp @ f_rest f1) r'" by (auto simp: decodes_def)
      let ?s = "s1\<lparr>zs_d := Some d', zs_pos := zs_pos s1 + used\<rparr>"
      have inp: "zs_input ?s f1 = drop used ?inp @ f_rest f1" by (simp add: zs_input_def add.commute)
      have src: "zstd_src lib dec ?s f1 P r'"
        using fill(2,5) k dd(3,7) inp by (auto simp: zstd_src_def)
      have "n - length (out @ got) + length (zs_input ?s f1) < n - length out + length (zs_input s f)"
      proof -
        have "length (zs_input s f) = length ?inp + length (f_rest f1)" using fill(3) [symmetric] by (simp add: zs_input_def)
        moreover have "length (zs_input ?s f1) = length ?inp - used + length (f_rest f1)" using inp by simp
        moreover have "0 < used \<or> 0 < length got" using dd(5) by blast
        ultimately show ?thesis using dd(3,4) False by (simp only: length_append) linarith
      qed
      from less.hyps [OF this src _ less.prems(3)] dd(4) False
      show ?thesis using loop k dd(1,2,6) by auto
    qed
  qed
qed

interpretation zs: byte_source "zstdio e lib" "zstd_src lib dec" for e lib dec
proof
  fix s f P r n
  assume "zstd_src lib dec s f P r" "n < (2 :: nat) ^ 31"
  from zstd_loop_ok [OF this(1) _ this(2), of "[]" e]
  show "\<exists>s' f'. io_read (zstdio e lib) s f n = Inr (s', f', take n r, int (length (take n r))) \<and>
      zstd_src lib dec s' f' P (drop n r)"
    by (auto simp: zstdio_def zstd_read_def)
next
  fix s f P r
  assume "zstd_src lib dec s f P r"
  then show "zstd_src lib dec (io_reset (zstdio e lib) s) (f\<lparr>f_pos := 0\<rparr>) P P"
    by (auto simp: zstdio_def zstd_reset_def zstd_src_def packs_def zs_input_def f_rest_def)
qed

lemma iobuf_opened:
  assumes "decoder_ok lib dec" "packs lib dec (f_bytes f) P" "length P < 2 ^ 31" "f_pos f = 0"
  shows "\<exists>ib. n_iobuf_open e (zstdio e lib) (Some (f, fd)) True = Inr (Some ib) \<and> ib_rel (zstd_src lib dec) ib (P, 0)"
proof -
  from assms(2) obtain d where d: "zstd_new_d_stream lib = Some (d, z_in_size lib)" "dec d (f_bytes f) P"
    by (auto simp: packs_def)
  then show ?thesis using assms
    by (auto simp: n_iobuf_open_def n_iobuf_new_def zstdio_def zstd_new_def ib_rel_def ib_at_def zstd_src_def
        zs_input_def f_rest_def Let_def TRURL_IO_MODE_READ_def packs_def)
qed

section \<open>Writing\<close>

text \<open>
  \<open>enc c P Z\<close>: the encoder in state \<open>c\<close> has taken \<open>P\<close> and given \<open>Z\<close>; \<open>held c\<close> bounds what it
  holds back. Every call takes some of its input or gives some of what was held; a flush
  that returns 0 leaves nothing held; then the end of the frame fits into the buffer, and
  what was given is a frame that decodes to what was taken.
\<close>

definition encodes :: "('c, 'd) zstd_lib \<Rightarrow> ('c \<Rightarrow> bytes \<Rightarrow> bytes \<Rightarrow> bool) \<Rightarrow> ('c \<Rightarrow> nat) \<Rightarrow> 'c \<Rightarrow> bytes \<Rightarrow> bytes \<Rightarrow> bytes \<Rightarrow> bool" where
  "encodes lib enc held c P Z inp \<longleftrightarrow> (case z_compress lib c (z_out_size lib) inp of (c', made, used, rc) \<Rightarrow>
     \<not> z_is_error lib rc \<and> used \<le> length inp \<and> length made \<le> z_out_size lib \<and> (0 < used \<or> held c' < held c) \<and>
     enc c' (P @ take used inp) (Z @ made))"

definition flushes :: "('c, 'd) zstd_lib \<Rightarrow> ('c \<Rightarrow> bytes \<Rightarrow> bytes \<Rightarrow> bool) \<Rightarrow> ('c \<Rightarrow> nat) \<Rightarrow> 'c \<Rightarrow> bytes \<Rightarrow> bytes \<Rightarrow> bool" where
  "flushes lib enc held c P Z \<longleftrightarrow> (case z_flush lib c (z_out_size lib) of (c', made, n) \<Rightarrow>
     \<not> z_is_error lib n \<and> length made \<le> z_out_size lib \<and> enc c' P (Z @ made) \<and> 
     (if n > 0 then held c' < held c else held c' = 0))"

definition ends :: "('c, 'd) zstd_lib \<Rightarrow> ('d \<Rightarrow> bytes \<Rightarrow> bytes \<Rightarrow> bool) \<Rightarrow> 'c \<Rightarrow> bytes \<Rightarrow> bytes \<Rightarrow> bool" where
  "ends lib dec c P Z \<longleftrightarrow> (case z_end lib c (z_out_size lib) of (_, made, n) \<Rightarrow>
     \<not> z_is_error lib n \<and> length made \<le> z_out_size lib \<and> packs lib dec (Z @ made) P)"

definition encoder_ok :: "('c, 'd) zstd_lib \<Rightarrow> ('d \<Rightarrow> bytes \<Rightarrow> bytes \<Rightarrow> bool) \<Rightarrow> ('c \<Rightarrow> bytes \<Rightarrow> bytes \<Rightarrow> bool) \<Rightarrow> ('c \<Rightarrow> nat) \<Rightarrow> bool" where
  "encoder_ok lib dec enc held \<longleftrightarrow> z_out_size lib < 2 ^ 31 \<and>
     (\<exists>c. zstd_new_c_stream lib = Some (c, z_out_size lib) \<and> enc c [] []) \<and>
     (\<forall>c P Z inp. enc c P Z \<longrightarrow> inp \<noteq> [] \<longrightarrow> encodes lib enc held c P Z inp) \<and>
     (\<forall>c P Z. enc c P Z \<longrightarrow> flushes lib enc held c P Z) \<and>
     (\<forall>c P Z. enc c P Z \<longrightarrow> held c = 0 \<longrightarrow> ends lib dec c P Z)"

text \<open>
  \<open>zstd_sink\<close>: \<open>P\<close> was written, and the file holds what the encoder made of it, or it is full.
\<close>

definition f_full :: "cfile \<Rightarrow> bool" where
  "f_full f \<longleftrightarrow> f_limit f \<le> f_pos f"

definition f_holds :: "cfile \<Rightarrow> bytes \<Rightarrow> bool" where
  "f_holds f Z \<longleftrightarrow> f_full f \<or> (f_bytes f = Z \<and> f_pos f = length Z)"

definition zstd_sink :: "('c, 'd) zstd_lib \<Rightarrow> ('c \<Rightarrow> bytes \<Rightarrow> bytes \<Rightarrow> bool) \<Rightarrow> ('c, 'd) zstd_state \<Rightarrow> cfile \<Rightarrow> bytes \<Rightarrow> bool" where
  "zstd_sink lib enc s f P \<longleftrightarrow> zs_mode s = TRURL_IO_MODE_WRITE \<and> zs_bufsize s = z_out_size lib \<and>
     (\<exists>c P' Z. zs_c s = Some c \<and> enc c P' Z \<and> f_holds f Z \<and> (f_full f \<or> P' = P))"

lemma flush_outbuf_ok:
  assumes "f_holds f Z" "length made < 2 ^ 31"
  obtains f' nw where "flush_outbuf f made = (f', nw)" "f_holds f' (Z @ made)" "f_full f \<longrightarrow> f_full f'"
    "nw = - 1 \<longrightarrow> f_full f'"
proof -
  obtain f' nw where out: "flush_outbuf f made = (f', nw)" by (cases "flush_outbuf f made")
  have "f_holds f' (Z @ made) \<and> (f_full f \<longrightarrow> f_full f') \<and> (nw = - 1 \<longrightarrow> f_full f')"
  proof (cases "made = [] \<or> f_full f")
    case True
    then show ?thesis using out assms
      by (cases "made = []") (auto simp: flush_outbuf_def c_fwrite_def f_holds_def f_full_def split: if_splits)
  next
    case False
    then show ?thesis using out assms
      by (auto simp: flush_outbuf_def c_fwrite_def f_holds_def f_full_def Let_def c_int_small min_def split: if_splits)
  qed
  with out that show thesis by blast
qed

lemma zstd_write_loop_ok:
  assumes "encoder_ok lib dec enc held" "length src < 2 ^ 31" "zstd_sink lib enc s f P" "pos \<le> length src"
  shows "\<exists>s' f' r. zstd_write_loop lib s f src pos = Some (Inr (s', f', r)) \<and> zstd_sink lib enc s' f' (P @ drop pos src) \<and>
    (f_full f \<longrightarrow> f_full f') \<and> (r = int (length src) \<or> f_full f')"
  using assms(3,4)
proof (induction "(length src - pos, held (the (zs_c s)))" arbitrary: s f P pos
    rule: wf_induct_rule [OF wf_lex_prod [OF wf_less_than wf_less_than]])
  case less: 1
  show ?case
  proof (cases "length src \<le> pos")
    case True
    then show ?thesis using less.prems assms(2)
      by (subst zstd_write_loop.simps) (simp add: c_int_small)
  next
    case False
    from less.prems(1) obtain c P' Z where c: "zs_c s = Some c" "enc c P' Z" "f_holds f Z" "f_full f \<or> P' = P" and
      s: "zs_mode s = TRURL_IO_MODE_WRITE" "zs_bufsize s = z_out_size lib" by (auto simp: zstd_sink_def)
    have out: "z_out_size lib < 2 ^ 31" using assms(1) by (simp add: encoder_ok_def)
    have "encodes lib enc held c P' Z (drop pos src)" using assms(1) c(2) False by (auto simp: encoder_ok_def)
    then obtain c' made used rc where z: "z_compress lib c (z_out_size lib) (drop pos src) = (c', made, used, rc)"
      "\<not> z_is_error lib rc" "used \<le> length src - pos" "length made \<le> z_out_size lib" "0 < used \<or> held c' < held c"
      "enc c' (P' @ take used (drop pos src)) (Z @ made)" by (auto simp: encodes_def)
    from z(4) out have lt: "length made < 2 ^ 31" by linarith
    obtain f' nw where f': "flush_outbuf f made = (f', nw)" "f_holds f' (Z @ made)" "f_full f \<longrightarrow> f_full f'"
      "nw = - 1 \<longrightarrow> f_full f'" by (rule flush_outbuf_ok [OF c(3) lt])
    let ?s = "s\<lparr>zs_c := Some c'\<rparr>"
    have sink: "zstd_sink lib enc ?s f' (P @ take used (drop pos src))"
      using s z(6) f'(2,3) c(4) by (auto simp: zstd_sink_def)
    have step: "zstd_write_loop lib s f src pos =
        (if nw = - 1 then Some (Inr (?s, f', - 1)) else zstd_write_loop lib ?s f' src (pos + used))"
      using False c(1) s z(1,2) f'(1) by (subst zstd_write_loop.simps) simp
    show ?thesis
    proof (cases "nw = - 1")
      case True
      then have "zstd_sink lib enc ?s f' (P @ drop pos src)" using sink f'(4) by (auto simp: zstd_sink_def)
      then show ?thesis using step True f'(4) by auto
    next
      case nw: False
      have le: "pos + used \<le> length src" using z(3) False by simp
      have "((length src - (pos + used), held (the (zs_c ?s))), length src - pos, held (the (zs_c s))) \<in> less_than <*lex*> less_than"
        using z(3,5) c(1) False by auto
      from less.hyps [OF this sink le] obtain s2 f2 r where
        "zstd_write_loop lib ?s f' src (pos + used) = Some (Inr (s2, f2, r))"
        "zstd_sink lib enc s2 f2 ((P @ take used (drop pos src)) @ drop (pos + used) src)"
        "f_full f' \<longrightarrow> f_full f2" "r = int (length src) \<or> f_full f2" by blast
      moreover have "take used (drop pos src) @ drop (pos + used) src = drop pos src"
        by (metis append_take_drop_id drop_drop add.commute)
      ultimately show ?thesis using step nw f'(3) by auto
    qed
  qed
qed

lemma zstd_flush_loop_ok:
  assumes "encoder_ok lib dec enc held" "zstd_sink lib enc s f P"
  shows "\<exists>s' f' r. zstd_flush_loop lib s f nw = Some (Inr (s', f', r)) \<and> zstd_sink lib enc s' f' P \<and>
    (f_full f \<longrightarrow> f_full f') \<and> (f_full f' \<or> held (the (zs_c s')) = 0)"
  using assms(2)
proof (induction "held (the (zs_c s))" arbitrary: s f nw rule: less_induct)
  case less
  from less.prems obtain c P' Z where c: "zs_c s = Some c" "enc c P' Z" "f_holds f Z" "f_full f \<or> P' = P" and
    s: "zs_mode s = TRURL_IO_MODE_WRITE" "zs_bufsize s = z_out_size lib" by (auto simp: zstd_sink_def)
  have out: "z_out_size lib < 2 ^ 31" using assms(1) by (simp add: encoder_ok_def)
  have "flushes lib enc held c P' Z" using assms(1) c(2) by (auto simp: encoder_ok_def)
  then obtain c' made n where z: "z_flush lib c (z_out_size lib) = (c', made, n)" "\<not> z_is_error lib n"
    "length made \<le> z_out_size lib" "enc c' P' (Z @ made)" "if n > 0 then held c' < held c else held c' = 0"
    by (auto simp: flushes_def)
  from z(3) out have lt: "length made < 2 ^ 31" by linarith
  obtain f' nf where f': "flush_outbuf f made = (f', nf)" "f_holds f' (Z @ made)" "f_full f \<longrightarrow> f_full f'"
    "nf = - 1 \<longrightarrow> f_full f'" by (rule flush_outbuf_ok [OF c(3) lt])
  let ?s = "s\<lparr>zs_c := Some c'\<rparr>"
  have sink: "zstd_sink lib enc ?s f' P" using s z(4) f'(2,3) c(4) by (auto simp: zstd_sink_def)
  have step: "zstd_flush_loop lib s f nw = (if nf = - 1 then Some (Inr (?s, f', - 1))
      else if n > 0 then zstd_flush_loop lib ?s f' (nw + nf) else Some (Inr (?s, f', nw + nf)))"
    using c(1) s z(1,2) f'(1) by (subst zstd_flush_loop.simps) simp
  show ?case
  proof (cases "nf \<noteq> - 1 \<and> n > 0")
    case True
    then have "held (the (zs_c ?s)) < held (the (zs_c s))" using z(5) c(1) by simp
    from less.hyps [OF this sink, of "nw + nf"] show ?thesis using step True f'(3) by auto
  next
    case False
    then show ?thesis using step sink f'(3,4) z(5) by (auto split: if_splits)
  qed
qed

lemma zstd_destroy_ok:
  assumes "encoder_ok lib dec enc held" "zstd_sink lib enc s f P"
  shows "\<exists>f' r. zstd_destroy lib s f = Inr (f', r) \<and> (f_full f \<longrightarrow> f_full f') \<and> (f_full f' \<or> packs lib dec (f_bytes f') P)"
proof -
  from zstd_flush_loop_ok [OF assms, of 0] obtain s1 f1 r where fl: "zstd_flush_loop lib s f 0 = Some (Inr (s1, f1, r))"
    "zstd_sink lib enc s1 f1 P" "f_full f \<longrightarrow> f_full f1" "f_full f1 \<or> held (the (zs_c s1)) = 0" by blast
  then obtain c P' Z where c: "zs_c s1 = Some c" "enc c P' Z" "f_holds f1 Z" "f_full f1 \<or> P' = P" and
    s: "zs_bufsize s1 = z_out_size lib" by (auto simp: zstd_sink_def)
  have w: "zs_mode s \<noteq> TRURL_IO_MODE_READ"
    using assms(2) by (simp add: zstd_sink_def TRURL_IO_MODE_READ_def TRURL_IO_MODE_WRITE_def)
  obtain c' made n where z: "z_end lib c (z_out_size lib) = (c', made, n)" by (metis prod_cases3)
  obtain f' nw where f': "flush_outbuf f1 made = (f', nw)" by (cases "flush_outbuf f1 made")
  have d: "zstd_destroy lib s f = (if z_is_error lib n then Inr (f1, - 1) else Inr (f', if nw = - 1 then - 1 else 0))"
    using w fl(1) c(1) s z f' by (simp add: zstd_destroy_def zstd_flush_def)
  show ?thesis
  proof (cases "f_full f1")
    case True
    then have "f_full f'" using f' by (auto simp: flush_outbuf_def c_fwrite_def f_full_def split: if_splits)
    then show ?thesis using True d by auto
  next
    case False
    then have "ends lib dec c P Z" using assms(1) fl(4) c(1,2,4) by (auto simp: encoder_ok_def)
    then have e: "\<not> z_is_error lib n" "length made \<le> z_out_size lib" "packs lib dec (Z @ made) P" using z by (auto simp: ends_def)
    have "length made < 2 ^ 31" using e(2) assms(1) by (auto simp: encoder_ok_def)
    from flush_outbuf_ok [OF c(3) this] f' have "f_holds f' (Z @ made)" by auto
    then show ?thesis using e(1,3) d False fl(3) by (auto simp: f_holds_def)
  qed
qed

definition ib_wrote :: "('c, 'd) zstd_lib \<Rightarrow> ('c \<Rightarrow> bytes \<Rightarrow> bytes \<Rightarrow> bool) \<Rightarrow> ('c, 'd) zstd_state tn_iobuf \<Rightarrow> bytes \<Rightarrow> bool" where
  "ib_wrote lib enc ib P \<longleftrightarrow> (\<exists>s. ib_state ib = Some s \<and> zstd_sink lib enc s (ib_stream ib) P)"

lemma writes_ok:
  assumes "encoder_ok lib dec enc held" "\<forall>src\<in>set srcs. length src < 2 ^ 31" "ib_wrote lib enc ib P"
  shows "\<exists>ib' rs. call_run (n_iobuf_write (zstdio e lib)) ib srcs = Inr (ib', rs) \<and> ib_wrote lib enc ib' (P @ concat srcs) \<and>
    (f_full (ib_stream ib) \<longrightarrow> f_full (ib_stream ib')) \<and>
    (f_full (ib_stream ib') \<or> rs = List.map (\<lambda>src. int (length src)) srcs)"
  using assms(2,3)
proof (induction srcs arbitrary: ib P)
  case (Cons src srcs)
  from Cons.prems(2) obtain s where s: "ib_state ib = Some s" "zstd_sink lib enc s (ib_stream ib) P" by (auto simp: ib_wrote_def)
  from zstd_write_loop_ok [OF assms(1) _ s(2), of src 0] Cons.prems(1) obtain s1 f1 r where
    w: "zstd_write_loop lib s (ib_stream ib) src 0 = Some (Inr (s1, f1, r))" "zstd_sink lib enc s1 f1 (P @ src)"
      "f_full (ib_stream ib) \<longrightarrow> f_full f1" "r = int (length src) \<or> f_full f1" by auto
  then obtain ib1 where ib1: "n_iobuf_write (zstdio e lib) ib src = Inr (ib1, r)" "ib_state ib1 = Some s1" "ib_stream ib1 = f1"
    using s(1) by (simp add: n_iobuf_write_def ib_with_def zstdio_def zstd_write_def Let_def)
  then have "ib_wrote lib enc ib1 (P @ src)" using w(2) by (auto simp: ib_wrote_def)
  from Cons.IH [OF _ this] Cons.prems(1) ib1(1,3) w(3,4) show ?case by fastforce
qed simp

lemma iobuf_opened_w:
  assumes "encoder_ok lib dec enc held" "f_bytes f = []" "f_pos f = 0"
  shows "\<exists>ib. n_iobuf_open e (zstdio e lib) (Some (f, fd)) False = Inr (Some ib) \<and> ib_stream ib = f \<and> ib_wrote lib enc ib []"
  using assms
  by (fastforce simp: n_iobuf_open_def n_iobuf_new_def zstdio_def zstd_new_def ib_wrote_def zstd_sink_def encoder_ok_def
      f_holds_def Let_def TRURL_IO_MODE_READ_def TRURL_IO_MODE_WRITE_def)

lemma close_ok:
  assumes "encoder_ok lib dec enc held" "ib_wrote lib enc ib P"
  shows "\<exists>f'. n_iobuf_close (zstdio e lib) ib = Inr (f', 0) \<and> (f_full (ib_stream ib) \<longrightarrow> f_full f') \<and>
    (f_full f' \<or> packs lib dec (f_bytes f') P)"
  using assms(2) zstd_destroy_ok [OF assms(1)] by (fastforce simp: ib_wrote_def n_iobuf_close_def ib_with_def zstdio_def)

section \<open>Properties\<close>


text \<open>A library that stores the bytes as they are.\<close>

definition stored_lib :: "(unit, unit) zstd_lib" where
  "stored_lib = \<lparr>z_create_c = Some (), z_init_c = (\<lambda>c _. (c, 0)), z_out_size = 4, z_create_d = Some (),
     z_init_d = (\<lambda>d. (d, 0)), z_in_size = 3, z_is_error = (\<lambda>n. n < 0),
     z_compress = (\<lambda>c n inp. (c, take n inp, length (take n inp), 1)), z_flush = (\<lambda>c n. (c, [], 0)),
     z_end = (\<lambda>c n. (c, [], 0)), z_decompress = (\<lambda>d n inp. (d, take n inp, length (take n inp), 1))\<rparr>"

lemma stored_ok:
  "decoder_ok stored_lib (\<lambda>_ z r. z = r)" "packs stored_lib (\<lambda>_ z r. z = r) P P"
  "encoder_ok stored_lib (\<lambda>_ z r. z = r) (\<lambda>_ P Z. P = Z) (\<lambda>_. 0)"
  by (auto simp: decoder_ok_def decodes_def packs_def encoder_ok_def encodes_def flushes_def ends_def stored_lib_def
      zstd_new_d_stream_def zstd_new_c_stream_def min_def intro!: exI [of _ "drop _ _"])




text \<open>A flush that succeeds and has bytes to write reports \<open>EOF\<close>, because the back end returns
  how many it wrote and the caller takes anything but 0 for an error.\<close>

theorem n_iobuf_flush_eof:
  assumes "ib_state ib = Some s" "zs_mode s = TRURL_IO_MODE_WRITE" "zs_c s = Some c"
    and "z_flush lib c (zs_bufsize s) = (c', made, 0)" "\<not> z_is_error lib 0" "made \<noteq> []" "length made < 2 ^ 31"
    and "f_pos (ib_stream ib) = length (f_bytes (ib_stream ib))"
      "f_pos (ib_stream ib) + length made \<le> f_limit (ib_stream ib)"
  shows "\<exists>ib'. n_iobuf_flush (zstdio e lib) ib = Inr (ib', - 1) \<and>
    f_bytes (ib_stream ib') = f_bytes (ib_stream ib) @ made"
proof -
  let ?f = "(ib_stream ib)\<lparr>f_bytes := f_bytes (ib_stream ib) @ made, f_pos := f_pos (ib_stream ib) + length made\<rparr>"
  have "flush_outbuf (ib_stream ib) made = (?f, int (length made))"
    using assms(6-9) by (simp add: flush_outbuf_def c_fwrite_def c_int_small min_def Let_def)
  then have "zstd_flush_loop lib s (ib_stream ib) 0 = Some (Inr (s\<lparr>zs_c := Some c'\<rparr>, ?f, int (length made)))"
    using assms(3-5) by (subst zstd_flush_loop.simps) simp
  then show ?thesis using assms(1,2,6)
    by (simp add: n_iobuf_flush_def ib_with_def zstdio_def zstd_flush_def TRURL_IO_MODE_READ_def TRURL_IO_MODE_WRITE_def)
qed

theorem n_iobuf_flush_eof_witness:
  "\<exists>ib'. n_iobuf_flush (zstdio plain_env (stored_lib\<lparr>z_flush := \<lambda>c n. (c, [7], 0)\<rparr>))
      \<lparr>ib_state = Some \<lparr>zs_mode = 2, zs_c = Some (), zs_d = None, zs_src = [], zs_pos = 0, zs_bufsize = 4\<rparr>, ib_mode = 2,
       ib_stream = \<lparr>f_bytes = [], f_pos = 0, f_limit = 9\<rparr>, ib_fd = 5, ib_pos = 0, ib_seek = 0\<rparr> = Inr (ib', - 1) \<and>
    f_bytes (ib_stream ib') = [] @ [7]"
  using n_iobuf_flush_eof [of "\<lparr>ib_state = Some \<lparr>zs_mode = 2, zs_c = Some (), zs_d = None, zs_src = [], zs_pos = 0, zs_bufsize = 4\<rparr>,
      ib_mode = 2, ib_stream = \<lparr>f_bytes = [], f_pos = 0, f_limit = 9\<rparr>, ib_fd = 5, ib_pos = 0, ib_seek = 0\<rparr>"
      _ "()" "stored_lib\<lparr>z_flush := \<lambda>c n. (c, [7], 0)\<rparr>" "()" "[7]" plain_env]
  by (simp add: TRURL_IO_MODE_WRITE_def stored_lib_def)

text \<open>
  A decoder that takes all its input at once and delivers what there is room for: the read
  at the end of the file does not ask it for the rest.
\<close>

definition eager_lib :: "(unit, bytes) zstd_lib" where
  "eager_lib = \<lparr>z_create_c = Some (), z_init_c = (\<lambda>c _. (c, 0)), z_out_size = 4, z_create_d = Some [],
     z_init_d = (\<lambda>d. (d, 0)), z_in_size = 3, z_is_error = (\<lambda>n. n < 0),
     z_compress = (\<lambda>c n inp. (c, take n inp, length (take n inp), 1)), z_flush = (\<lambda>c n. (c, [], 0)),
     z_end = (\<lambda>c n. (c, [], 0)), z_decompress = (\<lambda>d n inp. (drop n (d @ inp), take n (d @ inp), length inp, 1))\<rparr>"

theorem zstd_read_drops_held_bytes:
  "zstd_read e eager_lib \<lparr>zs_mode = 1, zs_c = None, zs_d = Some [], zs_src = [], zs_pos = 0, zs_bufsize = 3\<rparr>
       \<lparr>f_bytes = [1, 2], f_pos = 0, f_limit = 9\<rparr> 1 =
     Inr (\<lparr>zs_mode = 1, zs_c = None, zs_d = Some [2], zs_src = [1, 2], zs_pos = 2, zs_bufsize = 3\<rparr>,
       \<lparr>f_bytes = [1, 2], f_pos = 2, f_limit = 9\<rparr>, [1], 1)"
  "zstd_read e eager_lib \<lparr>zs_mode = 1, zs_c = None, zs_d = Some [2], zs_src = [1, 2], zs_pos = 2, zs_bufsize = 3\<rparr>
       \<lparr>f_bytes = [1, 2], f_pos = 2, f_limit = 9\<rparr> 1 =
     Inr (\<lparr>zs_mode = 1, zs_c = None, zs_d = Some [2], zs_src = [], zs_pos = 0, zs_bufsize = 3\<rparr>,
       \<lparr>f_bytes = [1, 2], f_pos = 2, f_limit = 9\<rparr>, [], 0)"
  by (simp_all add: zstd_read_def zstd_read_loop.simps fill_inbuf_def c_fread_def f_rest_def eager_lib_def c_int_small Let_def)

end
