(* ===== verification/Backend.thy ===== *)
theory Backend
  imports Iobuf
begin

text \<open>
  Streams over any back end, the other half of \<open>nstream.c\<close>: a stream holds an object of its
  back end and a table of functions, and every call goes through the table. The back ends are
  the C library, \<open>niobuf.c\<close>, and the gzip libraries behind \<open>nstream_z.c\<close> and
  \<open>nstream_zng.c\<close>, whose functions are parameters. A function of the table that is given an
  object of another back end faults. Nothing calls \<open>st_ungetc\<close>, which is left out.
\<close>

section \<open>The gzip back ends\<close>

text \<open>The functions of the library; \<open>gl_getc\<close> gives -1 at the end. \<open>True\<close> is a mode for reading.\<close>

record 'g gz_lib =
  gl_open :: "bytes \<Rightarrow> bool \<Rightarrow> 'g option"
  gl_dopen :: "int \<Rightarrow> bool \<Rightarrow> 'g option"
  gl_read :: "'g \<Rightarrow> nat \<Rightarrow> 'g \<times> bytes \<times> int"
  gl_write :: "'g \<Rightarrow> bytes \<Rightarrow> 'g \<times> int"
  gl_gets :: "'g \<Rightarrow> nat \<Rightarrow> 'g \<times> bytes option"
  gl_getc :: "'g \<Rightarrow> 'g \<times> int"
  gl_seek :: "'g \<Rightarrow> int \<Rightarrow> whence \<Rightarrow> 'g \<times> int"
  gl_tell :: "'g \<Rightarrow> int"
  gl_flush :: "'g \<Rightarrow> 'g \<times> int"
  gl_close :: "'g \<Rightarrow> cfile \<times> int"

datatype ('s, 'g) backend = On_File cfile | On_Iobuf "'s tn_iobuf" | On_Gz 'g

text \<open>The table; \<open>bt_gets\<close> is also told how long the block behind the buffer is.\<close>

record ('s, 'g) st_table =
  bt_open :: "bytes \<Rightarrow> bool \<Rightarrow> ('s, 'g) backend option result"
  bt_dopen :: "int \<Rightarrow> bool \<Rightarrow> ('s, 'g) backend option result"
  bt_read :: "('s, 'g) backend \<Rightarrow> nat \<Rightarrow> (('s, 'g) backend \<times> bytes \<times> int) result"
  bt_write :: "('s, 'g) backend \<Rightarrow> bytes \<Rightarrow> (('s, 'g) backend \<times> int) result"
  bt_gets :: "('s, 'g) backend \<Rightarrow> nat \<Rightarrow> nat \<Rightarrow> (('s, 'g) backend \<times> bytes option) result"
  bt_getc :: "('s, 'g) backend \<Rightarrow> (('s, 'g) backend \<times> 8 word option) result"
  bt_seek :: "('s, 'g) backend \<Rightarrow> int \<Rightarrow> whence \<Rightarrow> (('s, 'g) backend \<times> int) result"
  bt_tell :: "('s, 'g) backend \<Rightarrow> int result"
  bt_flush :: "('s, 'g) backend \<Rightarrow> (('s, 'g) backend \<times> int) result"
  bt_close :: "('s, 'g) backend \<Rightarrow> (cfile \<times> int) result"

definition on_gz :: "('s, 'g) backend \<Rightarrow> ('g \<Rightarrow> 'a result) \<Rightarrow> 'a result" where
  "on_gz b k = (case b of On_Gz g \<Rightarrow> k g | _ \<Rightarrow> Inl Mem_Fault)"

definition do_gz_open :: "'g gz_lib \<Rightarrow> bytes \<Rightarrow> bool \<Rightarrow> ('s, 'g) backend option result" where
  "do_gz_open gl path reading = Inr (map_option On_Gz (gl_open gl path reading))"

definition do_gz_read :: "'g gz_lib \<Rightarrow> ('s, 'g) backend \<Rightarrow> nat \<Rightarrow> (('s, 'g) backend \<times> bytes \<times> int) result" where
  "do_gz_read gl b n = on_gz b (\<lambda>g. case gl_read gl g n of (g, got, r) \<Rightarrow> Inr (On_Gz g, got, r))"

definition do_gz_write :: "'g gz_lib \<Rightarrow> ('s, 'g) backend \<Rightarrow> bytes \<Rightarrow> (('s, 'g) backend \<times> int) result" where
  "do_gz_write gl b bs = on_gz b (\<lambda>g. case gl_write gl g bs of (g, r) \<Rightarrow> Inr (On_Gz g, r))"

definition do_gz_gets :: "'g gz_lib \<Rightarrow> ('s, 'g) backend \<Rightarrow> nat \<Rightarrow> nat \<Rightarrow> (('s, 'g) backend \<times> bytes option) result" where
  "do_gz_gets gl b room n = on_gz b (\<lambda>g. case gl_gets gl g n of (g, got) \<Rightarrow> Inr (On_Gz g, got))"

definition do_gz_flush :: "'g gz_lib \<Rightarrow> ('s, 'g) backend \<Rightarrow> (('s, 'g) backend \<times> int) result" where
  "do_gz_flush gl b = on_gz b (\<lambda>g. case gl_flush gl g of (g, r) \<Rightarrow> Inr (On_Gz g, r))"

definition do_gz_tell :: "'g gz_lib \<Rightarrow> ('s, 'g) backend \<Rightarrow> int result" where
  "do_gz_tell gl b = on_gz b (\<lambda>g. Inr (gl_tell gl g))"

definition do_gz_getc :: "'g gz_lib \<Rightarrow> ('s, 'g) backend \<Rightarrow> (('s, 'g) backend \<times> 8 word option) result" where
  "do_gz_getc gl b = on_gz b (\<lambda>g. case gl_getc gl g of (g, c) \<Rightarrow>
     Inr (On_Gz g, if c = - 1 then None else Some (word_of_int c)))"

definition gz_fseek_wrap :: "'g gz_lib \<Rightarrow> ('s, 'g) backend \<Rightarrow> int \<Rightarrow> whence \<Rightarrow> (('s, 'g) backend \<times> int) result" where
  "gz_fseek_wrap gl b off w = on_gz b (\<lambda>g. case gl_seek gl g off w of (g, rc) \<Rightarrow>
     Inr (On_Gz g, if rc > 0 then 0 else rc))"

definition n_stream_zlib_init :: "'g gz_lib \<Rightarrow> ('s, 'g) st_table" where
  "n_stream_zlib_init gl = \<lparr>bt_open = do_gz_open gl,
     bt_dopen = (\<lambda>fd reading. Inr (map_option On_Gz (gl_dopen gl fd reading))),
     bt_read = do_gz_read gl, bt_write = do_gz_write gl, bt_gets = do_gz_gets gl, bt_getc = do_gz_getc gl,
     bt_seek = gz_fseek_wrap gl, bt_tell = do_gz_tell gl, bt_flush = do_gz_flush gl,
     bt_close = (\<lambda>b. on_gz b (\<lambda>g. Inr (gl_close gl g)))\<rparr>"

text \<open>\<open>nstream_zng.c\<close> has the same wrappers over the functions of the other library.\<close>

definition do_ngz_open :: "'g gz_lib \<Rightarrow> bytes \<Rightarrow> bool \<Rightarrow> ('s, 'g) backend option result" where
  "do_ngz_open gl path reading = Inr (map_option On_Gz (gl_open gl path reading))"

definition do_ngz_read :: "'g gz_lib \<Rightarrow> ('s, 'g) backend \<Rightarrow> nat \<Rightarrow> (('s, 'g) backend \<times> bytes \<times> int) result" where
  "do_ngz_read gl b n = on_gz b (\<lambda>g. case gl_read gl g n of (g, got, r) \<Rightarrow> Inr (On_Gz g, got, r))"

definition do_ngz_write :: "'g gz_lib \<Rightarrow> ('s, 'g) backend \<Rightarrow> bytes \<Rightarrow> (('s, 'g) backend \<times> int) result" where
  "do_ngz_write gl b bs = on_gz b (\<lambda>g. case gl_write gl g bs of (g, r) \<Rightarrow> Inr (On_Gz g, r))"

definition do_ngz_gets :: "'g gz_lib \<Rightarrow> ('s, 'g) backend \<Rightarrow> nat \<Rightarrow> nat \<Rightarrow> (('s, 'g) backend \<times> bytes option) result" where
  "do_ngz_gets gl b room n = on_gz b (\<lambda>g. case gl_gets gl g n of (g, got) \<Rightarrow> Inr (On_Gz g, got))"

definition do_ngz_flush :: "'g gz_lib \<Rightarrow> ('s, 'g) backend \<Rightarrow> (('s, 'g) backend \<times> int) result" where
  "do_ngz_flush gl b = on_gz b (\<lambda>g. case gl_flush gl g of (g, r) \<Rightarrow> Inr (On_Gz g, r))"

definition do_ngz_tell :: "'g gz_lib \<Rightarrow> ('s, 'g) backend \<Rightarrow> int result" where
  "do_ngz_tell gl b = on_gz b (\<lambda>g. Inr (gl_tell gl g))"

definition do_ngz_getc :: "'g gz_lib \<Rightarrow> ('s, 'g) backend \<Rightarrow> (('s, 'g) backend \<times> 8 word option) result" where
  "do_ngz_getc gl b = on_gz b (\<lambda>g. case gl_getc gl g of (g, c) \<Rightarrow>
     Inr (On_Gz g, if c = - 1 then None else Some (word_of_int c)))"

definition ngz_fseek_wrap :: "'g gz_lib \<Rightarrow> ('s, 'g) backend \<Rightarrow> int \<Rightarrow> whence \<Rightarrow> (('s, 'g) backend \<times> int) result" where
  "ngz_fseek_wrap gl b off w = on_gz b (\<lambda>g. case gl_seek gl g off w of (g, rc) \<Rightarrow>
     Inr (On_Gz g, if rc > 0 then 0 else rc))"

definition n_stream_zlib_ng_init :: "'g gz_lib \<Rightarrow> ('s, 'g) st_table" where
  "n_stream_zlib_ng_init gl = \<lparr>bt_open = do_ngz_open gl,
     bt_dopen = (\<lambda>fd reading. Inr (map_option On_Gz (gl_dopen gl fd reading))),
     bt_read = do_ngz_read gl, bt_write = do_ngz_write gl, bt_gets = do_ngz_gets gl, bt_getc = do_ngz_getc gl,
     bt_seek = ngz_fseek_wrap gl, bt_tell = do_ngz_tell gl, bt_flush = do_ngz_flush gl,
     bt_close = (\<lambda>b. on_gz b (\<lambda>g. Inr (gl_close gl g)))\<rparr>"

lemma n_stream_zlib_ng_same: "n_stream_zlib_ng_init gl = n_stream_zlib_init gl"
  by (simp add: n_stream_zlib_ng_init_def n_stream_zlib_init_def fun_eq_iff do_ngz_open_def do_gz_open_def
      do_ngz_read_def do_gz_read_def do_ngz_write_def do_gz_write_def do_ngz_gets_def do_gz_gets_def
      do_ngz_flush_def do_gz_flush_def do_ngz_tell_def do_gz_tell_def do_ngz_getc_def do_gz_getc_def
      ngz_fseek_wrap_def gz_fseek_wrap_def)

section \<open>The C library and the compressed files\<close>

text \<open>The operating system: the file behind a path or a descriptor, with the descriptor.\<close>

record os_files =
  os_fopen :: "bytes \<Rightarrow> bool \<Rightarrow> (cfile \<times> int) option"
  os_fdopen :: "int \<Rightarrow> bool \<Rightarrow> cfile option"

definition on_file :: "('s, 'g) backend \<Rightarrow> (cfile \<Rightarrow> 'a result) \<Rightarrow> 'a result" where
  "on_file b k = (case b of On_File f \<Rightarrow> k f | _ \<Rightarrow> Inl Mem_Fault)"

definition on_iobuf :: "('s, 'g) backend \<Rightarrow> ('s tn_iobuf \<Rightarrow> 'a result) \<Rightarrow> 'a result" where
  "on_iobuf b k = (case b of On_Iobuf ib \<Rightarrow> k ib | _ \<Rightarrow> Inl Mem_Fault)"

definition stdio_getc :: "('s, 'g) backend \<Rightarrow> (('s, 'g) backend \<times> 8 word option) result" where
  "stdio_getc b = on_file b (\<lambda>f. case c_getc f of (f, c) \<Rightarrow> Inr (On_File f, c))"

definition stdio_table :: "os_files \<Rightarrow> ('s, 'g) st_table" where
  "stdio_table os = \<lparr>bt_open = (\<lambda>path reading. Inr (map_option (\<lambda>(f, _). On_File f) (os_fopen os path reading))),
     bt_dopen = (\<lambda>fd reading. Inr (map_option On_File (os_fdopen os fd reading))),
     bt_read = (\<lambda>b n. on_file b (\<lambda>f. case do_s_read f n of (f, got, r) \<Rightarrow> Inr (On_File f, got, r))),
     bt_write = (\<lambda>b bs. on_file b (\<lambda>f. case do_s_write f bs of (f, r) \<Rightarrow> Inr (On_File f, r))),
     bt_gets = (\<lambda>b room n. on_file b (\<lambda>f. case do_s_gets f n of (f, got) \<Rightarrow> Inr (On_File f, got))),
     bt_getc = stdio_getc,
     bt_seek = (\<lambda>b off w. on_file b (\<lambda>f. case c_fseek f off w of (f, r) \<Rightarrow> Inr (On_File f, r))),
     bt_tell = (\<lambda>b. on_file b (\<lambda>f. Inr (int (f_pos f)))),
     bt_flush = (\<lambda>b. on_file b (\<lambda>f. Inr (On_File f, 0))),
     bt_close = (\<lambda>b. on_file b (\<lambda>f. Inr (f, 0)))\<rparr>"

text \<open>\<open>st_getc\<close> is the \<open>getc\<close> of the C library, which is given a \<open>tn_iobuf\<close>.\<close>

definition zstd_table :: "env \<Rightarrow> os_files \<Rightarrow> 's trurl_io \<Rightarrow> ('s, 'g) st_table" where
  "zstd_table e os io = \<lparr>
     bt_open = (\<lambda>path reading. rbind (n_iobuf_open e io (os_fopen os path reading) reading) (\<lambda>ib. Inr (map_option On_Iobuf ib))),
     bt_dopen = (\<lambda>fd reading. rbind (n_iobuf_dopen e io fd (os_fdopen os fd reading) reading) (\<lambda>ib. Inr (map_option On_Iobuf ib))),
     bt_read = (\<lambda>b n. on_iobuf b (\<lambda>ib. rbind (n_iobuf_read e io ib n) (\<lambda>(ib, got, r). Inr (On_Iobuf ib, got, r)))),
     bt_write = (\<lambda>b bs. on_iobuf b (\<lambda>ib. rbind (n_iobuf_write io ib bs) (\<lambda>(ib, r). Inr (On_Iobuf ib, r)))),
     bt_gets = (\<lambda>b room n. on_iobuf b (\<lambda>ib. rbind (n_iobuf_gets e io ib room n) (\<lambda>(ib, line). Inr (On_Iobuf ib, Some line)))),
     bt_getc = stdio_getc,
     bt_seek = (\<lambda>b off w. on_iobuf b (\<lambda>ib. rbind (n_iobuf_seek e ib off w) (\<lambda>(ib, r). Inr (On_Iobuf ib, r)))),
     bt_tell = (\<lambda>b. on_iobuf b (\<lambda>ib. Inr (n_iobuf_tell ib))),
     bt_flush = (\<lambda>b. on_iobuf b (\<lambda>ib. rbind (n_iobuf_flush io ib) (\<lambda>(ib, r). Inr (On_Iobuf ib, r)))),
     bt_close = (\<lambda>b. on_iobuf b (\<lambda>ib. n_iobuf_close io ib))\<rparr>"

section \<open>Streams\<close>

text \<open>What the library was built with: the two gzip libraries, when there.\<close>

record ('s, 'g) st_build =
  sb_os :: os_files
  sb_io :: "'s trurl_io"
  sb_zlib :: "'g gz_lib option"
  sb_zlib_ng :: "'g gz_lib option"

text \<open>\<open>as_table = None\<close>: the pointers were never set.\<close>

record ('s, 'g) any_stream =
  as_type :: int
  as_stream :: "('s, 'g) backend option"
  as_fd :: int
  as_hook :: "(bytes \<Rightarrow> bool) option"
  as_table :: "('s, 'g) st_table option"

definition trurl_default_libz :: "('s, 'g) st_build \<Rightarrow> string" where
  "trurl_default_libz bd = (if sb_zlib bd \<noteq> None \<and> sb_zlib_ng bd \<noteq> None then ''zlib'' else ''zlib-ng'')"

definition any_new :: "env \<Rightarrow> ('s, 'g) st_build \<Rightarrow> int \<Rightarrow> ('s, 'g) any_stream result" where
  "any_new e bd type =
     (let st = \<lparr>as_type = type, as_stream = None, as_fd = - 1, as_hook = None, as_table = None\<rparr> in
      if type = TN_STREAM_STDIO then Inr (st\<lparr>as_table := Some (stdio_table (sb_os bd))\<rparr>)
      else if type = TN_STREAM_GZIO then
        (case sb_zlib bd of Some gl \<Rightarrow> Inr (st\<lparr>as_table := Some (n_stream_zlib_init gl)\<rparr>)
         | None \<Rightarrow> case sb_zlib_ng bd of Some gl \<Rightarrow> Inr (st\<lparr>as_table := Some (n_stream_zlib_ng_init gl)\<rparr>)
           | None \<Rightarrow> trurl_die e ''unsupported stream type'' (Inr st))
      else if type = TN_STREAM_GZIO_NG then
        (case sb_zlib_ng bd of Some gl \<Rightarrow> Inr (st\<lparr>as_table := Some (n_stream_zlib_ng_init gl)\<rparr>)
         | None \<Rightarrow> trurl_die e ''unsupported stream type'' (Inr st))
      else if type = TN_STREAM_ZSTDIO then Inr (st\<lparr>as_table := Some (zstd_table e (sb_os bd) (sb_io bd))\<rparr>)
      else trurl_die e ''unknown stream type'' (n_assert e False (Inr st)))"

text \<open>A call through the table, and one that is given the object.\<close>

definition through :: "('s, 'g) any_stream \<Rightarrow> (('s, 'g) st_table \<Rightarrow> 'a result) \<Rightarrow> 'a result" where
  "through st k = (case as_table st of None \<Rightarrow> Inl Mem_Fault | Some t \<Rightarrow> k t)"

definition on_stream :: "('s, 'g) any_stream \<Rightarrow> (('s, 'g) st_table \<Rightarrow> ('s, 'g) backend \<Rightarrow> 'a result) \<Rightarrow> 'a result" where
  "on_stream st k = through st (\<lambda>t. case as_stream st of None \<Rightarrow> Inl Mem_Fault | Some b \<Rightarrow> k t b)"

text \<open>The type asked for is not looked at. A stream that cannot be opened is freed, which is \<open>None\<close>.\<close>

definition any_open :: "env \<Rightarrow> ('s, 'g) st_build \<Rightarrow> bytes \<Rightarrow> bool \<Rightarrow> int \<Rightarrow> ('s, 'g) any_stream option result" where
  "any_open e bd path reading type =
     (let type = n_stream_guess_type (sb_zlib_ng bd \<noteq> None) path in
      rbind (any_new e bd type) (\<lambda>st.
      rbind (through st (\<lambda>t. bt_open t path reading)) (\<lambda>b.
        Inr (map_option (\<lambda>b. st\<lparr>as_stream := Some b\<rparr>) b))))"

definition any_dopen :: "env \<Rightarrow> ('s, 'g) st_build \<Rightarrow> int \<Rightarrow> bool \<Rightarrow> int \<Rightarrow> ('s, 'g) any_stream option result" where
  "any_dopen e bd fd reading type =
     rbind (any_new e bd type) (\<lambda>st.
     rbind (through st (\<lambda>t. bt_dopen t fd reading)) (\<lambda>b.
       Inr (map_option (\<lambda>b. st\<lparr>as_stream := Some b, as_fd := fd\<rparr>) b)))"

definition any_read :: "('s, 'g) any_stream \<Rightarrow> nat \<Rightarrow> (('s, 'g) any_stream \<times> bytes \<times> int) result" where
  "any_read st n = on_stream st (\<lambda>t b. rbind (bt_read t b n) (\<lambda>(b, got, r). Inr (st\<lparr>as_stream := Some b\<rparr>, got, r)))"

definition any_read_uint8 :: "('s, 'g) any_stream \<Rightarrow> 8 word \<Rightarrow> (('s, 'g) any_stream \<times> 8 word \<times> int) result" where
  "any_read_uint8 st v0 = rbind (any_read st 1) (\<lambda>(st, got, r). Inr (if r \<noteq> 1 then (st, v0, 0) else (st, hd got, 1)))"

definition any_read_uint16 :: "('s, 'g) any_stream \<Rightarrow> 16 word \<Rightarrow> (('s, 'g) any_stream \<times> 16 word \<times> int) result" where
  "any_read_uint16 st v0 = rbind (any_read st 2) (\<lambda>(st, got, r). Inr (if r \<noteq> 2 then (st, v0, 0) else (st, n_ntoh16 got, 1)))"

definition any_read_uint32 :: "('s, 'g) any_stream \<Rightarrow> (('s, 'g) any_stream \<times> 32 word \<times> int) result" where
  "any_read_uint32 st = rbind (any_read st 4) (\<lambda>(st, got, r). Inr (if r \<noteq> 4 then (st, 0, 0) else (st, n_ntoh32 got, 4)))"

definition any_write :: "('s, 'g) any_stream \<Rightarrow> bytes \<Rightarrow> (('s, 'g) any_stream \<times> int) result" where
  "any_write st bs =
     (if (case as_hook st of None \<Rightarrow> False | Some h \<Rightarrow> \<not> h bs) then Inr (st, c_int (length bs))
      else on_stream st (\<lambda>t b. rbind (bt_write t b bs) (\<lambda>(b, r). Inr (st\<lparr>as_stream := Some b\<rparr>, r))))"

definition any_seek :: "('s, 'g) any_stream \<Rightarrow> int \<Rightarrow> whence \<Rightarrow> (('s, 'g) any_stream \<times> int) result" where
  "any_seek st off w = on_stream st (\<lambda>t b. rbind (bt_seek t b off w) (\<lambda>(b, r). Inr (st\<lparr>as_stream := Some b\<rparr>, r)))"

definition any_tell :: "('s, 'g) any_stream \<Rightarrow> int result" where
  "any_tell st = on_stream st (\<lambda>t b. bt_tell t b)"

definition any_flush :: "('s, 'g) any_stream \<Rightarrow> (('s, 'g) any_stream \<times> int) result" where
  "any_flush st = on_stream st (\<lambda>t b. rbind (bt_flush t b) (\<lambda>(b, r). Inr (st\<lparr>as_stream := Some b\<rparr>, r)))"

text \<open>The file that is left, when one was open.\<close>

definition any_close :: "('s, 'g) any_stream \<Rightarrow> cfile option result" where
  "any_close st = (case as_stream st of None \<Rightarrow> Inr None
     | Some b \<Rightarrow> through st (\<lambda>t. rbind (bt_close t b) (\<lambda>(f, _). Inr (Some f))))"

definition any_vprintf :: "('s, 'g) any_stream \<Rightarrow> bytes \<Rightarrow> (('s, 'g) any_stream \<times> int) result" where
  "any_vprintf st out =
     (if length out > 32768 then Inl Mem_Fault
      else on_stream st (\<lambda>t b. rbind (bt_write t b (take (length out) (take 32767 out @ [0])))
        (\<lambda>(b, r). Inr (st\<lparr>as_stream := Some b\<rparr>, r))))"

text \<open>\<open>room\<close> is the length of the block at \<open>buf\<close>.\<close>

definition any_gets :: "('s, 'g) any_stream \<Rightarrow> nat \<Rightarrow> nat \<Rightarrow> (('s, 'g) any_stream \<times> bytes option \<times> nat) result" where
  "any_gets st room n = on_stream st (\<lambda>t b. rbind (bt_gets t b room n) (\<lambda>(b, got).
     Inr (st\<lparr>as_stream := Some b\<rparr>, got, case got of None \<Rightarrow> 0 | Some s \<Rightarrow> c_strlen s)))"

partial_function (option) any_getc_loop ::
    "('s, 'g) any_stream \<Rightarrow> bytes \<Rightarrow> nat \<Rightarrow> (('s, 'g) any_stream \<times> bytes) result option" where
  "any_getc_loop st buf sz =
     (let sz = (if length buf = sz - 1 then 2 * sz else sz) in
      case on_stream st (\<lambda>t b. rbind (bt_getc t b) (\<lambda>(b, c). Inr (st\<lparr>as_stream := Some b\<rparr>, c))) of
        Inl err \<Rightarrow> Some (Inl err)
      | Inr (st', None) \<Rightarrow> Some (if length buf < sz then Inr (st', buf) else Inl Mem_Fault)
      | Inr (st', Some c) \<Rightarrow>
          if length buf < sz
          then if c = 10 then Some (if length buf + 1 < sz then Inr (st', buf @ [c]) else Inl Mem_Fault)
               else any_getc_loop st' (buf @ [c]) sz
          else Some (Inl Mem_Fault))"

definition any_getline :: "nat \<Rightarrow> ('s, 'g) any_stream \<Rightarrow> nat option \<Rightarrow> (('s, 'g) any_stream \<times> bytes \<times> int) result" where
  "any_getline max_canon st size0 =
     (let sz = (case size0 of None \<Rightarrow> max_canon | Some n \<Rightarrow> n) in
      if sz = 0 then Inl Mem_Fault
      else rbind (any_gets st sz sz) (\<lambda>(st, got, n).
        let buf = take n (case got of None \<Rightarrow> [] | Some s \<Rightarrow> s) in
        if n < sz - 1 then Inr (st, buf, c_int n)
        else rbind (case any_getc_loop st buf sz of None \<Rightarrow> Inl Hang | Some r \<Rightarrow> r) (\<lambda>(st, buf).
          Inr (st, buf, c_int (length buf)))))"

end
