(* ===== verification/BackendProps.thy ===== *)
theory BackendProps
  imports Backend IobufProps
begin

text \<open>
  What the streams promise over any back end: \<open>any_reader\<close> is the contract of a table that
  reads, kept by the tables of the C library and of the compressed files, so that a stream
  over a compressed file answers as one over the file of its plain bytes; and where they
  differ. The streams of the theory \<open>Stream\<close> are those over the C library.
\<close>

section \<open>The contract of a back end that reads\<close>

datatype st_call = St_Read nat | St_U8 | St_U16 | St_U32 | St_Line nat | St_Seek int whence | St_Tell
datatype st_answer = St_Bytes bytes int | St_Num int int | St_Text nat bytes | St_Sought | St_Pos int

fun st_step :: "('s, 'g) any_stream \<Rightarrow> st_call \<Rightarrow> (('s, 'g) any_stream \<times> st_answer) result" where
  "st_step st (St_Read n) = rbind (any_read st n) (\<lambda>(st, got, r). Inr (st, St_Bytes got r))"
| "st_step st St_U8 = rbind (any_read_uint8 st 0) (\<lambda>(st, v, r). Inr (st, St_Num (uint v) r))"
| "st_step st St_U16 = rbind (any_read_uint16 st 0) (\<lambda>(st, v, r). Inr (st, St_Num (uint v) r))"
| "st_step st St_U32 = rbind (any_read_uint32 st) (\<lambda>(st, v, r). Inr (st, St_Num (uint v) r))"
| "st_step st (St_Line n) = rbind (any_gets st n n) (\<lambda>(st, got, k).
     Inr (st, St_Text k (take k (case got of None \<Rightarrow> [] | Some s \<Rightarrow> s))))"
| "st_step st (St_Seek off w) = rbind (any_seek st off w) (\<lambda>(st, _). Inr (st, St_Sought))"
| "st_step st St_Tell = rbind (any_tell st) (\<lambda>p. Inr (st, St_Pos p))"

text \<open>
  Bytes and a position. A line must be shorter than the buffer, a seek must stay inside; its
  result is not compared, 0 from one back end and 1 from the other.
\<close>

fun st_spec :: "bytes \<times> nat \<Rightarrow> st_call \<Rightarrow> ((bytes \<times> nat) \<times> st_answer) option" where
  "st_spec (P, t) (St_Read n) =
     (if n < 2 ^ 31 then let got = take n (drop t P) in Some ((P, t + length got), St_Bytes got (int (length got)))
      else None)"
| "st_spec (P, t) St_U8 = (case take 1 (drop t P) of
       [b] \<Rightarrow> Some ((P, t + 1), St_Num (uint b) 1) | got \<Rightarrow> Some ((P, t), St_Num 0 0))"
| "st_spec (P, t) St_U16 = (let got = take 2 (drop t P) in
       Some ((P, t + length got), if length got = 2 then St_Num (uint (n_ntoh16 got)) 1 else St_Num 0 0))"
| "st_spec (P, t) St_U32 = (let got = take 4 (drop t P) in
       Some ((P, t + length got), if length got = 4 then St_Num (uint (n_ntoh32 got)) 4 else St_Num 0 0))"
| "st_spec (P, t) (St_Line n) = (let line = first_line (drop t P) in
       if length line < n then Some ((P, t + length line), St_Text (c_strlen line) (take (c_strlen line) line)) else None)"
| "st_spec (P, t) (St_Seek off w) =
     (case (case w of Seek_Set \<Rightarrow> Some off | Seek_Cur \<Rightarrow> Some (int t + off) | _ \<Rightarrow> None) of
        None \<Rightarrow> None
      | Some p \<Rightarrow> if 0 \<le> p \<and> p \<le> int (length P) then Some ((P, nat p), St_Sought) else None)"
| "st_spec (P, t) St_Tell = Some ((P, t), St_Pos (int t))"

locale any_reader =
  fixes rel :: "('s, 'g) any_stream \<Rightarrow> bytes \<times> nat \<Rightarrow> bool"
  assumes any_read_ok: "rel st (P, t) \<Longrightarrow> n < 2 ^ 31 \<Longrightarrow>
      \<exists>st'. any_read st n = Inr (st', take n (drop t P), int (length (take n (drop t P)))) \<and>
        rel st' (P, t + length (take n (drop t P)))"
    and any_gets_ok: "rel st (P, t) \<Longrightarrow> length (first_line (drop t P)) < n \<Longrightarrow>
      \<exists>st' got. any_gets st n n = Inr (st', got, c_strlen (first_line (drop t P))) \<and>
        (case got of None \<Rightarrow> [] | Some s \<Rightarrow> s) = first_line (drop t P) \<and> rel st' (P, t + length (first_line (drop t P)))"
    and any_seek_ok: "rel st (P, t) \<Longrightarrow>
      (case w of Seek_Set \<Rightarrow> Some off | Seek_Cur \<Rightarrow> Some (int t + off) | _ \<Rightarrow> None) = Some p \<Longrightarrow>
      0 \<le> p \<Longrightarrow> p \<le> int (length P) \<Longrightarrow> \<exists>st' r. any_seek st off w = Inr (st', r) \<and> rel st' (P, nat p)"
    and any_tell_ok: "rel st (P, t) \<Longrightarrow> any_tell st = Inr (int t)"
begin

lemma st_step_ok:
  assumes "rel st a" "st_spec a c = Some (a', r)"
  shows "\<exists>st'. st_step st c = Inr (st', r) \<and> rel st' a'"
proof -
  obtain P t where a [simp]: "a = (P, t)" by (cases a)
  note rel = assms(1) [simplified]
  show ?thesis
  proof (cases c)
    case (St_Read n)
    then show ?thesis using assms(2) any_read_ok [OF rel, of n] by (auto simp: Let_def split: if_splits)
  next
    case St_U8
    then show ?thesis using assms(2) any_read_ok [OF rel, of 1]
      by (cases "drop t P") (auto simp: any_read_uint8_def)
  next
    case St_U16
    then show ?thesis using assms(2) any_read_ok [OF rel, of 2] by (auto simp: any_read_uint16_def Let_def)
  next
    case St_U32
    then show ?thesis using assms(2) any_read_ok [OF rel, of 4] by (auto simp: any_read_uint32_def Let_def)
  next
    case (St_Line n)
    then show ?thesis using assms(2) any_gets_ok [OF rel, of n] by (fastforce simp: Let_def split: if_splits)
  next
    case (St_Seek off w)
    with assms(2) obtain p where p: "(case w of Seek_Set \<Rightarrow> Some off | Seek_Cur \<Rightarrow> Some (int t + off) | _ \<Rightarrow> None) = Some p"
      "0 \<le> p" "p \<le> int (length P)" "a' = (P, nat p)" "r = St_Sought" by (auto split: option.splits if_splits)
    from any_seek_ok [OF rel p(1-3)] St_Seek p(4,5) show ?thesis by auto
  next
    case St_Tell
    then show ?thesis using assms(2) any_tell_ok [OF rel] rel by auto
  qed
qed

end

sublocale any_reader \<subseteq> run: simulation st_step st_spec rel
  by unfold_locales (rule st_step_ok)

section \<open>Files and compressed files\<close>

definition file_rel :: "os_files \<Rightarrow> ('s, 'g) any_stream \<Rightarrow> bytes \<times> nat \<Rightarrow> bool" where
  "file_rel os st a \<longleftrightarrow> as_table st = Some (stdio_table os) \<and>
     (\<exists>f. as_stream st = Some (On_File f) \<and> f_bytes f = fst a \<and> f_pos f = snd a \<and> snd a \<le> length (fst a) \<and> length (fst a) < 2 ^ 31)"

lemma take_first_line: "take (length (first_line bs)) bs = first_line bs"
  by (induction bs) auto

lemma first_line_length: "length (first_line bs) \<le> length bs"
  by (induction bs) auto

lemma first_line_Nil [simp]: "first_line bs = [] \<longleftrightarrow> bs = []"
  by (cases bs) auto

interpretation on_file: any_reader "file_rel os" for os
proof
  fix st P t n
  assume "file_rel os st (P, t)" "n < (2 :: nat) ^ 31"
  then show "\<exists>st'. any_read st n = Inr (st', take n (drop t P), int (length (take n (drop t P)))) \<and>
      file_rel os st' (P, t + length (take n (drop t P)))"
    by (auto simp: file_rel_def any_read_def on_stream_def through_def stdio_table_def on_file_def do_s_read_def c_fread_def
        f_rest_def Let_def c_int_small)
next
  fix st P t n
  assume st: "file_rel os st (P, t)" and n: "length (first_line (drop t P)) < n"
  have "t + length (first_line (drop t P)) \<le> length P"
    using st first_line_length [of "drop t P"] by (auto simp: file_rel_def)
  moreover have "take (n - 1) (first_line (drop t P)) = first_line (drop t P)" using n by simp
  ultimately show "\<exists>st' got. any_gets st n n = Inr (st', got, c_strlen (first_line (drop t P))) \<and>
      (case got of None \<Rightarrow> [] | Some s \<Rightarrow> s) = first_line (drop t P) \<and> file_rel os st' (P, t + length (first_line (drop t P)))"
    using st n
    by (cases "n = 1") (auto simp: file_rel_def any_gets_def on_stream_def through_def stdio_table_def on_file_def do_s_gets_def
        c_fgets_def f_rest_def Let_def c_strlen_def)
next
  fix st P t w off p
  assume "file_rel os st (P, t)" "0 \<le> p" "p \<le> int (length P)"
    "(case w of Seek_Set \<Rightarrow> Some off | Seek_Cur \<Rightarrow> Some (int t + off) | _ \<Rightarrow> None) = Some p"
  then show "\<exists>st' r. any_seek st off w = Inr (st', r) \<and> file_rel os st' (P, nat p)"
    by (cases w) (auto simp: file_rel_def any_seek_def on_stream_def through_def stdio_table_def on_file_def c_fseek_def)
next
  fix st P t
  assume "file_rel os st (P, t)"
  then show "any_tell st = Inr (int t)"
    by (auto simp: file_rel_def any_tell_def on_stream_def through_def stdio_table_def on_file_def)
qed

definition zstd_rel :: "env \<Rightarrow> os_files \<Rightarrow> ('c, 'd) zstd_lib \<Rightarrow> ('d \<Rightarrow> bytes \<Rightarrow> bytes \<Rightarrow> bool) \<Rightarrow>
    (('c, 'd) zstd_state, 'g) any_stream \<Rightarrow> bytes \<times> nat \<Rightarrow> bool" where
  "zstd_rel e os lib dec st a \<longleftrightarrow> as_table st = Some (zstd_table e os (zstdio e lib)) \<and>
     (\<exists>ib. as_stream st = Some (On_Iobuf ib) \<and> ib_rel (zstd_src lib dec) ib a)"

lemmas on_zstd_defs = zstd_rel_def on_stream_def through_def zstd_table_def on_iobuf_def

interpretation on_zstd: any_reader "zstd_rel e os lib dec" for e os lib dec
proof
  fix st P t n
  assume "zstd_rel e os lib dec st (P, t)" and n: "n < (2 :: nat) ^ 31"
  then obtain ib where ib: "as_stream st = Some (On_Iobuf ib)" "ib_rel (zstd_src lib dec) ib (P, t)"
    "as_table st = Some (zstd_table e os (zstdio e lib))" by (auto simp: zstd_rel_def)
  from zs.iobuf_read_ok [OF ib(2) n, of e e] ib(1,3)
  show "\<exists>st'. any_read st n = Inr (st', take n (drop t P), int (length (take n (drop t P)))) \<and>
      zstd_rel e os lib dec st' (P, t + length (take n (drop t P)))"
    by (fastforce simp: any_read_def on_zstd_defs)
next
  fix st P t n
  assume "zstd_rel e os lib dec st (P, t)" and n: "length (first_line (drop t P)) < n"
  then obtain ib where ib: "as_stream st = Some (On_Iobuf ib)" "ib_rel (zstd_src lib dec) ib (P, t)"
    "as_table st = Some (zstd_table e os (zstdio e lib))" by (auto simp: zstd_rel_def)
  from zs.getx_ok [OF ib(2), of "[]" n n e e] n ib(1,3)
  show "\<exists>st' got. any_gets st n n = Inr (st', got, c_strlen (first_line (drop t P))) \<and>
      (case got of None \<Rightarrow> [] | Some s \<Rightarrow> s) = first_line (drop t P) \<and> zstd_rel e os lib dec st' (P, t + length (first_line (drop t P)))"
    by (auto simp: any_gets_def n_iobuf_gets_def n_iobuf_getx_def on_zstd_defs)
next
  fix st P t w off p
  assume "zstd_rel e os lib dec st (P, t)" and p: "0 \<le> p" "p \<le> int (length P)"
    and w: "(case w of Seek_Set \<Rightarrow> Some off | Seek_Cur \<Rightarrow> Some (int t + off) | _ \<Rightarrow> None) = Some p"
  then obtain ib where ib: "as_stream st = Some (On_Iobuf ib)" "ib_rel (zstd_src lib dec) ib (P, t)"
    "as_table st = Some (zstd_table e os (zstdio e lib))" by (auto simp: zstd_rel_def)
  from zs.seek_ok [OF ib(2) w p, of e] ib(1,3) show "\<exists>st' r. any_seek st off w = Inr (st', r) \<and> zstd_rel e os lib dec st' (P, nat p)"
    by (fastforce simp: any_seek_def on_zstd_defs)
next
  fix st P t
  assume "zstd_rel e os lib dec st (P, t)"
  then show "any_tell st = Inr (int t)"
    by (auto simp: any_tell_def n_iobuf_tell_def ib_rel_def on_zstd_defs)
qed

lemma opened_file:
  assumes "n_stream_guess_type (sb_zlib_ng bd \<noteq> None) path = TN_STREAM_STDIO"
    and "os_fopen (sb_os bd) path True = Some (f, fd)" "f_bytes f = P" "f_pos f = 0" "length P < 2 ^ 31"
  shows "\<exists>st. any_open e bd path True type = Inr (Some st) \<and> file_rel (sb_os bd) st (P, 0)"
  using assms by (auto simp: any_open_def any_new_def through_def stdio_table_def file_rel_def Let_def)

lemma opened_zstd:
  assumes "n_stream_guess_type (sb_zlib_ng bd \<noteq> None) path = TN_STREAM_ZSTDIO" "sb_io bd = zstdio e lib"
    and "os_fopen (sb_os bd) path True = Some (f, fd)" "decoder_ok lib dec" "packs lib dec (f_bytes f) P"
    and "f_pos f = 0" "length P < 2 ^ 31"
  shows "\<exists>st. any_open e bd path True type = Inr (Some st) \<and> zstd_rel e (sb_os bd) lib dec st (P, 0)"
proof -
  from iobuf_opened [OF assms(4,5,7,6)] obtain ib where
    "n_iobuf_open e (zstdio e lib) (Some (f, fd)) True = Inr (Some ib)" "ib_rel (zstd_src lib dec) ib (P, 0)" by blast
  then show ?thesis using assms(1-3)
    by (auto simp: any_open_def any_new_def through_def zstd_table_def zstd_rel_def Let_def TN_STREAM_STDIO_def
        TN_STREAM_GZIO_def TN_STREAM_GZIO_NG_def TN_STREAM_ZSTDIO_def)
qed

section \<open>Properties\<close>


text \<open>A disk with a plain and a compressed copy of three lines, with the library that stores.\<close>

definition small_disk :: "((unit, unit) zstd_state, unit) st_build" where
  "small_disk = \<lparr>sb_os = \<lparr>os_fopen = (\<lambda>path _. Some (\<lparr>f_bytes = [104, 105, 10, 33, 10, 1, 2], f_pos = 0, f_limit = 9\<rparr>, 5)),
     os_fdopen = (\<lambda>_ _. None)\<rparr>, sb_io = zstdio plain_env stored_lib, sb_zlib = None, sb_zlib_ng = None\<rparr>"

lemma small_answers:
  "answers st_spec ([104, 105, 10, 33, 10, 1, 2], 0) [St_Line 9, St_Line 9, St_U16, St_Tell] =
    Some (([104, 105, 10, 33, 10, 1, 2], 7), [St_Text 3 [104, 105, 10], St_Text 2 [33, 10], St_Num 258 1, St_Pos 7])"
proof -
  let ?P = "[104, 105, 10, 33, 10, 1, 2] :: bytes"
  have "st_spec (?P, 0) (St_Line 9) = Some ((?P, 3), St_Text 3 [104, 105, 10])" by (simp add: c_strlen_def Let_def)
  moreover have "st_spec (?P, 3) (St_Line 9) = Some ((?P, 5), St_Text 2 [33, 10])" by (simp add: c_strlen_def Let_def)
  moreover have "st_spec (?P, 5) St_U16 = Some ((?P, 7), St_Num 258 1)" by (simp add: Let_def)
  ultimately show ?thesis by (simp only: answers.simps st_spec.simps(7) option.case prod.case option.map, simp)
qed




section \<open>Streams over the C library\<close>

definition over_file :: "os_files \<Rightarrow> tn_stream \<Rightarrow> ('s, 'g) any_stream" where
  "over_file os st = \<lparr>as_type = st_type st, as_stream = Some (On_File (st_stream st)), as_fd = st_fd st,
     as_hook = st_hook st, as_table = Some (stdio_table os)\<rparr>"

lemmas over_file_defs = over_file_def on_stream_def through_def stdio_table_def on_file_def

lemma getc_loop_over_file:
  "any_getc_loop (over_file os st) buf sz =
     Some (rbind (getc_loop (st_stream st) buf sz) (\<lambda>(f, buf). Inr (over_file os (st\<lparr>st_stream := f\<rparr>), buf)))"
proof (induction "st_stream st" buf sz arbitrary: st rule: getc_loop.induct)
  case (1 buf sz)
  let ?sz = "if length buf = sz - 1 then 2 * sz else sz"
  obtain f' c where c: "c_getc (st_stream st) = (f', c)" by (cases "c_getc (st_stream st)")
  have "(over_file os st :: ('a, 'b) any_stream)\<lparr>as_stream := Some (On_File f')\<rparr> = over_file os (st\<lparr>st_stream := f'\<rparr>)"
    by (simp add: over_file_def)
  then have step: "on_stream (over_file os st :: ('a, 'b) any_stream) (\<lambda>t b. rbind (bt_getc t b) (\<lambda>(b, c).
      Inr ((over_file os st)\<lparr>as_stream := Some b\<rparr>, c))) = Inr (over_file os (st\<lparr>st_stream := f'\<rparr>), c)"
    using c by (simp add: over_file_def on_stream_def through_def stdio_table_def stdio_getc_def on_file_def)
  show ?case
  proof (cases c)
    case None
    then show ?thesis using step c
      by (subst any_getc_loop.simps, subst getc_loop.simps) (simp add: Let_def)
  next
    case (Some b)
    have "any_getc_loop (over_file os (st\<lparr>st_stream := f'\<rparr>) :: ('a, 'b) any_stream) (buf @ [b]) ?sz =
      Some (rbind (getc_loop (st_stream (st\<lparr>st_stream := f'\<rparr>)) (buf @ [b]) ?sz)
        (\<lambda>(f, buf). Inr (over_file os (st\<lparr>st_stream := f'\<rparr>\<lparr>st_stream := f\<rparr>), buf)))"
      if "b \<noteq> 10" "length buf < ?sz"
      by (rule 1) (use c Some that in auto)
    then show ?thesis using step c Some
      by (subst any_getc_loop.simps, subst getc_loop.simps) (simp add: Let_def)
  qed
qed

text \<open>A stream over the C library, driven through its table of functions, does what the functions
  of the theory \<open>Stream\<close> do, line reading with its growing buffer included.\<close>

theorem stdio_stream_is_stream:
  "any_read (over_file os st) n = (case n_stream_read st n of (st', got, r) \<Rightarrow> Inr (over_file os st', got, r)) \<and>
   any_write (over_file os st) bs = (case n_stream_write st bs of (st', r) \<Rightarrow> Inr (over_file os st', r)) \<and>
   any_seek (over_file os st) off w = (case n_stream_seek st off w of (st', r) \<Rightarrow> Inr (over_file os st', r)) \<and>
   any_tell (over_file os st) = Inr (n_stream_tell st) \<and>
   any_vprintf (over_file os st) out = rbind (n_stream_vprintf st out) (\<lambda>(st', r). Inr (over_file os st', r)) \<and>
   any_gets (over_file os st) room n = (case n_stream_gets st n of (st', got, k) \<Rightarrow> Inr (over_file os st', got, k)) \<and>
   any_getline max_canon (over_file os st) buf = rbind (n_stream_getline max_canon st buf) (\<lambda>(st', line, k). Inr (over_file os st', line, k))"
proof -
  have gets: "any_gets (over_file os st) room n = (case n_stream_gets st n of (st', got, k) \<Rightarrow> Inr (over_file os st', got, k))" for st room n
    by (auto simp: any_gets_def n_stream_gets_def over_file_defs split: prod.splits option.splits)
  have "any_getline max_canon (over_file os st) buf = rbind (n_stream_getline max_canon st buf) (\<lambda>(st', line, k). Inr (over_file os st', line, k))"
    by (auto simp: any_getline_def n_stream_getline_def gets getc_loop_over_file rbind_assoc split_beta Let_def split: prod.splits)
  moreover have "any_read (over_file os st) n = (case n_stream_read st n of (st', got, r) \<Rightarrow> Inr (over_file os st', got, r))"
    by (auto simp: any_read_def n_stream_read_def over_file_defs split: prod.splits)
  moreover have "any_write (over_file os st) bs = (case n_stream_write st bs of (st', r) \<Rightarrow> Inr (over_file os st', r))"
    by (cases "st_hook st") (auto simp: any_write_def n_stream_write_def over_file_defs split: prod.splits)
  moreover have "any_seek (over_file os st) off w = (case n_stream_seek st off w of (st', r) \<Rightarrow> Inr (over_file os st', r))"
    by (auto simp: any_seek_def n_stream_seek_def over_file_defs split: prod.splits)
  moreover have "any_tell (over_file os st) = Inr (n_stream_tell st)"
    by (simp add: any_tell_def n_stream_tell_def over_file_defs)
  moreover have "any_vprintf (over_file os st) out = rbind (n_stream_vprintf st out) (\<lambda>(st', r). Inr (over_file os st', r))"
    by (auto simp: any_vprintf_def n_stream_vprintf_def over_file_defs Let_def split: prod.splits)
  ultimately show ?thesis using gets by blast
qed

end
