(* ===== verification/Memory.thy ===== *)
theory Memory
  imports Etokl Alloc
begin

text \<open>
  The memory functions of \<open>nmalloc.c\<close> and their old names in \<open>xmalloc.c\<close>: \<open>n_malloc\<close> and its
  relatives over \<open>malloc\<close>, \<open>calloc\<close>, \<open>realloc\<close> and \<open>free\<close> of the C library, with the handler for
  the want of memory.

  The heap maps the address of a live block to its bytes. \<open>lc_malloc H n\<close> is the address the C
  library answers for \<open>n\<close> bytes when \<open>H\<close> is live, \<open>NULL\<close> when it has none; \<open>lc_junk H n\<close> is what
  lies in the new block; \<open>lc_hook\<close> is what the caller's handlers do, which may change the memory or
  not come back. \<open>libc_ok\<close> says what the C standard promises of the first two.
  \<open>mm_calls\<close> is the trace of the handler's calls.
\<close>

section \<open>The C library\<close>

type_synonym heap = "ptr \<Rightarrow> bytes option"

record memory =
  mm_heap :: heap
  mm_fail_fn :: "nat option"
  mm_calls :: "nat list"

record libc =
  lc_malloc :: "heap \<Rightarrow> nat \<Rightarrow> ptr"
  lc_junk :: "heap \<Rightarrow> nat \<Rightarrow> bytes"
  lc_hook :: "nat \<Rightarrow> memory \<Rightarrow> memory result"

definition libc_ok :: "libc \<Rightarrow> bool" where
  "libc_ok lc \<longleftrightarrow> (\<forall>H n. (lc_malloc lc H n \<noteq> NULL \<longrightarrow> H (lc_malloc lc H n) = None) \<and> length (lc_junk lc H n) = n)"

definition c_malloc :: "libc \<Rightarrow> heap \<Rightarrow> nat \<Rightarrow> heap \<times> ptr" where
  "c_malloc lc H n =
     (let v = lc_malloc lc H n in if v = NULL then (H, NULL) else (H(v \<mapsto> lc_junk lc H n), v))"

text \<open>\<open>calloc\<close> answers \<open>NULL\<close> when the product does not fit a \<open>size_t\<close>.\<close>

definition c_calloc :: "libc \<Rightarrow> heap \<Rightarrow> nat \<Rightarrow> nat \<Rightarrow> heap \<times> ptr" where
  "c_calloc lc H nmemb n =
     (if nmemb * n \<ge> 2 ^ 64 then (H, NULL)
      else let v = lc_malloc lc H (nmemb * n) in
        if v = NULL then (H, NULL) else (H(v \<mapsto> replicate (nmemb * n) 0), v))"

text \<open>
  A \<open>realloc\<close> to no bytes frees the block and answers \<open>NULL\<close>. Otherwise the bytes that fit are moved
  to a new block, which may lie where the old one was; when there is none the old one stays.
\<close>

definition c_realloc :: "libc \<Rightarrow> heap \<Rightarrow> ptr \<Rightarrow> nat \<Rightarrow> (heap \<times> ptr) result" where
  "c_realloc lc H p n =
     (if p = NULL then Inr (c_malloc lc H n)
      else case H p of None \<Rightarrow> Inl Mem_Fault
      | Some b \<Rightarrow>
        if n = 0 then Inr (H(p := None), NULL)
        else let H' = H(p := None); v = lc_malloc lc H' n in
          if v = NULL then Inr (H, NULL)
          else Inr (H'(v \<mapsto> take n b @ drop (length b) (lc_junk lc H' n)), v))"

definition c_free :: "heap \<Rightarrow> ptr \<Rightarrow> heap result" where
  "c_free H p = (if p = NULL then Inr H else if H p = None then Inl Mem_Fault else Inr (H(p := None)))"

definition c_memcpy :: "heap \<Rightarrow> ptr \<Rightarrow> bytes \<Rightarrow> heap result" where
  "c_memcpy H p bs =
     (case H p of None \<Rightarrow> Inl Mem_Fault
      | Some b \<Rightarrow> if length bs \<le> length b then Inr (H(p \<mapsto> bs @ drop (length bs) b)) else Inl Mem_Fault)"

section \<open>The handler\<close>

definition setxmallocs_handler :: "memory \<Rightarrow> nat option \<Rightarrow> memory \<times> nat option" where
  "setxmallocs_handler m handler = (m\<lparr>mm_fail_fn := handler\<rparr>, mm_fail_fn m)"

definition n_malloc_set_failhook :: "memory \<Rightarrow> nat option \<Rightarrow> memory \<times> nat option" where
  "n_malloc_set_failhook m fn = (m\<lparr>mm_fail_fn := fn\<rparr>, mm_fail_fn m)"

definition nomem :: "libc \<Rightarrow> memory \<Rightarrow> memory result" where
  "nomem lc m =
     (case mm_fail_fn m of None \<Rightarrow> Inl Exited
      | Some fn \<Rightarrow> rbind (lc_hook lc fn m) (\<lambda>m'. Inr (m'\<lparr>mm_calls := mm_calls m @ [fn]\<rparr>)))"

text \<open>The end of every function: the handler is called for \<open>NULL\<close>, and \<open>NULL\<close> is answered after it.\<close>

definition got :: "libc \<Rightarrow> memory \<Rightarrow> heap \<times> ptr \<Rightarrow> (memory \<times> ptr) result" where
  "got lc m Hv = (case Hv of (H, v) \<Rightarrow> let m = m\<lparr>mm_heap := H\<rparr> in
     if v = NULL then rbind (nomem lc m) (\<lambda>m. Inr (m, NULL)) else Inr (m, v))"

section \<open>The functions\<close>

definition n_malloc :: "libc \<Rightarrow> memory \<Rightarrow> nat \<Rightarrow> (memory \<times> ptr) result" where
  "n_malloc lc m n = got lc m (c_malloc lc (mm_heap m) n)"

definition n_calloc :: "libc \<Rightarrow> memory \<Rightarrow> nat \<Rightarrow> nat \<Rightarrow> (memory \<times> ptr) result" where
  "n_calloc lc m nmemb n = got lc m (c_calloc lc (mm_heap m) nmemb n)"

definition n_realloc :: "env \<Rightarrow> libc \<Rightarrow> memory \<Rightarrow> ptr \<Rightarrow> nat \<Rightarrow> (memory \<times> ptr) result" where
  "n_realloc e lc m p n = n_assert e (n > 0) (rbind (c_realloc lc (mm_heap m) p n) (got lc m))"

text \<open>
  The copying functions take their block from \<open>n_malloc\<close> and call the handler once more when it
  answers \<open>NULL\<close>. \<open>s\<close> is what can be read behind the source pointer.
\<close>

definition copy_to :: "libc \<Rightarrow> memory \<Rightarrow> nat \<Rightarrow> bytes result \<Rightarrow> (memory \<times> ptr) result" where
  "copy_to lc m n src =
     rbind (n_malloc lc m n) (\<lambda>(m, new).
       if new = NULL then rbind (nomem lc m) (\<lambda>m. Inr (m, NULL))
       else rbind src (\<lambda>bs. rbind (c_memcpy (mm_heap m) new bs) (\<lambda>H. Inr (m\<lparr>mm_heap := H\<rparr>, new))))"

definition c_read :: "bytes \<Rightarrow> nat \<Rightarrow> bytes result" where
  "c_read s n = (if n \<le> length s then Inr (take n s) else Inl Mem_Fault)"

definition n_strdupl_mem :: "libc \<Rightarrow> memory \<Rightarrow> bytes \<Rightarrow> nat \<Rightarrow> (memory \<times> ptr) result" where
  "n_strdupl_mem lc m s len = copy_to lc m (len + 1) (rbind (c_read s len) (\<lambda>bs. Inr (bs @ [0])))"

definition n_strdup_mem :: "libc \<Rightarrow> memory \<Rightarrow> bytes \<Rightarrow> (memory \<times> ptr) result" where
  "n_strdup_mem lc m s =
     (if str_at s 0 = s then Inl Mem_Fault
      else let len = length (str_at s 0) + 1 in copy_to lc m len (c_read s len))"

definition n_memdup :: "libc \<Rightarrow> memory \<Rightarrow> bytes \<Rightarrow> nat \<Rightarrow> (memory \<times> ptr) result" where
  "n_memdup lc m s n = copy_to lc m n (c_read s n)"

definition n_free :: "memory \<Rightarrow> ptr \<Rightarrow> memory result" where
  "n_free m p = rbind (c_free (mm_heap m) p) (\<lambda>H. Inr (m\<lparr>mm_heap := H\<rparr>))"

text \<open>\<open>n_cfree\<close> takes the address of a pointer: the pointer's new value is part of the answer.\<close>

definition n_cfree :: "memory \<Rightarrow> ptr \<Rightarrow> (memory \<times> ptr) result" where
  "n_cfree m p =
     (if p \<noteq> NULL then rbind (c_free (mm_heap m) p) (\<lambda>H. Inr (m\<lparr>mm_heap := H\<rparr>, NULL)) else Inr (m, p))"

section \<open>The functions of an allocator over \<open>malloc\<close>\<close>

definition malloc_malloc :: "libc \<Rightarrow> memory \<Rightarrow> tn_alloc \<Rightarrow> nat \<Rightarrow> (memory \<times> ptr) result" where
  "malloc_malloc lc m na n = n_malloc lc m n"

definition malloc_calloc :: "libc \<Rightarrow> memory \<Rightarrow> tn_alloc \<Rightarrow> nat \<Rightarrow> (memory \<times> ptr) result" where
  "malloc_calloc lc m na n = n_calloc lc m n 1"

definition malloc_realloc :: "env \<Rightarrow> libc \<Rightarrow> memory \<Rightarrow> tn_alloc \<Rightarrow> ptr \<Rightarrow> nat \<Rightarrow> nat \<Rightarrow> (memory \<times> ptr) result" where
  "malloc_realloc e lc m na p sz newsize = n_realloc e lc m p newsize"

definition malloc_free :: "memory \<Rightarrow> tn_alloc \<Rightarrow> ptr \<Rightarrow> memory result" where
  "malloc_free m na p = n_free m p"

section \<open>The names of \<open>xmalloc.c\<close>\<close>

definition xmalloc :: "libc \<Rightarrow> memory \<Rightarrow> nat \<Rightarrow> (memory \<times> ptr) result" where
  "xmalloc lc m n = n_malloc lc m n"

definition xcalloc :: "libc \<Rightarrow> memory \<Rightarrow> nat \<Rightarrow> nat \<Rightarrow> (memory \<times> ptr) result" where
  "xcalloc lc m nmemb n = n_calloc lc m nmemb n"

definition xrealloc :: "env \<Rightarrow> libc \<Rightarrow> memory \<Rightarrow> ptr \<Rightarrow> nat \<Rightarrow> (memory \<times> ptr) result" where
  "xrealloc e lc m p n = n_realloc e lc m p n"

definition xstrdup :: "libc \<Rightarrow> memory \<Rightarrow> bytes \<Rightarrow> (memory \<times> ptr) result" where
  "xstrdup lc m s = n_strdup_mem lc m s"

definition xfree :: "memory \<Rightarrow> ptr \<Rightarrow> memory result" where
  "xfree m p = n_free m p"

section \<open>Calls that take memory\<close>

datatype alloc_call = Malloc nat | Calloc nat nat | Strdupl bytes nat | Strdup bytes | Memdup bytes nat

fun alloc_run :: "libc \<Rightarrow> memory \<Rightarrow> alloc_call \<Rightarrow> (memory \<times> ptr) result" where
  "alloc_run lc m (Malloc n) = n_malloc lc m n"
| "alloc_run lc m (Calloc nmemb n) = n_calloc lc m nmemb n"
| "alloc_run lc m (Strdupl s n) = n_strdupl_mem lc m s n"
| "alloc_run lc m (Strdup s) = n_strdup_mem lc m s"
| "alloc_run lc m (Memdup s n) = n_memdup lc m s n"

text \<open>The source is readable as far as the function reads.\<close>

fun call_valid :: "alloc_call \<Rightarrow> bool" where
  "call_valid (Malloc n) = True"
| "call_valid (Calloc nmemb n) = True"
| "call_valid (Strdupl s n) = (n \<le> length s)"
| "call_valid (Strdup s) = (0 \<in> set s)"
| "call_valid (Memdup s n) = (n \<le> length s)"

text \<open>The bytes of the new block, \<open>None\<close> where the call does not say.\<close>

fun call_bytes :: "alloc_call \<Rightarrow> 8 word option list" where
  "call_bytes (Malloc n) = replicate n None"
| "call_bytes (Calloc nmemb n) = replicate (nmemb * n) (Some 0)"
| "call_bytes (Strdupl s n) = map Some (take n s @ [0])"
| "call_bytes (Strdup s) = map Some (str_at s 0 @ [0])"
| "call_bytes (Memdup s n) = map Some (take n s)"

definition call_served :: "libc \<Rightarrow> heap \<Rightarrow> alloc_call \<Rightarrow> bool" where
  "call_served lc H c \<longleftrightarrow> lc_malloc lc H (length (call_bytes c)) \<noteq> NULL \<and>
     (case c of Calloc nmemb n \<Rightarrow> nmemb * n < 2 ^ 64 | _ \<Rightarrow> True)"

text \<open>How often the handler is called when there is no memory.\<close>

fun call_hooks :: "alloc_call \<Rightarrow> nat" where
  "call_hooks (Malloc n) = 1"
| "call_hooks (Calloc nmemb n) = 1"
| "call_hooks c = 2"

fun no_memory :: "libc \<Rightarrow> memory \<Rightarrow> nat \<Rightarrow> (memory \<times> ptr) result" where
  "no_memory lc m 0 = Inr (m, NULL)"
| "no_memory lc m (Suc k) = rbind (nomem lc m) (\<lambda>m. no_memory lc m k)"

definition block_is :: "8 word option list \<Rightarrow> bytes \<Rightarrow> bool" where
  "block_is ob b = list_all2 (\<lambda>x y. x = None \<or> x = Some y) ob b"

lemma block_is_map [simp]: "block_is (map Some b) b"
  by (simp add: block_is_def list_all2_map1 list.rel_refl)

lemma block_is_None: "length b = n \<Longrightarrow> block_is (replicate n None) b"
  by (auto simp: block_is_def list_all2_conv_all_nth)

lemma block_is_realloc:
  "block_is ob b \<Longrightarrow> length d = n \<Longrightarrow>
   block_is (take n ob @ replicate (n - length ob) None) (take n b @ drop (length b) d)"
  by (auto simp: block_is_def intro!: list_all2_appendI list_all2_takeI)
    (auto simp: list_all2_conv_all_nth)

lemma str_at_ends: "0 \<in> set s \<Longrightarrow> take (length (str_at s 0) + 1) s = str_at s 0 @ [0] \<and> length (str_at s 0) < length s"
proof -
  assume "0 \<in> set s"
  then have "dropWhile (\<lambda>b. b \<noteq> 0) s \<noteq> []" by (auto simp: dropWhile_eq_Nil_conv)
  then obtain a r where d: "dropWhile (\<lambda>b. b \<noteq> 0) s = a # r" by (cases "dropWhile (\<lambda>b. b \<noteq> 0) s") auto
  then have "a = 0" using hd_dropWhile [of "\<lambda>b. b \<noteq> 0" s] by auto
  with d have s: "s = str_at s 0 @ 0 # r" using takeWhile_dropWhile_id [of "\<lambda>b. b \<noteq> 0" s] by (simp add: str_at_def)
  have "take (length (str_at s 0) + 1) (str_at s 0 @ 0 # r) = str_at s 0 @ [0]" by simp
  moreover have "length (str_at s 0) < length (str_at s 0 @ 0 # r)" by simp
  ultimately show ?thesis unfolding s [symmetric] by blast
qed

lemma copy_to_served:
  assumes "libc_ok lc" "lc_malloc lc (mm_heap m) (length bs) \<noteq> NULL"
  shows "copy_to lc m (length bs) (Inr bs) =
    Inr (m\<lparr>mm_heap := (mm_heap m)(lc_malloc lc (mm_heap m) (length bs) \<mapsto> bs)\<rparr>, lc_malloc lc (mm_heap m) (length bs))"
  using assms by (simp add: copy_to_def n_malloc_def got_def c_malloc_def c_memcpy_def Let_def libc_ok_def)

lemma copy_to_denied:
  "lc_malloc lc (mm_heap m) n = NULL \<Longrightarrow> copy_to lc m n src = no_memory lc m 2"
  by (cases "nomem lc m") (simp_all add: copy_to_def n_malloc_def got_def c_malloc_def numeral_2_eq_2)

lemmas alloc_defs = n_calloc_def n_malloc_def n_memdup_def n_strdup_mem_def n_strdupl_mem_def c_read_def
  got_def c_calloc_def c_malloc_def

lemma alloc_run_served:
  assumes "libc_ok lc" "call_valid c" "call_served lc (mm_heap m) c"
  shows "\<exists>v b. alloc_run lc m c = Inr (m\<lparr>mm_heap := (mm_heap m)(v \<mapsto> b)\<rparr>, v) \<and>
    v \<noteq> NULL \<and> mm_heap m v = None \<and> block_is (call_bytes c) b"
proof -
  let ?v = "lc_malloc lc (mm_heap m) (length (call_bytes c))"
  have v: "?v \<noteq> NULL" "mm_heap m ?v = None" using assms(1,3) by (auto simp: call_served_def libc_ok_def)
  have "\<exists>b. alloc_run lc m c = Inr (m\<lparr>mm_heap := (mm_heap m)(?v \<mapsto> b)\<rparr>, ?v) \<and> block_is (call_bytes c) b"
  proof (cases c)
    case (Malloc n)
    then show ?thesis using assms v
      by (intro exI [of _ "lc_junk lc (mm_heap m) n"]) (simp add: alloc_defs Let_def libc_ok_def block_is_None)
  next
    case (Calloc k n)
    then show ?thesis using assms(3) v block_is_map [of "replicate (k * n) 0"]
      by (auto simp: alloc_defs call_served_def Let_def map_replicate)
  next
    case (Strdupl s n)
    then show ?thesis using assms v copy_to_served [of lc m "take n s @ [0]"] block_is_map [of "take n s @ [0]"]
      by (auto simp: n_strdupl_mem_def c_read_def min_absorb2)
  next
    case (Strdup s)
    then have "str_at s 0 \<noteq> s" using str_at_ends [of s] assms(2) by auto
    then show ?thesis using Strdup assms v copy_to_served [of lc m "str_at s 0 @ [0]"] str_at_ends [of s]
        block_is_map [of "str_at s 0 @ [0]"]
      by (auto simp: n_strdup_mem_def c_read_def Let_def simp del: block_is_map)
  next
    case (Memdup s n)
    then show ?thesis using assms v copy_to_served [of lc m "take n s"]
      by (auto simp: n_memdup_def c_read_def min_absorb2)
  qed
  with v show ?thesis by blast
qed

lemma got_denied: "got lc m (mm_heap m, NULL) = no_memory lc m 1"
  by (cases "nomem lc m") (simp_all add: got_def)

lemma alloc_run_denied:
  assumes "call_valid c" "\<not> call_served lc (mm_heap m) c"
  shows "alloc_run lc m c = no_memory lc m (call_hooks c)"
proof (cases c)
  case (Malloc n)
  then show ?thesis using assms(2) got_denied by (simp add: n_malloc_def c_malloc_def call_served_def)
next
  case (Calloc k n)
  then show ?thesis using assms(2) got_denied [of lc m] by (auto simp: n_calloc_def c_calloc_def call_served_def Let_def not_less)
next
  case (Strdupl s n)
  then show ?thesis using assms by (simp add: n_strdupl_mem_def copy_to_denied call_served_def min_absorb2)
next
  case (Strdup s)
  then have "str_at s 0 \<noteq> s" using str_at_ends [of s] assms(1) by auto
  with Strdup show ?thesis using assms by (simp add: n_strdup_mem_def copy_to_denied call_served_def)
next
  case (Memdup s n)
  then show ?thesis using assms by (simp add: n_memdup_def copy_to_denied call_served_def min_absorb2)
qed

text \<open>The tokenizer's model of the copying functions, blocks that are only ever added, is this one.\<close>

lemma block_is_map_eq: "block_is (map Some b) b' \<longleftrightarrow> b' = b"
  by (auto simp: block_is_def list_all2_conv_all_nth intro: nth_equalityI)

lemma n_strdup_abstracts:
  assumes "libc_ok lc" "call_served lc (mm_heap m) (Strdup s)" "n_strdup hs s = Inr (hs', p)"
  shows "\<exists>v. n_strdup_mem lc m s = Inr (m\<lparr>mm_heap := (mm_heap m)(v \<mapsto> last hs')\<rparr>, v) \<and> mm_heap m v = None"
proof -
  have s: "0 \<in> set s" using assms(3) takeWhile_eq_all_conv [of "\<lambda>b. b \<noteq> 0" s]
    by (auto simp: n_strdup_def str_at_def split: if_splits)
  then have "last hs' = str_at s 0 @ [0]"
    using assms(3) str_at_ends [OF s] by (auto simp: n_strdup_def new_block_def split: if_splits)
  with alloc_run_served [OF assms(1) _ assms(2)] s block_is_map_eq [of "str_at s 0 @ [0]"] show ?thesis by auto
qed

lemma n_strdupl_abstracts:
  assumes "libc_ok lc" "call_served lc (mm_heap m) (Strdupl s n)" "n_strdupl hs s n = Inr (hs', p)"
  shows "\<exists>v. n_strdupl_mem lc m s n = Inr (m\<lparr>mm_heap := (mm_heap m)(v \<mapsto> last hs')\<rparr>, v) \<and> mm_heap m v = None"
proof -
  have "n \<le> length s" "last hs' = take n s @ [0]"
    using assms(3) by (auto simp: n_strdupl_def new_block_def split: if_splits)
  with alloc_run_served [OF assms(1) _ assms(2)] block_is_map_eq [of "take n s @ [0]"] show ?thesis by auto
qed

section \<open>A program and its pointers\<close>

text \<open>
  A program that keeps every block in a pointer of its own, gives blocks back with \<open>n_cfree\<close> and
  resizes them with \<open>n_realloc\<close>: the pointers, and what the specification knows of their blocks.
\<close>

datatype mem_op = Op_New alloc_call | Op_Realloc nat nat | Op_Cfree nat

fun mem_step :: "env \<Rightarrow> libc \<Rightarrow> memory \<times> ptr list \<Rightarrow> mem_op \<Rightarrow> (memory \<times> ptr list) result" where
  "mem_step e lc (m, ps) (Op_New c) = rbind (alloc_run lc m c) (\<lambda>(m, p). Inr (m, ps @ [p]))"
| "mem_step e lc (m, ps) (Op_Realloc i n) =
     (if i < length ps then rbind (n_realloc e lc m (ps ! i) n) (\<lambda>(m, p). Inr (m, ps[i := p])) else Inr (m, ps))"
| "mem_step e lc (m, ps) (Op_Cfree i) =
     (if i < length ps then rbind (n_cfree m (ps ! i)) (\<lambda>(m, p). Inr (m, ps[i := p])) else Inr (m, ps))"

fun mem_run :: "env \<Rightarrow> libc \<Rightarrow> memory \<times> ptr list \<Rightarrow> mem_op list \<Rightarrow> (memory \<times> ptr list) result" where
  "mem_run e lc s [] = Inr s"
| "mem_run e lc s (c # cs) = rbind (mem_step e lc s c) (\<lambda>s. mem_run e lc s cs)"

fun op_valid :: "mem_op \<Rightarrow> bool" where
  "op_valid (Op_New c) = call_valid c"
| "op_valid (Op_Realloc i n) = (n > 0)"
| "op_valid (Op_Cfree i) = True"

definition resized :: "nat \<Rightarrow> 'a option list option \<Rightarrow> 'a option list" where
  "resized n ob = (let b = (case ob of None \<Rightarrow> [] | Some b \<Rightarrow> b) in take n b @ replicate (n - length b) None)"

fun block_step :: "mem_op \<Rightarrow> 8 word option list option list \<Rightarrow> 8 word option list option list" where
  "block_step (Op_New c) bs = bs @ [Some (call_bytes c)]"
| "block_step (Op_Realloc i n) bs = (if i < length bs then bs[i := Some (resized n (bs ! i))] else bs)"
| "block_step (Op_Cfree i) bs = bs[i := None]"

text \<open>No block is shared, none is lost: the live blocks are those the pointers hold.\<close>

definition holds :: "memory \<Rightarrow> ptr \<Rightarrow> 8 word option list option \<Rightarrow> bool" where
  "holds m p ob = (case ob of None \<Rightarrow> p = NULL
     | Some ob \<Rightarrow> p \<noteq> NULL \<and> (\<exists>b. mm_heap m p = Some b \<and> block_is ob b))"

definition blocks_at :: "memory \<Rightarrow> ptr list \<Rightarrow> 8 word option list option list \<Rightarrow> bool" where
  "blocks_at m ps bs \<longleftrightarrow> length ps = length bs \<and> (\<forall>i < length ps. holds m (ps ! i) (bs ! i)) \<and>
     (\<forall>i < length ps. \<forall>j < length ps. ps ! i = ps ! j \<and> ps ! i \<noteq> NULL \<longrightarrow> i = j) \<and>
     dom (mm_heap m) = set ps - {NULL}"

lemma blocks_at_snoc: "blocks_at m ps bs \<Longrightarrow> blocks_at m (ps @ [NULL]) (bs @ [None])"
  by (auto simp: blocks_at_def nth_append holds_def less_Suc_eq)

lemma blocks_at_free:
  assumes "blocks_at m ps bs" "i < length ps"
  shows "blocks_at (m\<lparr>mm_heap := (mm_heap m)(ps ! i := None)\<rparr>) (ps[i := NULL]) (bs[i := None])"
proof -
  let ?m = "m\<lparr>mm_heap := (mm_heap m)(ps ! i := None)\<rparr>"
  note B = assms(1) [unfolded blocks_at_def]
  have "holds ?m (ps[i := NULL] ! j) (bs[i := None] ! j)" if "j < length ps" for j
    using that B assms(2) by (cases "j = i") (auto simp: holds_def split: option.splits)
  moreover have "set (ps[i := NULL]) - {NULL} = set ps - {NULL} - {ps ! i}"
    using B assms(2) by (auto simp: in_set_conv_nth nth_list_update split: if_splits)
  ultimately show ?thesis using B assms(2) by (auto simp: blocks_at_def nth_list_update)
qed

lemma blocks_at_put:
  assumes "blocks_at m ps bs" "i < length ps" "ps ! i = NULL" "v \<noteq> NULL" "mm_heap m v = None" "block_is ob b"
  shows "blocks_at (m\<lparr>mm_heap := (mm_heap m)(v \<mapsto> b)\<rparr>) (ps[i := v]) (bs[i := Some ob])"
proof -
  let ?m = "m\<lparr>mm_heap := (mm_heap m)(v \<mapsto> b)\<rparr>"
  note B = assms(1) [unfolded blocks_at_def]
  have v: "v \<notin> set ps" using B assms(4,5) by auto
  have "holds ?m (ps[i := v] ! j) (bs[i := Some ob] ! j)" if "j < length ps" for j
    using that B assms v by (cases "j = i") (auto simp: holds_def split: option.splits)
  moreover have "set (ps[i := v]) - {NULL} = insert v (set ps - {NULL})"
    using assms(2-4) set_update_subset_insert [of ps i v]
    by (auto simp: in_set_conv_nth nth_list_update)
  moreover have "dom (mm_heap ?m) = insert v (dom (mm_heap m))" by auto
  ultimately show ?thesis using B assms(2) v by (auto simp: blocks_at_def nth_list_update)
qed

text \<open>
  \<open>roomy lc k\<close>: there is memory for any block while fewer than \<open>k\<close> are live; \<open>op_fits\<close>: no product
  of sizes beyond a \<open>size_t\<close>.
\<close>

definition roomy :: "libc \<Rightarrow> nat \<Rightarrow> bool" where
  "roomy lc k \<longleftrightarrow> (\<forall>H n. card (dom H) < k \<longrightarrow> lc_malloc lc H n \<noteq> NULL)"

fun op_fits :: "mem_op \<Rightarrow> bool" where
  "op_fits (Op_New (Calloc nmemb n)) = (nmemb * n < 2 ^ 64)"
| "op_fits op = True"

fun op_slots :: "mem_op \<Rightarrow> nat" where
  "op_slots (Op_New c) = 1"
| "op_slots op = 0"

lemma roomy_mono: "roomy lc k \<Longrightarrow> j \<le> k \<Longrightarrow> roomy lc j"
  by (simp add: roomy_def)

lemma blocks_at_card: "blocks_at m ps bs \<Longrightarrow> card (dom (mm_heap m)) \<le> length ps"
  using card_length [of ps] card_mono [of "set ps" "set ps - {NULL}"] by (auto simp: blocks_at_def)

lemma blocks_at_card_less:
  assumes "blocks_at m ps bs" "p \<in> set ps"
  shows "card (dom ((mm_heap m)(p := None))) < length ps"
proof -
  have "dom ((mm_heap m)(p := None)) \<subseteq> set ps - {p}" using assms(1) by (auto simp: blocks_at_def)
  then have "card (dom ((mm_heap m)(p := None))) \<le> card (set ps - {p})" by (intro card_mono) auto
  also have "\<dots> < card (set ps)" using assms(2) by (intro psubset_card_mono) auto
  finally show ?thesis using card_length [of ps] by simp
qed

lemma realloc_holds:
  assumes "libc_ok lc" "mm_fail_fn m = None" "n > 0" "holds m p ob" "mm_heap m NULL = None"
  shows "n_realloc e lc m p n = Inl Exited \<and> lc_malloc lc ((mm_heap m)(p := None)) n = NULL \<or>
    (\<exists>v b. n_realloc e lc m p n = Inr (m\<lparr>mm_heap := (mm_heap m)(p := None, v \<mapsto> b)\<rparr>, v) \<and> v \<noteq> NULL \<and>
      ((mm_heap m)(p := None)) v = None \<and> block_is (resized n ob) b)"
proof -
  let ?H = "(mm_heap m)(p := None)"
  have H: "p = NULL \<Longrightarrow> ?H = mm_heap m" using assms(5) by auto
  have L: "lc_malloc lc ?H n \<noteq> NULL \<Longrightarrow> ?H (lc_malloc lc ?H n) = None" "length (lc_junk lc ?H n) = n"
    using assms(1) unfolding libc_ok_def by blast+
  show ?thesis
  proof (cases "lc_malloc lc ?H n = NULL")
    case True
    then have "n_realloc e lc m p n = Inl Exited"
      using assms(2-4) H by (cases "p = NULL")
        (auto simp: n_realloc_def c_realloc_def c_malloc_def got_def nomem_def holds_def Let_def split: option.splits)
    with True show ?thesis by blast
  next
    case v: False
    show ?thesis
    proof (cases ob)
      case None
      with assms(4) have "p = NULL" by (simp add: holds_def)
      with v L H None show ?thesis using assms(3)
        by (intro disjI2 exI [of _ "lc_malloc lc ?H n"] exI [of _ "lc_junk lc ?H n"])
          (simp add: n_realloc_def c_realloc_def c_malloc_def got_def Let_def resized_def block_is_None)
    next
      case (Some o1)
      with assms(4) obtain b where b: "p \<noteq> NULL" "mm_heap m p = Some b" "block_is o1 b" by (auto simp: holds_def)
      have "block_is (resized n ob) (take n b @ drop (length b) (lc_junk lc ?H n))"
        using block_is_realloc [OF b(3) L(2)] Some by (simp add: resized_def)
      with v L(1) b show ?thesis using assms(3)
        by (intro disjI2 exI [of _ "lc_malloc lc ?H n"] exI [of _ "take n b @ drop (length b) (lc_junk lc ?H n)"])
          (simp add: n_realloc_def c_realloc_def got_def Let_def)
    qed
  qed
qed

lemma mem_step_new:
  assumes "libc_ok lc" "mm_fail_fn m = None" "blocks_at m ps bs" "op_valid (Op_New c)"
  shows "mem_step e lc (m, ps) (Op_New c) = Inl Exited \<and> \<not> (roomy lc (length ps + 1) \<and> op_fits (Op_New c)) \<or>
    (\<exists>m' ps'. mem_step e lc (m, ps) (Op_New c) = Inr (m', ps') \<and> mm_fail_fn m' = None \<and>
      blocks_at m' ps' (block_step (Op_New c) bs))"
proof (cases "call_served lc (mm_heap m) c")
  case True
  with alloc_run_served [OF assms(1), of c m] assms(4) obtain v b where v:
    "alloc_run lc m c = Inr (m\<lparr>mm_heap := (mm_heap m)(v \<mapsto> b)\<rparr>, v)" "v \<noteq> NULL" "mm_heap m v = None" "block_is (call_bytes c) b"
    by auto
  have "length bs = length ps" using assms(3) by (simp add: blocks_at_def)
  with blocks_at_put [OF blocks_at_snoc [OF assms(3)], of "length ps", OF _ _ v(2-4)]
  show ?thesis using v(1) assms(2) by (simp add: list_update_append)
next
  case False
  have "lc_malloc lc (mm_heap m) k \<noteq> NULL" if "roomy lc (length ps + 1)" for k
    using that blocks_at_card [OF assms(3)] by (simp add: roomy_def)
  with False have "\<not> (roomy lc (length ps + 1) \<and> op_fits (Op_New c))"
    by (cases c) (auto simp: call_served_def)
  moreover have "mem_step e lc (m, ps) (Op_New c) = Inl Exited"
    using alloc_run_denied [of c lc m] False assms(2,4) by (cases c) (simp_all add: nomem_def numeral_2_eq_2)
  ultimately show ?thesis by blast
qed

lemma mem_step_realloc:
  assumes "libc_ok lc" "mm_fail_fn m = None" "blocks_at m ps bs" "n > 0"
  shows "mem_step e lc (m, ps) (Op_Realloc i n) = Inl Exited \<and> \<not> roomy lc (length ps) \<or>
    (\<exists>m' ps'. mem_step e lc (m, ps) (Op_Realloc i n) = Inr (m', ps') \<and> mm_fail_fn m' = None \<and>
      blocks_at m' ps' (block_step (Op_Realloc i n) bs))"
proof (cases "i < length ps")
  case i: True
  have len: "length bs = length ps" and "mm_heap m NULL = None" "holds m (ps ! i) (bs ! i)"
    using assms(3) i by (auto simp: blocks_at_def)
  from realloc_holds [OF assms(1,2,4) this(3,2), of e] show ?thesis
  proof (elim disjE exE conjE)
    assume x: "n_realloc e lc m (ps ! i) n = Inl Exited" "lc_malloc lc ((mm_heap m)(ps ! i := None)) n = NULL"
    have "\<not> roomy lc (length ps)" using blocks_at_card_less [OF assms(3) nth_mem [OF i]] x(2)
      unfolding roomy_def by blast
    then show ?thesis using x(1) i by simp
  next
    fix v b assume v: "n_realloc e lc m (ps ! i) n = Inr (m\<lparr>mm_heap := (mm_heap m)(ps ! i := None, v \<mapsto> b)\<rparr>, v)"
      "v \<noteq> NULL" "((mm_heap m)(ps ! i := None)) v = None" "block_is (resized n (bs ! i)) b"
    then show ?thesis
      using blocks_at_put [OF blocks_at_free [OF assms(3) i], of i v _ b] i len assms(2) by simp
  qed
next
  case False
  moreover have "length bs = length ps" using assms(3) by (simp add: blocks_at_def)
  ultimately show ?thesis using assms by simp
qed

lemma mem_step_cfree:
  assumes "mm_fail_fn m = None" "blocks_at m ps bs"
  shows "\<exists>m' ps'. mem_step e lc (m, ps) (Op_Cfree i) = Inr (m', ps') \<and> mm_fail_fn m' = None \<and>
    blocks_at m' ps' (block_step (Op_Cfree i) bs)"
proof (cases "i < length ps")
  case i: True
  have null: "mm_heap m NULL = None" and "holds m (ps ! i) (bs ! i)" using assms(2) i by (auto simp: blocks_at_def)
  then have "ps ! i \<noteq> NULL \<Longrightarrow> mm_heap m (ps ! i) \<noteq> None" by (auto simp: holds_def split: option.splits)
  moreover have "m\<lparr>mm_heap := (mm_heap m)(NULL := None)\<rparr> = m" using null by (simp add: fun_upd_idem)
  ultimately show ?thesis using blocks_at_free [OF assms(2) i] i assms(1)
    by (cases "ps ! i = NULL") (auto simp: n_cfree_def c_free_def)
next
  case False
  moreover have "length bs = length ps" using assms(2) by (simp add: blocks_at_def)
  ultimately show ?thesis using assms by (simp add: list_update_beyond)
qed

lemma mem_step_ok:
  assumes "libc_ok lc" "mm_fail_fn m = None" "blocks_at m ps bs" "op_valid op"
  shows "mem_step e lc (m, ps) op = Inl Exited \<and> \<not> (roomy lc (length ps + op_slots op) \<and> op_fits op) \<or>
    (\<exists>m' ps'. mem_step e lc (m, ps) op = Inr (m', ps') \<and> mm_fail_fn m' = None \<and> blocks_at m' ps' (block_step op bs))"
proof (cases op)
  case (Op_New c)
  with mem_step_new [OF assms(1-3), of c e] assms(4) show ?thesis by (simp del: mem_step.simps)
next
  case (Op_Realloc i n)
  with mem_step_realloc [OF assms(1-3), of n e i] assms(4) show ?thesis by (auto simp del: mem_step.simps)
next
  case (Op_Cfree i)
  with mem_step_cfree [OF assms(2,3), of e lc i] show ?thesis by (simp del: mem_step.simps)
qed

lemma block_step_length: "length (block_step op bs) = length bs + op_slots op"
  by (cases op) simp_all

lemma mem_run_ok:
  assumes "libc_ok lc" "mm_fail_fn m = None" "blocks_at m ps bs" "list_all op_valid ops"
  shows "mem_run e lc (m, ps) ops = Inl Exited \<and>
      \<not> (roomy lc (length ps + sum_list (map op_slots ops)) \<and> list_all op_fits ops) \<or>
    (\<exists>m' ps'. mem_run e lc (m, ps) ops = Inr (m', ps') \<and> blocks_at m' ps' (fold block_step ops bs))"
  using assms(2-4)
proof (induction ops arbitrary: m ps bs)
  case (Cons c ops)
  have "op_valid c" using Cons.prems(3) by simp
  from mem_step_ok [OF assms(1) Cons.prems(1,2) this, of e] show ?case
  proof (elim disjE exE conjE)
    fix m' ps' assume s: "mem_step e lc (m, ps) c = Inr (m', ps')" "mm_fail_fn m' = None" "blocks_at m' ps' (block_step c bs)"
    have "length ps' = length ps + op_slots c"
      using s(3) Cons.prems(2) block_step_length [of c bs] by (simp add: blocks_at_def)
    with Cons.IH [OF s(2,3)] Cons.prems(3) s(1) show ?thesis by (auto simp: add.assoc)
  next
    assume "mem_step e lc (m, ps) c = Inl Exited" "\<not> (roomy lc (length ps + op_slots c) \<and> op_fits c)"
    then show ?thesis
      using roomy_mono [of lc "length ps + sum_list (map op_slots (c # ops))" "length ps + op_slots c"]
      by (intro disjI1) auto
  qed
qed auto

lemma no_memory_calls:
  assumes "\<And>m. mm_fail_fn m = Some fn \<Longrightarrow> \<exists>m'. lc_hook lc fn m = Inr m' \<and> mm_fail_fn m' = Some fn" "mm_fail_fn m = Some fn"
  shows "\<exists>m'. no_memory lc m k = Inr (m', NULL) \<and> mm_calls m' = mm_calls m @ replicate k fn"
  using assms(2)
proof (induction k arbitrary: m)
  case (Suc k)
  from assms(1) [OF Suc.prems] obtain m1 where m1: "lc_hook lc fn m = Inr m1" "mm_fail_fn m1 = Some fn" by blast
  from Suc.IH [of "m1\<lparr>mm_calls := mm_calls m @ [fn]\<rparr>"] m1 Suc.prems show ?case by (auto simp: nomem_def)
qed simp

section \<open>Properties\<close>

text \<open>A C library with two places for blocks, and a handler that frees the first of them.\<close>

definition tiny_libc :: libc where
  "tiny_libc = \<lparr>lc_malloc = (\<lambda>H n. if H 16 = None then 16 else if H 32 = None then 32 else NULL),
     lc_junk = (\<lambda>H n. replicate n 170), lc_hook = (\<lambda>fn m. Inr (m\<lparr>mm_heap := (mm_heap m)(16 := None)\<rparr>))\<rparr>"

definition no_blocks :: "nat option \<Rightarrow> memory" where
  "no_blocks fn = \<lparr>mm_heap = (\<lambda>_. None), mm_fail_fn = fn, mm_calls = []\<rparr>"

lemma tiny_libc_ok: "libc_ok tiny_libc"
  by (simp add: libc_ok_def tiny_libc_def)

lemma tiny_libc_roomy: "roomy tiny_libc 2"
proof -
  have places: "H 16 = None \<or> H 32 = None" if "card (dom H) < 2" for H :: heap
  proof (rule ccontr)
    assume "\<not> ?thesis"
    then have "{16, 32} \<subseteq> dom H" by auto
    then have "card {16, 32 :: ptr} \<le> card (dom H)" by (intro card_mono) auto
    with that show False by simp
  qed
  show ?thesis unfolding roomy_def
  proof (intro allI impI)
    fix H :: heap and n assume "card (dom H) < 2"
    from places [OF this] show "lc_malloc tiny_libc H n \<noteq> NULL" by (auto simp: tiny_libc_def)
  qed
qed

lemma no_blocks_sel [simp]: "mm_heap (no_blocks fn) = (\<lambda>_. None)" "mm_fail_fn (no_blocks fn) = fn" "mm_calls (no_blocks fn) = []"
  by (simp_all add: no_blocks_def)

text \<open>C11: A program that keeps each block in a pointer of its own, resizes blocks with \<open>n_realloc\<close> and
  gives them back with \<open>n_cfree\<close>, in any order and as often as it likes, never uses memory that is not
  its own: its pointers hold exactly the live blocks, no two of them the same one, with the bytes the
  calls promise, resized blocks with the bytes that fit. Without a handler it ends by \<open>exit(1)\<close> only
  when the C library has no room for as many blocks as the program has pointers, or for a product
  of sizes that is no \<open>size_t\<close>.\<close>
theorem n_malloc_pointers_safe:
  assumes "libc_ok lc" "mm_fail_fn m = None" "mm_heap m = (\<lambda>_. None)" "list_all op_valid ops"
  shows "mem_run e lc (m, []) ops = Inl Exited \<and>
      \<not> (roomy lc (sum_list (map op_slots ops)) \<and> list_all op_fits ops) \<or>
    (\<exists>m' ps. mem_run e lc (m, []) ops = Inr (m', ps) \<and> blocks_at m' ps (fold block_step ops []))"
proof -
  have "blocks_at m [] []" using assms(3) by (simp add: blocks_at_def dom_def)
  from mem_run_ok [OF assms(1,2) this assms(4), of e] show ?thesis by simp
qed

theorem n_malloc_pointers_safe_witness:
  "\<exists>m ps. mem_run plain_env tiny_libc (no_blocks None, [])
      [Op_New (Memdup [1, 2, 3] 3), Op_New (Strdup [1, 0]), Op_Cfree 0, Op_Cfree 0, Op_Realloc 1 1, Op_Realloc 0 2] = Inr (m, ps) \<and>
    blocks_at m ps [Some [None, None], Some [Some 1]]"
  using n_malloc_pointers_safe [OF tiny_libc_ok, of "no_blocks None"
      "[Op_New (Memdup [1, 2, 3] 3), Op_New (Strdup [1, 0]), Op_Cfree 0, Op_Cfree 0, Op_Realloc 1 1, Op_Realloc 0 2]" plain_env]
    tiny_libc_roomy
  by (simp add: numeral_2_eq_2 resized_def str_at_def del: mem_run.simps)

text \<open>C39: When the C library has no memory, the functions answer \<open>NULL\<close> after the handler came back,
  whatever memory it made free: they do not ask again. \<open>n_malloc\<close> and \<open>n_calloc\<close> call it once, the
  copying functions, which go through \<open>n_malloc\<close>, twice. Without a handler the program exits.\<close>
theorem n_malloc_handler_calls:
  assumes "call_valid c" "\<not> call_served lc (mm_heap m) c"
    and "\<And>fn m. mm_fail_fn m = Some fn \<Longrightarrow> \<exists>m'. lc_hook lc fn m = Inr m' \<and> mm_fail_fn m' = Some fn"
  shows "case mm_fail_fn m of None \<Rightarrow> alloc_run lc m c = Inl Exited
    | Some fn \<Rightarrow> \<exists>m'. alloc_run lc m c = Inr (m', NULL) \<and> mm_calls m' = mm_calls m @ replicate (call_hooks c) fn"
proof (cases "mm_fail_fn m")
  case None
  then show ?thesis using alloc_run_denied [OF assms(1,2)] by (cases c) (simp_all add: nomem_def numeral_2_eq_2)
next
  case (Some fn)
  then show ?thesis using alloc_run_denied [OF assms(1,2)] no_memory_calls [of fn lc m "call_hooks c"] assms(3) by simp
qed

theorem n_malloc_handler_calls_witness:
  "\<exists>m'. n_memdup tiny_libc ((no_blocks (Some 5))\<lparr>mm_heap := (\<lambda>_. Some [])\<rparr>) [1] 1 = Inr (m', NULL) \<and> mm_calls m' = [5, 5]"
  using n_malloc_handler_calls [of "Memdup [1] 1" tiny_libc "(no_blocks (Some 5))\<lparr>mm_heap := (\<lambda>_. Some [])\<rparr>"]
  by (simp add: tiny_libc_def call_served_def numeral_2_eq_2)

end
