(* ===== verification/Stats.thy ===== *)
theory Stats
  imports HashReach OashRefine Alloc
begin

text \<open>
  The functions that print statistics: \<open>n_hash_stats.c\<close>, \<open>n_oash_stats\<close> and \<open>n_oash_dump\<close> of
  \<open>noash.c\<close>, \<open>n_array_dump_stats.c\<close> and \<open>n_alloc_debug_dump\<close> of \<open>nmalloc.c\<close>. What they print is a
  value: the arguments of \<open>printf\<close>, a quotient of two \<open>double\<close>s as numerator and denominator.
  The counters of type \<open>int\<close> do not overflow, as no table has \<open>2\<^sup>3\<^sup>1\<close> slots.

  The lemmas show that the counters count what their names say, and that the two ways to count
  the runs of empty slots, at their ends in one table and at their starts in the other, agree.
\<close>

section \<open>Chained tables\<close>

record hstats =
  st_ncolls :: int
  st_maxdeep :: int
  st_deepsum :: int
  st_empty_len_sum :: int
  st_empty_len_n :: int
  st_empty_len :: int

record stats_report =
  sr_keys :: nat
  sr_slots :: nat
  sr_load :: "int \<times> int"
  sr_empty_len :: "int \<times> int"
  sr_colls :: "int \<times> (int \<times> int)"
  sr_avgdeep :: "int \<times> int"
  sr_maxdeep :: int

fun chain_deep :: "int \<Rightarrow> hash_bucket list \<Rightarrow> int" where
  "chain_deep deep [] = deep"
| "chain_deep deep (b # bs) = chain_deep (deep + 1) bs"

definition end_run :: "hstats \<Rightarrow> hstats" where
  "end_run st = (if st_empty_len st > 0
     then st\<lparr>st_empty_len_n := st_empty_len_n st + 1, st_empty_len_sum := st_empty_len_sum st + st_empty_len st\<rparr> else st)"

fun hash_stats_slot :: "hstats \<Rightarrow> hash_bucket list \<Rightarrow> hstats" where
  "hash_stats_slot st [] = st\<lparr>st_empty_len := st_empty_len st + 1\<rparr>"
| "hash_stats_slot st (b # bs) =
     (let st = (end_run st)\<lparr>st_empty_len := 0\<rparr>;
          deep = chain_deep 1 bs;
          st = (if deep > 1 then st\<lparr>st_ncolls := st_ncolls st + 1, st_deepsum := st_deepsum st + deep\<rparr> else st)
      in if deep > st_maxdeep st then st\<lparr>st_maxdeep := deep\<rparr> else st)"

fun hash_stats_loop :: "hash_bucket list list \<Rightarrow> nat \<Rightarrow> nat \<Rightarrow> hstats \<Rightarrow> hstats result" where
  "hash_stats_loop table i 0 st = Inr st"
| "hash_stats_loop table i (Suc k) st =
     rbind (mem_read table i) (\<lambda>c. hash_stats_loop table (i + 1) k (hash_stats_slot st c))"

text \<open>\<open>n\<close> is returned, which no statement changes. An empty table prints \<open>0 / 0\<close>.\<close>

definition n_hash_stats :: "tn_hash \<Rightarrow> (stats_report \<times> int) result" where
  "n_hash_stats ht =
     rbind (hash_stats_loop (hs_table ht) 0 (hs_size ht)
         \<lparr>st_ncolls = 0, st_maxdeep = 0, st_deepsum = 0, st_empty_len_sum = 0, st_empty_len_n = 0, st_empty_len = 0\<rparr>)
       (\<lambda>st. let st = end_run st in
         Inr (\<lparr>sr_keys = hs_items ht, sr_slots = hs_size ht, sr_load = (100 * int (hs_items ht), int (hs_size ht)),
                sr_empty_len = (if st_empty_len_sum st \<noteq> 0 then (st_empty_len_sum st, st_empty_len_n st) else (0, 1)),
                sr_colls = (st_ncolls st, (100 * st_ncolls st, int (hs_items ht))),
                sr_avgdeep = (if st_ncolls st > 0 \<and> st_deepsum st > 0 then (st_deepsum st, st_ncolls st) else (0, 1)),
                sr_maxdeep = st_maxdeep st\<rparr>, 0))"

section \<open>Open-addressing tables\<close>

record ostats =
  os_pslsum :: int
  os_empty_len_sum :: int
  os_empty_blocks :: int
  os_maxpsl :: int

fun oash_stats_loop :: "tentry list \<Rightarrow> nat \<Rightarrow> nat \<Rightarrow> ostats \<Rightarrow> ostats result" where
  "oash_stats_loop tbl i 0 st = Inr st"
| "oash_stats_loop tbl i (Suc k) st =
     rbind (mem_read tbl i) (\<lambda>t.
       if te_hash t = 0
       then rbind (if i = 0 then Inr True else rbind (mem_read tbl (i - 1)) (\<lambda>u. Inr (te_hash u \<noteq> 0))) (\<lambda>starts.
         let st = (if starts then st\<lparr>os_empty_blocks := os_empty_blocks st + 1\<rparr> else st)
         in oash_stats_loop tbl (i + 1) k (st\<lparr>os_empty_len_sum := os_empty_len_sum st + 1\<rparr>))
       else
         let st = st\<lparr>os_pslsum := os_pslsum st + int (te_psl t)\<rparr>
         in oash_stats_loop tbl (i + 1) k
              (if int (te_psl t) > os_maxpsl st then st\<lparr>os_maxpsl := int (te_psl t)\<rparr> else st))"

record oash_report =
  or_keys :: nat
  or_slots :: nat
  or_load :: "int \<times> int"
  or_empty_len :: "int \<times> int"
  or_avgpsl :: "int \<times> int"
  or_maxpsl :: int

definition n_oash_stats :: "tn_oash \<Rightarrow> (oash_report \<times> int) result" where
  "n_oash_stats ht =
     rbind (oash_stats_loop (oa_table ht) 0 (oa_cap ht)
         \<lparr>os_pslsum = 0, os_empty_len_sum = 0, os_empty_blocks = 0, os_maxpsl = 0\<rparr>)
       (\<lambda>st. Inr (\<lparr>or_keys = oa_size ht, or_slots = oa_cap ht, or_load = (100 * int (oa_size ht), int (oa_cap ht)),
           or_empty_len = (if os_empty_len_sum st \<noteq> 0 then (os_empty_len_sum st, os_empty_blocks st) else (0, 1)),
           or_avgpsl = (if os_pslsum st > 0 then (os_pslsum st, int (oa_size ht)) else (0, 1)),
           or_maxpsl = os_maxpsl st\<rparr>, 0))"

text \<open>
  A line of the dump: slot, number, hash, \<open>psl\<close>, the distance from the home slot, whether the
  word \<open>DIFFER\<close> is printed, key and data. The \<open>dentry\<close> pointer of an empty slot is loaded too.
\<close>

datatype dump_line =
    Dump_Entry nat nat "32 word" nat nat bool bytes ptr
  | Dump_Empty nat

fun oash_dump_loop :: "tn_oash \<Rightarrow> nat \<Rightarrow> nat \<Rightarrow> nat \<Rightarrow> (dump_line list \<times> nat) result" where
  "oash_dump_loop ht i 0 n = Inr ([], n)"
| "oash_dump_loop ht i (Suc k) n =
     rbind (mem_read (oa_table ht) i) (\<lambda>t. rbind (mem_read (oa_data ht) (te_di t)) (\<lambda>d.
       if te_hash t > 0
       then let diff = psldiff (oa_cap ht) t i in
         case d of None \<Rightarrow> Inl Mem_Fault
         | Some d \<Rightarrow> rbind (oash_dump_loop ht (i + 1) k (n + 1)) (\<lambda>(ls, n').
             Inr (Dump_Entry i n (te_hash t) (te_psl t) diff (diff \<noteq> te_psl t) (de_key d) (de_data d) # ls, n'))
       else rbind (oash_dump_loop ht (i + 1) k n) (\<lambda>(ls, n'). Inr (Dump_Empty i # ls, n'))))"

definition n_oash_dump :: "tn_oash \<Rightarrow> (dump_line list \<times> nat) result" where
  "n_oash_dump ht = oash_dump_loop ht 0 (oa_cap ht) 0"

section \<open>Arrays and allocators\<close>

definition n_array_dump_stats :: "tn_array \<Rightarrow> string option \<Rightarrow> string \<times> nat \<times> nat \<times> nat" where
  "n_array_dump_stats arr name =
     ((case name of None \<Rightarrow> '''' | Some s \<Rightarrow> s), arr_allocated arr, arr_items arr, arr_start_index arr)"

text \<open>An allocator over \<open>malloc\<close> has no private data.\<close>

definition n_alloc_debug_dump :: "tn_alloc \<Rightarrow> int result" where
  "n_alloc_debug_dump na = (if al_has_obstack na then Inr (ob_chunk_size (al_ob na)) else Inl Mem_Fault)"

section \<open>Runs\<close>

text \<open>The number of longest runs of \<open>True\<close>; \<open>prev\<close> is what stands in front.\<close>

fun runs :: "bool \<Rightarrow> bool list \<Rightarrow> nat" where
  "runs prev [] = 0"
| "runs prev (x # xs) = (if x \<and> \<not> prev then 1 else 0) + runs x xs"

lemma runs_at:
  "runs p xs = card {i. i < length xs \<and> xs ! i \<and> (if i = 0 then \<not> p else \<not> xs ! (i - 1))}"
proof (induction xs arbitrary: p)
  case (Cons x xs)
  let ?T = "{i. i < length (x # xs) \<and> (x # xs) ! i \<and> (if i = 0 then \<not> p else \<not> (x # xs) ! (i - 1))}"
  let ?S = "{i. i < length xs \<and> xs ! i \<and> (if i = 0 then \<not> x else \<not> xs ! (i - 1))}"
  have "i \<in> ?T \<longleftrightarrow> i \<in> (if x \<and> \<not> p then {0} else {}) \<union> Suc ` ?S" for i
  proof (cases i)
    case (Suc j)
    have "Suc j \<in> Suc ` ?S \<longleftrightarrow> j \<in> ?S" by auto
    then show ?thesis unfolding Suc by (cases j) auto
  qed auto
  then have "?T = (if x \<and> \<not> p then {0} else {}) \<union> Suc ` ?S" by blast
  moreover have "card ((if x \<and> \<not> p then {0} else {}) \<union> Suc ` ?S) = (if x \<and> \<not> p then 1 else 0) + card ?S"
    by (subst card_Un_disjoint) (auto simp: card_image)
  ultimately show ?case using Cons.IH [of x] by simp
qed simp

section \<open>What is counted\<close>

lemma chain_deep_length: "chain_deep d bs = d + int (length bs)"
  by (induction bs arbitrary: d) auto

definition deep_chains :: "hash_bucket list list \<Rightarrow> hash_bucket list list" where
  "deep_chains cs = filter (\<lambda>c. 1 < length c) cs"

lemma hash_stats_loop_fold:
  "i + k \<le> length table \<Longrightarrow> hash_stats_loop table i k st = Inr (foldl hash_stats_slot st (take k (drop i table)))"
proof (induction k arbitrary: i st)
  case (Suc k)
  then have "i < length table" by simp
  then have "take (Suc k) (drop i table) = table ! i # take k (drop (i + 1) table)"
    by (simp add: Cons_nth_drop_Suc [symmetric])
  with Suc \<open>i < length table\<close> show ?case by (simp add: mem_read_ok)
qed simp

lemma slot_counts:
  "st_ncolls (hash_stats_slot st c) = st_ncolls st + (if 1 < length c then 1 else 0)"
  "st_deepsum (hash_stats_slot st c) = st_deepsum st + (if 1 < length c then int (length c) else 0)"
  "0 \<le> st_maxdeep st \<Longrightarrow> st_maxdeep (hash_stats_slot st c) = max (int (length c)) (st_maxdeep st)"
  "st_empty_len (hash_stats_slot st c) = (if c = [] then st_empty_len st + 1 else 0)"
  "0 \<le> st_empty_len st \<Longrightarrow> st_empty_len_sum (hash_stats_slot st c) =
     (if c = [] then st_empty_len_sum st else st_empty_len_sum st + st_empty_len st)"
  "st_empty_len_n (hash_stats_slot st c) = (if c = [] then st_empty_len_n st else st_empty_len_n (end_run st))"
  by (cases c; auto simp: Let_def chain_deep_length end_run_def)+

lemma fold_collisions:
  "st_ncolls (foldl hash_stats_slot st cs) = st_ncolls st + int (length (deep_chains cs))"
  "st_deepsum (foldl hash_stats_slot st cs) = st_deepsum st + int (sum_list (map length (deep_chains cs)))"
  by (induction cs arbitrary: st) (simp_all add: slot_counts deep_chains_def)

lemma fold_maxdeep:
  "0 \<le> st_maxdeep st \<Longrightarrow>
   st_maxdeep (foldl hash_stats_slot st cs) = Max (insert (st_maxdeep st) ((\<lambda>c. int (length c)) ` set cs))"
proof -
  assume "0 \<le> st_maxdeep st"
  then have "st_maxdeep (foldl hash_stats_slot st cs) = fold max (map (\<lambda>c. int (length c)) cs) (st_maxdeep st)"
    by (induction cs arbitrary: st) (simp_all add: slot_counts)
  then show ?thesis using Max.set_eq_fold [of "st_maxdeep st" "map (\<lambda>c. int (length c)) cs"] by simp
qed

text \<open>The run that goes on at the end is counted by \<open>end_run\<close>.\<close>

lemma fold_empty:
  "0 \<le> st_empty_len st \<Longrightarrow>
   st_empty_len_sum (end_run (foldl hash_stats_slot st cs)) =
     st_empty_len_sum st + st_empty_len st + int (length (filter (\<lambda>c. c = []) cs)) \<and>
   st_empty_len_n (end_run (foldl hash_stats_slot st cs)) =
     st_empty_len_n (end_run st) + int (runs (0 < st_empty_len st) (map (\<lambda>c. c = []) cs))"
proof (induction cs arbitrary: st)
  case (Cons c cs)
  have "0 \<le> st_empty_len (hash_stats_slot st c)" using Cons.prems by (simp add: slot_counts)
  from Cons.IH [OF this] Cons.prems show ?case by (auto simp: slot_counts end_run_def [of "hash_stats_slot st c"])
    (simp add: end_run_def)+
qed (auto simp: end_run_def)

text \<open>The same for an open-addressing table, where a run is counted at its start.\<close>

lemma oash_stats_loop_ok:
  "i + k \<le> length tbl \<Longrightarrow> 0 \<le> os_maxpsl st \<Longrightarrow>
   \<exists>st'. oash_stats_loop tbl i k st = Inr st' \<and>
     os_pslsum st' = os_pslsum st + int (sum_list (map te_psl (filter used (take k (drop i tbl))))) \<and>
     os_maxpsl st' = fold max (map (\<lambda>t. int (te_psl t)) (filter used (take k (drop i tbl)))) (os_maxpsl st) \<and>
     os_empty_len_sum st' = os_empty_len_sum st + int (length (filter (\<lambda>t. \<not> used t) (take k (drop i tbl)))) \<and>
     os_empty_blocks st' = os_empty_blocks st +
       int (runs (i \<noteq> 0 \<and> \<not> used (tbl ! (i - 1))) (map (\<lambda>t. \<not> used t) (take k (drop i tbl))))"
proof (induction k arbitrary: i st)
  case (Suc k)
  then have i: "i < length tbl" "i - 1 < length tbl" by auto
  have t: "take (Suc k) (drop i tbl) = tbl ! i # take k (drop (i + 1) tbl)"
    using i by (simp add: Cons_nth_drop_Suc [symmetric])
  show ?case
  proof (cases "used (tbl ! i)")
    case True
    define st1 where "st1 = st\<lparr>os_pslsum := os_pslsum st + int (te_psl (tbl ! i)),
      os_maxpsl := max (int (te_psl (tbl ! i))) (os_maxpsl st)\<rparr>"
    have "oash_stats_loop tbl i (Suc k) st = oash_stats_loop tbl (i + 1) k st1"
      using True i by (auto simp: mem_read_ok used_def st1_def Let_def intro!: arg_cong [where f = "oash_stats_loop tbl (Suc i) k"])
    moreover have "0 \<le> os_maxpsl st1" using Suc.prems by (simp add: st1_def max.coboundedI2)
    ultimately show ?thesis using Suc.IH [of "i + 1" st1] Suc.prems True t by (auto simp: st1_def)
  next
    case False
    define st1 where "st1 = st\<lparr>os_empty_blocks := os_empty_blocks st + (if i = 0 \<or> used (tbl ! (i - 1)) then 1 else 0),
      os_empty_len_sum := os_empty_len_sum st + 1\<rparr>"
    have "oash_stats_loop tbl i (Suc k) st = oash_stats_loop tbl (i + 1) k st1"
      using False i by (auto simp: mem_read_ok used_def st1_def Let_def intro!: arg_cong [where f = "oash_stats_loop tbl (Suc i) k"])
    with Suc.IH [of "i + 1" st1] Suc.prems False t show ?thesis by (auto simp: st1_def)
  qed
qed simp

section \<open>Properties\<close>

definition run_count :: "(nat \<Rightarrow> bool) \<Rightarrow> nat \<Rightarrow> nat" where
  "run_count P n = card {i. i < n \<and> P i \<and> (i = 0 \<or> \<not> P (i - 1))}"

lemma runs_count: "length xs = n \<Longrightarrow> runs False (map P xs) = run_count (\<lambda>i. P (xs ! i)) n"
  unfolding runs_at run_count_def by (rule arg_cong [where f = card]) auto

lemma run_count_cong: "(\<And>i. i < n \<Longrightarrow> P i = Q i) \<Longrightarrow> run_count P n = run_count Q n"
  unfolding run_count_def by (rule arg_cong [where f = card]) auto

text \<open>Every entry is in a chain of its own or in a collision.\<close>

lemma deep_chains_sum:
  "sum_list (map length (deep_chains cs)) + length (filter (\<lambda>c. length c = 1) cs) = length (concat cs)"
proof (induction cs)
  case (Cons c cs)
  then show ?case by (cases c rule: list.exhaust [where P = ?thesis]; cases "tl c") (auto simp: deep_chains_def)
qed (simp add: deep_chains_def)

lemma n_hash_stats_ok:
  assumes "hash_inv ht" "cs = take (hs_size ht) (hs_table ht)"
    "C = int (length (deep_chains cs))" "E = int (length (filter (\<lambda>c. c = []) cs))"
  shows "n_hash_stats ht = Inr (\<lparr>sr_keys = hs_items ht, sr_slots = hs_size ht, sr_load = (100 * int (hs_items ht), int (hs_size ht)),
    sr_empty_len = (if E = 0 then (0, 1) else (E, int (run_count (\<lambda>i. hs_table ht ! i = []) (hs_size ht)))),
    sr_colls = (C, (100 * C, int (hs_items ht))),
    sr_avgdeep = (if C = 0 then (0, 1) else (int (hs_items ht) - int (length (filter (\<lambda>c. length c = 1) cs)), C)),
    sr_maxdeep = int (Max (length ` set cs))\<rparr>, 0)"
proof -
  let ?init = "\<lparr>st_ncolls = 0, st_maxdeep = 0, st_deepsum = 0, st_empty_len_sum = 0, st_empty_len_n = 0, st_empty_len = 0\<rparr>"
  let ?st = "foldl hash_stats_slot ?init cs"
  have size: "0 < hs_size ht" "hs_size ht \<le> length (hs_table ht)" and items: "hs_items ht = length (concat cs)"
    using assms(1,2) by (auto simp: hash_inv_def table_ok_def hash_walk_def)
  have cs: "length cs = hs_size ht" "cs \<noteq> []" using assms(2) size by auto
  have loop: "hash_stats_loop (hs_table ht) 0 (hs_size ht) ?init = Inr ?st"
    using hash_stats_loop_fold [of 0 "hs_size ht" "hs_table ht" ?init] size unfolding assms(2) by (simp only: drop_0 add_0)
  have deep: "st_deepsum ?st = int (hs_items ht) - int (length (filter (\<lambda>c. length c = 1) cs))"
    using fold_collisions(2) [of ?init cs] deep_chains_sum [of cs] items by simp
  have colls: "st_ncolls ?st = C" using fold_collisions(1) [of ?init cs] assms(3) by simp
  have "0 < st_deepsum ?st" if "C \<noteq> 0"
  proof -
    have "deep_chains cs \<noteq> []" using that assms(3) by auto
    then obtain c where "c \<in> set (deep_chains cs)" by (cases "deep_chains cs") auto
    then have "length c \<in> set (map length (deep_chains cs))" "1 < length c" by (auto simp: deep_chains_def)
    then have "length c \<le> sum_list (map length (deep_chains cs))" by (intro member_le_sum_list) auto
    then show ?thesis using fold_collisions(2) [of ?init cs] \<open>1 < length c\<close> by simp
  qed
  moreover have "st_maxdeep ?st = int (Max (length ` set cs))"
  proof -
    have "int (Max (length ` set cs)) = Max (int ` length ` set cs)" using cs(2) by (intro mono_Max_commute) (auto simp: mono_def)
    moreover have "Max (insert 0 (int ` length ` set cs)) = max 0 (Max (int ` length ` set cs))" using cs(2) by (intro Max_insert) auto
    ultimately show ?thesis using fold_maxdeep [of ?init cs] by (simp add: image_image)
  qed
  moreover have "st_empty_len_sum (end_run ?st) = E"
      "st_empty_len_n (end_run ?st) = int (run_count (\<lambda>i. hs_table ht ! i = []) (hs_size ht))"
    using fold_empty [of ?init cs] runs_count [OF cs(1), of "\<lambda>c. c = []"] assms(2,4)
      run_count_cong [of "hs_size ht" "\<lambda>i. cs ! i = []" "\<lambda>i. hs_table ht ! i = []"]
    by (simp_all add: end_run_def [of ?init])
  moreover have "st_ncolls (end_run ?st) = st_ncolls ?st" "st_deepsum (end_run ?st) = st_deepsum ?st"
      "st_maxdeep (end_run ?st) = st_maxdeep ?st"
    by (simp_all add: end_run_def)
  ultimately show ?thesis using loop colls deep assms(3) by (simp add: n_hash_stats_def Let_def)
qed

lemma n_oash_stats_ok:
  assumes "oash_inv ht" "us = filter (\<lambda>i. used (oa_table ht ! i)) [0..<oa_cap ht]"
    "dist = (\<lambda>i. int (psldiff (oa_cap ht) (oa_table ht ! i) i))" "E = int (oa_cap ht) - int (oa_size ht)"
  shows "n_oash_stats ht = Inr (\<lparr>or_keys = oa_size ht, or_slots = oa_cap ht, or_load = (100 * int (oa_size ht), int (oa_cap ht)),
    or_empty_len = (if E = 0 then (0, 1) else (E, int (run_count (\<lambda>i. \<not> used (oa_table ht ! i)) (oa_cap ht)))),
    or_avgpsl = (if sum_list (map dist us) = 0 then (0, 1) else (sum_list (map dist us), int (oa_size ht))),
    or_maxpsl = Max (insert 0 (dist ` set us))\<rparr>, 0)"
proof -
  let ?T = "oa_table ht" and ?cap = "oa_cap ht"
  let ?st0 = "\<lparr>os_pslsum = 0, os_empty_len_sum = 0, os_empty_blocks = 0, os_maxpsl = 0\<rparr>"
  obtain m where m: "?cap = 2 ^ m" and rh: "rh_inv ?cap ?T" and sz: "oa_size ht = length (filter used ?T)"
    using assms(1) by (auto simp: oash_inv_def entries_def)
  have len: "length ?T = ?cap" using rh by (simp add: rh_inv_def)
  have us: "filter used ?T = map ((!) ?T) us"
    using assms(2) len map_nth [of ?T] filter_map [of used "(!) ?T" "[0..<?cap]"] by (simp add: comp_def)
  have psl: "int (te_psl (?T ! i)) = dist i" if "i \<in> set us" for i
    using that assms(2,3) rh psldiff_slot [OF tindex_pow [OF m]] by (auto simp: rh_inv_def)
  have E: "int (length (filter (\<lambda>t. \<not> used t) ?T)) = E"
    using assms(4) sz len sum_length_filter_compl [of used ?T] by simp
  from oash_stats_loop_ok [of 0 ?cap ?T ?st0] len obtain st where st: "oash_stats_loop ?T 0 ?cap ?st0 = Inr st"
    "os_pslsum st = int (sum_list (map te_psl (filter used ?T)))"
    "os_maxpsl st = fold max (map (\<lambda>t. int (te_psl t)) (filter used ?T)) 0"
    "os_empty_len_sum st = E" "os_empty_blocks st = int (runs False (map (\<lambda>t. \<not> used t) ?T))"
    using E by auto
  have "os_pslsum st = sum_list (map dist us)"
    using st(2) psl us by (simp add: sum_list_of_nat [symmetric] comp_def cong: map_cong)
  moreover have "os_maxpsl st = Max (insert 0 (dist ` set us))"
    using st(3) psl us Max.set_eq_fold [of 0 "map dist us"] by (simp add: comp_def cong: map_cong)
  moreover have "0 \<le> sum_list (map dist us)" by (rule sum_list_nonneg) (auto simp: assms(3))
  ultimately show ?thesis using st runs_count [OF len, of "\<lambda>t. \<not> used t"] by (simp add: n_oash_stats_def)
qed

text \<open>The dump lists every entry once, in the order of the slots, and never says \<open>DIFFER\<close>.\<close>

definition line_of :: "tn_oash \<Rightarrow> nat \<Rightarrow> nat \<Rightarrow> dump_line" where
  "line_of ht n i = (let t = oa_table ht ! i; d = the (oa_data ht ! te_di t) in
     if used t then Dump_Entry i n (te_hash t) (te_psl t) (te_psl t) False (de_key d) (de_data d) else Dump_Empty i)"

lemma oash_dump_loop_ok:
  assumes "oash_inv ht" "\<And>t. t \<in> set (oa_table ht) \<Longrightarrow> te_di t < oa_cap ht"
  shows "i + k \<le> oa_cap ht \<Longrightarrow> \<exists>ls. oash_dump_loop ht i k n = Inr (ls, n + length (filter used (take k (drop i (oa_table ht))))) \<and>
    length ls = k \<and> (\<forall>j < k. \<exists>n'. ls ! j = line_of ht n' (i + j))"
proof (induction k arbitrary: i n)
  case (Suc k)
  let ?t = "oa_table ht ! i"
  obtain m where m: "oa_cap ht = 2 ^ m" and rh: "rh_inv (oa_cap ht) (oa_table ht)"
    and data: "data_ok (oa_data ht) (entries (oa_table ht))" "length (oa_data ht) = oa_cap ht"
    using assms(1) by (auto simp: oash_inv_def)
  have i: "i < length (oa_table ht)" "i < oa_cap ht" using Suc.prems rh by (auto simp: rh_inv_def)
  have t: "take (Suc k) (drop i (oa_table ht)) = ?t # take k (drop (i + 1) (oa_table ht))"
    using i by (simp add: Cons_nth_drop_Suc [symmetric])
  have di: "mem_read (oa_data ht) (te_di ?t) = Inr (oa_data ht ! te_di ?t)"
    using assms(2) [OF nth_mem [OF i(1)]] data(2) by (simp add: mem_read_def)
  have psl: "used ?t \<Longrightarrow> psldiff (oa_cap ht) ?t i = te_psl ?t"
    using psldiff_slot [OF tindex_pow [OF m]] rh i by (simp add: rh_inv_def)
  have d: "used ?t \<Longrightarrow> \<exists>d. oa_data ht ! te_di ?t = Some d"
  proof -
    assume "used ?t"
    then have "payload ?t \<in> set (entries (oa_table ht))" using i(1) by (auto simp: in_entries)
    with data(1) have "pl_ok (oa_data ht) (payload ?t)" by (simp add: data_ok_def)
    then show ?thesis by (auto simp: pl_ok_def pl_di_def payload_def)
  qed
  obtain ls where ls: "oash_dump_loop ht (i + 1) k (n + (if used ?t then 1 else 0)) =
      Inr (ls, n + (if used ?t then 1 else 0) + length (filter used (take k (drop (i + 1) (oa_table ht)))))"
    "length ls = k" "\<forall>j < k. \<exists>n'. ls ! j = line_of ht n' (i + 1 + j)"
    using Suc.IH [of "i + 1" "n + (if used ?t then 1 else 0)"] Suc.prems by auto
  have "oash_dump_loop ht i (Suc k) n = Inr (line_of ht n i # ls, n + length (filter used (take (Suc k) (drop i (oa_table ht)))))"
    using ls(1) i(1) di psl d t by (cases "used ?t") (auto simp: mem_read_ok used_def line_of_def Let_def word_neq_0_conv)
  moreover have "\<exists>n'. (line_of ht n i # ls) ! j = line_of ht n' (i + j)" if "j < Suc k" for j
    using that ls(3) by (cases j) auto
  ultimately show ?case using ls(2) by auto
qed simp

lemma n_oash_dump_ok:
  assumes "oash_inv ht" "\<And>t. t \<in> set (oa_table ht) \<Longrightarrow> te_di t < oa_cap ht"
  shows "\<exists>ls. n_oash_dump ht = Inr (ls, oa_size ht) \<and> length ls = oa_cap ht \<and>
    (\<forall>i < oa_cap ht. \<exists>n. ls ! i = line_of ht n i)"
  using oash_dump_loop_ok [OF assms, of 0 "oa_cap ht" 0] assms(1)
  by (auto simp: n_oash_dump_def oash_inv_def entries_def rh_inv_def)

text \<open>C40: The statistics of both hash tables are right. For a chained table: the slots with more than
  one entry, the entries in them, the longest chain, the empty slots and the runs of them. For an
  open-addressing table: the sum and the greatest of the distances of the entries from their home
  slots, which are the stored \<open>psl\<close>, the empty slots and their runs. One function counts a run where
  it ends and the other where it starts. Both return 0. With a chained table that has no entry the
  share of collisions is \<open>0 / 0\<close>.\<close>
theorem hash_stats_count:
  assumes "hash_inv ht" "oash_inv oht"
  shows "(\<exists>r. n_hash_stats ht = Inr (r, 0) \<and> sr_maxdeep r = int (Max (length ` set (take (hs_size ht) (hs_table ht)))) \<and>
      (let cs = take (hs_size ht) (hs_table ht);
           C = int (length (filter (\<lambda>c. 1 < length c) cs)); E = int (length (filter (\<lambda>c. c = []) cs));
           S = int (length (filter (\<lambda>c. length c = 1) cs)); N = int (n_hash_size ht) in
        sr_empty_len r = (if E = 0 then (0, 1) else (E, int (run_count (\<lambda>i. hs_table ht ! i = []) (hs_size ht)))) \<and>
        sr_colls r = (C, (100 * C, N)) \<and> sr_avgdeep r = (if C = 0 then (0, 1) else (N - S, C)))) \<and>
    (\<exists>r. n_oash_stats oht = Inr (r, 0) \<and>
      (let T = oa_table oht; us = filter (\<lambda>i. used (T ! i)) [0..<oa_cap oht];
           dist = (\<lambda>i. int (psldiff (oa_cap oht) (T ! i) i)); sum = sum_list (map dist us);
           E = int (oa_cap oht) - int (n_oash_size oht) in
        or_empty_len r = (if E = 0 then (0, 1) else (E, int (run_count (\<lambda>i. \<not> used (T ! i)) (oa_cap oht)))) \<and>
        or_avgpsl r = (if sum = 0 then (0, 1) else (sum, int (n_oash_size oht))) \<and>
        or_maxpsl r = Max (insert 0 (dist ` set us))))"
  using n_hash_stats_ok [OF assms(1) refl refl refl] n_oash_stats_ok [OF assms(2) refl refl refl]
  by (simp add: Let_def deep_chains_def n_hash_size_def n_oash_size_def)

theorem hash_stats_count_witness:
  "\<exists>r oht r'. n_hash_stats two_chain = Inr (r, 0) \<and> sr_maxdeep r = 2 \<and> sr_colls r = (1, (100, 2)) \<and>
    sr_avgdeep r = (2, 1) \<and> sr_empty_len r = (0, 1) \<and> oa_size oht = oa_cap oht \<and> oash_map oht \<noteq> Map.empty \<and>
    n_oash_stats oht = Inr (r', 0) \<and> or_empty_len r' = (0, 1)"
proof -
  obtain oht where o: "oash_inv oht" "oa_size oht = oa_cap oht" "oash_map oht = [[97] \<mapsto> 5, [97, 98] \<mapsto> 6]"
    using two_slots by blast
  then have "oash_map oht [97] \<noteq> Map.empty [97]" by simp
  then have "oash_map oht \<noteq> Map.empty" by metis
  with hash_stats_count [OF two_chain_inv(1) o(1)] o(2) show ?thesis
    by (auto simp: two_chain_def Let_def n_hash_size_def n_oash_size_def)
qed

end
