(* ===== verification/Spec2Isabelle.thy ===== *)
theory Spec2Isabelle
  imports Prelude Interfaces ArrayRefine ArraySort HashReach LinkedListProps OashRefine Tuple Store BufProps StrProps EtoklProps ObstackProps AllocProps IobufProps BackendProps Memory Stats
begin

text \<open>
  TRURLib, the utility library of poldek: containers, sorting, strings, buffers, streams and
  allocators in C. The theories model its C files routine by routine, as executable functions
  on explicit states, and prove what makes each component correct. This theory gathers them
  and holds the properties that span two components of equal standing.

  \<^bold>\<open>How the program is modelled.\<close> \<open>Prelude\<close> has the ground: a result is a value or a \<open>failure\<close>, which is a
  fatal message (\<open>Died\<close>), a failed assertion, an access outside a block or through \<open>NULL\<close>
  (\<open>Mem_Fault\<close>) or a loop that never ends (\<open>Hang\<close>). The hooks of \<open>ndie.c\<close> and \<open>nassert.c\<close> that let a
  program go on after a message are two flags of the environment \<open>env\<close>; every call of \<open>n_die\<close>
  and \<open>n_assert\<close> in the code is a branch of the model, and the properties hold for both settings
  unless they say otherwise. A pointer is a 64-bit word, an integer that can wrap is a word of its width or an
  \<open>int\<close> cut where the code cuts it, functions given by the caller are looked up in \<open>env\<close>
  or are arguments. What such a function is called with is kept in a trace of the
  structure (\<open>arr_freed\<close>, \<open>hs_freed\<close>, \<open>oa_freed\<close>), so that properties can tell what is freed, in
  which order and how often. In the containers \<open>malloc\<close> does not fail: they do not test its answer, and
  without a handler \<open>n_malloc\<close> ends the program (\<open>Exited\<close>), which \<open>Memory\<close> has.

  \<^bold>\<open>The parts.\<close>

  \<^item> Dynamic array (\<open>n_array_*.c\<close>): \<open>Arrays\<close> is the model, the record has the fields of the C struct and the
    block as a list; \<open>ArrayProps\<close> relates it to a list, \<open>ArrayRefine\<close> shows that any sequence of calls on a
    new array answers as on a list, and what happens to an array whose front was shifted off.

  \<^item> Sorting and searching (\<open>n_array_sorts.c\<close>, \<open>n_array_bsearch_ex.c\<close>, \<open>vendor/sort.h\<close>): \<open>Sorts\<close> has insertion sort,
    quick sort and binary search on a block, \<open>TimSort\<close> the merging sort that every array sort ends
    in, with its stack of runs; \<open>ArraySort\<close> puts them on the array. Stable sorting is stated for any comparison that orders the items; the quick sort is
    shown to stay inside its block for any function at all.

  \<^item> Chained hash table (\<open>n_hash_*.c\<close>): \<open>Hash\<close> is the model with its three slots for each key and the
    murmur hash on words; \<open>HashProps\<close> has the invariant and the map, \<open>HashReach\<close> the copies and the tables a
    program can reach, as an inductive set.

  \<^item> Linked list (\<open>n_list_*.c\<close>): \<open>LinkedList\<close> has nodes in a heap of addresses, so that a stale \<open>tail\<close> is
    what it is in C; \<open>LinkedListProps\<close> follows a path predicate and proves the agreement with a list
    that has one more bit.

  \<^item> Open-addressing hash table (\<open>noash.c\<close>): \<open>Oash\<close> models Robin Hood probing with 16-bit probe lengths and removal by
    shifting back; \<open>OashProps\<close> has the invariant, \<open>OashRefine\<close> the map, full tables, walking, and the cases
    where keys with equal hash values mislead it.

  \<^item> Tuple (\<open>ntuple.c\<close>): \<open>Tuple\<close>, which shares the sorts.

  \<^item> Streams (\<open>nstream.c\<close>, \<open>nstream.h\<close>, \<open>n2h.h\<close>): \<open>Stream\<close> is a stream over a C library file, a list of bytes with a position
    and the size the device allows. \<open>Backend\<close> has the table of functions a stream really goes
    through, opening and closing, and the wrappers of \<open>nstream_z.c\<close> and \<open>nstream_zng.c\<close>; \<open>BackendProps\<close> shows that over the
    C library the two are the same.

  \<^item> Compressed files (\<open>niobuf.c\<close>, \<open>niobuf_zstd.c\<close>): \<open>Iobuf\<close>; the functions of \<open>libzstd\<close> are the record
    \<open>zstd_lib\<close>, an argument of every definition. \<open>IobufProps\<close> states what a decoder and an encoder must promise
    (\<open>decoder_ok\<close>, \<open>encoder_ok\<close>) and shows that reading with its pending seeks answers as the plain bytes do,
    and that what is written is read back. The library that stores bytes as they are keeps
    both promises and serves the witnesses.

  \<^item> Numbers and stored tables (\<open>nstore.c\<close>, parts of \<open>noash.c\<close>): \<open>Numbers\<close>, \<open>Store\<close>.

  \<^item> Dynamic buffer (\<open>nbuf.c\<close>): \<open>Buf\<close> has a block with cells nobody has written yet, \<open>BufProps\<close> its agreement with
    a byte file and the round trips of numbers, lines and stored buffers.

  \<^item> Strings (\<open>nstr*.c\<close>): \<open>Str\<close> and \<open>StrProps\<close> for the functions on strings, \<open>Etokl\<close> and \<open>EtoklProps\<close> for the tokenizer
    with quotes and escapes, a state machine given as a function and as a step relation.

  \<^item> Obstacks and allocators (\<open>lib/obstack.c\<close>, \<open>nmalloc.c\<close>): \<open>Obstack\<close> models chunks at integer addresses, with the
    function that gives out chunks as an argument; \<open>ObstackProps\<close> shows that it is a stack of byte strings.
    \<open>Alloc\<close> puts the allocator on top, whose strings are kept once by an open-addressing table that lives in
    the allocator itself; \<open>AllocProps\<close> shows that and that the last reference frees everything.

  \<^item> Memory functions (\<open>nmalloc.c\<close>, \<open>xmalloc.c\<close>): \<open>Memory\<close> has a heap of live blocks, the functions of the C library
    as the record \<open>libc\<close> with what the C standard promises (\<open>libc_ok\<close>), and the handler for the want of
    memory. A program that only uses these functions on pointers of its own never leaves its
    blocks, and what the handler is called for is told.

  \<^item> Statistics (\<open>n_hash_stats.c\<close>, parts of \<open>noash.c\<close>, \<open>n_array_dump_stats.c\<close>): \<open>Stats\<close> has the counters and the arguments of
    \<open>printf\<close>, and shows that they count what they are called for.

  \<^bold>\<open>Contracts.\<close> Where components rely on each other the contract is a locale, interpreted on the
  model of each component that keeps it: \<open>stack\<close> (array) and \<open>deque\<close> (list), \<open>dict\<close> (both hash tables),
  \<open>ordering_cmp\<close> (the default comparison), \<open>num_writer\<close> and \<open>num_reader\<close> (streams and buffers), \<open>byte_source\<close>
  (the Zstandard back end), \<open>any_reader\<close> (C library files and compressed files), and \<open>simulation\<close>, an
  object that answers every sequence of calls as its specification does (buffers, obstacks,
  compressed files, streams). The properties are run lemmas of these locales over the model.

  \<^bold>\<open>Kinds of lemmas.\<close> In each component: what an operation does in each branch, as an equation or with
  the state it returns; the invariant and that every operation keeps it; the relation to
  the abstract object; runs of calls. Errors of the code are theorems too, where an
  input leads to a fault, a hang or a wrong answer.

  \<^bold>\<open>Bounds and fuel.\<close> The sizes of an array are \<open>size_t\<close>, modelled as naturals, and the one that is sorted has less
  than \<open>2\<^sup>6\<^sup>4\<close> items, \<open>2\<^sup>3\<^sup>2\<close> for the quick sort; a buffer has up to \<open>2\<^sup>2\<^sup>8\<close> bytes, below where its \<open>int\<close> sizes wrap when it doubles; a chained table has up to \<open>2\<^sup>2\<^sup>6\<close> keys, so that growing by four stays in 32 bits; an
  open-addressing table has at most \<open>2\<^sup>1\<^sup>6\<close> slots because its probe lengths have 16 bits; strings are
  shorter than \<open>2\<^sup>3\<^sup>1\<close>. Loops are recursive functions with a measure, or partial functions where the code
  has nothing that would end them (the loops of the back ends over library calls), and then the properties say that they
  end. Walks along pointers of a list have as many steps as there are addresses, and say
  \<open>Hang\<close> for a circle. The probe loops of the open-addressing table have the number of slots as fuel: a probe
  that has seen every slot is at its start again.

  \<^bold>\<open>Not modelled.\<close> The text that \<open>printf\<close> makes of its arguments, \<open>vsnprintf\<close> itself (its text is an
  argument), the operating system behind \<open>fopen\<close>, the gzip and Zstandard libraries and \<open>malloc\<close> of the C library
  (arguments), what the containers do when \<open>malloc\<close> fails and a handler comes back, \<open>nstring.c\<close>, which is unfinished and
  not built, the tests and the benchmarks with their vendored tables and hash functions.
  Outside \<open>Memory\<close> a block that was given back is not given out again.
\<close>

section \<open>Properties across components\<close>



end
